(* ===== verification/Prelude.thy ===== *)
theory Prelude
  imports Main "HOL-Library.Word"
begin

text \<open>
  The base of the development: the outcome of a piece of kernel code, the combinators the
  translated C functions are written with, the lens that runs a component's operation inside a
  larger state, and the rules and list lemmas the component proofs share.

  A C function that works on a state of type \<open>'s\<close> and returns an \<open>'a\<close> is a function
  \<open>'s \<Rightarrow> ('s, 'a) outcome\<close>. Besides returning it can
  \<^item> give the processor to another process (\<open>Switched\<close>: \<open>KernelContextSwitch\<close> with
    \<open>KCSwitch\<close> has succeeded, so the rest of the caller runs only when the process is resumed),
  \<^item> stop the machine (\<open>Halted\<close>: the hardware's \<open>Halt\<close>),
  \<^item> do something C or the machine does not define (\<open>Fault\<close>: a dereference of a null or
    freed pointer, an index outside an array, an access to an unmapped page, a loop that never ends).
\<close>

unbundle bit_operations_syntax

section \<open>Types and outcomes\<close>

type_synonym addr = nat \<comment> \<open>address of an object of the kernel heap; \<open>0\<close> is \<open>NULL\<close>\<close>
type_synonym byte = "8 word"
type_synonym word32 = "32 word"

datatype fault = NullDeref | UseAfterFree | OutOfBounds | PageFault | Diverges | BadResume

datatype ('s, 'a) outcome = Ret 'a 's | Switched 's | Halted 's | Fault fault

type_synonym ('s, 'a) prog = "'s \<Rightarrow> ('s, 'a) outcome"

section \<open>Combinators\<close>

definition ret :: "'a \<Rightarrow> ('s, 'a) prog" where
  "ret a = (\<lambda>s. Ret a s)"

definition bnd :: "('s, 'a) prog \<Rightarrow> ('a \<Rightarrow> ('s, 'b) prog) \<Rightarrow> ('s, 'b) prog" where
  "bnd m f = (\<lambda>s. case m s of
      Ret a t \<Rightarrow> f a t | Switched t \<Rightarrow> Switched t | Halted t \<Rightarrow> Halted t | Fault e \<Rightarrow> Fault e)"

definition thn :: "('s, 'a) prog \<Rightarrow> ('s, 'b) prog \<Rightarrow> ('s, 'b) prog" where
  "thn m k = bnd m (\<lambda>_. k)"

definition gets :: "('s \<Rightarrow> 'a) \<Rightarrow> ('s, 'a) prog" where
  "gets f = (\<lambda>s. Ret (f s) s)"

definition modify :: "('s \<Rightarrow> 's) \<Rightarrow> ('s, unit) prog" where
  "modify f = (\<lambda>s. Ret () (f s))"

definition halt :: "('s, 'a) prog" where
  "halt = (\<lambda>s. Halted s)"

definition fail :: "fault \<Rightarrow> ('s, 'a) prog" where
  "fail e = (\<lambda>s. Fault e)"

text \<open>A dereference: the pointer must be non-null and the object live.\<close>

definition deref :: "('s \<Rightarrow> addr \<Rightarrow> 'o option) \<Rightarrow> addr \<Rightarrow> ('s, 'o) prog" where
  "deref store a = (\<lambda>s. if a = 0 then Fault NullDeref
     else case store s a of None \<Rightarrow> Fault UseAfterFree | Some ob \<Rightarrow> Ret ob s)"

text \<open>
  \<^verbatim>\<open>for (i = a; i < n; i++) body\<close> where the body may return from the function (\<open>Some r\<close>).
\<close>

primrec loop :: "nat \<Rightarrow> nat \<Rightarrow> (nat \<Rightarrow> ('s, 'r option) prog) \<Rightarrow> ('s, 'r option) prog" where
  "loop 0 i body = ret None"
| "loop (Suc k) i body =
     bnd (body i) (\<lambda>r. case r of None \<Rightarrow> loop k (Suc i) body | Some x \<Rightarrow> ret (Some x))"

definition for_ret :: "nat \<Rightarrow> nat \<Rightarrow> (nat \<Rightarrow> ('s, 'r option) prog) \<Rightarrow> ('s, 'r option) prog" where
  "for_ret a n body = loop (n - a) a body"

text \<open>The same loop when the body never returns early.\<close>

definition for_do :: "nat \<Rightarrow> nat \<Rightarrow> (nat \<Rightarrow> ('s, unit) prog) \<Rightarrow> ('s, unit) prog" where
  "for_do a n body =
     thn (for_ret a n (\<lambda>i. thn (body i) (ret (None :: unit option)))) (ret ())"

text \<open>Run an operation of a component on its part of a larger state.\<close>

definition zoom :: "('s \<Rightarrow> 'c) \<Rightarrow> ('c \<Rightarrow> 's \<Rightarrow> 's) \<Rightarrow> ('c, 'a) prog \<Rightarrow> ('s, 'a) prog" where
  "zoom g u m = (\<lambda>s. case m (g s) of
      Ret a c \<Rightarrow> Ret a (u c s) | Switched c \<Rightarrow> Switched (u c s)
    | Halted c \<Rightarrow> Halted (u c s) | Fault e \<Rightarrow> Fault e)"

section \<open>Equations of the combinators\<close>

named_theorems prog_simps \<open>evaluation of programs applied to a state\<close>

lemma ret_app [prog_simps]: "ret a s = Ret a s"
  by (simp add: ret_def)

lemma gets_app [prog_simps]: "gets f s = Ret (f s) s"
  by (simp add: gets_def)

lemma modify_app [prog_simps]: "modify f s = Ret () (f s)"
  by (simp add: modify_def)

lemma halt_app [prog_simps]: "halt s = Halted s"
  by (simp add: halt_def)

lemma fail_app [prog_simps]: "fail e s = Fault e"
  by (simp add: fail_def)

lemma bnd_app [prog_simps]:
  "bnd m f s = (case m s of
      Ret a t \<Rightarrow> f a t | Switched t \<Rightarrow> Switched t | Halted t \<Rightarrow> Halted t | Fault e \<Rightarrow> Fault e)"
  by (simp add: bnd_def)

lemma thn_app [prog_simps]:
  "thn m k s = (case m s of
      Ret a t \<Rightarrow> k t | Switched t \<Rightarrow> Switched t | Halted t \<Rightarrow> Halted t | Fault e \<Rightarrow> Fault e)"
  by (simp add: thn_def bnd_def)

lemma thn_assoc: "thn m (thn k l) = thn (thn m k) l"
  by (rule ext) (simp add: thn_app split: outcome.split)

lemma thn_Ret: "m s = Ret x t \<Longrightarrow> thn m k s = k t"
  by (simp add: thn_app)

lemma zoom_app [prog_simps]:
  "zoom g u m s = (case m (g s) of
      Ret a c \<Rightarrow> Ret a (u c s) | Switched c \<Rightarrow> Switched (u c s)
    | Halted c \<Rightarrow> Halted (u c s) | Fault e \<Rightarrow> Fault e)"
  by (simp add: zoom_def)

lemma deref_app [prog_simps]:
  "deref store a s = (if a = 0 then Fault NullDeref
     else case store s a of None \<Rightarrow> Fault UseAfterFree | Some ob \<Rightarrow> Ret ob s)"
  by (simp add: deref_def)

lemma for_ret_done [prog_simps]: "n \<le> a \<Longrightarrow> for_ret a n body s = Ret None s"
  by (simp add: for_ret_def ret_app)

lemma for_ret_step [prog_simps]:
  assumes "a < n"
  shows "for_ret a n body s =
    bnd (body a) (\<lambda>r. case r of None \<Rightarrow> for_ret (Suc a) n body | Some x \<Rightarrow> ret (Some x)) s"
proof -
  from assms have "n - a = Suc (n - Suc a)" by simp
  then show ?thesis by (simp add: for_ret_def cong: option.case_cong)
qed

lemma for_do_done [prog_simps]: "n \<le> a \<Longrightarrow> for_do a n body s = Ret () s"
  by (simp add: for_do_def thn_app for_ret_done ret_app)

lemma for_do_step [prog_simps]:
  assumes "a < n"
  shows "for_do a n body s = thn (body a) (for_do (Suc a) n body) s"
  using assms
  by (cases "body a s") (simp_all add: for_do_def thn_app bnd_app for_ret_step ret_app)

section \<open>Invariants of programs\<close>

text \<open>
  \<open>keeps I m\<close>: from a state with \<open>I\<close> the program ends in a state with \<open>I\<close>, whether it
  returns, switches or halts. \<open>gives I m Q\<close> adds what the returned value and state satisfy, and
  that the program does not fault.
\<close>

definition holds_after :: "('s \<Rightarrow> bool) \<Rightarrow> ('s, 'a) outcome \<Rightarrow> bool" where
  "holds_after I r = (case r of Ret a t \<Rightarrow> I t | Switched t \<Rightarrow> I t | Halted t \<Rightarrow> I t | Fault e \<Rightarrow> True)"

definition keeps :: "('s \<Rightarrow> bool) \<Rightarrow> ('s, 'a) prog \<Rightarrow> bool" where
  "keeps I m \<longleftrightarrow> (\<forall>s. I s \<longrightarrow> holds_after I (m s))"

named_theorems keeps_intros \<open>preservation rules, one per combinator and operation\<close>

lemma holds_after_simps [simp]:
  "holds_after I (Ret a t) = I t" "holds_after I (Switched t) = I t"
  "holds_after I (Halted t) = I t" "holds_after I (Fault e)"
  by (simp_all add: holds_after_def)

lemma keepsI: "(\<And>s. I s \<Longrightarrow> holds_after I (m s)) \<Longrightarrow> keeps I m"
  by (simp add: keeps_def)

lemma keepsD: "keeps I m \<Longrightarrow> I s \<Longrightarrow> holds_after I (m s)"
  by (simp add: keeps_def)

lemma keeps_Ret: "keeps I m \<Longrightarrow> I s \<Longrightarrow> m s = Ret a t \<Longrightarrow> I t"
  by (drule keepsD) auto

lemma keeps_ret [keeps_intros]: "keeps I (ret a)"
  by (simp add: keeps_def prog_simps)

lemma keeps_gets [keeps_intros]: "keeps I (gets f)"
  by (simp add: keeps_def prog_simps)

lemma keeps_halt [keeps_intros]: "keeps I halt"
  by (simp add: keeps_def prog_simps)

lemma keeps_fail [keeps_intros]: "keeps I (fail e)"
  by (simp add: keeps_def prog_simps)

lemma keeps_modify [keeps_intros]: "(\<And>s. I s \<Longrightarrow> I (f s)) \<Longrightarrow> keeps I (modify f)"
  by (simp add: keeps_def prog_simps)

lemma keeps_deref [keeps_intros]: "keeps I (deref st a)"
  by (auto simp: keeps_def prog_simps split: option.split)

lemma keeps_bnd [keeps_intros]:
  "keeps I m \<Longrightarrow> (\<And>a. keeps I (f a)) \<Longrightarrow> keeps I (bnd m f)"
  unfolding keeps_def bnd_app by (fastforce split: outcome.splits)

lemma keeps_thn [keeps_intros]:
  "keeps I m \<Longrightarrow> keeps I k \<Longrightarrow> keeps I (thn m k)"
  by (simp add: thn_def keeps_bnd)

lemma keeps_if [keeps_intros]:
  "(c \<Longrightarrow> keeps I m) \<Longrightarrow> (\<not> c \<Longrightarrow> keeps I k) \<Longrightarrow> keeps I (if c then m else k)"
  by simp

lemma keeps_case_option [keeps_intros]:
  "(x = None \<Longrightarrow> keeps I m) \<Longrightarrow> (\<And>y. x = Some y \<Longrightarrow> keeps I (f y)) \<Longrightarrow>
   keeps I (case x of None \<Rightarrow> m | Some y \<Rightarrow> f y)"
  by (cases x) auto

lemma keeps_loop:
  "(\<And>i. keeps I (body i)) \<Longrightarrow> keeps I (loop k i body)"
  by (induction k arbitrary: i) (auto intro!: keeps_intros)

lemma keeps_for_ret [keeps_intros]:
  "(\<And>i. keeps I (body i)) \<Longrightarrow> keeps I (for_ret a n body)"
  by (simp add: for_ret_def keeps_loop)

lemma keeps_for_do [keeps_intros]:
  "(\<And>i. keeps I (body i)) \<Longrightarrow> keeps I (for_do a n body)"
  by (auto simp: for_do_def intro!: keeps_intros)

text \<open>
  An invariant of the large state carries over to a component's operation when the operation keeps
  what the invariant says of the component.
\<close>

lemma keeps_zoom:
  assumes "\<And>s. I s \<Longrightarrow> holds_after (\<lambda>c. I (u c s)) (m (g s))"
  shows "keeps I (zoom g u m)"
proof (rule keepsI)
  fix s assume "I s"
  from assms [OF this] show "holds_after I (zoom g u m s)"
    by (cases "m (g s)") (auto simp: zoom_app)
qed

text \<open>
  \<open>leads J m I\<close>: from a state with \<open>J\<close> every way \<open>m\<close> ends, ends with \<open>I\<close>. It splits a
  preservation proof where a later step relies on what an earlier one has read.
\<close>

definition leads :: "('s \<Rightarrow> bool) \<Rightarrow> ('s, 'a) prog \<Rightarrow> ('s \<Rightarrow> bool) \<Rightarrow> bool" where
  "leads J m I \<longleftrightarrow> (\<forall>s. J s \<longrightarrow> holds_after I (m s))"

lemma leadsI: "(\<And>s. J s \<Longrightarrow> holds_after I (m s)) \<Longrightarrow> leads J m I"
  by (simp add: leads_def)

lemma keeps_leads: "keeps I m \<longleftrightarrow> leads I m I"
  by (simp add: keeps_def leads_def)

lemma holds_after_mono: "holds_after J r \<Longrightarrow> (\<And>s. J s \<Longrightarrow> I s) \<Longrightarrow> holds_after I r"
  by (cases r) auto

lemma leads_mono: "leads J m K \<Longrightarrow> (\<And>s. K s \<Longrightarrow> I s) \<Longrightarrow> leads J m I"
  unfolding leads_def using holds_after_mono by blast

lemma leads_pre: "keeps I m \<Longrightarrow> (\<And>s. J s \<Longrightarrow> I s) \<Longrightarrow> leads J m I"
  unfolding leads_def keeps_def by blast

lemma leads_bnd:
  assumes "leads J m K" and "\<And>s. K s \<Longrightarrow> I s" and "\<And>a. leads K (f a) I"
  shows "leads J (bnd m f) I"
proof (rule leadsI)
  fix s assume "J s"
  with assms(1) have "holds_after K (m s)" by (simp add: leads_def)
  with assms(2,3) show "holds_after I (bnd m f s)"
    by (cases "m s") (auto simp: bnd_app leads_def)
qed

lemma leads_thn:
  "leads J m K \<Longrightarrow> (\<And>s. K s \<Longrightarrow> I s) \<Longrightarrow> leads K k I \<Longrightarrow> leads J (thn m k) I"
  unfolding thn_def by (rule leads_bnd)

lemma leads_gets: "(\<And>s. J s \<Longrightarrow> I s) \<Longrightarrow> (\<And>a. leads J (f a) I) \<Longrightarrow> leads J (bnd (gets g) f) I"
  by (simp add: leads_def prog_simps)

lemma leads_ret: "(\<And>s. J s \<Longrightarrow> I s) \<Longrightarrow> leads J (ret a) I"
  by (simp add: leads_def prog_simps)

lemma leads_bnd_val:
  assumes "leads J m K" and "\<And>s. K s \<Longrightarrow> I s" and "\<And>s a t. m s = Ret a t \<Longrightarrow> V a"
    and "\<And>a. V a \<Longrightarrow> leads K (f a) I"
  shows "leads J (bnd m f) I"
proof (rule leadsI)
  fix s assume "J s"
  with assms(1) have "holds_after K (m s)" by (simp add: leads_def)
  with assms(2-4) show "holds_after I (bnd m f s)"
    by (cases "m s") (auto simp: bnd_app leads_def)
qed

lemma leads_if: "(c \<Longrightarrow> leads J m I) \<Longrightarrow> (\<not> c \<Longrightarrow> leads J k I) \<Longrightarrow> leads J (if c then m else k) I"
  by simp

text \<open>
  \<open>yields J m Q\<close>: when \<open>m\<close> returns from a state with \<open>J\<close>, it returns in a state with \<open>Q\<close>; for
  code that establishes something and stops the machine when it cannot.
\<close>

definition yields :: "('s \<Rightarrow> bool) \<Rightarrow> ('s, 'a) prog \<Rightarrow> ('s \<Rightarrow> bool) \<Rightarrow> bool" where
  "yields J m Q \<longleftrightarrow> (\<forall>s a t. J s \<longrightarrow> m s = Ret a t \<longrightarrow> Q t)"

lemma yieldsD: "yields J m Q \<Longrightarrow> J s \<Longrightarrow> m s = Ret a t \<Longrightarrow> Q t"
  unfolding yields_def by blast

lemma keeps_yields: "keeps I m \<Longrightarrow> yields I m I"
  unfolding yields_def by (intro allI impI) (rule keeps_Ret)

lemma yields_halt: "yields J halt Q"
  by (simp add: yields_def prog_simps)

lemma yields_bnd: "yields J m K \<Longrightarrow> (\<And>a. yields K (f a) Q) \<Longrightarrow> yields J (bnd m f) Q"
  unfolding yields_def
proof (intro allI impI)
  fix s b u
  assume m: "\<forall>s a t. J s \<longrightarrow> m s = Ret a t \<longrightarrow> K t" and f: "\<And>a. \<forall>s b t. K s \<longrightarrow> f a s = Ret b t \<longrightarrow> Q t"
    and "J s" and eq: "bnd m f s = Ret b u"
  from eq obtain a t where "m s = Ret a t" "f a t = Ret b u" by (cases "m s") (auto simp: bnd_app)
  with m f \<open>J s\<close> show "Q u" by blast
qed

lemma yields_thn: "yields J m K \<Longrightarrow> yields K k Q \<Longrightarrow> yields J (thn m k) Q"
  unfolding thn_def by (rule yields_bnd)

lemma yields_if: "(c \<Longrightarrow> yields J m Q) \<Longrightarrow> (\<not> c \<Longrightarrow> yields J k Q) \<Longrightarrow> yields J (if c then m else k) Q"
  by simp

lemma yields_for_do:
  assumes "\<And>i. a \<le> i \<Longrightarrow> i < n \<Longrightarrow> yields (P i) (body i) (P (Suc i))" and "a \<le> n"
  shows "yields (P a) (for_do a n body) (P n)"
  using assms
proof (induction "n - a" arbitrary: a)
  case 0
  then show ?case by (auto simp: yields_def for_do_done)
next
  case (Suc k)
  then have lt: "a < n" by simp
  have "yields (P (Suc a)) (for_do (Suc a) n body) (P n)"
    using Suc lt by (intro Suc.hyps(1)) auto
  with yields_thn [OF Suc.prems(1) [OF le_refl lt] this] lt show ?case
    by (simp add: yields_def for_do_step)
qed

section \<open>A loop rule\<close>

lemma for_do_rule:
  assumes "a \<le> n" and "P a s"
    and "\<And>i t. a \<le> i \<Longrightarrow> i < n \<Longrightarrow> P i t \<Longrightarrow> \<exists>t'. body i t = Ret () t' \<and> P (Suc i) t'"
  shows "\<exists>t. for_do a n body s = Ret () t \<and> P n t"
  using assms
proof (induction "n - a" arbitrary: a s)
  case 0
  then show ?case by (auto simp: for_do_done)
next
  case (Suc k)
  then have lt: "a < n" by simp
  from Suc.prems(3) [OF le_refl lt Suc.prems(2)] obtain t where
    t: "body a s = Ret () t" and P: "P (Suc a) t" by blast
  have "\<exists>t'. for_do (Suc a) n body t = Ret () t' \<and> P n t'"
    using Suc.hyps lt P Suc.prems(3) by (intro Suc.hyps(1)) auto
  with t lt show ?case by (simp add: for_do_step thn_app)
qed

text \<open>Iterations that change nothing can be skipped.\<close>

lemma for_ret_skip:
  assumes "\<And>i. a \<le> i \<Longrightarrow> i < k \<Longrightarrow> body i s = Ret None s" and "a \<le> k" and "k \<le> n"
  shows "for_ret a n body s = for_ret k n body s"
  using assms
proof (induction "k - a" arbitrary: a)
  case 0
  then show ?case by simp
next
  case (Suc d)
  then have "a < k" by simp
  then have "for_ret a n body s = for_ret (Suc a) n body s"
    using Suc.prems by (simp add: for_ret_step bnd_app)
  also have "\<dots> = for_ret k n body s"
    using Suc.hyps Suc.prems \<open>a < k\<close> by (intro Suc.hyps(1)) auto
  finally show ?case .
qed

lemma for_ret_none:
  assumes "\<And>i. a \<le> i \<Longrightarrow> i < n \<Longrightarrow> body i s = Ret None s" and "a \<le> n"
  shows "for_ret a n body s = Ret None s"
  using for_ret_skip [of a n body s n] assms by (simp add: for_ret_done)

text \<open>The rule for a loop that may return early.\<close>

lemma for_ret_rule:
  assumes "a \<le> n" and "P a s"
    and "\<And>i t. a \<le> i \<Longrightarrow> i < n \<Longrightarrow> P i t \<Longrightarrow>
       (\<exists>t'. body i t = Ret None t' \<and> P (Suc i) t') \<or> (\<exists>r t'. body i t = Ret (Some r) t' \<and> Q r t')"
  shows "(\<exists>t. for_ret a n body s = Ret None t \<and> P n t) \<or>
         (\<exists>r t. for_ret a n body s = Ret (Some r) t \<and> Q r t)"
  using assms
proof (induction "n - a" arbitrary: a s)
  case 0
  then show ?case by (auto simp: for_ret_done)
next
  case (Suc k)
  then have lt: "a < n" by simp
  from Suc.prems(3) [OF le_refl lt Suc.prems(2)]
  show ?case
  proof
    assume "\<exists>t'. body a s = Ret None t' \<and> P (Suc a) t'"
    then obtain t where t: "body a s = Ret None t" and P: "P (Suc a) t" by blast
    have "(\<exists>t'. for_ret (Suc a) n body t = Ret None t' \<and> P n t') \<or>
        (\<exists>r t'. for_ret (Suc a) n body t = Ret (Some r) t' \<and> Q r t')"
      using Suc.hyps lt P Suc.prems(3) by (intro Suc.hyps(1)) auto
    with t lt show ?thesis by (simp add: for_ret_step bnd_app)
  next
    assume "\<exists>r t'. body a s = Ret (Some r) t' \<and> Q r t'"
    with lt show ?thesis by (auto simp: for_ret_step bnd_app ret_app)
  qed
qed

section \<open>Lists and maps\<close>

lemma filter_length_update:
  assumes "i < length xs"
  shows "length (filter P (xs[i := v])) + (if P (xs ! i) then 1 else 0) =
         length (filter P xs) + (if P v then 1 else 0)"
  using assms
proof (induction xs arbitrary: i)
  case Nil
  then show ?case by simp
next
  case (Cons x xs)
  then show ?case by (cases i) auto
qed

lemma filter_length_mark:
  assumes "i < length xs" and "P (xs ! i)" and "\<not> P v"
  shows "length (filter P xs) = Suc (length (filter P (xs[i := v])))"
  using filter_length_update [OF assms(1), of P v] assms(2,3) by simp

lemma filter_length_unmark:
  assumes "i < length xs" and "\<not> P (xs ! i)" and "P v"
  shows "length (filter P (xs[i := v])) = Suc (length (filter P xs))"
  using filter_length_update [OF assms(1), of P v] assms(2,3) by simp

lemma filter_length_pos:
  "(0 < length (filter P xs)) = (\<exists>i < length xs. P (xs ! i))"
  by (fastforce simp: filter_empty_conv in_set_conv_nth)

end
