(* ===== verification/User_Heap.thy ===== *)
theory User_Heap
  imports Prelude
begin

text \<open>
  The heap of the user library: \<^verbatim>\<open>new_heap.c\<close> with the user side of \<^verbatim>\<open>libc.c\<close> (\<^verbatim>\<open>brk\<close>, \<^verbatim>\<open>sbrk\<close>, \<^verbatim>\<open>init_heap\<close>,
  \<^verbatim>\<open>grow_heap\<close>). Addresses and sizes are numbers below \<open>2 ^ 32\<close>; \<open>u32\<close> is the wrap-around of
  \<^verbatim>\<open>u_long\<close> and of pointers on the 32-bit machine. The block headers are a map from addresses; the bytes of
  the heap, which \<^verbatim>\<open>calloc\<close> and \<^verbatim>\<open>realloc\<close> write, are \<open>bytes\<close>.

  Parameters: whether the \<open>n\<close>-th call of the system call \<^verbatim>\<open>SysBrk\<close> succeeds for an address, and whether
  the machine stops the program at the trap of \<^verbatim>\<open>helper_maybort\<close> (its registers are \<open>helper_maybort_stub\<close> of \<open>User_Calls\<close>; the
  kernel itself lets it return).
\<close>

section \<open>State\<close>

definition u32 :: "nat \<Rightarrow> nat" where
  "u32 n = n mod 2 ^ 32"

record mblock =
  magic1 :: nat
  bsize :: nat
  size_used :: nat
  bnext :: nat
  previous :: nat
  magic2 :: nat

record uheap =
  blocks :: "nat \<Rightarrow> mblock option"
  bytes :: "nat \<Rightarrow> 8 word"
  heap_start :: nat
  heap_end :: nat
  not_initialized :: bool
  current_break :: nat
  brk_ok :: "nat \<Rightarrow> nat \<Rightarrow> bool"
  brk_calls :: nat
  maybort_stops :: bool

definition MAGIC :: nat where "MAGIC = 0xfeeddad"
definition SIZEOF_MBLOCK :: nat where "SIZEOF_MBLOCK = 24"
definition MINBLOCK :: nat where "MINBLOCK = 2 * SIZEOF_MBLOCK"
definition PAGE_BYTES :: nat where "PAGE_BYTES = 0x2000"
definition PRE_STARTUP_HEAPSIZE :: nat where "PRE_STARTUP_HEAPSIZE = 4 * PAGE_BYTES"

definition WORDROUND :: "nat \<Rightarrow> nat" where
  "WORDROUND x = u32 (x + 3) div 4 * 4"

definition page_up :: "nat \<Rightarrow> nat" where
  "page_up x = u32 (x + (PAGE_BYTES - 1)) div PAGE_BYTES * PAGE_BYTES"

definition BLOCK_START :: "nat \<Rightarrow> nat" where
  "BLOCK_START a = u32 (a + SIZEOF_MBLOCK)"

definition BLOCK_END :: "nat \<Rightarrow> mblock \<Rightarrow> nat" where
  "BLOCK_END a b = u32 (BLOCK_START a + bsize b)"

definition get_block :: "nat \<Rightarrow> (uheap, mblock) prog" where
  "get_block a = deref blocks a"

definition put_block :: "nat \<Rightarrow> mblock \<Rightarrow> (uheap, unit) prog" where
  "put_block a b = modify (\<lambda>s. s\<lparr>blocks := (blocks s)(a \<mapsto> b)\<rparr>)"

definition upd_block :: "nat \<Rightarrow> (mblock \<Rightarrow> mblock) \<Rightarrow> (uheap, unit) prog" where
  "upd_block a f = bnd (get_block a) (\<lambda>b. put_block a (f b))"

section \<open>Checks\<close>

definition helper_maybort :: "(uheap, unit) prog" where
  "helper_maybort = bnd (gets maybort_stops) (\<lambda>x. if x then halt else ret ())"

definition sanity_fail :: "(uheap, unit) prog" where
  "sanity_fail = helper_maybort"

definition sanity_check :: "nat \<Rightarrow> (uheap, unit) prog" where
  "sanity_check bp =
     (if bp = 0 then helper_maybort
      else bnd (gets heap_start) (\<lambda>hs. bnd (gets heap_end) (\<lambda>he.
        if hs = he then ret ()
        else thn (if bp < hs \<or> he \<le> bp then sanity_fail else ret ())
            (bnd (get_block bp) (\<lambda>b.
             thn (if magic1 b \<noteq> MAGIC \<or> magic2 b \<noteq> MAGIC then sanity_fail else ret ())
            (thn (if bsize b < size_used b then sanity_fail else ret ())
             (if bnext b \<noteq> 0 \<and> BLOCK_END bp b \<noteq> bnext b then helper_maybort else ret ())))))))"

section \<open>The break\<close>

text \<open>The mutex calls around \<^verbatim>\<open>brk_unlocked\<close> belong to the emulator and protect nothing here.\<close>

definition SysBrk :: "nat \<Rightarrow> (uheap, bool) prog" where
  "SysBrk a = (\<lambda>s. Ret (brk_ok s (brk_calls s) a) (s\<lparr>brk_calls := Suc (brk_calls s)\<rparr>))"

definition brk_unlocked :: "nat \<Rightarrow> (uheap, bool) prog" where
  "brk_unlocked a =
     (let a8 = u32 (a + 7) div 8 * 8; pageaddr = page_up a8 in
      bnd (gets current_break) (\<lambda>cb.
      if pageaddr \<noteq> page_up cb
      then bnd (SysBrk pageaddr) (\<lambda>ok.
        if \<not> ok then ret False
        else thn (modify (\<lambda>s. s\<lparr>current_break := a8\<rparr>)) (ret True))
      else thn (modify (\<lambda>s. s\<lparr>current_break := a8\<rparr>)) (ret True)))"

definition brk :: "nat \<Rightarrow> (uheap, bool) prog" where
  "brk a = brk_unlocked a"

text \<open>\<^verbatim>\<open>sbrk\<close> returns the old break, or \<open>None\<close> for \<^verbatim>\<open>(void *)(-1)\<close>.\<close>

definition sbrk :: "int \<Rightarrow> (uheap, nat option) prog" where
  "sbrk incr = bnd (gets current_break) (\<lambda>cb.
     if incr = 0 then ret (Some cb)
     else bnd (brk_unlocked (nat ((int cb + incr) mod 2 ^ 32))) (\<lambda>ok.
       if ok then ret (Some cb) else ret None))"

definition user_Brk :: "nat \<Rightarrow> (uheap, bool) prog" where
  "user_Brk a = bnd (SysBrk a) (\<lambda>ok.
     if ok then thn (modify (\<lambda>s. s\<lparr>current_break := a\<rparr>)) (ret True) else ret False)"

section \<open>Growing\<close>

definition fresh_block :: "nat \<Rightarrow> mblock" where
  "fresh_block n = \<lparr>magic1 = MAGIC, bsize = n, size_used = 0, bnext = 0, previous = 0, magic2 = MAGIC\<rparr>"

definition init_heap :: "(uheap, unit) prog" where
  "init_heap = bnd (gets current_break) (\<lambda>cb.
     thn (modify (\<lambda>s. s\<lparr>heap_start := cb\<rparr>))
    (thn (brk_unlocked (u32 (cb + PRE_STARTUP_HEAPSIZE)))
    (bnd (gets current_break) (\<lambda>e.
     thn (modify (\<lambda>s. s\<lparr>heap_end := e\<rparr>))
    (thn (put_block cb (fresh_block (u32 (e + 2 ^ 32 - cb + 2 ^ 32 - SIZEOF_MBLOCK))))
         (modify (\<lambda>s. s\<lparr>not_initialized := False\<rparr>)))))))"

definition grow_heap :: "nat \<Rightarrow> (uheap, nat) prog" where
  "grow_heap len = bnd (gets heap_start) (\<lambda>hs.
     if hs = 0 then ret 0
     else bnd (gets heap_end) (\<lambda>he. let req = page_up (u32 (he + len + SIZEOF_MBLOCK)) in
       bnd (brk req) (\<lambda>ok.
       if \<not> ok then ret 0
       else bnd (gets current_break) (\<lambda>new_end.
         if new_end < req then ret 0
         else thn (put_block he (fresh_block (u32 (new_end + 2 ^ 32 - he + 2 ^ 32 - SIZEOF_MBLOCK))))
             (thn (modify (\<lambda>s. s\<lparr>heap_end := new_end\<rparr>))
                  (ret he))))))"

definition ensure_heap :: "(uheap, unit) prog" where
  "ensure_heap = bnd (gets not_initialized) (\<lambda>n. if n then init_heap else ret ())"

text \<open>What \<^verbatim>\<open>helper_check_heap\<close> counts and traces.\<close>

record heap_stats =
  st_blocks :: nat
  st_dirty :: nat
  st_free :: nat
  st_used :: nat
  st_ifrag :: nat

definition count_block :: "mblock \<Rightarrow> heap_stats \<Rightarrow> heap_stats" where
  "count_block b c = (let c1 = c\<lparr>st_blocks := u32 (st_blocks c + 1)\<rparr> in
     if size_used b \<noteq> 0
     then c1\<lparr>st_dirty := u32 (st_dirty c + 1), st_used := u32 (st_used c + size_used b),
            st_ifrag := u32 (st_ifrag c + (bsize b + 2 ^ 32 - size_used b))\<rparr>
     else c1\<lparr>st_free := u32 (st_free c + bsize b)\<rparr>)"

fun check_heap_loop :: "nat \<Rightarrow> heap_stats \<Rightarrow> nat \<Rightarrow> (uheap, heap_stats) prog" where
  "check_heap_loop 0 c bp = fail Diverges"
| "check_heap_loop (Suc fuel) c bp =
     (if bp = 0 then ret c
      else thn (sanity_check bp) (bnd (get_block bp) (\<lambda>b. check_heap_loop fuel (count_block b c) (bnext b))))"

definition helper_check_heap :: "(uheap, heap_stats) prog" where
  "helper_check_heap = thn ensure_heap (bnd (gets heap_start) (\<lambda>hs. bnd (gets heap_end) (\<lambda>he.
     check_heap_loop (Suc he) \<lparr>st_blocks = 0, st_dirty = 0, st_free = 0, st_used = 0, st_ifrag = 0\<rparr> hs)))"

section \<open>Blocks\<close>

definition merge_free_pair :: "nat \<Rightarrow> (uheap, nat) prog" where
  "merge_free_pair bp =
     (if bp = 0 then ret 0
      else bnd (get_block bp) (\<lambda>f. let second = bnext f in
        if second = 0 then ret 0
        else thn (sanity_check bp) (thn (sanity_check second) (bnd (get_block second) (\<lambda>s.
          if size_used f \<noteq> 0 then ret second
          else if size_used s \<noteq> 0 then ret second
          else thn (upd_block bp (\<lambda>f. f\<lparr>bsize := u32 (bsize f + bsize s + SIZEOF_MBLOCK)\<rparr>))
              (thn (upd_block bp (\<lambda>f. f\<lparr>bnext := bnext s\<rparr>))
              (thn (if bnext s \<noteq> 0
                    then thn (sanity_check (bnext s)) (upd_block (bnext s) (\<lambda>n. n\<lparr>previous := bp\<rparr>))
                    else ret ())
                   (ret bp))))))))"

definition split_free_block :: "nat \<Rightarrow> nat \<Rightarrow> (uheap, unit) prog" where
  "split_free_block bp len0 = (let len = WORDROUND len0 in
     thn (sanity_check bp) (bnd (get_block bp) (\<lambda>b.
     if size_used b \<noteq> 0 then ret ()
     else if bsize b < len then ret ()
     else if bsize b < u32 (len + MINBLOCK) then ret ()
     else let second = u32 (bp + SIZEOF_MBLOCK + len) in
       thn (put_block second \<lparr>magic1 = MAGIC, bsize = bsize b - len - SIZEOF_MBLOCK, size_used = 0,
              bnext = bnext b, previous = bp, magic2 = MAGIC\<rparr>)
      (thn (upd_block bp (\<lambda>b. b\<lparr>bsize := len\<rparr>))
      (thn (upd_block bp (\<lambda>b. b\<lparr>bnext := second\<rparr>))
       (if bnext b \<noteq> 0 then upd_block (bnext b) (\<lambda>n. n\<lparr>previous := second\<rparr>) else ret ()))))))"

fun garbage_collect_loop :: "nat \<Rightarrow> nat \<Rightarrow> (uheap, unit) prog" where
  "garbage_collect_loop 0 bp = fail Diverges"
| "garbage_collect_loop (Suc fuel) bp =
     (if bp = 0 then ret () else bnd (merge_free_pair bp) (garbage_collect_loop fuel))"

definition garbage_collect :: "(uheap, unit) prog" where
  "garbage_collect = bnd (gets heap_start) (\<lambda>hs. bnd (gets heap_end) (\<lambda>he. garbage_collect_loop (Suc he) hs))"

section \<open>malloc and free\<close>

fun free_loop :: "nat \<Rightarrow> nat \<Rightarrow> nat \<Rightarrow> (uheap, unit) prog" where
  "free_loop 0 a bp = fail Diverges"
| "free_loop (Suc fuel) a bp =
     (if bp = 0 then helper_maybort
      else thn (sanity_check bp) (bnd (get_block bp) (\<lambda>b.
        if BLOCK_START bp \<le> a \<and> a < BLOCK_END bp b
        then if size_used b = 0 then helper_maybort
             else thn (upd_block bp (\<lambda>b. b\<lparr>size_used := 0\<rparr>)) garbage_collect
        else free_loop fuel a (bnext b))))"

definition heap_free :: "nat \<Rightarrow> (uheap, unit) prog" where
  "heap_free a =
     (if a = 0 then ret ()
      else thn ensure_heap (bnd (gets heap_start) (\<lambda>hs. bnd (gets heap_end) (\<lambda>he.
        free_loop (Suc he) a hs))))"

text \<open>
  The search of \<^verbatim>\<open>malloc\<close>: the first free block that is large enough, or the last block of the list
  (0 if the list is empty).
\<close>

fun malloc_loop :: "nat \<Rightarrow> nat \<Rightarrow> nat \<Rightarrow> nat \<Rightarrow> (uheap, nat \<times> nat) prog" where
  "malloc_loop 0 len lst bp = fail Diverges"
| "malloc_loop (Suc fuel) len lst bp =
     (if bp = 0 then ret (0, lst)
      else thn (sanity_check bp) (bnd (get_block bp) (\<lambda>b.
        if size_used b = 0 \<and> len \<le> bsize b then ret (bp, lst)
        else malloc_loop fuel len bp (bnext b))))"

definition take_block :: "nat \<Rightarrow> nat \<Rightarrow> (uheap, nat) prog" where
  "take_block bp len =
     thn (split_free_block bp len)
    (thn (upd_block bp (\<lambda>b. b\<lparr>size_used := len\<rparr>))
         (ret (BLOCK_START bp)))"

definition take_merged :: "nat \<Rightarrow> nat \<Rightarrow> (uheap, nat) prog" where
  "take_merged len bp =
     (if bp = 0 then ret 0
      else bnd (get_block bp) (\<lambda>b.
        if size_used b \<noteq> 0 \<or> bsize b < len then ret 0 else take_block bp len))"

definition grow_and_take :: "nat \<Rightarrow> nat \<Rightarrow> (uheap, nat) prog" where
  "grow_and_take len lst =
     (if lst = 0 then ret 0
      else bnd (grow_heap len) (\<lambda>np.
        if np = 0 then ret 0
        else thn (upd_block lst (\<lambda>b. b\<lparr>bnext := np\<rparr>))
            (thn (upd_block np (\<lambda>b. b\<lparr>previous := lst\<rparr>))
            (bnd (merge_free_pair lst) (take_merged len)))))"

definition heap_malloc :: "nat \<Rightarrow> (uheap, nat) prog" where
  "heap_malloc len0 =
     (if 2 ^ 31 \<le> len0 then ret 0
      else let len = WORDROUND (u32 (len0 + 4)) in
        thn ensure_heap (bnd (gets heap_start) (\<lambda>hs. bnd (gets heap_end) (\<lambda>he.
        bnd (malloc_loop (Suc he) len 0 hs) (\<lambda>(bp, lst).
        if bp \<noteq> 0 then take_block bp len else grow_and_take len lst)))))"

section \<open>calloc and realloc\<close>

definition fill_bytes :: "nat \<Rightarrow> nat \<Rightarrow> 8 word \<Rightarrow> (nat \<Rightarrow> 8 word) \<Rightarrow> nat \<Rightarrow> 8 word" where
  "fill_bytes a n v m = (\<lambda>x. if a \<le> x \<and> x < a + n then v else m x)"

definition copy_bytes :: "nat \<Rightarrow> nat \<Rightarrow> nat \<Rightarrow> (nat \<Rightarrow> 8 word) \<Rightarrow> nat \<Rightarrow> 8 word" where
  "copy_bytes d a n m = (\<lambda>x. if d \<le> x \<and> x < d + n then m (a + (x - d)) else m x)"

definition heap_calloc :: "nat \<Rightarrow> nat \<Rightarrow> (uheap, nat) prog" where
  "heap_calloc nmemb n = bnd (heap_malloc (u32 (nmemb * n))) (\<lambda>rp.
     thn (if rp \<noteq> 0 then modify (\<lambda>s. s\<lparr>bytes := fill_bytes rp (u32 (nmemb * n)) 0 (bytes s)\<rparr>) else ret ())
         (ret rp))"

fun find_block :: "nat \<Rightarrow> nat \<Rightarrow> nat \<Rightarrow> (uheap, nat) prog" where
  "find_block 0 ptr bp = fail Diverges"
| "find_block (Suc fuel) ptr bp =
     (if bp = 0 then ret 0
      else thn (sanity_check bp)
        (if BLOCK_START bp = ptr then ret bp
         else bnd (get_block bp) (\<lambda>b. find_block fuel ptr (bnext b))))"

text \<open>The two ways \<^verbatim>\<open>realloc\<close> enlarges a block: swallowing the free block behind it, or moving.\<close>

definition realloc_inplace :: "nat \<Rightarrow> mblock \<Rightarrow> nat \<Rightarrow> (uheap, unit) prog" where
  "realloc_inplace bp nb n =
     thn (upd_block bp (\<lambda>b. b\<lparr>bnext := bnext nb\<rparr>))
    (thn (upd_block bp (\<lambda>b. b\<lparr>bsize := u32 (bsize b + bsize nb + SIZEOF_MBLOCK)\<rparr>))
    (thn (upd_block bp (\<lambda>b. b\<lparr>size_used := n\<rparr>))
         (if bnext nb \<noteq> 0 then upd_block (bnext nb) (\<lambda>x. x\<lparr>previous := bp\<rparr>) else ret ())))"

definition realloc_move :: "nat \<Rightarrow> nat \<Rightarrow> nat \<Rightarrow> (uheap, nat) prog" where
  "realloc_move bp ptr n = bnd (heap_malloc n) (\<lambda>rp.
     if rp = 0 then ret 0
     else bnd (get_block bp) (\<lambda>b.
       thn (modify (\<lambda>s. s\<lparr>bytes := copy_bytes rp ptr (size_used b) (bytes s)\<rparr>))
      (thn (heap_free ptr) (ret rp))))"

definition heap_realloc :: "nat \<Rightarrow> nat \<Rightarrow> (uheap, nat) prog" where
  "heap_realloc ptr n =
     (if n = 0 then thn (heap_free ptr) (ret 0)
      else if ptr = 0 then heap_malloc n
      else thn ensure_heap (bnd (gets heap_start) (\<lambda>hs. bnd (gets heap_end) (\<lambda>he.
        bnd (find_block (Suc he) ptr hs) (\<lambda>bp.
        if bp = 0 then thn helper_maybort (ret 0)
        else bnd (get_block bp) (\<lambda>b.
          if n \<le> bsize b then thn (upd_block bp (\<lambda>b. b\<lparr>size_used := n\<rparr>)) (ret ptr)
          else if bnext b = 0 then realloc_move bp ptr n
          else bnd (get_block (bnext b)) (\<lambda>nb.
            if size_used nb = 0 \<and> n \<le> u32 (bsize b + bsize nb + SIZEOF_MBLOCK)
            then thn (realloc_inplace bp nb n) (ret ptr)
            else realloc_move bp ptr n)))))))"

section \<open>The block list\<close>

text \<open>
  A well-formed heap is a chain of adjacent blocks that tiles \<^verbatim>\<open>[heap_start, heap_end)\<close>; it is described by the
  list of the blocks' sizes and used sizes. \<open>after a xs\<close> is the address behind the blocks \<open>xs\<close> laid out from
  \<open>a\<close>, \<open>prev_of p a xs\<close> the header of the last of them (or \<open>p\<close>).
\<close>

definition bend :: "nat \<Rightarrow> nat \<Rightarrow> nat" where
  "bend a n = a + 24 + n"

primrec after :: "nat \<Rightarrow> (nat \<times> nat) list \<Rightarrow> nat" where
  "after a [] = a"
| "after a (x # xs) = after (bend a (fst x)) xs"

primrec prev_of :: "nat \<Rightarrow> nat \<Rightarrow> (nat \<times> nat) list \<Rightarrow> nat" where
  "prev_of p a [] = p"
| "prev_of p a (x # xs) = prev_of a (bend a (fst x)) xs"

definition nxt :: "nat \<Rightarrow> nat \<Rightarrow> nat" where
  "nxt e a = (if a = e then 0 else a)"

definition header :: "nat \<Rightarrow> nat \<Rightarrow> nat \<Rightarrow> nat \<times> nat \<Rightarrow> mblock" where
  "header e p a x = \<lparr>magic1 = MAGIC, bsize = fst x, size_used = snd x, bnext = nxt e (bend a (fst x)),
     previous = p, magic2 = MAGIC\<rparr>"

primrec bseg :: "(nat \<Rightarrow> mblock option) \<Rightarrow> nat \<Rightarrow> nat \<Rightarrow> nat \<Rightarrow> (nat \<times> nat) list \<Rightarrow> bool" where
  "bseg B e p a [] = True"
| "bseg B e p a (x # xs) = (B a = Some (header e p a x) \<and> snd x \<le> fst x \<and> bseg B e a (bend a (fst x)) xs)"

definition USER_LIMIT :: nat where "USER_LIMIT = 0x200000"

definition heap_rep :: "uheap \<Rightarrow> (nat \<times> nat) list \<Rightarrow> bool" where
  "heap_rep s xs \<longleftrightarrow> xs \<noteq> [] \<and> 0 < heap_start s \<and> bseg (blocks s) (heap_end s) 0 (heap_start s) xs \<and>
     heap_end s = after (heap_start s) xs \<and> heap_end s \<le> USER_LIMIT \<and> \<not> not_initialized s \<and>
     current_break s = heap_end s \<and> (\<forall>k a. brk_ok s k a \<longrightarrow> a \<le> USER_LIMIT)"

lemma header_simps [simp]:
  "magic1 (header e p a x) = MAGIC" "magic2 (header e p a x) = MAGIC" "bsize (header e p a x) = fst x"
  "size_used (header e p a x) = snd x" "bnext (header e p a x) = nxt e (bend a (fst x))"
  "previous (header e p a x) = p"
  by (simp_all add: header_def)

lemma after_append [simp]: "after a (xs @ ys) = after (after a xs) ys"
  by (induction xs arbitrary: a) simp_all

lemma prev_of_append [simp]: "prev_of p a (xs @ ys) = prev_of (prev_of p a xs) (after a xs) ys"
  by (induction xs arbitrary: p a) simp_all

lemma bseg_append [simp]:
  "bseg B e p a (xs @ ys) = (bseg B e p a xs \<and> bseg B e (prev_of p a xs) (after a xs) ys)"
  by (induction xs arbitrary: p a) auto

lemma after_length: "a + 24 * length xs \<le> after a xs"
proof (induction xs arbitrary: a)
  case (Cons x xs)
  from Cons.IH [of "bend a (fst x)"] show ?case by (simp add: bend_def)
qed simp

lemma after_ge: "a \<le> after a xs"
  using after_length [of a xs] by simp

lemma bseg_upd_outside:
  "k < a \<or> after a xs \<le> k \<Longrightarrow> bseg (B(k := v)) e p a xs = bseg B e p a xs"
proof (induction xs arbitrary: p a)
  case (Cons x xs)
  have "bend a (fst x) \<le> after (bend a (fst x)) xs" by (rule after_ge)
  with Cons show ?case by (auto simp: bend_def)
qed simp

lemma u32_id: "n < 2 ^ 32 \<Longrightarrow> u32 n = n"
  by (simp add: u32_def)

lemma SIZEOF_MBLOCK_24 [simp]: "SIZEOF_MBLOCK = 24"
  by (simp add: SIZEOF_MBLOCK_def)

lemma heap_rep_cong:
  "heap_start t = heap_start s \<Longrightarrow> heap_end t = heap_end s \<Longrightarrow> not_initialized t = not_initialized s
   \<Longrightarrow> current_break t = current_break s \<Longrightarrow> brk_ok t = brk_ok s \<Longrightarrow> blocks t = blocks s
   \<Longrightarrow> heap_rep t xs = heap_rep s xs"
  by (simp add: heap_rep_def)

text \<open>The facts about one block of the heap that the operations use.\<close>

lemma heap_rep_block:
  assumes "heap_rep s (ys @ x # zs)" and "a = after (heap_start s) ys"
  shows "0 < a" "heap_start s \<le> a" "bend a (fst x) \<le> heap_end s" "heap_end s \<le> USER_LIMIT"
    "blocks s a = Some (header (heap_end s) (prev_of 0 (heap_start s) ys) a x)" "snd x \<le> fst x"
    "heap_end s = after (bend a (fst x)) zs" "\<not> not_initialized s"
proof -
  show "0 < a" "heap_start s \<le> a"
    using assms after_ge [of "heap_start s" ys] by (auto simp: heap_rep_def)
  show "bend a (fst x) \<le> heap_end s"
    using assms after_ge [of "bend a (fst x)" zs] by (simp add: heap_rep_def)
qed (use assms in \<open>auto simp: heap_rep_def\<close>)

lemma BLOCK_bounds:
  assumes "heap_rep s (ys @ x # zs)" and "a = after (heap_start s) ys"
  shows "BLOCK_START a = a + 24" "BLOCK_END a (header e p a x) = bend a (fst x)"
  using heap_rep_block [OF assms]
  by (simp_all add: BLOCK_START_def BLOCK_END_def USER_LIMIT_def u32_id bend_def)

lemma get_block_rep:
  assumes "heap_rep s (ys @ x # zs)" and "a = after (heap_start s) ys"
  shows "get_block a s = Ret (header (heap_end s) (prev_of 0 (heap_start s) ys) a x) s"
  using heap_rep_block [OF assms] by (simp add: get_block_def prog_simps)

lemma sanity_check_rep:
  assumes "heap_rep s (ys @ x # zs)" and "a = after (heap_start s) ys"
  shows "sanity_check a s = Ret () s"
  using heap_rep_block(1-6) [OF assms] get_block_rep [OF assms] BLOCK_bounds [OF assms]
  by (simp add: sanity_check_def prog_simps nxt_def bend_def)


lemma header_upd [simp]:
  "(header e p a x)\<lparr>previous := q\<rparr> = header e q a x"
  "(header e p a x)\<lparr>size_used := u\<rparr> = header e p a (fst x, u)"
  "(header e p a x)\<lparr>bsize := n, bnext := nxt e (bend a n)\<rparr> = header e p a (n, snd x)"
  "(header e p a x)\<lparr>bsize := n, bnext := nxt e (bend a n), size_used := u\<rparr> = header e p a (n, u)"
  by (simp_all add: header_def bend_def)

lemma bend_gt [simp]:
  "a < bend a m" "a < bend (bend a m) n" "a \<noteq> bend a m" "a \<noteq> bend (bend a m) n" "bend a m \<noteq> a"
  "bend (bend a m) n \<noteq> a"
  by (simp_all add: bend_def)

lemma heap_rep_bseg: "heap_rep s xs \<Longrightarrow> bseg (blocks s) (heap_end s) 0 (heap_start s) xs"
  unfolding heap_rep_def by blast

lemma bend_merge [simp]: "bend a (m + n + 24) = bend (bend a m) n"
  by (simp add: bend_def)

lemma upd_block_app:
  "blocks s a = Some b \<Longrightarrow> 0 < a \<Longrightarrow> upd_block a f s = Ret () (s\<lparr>blocks := (blocks s)(a \<mapsto> f b)\<rparr>)"
  by (simp add: upd_block_def get_block_def put_block_def prog_simps)

text \<open>Rewriting a block in place, or the two neighbours of a boundary, keeps the rest of the chain.\<close>

lemma bseg_relink:
  "bseg B e p a zs \<Longrightarrow> bseg (if zs = [] then B else B(a \<mapsto> header e q a (hd zs))) e q a zs"
proof (cases zs)
  case (Cons z zs')
  have "bseg (B(a := v)) e a (bend a (fst z)) zs' = bseg B e a (bend a (fst z)) zs'" for v
    by (rule bseg_upd_outside) (simp add: bend_def)
  moreover assume "bseg B e p a zs"
  ultimately show ?thesis using Cons by simp
qed simp

lemma bseg_replace:
  assumes "bseg B e p a (ys @ x # zs)" and "k = after a ys" and "u \<le> fst x"
  shows "bseg (B(k \<mapsto> header e (prev_of p a ys) k (fst x, u))) e p a (ys @ (fst x, u) # zs)"
proof -
  from assms show ?thesis by (simp add: bseg_upd_outside)
qed

lemma heap_rep_blocks:
  "heap_rep s xs \<Longrightarrow> ys \<noteq> [] \<Longrightarrow> bseg B (heap_end s) 0 (heap_start s) ys
   \<Longrightarrow> after (heap_start s) ys = after (heap_start s) xs \<Longrightarrow> heap_rep (s\<lparr>blocks := B\<rparr>) ys"
  by (simp add: heap_rep_def)

lemma nxt_after: "zs \<noteq> [] \<Longrightarrow> nxt (after a zs) a = a"
proof (cases zs)
  case (Cons z zs')
  with after_ge [of "bend a (fst z)" zs'] show ?thesis by (simp add: nxt_def bend_def)
qed simp

lemma nxt_inner: "bend a n \<le> e \<Longrightarrow> nxt e a = a"
  by (simp add: nxt_def bend_def)

lemma nxt_same [simp]: "nxt a a = 0"
  by (simp add: nxt_def bend_def)

section \<open>Merging and splitting\<close>

lemma merge_free_pair_last:
  assumes "heap_rep s (ys @ [x])" and "a = after (heap_start s) ys"
  shows "merge_free_pair a s = Ret 0 s"
  using heap_rep_block [OF assms] get_block_rep [OF assms]
  by (simp add: merge_free_pair_def prog_simps)

lemma merge_free_pair_used:
  assumes H: "heap_rep s (ys @ x # y # zs)" and a: "a = after (heap_start s) ys"
    and used: "snd x \<noteq> 0 \<or> snd y \<noteq> 0"
  shows "merge_free_pair a s = Ret (bend a (fst x)) s"
proof -
  have H2: "heap_rep s ((ys @ [x]) @ y # zs)" using H by simp
  have a2: "bend a (fst x) = after (heap_start s) (ys @ [x])" using a by simp
  have "nxt (heap_end s) (bend a (fst x)) = bend a (fst x)"
    using heap_rep_block(3) [OF H2 a2] by (rule nxt_inner)
  then show ?thesis
    using heap_rep_block(1) [OF H a] get_block_rep [OF H a] sanity_check_rep [OF H a]
      get_block_rep [OF H2 a2] sanity_check_rep [OF H2 a2] used
    by (cases "snd x = 0") (simp_all add: merge_free_pair_def prog_simps Let_def)
qed

text \<open>The header table after the block at \<open>a\<close> has swallowed its successor and is used for \<open>u\<close> bytes.\<close>

definition swallow ::
  "(nat \<Rightarrow> mblock option) \<Rightarrow> nat \<Rightarrow> nat \<Rightarrow> nat \<Rightarrow> nat \<Rightarrow> nat \<Rightarrow> (nat \<times> nat) list \<Rightarrow> nat \<Rightarrow> mblock option" where
  "swallow B e p a n u zs = (let B1 = B(a \<mapsto> header e p a (n, u)) in
     if zs = [] then B1 else B1(bend a n \<mapsto> header e a (bend a n) (hd zs)))"

lemma swallow_rep:
  assumes H: "heap_rep s (ys @ x # y # zs)" and a: "a = after (heap_start s) ys"
    and n: "n = fst x + fst y + 24" "u \<le> n"
    and B: "B = swallow (blocks s) (heap_end s) (prev_of 0 (heap_start s) ys) a n u zs"
  shows "heap_rep (s\<lparr>blocks := B\<rparr>) (ys @ (n, u) # zs)"
proof -
  let ?e = "heap_end s" and ?p = "prev_of 0 (heap_start s) ys"
  define B1 where "B1 = (blocks s)(a \<mapsto> header ?e ?p a (n, u))"
  have B: "B = (if zs = [] then B1 else B1(bend a n \<mapsto> header ?e a (bend a n) (hd zs)))"
    by (simp add: B swallow_def B1_def Let_def)
  have "bseg B1 ?e (bend a (fst x)) (bend a n) zs"
    using heap_rep_bseg [OF H] a n(1) by (simp add: B1_def bseg_upd_outside)
  then have "bseg B ?e a (bend a n) zs" unfolding B by (rule bseg_relink)
  moreover have "bseg B ?e 0 (heap_start s) ys" "B a = Some (header ?e ?p a (n, u))"
    using heap_rep_bseg [OF H] a n(1) by (simp_all add: B B1_def bseg_upd_outside less_imp_le)
  ultimately show ?thesis using a n by (intro heap_rep_blocks [OF H]) simp_all
qed

lemma relink_next:
  assumes H: "heap_rep s (ys @ x # y # zs)" and a: "a = after (heap_start s) ys"
    and n: "n = fst x + fst y + 24" and c: "c = bend (bend a (fst x)) (fst y)"
    and t: "t = s\<lparr>blocks := (blocks s)(a \<mapsto> header (heap_end s) p a (n, u))\<rparr>"
  shows "nxt (heap_end s) c \<noteq> 0 \<Longrightarrow> sanity_check (nxt (heap_end s) c) t = Ret () t"
    and "(if nxt (heap_end s) c \<noteq> 0 then upd_block (nxt (heap_end s) c) (\<lambda>b. b\<lparr>previous := a\<rparr>) else ret ()) t
      = Ret () (s\<lparr>blocks := swallow (blocks s) (heap_end s) p a n u zs\<rparr>)"
proof -
  have e: "heap_end s = after c zs" using heap_rep_block(7) [OF H a] c by simp
  have cn: "c = bend a n" using c n by simp
  have "(nxt (heap_end s) c \<noteq> 0 \<longrightarrow> sanity_check (nxt (heap_end s) c) t = Ret () t) \<and>
    (if nxt (heap_end s) c \<noteq> 0 then upd_block (nxt (heap_end s) c) (\<lambda>b. b\<lparr>previous := a\<rparr>) else ret ()) t
      = Ret () (s\<lparr>blocks := swallow (blocks s) (heap_end s) p a n u zs\<rparr>)"
  proof (cases zs)
    case Nil
    with e show ?thesis by (simp add: swallow_def prog_simps t)
  next
    case (Cons z zs')
    have H3: "heap_rep s ((ys @ [x, y]) @ z # zs')" using H Cons by simp
    have a3: "c = after (heap_start s) (ys @ [x, y])" using a c by simp
    note C = heap_rep_block [OF H3 a3]
    have ne: "nxt (heap_end s) c = c" using C(3) by (rule nxt_inner)
    have bc: "blocks t c = blocks s c" by (simp add: t c)
    have "sanity_check c t = Ret () t"
      using C(1-6) BLOCK_bounds [OF H3 a3] bc
      by (simp add: sanity_check_def get_block_def prog_simps nxt_def bend_def t)
    then show ?thesis
      using C(1,5) ne bc Cons by (simp add: upd_block_app swallow_def Let_def cn [symmetric]) (simp add: t)
  qed
  then show "nxt (heap_end s) c \<noteq> 0 \<Longrightarrow> sanity_check (nxt (heap_end s) c) t = Ret () t"
    and "(if nxt (heap_end s) c \<noteq> 0 then upd_block (nxt (heap_end s) c) (\<lambda>b. b\<lparr>previous := a\<rparr>) else ret ()) t
      = Ret () (s\<lparr>blocks := swallow (blocks s) (heap_end s) p a n u zs\<rparr>)" by blast+
qed

lemma merge_free_pair_merges:
  assumes H: "heap_rep s (ys @ x # y # zs)" and a: "a = after (heap_start s) ys"
    and free: "snd x = 0" "snd y = 0"
  shows "\<exists>B. merge_free_pair a s = Ret a (s\<lparr>blocks := B\<rparr>) \<and>
    heap_rep (s\<lparr>blocks := B\<rparr>) (ys @ (fst x + fst y + 24, 0) # zs)"
proof -
  let ?e = "heap_end s" and ?p = "prev_of 0 (heap_start s) ys"
  let ?b = "bend a (fst x)" and ?n = "fst x + fst y + 24"
  let ?c = "bend ?b (fst y)"
  let ?t = "s\<lparr>blocks := (blocks s)(a \<mapsto> header ?e ?p a (?n, 0))\<rparr>"
  have H2: "heap_rep s ((ys @ [x]) @ y # zs)" using H by simp
  have a2: "?b = after (heap_start s) (ys @ [x])" using a by simp
  note A = heap_rep_block [OF H a] and B = heap_rep_block [OF H2 a2]
  have nb: "nxt ?e ?b = ?b" using B(3) by (rule nxt_inner)
  have "u32 (fst x + fst y + 24) = ?n" using B(3,4) by (simp add: u32_id USER_LIMIT_def bend_def)
  then have mid: "upd_block a (\<lambda>f. f\<lparr>bsize := u32 (bsize f + fst y + SIZEOF_MBLOCK)\<rparr>) s
      = Ret () (s\<lparr>blocks := (blocks s)(a \<mapsto> (header ?e ?p a x)\<lparr>bsize := ?n\<rparr>)\<rparr>)"
    using A(1,5) by (simp add: upd_block_app)
  have "(header ?e ?p a x)\<lparr>bsize := ?n, bnext := nxt ?e ?c\<rparr> = header ?e ?p a (?n, 0)"
    using header_upd(3) [where e = ?e and p = ?p and a = a and x = x and n = ?n] free by simp
  then have mid2: "upd_block a (\<lambda>f. f\<lparr>bnext := nxt ?e ?c\<rparr>)
      (s\<lparr>blocks := (blocks s)(a \<mapsto> (header ?e ?p a x)\<lparr>bsize := ?n\<rparr>)\<rparr>) = Ret () ?t"
    using A(1) by (simp add: upd_block_app)
  have "merge_free_pair a s = Ret a (s\<lparr>blocks := swallow (blocks s) ?e ?p a ?n 0 zs\<rparr>)"
    using A(1) get_block_rep [OF H a] sanity_check_rep [OF H a] get_block_rep [OF H2 a2]
      sanity_check_rep [OF H2 a2] free nb mid mid2 relink_next [OF H a refl refl refl, of ?p 0] B(1)
    by (cases "nxt ?e ?c = 0")
      (simp_all add: merge_free_pair_def prog_simps Let_def del: SIZEOF_MBLOCK_24)
  then show ?thesis using swallow_rep [OF H a refl _ refl, of 0] by blast
qed

definition split_block :: "nat \<Rightarrow> nat \<Rightarrow> nat \<Rightarrow> (nat \<times> nat) list" where
  "split_block len n u = (if n < len + 48 then [(n, u)] else [(len, u), (n - len - 24, 0)])"

lemma after_split_block [simp]: "len \<le> n \<Longrightarrow> after a (split_block len n u) = bend a n"
  by (simp add: split_block_def bend_def)

lemma split_block_not_Nil [simp]: "split_block len n u \<noteq> []"
  by (simp add: split_block_def)

lemma WORDROUND_id: "4 dvd len \<Longrightarrow> len < 2 ^ 31 + 8 \<Longrightarrow> WORDROUND len = len"
  by (auto simp: WORDROUND_def u32_id elim!: dvdE)

lemma split_free_block_rep:
  assumes H: "heap_rep s (ys @ (n, 0) # zs)" and a: "a = after (heap_start s) ys"
    and len: "len \<le> n" "4 dvd len"
  shows "\<exists>B. split_free_block a len s = Ret () (s\<lparr>blocks := B\<rparr>) \<and>
    heap_rep (s\<lparr>blocks := B\<rparr>) (ys @ split_block len n 0 @ zs)"
proof -
  let ?e = "heap_end s" and ?p = "prev_of 0 (heap_start s) ys" and ?m = "n - len - 24"
  let ?b = "bend a len" and ?c = "bend a n"
  note A = heap_rep_block [OF H a]
  have n: "a + 24 + n \<le> USER_LIMIT" using A(3,4) by (simp add: bend_def)
  have W: "WORDROUND len = len" using n len by (intro WORDROUND_id) (simp_all add: USER_LIMIT_def)
  have M: "u32 (len + MINBLOCK) = len + 48"
    using n len by (simp add: u32_id MINBLOCK_def USER_LIMIT_def)
  have S: "u32 (a + SIZEOF_MBLOCK + len) = ?b"
    using n len by (simp add: u32_id USER_LIMIT_def bend_def)
  show ?thesis
  proof (cases "n < len + 48")
    case True
    then have "split_free_block a len s = Ret () (s\<lparr>blocks := blocks s\<rparr>)"
      using get_block_rep [OF H a] sanity_check_rep [OF H a] W M
      by (simp add: split_free_block_def prog_simps)
    with True H show ?thesis by (intro exI [of _ "blocks s"]) (simp add: split_block_def)
  next
    case False
    then have bc: "bend ?b ?m = ?c" by (simp add: bend_def)
    have ab: "a < ?b" "?b < ?c" using False by (simp_all add: bend_def)
    define B1 where "B1 = (blocks s)(?b \<mapsto> header ?e a ?b (?m, 0), a \<mapsto> header ?e ?p a (len, 0))"
    define B2 where "B2 = (if zs = [] then B1 else B1(?c \<mapsto> header ?e ?b ?c (hd zs)))"
    have hd1: "\<lparr>magic1 = MAGIC, bsize = ?m, size_used = 0, bnext = nxt ?e ?c, previous = a, magic2 = MAGIC\<rparr>
        = header ?e a ?b (?m, 0)"
      using bc by (simp add: header_def)
    have ne: "nxt ?e ?b = ?b"
      using ab A(3) by (simp add: nxt_def)
    have hd2: "(header ?e ?p a (n, 0))\<lparr>bsize := len, bnext := ?b\<rparr> = header ?e ?p a (len, 0)"
      using ne by (simp add: header_def)
    have relink: "(if nxt ?e ?c \<noteq> 0 then upd_block (nxt ?e ?c) (\<lambda>n. n\<lparr>previous := ?b\<rparr>) else ret ())
        (s\<lparr>blocks := B1\<rparr>) = Ret () (s\<lparr>blocks := B2\<rparr>)"
    proof (cases zs)
      case Nil
      with A(7) show ?thesis by (simp add: B2_def prog_simps)
    next
      case (Cons z zs')
      have H3: "heap_rep s ((ys @ [(n, 0)]) @ z # zs')" using H Cons by simp
      have a3: "?c = after (heap_start s) (ys @ [(n, 0)])" using a by simp
      note C = heap_rep_block [OF H3 a3]
      have "nxt ?e ?c = ?c" using C(3) by (rule nxt_inner)
      moreover have "B1 ?c = blocks s ?c" using ab by (simp add: B1_def)
      ultimately show ?thesis using C(1,5) Cons by (simp add: upd_block_app B2_def)
    qed
    have run: "split_free_block a len s = Ret () (s\<lparr>blocks := B2\<rparr>)"
      using A(1,5) get_block_rep [OF H a] sanity_check_rep [OF H a] W M S False hd1 hd2 ab relink
      by (cases "nxt ?e ?c = 0")
        (simp_all add: split_free_block_def prog_simps put_block_def upd_block_app B1_def fun_upd_twist Let_def)
    have "bseg B1 ?e a ?c zs"
      using heap_rep_bseg [OF H] a ab by (simp add: B1_def bseg_upd_outside)
    then have tail: "bseg B2 ?e ?b ?c zs"
      unfolding B2_def by (rule bseg_relink)
    have "bseg B2 ?e 0 (heap_start s) ys" "B2 a = Some (header ?e ?p a (len, 0))"
        "B2 ?b = Some (header ?e a ?b (?m, 0))"
      using heap_rep_bseg [OF H] a ab by (simp_all add: B2_def B1_def bseg_upd_outside less_imp_le)
    with tail have "bseg B2 ?e 0 (heap_start s) (ys @ split_block len n 0 @ zs)"
      using a bc False by (simp add: split_block_def)
    then have "heap_rep (s\<lparr>blocks := B2\<rparr>) (ys @ split_block len n 0 @ zs)"
      using len by (intro heap_rep_blocks [OF H]) simp_all
    with run show ?thesis by blast
  qed
qed

lemma mark_used:
  assumes H: "heap_rep s (ys @ x # zs)" and a: "a = after (heap_start s) ys" and u: "u \<le> fst x"
  shows "\<exists>B. upd_block a (\<lambda>b. b\<lparr>size_used := u\<rparr>) s = Ret () (s\<lparr>blocks := B\<rparr>) \<and>
    heap_rep (s\<lparr>blocks := B\<rparr>) (ys @ (fst x, u) # zs)"
proof -
  let ?B = "(blocks s)(a \<mapsto> header (heap_end s) (prev_of 0 (heap_start s) ys) a (fst x, u))"
  have "upd_block a (\<lambda>b. b\<lparr>size_used := u\<rparr>) s = Ret () (s\<lparr>blocks := ?B\<rparr>)"
    using heap_rep_block(1,5) [OF H a] by (simp add: upd_block_app)
  moreover have "heap_rep (s\<lparr>blocks := ?B\<rparr>) (ys @ (fst x, u) # zs)"
    using bseg_replace [OF heap_rep_bseg [OF H] a u] by (intro heap_rep_blocks [OF H]) (simp_all add: bend_def)
  ultimately show ?thesis by blast
qed

lemma take_block_rep:
  assumes H: "heap_rep s (ys @ (n, 0) # zs)" and a: "a = after (heap_start s) ys"
    and len: "len \<le> n" "4 dvd len"
  shows "\<exists>B. take_block a len s = Ret (a + 24) (s\<lparr>blocks := B\<rparr>) \<and>
    heap_rep (s\<lparr>blocks := B\<rparr>) (ys @ split_block len n len @ zs)"
proof -
  from split_free_block_rep [OF assms] obtain B where
    B: "split_free_block a len s = Ret () (s\<lparr>blocks := B\<rparr>)"
       "heap_rep (s\<lparr>blocks := B\<rparr>) (ys @ split_block len n 0 @ zs)" by blast
  obtain m rest where sp: "split_block len n 0 = (m, 0) # rest" "split_block len n len = (m, len) # rest"
      "len \<le> m"
    using len(1) by (cases "n < len + 48") (auto simp: split_block_def)
  have H2: "heap_rep (s\<lparr>blocks := B\<rparr>) (ys @ (m, 0) # (rest @ zs))" using B(2) sp by simp
  from mark_used [OF H2, of a len] obtain B' where
    "upd_block a (\<lambda>b. b\<lparr>size_used := len\<rparr>) (s\<lparr>blocks := B\<rparr>) = Ret () (s\<lparr>blocks := B'\<rparr>)"
    "heap_rep (s\<lparr>blocks := B'\<rparr>) (ys @ (m, len) # (rest @ zs))"
    using a sp(3) by auto
  moreover have "BLOCK_START a = a + 24" using BLOCK_bounds(1) [OF H a] .
  ultimately show ?thesis using B(1) sp(2) by (intro exI [of _ B']) (simp add: take_block_def prog_simps)
qed

section \<open>Garbage collection\<close>

fun coalesce :: "(nat \<times> nat) list \<Rightarrow> (nat \<times> nat) list" where
  "coalesce [] = []"
| "coalesce [x] = [x]"
| "coalesce (x # y # zs) = (if snd x = 0 \<and> snd y = 0 then coalesce ((fst x + fst y + 24, 0) # zs)
     else x # coalesce (y # zs))"

lemma garbage_collect_loop_rep:
  assumes "heap_rep s (ys @ zs)" and "zs \<noteq> []" and "length zs < fuel"
  shows "\<exists>B. garbage_collect_loop fuel (after (heap_start s) ys) s = Ret () (s\<lparr>blocks := B\<rparr>) \<and>
    heap_rep (s\<lparr>blocks := B\<rparr>) (ys @ coalesce zs)"
  using assms
proof (induction zs arbitrary: s ys fuel rule: coalesce.induct)
  case (3 x y zs)
  let ?a = "after (heap_start s) ys"
  from "3.prems"(3) obtain k where k: "fuel = Suc k" "Suc (length zs) < k" by (cases fuel) auto
  have a0: "0 < ?a" using heap_rep_block(1) [OF "3.prems"(1) refl] .
  show ?case
  proof (cases "snd x = 0 \<and> snd y = 0")
    case True
    then obtain B where B: "merge_free_pair ?a s = Ret ?a (s\<lparr>blocks := B\<rparr>)"
        "heap_rep (s\<lparr>blocks := B\<rparr>) (ys @ (fst x + fst y + 24, 0) # zs)"
      using merge_free_pair_merges [OF "3.prems"(1) refl] by blast
    from "3.IH"(1) [OF True B(2), of k] k obtain C where
      "garbage_collect_loop k ?a (s\<lparr>blocks := B\<rparr>) = Ret () (s\<lparr>blocks := C\<rparr>)"
      "heap_rep (s\<lparr>blocks := C\<rparr>) (ys @ coalesce ((fst x + fst y + 24, 0) # zs))" by auto
    with True a0 B(1) k(1) show ?thesis by (intro exI [of _ C]) (simp add: prog_simps)
  next
    case False
    then have m: "merge_free_pair ?a s = Ret (bend ?a (fst x)) s"
      using merge_free_pair_used [OF "3.prems"(1) refl] by blast
    have "heap_rep s ((ys @ [x]) @ y # zs)" using "3.prems"(1) by simp
    from "3.IH"(2) [OF False this, of k] k obtain C where
      "garbage_collect_loop k (bend ?a (fst x)) s = Ret () (s\<lparr>blocks := C\<rparr>)"
      "heap_rep (s\<lparr>blocks := C\<rparr>) ((ys @ [x]) @ coalesce (y # zs))" by auto
    with False a0 m k(1) show ?thesis by (intro exI [of _ C]) (auto simp: prog_simps)
  qed
next
  case 2
  from "2.prems"(3) obtain k where k: "fuel = Suc (Suc k)" by (cases fuel; cases "fuel - 1") auto
  show ?case
    using merge_free_pair_last [OF "2.prems"(1) refl] heap_rep_block(1) [OF "2.prems"(1) refl] k
      "2.prems"(1)
    by (intro exI [of _ "blocks s"]) (simp add: prog_simps)
qed simp

lemma heap_rep_length: "heap_rep s xs \<Longrightarrow> length xs < heap_end s"
  using after_length [of "heap_start s" xs] by (simp add: heap_rep_def)

lemma garbage_collect_rep:
  assumes "heap_rep s xs"
  shows "\<exists>B. garbage_collect s = Ret () (s\<lparr>blocks := B\<rparr>) \<and> heap_rep (s\<lparr>blocks := B\<rparr>) (coalesce xs)"
proof -
  have "xs \<noteq> []" using assms by (simp add: heap_rep_def)
  then show ?thesis
    using garbage_collect_loop_rep [of s "[]" xs "Suc (heap_end s)"] heap_rep_length [OF assms] assms
    by (simp add: garbage_collect_def gets_app bnd_app del: garbage_collect_loop.simps)
qed

end
