(* ===== verification/Heap_Alloc.thy ===== *)
theory Heap_Alloc
  imports User_Heap
begin

text \<open>
  The correctness of \<^verbatim>\<open>malloc\<close>, \<^verbatim>\<open>free\<close>, \<^verbatim>\<open>calloc\<close> and \<^verbatim>\<open>realloc\<close> of \<^verbatim>\<open>new_heap.c\<close>: the walks over the
  block list, what each call does to the set of live objects, and the interface (the locale \<open>allocator\<close>) that
  \<^verbatim>\<open>calloc\<close> and the copying case of \<^verbatim>\<open>realloc\<close> rely on.
\<close>

section \<open>Searching\<close>

text \<open>The payload areas of the blocks: start, size and used size.\<close>

primrec spans :: "nat \<Rightarrow> (nat \<times> nat) list \<Rightarrow> (nat \<times> nat \<times> nat) list" where
  "spans a [] = []"
| "spans a (x # xs) = (a + 24, fst x, snd x) # spans (bend a (fst x)) xs"

definition live :: "nat \<Rightarrow> (nat \<times> nat) list \<Rightarrow> (nat \<times> nat \<times> nat) set" where
  "live a xs = {(p, n, u). (p, n, u) \<in> set (spans a xs) \<and> u \<noteq> 0}"

lemma live_Nil [simp]: "live a [] = {}"
  by (simp add: live_def)

lemma live_Cons [simp]:
  "live a (x # xs) = (if snd x = 0 then {} else {(a + 24, fst x, snd x)}) \<union> live (bend a (fst x)) xs"
  by (auto simp: live_def)

lemma spans_append [simp]: "spans a (xs @ ys) = spans a xs @ spans (after a xs) ys"
  by (induction xs arbitrary: a) simp_all

lemma live_append [simp]: "live a (xs @ ys) = live a xs \<union> live (after a xs) ys"
  by (induction xs arbitrary: a) auto

lemma live_bounds: "(p, n, u) \<in> live a xs \<Longrightarrow> a + 24 \<le> p \<and> p + n \<le> after a xs"
proof (induction xs arbitrary: a)
  case (Cons x xs)
  then show ?case
    using after_ge [of "bend a (fst x)" xs] Cons.IH [of "bend a (fst x)"]
    by (auto simp: bend_def split: if_splits)
qed simp

lemma live_disjoint:
  "(p, n, u) \<in> live a xs \<Longrightarrow> (q, m, v) \<in> live a xs \<Longrightarrow> (p, n, u) = (q, m, v) \<or> p + n + 24 \<le> q \<or> q + m + 24 \<le> p"
proof (induction xs arbitrary: a)
  case (Cons x xs)
  have "p = a + 24 \<and> n = fst x \<and> u = snd x \<or> (p, n, u) \<in> live (bend a (fst x)) xs"
    "q = a + 24 \<and> m = fst x \<and> v = snd x \<or> (q, m, v) \<in> live (bend a (fst x)) xs"
    using Cons.prems by (auto split: if_splits)
  then show ?case
    using Cons.IH [of "bend a (fst x)"] live_bounds [of p n u "bend a (fst x)" xs]
      live_bounds [of q m v "bend a (fst x)" xs]
    by (auto simp: bend_def)
qed simp

lemma spans_split:
  "(p, n, u) \<in> set (spans a xs) \<Longrightarrow> \<exists>ys zs. xs = ys @ (n, u) # zs \<and> p = after a ys + 24"
proof (induction xs arbitrary: a)
  case (Cons x xs)
  show ?case
  proof (cases "(p, n, u) = (a + 24, fst x, snd x)")
    case True
    then show ?thesis by (intro exI [of _ "[]"] exI [of _ xs]) simp
  next
    case False
    with Cons.prems have "(p, n, u) \<in> set (spans (bend a (fst x)) xs)" by auto
    from Cons.IH [OF this] obtain ys zs where "xs = ys @ (n, u) # zs" "p = after (bend a (fst x)) ys + 24"
      by blast
    then show ?thesis by (intro exI [of _ "x # ys"] exI [of _ zs]) simp
  qed
qed simp

lemma rep_walk:
  assumes "heap_rep s (ps @ x # qs)"
  shows "nxt (heap_end s) (bend (after (heap_start s) ps) (fst x)) =
    (if qs = [] then 0 else after (heap_start s) (ps @ [x]))"
proof (cases qs)
  case Nil
  with heap_rep_block(7) [OF assms refl] show ?thesis by simp
next
  case (Cons y zs)
  have "heap_rep s ((ps @ [x]) @ y # zs)" using assms Cons by simp
  from heap_rep_block(3) [OF this refl] show ?thesis using Cons by (simp add: nxt_inner)
qed

lemmas rep_step = get_block_rep sanity_check_rep BLOCK_bounds

lemma free_loop_found:
  assumes "heap_rep s (ps @ qs @ x # zs)" and "c = after (heap_start s) (ps @ qs)"
    and "c + 24 \<le> p" "p < bend c (fst x)" and "length qs < fuel"
  shows "free_loop fuel p (after (heap_start s) ps) s =
    (if snd x = 0 then helper_maybort else thn (upd_block c (\<lambda>b. b\<lparr>size_used := 0\<rparr>)) garbage_collect) s"
  using assms
proof (induction qs arbitrary: ps fuel)
  case Nil
  then obtain k where "fuel = Suc k" by (cases fuel) auto
  moreover have "heap_rep s (ps @ x # zs)" "c = after (heap_start s) ps" using Nil by simp_all
  ultimately show ?case
    using Nil(3,4) heap_rep_block(1) [of s ps x zs c] get_block_rep [of s ps x zs c]
      sanity_check_rep [of s ps x zs c] BLOCK_bounds [of s ps x zs c]
    by (simp add: prog_simps)
next
  case (Cons y qs)
  then obtain k where k: "fuel = Suc k" "length qs < k" by (cases fuel) auto
  let ?a = "after (heap_start s) ps"
  have H: "heap_rep s (ps @ y # (qs @ x # zs))" using Cons.prems(1) by simp
  have "bend ?a (fst y) \<le> c" using Cons.prems(2) after_ge by simp
  with Cons.prems(3) have out: "\<not> p < bend ?a (fst y)" by simp
  have "free_loop fuel p ?a s = free_loop k p (after (heap_start s) (ps @ [y])) s"
    using heap_rep_block(1) [OF H refl] get_block_rep [OF H refl] sanity_check_rep [OF H refl]
      BLOCK_bounds [OF H refl] rep_walk [OF H] out k(1)
    by (simp add: prog_simps)
  also have "\<dots> = (if snd x = 0 then helper_maybort
      else thn (upd_block c (\<lambda>b. b\<lparr>size_used := 0\<rparr>)) garbage_collect) s"
    using Cons.prems k(2) by (intro Cons.IH) simp_all
  finally show ?case .
qed

lemma free_loop_missing:
  assumes "heap_rep s (ps @ qs)" and "length qs < fuel"
    and "\<forall>(q, n, u) \<in> set (spans (after (heap_start s) ps) qs). \<not> (q \<le> p \<and> p < q + n)"
  shows "free_loop fuel p (if qs = [] then 0 else after (heap_start s) ps) s = helper_maybort s"
  using assms
proof (induction qs arbitrary: ps fuel)
  case Nil
  then show ?case by (cases fuel) auto
next
  case (Cons y qs)
  then obtain k where k: "fuel = Suc k" "length qs < k" by (cases fuel) auto
  let ?a = "after (heap_start s) ps"
  have H: "heap_rep s (ps @ y # qs)" by (rule Cons.prems(1))
  have out: "\<not> (?a + 24 \<le> p \<and> p < bend ?a (fst y))"
    using Cons.prems(3) by (cases y) (auto simp: bend_def)
  have "free_loop fuel p ?a s = free_loop k p (if qs = [] then 0 else after (heap_start s) (ps @ [y])) s"
    using heap_rep_block(1) [OF H refl] get_block_rep [OF H refl] sanity_check_rep [OF H refl]
      BLOCK_bounds [OF H refl] rep_walk [OF H] out k(1)
    by (auto simp add: prog_simps)
  also have "\<dots> = helper_maybort s"
    using Cons.prems k(2) by (intro Cons.IH) simp_all
  finally show ?case by simp
qed

lemma malloc_loop_found:
  assumes "heap_rep s (ps @ qs @ (n, 0) # zs)" and "len \<le> n" and "length qs < fuel"
    and "\<forall>x \<in> set qs. \<not> (snd x = 0 \<and> len \<le> fst x)"
  shows "\<exists>l'. malloc_loop fuel len l (after (heap_start s) ps) s = Ret (after (heap_start s) (ps @ qs), l') s"
  using assms
proof (induction qs arbitrary: ps fuel l)
  case Nil
  then obtain k where "fuel = Suc k" by (cases fuel) auto
  then show ?case
    using Nil heap_rep_block(1) [of s ps "(n, 0)" zs] get_block_rep [of s ps "(n, 0)" zs]
      sanity_check_rep [of s ps "(n, 0)" zs]
    by (simp add: prog_simps)
next
  case (Cons y qs)
  then obtain k where k: "fuel = Suc k" "length qs < k" by (cases fuel) auto
  let ?a = "after (heap_start s) ps"
  have H: "heap_rep s (ps @ y # (qs @ (n, 0) # zs))" using Cons.prems(1) by simp
  have "malloc_loop fuel len l ?a s = malloc_loop k len ?a (after (heap_start s) (ps @ [y])) s"
    using heap_rep_block(1) [OF H refl] get_block_rep [OF H refl] sanity_check_rep [OF H refl]
      rep_walk [OF H] k(1) Cons.prems(4)
    by (auto simp add: prog_simps)
  moreover have "\<exists>l'. malloc_loop k len ?a (after (heap_start s) (ps @ [y])) s
      = Ret (after (heap_start s) ((ps @ [y]) @ qs), l') s"
    using Cons.prems k(2) by (intro Cons.IH) simp_all
  ultimately show ?case by simp
qed

lemma malloc_loop_none:
  assumes "heap_rep s (ps @ qs)" and "length qs < fuel" and "\<forall>x \<in> set qs. \<not> (snd x = 0 \<and> len \<le> fst x)"
  shows "malloc_loop fuel len l (if qs = [] then 0 else after (heap_start s) ps) s =
    Ret (0, prev_of l (after (heap_start s) ps) qs) s"
  using assms
proof (induction qs arbitrary: ps fuel l)
  case Nil
  then show ?case by (cases fuel) (auto simp: prog_simps)
next
  case (Cons y qs)
  then obtain k where k: "fuel = Suc k" "length qs < k" by (cases fuel) auto
  let ?a = "after (heap_start s) ps"
  have H: "heap_rep s (ps @ y # qs)" by (rule Cons.prems(1))
  have "malloc_loop fuel len l ?a s =
      malloc_loop k len ?a (if qs = [] then 0 else after (heap_start s) (ps @ [y])) s"
    using heap_rep_block(1) [OF H refl] get_block_rep [OF H refl] sanity_check_rep [OF H refl]
      rep_walk [OF H] k(1) Cons.prems(3)
    by (auto simp add: prog_simps)
  also have "\<dots> = Ret (0, prev_of ?a (after (heap_start s) (ps @ [y])) qs) s"
    using Cons.prems k(2) by (intro Cons.IH) simp_all
  finally show ?case by simp
qed

section \<open>free\<close>

lemma coalesce_live [simp]: "live a (coalesce xs) = live a xs"
proof (induction xs arbitrary: a rule: coalesce.induct)
  case (3 x y zs)
  then show ?case by (cases "snd x = 0 \<and> snd y = 0") auto
qed simp_all

lemma ensure_heap_rep: "heap_rep s xs \<Longrightarrow> ensure_heap s = Ret () s"
  by (simp add: ensure_heap_def prog_simps heap_rep_def)

lemma heap_free_found:
  assumes H: "heap_rep s (ys @ (n, u) # zs)" and u: "u \<noteq> 0"
    and p: "after (heap_start s) ys + 24 \<le> p" "p < bend (after (heap_start s) ys) n"
  shows "\<exists>B. heap_free p s = Ret () (s\<lparr>blocks := B\<rparr>) \<and> heap_rep (s\<lparr>blocks := B\<rparr>) (coalesce (ys @ (n, 0) # zs))"
proof -
  let ?a = "after (heap_start s) ys"
  from mark_used [OF H refl, of 0] obtain B where
    B: "upd_block ?a (\<lambda>b. b\<lparr>size_used := 0\<rparr>) s = Ret () (s\<lparr>blocks := B\<rparr>)"
       "heap_rep (s\<lparr>blocks := B\<rparr>) (ys @ (n, 0) # zs)" by auto
  from garbage_collect_rep [OF B(2)] obtain C where
    C: "garbage_collect (s\<lparr>blocks := B\<rparr>) = Ret () (s\<lparr>blocks := C\<rparr>)"
       "heap_rep (s\<lparr>blocks := C\<rparr>) (coalesce (ys @ (n, 0) # zs))" by auto
  have "length ys < Suc (heap_end s)" using heap_rep_length [OF H] by simp
  then have "free_loop (Suc (heap_end s)) p (heap_start s) s = Ret () (s\<lparr>blocks := C\<rparr>)"
    using free_loop_found [of s "[]" ys "(n, u)" zs ?a p "Suc (heap_end s)"] H p u B(1) C(1)
    by (simp add: thn_app del: free_loop.simps)
  with C(2) p show ?thesis
    using ensure_heap_rep [OF H]
    by (intro exI [of _ C]) (simp add: heap_free_def gets_app bnd_app thn_app del: free_loop.simps)
qed

lemma heap_free_missing:
  assumes H: "heap_rep s xs" and p: "p \<noteq> 0"
    and out: "\<forall>(q, n, u) \<in> set (spans (heap_start s) xs). \<not> (q \<le> p \<and> p < q + n)"
  shows "heap_free p s = helper_maybort s"
proof -
  have "xs \<noteq> []" "length xs < Suc (heap_end s)" using H heap_rep_length [OF H] by (auto simp: heap_rep_def)
  then have "free_loop (Suc (heap_end s)) p (heap_start s) s = helper_maybort s"
    using free_loop_missing [of s "[]" xs "Suc (heap_end s)" p] H out by simp
  then show ?thesis
    using ensure_heap_rep [OF H] p by (simp add: heap_free_def gets_app bnd_app thn_app del: free_loop.simps)
qed

section \<open>malloc\<close>

lemma page_up_bounds:
  assumes "x + 0x2000 < 2 ^ 32"
  shows "x \<le> page_up x" "page_up x < x + 0x2000" "PAGE_BYTES dvd page_up x"
proof -
  have e: "page_up x = (x + 0x1FFF) div 0x2000 * 0x2000"
    using assms by (simp add: page_up_def PAGE_BYTES_def u32_id)
  have "(x + 0x1FFF) mod 0x2000 < 0x2000" by simp
  moreover have "(x + 0x1FFF) div 0x2000 * 0x2000 + (x + 0x1FFF) mod 0x2000 = x + 0x1FFF" by simp
  ultimately show "x \<le> page_up x" "page_up x < x + 0x2000" unfolding e by linarith+
  show "PAGE_BYTES dvd page_up x" unfolding e by (simp add: PAGE_BYTES_def)
qed

lemma page_up_id: "PAGE_BYTES dvd x \<Longrightarrow> x + 0x2000 < 2 ^ 32 \<Longrightarrow> page_up x = x"
  by (auto simp: page_up_def PAGE_BYTES_def u32_id elim!: dvdE)

lemma round8_id: "PAGE_BYTES dvd x \<Longrightarrow> x + 0x2000 < 2 ^ 32 \<Longrightarrow> u32 (x + 7) div 8 * 8 = x"
  by (auto simp: PAGE_BYTES_def u32_id elim!: dvdE)

text \<open>The break moves to a page boundary, or the system call has refused.\<close>

lemma brk_page:
  assumes "PAGE_BYTES dvd r" and "r + 0x2000 < 2 ^ 32"
  shows "brk r s = (let t = (if r = page_up (current_break s) then s else s\<lparr>brk_calls := Suc (brk_calls s)\<rparr>) in
    if r \<noteq> page_up (current_break s) \<and> \<not> brk_ok s (brk_calls s) r then Ret False t
    else Ret True (t\<lparr>current_break := r\<rparr>))"
  using assms
  by (simp add: brk_def brk_unlocked_def round8_id page_up_id prog_simps SysBrk_def Let_def)

lemma page_up_limit: "x \<le> USER_LIMIT \<Longrightarrow> page_up x \<le> USER_LIMIT"
proof -
  assume x: "x \<le> USER_LIMIT"
  then have e: "page_up x = (x + 0x1FFF) div 0x2000 * 0x2000"
    by (simp add: page_up_def PAGE_BYTES_def u32_id USER_LIMIT_def)
  have "(x + 0x1FFF) div 0x2000 \<le> (0x200000 + 0x1FFF) div 0x2000"
    using x by (intro div_le_mono) (simp add: USER_LIMIT_def)
  then show ?thesis unfolding e by (simp add: USER_LIMIT_def)
qed

lemma u32_sub:
  assumes "e + 24 \<le> r" and "r < 2 ^ 32"
  shows "u32 (r + 2 ^ 32 - e + 2 ^ 32 - 24) = r - e - 24"
proof -
  have "r + 2 ^ 32 - e + 2 ^ 32 - 24 = (r - e - 24) + 2 * 2 ^ 32" using assms(1) by simp
  moreover have "r - e - 24 < 2 ^ 32" using assms by simp
  ultimately show ?thesis by (simp only: u32_def mod_mult_self1 mod_less)
qed

definition grown :: "uheap \<Rightarrow> nat \<Rightarrow> nat \<Rightarrow> (nat \<Rightarrow> mblock option) \<Rightarrow> uheap" where
  "grown s c r B = s\<lparr>brk_calls := c, current_break := r, blocks := B, heap_end := r\<rparr>"

lemma grow_heap_cases:
  assumes H: "heap_rep s xs" and len: "len < 2 ^ 31 + 8"
  obtains (refused) c where "grow_heap len s = Ret 0 (s\<lparr>brk_calls := c\<rparr>)"
      "\<not> brk_ok s (brk_calls s) (page_up (heap_end s + len + 24))"
  | (grew) c r where "heap_end s + len + 24 \<le> r" "r \<le> USER_LIMIT"
      "grow_heap len s = Ret (heap_end s)
        (grown s c r ((blocks s)(heap_end s \<mapsto> fresh_block (r - heap_end s - 24))))"
proof -
  let ?e = "heap_end s"
  let ?r = "page_up (?e + len + 24)"
  have e: "0 < heap_start s" "?e \<le> USER_LIMIT" "current_break s = ?e"
    and ok: "\<And>k a. brk_ok s k a \<Longrightarrow> a \<le> USER_LIMIT"
    using H by (auto simp: heap_rep_def)
  have small: "?e + len + 24 + 0x2000 < 2 ^ 32" using e(2) len by (simp add: USER_LIMIT_def)
  note r = page_up_bounds [OF small]
  have r32: "?r + 0x2000 < 2 ^ 32" using r(2) e(2) len by (simp add: USER_LIMIT_def)
  have req: "page_up (u32 (?e + len + SIZEOF_MBLOCK)) = ?r"
    using small by (simp add: u32_id)
  have sz: "u32 (?r + 2 ^ 32 - ?e + 2 ^ 32 - SIZEOF_MBLOCK) = ?r - ?e - 24"
    using r(1) r32 u32_sub [of ?e ?r] by simp
  note b = brk_page [OF r(3) r32, of s]
  show thesis
  proof (cases "?r \<noteq> page_up ?e \<and> \<not> brk_ok s (brk_calls s) ?r")
    case True
    then have "grow_heap len s = Ret 0 (s\<lparr>brk_calls := Suc (brk_calls s)\<rparr>)"
      using e req b by (simp add: grow_heap_def prog_simps Let_def)
    with True show thesis using refused by blast
  next
    case False
    let ?c = "if ?r = page_up ?e then brk_calls s else Suc (brk_calls s)"
    have "?r \<le> USER_LIMIT" using False ok page_up_limit [OF e(2)] by auto
    moreover have "grow_heap len s = Ret ?e (grown s ?c ?r ((blocks s)(?e \<mapsto> fresh_block (?r - ?e - 24))))"
      using False e req b sz
      by (auto simp: grow_heap_def prog_simps Let_def put_block_def grown_def)
    ultimately show thesis using r(1) grew by blast
  qed
qed

text \<open>Linking the new block behind the last one gives a heap with one more free block.\<close>

lemma link_grown:
  assumes H: "heap_rep s (ys @ [x])" and a: "a = after (heap_start s) ys"
    and r: "heap_end s + 24 \<le> r" "r \<le> USER_LIMIT"
    and t: "t = grown s c r ((blocks s)(heap_end s \<mapsto> fresh_block (r - heap_end s - 24)))"
  shows "\<exists>B. thn (upd_block a (\<lambda>b. b\<lparr>bnext := heap_end s\<rparr>))
        (upd_block (heap_end s) (\<lambda>b. b\<lparr>previous := a\<rparr>)) t = Ret () (grown s c r B) \<and>
      heap_rep (grown s c r B) (ys @ [x, (r - heap_end s - 24, 0)])"
proof -
  let ?e = "heap_end s" and ?p = "prev_of 0 (heap_start s) ys" and ?m = "r - heap_end s - 24"
  note A = heap_rep_block [OF H a]
  have e: "?e = bend a (fst x)" "a < ?e" "bend ?e ?m = r" using A(7) r by (simp_all add: bend_def)
  have ne: "nxt r ?e = ?e" using r(1) by (simp add: nxt_def)
  define B1 where "B1 = (blocks s)(?e \<mapsto> fresh_block ?m, a \<mapsto> header r ?p a x)"
  define B2 where "B2 = B1(?e \<mapsto> header r a ?e (?m, 0))"
  have hx: "(header ?e ?p a x)\<lparr>bnext := ?e\<rparr> = header r ?p a x"
    using ne by (simp add: header_def e(1) [symmetric])
  have hm: "(fresh_block ?m)\<lparr>previous := a\<rparr> = header r a ?e (?m, 0)"
    using e(3) by (simp add: header_def fresh_block_def)
  have run: "thn (upd_block a (\<lambda>b. b\<lparr>bnext := ?e\<rparr>)) (upd_block ?e (\<lambda>b. b\<lparr>previous := a\<rparr>)) t
      = Ret () (grown s c r B2)"
    using A(1,5) e(2) hx hm by (simp add: t thn_app upd_block_app grown_def B1_def B2_def)
  have "bseg B e' p b zs = bseg B e'' p b zs"
    if "after b zs < e'" "after b zs < e''" for B e' e'' p b zs
    using that
  proof (induction zs arbitrary: p b)
    case (Cons z zs)
    then have "bend b (fst z) < e'" "bend b (fst z) < e''"
      using after_ge [of "bend b (fst z)" zs] by auto
    then show ?case using Cons by (simp add: header_def nxt_def)
  qed simp
  from this [of "heap_start s" ys ?e r] have "bseg (blocks s) r 0 (heap_start s) ys"
    using heap_rep_bseg [OF H] a e r(1) by simp
  then have "bseg B2 r 0 (heap_start s) ys"
    using a e(2) by (simp add: B2_def B1_def bseg_upd_outside)
  then have "bseg B2 r 0 (heap_start s) (ys @ [x, (?m, 0)])"
    using a A(6) e by (simp add: B2_def B1_def)
  then have "heap_rep (grown s c r B2) (ys @ [x, (?m, 0)])"
    using H r a e by (simp add: heap_rep_def grown_def)
  with run show ?thesis by blast
qed

lemma malloc_size:
  assumes "len0 < 2 ^ 31"
  shows "len0 + 4 \<le> WORDROUND (u32 (len0 + 4))" "WORDROUND (u32 (len0 + 4)) < len0 + 8"
    "4 dvd WORDROUND (u32 (len0 + 4))"
proof -
  have "WORDROUND (u32 (len0 + 4)) = (len0 + 7) div 4 * 4"
    using assms by (simp add: WORDROUND_def u32_id)
  moreover have "(len0 + 7) div 4 * 4 + (len0 + 7) mod 4 = len0 + 7" by simp
  moreover have "(len0 + 7) mod 4 < 4" by simp
  ultimately show "len0 + 4 \<le> WORDROUND (u32 (len0 + 4))" "WORDROUND (u32 (len0 + 4)) < len0 + 8"
    "4 dvd WORDROUND (u32 (len0 + 4))" by (linarith, linarith, simp)
qed

definition fits :: "nat \<Rightarrow> nat \<times> nat \<Rightarrow> bool" where
  "fits len x \<longleftrightarrow> snd x = 0 \<and> len \<le> fst x"

lemma first_fit: "(\<exists>x \<in> set xs. fits len x) \<Longrightarrow> \<exists>ys n zs. xs = ys @ (n, 0) # zs \<and> len \<le> n \<and> (\<forall>x \<in> set ys. \<not> fits len x)"
  using split_list_first_prop [of xs "fits len"] by (auto simp: fits_def)

lemma heap_malloc_fit:
  assumes H: "heap_rep s (ys @ (n, 0) # zs)" and len0: "len0 < 2 ^ 31"
    and len: "len = WORDROUND (u32 (len0 + 4))" "len \<le> n" and no: "\<forall>x \<in> set ys. \<not> fits len x"
  shows "\<exists>B. heap_malloc len0 s = Ret (after (heap_start s) ys + 24) (s\<lparr>blocks := B\<rparr>) \<and>
    heap_rep (s\<lparr>blocks := B\<rparr>) (ys @ split_block len n len @ zs)"
proof -
  let ?a = "after (heap_start s) ys"
  have fuel: "length ys < Suc (heap_end s)" using heap_rep_length [OF H] by simp
  obtain l where l: "malloc_loop (Suc (heap_end s)) len 0 (heap_start s) s = Ret (?a, l) s"
    using malloc_loop_found [of s "[]" ys n zs len "Suc (heap_end s)" 0] H len(2) fuel no
    by (auto simp: fits_def simp del: malloc_loop.simps)
  have "4 dvd len" using malloc_size(3) [OF len0] len(1) by simp
  from take_block_rep [OF H refl len(2) this] obtain B where
    "take_block ?a len s = Ret (?a + 24) (s\<lparr>blocks := B\<rparr>)"
    "heap_rep (s\<lparr>blocks := B\<rparr>) (ys @ split_block len n len @ zs)" by blast
  with l len0 show ?thesis
    using ensure_heap_rep [OF H] heap_rep_block(1) [OF H refl] len(1)
    by (intro exI [of _ B])
      (simp add: heap_malloc_def gets_app bnd_app thn_app Let_def del: malloc_loop.simps)
qed

lemma take_merged_rep:
  assumes H: "heap_rep s (zs @ [(n, 0)])" and a: "a = after (heap_start s) zs" and n: "len \<le> n" "4 dvd len"
  shows "\<exists>B. take_merged len a s = Ret (a + 24) (s\<lparr>blocks := B\<rparr>) \<and>
    heap_rep (s\<lparr>blocks := B\<rparr>) (zs @ split_block len n len)"
  using take_block_rep [OF H a n] heap_rep_block(1) [OF H a] get_block_rep [OF H a] n(1)
  by (simp add: take_merged_def bnd_app)

text \<open>Where the merged free block starts and how large it is when \<open>m\<close> bytes follow the last block \<open>x\<close>.\<close>

definition room :: "(nat \<times> nat) list \<Rightarrow> nat \<times> nat \<Rightarrow> nat \<Rightarrow> (nat \<times> nat) list \<times> nat" where
  "room ys x m = (if snd x = 0 then (ys, fst x + m + 24) else (ys @ [x], m))"

lemma merge_last:
  assumes H: "heap_rep s (ys @ [x, (m, 0)])" and a: "a = after (heap_start s) ys" and r: "room ys x m = (zs, n)"
  shows "\<exists>B. merge_free_pair a s = Ret (after (heap_start s) zs) (s\<lparr>blocks := B\<rparr>) \<and>
    heap_rep (s\<lparr>blocks := B\<rparr>) (zs @ [(n, 0)])"
proof (cases "snd x = 0")
  case True
  with merge_free_pair_merges [OF H a] a r show ?thesis by (auto simp: room_def)
next
  case False
  with merge_free_pair_used [OF H a] H a r show ?thesis
    by (intro exI [of _ "blocks s"]) (auto simp: room_def)
qed

lemma grow_and_take_rep:
  assumes H: "heap_rep s (ys @ [x])" and a: "a = after (heap_start s) ys"
    and len: "len < 2 ^ 31 + 8" "4 dvd len"
  shows "(\<exists>c. grow_and_take len a s = Ret 0 (s\<lparr>brk_calls := c\<rparr>) \<and>
      \<not> brk_ok s (brk_calls s) (page_up (heap_end s + len + 24))) \<or>
    (\<exists>c r B zs n. room ys x (r - heap_end s - 24) = (zs, n) \<and> len \<le> n \<and>
      grow_and_take len a s = Ret (after (heap_start s) zs + 24) (grown s c r B) \<and>
      heap_rep (grown s c r B) (zs @ split_block len n len))"
proof (rule grow_heap_cases [OF H len(1)])
  fix c assume "grow_heap len s = Ret 0 (s\<lparr>brk_calls := c\<rparr>)"
    "\<not> brk_ok s (brk_calls s) (page_up (heap_end s + len + 24))"
  then show ?thesis using heap_rep_block(1) [OF H a] by (auto simp: grow_and_take_def bnd_app ret_app)
next
  let ?e = "heap_end s"
  fix c r assume r: "?e + len + 24 \<le> r" "r \<le> USER_LIMIT"
    and g: "grow_heap len s = Ret ?e (grown s c r ((blocks s)(?e \<mapsto> fresh_block (r - ?e - 24))))"
  obtain zs n where zn: "room ys x (r - ?e - 24) = (zs, n)" by fastforce
  have n: "len \<le> n" using zn r(1) by (auto simp: room_def split: if_splits)
  have upd: "(grown s c r B)\<lparr>blocks := C\<rparr> = grown s c r C" "heap_start (grown s c r B) = heap_start s" for B C
    by (simp_all add: grown_def)
  from link_grown [OF H a _ r(2) refl, of c] r(1) obtain B where
    B: "thn (upd_block a (\<lambda>b. b\<lparr>bnext := ?e\<rparr>)) (upd_block ?e (\<lambda>b. b\<lparr>previous := a\<rparr>))
        (grown s c r ((blocks s)(?e \<mapsto> fresh_block (r - ?e - 24)))) = Ret () (grown s c r B)"
    and G: "heap_rep (grown s c r B) (ys @ [x, (r - ?e - 24, 0)])" by auto
  from merge_last [OF G _ zn, of a] a obtain C where
    C: "merge_free_pair a (grown s c r B) = Ret (after (heap_start s) zs) (grown s c r C)"
    and CR: "heap_rep (grown s c r C) (zs @ [(n, 0)])" by (auto simp: upd)
  from take_merged_rep [OF CR _ n len(2), of "after (heap_start s) zs"] obtain D where
    D: "take_merged len (after (heap_start s) zs) (grown s c r C) = Ret (after (heap_start s) zs + 24) (grown s c r D)"
    and DR: "heap_rep (grown s c r D) (zs @ split_block len n len)" by (auto simp: upd)
  have "?e \<noteq> 0" "a \<noteq> 0" using heap_rep_block(1,3) [OF H a] by (simp_all add: bend_def)
  then have "grow_and_take len a s = Ret (after (heap_start s) zs + 24) (grown s c r D)"
    using g C D B by (simp add: grow_and_take_def bnd_app thn_assoc thn_Ret)
  with zn n DR show ?thesis by blast
qed

lemma heap_malloc_grow:
  assumes H: "heap_rep s (ys @ [x])" and len0: "len0 < 2 ^ 31"
    and len: "len = WORDROUND (u32 (len0 + 4))" and no: "\<forall>y \<in> set (ys @ [x]). \<not> fits len y"
  shows "heap_malloc len0 s = grow_and_take len (after (heap_start s) ys) s"
proof -
  have fuel: "length (ys @ [x]) < Suc (heap_end s)" using heap_rep_length [OF H] by simp
  have "malloc_loop (Suc (heap_end s)) len 0 (heap_start s) s = Ret (0, after (heap_start s) ys) s"
    using malloc_loop_none [of s "[]" "ys @ [x]" "Suc (heap_end s)" len 0] H fuel no
    by (auto simp: fits_def simp del: malloc_loop.simps)
  then show ?thesis
    using ensure_heap_rep [OF H] len len0
    by (simp add: heap_malloc_def gets_app bnd_app thn_app Let_def del: malloc_loop.simps)
qed

text \<open>The states malloc, free and realloc lead to keep the rest of the heap's variables.\<close>

definition same_env :: "uheap \<Rightarrow> uheap \<Rightarrow> bool" where
  "same_env s t \<longleftrightarrow> heap_start t = heap_start s \<and> bytes t = bytes s \<and> maybort_stops t = maybort_stops s"

lemma malloc_step:
  assumes H: "heap_rep s xs" and len0: "len0 < 2 ^ 31" and len: "len = WORDROUND (u32 (len0 + 4))"
  obtains (none) t where "heap_malloc len0 s = Ret 0 t" "heap_rep t xs" "same_env s t"
      "\<forall>x \<in> set xs. \<not> fits len x" "\<not> brk_ok s (brk_calls s) (page_up (heap_end s + len + 24))"
  | (took) t ys n zs where "heap_malloc len0 s = Ret (after (heap_start s) ys + 24) t"
      "heap_rep t (ys @ split_block len n len @ zs)" "same_env s t" "len \<le> n"
      "live (heap_start s) xs = live (heap_start s) (ys @ (n, 0) # zs)"
proof (cases "\<exists>x \<in> set xs. fits len x")
  case True
  then obtain ys n zs where xs: "xs = ys @ (n, 0) # zs" and n: "len \<le> n" and no: "\<forall>x \<in> set ys. \<not> fits len x"
    using first_fit by blast
  from heap_malloc_fit [OF _ len0 len n no] H xs obtain B where
    "heap_malloc len0 s = Ret (after (heap_start s) ys + 24) (s\<lparr>blocks := B\<rparr>)"
    "heap_rep (s\<lparr>blocks := B\<rparr>) (ys @ split_block len n len @ zs)" by blast
  then show thesis using took [of ys "s\<lparr>blocks := B\<rparr>" n zs] n xs by (simp add: same_env_def)
next
  case False
  then have no: "\<forall>x \<in> set xs. \<not> fits len x" by blast
  have "xs \<noteq> []" using H by (simp add: heap_rep_def)
  then obtain ys x where xs: "xs = ys @ [x]" by (metis append_butlast_last_id)
  have R: "heap_malloc len0 s = grow_and_take len (after (heap_start s) ys) s"
    using heap_malloc_grow [OF _ len0 len] H no xs by blast
  have H': "heap_rep s (ys @ [x])" using H xs by simp
  have l: "len < 2 ^ 31 + 8" "4 dvd len" using malloc_size [OF len0] len0 len by simp_all
  show thesis
  proof (use grow_and_take_rep [OF H' refl l] in \<open>elim disjE exE conjE\<close>)
    fix c assume "grow_and_take len (after (heap_start s) ys) s = Ret 0 (s\<lparr>brk_calls := c\<rparr>)"
      "\<not> brk_ok s (brk_calls s) (page_up (heap_end s + len + 24))"
    then show thesis using none [of "s\<lparr>brk_calls := c\<rparr>"] R H no
      by (simp add: same_env_def heap_rep_cong [of "s\<lparr>brk_calls := c\<rparr>" s])
  next
    fix c r B zs n
    assume z: "room ys x (r - heap_end s - 24) = (zs, n)" "len \<le> n"
      and g: "grow_and_take len (after (heap_start s) ys) s = Ret (after (heap_start s) zs + 24) (grown s c r B)"
      and d: "heap_rep (grown s c r B) (zs @ split_block len n len)"
    have "live (heap_start s) xs = live (heap_start s) (zs @ [(n, 0)])"
      using z(1) xs by (auto simp: room_def split: if_splits)
    then show thesis using took [of zs "grown s c r B" n "[]"] z g d R by (simp add: same_env_def grown_def)
  qed
qed

section \<open>The allocator's contract\<close>

text \<open>The live objects of a well-formed heap: start, capacity and used size.\<close>

definition owns :: "uheap \<Rightarrow> (nat \<times> nat \<times> nat) set \<Rightarrow> bool" where
  "owns s L \<longleftrightarrow> (\<exists>xs. heap_rep s xs \<and> live (heap_start s) xs = L)"

text \<open>Object \<open>(p, k, u)\<close> and its header lie apart from the objects \<open>L\<close> and their headers.\<close>

definition apart :: "nat \<times> nat \<times> nat \<Rightarrow> (nat \<times> nat \<times> nat) set \<Rightarrow> bool" where
  "apart x L \<longleftrightarrow> (\<forall>(q, m, v) \<in> L. fst x + fst (snd x) + 24 \<le> q \<or> q + m + 24 \<le> fst x)"

lemma owns_apart: "owns s L \<Longrightarrow> x \<in> L \<Longrightarrow> apart x (L - {x})"
proof -
  assume "owns s L" and x: "x \<in> L"
  then obtain xs where L: "live (heap_start s) xs = L" by (auto simp: owns_def)
  obtain p n u where e: "x = (p, n, u)" by (cases x) auto
  have "p + n + 24 \<le> q \<or> q + m + 24 \<le> p" if "(q, m, v) \<in> L" "(q, m, v) \<noteq> x" for q m v
    using live_disjoint [of p n u "heap_start s" xs q m v] that x L e by auto
  then show ?thesis by (auto simp: apart_def e)
qed

lemma owns_bounds:
  "owns s L \<Longrightarrow> (p, n, u) \<in> L \<Longrightarrow> heap_start s + 24 \<le> p \<and> p + n \<le> heap_end s \<and> heap_end s \<le> USER_LIMIT \<and> u \<noteq> 0"
  using live_bounds by (force simp: owns_def heap_rep_def live_def)

lemma spans_used: "bseg B e q a xs \<Longrightarrow> (p, n, u) \<in> set (spans a xs) \<Longrightarrow> u \<le> n"
  by (induction xs arbitrary: q a) auto

lemma owns_used: "owns s L \<Longrightarrow> (p, n, u) \<in> L \<Longrightarrow> 0 < u \<and> u \<le> n"
  by (auto simp: owns_def live_def heap_rep_def dest: spans_used)

lemma split_block_Cons: "len \<le> n \<Longrightarrow> \<exists>k rest. split_block len n u = (k, u) # rest \<and> len \<le> k \<and> (\<forall>x \<in> set rest. snd x = 0)"
  by (cases "n < len + 48") (auto simp: split_block_def)

lemma live_free: "\<forall>x \<in> set xs. snd x = 0 \<Longrightarrow> live a xs = {}"
  by (induction xs arbitrary: a) auto

lemma live_split_block:
  assumes "len \<le> n" and "0 < len"
  shows "\<exists>k. len \<le> k \<and> live a (ys @ split_block len n len @ zs) = insert (after a ys + 24, k, len) (live a (ys @ (n, 0) # zs))"
proof -
  obtain k rest where k: "split_block len n len = (k, len) # rest" "len \<le> k" "\<forall>x \<in> set rest. snd x = 0"
    using split_block_Cons [OF assms(1)] by blast
  have "after (after a ys) (split_block len n len) = bend (after a ys) n" using assms(1) by simp
  then show ?thesis using k live_free [OF k(3)] assms(2) by (intro exI [of _ k]) (simp add: insert_commute)
qed

lemma malloc_owns:
  assumes "owns s L" and "len0 < 2 ^ 31"
  shows "\<exists>p t. heap_malloc len0 s = Ret p t \<and> same_env s t \<and>
    (p = 0 \<and> owns t L \<or> (\<exists>k u. p \<noteq> 0 \<and> (p, k, u) \<notin> L \<and> len0 + 4 \<le> u \<and> u \<le> k \<and> owns t (insert (p, k, u) L)))"
proof -
  let ?len = "WORDROUND (u32 (len0 + 4))"
  from assms(1) obtain xs where H: "heap_rep s xs" and L: "live (heap_start s) xs = L" by (auto simp: owns_def)
  show ?thesis
  proof (rule malloc_step [OF H assms(2) refl])
    fix t assume "heap_malloc len0 s = Ret 0 t" "heap_rep t xs" "same_env s t"
    with L show ?thesis by (auto simp: owns_def same_env_def)
  next
    fix t ys n zs
    assume r: "heap_malloc len0 s = Ret (after (heap_start s) ys + 24) t"
      and R: "heap_rep t (ys @ split_block ?len n ?len @ zs)" and e: "same_env s t" and n: "?len \<le> n"
      and lv: "live (heap_start s) xs = live (heap_start s) (ys @ (n, 0) # zs)"
    have hs: "heap_start t = heap_start s" using e by (simp add: same_env_def)
    have pos: "0 < ?len" "len0 + 4 \<le> ?len" using malloc_size(1) [OF assms(2)] by simp_all
    from live_split_block [OF n pos(1)] obtain k where k: "?len \<le> k"
      "live (heap_start s) (ys @ split_block ?len n ?len @ zs) = insert (after (heap_start s) ys + 24, k, ?len) L"
      using lv L by metis
    have new: "(after (heap_start s) ys + 24, k, ?len) \<notin> L"
    proof
      assume "(after (heap_start s) ys + 24, k, ?len) \<in> L"
      then consider "(after (heap_start s) ys + 24, k, ?len) \<in> live (heap_start s) ys"
        | "(after (heap_start s) ys + 24, k, ?len) \<in> live (bend (after (heap_start s) ys) n) zs"
        using lv L by auto
      then show False using live_bounds by cases (force simp: bend_def)+
    qed
    have "owns t (insert (after (heap_start s) ys + 24, k, ?len) L)"
      using R k(2) hs by (auto simp: owns_def)
    with r e k(1) pos(2) new show ?thesis by auto
  qed
qed

lemma free_live:
  assumes H: "heap_rep s xs" and L: "L = live (heap_start s) xs" and q: "(q, k, u) \<in> L" "q \<le> p" "p < q + k"
  shows "\<exists>B ys. heap_free p s = Ret () (s\<lparr>blocks := B\<rparr>) \<and> heap_rep (s\<lparr>blocks := B\<rparr>) (coalesce ys) \<and>
    live (heap_start s) ys = L - {(q, k, u)}"
proof -
  have u: "u \<noteq> 0" and sp: "(q, k, u) \<in> set (spans (heap_start s) xs)"
    using q(1) L by (auto simp: live_def)
  from spans_split [OF sp] obtain ys zs where xs: "xs = ys @ (k, u) # zs" and a: "q = after (heap_start s) ys + 24"
    by blast
  have "(q, k, u) \<notin> live (heap_start s) ys" "(q, k, u) \<notin> live (bend (after (heap_start s) ys) k) zs"
    using live_bounds a by (force simp: bend_def)+
  then have "live (heap_start s) (ys @ (k, 0) # zs) = L - {(q, k, u)}"
    using L xs u a by auto
  with heap_free_found [of s ys k u zs p] H xs u q(2,3) a show ?thesis
    by (fastforce simp: bend_def)
qed

lemma free_owns:
  assumes "owns s L" and "(q, k, u) \<in> L" and "q \<le> p" "p < q + k"
  shows "\<exists>t. heap_free p s = Ret () t \<and> same_env s t \<and> owns t (L - {(q, k, u)})"
proof -
  from assms(1) obtain xs where H: "heap_rep s xs" and L: "L = live (heap_start s) xs" by (auto simp: owns_def)
  from free_live [OF H L assms(2-4)] obtain B ys where
    B: "heap_free p s = Ret () (s\<lparr>blocks := B\<rparr>)" "heap_rep (s\<lparr>blocks := B\<rparr>) (coalesce ys)"
       "live (heap_start s) ys = L - {(q, k, u)}" by blast
  then have "owns (s\<lparr>blocks := B\<rparr>) (L - {(q, k, u)})"
    unfolding owns_def by (intro exI [of _ "coalesce ys"]) simp
  with B(1) show ?thesis by (intro exI [of _ "s\<lparr>blocks := B\<rparr>"]) (simp add: same_env_def)
qed

lemma owns_header:
  assumes "owns s L" and "(p, k, u) \<in> L"
  shows "\<exists>b. get_block (p - 24) s = Ret b s \<and> bsize b = k \<and> size_used b = u"
proof -
  from assms(1) obtain xs where H: "heap_rep s xs" and L: "live (heap_start s) xs = L" by (auto simp: owns_def)
  have "(p, k, u) \<in> set (spans (heap_start s) xs)" using assms(2) L by (auto simp: live_def)
  from spans_split [OF this] obtain ys zs where xs: "xs = ys @ (k, u) # zs" and p: "p = after (heap_start s) ys + 24"
    by blast
  from get_block_rep [of s ys "(k, u)" zs "p - 24"] H xs p show ?thesis by auto
qed

lemma owns_bytes: "owns (s\<lparr>bytes := f\<rparr>) L = owns s L"
  by (simp add: owns_def heap_rep_cong [of "s\<lparr>bytes := f\<rparr>" s])

text \<open>
  What a client of the allocator may rely on. \<open>owned s L\<close>: the heap is well-formed and \<open>L\<close> are the objects
  that are allocated.
\<close>

locale allocator =
  fixes alloc :: "nat \<Rightarrow> (uheap, nat) prog"
    and release :: "nat \<Rightarrow> (uheap, unit) prog"
    and owned :: "uheap \<Rightarrow> (nat \<times> nat \<times> nat) set \<Rightarrow> bool"
  assumes alloc_law: "owned s L \<Longrightarrow> n < 2 ^ 31 \<Longrightarrow> \<exists>p t. alloc n s = Ret p t \<and> same_env s t \<and>
      (p = 0 \<and> owned t L \<or>
       (\<exists>k u. p \<noteq> 0 \<and> (p, k, u) \<notin> L \<and> n + 4 \<le> u \<and> u \<le> k \<and> owned t (insert (p, k, u) L)))"
    and alloc_huge: "2 ^ 31 \<le> n \<Longrightarrow> alloc n s = Ret 0 s"
    and release_law: "owned s L \<Longrightarrow> (q, k, u) \<in> L \<Longrightarrow> q \<le> p \<Longrightarrow> p < q + k \<Longrightarrow>
      \<exists>t. release p s = Ret () t \<and> same_env s t \<and> owned t (L - {(q, k, u)})"
    and owned_used: "owned s L \<Longrightarrow> (p, k, u) \<in> L \<Longrightarrow> 0 < u \<and> u \<le> k"
    and owned_apart: "owned s L \<Longrightarrow> x \<in> L \<Longrightarrow> apart x (L - {x})"
    and owned_header: "owned s L \<Longrightarrow> (p, k, u) \<in> L \<Longrightarrow>
      \<exists>b. get_block (p - 24) s = Ret b s \<and> bsize b = k \<and> size_used b = u"
    and owned_bytes: "owned (s\<lparr>bytes := f\<rparr>) L = owned s L"
begin

text \<open>A client that clears what it allocates.\<close>

lemma alloc_zeroed:
  assumes "owned s L"
  shows "\<exists>p t. bnd (alloc n) (\<lambda>p. thn (if p \<noteq> 0 then modify (\<lambda>s. s\<lparr>bytes := fill_bytes p n 0 (bytes s)\<rparr>) else ret ())
      (ret p)) s = Ret p t \<and> heap_start t = heap_start s \<and>
    (p = 0 \<and> bytes t = bytes s \<and> owned t L \<or>
     (\<exists>k u. p \<noteq> 0 \<and> n + 4 \<le> k \<and> (p, k, u) \<notin> L \<and> owned t (insert (p, k, u) L) \<and>
       bytes t = fill_bytes p n 0 (bytes s)))"
proof (cases "n < 2 ^ 31")
  case True
  from alloc_law [OF assms True] obtain p t where r: "alloc n s = Ret p t" "same_env s t"
    and c: "p = 0 \<and> owned t L \<or> (\<exists>k u. p \<noteq> 0 \<and> (p, k, u) \<notin> L \<and> n + 4 \<le> u \<and> u \<le> k \<and> owned t (insert (p, k, u) L))"
    by blast
  from c show ?thesis
  proof (elim disjE conjE exE)
    assume "p = 0" "owned t L"
    with r show ?thesis by (auto simp: bnd_app thn_app ret_app same_env_def)
  next
    fix k u assume p: "p \<noteq> 0" "(p, k, u) \<notin> L" "n + 4 \<le> u" "u \<le> k" "owned t (insert (p, k, u) L)"
    with r show ?thesis
      by (intro exI [of _ p] exI [of _ "t\<lparr>bytes := fill_bytes p n 0 (bytes t)\<rparr>"])
        (auto simp: bnd_app thn_app ret_app modify_app same_env_def owned_bytes intro: exI [of _ k])
  qed
next
  case False
  with assms show ?thesis by (simp add: alloc_huge bnd_app thn_app ret_app)
qed

text \<open>A client that moves an object to a larger place.\<close>

lemma alloc_moved:
  assumes s: "owned s L" and p: "(p, k, u) \<in> L" and n: "n < 2 ^ 31" "u \<le> n"
  shows "\<exists>r t. bnd (alloc n) (\<lambda>r. if r = 0 then ret 0 else bnd (get_block (p - 24)) (\<lambda>b.
       thn (modify (\<lambda>s. s\<lparr>bytes := copy_bytes r p (size_used b) (bytes s)\<rparr>)) (thn (release p) (ret r)))) s = Ret r t \<and>
    heap_start t = heap_start s \<and>
    (r = 0 \<and> bytes t = bytes s \<and> owned t L \<or>
     (\<exists>k' u'. r \<noteq> 0 \<and> n \<le> u' \<and> owned t (insert (r, k', u') (L - {(p, k, u)})) \<and> apart (r, k', u') L \<and>
       bytes t = copy_bytes r p u (bytes s)))"
proof -
  from alloc_law [OF s n(1)] obtain r t where r: "alloc n s = Ret r t" "same_env s t"
    and c: "r = 0 \<and> owned t L \<or> (\<exists>k u. r \<noteq> 0 \<and> (r, k, u) \<notin> L \<and> n + 4 \<le> u \<and> u \<le> k \<and> owned t (insert (r, k, u) L))"
    by blast
  from c show ?thesis
  proof (elim disjE conjE exE)
    assume "r = 0" "owned t L"
    with r show ?thesis by (auto simp: bnd_app ret_app same_env_def)
  next
    fix k' u' assume q: "r \<noteq> 0" "(r, k', u') \<notin> L" "n + 4 \<le> u'" "u' \<le> k'" "owned t (insert (r, k', u') L)"
    have pin: "(p, k, u) \<in> insert (r, k', u') L" "(p, k, u) \<noteq> (r, k', u')" using p q(2) by auto
    from owned_header [OF q(5) pin(1)] obtain b where b: "get_block (p - 24) t = Ret b t" "size_used b = u" by blast
    define t1 where "t1 = t\<lparr>bytes := copy_bytes r p u (bytes t)\<rparr>"
    have t1: "owned t1 (insert (r, k', u') L)" using q(5) by (simp add: t1_def owned_bytes)
    have "0 < k" using owned_used [OF s p] by simp
    with release_law [OF t1 pin(1), of p] obtain t2 where
      t2: "release p t1 = Ret () t2" "same_env t1 t2" "owned t2 (insert (r, k', u') L - {(p, k, u)})" by auto
    have "apart (r, k', u') L" using owned_apart [OF q(5), of "(r, k', u')"] q(2) by simp
    moreover have "insert (r, k', u') L - {(p, k, u)} = insert (r, k', u') (L - {(p, k, u)})" using pin(2) by auto
    ultimately show ?thesis using q r b t1 t2
      by (intro exI [of _ r] exI [of _ t2] conjI disjI2 exI [of _ k'] exI [of _ u'])
        (simp_all add: bnd_app thn_app ret_app modify_app same_env_def t1_def)
  qed
qed

end

interpretation heap: allocator heap_malloc heap_free owns
proof unfold_locales
  show "2 ^ 31 \<le> n \<Longrightarrow> heap_malloc n s = Ret 0 s" for n s
    by (simp add: heap_malloc_def ret_app)
qed (fact malloc_owns free_owns owns_used owns_apart owns_header owns_bytes)+

section \<open>realloc\<close>

lemma find_block_found:
  assumes "heap_rep s (ps @ qs @ x # zs)" and "c = after (heap_start s) (ps @ qs)" and "length qs < fuel"
  shows "find_block fuel (c + 24) (after (heap_start s) ps) s = Ret c s"
  using assms
proof (induction qs arbitrary: ps fuel)
  case Nil
  then obtain k where "fuel = Suc k" by (cases fuel) auto
  with Nil show ?case
    using heap_rep_block(1) [of s ps x zs c] sanity_check_rep [of s ps x zs c] BLOCK_bounds(1) [of s ps x zs c]
    by (simp add: prog_simps)
next
  case (Cons y qs)
  then obtain k where k: "fuel = Suc k" "length qs < k" by (cases fuel) auto
  let ?a = "after (heap_start s) ps"
  have H: "heap_rep s (ps @ y # (qs @ x # zs))" using Cons.prems(1) by simp
  have "bend ?a (fst y) \<le> c" using Cons.prems(2) after_ge by simp
  then have "?a + 24 \<noteq> c + 24" by (auto simp: bend_def)
  then have "find_block fuel (c + 24) ?a s = find_block k (c + 24) (after (heap_start s) (ps @ [y])) s"
    using heap_rep_block(1) [OF H refl] get_block_rep [OF H refl] sanity_check_rep [OF H refl]
      BLOCK_bounds [OF H refl] rep_walk [OF H] k(1)
    by (simp add: prog_simps)
  also have "\<dots> = Ret c s" using Cons.prems k(2) by (intro Cons.IH) simp_all
  finally show ?case .
qed

lemma realloc_inplace_rep:
  assumes H: "heap_rep s (ys @ x # y # zs)" and a: "a = after (heap_start s) ys"
    and b: "get_block (bend a (fst x)) s = Ret nb s" and n: "n \<le> fst x + fst y + 24"
  shows "\<exists>B. realloc_inplace a nb n s = Ret () (s\<lparr>blocks := B\<rparr>) \<and>
    heap_rep (s\<lparr>blocks := B\<rparr>) (ys @ (fst x + fst y + 24, n) # zs)"
proof -
  let ?e = "heap_end s" and ?p = "prev_of 0 (heap_start s) ys" and ?m = "fst x + fst y + 24"
  let ?c = "bend (bend a (fst x)) (fst y)"
  have H2: "heap_rep s ((ys @ [x]) @ y # zs)" using H by simp
  have a2: "bend a (fst x) = after (heap_start s) (ys @ [x])" using a by simp
  note A = heap_rep_block [OF H a] and B = heap_rep_block [OF H2 a2]
  have nb: "nb = header ?e a (bend a (fst x)) y" using get_block_rep [OF H2 a2] b a by simp
  have m: "u32 (fst x + fst y + 24) = ?m" using B(3,4) by (simp add: u32_id USER_LIMIT_def bend_def)
  have run: "thn (upd_block a (\<lambda>b. b\<lparr>bnext := nxt ?e ?c\<rparr>))
      (thn (upd_block a (\<lambda>b. b\<lparr>bsize := u32 (bsize b + fst y + SIZEOF_MBLOCK)\<rparr>))
      (thn (upd_block a (\<lambda>b. b\<lparr>size_used := n\<rparr>)) k)) s =
    k (s\<lparr>blocks := (blocks s)(a \<mapsto> header ?e ?p a (?m, n))\<rparr>)" for k :: "(uheap, unit) prog"
    using A(1,5) m by (simp add: thn_app upd_block_app header_def)
  have "realloc_inplace a nb n s = Ret () (s\<lparr>blocks := swallow (blocks s) ?e ?p a ?m n zs\<rparr>)"
    unfolding realloc_inplace_def nb header_simps run by (rule relink_next(2) [OF H a refl refl refl])
  then show ?thesis using swallow_rep [OF H a refl n refl] by blast
qed

text \<open>The three cases of \<^verbatim>\<open>realloc\<close> on a live object.\<close>

lemma heap_realloc_cases:
  assumes H: "heap_rep s (ys @ (k, u) # zs)" and p: "p = after (heap_start s) ys + 24" and n: "0 < n"
  shows "heap_realloc p n s =
    (if n \<le> k then thn (upd_block (p - 24) (\<lambda>b. b\<lparr>size_used := n\<rparr>)) (ret p) s
     else if zs \<noteq> [] \<and> snd (hd zs) = 0 \<and> n \<le> k + fst (hd zs) + 24
     then thn (realloc_inplace (p - 24) (header (heap_end s) (p - 24) (bend (p - 24) k) (hd zs)) n) (ret p) s
     else realloc_move (p - 24) p n s)"
proof -
  let ?a = "after (heap_start s) ys"
  have fuel: "length ys < Suc (heap_end s)" using heap_rep_length [OF H] by simp
  have f: "find_block (Suc (heap_end s)) p (heap_start s) s = Ret ?a s"
    using find_block_found [of s "[]" ys "(k, u)" zs ?a "Suc (heap_end s)"] H fuel p
    by (simp del: find_block.simps)
  note A = heap_rep_block(1) [OF H refl] get_block_rep [OF H refl]
  have p0: "p \<noteq> 0" using p by simp
  have run: "heap_realloc p n s =
     (if n \<le> k then thn (upd_block ?a (\<lambda>b. b\<lparr>size_used := n\<rparr>)) (ret p)
      else if nxt (heap_end s) (bend ?a k) = 0 then realloc_move ?a p n
      else bnd (get_block (nxt (heap_end s) (bend ?a k))) (\<lambda>nb.
        if size_used nb = 0 \<and> n \<le> u32 (k + bsize nb + SIZEOF_MBLOCK)
        then thn (realloc_inplace ?a nb n) (ret p) else realloc_move ?a p n)) s"
    using f A p0 n ensure_heap_rep [OF H]
    by (simp add: heap_realloc_def bnd_app thn_app gets_app del: find_block.simps)
  show ?thesis
  proof (cases zs)
    case Nil
    with run rep_walk [OF H] p show ?thesis by simp
  next
    case (Cons z zs')
    have H2: "heap_rep s ((ys @ [(k, u)]) @ z # zs')" using H Cons by simp
    have a2: "bend ?a k = after (heap_start s) (ys @ [(k, u)])" by simp
    note B = heap_rep_block [OF H2 a2]
    have "u32 (k + fst z + 24) = k + fst z + 24" using B(3,4) by (simp add: u32_id USER_LIMIT_def bend_def)
    moreover have "nxt (heap_end s) (bend ?a k) = bend ?a k" using B(3) by (rule nxt_inner)
    ultimately show ?thesis
      using run B(1) get_block_rep [OF H2 a2] p Cons by (simp add: bnd_app)
  qed
qed

lemma live_replace:
  assumes "L = live a (ys @ (k, u) # zs)" and "u \<noteq> 0" and "n \<noteq> 0" and "live (bend (after a ys) k') zs' = live (bend (after a ys) k) zs"
  shows "live a (ys @ (k', n) # zs') = insert (after a ys + 24, k', n) (L - {(after a ys + 24, k, u)})"
proof -
  have "(after a ys + 24, k, u) \<notin> live a ys" "(after a ys + 24, k, u) \<notin> live (bend (after a ys) k) zs"
    using live_bounds by (force simp: bend_def)+
  with assms show ?thesis by auto
qed

lemma realloc_owns:
  assumes s: "owns s L" and pL: "(p, k, u) \<in> L" and n: "0 < n" "n < 2 ^ 31"
  shows "\<exists>r t. heap_realloc p n s = Ret r t \<and> heap_start t = heap_start s \<and>
    (r = 0 \<and> bytes t = bytes s \<and> owns t L \<or>
     (\<exists>k' u'. r \<noteq> 0 \<and> n \<le> u' \<and> owns t (insert (r, k', u') (L - {(p, k, u)})) \<and>
       (r = p \<and> bytes t = bytes s \<or> k < n \<and> apart (r, k', u') L \<and> bytes t = copy_bytes r p u (bytes s))))"
proof -
  from s obtain xs where H: "heap_rep s xs" and L: "live (heap_start s) xs = L" by (auto simp: owns_def)
  have u: "u \<noteq> 0" "u \<le> k" using owns_used [OF s pL] by auto
  have sp: "(p, k, u) \<in> set (spans (heap_start s) xs)" using pL L by (auto simp: live_def)
  from spans_split [OF sp] obtain ys zs where xs: "xs = ys @ (k, u) # zs" and p: "p = after (heap_start s) ys + 24"
    by blast
  have H': "heap_rep s (ys @ (k, u) # zs)" and L': "L = live (heap_start s) (ys @ (k, u) # zs)"
    using H L xs by simp_all
  have a: "p - 24 = after (heap_start s) ys" "p \<noteq> 0" using p by simp_all
  note run = heap_realloc_cases [OF H' p n(1)]
  have place: "?thesis" if "heap_realloc p n s = Ret p (s\<lparr>blocks := B\<rparr>)"
      and "heap_rep (s\<lparr>blocks := B\<rparr>) (ys @ (k', n) # zs')"
      and "live (bend (after (heap_start s) ys) k') zs' = live (bend (after (heap_start s) ys) k) zs" for B k' zs'
  proof -
    have "owns (s\<lparr>blocks := B\<rparr>) (insert (p, k', n) (L - {(p, k, u)}))"
      unfolding owns_def using that(2) live_replace [OF L' u(1) _ that(3), of n] n(1) p by auto
    then show ?thesis using that(1) a(2) by (intro exI [of _ p] exI [of _ "s\<lparr>blocks := B\<rparr>"]) auto
  qed
  consider (easy) "n \<le> k" | (grow) z zs' where "k < n" "zs = z # zs'" "snd z = 0" "n \<le> k + fst z + 24"
    | (move) "k < n" "heap_realloc p n s = realloc_move (p - 24) p n s"
    using run by (cases "n \<le> k"; cases zs) (auto split: if_splits)
  then show ?thesis
  proof cases
    case easy
    with mark_used [OF H' a(1), of n] run obtain B where
      "heap_realloc p n s = Ret p (s\<lparr>blocks := B\<rparr>)" "heap_rep (s\<lparr>blocks := B\<rparr>) (ys @ (k, n) # zs)"
      by (auto simp: thn_app ret_app)
    then show ?thesis by (rule place) simp
  next
    case grow
    have H2: "heap_rep s ((ys @ [(k, u)]) @ z # zs')" using H' grow by simp
    have b: "get_block (bend (p - 24) (fst (k, u))) s = Ret (header (heap_end s) (p - 24) (bend (p - 24) k) z) s"
      using get_block_rep [OF H2] a by simp
    from H' grow have "heap_rep s (ys @ (k, u) # z # zs')" by simp
    from realloc_inplace_rep [OF this a(1) b] grow obtain B where
      "realloc_inplace (p - 24) (header (heap_end s) (p - 24) (bend (p - 24) k) z) n s = Ret () (s\<lparr>blocks := B\<rparr>)"
      "heap_rep (s\<lparr>blocks := B\<rparr>) (ys @ (k + fst z + 24, n) # zs')" by auto
    then show ?thesis using run grow by (intro place [of B "k + fst z + 24" zs']) (simp_all add: thn_app ret_app)
  next
    case move
    with heap.alloc_moved [OF s pL n(2)] u(2) show ?thesis
      unfolding realloc_move_def by fastforce
  qed
qed


end
