(* ===== verification/Heap_Properties.thy ===== *)
theory Heap_Properties
  imports Heap_Alloc
begin

text \<open>
  What the user heap promises to its callers: allocation, release, the round trip, \<^verbatim>\<open>realloc\<close>, \<^verbatim>\<open>calloc\<close>, the
  consistency check, and two cases in which it breaks its promise (a product that wraps around in \<^verbatim>\<open>calloc\<close>,
  a first \<^verbatim>\<open>brk\<close> that the kernel refuses).
\<close>

lemma owns_unique: "owns s L \<Longrightarrow> (p, k, u) \<in> L \<Longrightarrow> (p, k', u') \<in> L \<Longrightarrow> k' = k \<and> u' = u"
  using live_disjoint by (fastforce simp: owns_def)

section \<open>Coalescing\<close>

fun merged :: "(nat \<times> nat) list \<Rightarrow> bool" where
  "merged [] = True"
| "merged [x] = True"
| "merged (x # y # zs) = (\<not> (snd x = 0 \<and> snd y = 0) \<and> merged (y # zs))"

lemma hd_coalesce: "xs \<noteq> [] \<Longrightarrow> coalesce xs \<noteq> [] \<and> (snd (hd (coalesce xs)) = 0 \<longleftrightarrow> snd (hd xs) = 0)"
  by (induction xs rule: coalesce.induct) auto

lemma merged_Cons: "merged (x # xs) \<longleftrightarrow> xs = [] \<or> \<not> (snd x = 0 \<and> snd (hd xs) = 0) \<and> merged xs"
  by (cases xs) auto

lemma merged_coalesce: "merged (coalesce xs)"
proof (induction xs rule: coalesce.induct)
  case (3 x y zs)
  then show ?case using hd_coalesce [of "y # zs"] by (auto simp: merged_Cons)
qed simp_all

lemma coalesce_merged: "merged xs \<Longrightarrow> coalesce xs = xs"
  by (induction xs rule: merged.induct) auto

lemma merged_snoc: "merged (ys @ (n, 0) # zs) \<Longrightarrow> merged ys \<and> (ys = [] \<or> snd (last ys) \<noteq> 0)"
  by (induction ys rule: merged.induct) auto

lemma coalesce_append: "merged ys \<Longrightarrow> ys = [] \<or> snd (last ys) \<noteq> 0 \<Longrightarrow> r \<noteq> [] \<Longrightarrow> coalesce (ys @ r) = ys @ coalesce r"
proof (induction ys rule: merged.induct)
  case 2
  then show ?case by (cases r) auto
qed auto

lemma coalesce_split:
  assumes "merged (ys @ (n, 0) # zs)" and "len \<le> n"
  shows "coalesce (ys @ split_block len n 0 @ zs) = ys @ (n, 0) # zs"
proof -
  note y = merged_snoc [OF assms(1)]
  have "coalesce (split_block len n 0 @ zs) = coalesce ((n, 0) # zs)"
    using assms(2) by (auto simp: split_block_def)
  then have "coalesce (ys @ split_block len n 0 @ zs) = coalesce (ys @ (n, 0) # zs)"
    using y by (simp add: coalesce_append)
  with coalesce_merged [OF assms(1)] show ?thesis by simp
qed

section \<open>The first heap\<close>

lemma brk_unlocked_init:
  assumes "8 dvd cb" and "cb + 0x8000 \<le> USER_LIMIT" and "current_break s = cb"
  shows "brk_unlocked (u32 (cb + PRE_STARTUP_HEAPSIZE)) s =
    (if brk_ok s (brk_calls s) (page_up (cb + 0x8000))
     then Ret True (s\<lparr>brk_calls := Suc (brk_calls s), current_break := cb + 0x8000\<rparr>)
     else Ret False (s\<lparr>brk_calls := Suc (brk_calls s)\<rparr>))"
proof -
  have u: "u32 (cb + PRE_STARTUP_HEAPSIZE) = cb + 0x8000"
    using assms(2) by (simp add: PRE_STARTUP_HEAPSIZE_def PAGE_BYTES_def u32_id USER_LIMIT_def)
  have e: "u32 (cb + 0x8000 + 7) div 8 * 8 = cb + 0x8000"
    using assms(1,2) by (auto simp: u32_id USER_LIMIT_def elim!: dvdE)
  have "page_up (cb + 0x8000) \<noteq> page_up cb"
    using page_up_bounds [of cb] page_up_bounds [of "cb + 0x8000"] assms(2) by (simp add: USER_LIMIT_def)
  then show ?thesis
    using assms(3) e by (simp add: brk_unlocked_def u prog_simps Let_def SysBrk_def)
qed

lemma init_heap_rep:
  assumes cb: "8 dvd cb" "0 < cb" "cb + 0x8000 \<le> USER_LIMIT" "current_break s = cb"
    and ok: "brk_ok s (brk_calls s) (page_up (cb + 0x8000))" "\<forall>k a. brk_ok s k a \<longrightarrow> a \<le> USER_LIMIT"
  shows "\<exists>t. init_heap s = Ret () t \<and> heap_rep t [(0x8000 - 24, 0)] \<and> heap_start t = cb \<and> bytes t = bytes s"
proof -
  let ?t = "s\<lparr>heap_start := cb, brk_calls := Suc (brk_calls s), current_break := cb + 0x8000, heap_end := cb + 0x8000,
    blocks := (blocks s)(cb \<mapsto> fresh_block (0x8000 - 24)), not_initialized := False\<rparr>"
  have "u32 ((cb + 0x8000) + 2 ^ 32 - cb + 2 ^ 32 - 24) = (cb + 0x8000) - cb - 24"
    using cb(3) by (intro u32_sub) (simp_all add: USER_LIMIT_def)
  then have "init_heap s = Ret () ?t"
    using brk_unlocked_init [of cb "s\<lparr>heap_start := cb\<rparr>"] cb ok(1)
    by (simp add: init_heap_def prog_simps put_block_def)
  moreover have "heap_rep ?t [(0x8000 - 24, 0)]"
    using cb ok(2) by (simp add: heap_rep_def header_def fresh_block_def nxt_def bend_def)
  ultimately show ?thesis by (intro exI [of _ ?t]) simp
qed

text \<open>A process before its first allocation, and the heap it gets.\<close>

definition uheap_start :: uheap where
  "uheap_start = \<lparr>blocks = Map.empty, bytes = (\<lambda>_. 0), heap_start = 0, heap_end = 0, not_initialized = True,
     current_break = 0x110000, brk_ok = (\<lambda>k a. a \<le> 0x1F0000), brk_calls = 0, maybort_stops = True\<rparr>"

definition uheap_ex :: uheap where
  "uheap_ex = uheap_start\<lparr>heap_start := 0x110000, brk_calls := 1, current_break := 0x118000, heap_end := 0x118000,
     blocks := [0x110000 \<mapsto> fresh_block (0x8000 - 24)], not_initialized := False\<rparr>"

lemma uheap_ex_rep: "heap_rep uheap_ex [(0x8000 - 24, 0)]"
  by (simp add: uheap_ex_def uheap_start_def heap_rep_def header_def fresh_block_def nxt_def bend_def USER_LIMIT_def)

lemma uheap_ex_owns: "owns uheap_ex {}"
  unfolding owns_def using uheap_ex_rep by (intro exI [of _ "[(0x8000 - 24, 0)]"]) simp

text \<open>The same heap with one object of 104 bytes.\<close>

definition uheap_obj :: uheap where
  "uheap_obj = uheap_ex\<lparr>blocks := [0x110000 \<mapsto> header 0x118000 0 0x110000 (104, 104),
     0x110080 \<mapsto> header 0x118000 0x110000 0x110080 (32616, 0)]\<rparr>"

lemma uheap_obj_rep: "heap_rep uheap_obj [(104, 104), (32616, 0)]"
  by (simp add: uheap_obj_def uheap_ex_def uheap_start_def heap_rep_def bend_def USER_LIMIT_def)

lemma uheap_obj_live: "live (heap_start uheap_obj) [(104, 104), (32616, 0)] = {(0x110018, 104, 104)}"
  by (simp add: uheap_obj_def uheap_ex_def)

lemma uheap_obj_owns: "owns uheap_obj {(0x110018, 104, 104)}"
  unfolding owns_def using uheap_obj_rep uheap_obj_live by blast

section \<open>Properties\<close>

text \<open>
  C33. On a well-formed heap \<^verbatim>\<open>malloc(n)\<close> always returns. Either it hands out a new object with room for at least
  \<open>n + 4\<close> bytes that lies inside the heap and apart (headers included) from every live object, which all stay as
  they are; or it returns \<open>NULL\<close>, and then no free block was large enough and the kernel refused to move the break.
\<close>

theorem malloc_allocates:
  assumes "heap_rep s xs" and "n < 2 ^ 31" and "len = WORDROUND (u32 (n + 4))" and "L = live (heap_start s) xs"
  shows "\<exists>p t. heap_malloc n s = Ret p t \<and> same_env s t \<and>
    (p = 0 \<and> heap_rep t xs \<and> (\<forall>x \<in> set xs. \<not> fits len x) \<and>
       \<not> brk_ok s (brk_calls s) (page_up (heap_end s + len + 24)) \<or>
     p \<noteq> 0 \<and> (\<exists>k u. n + 4 \<le> u \<and> u \<le> k \<and> owns t (insert (p, k, u) L) \<and> apart (p, k, u) L \<and>
       heap_start s + 24 \<le> p \<and> p + k \<le> heap_end t))"
proof -
  have o: "owns s L" using assms by (auto simp: owns_def)
  from malloc_owns [OF o assms(2)] obtain p t where r: "heap_malloc n s = Ret p t" "same_env s t"
    and c: "p = 0 \<or> (\<exists>k u. (p, k, u) \<notin> L \<and> n + 4 \<le> u \<and> u \<le> k \<and> owns t (insert (p, k, u) L))" by blast
  show ?thesis
  proof (cases "p = 0")
    case True
    show ?thesis using malloc_step [OF assms(1-3)] r True by cases auto
  next
    case False
    with c obtain k u where k: "(p, k, u) \<notin> L" "n + 4 \<le> u" "u \<le> k" "owns t (insert (p, k, u) L)" by blast
    have "apart (p, k, u) L" using owns_apart [OF k(4), of "(p, k, u)"] k(1) by simp
    moreover have "heap_start s + 24 \<le> p" "p + k \<le> heap_end t"
      using owns_bounds [OF k(4), of p k u] r(2) by (auto simp: same_env_def)
    ultimately show ?thesis using r k False by blast
  qed
qed

theorem malloc_allocates_witness:
  "\<exists>p t k u. heap_malloc 100 uheap_ex = Ret p t \<and> p \<noteq> 0 \<and> 104 \<le> u \<and> u \<le> k \<and> owns t {(p, k, u)}"
proof -
  have w: "WORDROUND (u32 (100 + 4)) = 104" by (simp add: WORDROUND_def u32_def)
  from malloc_allocates [OF uheap_ex_rep _ w [symmetric] refl] show ?thesis by (auto simp: fits_def)
qed

text \<open>
  C34. Freeing a pointer into a live object makes exactly that object free, leaves all other objects and all bytes alone,
  and no two neighbouring blocks of the resulting heap are both free.
\<close>

theorem free_releases:
  assumes "heap_rep s xs" and "L = live (heap_start s) xs" and "(q, k, u) \<in> L" and "q \<le> p" "p < q + k"
  shows "\<exists>t ys. heap_free p s = Ret () t \<and> same_env s t \<and> heap_rep t ys \<and> merged ys \<and>
    live (heap_start t) ys = L - {(q, k, u)}"
proof -
  from free_live [OF assms] obtain B ys where
    B: "heap_free p s = Ret () (s\<lparr>blocks := B\<rparr>)" "heap_rep (s\<lparr>blocks := B\<rparr>) (coalesce ys)"
       "live (heap_start s) ys = L - {(q, k, u)}" by blast
  then show ?thesis
    by (intro exI [of _ "s\<lparr>blocks := B\<rparr>"] exI [of _ "coalesce ys"]) (simp add: same_env_def merged_coalesce)
qed

theorem free_releases_witness:
  "\<exists>t ys. heap_free 0x110020 uheap_obj = Ret () t \<and> heap_rep t ys \<and> merged ys \<and> live (heap_start t) ys = {}"
  using free_releases [OF uheap_obj_rep uheap_obj_live [symmetric], of "0x110018" 104 104 "0x110020"] by auto

text \<open>
  Freeing a pointer that lies in no live object (a double free, a foreign pointer) changes nothing: it stops the program
  in \<^verbatim>\<open>helper_maybort\<close> or returns.
\<close>

theorem free_rejects:
  assumes "heap_rep s xs" and "p \<noteq> 0" and "\<forall>(q, k, u) \<in> live (heap_start s) xs. \<not> (q \<le> p \<and> p < q + k)"
  shows "heap_free p s = (if maybort_stops s then Halted s else Ret () s)"
proof -
  have m: "helper_maybort s = (if maybort_stops s then Halted s else Ret () s)"
    by (simp add: helper_maybort_def prog_simps)
  show ?thesis
  proof (cases "\<exists>(q, n, u) \<in> set (spans (heap_start s) xs). q \<le> p \<and> p < q + n")
    case True
    then obtain q n u where q: "(q, n, u) \<in> set (spans (heap_start s) xs)" "q \<le> p" "p < q + n" by auto
    have u: "u = 0"
    proof (rule ccontr)
      assume "u \<noteq> 0"
      with q(1) have "(q, n, u) \<in> live (heap_start s) xs" by (simp add: live_def)
      with assms(3) q(2,3) show False by auto
    qed
    from spans_split [OF q(1)] obtain ys zs where xs: "xs = ys @ (n, u) # zs" and a: "q = after (heap_start s) ys + 24"
      by blast
    have "free_loop (Suc (heap_end s)) p (heap_start s) s = helper_maybort s"
      using free_loop_found [of s "[]" ys "(n, u)" zs "after (heap_start s) ys" p "Suc (heap_end s)"]
        assms(1) xs a q(2,3) u heap_rep_length [OF assms(1)]
      by (simp add: bend_def del: free_loop.simps)
    then show ?thesis
      using ensure_heap_rep [OF assms(1)] assms(2) m
      by (simp add: heap_free_def bnd_app thn_app gets_app del: free_loop.simps)
  next
    case False
    then have "\<forall>(q, n, u) \<in> set (spans (heap_start s) xs). \<not> (q \<le> p \<and> p < q + n)" by fastforce
    from heap_free_missing [OF assms(1,2) this] m show ?thesis by simp
  qed
qed

theorem free_rejects_witness:
  "heap_free 0x110090 uheap_obj = Halted uheap_obj"
  using free_rejects [OF uheap_obj_rep, of "0x110090"] unfolding uheap_obj_live
  by (simp add: uheap_obj_def uheap_ex_def uheap_start_def)

text \<open>
  C35. On a coalesced heap with a free block that is large enough, \<^verbatim>\<open>free(malloc(n))\<close> restores the block list.
\<close>

theorem malloc_free_roundtrip:
  assumes "heap_rep s xs" and "merged xs" and "n < 2 ^ 31" and "\<exists>x \<in> set xs. fits (WORDROUND (u32 (n + 4))) x"
  shows "\<exists>p t. p \<noteq> 0 \<and> bnd (heap_malloc n) (\<lambda>p. thn (heap_free p) (ret p)) s = Ret p t \<and> heap_rep t xs \<and> same_env s t"
proof -
  let ?len = "WORDROUND (u32 (n + 4))"
  from first_fit [OF assms(4)] obtain ys m zs where xs: "xs = ys @ (m, 0) # zs" and m: "?len \<le> m"
    and no: "\<forall>x \<in> set ys. \<not> fits ?len x" by blast
  let ?p = "after (heap_start s) ys + 24"
  from heap_malloc_fit [OF _ assms(3) refl m no] assms(1) xs obtain B where
    B: "heap_malloc n s = Ret ?p (s\<lparr>blocks := B\<rparr>)"
    and R: "heap_rep (s\<lparr>blocks := B\<rparr>) (ys @ split_block ?len m ?len @ zs)" by blast
  have pos: "0 < ?len" using malloc_size(1) [OF assms(3)] by simp
  obtain k rest where k: "split_block ?len m ?len = (k, ?len) # rest" "split_block ?len m 0 = (k, 0) # rest" "?len \<le> k"
    using m by (cases "m < ?len + 48") (auto simp: split_block_def)
  from heap_free_found [of "s\<lparr>blocks := B\<rparr>" ys k ?len "rest @ zs" ?p] R k pos obtain C where
    "heap_free ?p (s\<lparr>blocks := B\<rparr>) = Ret () (s\<lparr>blocks := C\<rparr>)"
    "heap_rep (s\<lparr>blocks := C\<rparr>) (coalesce (ys @ split_block ?len m 0 @ zs))" by (auto simp: bend_def)
  then show ?thesis
    using B coalesce_split [OF _ m] assms(2) xs
    by (intro exI [of _ ?p] exI [of _ "s\<lparr>blocks := C\<rparr>"]) (simp add: bnd_app thn_app ret_app same_env_def)
qed

theorem malloc_free_roundtrip_witness:
  "\<exists>p t. p \<noteq> 0 \<and> bnd (heap_malloc 100) (\<lambda>p. thn (heap_free p) (ret p)) uheap_ex = Ret p t \<and>
     heap_rep t [(0x8000 - 24, 0)]"
  using malloc_free_roundtrip [OF uheap_ex_rep, of 100] by (auto simp: fits_def WORDROUND_def u32_def)

text \<open>
  C36. \<^verbatim>\<open>realloc(p, n)\<close> of a live object returns an object of at least \<open>n\<close> bytes apart from all others with the old used
  bytes (up to \<open>n\<close>) at its start and no byte outside it changed, or returns \<open>NULL\<close> and leaves the old object in place.
\<close>

theorem realloc_keeps_contents:
  assumes "owns s L" and "(p, k, u) \<in> L" and "0 < n" "n < 2 ^ 31"
  shows "\<exists>r t. heap_realloc p n s = Ret r t \<and>
    (r = 0 \<and> bytes t = bytes s \<and> owns t L \<or>
     (\<exists>k' u'. r \<noteq> 0 \<and> n \<le> u' \<and> u' \<le> k' \<and> owns t (insert (r, k', u') (L - {(p, k, u)})) \<and>
       apart (r, k', u') (L - {(p, k, u)}) \<and>
       (\<forall>i < min u n. bytes t (r + i) = bytes s (p + i)) \<and>
       (\<forall>x. x < r \<or> r + k' \<le> x \<longrightarrow> bytes t x = bytes s x)))"
proof -
  from realloc_owns [OF assms] obtain r t where r: "heap_realloc p n s = Ret r t"
    and c: "r = 0 \<and> bytes t = bytes s \<and> owns t L \<or>
     (\<exists>k' u'. r \<noteq> 0 \<and> n \<le> u' \<and> owns t (insert (r, k', u') (L - {(p, k, u)})) \<and>
       (r = p \<and> bytes t = bytes s \<or> k < n \<and> apart (r, k', u') L \<and> bytes t = copy_bytes r p u (bytes s)))"
    by blast
  from c show ?thesis
  proof (elim disjE conjE exE)
    assume "r = 0" "bytes t = bytes s" "owns t L"
    with r show ?thesis by blast
  next
    fix k' u' assume k': "r \<noteq> 0" "n \<le> u'" "owns t (insert (r, k', u') (L - {(p, k, u)}))"
      and "r = p" "bytes t = bytes s"
    moreover have "(r, k', u') \<notin> L - {(p, k, u)}"
      using owns_unique [OF assms(1,2)] \<open>r = p\<close> by auto
    then have "apart (r, k', u') (L - {(p, k, u)})"
      using owns_apart [OF k'(3) insertI1] by (metis Diff_insert_absorb)
    ultimately show ?thesis using r owns_used [OF k'(3), of r k' u']
      by (intro exI [of _ r] exI [of _ t] conjI disjI2 exI [of _ k'] exI [of _ u']) simp_all
  next
    fix k' u' assume k': "r \<noteq> 0" "n \<le> u'" "owns t (insert (r, k', u') (L - {(p, k, u)}))"
      and "k < n" "apart (r, k', u') L" "bytes t = copy_bytes r p u (bytes s)"
    moreover have "u \<le> k" "u' \<le> k'" using owns_used [OF assms(1,2)] owns_used [OF k'(3), of r k' u'] by auto
    ultimately show ?thesis using r
      by (intro exI [of _ r] exI [of _ t] conjI disjI2 exI [of _ k'] exI [of _ u'])
        (auto simp: copy_bytes_def apart_def)
  qed
qed

theorem realloc_keeps_contents_witness:
  "\<exists>r t. heap_realloc 0x110018 300 uheap_obj = Ret r t \<and>
     (r = 0 \<or> bytes t (r + 5) = bytes uheap_obj 0x11001D)"
proof -
  from realloc_keeps_contents [OF uheap_obj_owns, of "0x110018" 104 104 300] obtain r t where
    "heap_realloc 0x110018 300 uheap_obj = Ret r t"
    "r = 0 \<or> (\<forall>i < min 104 300. bytes t (r + i) = bytes uheap_obj (0x110018 + i))" by auto
  moreover from this(2) have "r = 0 \<or> bytes t (r + 5) = bytes uheap_obj 0x11001D" by force
  ultimately show ?thesis by blast
qed

text \<open>
  When \<open>nmemb * size\<close> fits in 32 bits, \<^verbatim>\<open>calloc\<close> returns \<open>NULL\<close> or a new object whose first \<open>nmemb * size\<close> bytes are
  zero; no other byte changes.
\<close>

theorem calloc_zeroes:
  assumes "owns s L" and "nmemb * n < 2 ^ 32"
  shows "\<exists>p t. heap_calloc nmemb n s = Ret p t \<and>
    (p = 0 \<and> bytes t = bytes s \<and> owns t L \<or>
     (\<exists>k u. p \<noteq> 0 \<and> nmemb * n + 4 \<le> k \<and> owns t (insert (p, k, u) L) \<and> apart (p, k, u) L \<and>
       (\<forall>x. bytes t x = (if p \<le> x \<and> x < p + nmemb * n then 0 else bytes s x))))"
proof -
  have u: "u32 (nmemb * n) = nmemb * n" using assms(2) by (rule u32_id)
  from heap.alloc_zeroed [OF assms(1), of "nmemb * n"] obtain p t where r: "heap_calloc nmemb n s = Ret p t"
    and c: "p = 0 \<and> bytes t = bytes s \<and> owns t L \<or>
     (\<exists>k u. p \<noteq> 0 \<and> nmemb * n + 4 \<le> k \<and> (p, k, u) \<notin> L \<and> owns t (insert (p, k, u) L) \<and>
       bytes t = fill_bytes p (nmemb * n) 0 (bytes s))"
    unfolding heap_calloc_def u by blast
  have "apart (p, k, u) L" if "(p, k, u) \<notin> L" "owns t (insert (p, k, u) L)" for k u
    using owns_apart [OF that(2), of "(p, k, u)"] that(1) by simp
  with r c show ?thesis by (elim disjE exE conjE) (auto simp: fill_bytes_def)
qed

theorem calloc_zeroes_witness:
  "\<exists>p t. heap_calloc 3 5 uheap_ex = Ret p t \<and> (p = 0 \<or> bytes t p = 0)"
  using calloc_zeroes [OF uheap_ex_owns, of 3 5] by force

text \<open>
  \<^verbatim>\<open>calloc\<close> does not notice that \<open>nmemb * size\<close> wraps around: for a product of \<open>2 ^ 32\<close> it returns an object of a few
  bytes instead of \<open>NULL\<close>, and clears nothing.
\<close>

theorem calloc_overflows:
  assumes "heap_rep s xs" and "nmemb * n = 2 ^ 32" and "\<exists>x \<in> set xs. fits 4 x"
  shows "\<exists>p t k. heap_calloc nmemb n s = Ret p t \<and> p \<noteq> 0 \<and> k < 52 \<and>
    owns t (insert (p, k, 4) (live (heap_start s) xs)) \<and> bytes t = bytes s"
proof -
  have u0: "u32 (nmemb * n) = 0" using assms(2) by (simp add: u32_def)
  have w: "WORDROUND (u32 (0 + 4)) = 4" by (simp add: WORDROUND_def u32_def)
  from first_fit [OF assms(3)] obtain ys m zs where xs: "xs = ys @ (m, 0) # zs" and m: "4 \<le> m"
    and no: "\<forall>x \<in> set ys. \<not> fits 4 x" by blast
  from heap_malloc_fit [OF _ _ _ m no, of s zs 0] assms(1) xs w obtain B where
    B: "heap_malloc 0 s = Ret (after (heap_start s) ys + 24) (s\<lparr>blocks := B\<rparr>)"
       "heap_rep (s\<lparr>blocks := B\<rparr>) (ys @ split_block 4 m 4 @ zs)" by auto
  define k where "k = (if m < 52 then m else 4)"
  have "live (heap_start s) (ys @ split_block 4 m 4 @ zs) =
      insert (after (heap_start s) ys + 24, k, 4) (live (heap_start s) xs)"
    using m xs after_split_block [OF m, of "after (heap_start s) ys" 4]
    by (auto simp: k_def split_block_def simp del: after_split_block)
  then have "owns (s\<lparr>blocks := B\<rparr>) (insert (after (heap_start s) ys + 24, k, 4) (live (heap_start s) xs))"
    unfolding owns_def using B(2) by (intro exI [of _ "ys @ split_block 4 m 4 @ zs"]) simp
  moreover have "heap_calloc nmemb n s = Ret (after (heap_start s) ys + 24) (s\<lparr>blocks := B\<rparr>)"
  proof -
    have "fill_bytes q 0 0 f = f" for q and f :: "nat \<Rightarrow> 8 word" by (rule ext) (auto simp: fill_bytes_def)
    then show ?thesis using B(1) by (simp add: heap_calloc_def u0 bnd_app thn_app ret_app modify_app)
  qed
  ultimately show ?thesis using m
    by (intro exI [of _ "after (heap_start s) ys + 24"] exI [of _ "s\<lparr>blocks := B\<rparr>"] exI [of _ k]) (auto simp: k_def)
qed

theorem calloc_overflows_witness:
  "\<exists>p t k. heap_calloc 0x10000 0x10000 uheap_ex = Ret p t \<and> p \<noteq> 0 \<and> k < 52 \<and> owns t {(p, k, 4)}"
  using calloc_overflows [OF uheap_ex_rep, of "0x10000" "0x10000"] by (auto simp: fits_def)

text \<open>
  When the kernel refuses the first \<^verbatim>\<open>brk\<close>, \<^verbatim>\<open>init_heap\<close> still writes a block header at the break with a size that has
  wrapped around, and \<^verbatim>\<open>malloc\<close> hands out an address beyond the break instead of \<open>NULL\<close>.
\<close>

theorem malloc_beyond_break:
  assumes "not_initialized s" and "current_break s = cb" and "8 dvd cb" and "0 < cb" and "cb + 0x8000 \<le> USER_LIMIT"
    and "\<not> brk_ok s (brk_calls s) (page_up (cb + 0x8000))" and "n < 2 ^ 31"
  shows "\<exists>t. heap_malloc n s = Ret (cb + 24) t \<and> heap_end t = cb \<and> current_break t = cb"
proof -
  let ?len = "WORDROUND (u32 (n + 4))"
  let ?b = "fresh_block (2 ^ 32 - 24)"
  define t where "t = s\<lparr>heap_start := cb, brk_calls := Suc (brk_calls s), heap_end := cb,
    blocks := (blocks s)(cb \<mapsto> ?b), not_initialized := False\<rparr>"
  have sz: "u32 (cb + 2 ^ 32 - cb + 2 ^ 32 - 24) = 2 ^ 32 - 24" by (simp add: u32_def)
  have "brk_unlocked (u32 (cb + PRE_STARTUP_HEAPSIZE)) (s\<lparr>heap_start := cb\<rparr>) =
      Ret False (s\<lparr>heap_start := cb, brk_calls := Suc (brk_calls s)\<rparr>)"
    using brk_unlocked_init [of cb "s\<lparr>heap_start := cb\<rparr>"] assms by simp
  then have init: "ensure_heap s = Ret () t"
    using assms(1,2) sz by (simp add: ensure_heap_def init_heap_def prog_simps put_block_def t_def)
  have t: "blocks t cb = Some ?b" "heap_start t = cb" "heap_end t = cb" "current_break t = cb"
    using assms(2) by (simp_all add: t_def)
  have chk: "sanity_check cb t = Ret () t" using t assms(4) by (simp add: sanity_check_def prog_simps)
  have get: "get_block cb t = Ret ?b t" using t assms(4) by (simp add: get_block_def prog_simps)
  have len: "?len + 100 < 2 ^ 32" "?len < 2 ^ 31 + 8" "4 dvd ?len" using malloc_size [OF assms(7)] assms(7) by simp_all
  have fb: "size_used ?b = 0" "bsize ?b = 2 ^ 32 - 24" "bnext ?b = 0" by (simp_all add: fresh_block_def)
  have loop: "malloc_loop (Suc cb) ?len 0 cb t = Ret (cb, 0) t"
    using assms(4) chk get fb len(1) by (simp add: prog_simps)
  have W: "WORDROUND ?len = ?len" using WORDROUND_id [OF len(3,2)] .
  have a: "u32 (cb + 24) = cb + 24" using assms(5) by (simp add: u32_id USER_LIMIT_def)
  have M: "u32 (?len + MINBLOCK) = ?len + 48" using len(1) by (simp add: u32_id MINBLOCK_def)
  have S: "u32 (cb + SIZEOF_MBLOCK + ?len) = cb + 24 + ?len"
    using len(2) assms(5) by (simp add: u32_id USER_LIMIT_def)
  obtain B b where B: "split_free_block cb ?len t = Ret () (t\<lparr>blocks := B\<rparr>)" "B cb = Some b"
    using chk get fb W t(1) assms(4) M S len(1)
    by (simp add: split_free_block_def prog_simps put_block_def upd_block_app Let_def)
  then have "take_block cb ?len t = Ret (cb + 24) (t\<lparr>blocks := B(cb \<mapsto> b\<lparr>size_used := ?len\<rparr>)\<rparr>)"
    using assms(4) a by (simp add: take_block_def thn_app upd_block_app ret_app BLOCK_START_def)
  with init loop t assms(4,7) show ?thesis
    by (simp add: heap_malloc_def Let_def thn_app bnd_app gets_app del: malloc_loop.simps)
qed

theorem malloc_beyond_break_witness:
  "\<exists>t. heap_malloc 100 (uheap_start\<lparr>brk_ok := \<lambda>_ _. False\<rparr>) = Ret 0x110018 t \<and> current_break t = 0x110000"
  using malloc_beyond_break [of "uheap_start\<lparr>brk_ok := \<lambda>_ _. False\<rparr>" "0x110000" 100]
  by (auto simp: uheap_start_def USER_LIMIT_def)

definition accounted :: "heap_stats \<Rightarrow> nat" where
  "accounted c = 24 * st_blocks c + st_free c + st_used c + st_ifrag c"

lemma count_block_exact:
  assumes "snd x \<le> fst x" and "accounted c + 24 + fst x \<le> USER_LIMIT" and "st_dirty c \<le> st_blocks c"
    and "d = count_block (header e p a x) c"
  shows "accounted d = accounted c + 24 + fst x" "st_blocks d = st_blocks c + 1"
    "st_dirty d = st_dirty c + (if snd x = 0 then 0 else 1)" "st_used d = st_used c + snd x"
proof -
  have id: "u32 (st_blocks c + 1) = st_blocks c + 1" "u32 (st_dirty c + 1) = st_dirty c + 1"
    "u32 (st_used c + snd x) = st_used c + snd x" "u32 (st_free c + fst x) = st_free c + fst x"
    using assms(1-3) by (simp_all add: u32_id accounted_def USER_LIMIT_def)
  have "u32 (st_ifrag c + (fst x + 2 ^ 32 - snd x)) = st_ifrag c + (fst x - snd x)"
  proof -
    have "st_ifrag c + (fst x + 2 ^ 32 - snd x) = st_ifrag c + (fst x - snd x) + 2 ^ 32" using assms(1) by simp
    moreover have "st_ifrag c + (fst x - snd x) < 2 ^ 32" using assms(2) by (simp add: accounted_def USER_LIMIT_def)
    ultimately show ?thesis by (simp only: u32_def mod_add_self2 mod_less)
  qed
  note id = id this
  show "accounted d = accounted c + 24 + fst x" "st_blocks d = st_blocks c + 1"
    "st_dirty d = st_dirty c + (if snd x = 0 then 0 else 1)" "st_used d = st_used c + snd x"
    using assms(1) id by (simp_all add: assms(4) count_block_def Let_def accounted_def)
qed

lemma check_heap_loop_rep:
  assumes "heap_rep s (ps @ qs)" and "length qs < fuel"
    and "accounted c + heap_start s = after (heap_start s) ps" and "st_dirty c \<le> st_blocks c"
  shows "\<exists>d. check_heap_loop fuel c (if qs = [] then 0 else after (heap_start s) ps) s = Ret d s \<and>
    accounted d + heap_start s = heap_end s \<and> st_blocks d = st_blocks c + length qs \<and>
    st_dirty d = st_dirty c + length (filter (\<lambda>x. snd x \<noteq> 0) qs) \<and>
    st_used d = st_used c + sum_list (map snd qs)"
  using assms
proof (induction qs arbitrary: ps fuel c)
  case Nil
  then show ?case by (cases fuel) (auto simp: prog_simps heap_rep_def)
next
  case (Cons x qs)
  let ?a = "after (heap_start s) ps"
  from Cons.prems(2) obtain k where k: "fuel = Suc k" "length qs < k" by (cases fuel) auto
  have H: "heap_rep s (ps @ x # qs)" by (rule Cons.prems(1))
  note A = heap_rep_block [OF H refl]
  define d where "d = count_block (header (heap_end s) (prev_of 0 (heap_start s) ps) ?a x) c"
  have "accounted c + 24 + fst x \<le> USER_LIMIT" using A(3,4) Cons.prems(3) by (simp add: bend_def)
  note E = count_block_exact [OF A(6) this Cons.prems(4) d_def]
  have run: "check_heap_loop fuel c ?a s = check_heap_loop k d (if qs = [] then 0 else after (heap_start s) (ps @ [x])) s"
    using A(1) get_block_rep [OF H refl] sanity_check_rep [OF H refl] rep_walk [OF H] k(1)
    by (simp add: prog_simps d_def)
  have "accounted d + heap_start s = after (heap_start s) (ps @ [x])" "st_dirty d \<le> st_blocks d"
    using E Cons.prems(3,4) by (simp_all add: bend_def)
  with Cons.IH [of "ps @ [x]" k d] H k(2) run E show ?case by (auto split: if_splits)
qed

text \<open>
  C37. \<^verbatim>\<open>helper_check_heap\<close> finds a well-formed heap sound, counts its blocks and live objects, and its byte counts with the
  headers add up to the size of the heap.
\<close>

theorem check_heap_accounts:
  assumes "heap_rep s xs"
  shows "\<exists>c. helper_check_heap s = Ret c s \<and> st_blocks c = length xs \<and>
    st_dirty c = card (live (heap_start s) xs) \<and> st_used c = sum_list (map snd xs) \<and>
    24 * st_blocks c + st_free c + st_used c + st_ifrag c = heap_end s - heap_start s"
proof -
  have dirty: "card (live a ys) = length (filter (\<lambda>x. snd x \<noteq> 0) ys)" for a ys
  proof (induction ys arbitrary: a)
    case (Cons y ys)
    have "finite (live b zs)" for b zs
      by (rule finite_subset [of _ "set (spans b zs)"]) (auto simp: live_def)
    moreover have "(a + 24, fst y, snd y) \<notin> live (bend a (fst y)) ys"
      using live_bounds [of "a + 24" "fst y" "snd y" "bend a (fst y)" ys] by (auto simp: bend_def)
    ultimately show ?case using Cons by simp
  qed simp
  let ?z = "\<lparr>st_blocks = 0, st_dirty = 0, st_free = 0, st_used = 0, st_ifrag = 0\<rparr>"
  have ne: "xs \<noteq> []" using assms by (simp add: heap_rep_def)
  from check_heap_loop_rep [of s "[]" xs "Suc (heap_end s)" ?z] heap_rep_length [OF assms] assms obtain c where
    "check_heap_loop (Suc (heap_end s)) ?z (heap_start s) s = Ret c s" "accounted c + heap_start s = heap_end s"
    "st_blocks c = length xs" "st_dirty c = length (filter (\<lambda>x. snd x \<noteq> 0) xs)" "st_used c = sum_list (map snd xs)"
    using ne by (auto simp: accounted_def simp del: check_heap_loop.simps)
  then show ?thesis
    using ensure_heap_rep [OF assms] dirty
    by (intro exI [of _ c]) (simp add: helper_check_heap_def thn_app bnd_app gets_app accounted_def
      del: check_heap_loop.simps)
qed

theorem check_heap_accounts_witness:
  "\<exists>c. helper_check_heap uheap_obj = Ret c uheap_obj \<and> st_blocks c = 2 \<and> st_used c = 104"
  using check_heap_accounts [OF uheap_obj_rep] by auto

end
