(* ===== verification/Queue.thy ===== *)
theory Queue
  imports Prelude
begin

text \<open>
  \<^verbatim>\<open>src/queue.c\<close> at the level of its pointers: a queue is a head and a tail pointer, a node has a
  process pointer and links in both directions, and all nodes of all queues live in one heap. The
  value \<^verbatim>\<open>malloc\<close> returns to \<^verbatim>\<open>newNode\<close> is an argument (\<open>0\<close> when it fails); \<open>limit\<close> bounds the
  addresses ever handed out, so a walk of more than \<open>limit\<close> nodes has met a cycle and never ends.

  The theory ends with the abstract view: \<open>qrep h A\<close> says that the heap \<open>h\<close> represents the
  queues \<open>A\<close> (a map from queue addresses to lists of processes), and each operation is shown to
  implement its list operation on \<open>A\<close>, the other queues untouched.
\<close>

section \<open>Data\<close>

record QueueNode_t =
  node_process :: addr
  node_next :: addr
  node_prev :: addr

record queue_t =
  q_head :: addr
  q_tail :: addr

record qheap =
  nodes :: "addr \<Rightarrow> QueueNode_t option"
  queues :: "addr \<Rightarrow> queue_t option"
  limit :: nat

section \<open>Field accesses\<close>

definition get_node :: "addr \<Rightarrow> (qheap, QueueNode_t) prog" where
  "get_node a = deref nodes a"

definition set_node :: "addr \<Rightarrow> (QueueNode_t \<Rightarrow> QueueNode_t) \<Rightarrow> (qheap, unit) prog" where
  "set_node a f = bnd (get_node a) (\<lambda>nd. modify (\<lambda>h. h\<lparr>nodes := (nodes h)(a \<mapsto> f nd)\<rparr>))"

definition get_queue :: "addr \<Rightarrow> (qheap, queue_t) prog" where
  "get_queue q = deref queues q"

definition set_queue :: "addr \<Rightarrow> (queue_t \<Rightarrow> queue_t) \<Rightarrow> (qheap, unit) prog" where
  "set_queue q f = bnd (get_queue q) (\<lambda>qu. modify (\<lambda>h. h\<lparr>queues := (queues h)(q \<mapsto> f qu)\<rparr>))"

definition free_node :: "addr \<Rightarrow> (qheap, unit) prog" where
  "free_node a = modify (\<lambda>h. h\<lparr>nodes := (nodes h)(a := None)\<rparr>)"

section \<open>Operations\<close>

text \<open>\<open>m\<close> is what \<^verbatim>\<open>malloc\<close> returned.\<close>

definition newNode :: "addr \<Rightarrow> (qheap, addr) prog" where
  "newNode m = (if m = 0 then ret 0
     else thn (modify (\<lambda>h. h\<lparr>nodes := (nodes h)(m \<mapsto> \<lparr>node_process = 0, node_next = 0, node_prev = 0\<rparr>),
                             limit := max (limit h) (Suc m)\<rparr>))
       (ret m))"

definition queueCreate :: "addr \<Rightarrow> (qheap, addr) prog" where
  "queueCreate m = (if m = 0 then ret 0
     else thn (modify (\<lambda>h. h\<lparr>queues := (queues h)(m \<mapsto> \<lparr>q_head = 0, q_tail = 0\<rparr>),
                             limit := max (limit h) (Suc m)\<rparr>))
       (ret m))"

text \<open>The body of the \<^verbatim>\<open>if\<close> in the loop of \<^verbatim>\<open>queueRemove\<close>: unlink the node and free it.\<close>

definition unlink :: "addr \<Rightarrow> addr \<Rightarrow> (qheap, unit) prog" where
  "unlink q node = bnd (get_node node) (\<lambda>nd.
     thn (if node_prev nd = 0 then set_queue q (\<lambda>qu. qu\<lparr>q_head := node_next nd\<rparr>)
          else set_node (node_prev nd) (\<lambda>p. p\<lparr>node_next := node_next nd\<rparr>))
    (thn (if node_next nd = 0 then set_queue q (\<lambda>qu. qu\<lparr>q_tail := node_prev nd\<rparr>)
          else set_node (node_next nd) (\<lambda>n. n\<lparr>node_prev := node_prev nd\<rparr>))
         (free_node node)))"

fun queueRemove_loop :: "nat \<Rightarrow> addr \<Rightarrow> addr \<Rightarrow> addr \<Rightarrow> (qheap, unit) prog" where
  "queueRemove_loop 0 q process node = fail Diverges"
| "queueRemove_loop (Suc fuel) q process node =
     (if node = 0 then ret ()
      else bnd (get_node node) (\<lambda>nd.
        if node_process nd = process then unlink q node
        else queueRemove_loop fuel q process (node_next nd)))"

definition queueRemove :: "addr \<Rightarrow> addr \<Rightarrow> (qheap, unit) prog" where
  "queueRemove q process =
     (if q = 0 then halt
      else if process = 0 then halt
      else bnd (get_queue q) (\<lambda>qu. bnd (gets limit) (\<lambda>n.
        queueRemove_loop (Suc n) q process (q_head qu))))"

definition queueEnqueue :: "addr \<Rightarrow> addr \<Rightarrow> addr \<Rightarrow> (qheap, unit) prog" where
  "queueEnqueue m q process =
     (if q = 0 then halt
      else if process = 0 then halt
      else bnd (newNode m) (\<lambda>node.
        if node = 0 then ret ()
        else bnd (get_queue q) (\<lambda>qu.
          thn (set_node node (\<lambda>nd. nd\<lparr>node_process := process, node_next := 0, node_prev := q_tail qu\<rparr>))
         (thn (if q_head qu = 0 then set_queue q (\<lambda>x. x\<lparr>q_head := node\<rparr>)
               else set_node (q_tail qu) (\<lambda>nd. nd\<lparr>node_next := node\<rparr>))
              (set_queue q (\<lambda>x. x\<lparr>q_tail := node\<rparr>))))))"

definition queueDequeue :: "addr \<Rightarrow> (qheap, addr) prog" where
  "queueDequeue q =
     (if q = 0 then halt
      else bnd (get_queue q) (\<lambda>qu.
        if q_head qu = 0 then ret 0
        else bnd (get_node (q_head qu)) (\<lambda>nd.
          thn (set_queue q (\<lambda>x. x\<lparr>q_head := node_next nd\<rparr>))
         (thn (if node_next nd = 0 then set_queue q (\<lambda>x. x\<lparr>q_tail := 0\<rparr>)
               else set_node (node_next nd) (\<lambda>n. n\<lparr>node_prev := 0\<rparr>))
         (thn (free_node (q_head qu)) (ret (node_process nd)))))))"

text \<open>
  The iterator is generic in the state of its callback: \<open>g\<close> reads the queue heap from it. The
  successor is read before the callback runs.
\<close>

fun queueIterate_loop :: "nat \<Rightarrow> ('s \<Rightarrow> qheap) \<Rightarrow> (addr \<Rightarrow> ('s, unit) prog) \<Rightarrow> addr \<Rightarrow> ('s, unit) prog" where
  "queueIterate_loop 0 g itemfunc node = fail Diverges"
| "queueIterate_loop (Suc fuel) g itemfunc node =
     (if node = 0 then ret ()
      else bnd (deref (\<lambda>s. nodes (g s)) node) (\<lambda>nd.
        thn (itemfunc (node_process nd)) (queueIterate_loop fuel g itemfunc (node_next nd))))"

definition queueIterate :: "('s \<Rightarrow> qheap) \<Rightarrow> addr \<Rightarrow> (addr \<Rightarrow> ('s, unit) prog) \<Rightarrow> ('s, unit) prog" where
  "queueIterate g q itemfunc =
     (if q = 0 then ret ()
      else bnd (deref (\<lambda>s. queues (g s)) q) (\<lambda>qu. bnd (gets (\<lambda>s. limit (g s))) (\<lambda>n.
        queueIterate_loop (Suc n) g itemfunc (q_head qu))))"

fun queueDelete_loop :: "nat \<Rightarrow> addr \<Rightarrow> (qheap, unit) prog" where
  "queueDelete_loop 0 node = fail Diverges"
| "queueDelete_loop (Suc fuel) node =
     (if node = 0 then ret ()
      else bnd (get_node node) (\<lambda>nd. thn (free_node node) (queueDelete_loop fuel (node_next nd))))"

definition queueDelete :: "addr \<Rightarrow> (qheap, unit) prog" where
  "queueDelete q =
     (if q = 0 then halt
      else bnd (get_queue q) (\<lambda>qu. bnd (gets limit) (\<lambda>n.
        thn (queueDelete_loop (Suc n) (q_head qu))
            (modify (\<lambda>h. h\<lparr>queues := (queues h)(q := None)\<rparr>)))))"

fun is_in_queue_loop :: "nat \<Rightarrow> addr \<Rightarrow> addr \<Rightarrow> (qheap, bool) prog" where
  "is_in_queue_loop 0 process curr_node = fail Diverges"
| "is_in_queue_loop (Suc fuel) process curr_node =
     (if curr_node = 0 then ret False
      else bnd (get_node curr_node) (\<lambda>nd.
        if node_process nd = process then ret True
        else is_in_queue_loop fuel process (node_next nd)))"

definition is_in_queue :: "addr \<Rightarrow> addr \<Rightarrow> (qheap, bool) prog" where
  "is_in_queue q process =
     (if q = 0 then halt
      else if process = 0 then halt
      else bnd (get_queue q) (\<lambda>qu. bnd (gets limit) (\<lambda>n.
        is_in_queue_loop (Suc n) process (q_head qu))))"

definition is_empty :: "addr \<Rightarrow> (qheap, bool) prog" where
  "is_empty q = (if q = 0 then halt else bnd (get_queue q) (\<lambda>qu. ret (q_head qu = 0)))"

lemmas queue_ops = get_node_def set_node_def get_queue_def set_queue_def free_node_def

lemma queue_eqI: "q_head a = q_head b \<Longrightarrow> q_tail a = q_tail b \<Longrightarrow> a = (b :: queue_t)"
  by simp

lemma heap_eqI:
  "nodes a = nodes b \<Longrightarrow> queues a = queues b \<Longrightarrow> limit a = limit b \<Longrightarrow> a = (b :: qheap)"
  by simp

section \<open>Chains of nodes\<close>

text \<open>
  \<open>seg N pv x as y\<close>: following \<open>next\<close> from \<open>x\<close> visits exactly the nodes \<open>as\<close> and arrives at
  \<open>y\<close>, and every \<open>prev\<close> link points back (the first one to \<open>pv\<close>). A whole queue is a segment
  that ends at \<open>NULL\<close>.
\<close>

primrec seg :: "(addr \<Rightarrow> QueueNode_t option) \<Rightarrow> addr \<Rightarrow> addr \<Rightarrow> addr list \<Rightarrow> addr \<Rightarrow> bool" where
  "seg N pv x [] y \<longleftrightarrow> x = y"
| "seg N pv x (a # as) y \<longleftrightarrow> x = a \<and> a \<noteq> 0 \<and>
     (\<exists>nd. N a = Some nd \<and> node_prev nd = pv \<and> seg N a (node_next nd) as y)"

definition last_of :: "addr \<Rightarrow> addr list \<Rightarrow> addr" where
  "last_of pv as = (if as = [] then pv else last as)"

definition procs_of :: "(addr \<Rightarrow> QueueNode_t option) \<Rightarrow> addr list \<Rightarrow> addr list" where
  "procs_of N as = map (\<lambda>a. node_process (the (N a))) as"

lemma last_of_simps [simp]:
  "last_of pv [] = pv" "last_of pv (a # as) = last_of a as" "last_of pv (as @ [b]) = b"
  by (simp_all add: last_of_def)

lemma last_of_append [simp]: "last_of pv (as @ bs) = last_of (last_of pv as) bs"
  by (simp add: last_of_def)

lemma last_of_cases: "last_of pv as = pv \<or> last_of pv as \<in> set as"
  by (simp add: last_of_def)

lemma procs_of_simps [simp]:
  "procs_of N [] = []"
  "procs_of N (a # as) = node_process (the (N a)) # procs_of N as"
  "procs_of N (as @ bs) = procs_of N as @ procs_of N bs"
  by (simp_all add: procs_of_def)

lemma length_procs_of [simp]: "length (procs_of N as) = length as"
  by (simp add: procs_of_def)

lemma procs_of_empty [simp]: "procs_of N as = [] \<longleftrightarrow> as = []" "[] = procs_of N as \<longleftrightarrow> as = []"
  by (simp_all add: procs_of_def)

lemma seg_nonzero: "seg N pv x as y \<Longrightarrow> 0 \<notin> set as"
  by (induction as arbitrary: pv x) auto

lemma seg_dom: "seg N pv x as y \<Longrightarrow> a \<in> set as \<Longrightarrow> \<exists>nd. N a = Some nd"
  by (induction as arbitrary: pv x) auto

lemma seg_append:
  "seg N pv x (as @ bs) z \<longleftrightarrow> (\<exists>y. seg N pv x as y \<and> seg N (last_of pv as) y bs z)"
  by (induction as arbitrary: pv x) auto

lemma seg_zero [simp]: "seg N pv 0 as 0 \<longleftrightarrow> as = []"
  by (cases as) auto

lemma seg_cong:
  "(\<And>a. a \<in> set as \<Longrightarrow> N' a = N a) \<Longrightarrow> seg N' pv x as y = seg N pv x as y"
  by (induction as arbitrary: pv x) auto

lemma procs_of_cong:
  "(\<And>a. a \<in> set as \<Longrightarrow> N' a = N a) \<Longrightarrow> procs_of N' as = procs_of N as"
  by (simp add: procs_of_def)

lemma seg_upd [simp]: "a \<notin> set as \<Longrightarrow> seg (N(a := v)) pv x as y = seg N pv x as y"
  by (rule seg_cong) auto

lemma procs_of_upd [simp]: "a \<notin> set as \<Longrightarrow> procs_of (N(a := v)) as = procs_of N as"
  by (rule procs_of_cong) auto

text \<open>Redirecting the last \<open>next\<close> link, and the first \<open>prev\<close> link, of a segment.\<close>

lemma seg_relink_next:
  assumes "seg N pv x as y" and "as \<noteq> []" and "distinct as" and "N (last_of pv as) = Some nd"
  shows "seg (N(last_of pv as \<mapsto> nd\<lparr>node_next := z\<rparr>)) pv x as z"
proof -
  from assms(2) obtain bs b where as: "as = bs @ [b]" by (cases as rule: rev_cases) auto
  with assms show ?thesis by (auto simp: seg_append)
qed

lemma seg_relink_prev:
  assumes "seg N pv x as y" and "as \<noteq> []" and "distinct as" and "N x = Some nd"
  shows "seg (N(x \<mapsto> nd\<lparr>node_prev := pv'\<rparr>)) pv' x as y"
  using assms by (cases as) auto

lemma procs_of_relink:
  assumes "N b = Some nd" and "node_process nd' = node_process nd"
  shows "procs_of (N(b \<mapsto> nd')) as = procs_of N as"
  using assms by (auto simp: procs_of_def)

section \<open>Representation of the abstract queues\<close>

definition qok :: "(addr \<Rightarrow> QueueNode_t option) \<Rightarrow> nat \<Rightarrow> queue_t \<Rightarrow> addr list \<Rightarrow> addr list \<Rightarrow> bool" where
  "qok N L qu as xs \<longleftrightarrow> seg N 0 (q_head qu) as 0 \<and> q_tail qu = last_of 0 as \<and> distinct as \<and>
     set as \<subseteq> {..<L} \<and> xs = procs_of N as \<and> 0 \<notin> set xs"

type_synonym qstore = "addr \<Rightarrow> addr list option"

definition qrepR :: "qheap \<Rightarrow> qstore \<Rightarrow> (addr \<Rightarrow> addr list) \<Rightarrow> bool" where
  "qrepR h A R \<longleftrightarrow>
     (\<forall>q. queues h q = None \<longrightarrow> A q = None) \<and>
     (\<forall>q qu. queues h q = Some qu \<longrightarrow> q \<noteq> 0 \<and> q < limit h \<and>
        (\<exists>xs. A q = Some xs \<and> qok (nodes h) (limit h) qu (R q) xs)) \<and>
     (\<forall>q q'. q \<noteq> q' \<longrightarrow> queues h q \<noteq> None \<longrightarrow> queues h q' \<noteq> None \<longrightarrow> set (R q) \<inter> set (R q') = {}) \<and>
     (\<forall>a. limit h \<le> a \<longrightarrow> nodes h a = None)"

definition qrep :: "qheap \<Rightarrow> qstore \<Rightarrow> bool" where
  "qrep h A \<longleftrightarrow> (\<exists>R. qrepR h A R)"

lemma qok_length: "qok N L qu as xs \<Longrightarrow> length as \<le> L"
proof -
  assume ok: "qok N L qu as xs"
  then have "card (set as) = length as" and "set as \<subseteq> {..<L}"
    by (simp_all add: qok_def distinct_card)
  then show ?thesis using card_mono [of "{..<L}" "set as"] by simp
qed

lemma qok_cong:
  assumes "qok N L qu as xs" and "\<And>a. a \<in> set as \<Longrightarrow> N' a = N a" and "L \<le> L'"
  shows "qok N' L' qu as xs"
  using assms seg_cong [of as N' N] procs_of_cong [of as N' N] by (auto simp: qok_def)

lemma qrepR_queue:
  assumes "qrepR h A R" and "queues h q = Some qu"
  obtains xs where "q \<noteq> 0" "q < limit h" "A q = Some xs" "qok (nodes h) (limit h) qu (R q) xs"
  using assms unfolding qrepR_def by blast

lemma qrepR_bound:
  assumes "qrepR h A R" and "queues h q = Some qu" and "a \<in> set (R q)"
  shows "a < limit h"
proof -
  obtain xs where "qok (nodes h) (limit h) qu (R q) xs" using qrepR_queue [OF assms(1,2)] by blast
  with assms(3) show ?thesis by (auto simp: qok_def)
qed

lemma qrepR_lookup:
  assumes "qrepR h A R" and "A q = Some xs"
  obtains qu where "queues h q = Some qu" "q \<noteq> 0" "qok (nodes h) (limit h) qu (R q) xs"
proof (cases "queues h q")
  case None
  with assms show thesis by (simp add: qrepR_def)
next
  case (Some qu)
  with assms that show thesis by (auto elim: qrepR_queue)
qed

lemma qrepR_disjoint:
  assumes "qrepR h A R" and "a \<noteq> b" and "queues h a = Some qa" and "queues h b = Some qb"
  shows "set (R a) \<inter> set (R b) = {}"
  using assms unfolding qrepR_def by blast

text \<open>
  The frame rule: an operation that touches the nodes of one queue and a node outside every queue
  changes that queue only.
\<close>

lemma qrepR_update:
  assumes rep: "qrepR h A R" and q: "queues h q = Some qu"
    and frame: "\<And>a. a \<notin> set (R q) \<Longrightarrow> a \<notin> set as' \<Longrightarrow> N' a = nodes h a"
    and new: "\<And>a q' qu'. a \<in> set as' \<Longrightarrow> q' \<noteq> q \<Longrightarrow> queues h q' = Some qu' \<Longrightarrow> a \<notin> set (R q')"
    and ok: "qok N' L' qu' as' xs'" and L: "limit h \<le> L'" and fresh: "\<And>a. L' \<le> a \<Longrightarrow> N' a = None"
  shows "qrepR \<lparr>nodes = N', queues = (queues h)(q \<mapsto> qu'), limit = L'\<rparr> (A(q \<mapsto> xs')) (R(q := as'))"
proof -
  note disj = qrepR_disjoint [OF rep]
  have other: "qok N' L' qu1 (R q1) xs" if q1: "q1 \<noteq> q" and s: "queues h q1 = Some qu1"
    and ok1: "qok (nodes h) (limit h) qu1 (R q1) xs" for q1 qu1 xs
  proof (rule qok_cong [OF ok1 _ L])
    fix a assume a: "a \<in> set (R q1)"
    with disj [OF q1 s q] have "a \<notin> set (R q)" by auto
    moreover from new [of a q1] a q1 s have "a \<notin> set as'" by auto
    ultimately show "N' a = nodes h a" using frame by blast
  qed
  obtain ys where "q \<noteq> 0" "q < limit h" using qrepR_queue [OF rep q] by blast
  with L have qL: "q \<noteq> 0" "q < L'" by simp_all
  have each: "q1 \<noteq> 0 \<and> q1 < L' \<and> (\<exists>xs. A q1 = Some xs \<and> qok N' L' qu1 (R q1) xs)"
    if q1: "q1 \<noteq> q" "queues h q1 = Some qu1" for q1 qu1
  proof -
    obtain xs where xs: "q1 \<noteq> 0" "q1 < limit h" "A q1 = Some xs" "qok (nodes h) (limit h) qu1 (R q1) xs"
      using qrepR_queue [OF rep q1(2)] by blast
    from other [OF q1 xs(4)] xs L show ?thesis by simp
  qed
  have none: "A q1 = None" if "queues h q1 = None" for q1
    using rep that by (simp add: qrepR_def)
  let ?h = "\<lparr>nodes = N', queues = (queues h)(q \<mapsto> qu'), limit = L'\<rparr>"
  have "\<forall>q1. queues ?h q1 = None \<longrightarrow> (A(q \<mapsto> xs')) q1 = None"
    using none by simp
  moreover have "\<forall>q1 qu1. queues ?h q1 = Some qu1 \<longrightarrow> q1 \<noteq> 0 \<and> q1 < limit ?h \<and>
      (\<exists>xs. (A(q \<mapsto> xs')) q1 = Some xs \<and> qok (nodes ?h) (limit ?h) qu1 ((R(q := as')) q1) xs)"
    using each qL ok by simp
  moreover have "\<forall>a b. a \<noteq> b \<longrightarrow> queues ?h a \<noteq> None \<longrightarrow> queues ?h b \<noteq> None \<longrightarrow>
      set ((R(q := as')) a) \<inter> set ((R(q := as')) b) = {}"
  proof (intro allI impI)
    fix a b assume ab: "a \<noteq> b" "queues ?h a \<noteq> None" "queues ?h b \<noteq> None"
    show "set ((R(q := as')) a) \<inter> set ((R(q := as')) b) = {}"
      using ab disj [of a b] new by (cases "a = q"; cases "b = q") auto
  qed
  ultimately show ?thesis using fresh by (simp add: qrepR_def)
qed

section \<open>Each operation implements its list operation\<close>

lemma qok_enqueue:
  assumes ok: "qok N L qu as xs" and m: "m \<noteq> 0" "m \<notin> set as" and p: "p \<noteq> 0"
    and N1: "N1 = N(m \<mapsto> \<lparr>node_process = p, node_next = 0, node_prev = q_tail qu\<rparr>)"
    and N2: "N2 = (if q_head qu = 0 then N1
                   else N1(q_tail qu \<mapsto> (the (N (q_tail qu)))\<lparr>node_next := m\<rparr>))"
    and qu': "qu' = (if q_head qu = 0 then qu\<lparr>q_head := m, q_tail := m\<rparr> else qu\<lparr>q_tail := m\<rparr>)"
  shows "qok N2 (max L (Suc m)) qu' (as @ [m]) (xs @ [p])"
proof (cases "as = []")
  case True
  with assms show ?thesis by (auto simp: qok_def)
next
  case False
  let ?t = "last_of 0 as"
  have sg: "seg N 0 (q_head qu) as 0" and t: "q_tail qu = ?t" and d: "distinct as"
    using ok by (auto simp: qok_def)
  from False have tin: "?t \<in> set as" using last_of_cases [of 0 as] seg_nonzero [OF sg]
    by (auto simp: last_of_def)
  then obtain nd where nd: "N ?t = Some nd" using seg_dom [OF sg] by blast
  have hd: "q_head qu \<noteq> 0" using sg False by (cases as) auto
  have tm: "?t \<noteq> m" using tin m by auto
  have N2': "N2 = (N(?t \<mapsto> nd\<lparr>node_next := m\<rparr>))(m \<mapsto> \<lparr>node_process = p, node_next = 0, node_prev = ?t\<rparr>)"
    using hd nd t tm by (simp add: N1 N2 fun_upd_twist)
  have "seg N2 0 (q_head qu) as m"
    using seg_relink_next [OF sg False d nd, of m] m by (simp add: N2')
  moreover have "procs_of N2 as = procs_of N as"
    using m nd by (simp add: N2' procs_of_relink)
  ultimately show ?thesis using ok m p hd by (auto simp: qok_def qu' seg_append N2')
qed

lemma queueEnqueue_repR:
  assumes rep: "qrepR h A R" and A: "A q = Some xs" and m: "m \<noteq> 0" "limit h \<le> m" and p: "p \<noteq> 0"
  obtains h' where "queueEnqueue m q p h = Ret () h'"
    "qrepR h' (A(q \<mapsto> xs @ [p])) (R(q := R q @ [m]))" "limit h' = Suc m"
proof -
  obtain qu where q: "queues h q = Some qu" "q \<noteq> 0" and ok: "qok (nodes h) (limit h) qu (R q) xs"
    using qrepR_lookup [OF rep A] by blast
  have out: "a \<notin> set (R q1)" if "queues h q1 = Some qu1" "limit h \<le> a" for a q1 qu1
    using qrepR_bound [OF rep that(1)] that(2) by fastforce
  then have mR: "m \<notin> set (R q)" using q m by blast
  define N1 where "N1 = (nodes h)(m \<mapsto> \<lparr>node_process = p, node_next = 0, node_prev = q_tail qu\<rparr>)"
  define N2 where "N2 = (if q_head qu = 0 then N1
     else N1(q_tail qu \<mapsto> (the (nodes h (q_tail qu)))\<lparr>node_next := m\<rparr>))"
  define qu' where "qu' = (if q_head qu = 0 then qu\<lparr>q_head := m, q_tail := m\<rparr> else qu\<lparr>q_tail := m\<rparr>)"
  have ok': "qok N2 (max (limit h) (Suc m)) qu' (R q @ [m]) (xs @ [p])"
    by (rule qok_enqueue [OF ok m(1) mR p N1_def N2_def qu'_def])
  have tl: "\<exists>nd. nodes h (q_tail qu) = Some nd \<and> q_tail qu \<in> set (R q)" if "q_head qu \<noteq> 0"
  proof -
    have sg: "seg (nodes h) 0 (q_head qu) (R q) 0" and t: "q_tail qu = last_of 0 (R q)"
      using ok by (simp_all add: qok_def)
    from sg that have "R q \<noteq> []" by (cases "R q") auto
    then have "q_tail qu \<in> set (R q)" using t by (simp add: last_of_def)
    then show ?thesis using seg_dom [OF sg] by blast
  qed
  let ?h = "\<lparr>nodes = N2, queues = (queues h)(q \<mapsto> qu'), limit = Suc m\<rparr>"
  have lim: "max (limit h) (Suc m) = Suc m" using m by simp
  have eval: "queueEnqueue m q p h = Ret () ?h"
  proof (cases "q_head qu = 0")
    case True
    then show ?thesis using q m p lim
      by (auto simp: queueEnqueue_def newNode_def queue_ops prog_simps N1_def N2_def qu'_def intro!: heap_eqI)
  next
    case False
    from tl [OF False] obtain nd where nd: "nodes h (q_tail qu) = Some nd" "q_tail qu \<in> set (R q)" by blast
    moreover have "0 \<notin> set (R q)" using ok by (auto simp: qok_def dest: seg_nonzero)
    ultimately have "nodes h (q_tail qu) = Some nd" "q_tail qu \<noteq> m" "q_tail qu \<noteq> 0" using mR by metis+
    then show ?thesis using False q m p lim
      by (auto simp: queueEnqueue_def newNode_def queue_ops prog_simps N1_def N2_def qu'_def intro!: heap_eqI)
  qed
  have "qrepR ?h (A(q \<mapsto> xs @ [p])) (R(q := R q @ [m]))"
  proof (rule qrepR_update [OF rep q(1)])
    fix a assume "a \<notin> set (R q)" "a \<notin> set (R q @ [m])"
    then show "N2 a = nodes h a" using tl by (auto simp: N2_def N1_def)
  next
    fix a q' qu1 assume a: "a \<in> set (R q @ [m])" "q' \<noteq> q" "queues h q' = Some qu1"
    then show "a \<notin> set (R q')"
      using out [OF a(3)] m(2) qrepR_disjoint [OF rep a(2) a(3) q(1)] by auto
  next
    fix a assume "Suc m \<le> a"
    moreover have "nodes h a = None" if "limit h \<le> a" for a using rep that by (simp add: qrepR_def)
    ultimately show "N2 a = None"
      using m tl ok by (force simp: N2_def N1_def qok_def)
  qed (use ok' lim m in simp_all)
  with eval show thesis by (rule that) simp
qed

lemma qok_dequeue:
  assumes ok: "qok N L qu (a # as) xs"
    and N': "N' = (if as = [] then N else N(hd as \<mapsto> (the (N (hd as)))\<lparr>node_prev := 0\<rparr>))(a := None)"
    and qu': "qu' = (if as = [] then qu\<lparr>q_head := 0, q_tail := 0\<rparr> else qu\<lparr>q_head := hd as\<rparr>)"
  shows "qok N' L qu' as (tl xs)"
proof (cases as)
  case Nil
  with assms show ?thesis by (simp add: qok_def)
next
  case (Cons b bs)
  with ok obtain nb where nb: "N b = Some nb" and sg: "seg N b (node_next nb) bs 0"
    and d: "a \<noteq> b" "a \<notin> set bs" "b \<notin> set bs"
    by (auto simp: qok_def)
  show ?thesis using ok Cons nb sg d by (auto simp: qok_def N' qu' last_of_def)
qed

lemma queueDequeue_repR:
  assumes rep: "qrepR h A R" and A: "A q = Some (p # ys)"
  obtains h' where "queueDequeue q h = Ret p h'"
    "qrepR h' (A(q \<mapsto> ys)) (R(q := tl (R q)))" "limit h' = limit h"
proof -
  obtain qu where q: "queues h q = Some qu" "q \<noteq> 0" and ok: "qok (nodes h) (limit h) qu (R q) (p # ys)"
    using qrepR_lookup [OF rep A] by blast
  from ok obtain a as where as: "R q = a # as" by (cases "R q") (auto simp: qok_def)
  from ok as obtain nd where nd: "nodes h a = Some nd" "q_head qu = a" "a \<noteq> 0"
    "seg (nodes h) a (node_next nd) as 0" "node_process nd = p"
    by (auto simp: qok_def)
  define N' where "N' = (if as = [] then nodes h
     else (nodes h)(hd as \<mapsto> (the (nodes h (hd as)))\<lparr>node_prev := 0\<rparr>))(a := None)"
  define qu' where "qu' = (if as = [] then qu\<lparr>q_head := 0, q_tail := 0\<rparr> else qu\<lparr>q_head := hd as\<rparr>)"
  have ok': "qok N' (limit h) qu' as ys"
    using qok_dequeue [OF ok [unfolded as] N'_def qu'_def] by simp
  let ?h = "\<lparr>nodes = N', queues = (queues h)(q \<mapsto> qu'), limit = limit h\<rparr>"
  have "queueDequeue q h = Ret p ?h"
    using q nd by (cases as) (auto simp: queueDequeue_def queue_ops prog_simps N'_def qu'_def intro!: heap_eqI)
  moreover have "qrepR ?h (A(q \<mapsto> ys)) (R(q := tl (R q)))"
  proof (rule qrepR_update [OF rep q(1)])
    fix b assume "b \<notin> set (R q)" "b \<notin> set (tl (R q))"
    then show "N' b = nodes h b" using as by (cases as) (auto simp: N'_def)
  next
    fix b q' qu1 assume b: "b \<in> set (tl (R q))" "q' \<noteq> q" "queues h q' = Some qu1"
    then show "b \<notin> set (R q')" using qrepR_disjoint [OF rep b(2) b(3) q(1)] as by auto
  next
    fix b assume b: "limit h \<le> b"
    then have "nodes h b = None" using rep by (simp add: qrepR_def)
    then show "N' b = None" using ok as b by (cases as) (auto simp: N'_def qok_def)
  qed (use ok' as in simp_all)
  ultimately show thesis by (rule that) simp
qed

lemma queueDequeue_empty:
  assumes rep: "qrepR h A R" and A: "A q = Some []"
  shows "queueDequeue q h = Ret 0 h"
proof -
  obtain qu where q: "queues h q = Some qu" "q \<noteq> 0" and ok: "qok (nodes h) (limit h) qu (R q) []"
    using qrepR_lookup [OF rep A] by blast
  from ok have "q_head qu = 0" by (auto simp: qok_def)
  with q show ?thesis by (simp add: queueDequeue_def queue_ops prog_simps)
qed

text \<open>Removing a node from the middle of a chain.\<close>

lemma seg_unlink:
  assumes sg: "seg N pv x (bs @ a # cs) y" and nd: "N a = Some nd" and d: "distinct (bs @ a # cs)"
    and pv: "bs = [] \<Longrightarrow> pv \<noteq> a \<and> pv \<notin> set cs"
    and N1: "N1 = (if bs = [] then N else N(last_of pv bs \<mapsto> (the (N (last_of pv bs)))\<lparr>node_next := node_next nd\<rparr>))"
    and N2: "N2 = (if cs = [] then N1 else N1(hd cs \<mapsto> (the (N1 (hd cs)))\<lparr>node_prev := last_of pv bs\<rparr>))"
  shows "seg (N2(a := None)) pv (if bs = [] then node_next nd else x) (bs @ cs) y"
    and "procs_of (N2(a := None)) (bs @ cs) = procs_of N (bs @ cs)"
proof -
  let ?l = "last_of pv bs"
  from sg obtain z where bs: "seg N pv x bs z" and z: "z = a" and cs: "seg N a (node_next nd) cs y"
    and prev: "node_prev nd = ?l"
    using nd by (auto simp: seg_append)
  have l_cs: "?l \<notin> set cs" "?l \<noteq> a" if "bs \<noteq> []"
    using d last_in_set [OF that] that by (auto simp: last_of_def simp del: last_in_set)
  have hd_bs: "hd cs \<notin> set bs" "hd cs \<noteq> a" if "cs \<noteq> []" using that d by (cases cs; auto)+
  obtain nl where nl: "bs \<noteq> [] \<Longrightarrow> N ?l = Some nl"
    using seg_dom [OF bs] last_of_cases [of pv bs] by (metis last_of_def last_in_set)
  have sbs: "seg N1 pv (if bs = [] then node_next nd else x) bs (node_next nd)"
    using seg_relink_next [OF bs _ _ nl, of "node_next nd"] d nl by (auto simp: N1)
  have scs: "seg N1 a (node_next nd) cs y" using cs l_cs by (auto simp: N1)
  have "seg N2 ?l (node_next nd) cs y"
  proof (cases cs)
    case Nil
    then show ?thesis using scs by (simp add: N2)
  next
    case (Cons c cs')
    with scs obtain nc where "N1 c = Some nc" "node_next nd = c" by auto
    with seg_relink_prev [OF scs, of nc ?l] Cons d show ?thesis by (simp add: N2)
  qed
  moreover have "seg N2 pv (if bs = [] then node_next nd else x) bs (node_next nd)"
    using sbs hd_bs by (auto simp: N2)
  ultimately show "seg (N2(a := None)) pv (if bs = [] then node_next nd else x) (bs @ cs) y"
    using d by (auto simp: seg_append)
  have "procs_of N1 (bs @ cs) = procs_of N (bs @ cs)"
    using nl by (auto simp: N1 procs_of_relink simp del: procs_of_simps)
  moreover have "procs_of N2 (bs @ cs) = procs_of N1 (bs @ cs)"
  proof (cases cs)
    case (Cons c cs')
    with scs obtain nc where "N1 c = Some nc" by auto
    with Cons show ?thesis by (simp add: N2 procs_of_relink del: procs_of_simps)
  qed (simp add: N2)
  ultimately show "procs_of (N2(a := None)) (bs @ cs) = procs_of N (bs @ cs)"
    using d by (metis Un_iff distinct.simps(2) distinct_append disjoint_insert(1) list.simps(15) procs_of_upd set_append)
qed

lemma queueRemove_loop_found:
  "\<lbrakk>seg (nodes h) pv x (bs @ a # cs) 0; p \<notin> set (procs_of (nodes h) bs);
    node_process (the (nodes h a)) = p; length bs < fuel\<rbrakk> \<Longrightarrow>
   queueRemove_loop fuel q p x h = unlink q a h"
proof (induction bs arbitrary: fuel pv x)
  case Nil
  then show ?case by (cases fuel) (auto simp: queue_ops prog_simps)
next
  case (Cons b bs)
  then obtain nb where nb: "nodes h b = Some nb" "x = b" "b \<noteq> 0" "seg (nodes h) b (node_next nb) (bs @ a # cs) 0"
    by auto
  from Cons.prems(4) obtain fuel' where fuel: "fuel = Suc fuel'" "length bs < fuel'" by (cases fuel) auto
  from Cons.IH [OF nb(4) _ Cons.prems(3) fuel(2)] Cons.prems(2) nb fuel show ?case
    by (simp add: queue_ops prog_simps)
qed

lemma queueRemove_loop_absent:
  "\<lbrakk>seg (nodes h) pv x as 0; p \<notin> set (procs_of (nodes h) as); length as < fuel\<rbrakk> \<Longrightarrow>
   queueRemove_loop fuel q p x h = Ret () h"
proof (induction as arbitrary: fuel pv x)
  case Nil
  then show ?case by (cases fuel) (auto simp: prog_simps)
next
  case (Cons b bs)
  then obtain nb where nb: "nodes h b = Some nb" "x = b" "b \<noteq> 0" "seg (nodes h) b (node_next nb) bs 0"
    by auto
  from Cons.prems(3) obtain fuel' where fuel: "fuel = Suc fuel'" "length bs < fuel'" by (cases fuel) auto
  from Cons.IH [OF nb(4) _ fuel(2)] Cons.prems(2) nb fuel show ?case
    by (simp add: queue_ops prog_simps)
qed

lemma queueRemove_absent:
  assumes rep: "qrepR h A R" and A: "A q = Some xs" and p: "p \<noteq> 0" "p \<notin> set xs"
  shows "queueRemove q p h = Ret () h"
proof -
  obtain qu where q: "queues h q = Some qu" "q \<noteq> 0" and ok: "qok (nodes h) (limit h) qu (R q) xs"
    using qrepR_lookup [OF rep A] by blast
  from ok p(2) have "seg (nodes h) 0 (q_head qu) (R q) 0" "p \<notin> set (procs_of (nodes h) (R q))"
    by (simp_all add: qok_def)
  from queueRemove_loop_absent [OF this, of "Suc (limit h)" q] qok_length [OF ok] q p
  show ?thesis by (simp add: queueRemove_def queue_ops prog_simps)
qed

lemma queueRemove_repR:
  assumes rep: "qrepR h A R" and A: "A q = Some xs" and p: "p \<noteq> 0"
    and R: "R q = bs @ a # cs" and pa: "node_process (the (nodes h a)) = p"
    and pbs: "p \<notin> set (procs_of (nodes h) bs)"
  obtains h' where "queueRemove q p h = Ret () h'"
    "qrepR h' (A(q \<mapsto> remove1 p xs)) (R(q := bs @ cs))" "limit h' = limit h"
proof -
  obtain qu where q: "queues h q = Some qu" "q \<noteq> 0" and ok: "qok (nodes h) (limit h) qu (R q) xs"
    using qrepR_lookup [OF rep A] by blast
  have sg: "seg (nodes h) 0 (q_head qu) (bs @ a # cs) 0" and d: "distinct (bs @ a # cs)"
    and tl: "q_tail qu = last_of 0 (bs @ a # cs)" and xs: "xs = procs_of (nodes h) (bs @ a # cs)"
    using ok R by (simp_all add: qok_def)
  obtain nd where nd: "nodes h a = Some nd" using seg_dom [OF sg, of a] by auto
  have nz: "0 \<notin> set (bs @ a # cs)" using seg_nonzero [OF sg] .
  from sg nd have prev: "node_prev nd = last_of 0 bs" and cs: "seg (nodes h) a (node_next nd) cs 0"
    and bs: "seg (nodes h) 0 (q_head qu) bs a"
    by (auto simp: seg_append)
  define N1 where "N1 = (if bs = [] then nodes h
     else (nodes h)(last_of 0 bs \<mapsto> (the (nodes h (last_of 0 bs)))\<lparr>node_next := node_next nd\<rparr>))"
  define N2 where "N2 = (if cs = [] then N1 else N1(hd cs \<mapsto> (the (N1 (hd cs)))\<lparr>node_prev := last_of 0 bs\<rparr>))"
  define q1 where "q1 = (if bs = [] then qu\<lparr>q_head := node_next nd\<rparr> else qu)"
  define q2 where "q2 = (if cs = [] then q1\<lparr>q_tail := last_of 0 bs\<rparr> else q1)"
  note un = seg_unlink [OF sg nd d _ N1_def N2_def]
  have ok': "qok (N2(a := None)) (limit h) q2 (bs @ cs) (remove1 p xs)"
    using un nz ok R d pbs pa nd xs tl
    by (auto simp: qok_def q1_def q2_def remove1_append last_of_def)
  have lnext: "node_next nd = 0 \<longleftrightarrow> cs = []" "cs \<noteq> [] \<Longrightarrow> node_next nd = hd cs" using cs by (cases cs; auto)+
  have lprev: "last_of 0 bs = 0 \<longleftrightarrow> bs = []"
    using nz by (metis Un_iff last_in_set last_of_def set_append)
  obtain nl where nl: "bs \<noteq> [] \<Longrightarrow> nodes h (last_of 0 bs) = Some nl"
    using seg_dom [OF bs] by (metis last_of_def last_in_set)
  obtain nc where nc: "cs \<noteq> [] \<Longrightarrow> nodes h (hd cs) = Some nc"
    using seg_dom [OF cs] by (metis list.set_sel(1))
  have neq: "hd cs \<noteq> last_of 0 bs" if "cs \<noteq> []" "bs \<noteq> []"
  proof -
    from that have "last_of 0 bs \<in> set bs" "hd cs \<in> set cs" by (simp_all add: last_of_def)
    with d show ?thesis by (metis Int_iff distinct_append empty_iff list.set_intros(2))
  qed
  have eval: "unlink q a h = Ret () \<lparr>nodes = N2(a := None), queues = (queues h)(q \<mapsto> q2), limit = limit h\<rparr>"
    using nd prev lnext lprev q nl nc neq nz
    by (cases "bs = []"; cases "cs = []")
       (auto simp: unlink_def queue_ops prog_simps N1_def N2_def q1_def q2_def intro!: heap_eqI)
  have "queueRemove q p h = unlink q a h"
    using queueRemove_loop_found [OF sg pbs pa, of "Suc (limit h)" q] qok_length [OF ok] R q p
    by (simp add: queueRemove_def queue_ops prog_simps)
  with eval have 1: "queueRemove q p h = Ret () \<lparr>nodes = N2(a := None), queues = (queues h)(q \<mapsto> q2), limit = limit h\<rparr>"
    by simp
  have frame: "(N2(a := None)) b = nodes h b" if "b \<notin> set (R q)" for b
  proof -
    have "cs \<noteq> [] \<Longrightarrow> b \<noteq> hd cs" "bs \<noteq> [] \<Longrightarrow> b \<noteq> last_of 0 bs" "b \<noteq> a"
      using that R by (auto simp: last_of_def)
    then show ?thesis by (simp add: N1_def N2_def)
  qed
  have "qrepR \<lparr>nodes = N2(a := None), queues = (queues h)(q \<mapsto> q2), limit = limit h\<rparr>
    (A(q \<mapsto> remove1 p xs)) (R(q := bs @ cs))"
  proof (rule qrepR_update [OF rep q(1) _ _ ok'])
    fix b assume "b \<notin> set (R q)"
    then show "(N2(a := None)) b = nodes h b" by (rule frame)
  next
    fix b q' qu1 assume b: "b \<in> set (bs @ cs)" "q' \<noteq> q" "queues h q' = Some qu1"
    then show "b \<notin> set (R q')" using qrepR_disjoint [OF rep b(2) b(3) q(1)] R by auto
  next
    fix b assume b: "limit h \<le> b"
    then have "nodes h b = None" using rep by (simp add: qrepR_def)
    moreover have "b \<notin> set (R q)" using b qrepR_bound [OF rep q(1), of b] by auto
    ultimately show "(N2(a := None)) b = None" using frame by simp
  qed simp
  from that [OF 1 this] show thesis by simp
qed

lemma procs_of_split:
  assumes "p \<in> set (procs_of N as)"
  obtains bs a cs where "as = bs @ a # cs" "node_process (the (N a)) = p" "p \<notin> set (procs_of N bs)"
proof -
  from assms obtain bs a cs where "as = bs @ a # cs" "node_process (the (N a)) = p"
    "\<forall>b \<in> set bs. node_process (the (N b)) \<noteq> p"
    using split_list_first_prop [of as "\<lambda>a. node_process (the (N a)) = p"] by (auto simp: procs_of_def)
  then show thesis by (intro that) (auto simp: procs_of_def)
qed

lemma queueCreate_repR:
  assumes rep: "qrepR h A R" and m: "m \<noteq> 0" "limit h \<le> m"
  obtains h' where "queueCreate m h = Ret m h'" "qrepR h' (A(m \<mapsto> [])) (R(m := []))" "limit h' = Suc m"
proof -
  let ?h = "\<lparr>nodes = nodes h, queues = (queues h)(m \<mapsto> \<lparr>q_head = 0, q_tail = 0\<rparr>), limit = Suc m\<rparr>"
  have new: "queues h m = None"
  proof (rule ccontr)
    assume "queues h m \<noteq> None"
    then have "m < limit h" using rep unfolding qrepR_def by blast
    with m show False by simp
  qed
  have old: "q \<noteq> 0 \<and> q < Suc m \<and> (\<exists>xs. A q = Some xs \<and> qok (nodes h) (Suc m) qu (R q) xs)"
    if q: "queues h q = Some qu" for q qu
  proof -
    obtain xs where xs: "q \<noteq> 0" "q < limit h" "A q = Some xs" "qok (nodes h) (limit h) qu (R q) xs"
      using qrepR_queue [OF rep q] by blast
    with qok_cong [OF xs(4), of "nodes h" "Suc m"] m show ?thesis by simp
  qed
  have "queueCreate m h = Ret m ?h"
    using m by (simp add: queueCreate_def prog_simps)
  moreover have "qrepR ?h (A(m \<mapsto> [])) (R(m := []))"
    unfolding qrepR_def
  proof (intro conjI allI impI)
    fix q assume "queues ?h q = None"
    then show "(A(m \<mapsto> [])) q = None" using rep by (auto simp: qrepR_def split: if_splits)
  next
    fix q qu assume q: "queues ?h q = Some qu"
    show "q \<noteq> 0" using q old [of q qu] m by (cases "q = m") simp_all
    show "q < limit ?h" using q old [of q qu] by (cases "q = m") simp_all
    show "\<exists>xs. (A(m \<mapsto> [])) q = Some xs \<and> qok (nodes ?h) (limit ?h) qu ((R(m := [])) q) xs"
      using q old [of q qu] by (cases "q = m") (auto simp: qok_def)
  next
    fix q q' assume "q \<noteq> q'" "queues ?h q \<noteq> None" "queues ?h q' \<noteq> None"
    then show "set ((R(m := [])) q) \<inter> set ((R(m := [])) q') = {}"
      using qrepR_disjoint [OF rep, of q q'] by (cases "q = m"; cases "q' = m") auto
  next
    fix a assume "limit ?h \<le> a"
    then show "nodes ?h a = None" using rep m by (simp add: qrepR_def)
  qed
  ultimately show thesis by (rule that) simp
qed

lemma is_in_queue_loop_seg:
  "\<lbrakk>seg (nodes h) pv x as 0; length as < fuel\<rbrakk> \<Longrightarrow>
   is_in_queue_loop fuel p x h = Ret (p \<in> set (procs_of (nodes h) as)) h"
proof (induction as arbitrary: fuel pv x)
  case Nil
  then show ?case by (cases fuel) (auto simp: prog_simps)
next
  case (Cons b bs)
  then obtain nb where nb: "nodes h b = Some nb" "x = b" "b \<noteq> 0" "seg (nodes h) b (node_next nb) bs 0"
    by auto
  from Cons.prems(2) obtain fuel' where fuel: "fuel = Suc fuel'" "length bs < fuel'" by (cases fuel) auto
  from Cons.IH [OF nb(4) fuel(2)] nb fuel show ?case
    by (auto simp: queue_ops prog_simps)
qed

lemma is_in_queue_repR:
  assumes rep: "qrepR h A R" and A: "A q = Some xs" and p: "p \<noteq> 0"
  shows "is_in_queue q p h = Ret (p \<in> set xs) h"
proof -
  obtain qu where q: "queues h q = Some qu" "q \<noteq> 0" and ok: "qok (nodes h) (limit h) qu (R q) xs"
    using qrepR_lookup [OF rep A] by blast
  then have "seg (nodes h) 0 (q_head qu) (R q) 0" "xs = procs_of (nodes h) (R q)" by (simp_all add: qok_def)
  with is_in_queue_loop_seg [OF this(1), of "Suc (limit h)" p] qok_length [OF ok] q p show ?thesis
    by (simp add: is_in_queue_def queue_ops prog_simps)
qed

lemma is_empty_repR:
  assumes rep: "qrepR h A R" and A: "A q = Some xs"
  shows "is_empty q h = Ret (xs = []) h"
proof -
  obtain qu where q: "queues h q = Some qu" "q \<noteq> 0" and ok: "qok (nodes h) (limit h) qu (R q) xs"
    using qrepR_lookup [OF rep A] by blast
  then have "q_head qu = 0 \<longleftrightarrow> xs = []" by (cases "R q") (auto simp: qok_def)
  with q show ?thesis by (simp add: is_empty_def queue_ops prog_simps)
qed

text \<open>\<^verbatim>\<open>queueDelete\<close> frees exactly the nodes of its queue.\<close>

lemma queueDelete_loop_seg:
  "\<lbrakk>seg (nodes h) pv x as 0; distinct as; length as < fuel\<rbrakk> \<Longrightarrow>
   queueDelete_loop fuel x h = Ret () (h\<lparr>nodes := (\<lambda>a. if a \<in> set as then None else nodes h a)\<rparr>)"
proof (induction as arbitrary: fuel pv x h)
  case Nil
  then show ?case by (cases fuel) (auto simp: prog_simps)
next
  case (Cons b bs)
  then obtain nb where nb: "nodes h b = Some nb" "x = b" "b \<noteq> 0" "seg (nodes h) b (node_next nb) bs 0"
    by auto
  from Cons.prems(3) obtain fuel' where fuel: "fuel = Suc fuel'" "length bs < fuel'" by (cases fuel) auto
  let ?h = "h\<lparr>nodes := (nodes h)(b := None)\<rparr>"
  have "seg (nodes ?h) b (node_next nb) bs 0" using nb Cons.prems(2) by simp
  from Cons.IH [OF this _ fuel(2)] nb fuel Cons.prems(2) show ?case
    by (auto simp: queue_ops prog_simps intro!: heap_eqI)
qed

lemma queueDelete_repR:
  assumes rep: "qrepR h A R" and A: "A q = Some xs"
  obtains h' where "queueDelete q h = Ret () h'" "qrepR h' (A(q := None)) R" "limit h' = limit h"
proof -
  obtain qu where q: "queues h q = Some qu" "q \<noteq> 0" and ok: "qok (nodes h) (limit h) qu (R q) xs"
    using qrepR_lookup [OF rep A] by blast
  define N where "N = (\<lambda>a. if a \<in> set (R q) then None else nodes h a)"
  let ?h = "\<lparr>nodes = N, queues = (queues h)(q := None), limit = limit h\<rparr>"
  from ok have sg: "seg (nodes h) 0 (q_head qu) (R q) 0" "distinct (R q)" by (simp_all add: qok_def)
  have "queueDelete q h = Ret () ?h"
    using queueDelete_loop_seg [OF sg, of "Suc (limit h)"] qok_length [OF ok] q
    by (simp add: queueDelete_def queue_ops prog_simps N_def)
  moreover have "qrepR ?h (A(q := None)) R"
    unfolding qrepR_def
  proof (intro conjI allI impI)
    fix q1 assume "queues ?h q1 = None"
    then show "(A(q := None)) q1 = None" using rep by (auto simp: qrepR_def split: if_splits)
  next
    fix q1 qu1 assume q1: "queues ?h q1 = Some qu1"
    then have ne: "q1 \<noteq> q" and s: "queues h q1 = Some qu1" by (auto split: if_splits)
    obtain ys where ys: "q1 \<noteq> 0" "q1 < limit h" "A q1 = Some ys" "qok (nodes h) (limit h) qu1 (R q1) ys"
      using qrepR_queue [OF rep s] by blast
    show "q1 \<noteq> 0" "q1 < limit ?h" using ys by simp_all
    have "qok N (limit h) qu1 (R q1) ys"
      using qrepR_disjoint [OF rep ne s q(1)] by (intro qok_cong [OF ys(4)]) (auto simp: N_def)
    with ys ne show "\<exists>xs. (A(q := None)) q1 = Some xs \<and> qok (nodes ?h) (limit ?h) qu1 (R q1) xs"
      by simp
  next
    fix q1 q2 assume "q1 \<noteq> q2" "queues ?h q1 \<noteq> None" "queues ?h q2 \<noteq> None"
    then show "set (R q1) \<inter> set (R q2) = {}"
      using qrepR_disjoint [OF rep, of q1 q2] by (auto split: if_splits)
  next
    fix a assume "limit ?h \<le> a"
    then show "nodes ?h a = None" using rep by (simp add: qrepR_def N_def)
  qed
  ultimately show thesis by (rule that) simp
qed

section \<open>The interface of the queues\<close>

text \<open>
  What the rest of the kernel relies on. \<open>rep\<close> relates a concrete store of queues to the abstract
  one, \<open>bound\<close> is the address from which \<^verbatim>\<open>malloc\<close> hands out fresh nodes; each operation is given
  by its effect on the abstract lists.
\<close>

locale queue_store =
  fixes rep :: "'h \<Rightarrow> qstore \<Rightarrow> bool"
    and bound :: "'h \<Rightarrow> nat"
    and create :: "addr \<Rightarrow> ('h, addr) prog"
    and enqueue :: "addr \<Rightarrow> addr \<Rightarrow> addr \<Rightarrow> ('h, unit) prog"
    and dequeue :: "addr \<Rightarrow> ('h, addr) prog"
    and remove :: "addr \<Rightarrow> addr \<Rightarrow> ('h, unit) prog"
    and member :: "addr \<Rightarrow> addr \<Rightarrow> ('h, bool) prog"
    and empty :: "addr \<Rightarrow> ('h, bool) prog"
    and delete :: "addr \<Rightarrow> ('h, unit) prog"
  assumes create_ok: "\<lbrakk>rep h A; m \<noteq> 0; bound h \<le> m\<rbrakk> \<Longrightarrow>
      \<exists>h'. create m h = Ret m h' \<and> rep h' (A(m \<mapsto> [])) \<and> bound h' = Suc m"
    and enqueue_ok: "\<lbrakk>rep h A; A q = Some xs; m \<noteq> 0; bound h \<le> m; p \<noteq> 0\<rbrakk> \<Longrightarrow>
      \<exists>h'. enqueue m q p h = Ret () h' \<and> rep h' (A(q \<mapsto> xs @ [p])) \<and> bound h' = Suc m"
    and dequeue_ok: "\<lbrakk>rep h A; A q = Some (p # xs)\<rbrakk> \<Longrightarrow>
      \<exists>h'. dequeue q h = Ret p h' \<and> rep h' (A(q \<mapsto> xs)) \<and> bound h' = bound h"
    and dequeue_none: "\<lbrakk>rep h A; A q = Some []\<rbrakk> \<Longrightarrow> dequeue q h = Ret 0 h"
    and remove_ok: "\<lbrakk>rep h A; A q = Some xs; p \<noteq> 0\<rbrakk> \<Longrightarrow>
      \<exists>h'. remove q p h = Ret () h' \<and> rep h' (A(q \<mapsto> remove1 p xs)) \<and> bound h' = bound h"
    and member_ok: "\<lbrakk>rep h A; A q = Some xs; p \<noteq> 0\<rbrakk> \<Longrightarrow> member q p h = Ret (p \<in> set xs) h"
    and empty_ok: "\<lbrakk>rep h A; A q = Some xs\<rbrakk> \<Longrightarrow> empty q h = Ret (xs = []) h"
    and delete_ok: "\<lbrakk>rep h A; A q = Some xs\<rbrakk> \<Longrightarrow>
      \<exists>h'. delete q h = Ret () h' \<and> rep h' (A(q := None)) \<and> bound h' = bound h"
    and rep_proc: "\<lbrakk>rep h A; A q = Some xs\<rbrakk> \<Longrightarrow> q \<noteq> 0 \<and> q < bound h \<and> 0 \<notin> set xs"
begin

text \<open>Enqueueing a list of processes, with the addresses \<^verbatim>\<open>malloc\<close> returned.\<close>

fun enqueue_all :: "addr \<Rightarrow> (addr \<times> addr) list \<Rightarrow> ('h, unit) prog" where
  "enqueue_all q [] = ret ()"
| "enqueue_all q ((m, p) # rest) = thn (enqueue m q p) (enqueue_all q rest)"

fun dequeue_n :: "nat \<Rightarrow> addr \<Rightarrow> ('h, addr list) prog" where
  "dequeue_n 0 q = ret []"
| "dequeue_n (Suc n) q = bnd (dequeue q) (\<lambda>p. bnd (dequeue_n n q) (\<lambda>ps. ret (p # ps)))"

lemma enqueue_all_ok:
  assumes "rep h A" and "A q = Some xs" and "sorted_wrt (<) (map fst mps)"
    and "\<And>m p. (m, p) \<in> set mps \<Longrightarrow> m \<noteq> 0 \<and> bound h \<le> m \<and> p \<noteq> 0"
  shows "\<exists>h'. enqueue_all q mps h = Ret () h' \<and> rep h' (A(q \<mapsto> xs @ map snd mps))"
  using assms
proof (induction mps arbitrary: h A xs)
  case Nil
  then show ?case by (auto simp: prog_simps fun_upd_idem)
next
  case (Cons mp mps)
  obtain m p where mp: "mp = (m, p)" by (cases mp) auto
  from Cons.prems(4) [of m p] mp have m: "m \<noteq> 0" "bound h \<le> m" "p \<noteq> 0" by auto
  from enqueue_ok [OF Cons.prems(1,2) this] obtain h1 where
    h1: "enqueue m q p h = Ret () h1" "rep h1 (A(q \<mapsto> xs @ [p]))" "bound h1 = Suc m" by blast
  have "\<exists>h'. enqueue_all q mps h1 = Ret () h' \<and>
      rep h' ((A(q \<mapsto> xs @ [p]))(q \<mapsto> (xs @ [p]) @ map snd mps))"
  proof (rule Cons.IH [OF h1(2)])
    show "sorted_wrt (<) (map fst mps)" using Cons.prems(3) by simp
    fix m' p' assume "(m', p') \<in> set mps"
    then show "m' \<noteq> 0 \<and> bound h1 \<le> m' \<and> p' \<noteq> 0"
      using Cons.prems(3,4) mp h1(3) by force
  qed simp
  moreover have "enqueue_all q (mp # mps) h = enqueue_all q mps h1"
    using h1(1) mp by (simp add: thn_app)
  moreover have "xs @ map snd (mp # mps) = (xs @ [p]) @ map snd mps" using mp by simp
  ultimately show ?case by (simp only: fun_upd_upd)
qed

lemma dequeue_n_ok:
  assumes "rep h A" and "A q = Some (xs @ ys)"
  shows "\<exists>h'. dequeue_n (length xs) q h = Ret xs h' \<and> rep h' (A(q \<mapsto> ys))"
  using assms
proof (induction xs arbitrary: h A)
  case Nil
  then show ?case by (auto simp: prog_simps fun_upd_idem)
next
  case (Cons x xs)
  from dequeue_ok [OF Cons.prems(1), of q x "xs @ ys"] Cons.prems(2) obtain h1 where
    h1: "dequeue q h = Ret x h1" "rep h1 (A(q \<mapsto> xs @ ys))" by auto
  have "\<exists>h'. dequeue_n (length xs) q h1 = Ret xs h' \<and> rep h' ((A(q \<mapsto> xs @ ys))(q \<mapsto> ys))"
    by (rule Cons.IH [OF h1(2)]) simp
  then obtain h2 where h2: "dequeue_n (length xs) q h1 = Ret xs h2" "rep h2 (A(q \<mapsto> ys))"
    by (auto simp only: fun_upd_upd)
  have "dequeue_n (length (x # xs)) q h = Ret (x # xs) h2"
    using h1(1) h2(1) by (simp add: bnd_app ret_app)
  with h2(2) show ?case by blast
qed

text \<open>First in, first out.\<close>

lemma fifo:
  assumes "rep h A" and "A q = Some []" and "sorted_wrt (<) (map fst mps)"
    and "\<And>m p. (m, p) \<in> set mps \<Longrightarrow> m \<noteq> 0 \<and> bound h \<le> m \<and> p \<noteq> 0"
  shows "\<exists>h'. thn (enqueue_all q mps) (dequeue_n (length mps) q) h = Ret (map snd mps) h' \<and>
    rep h' (A(q \<mapsto> []))"
proof -
  from enqueue_all_ok [OF assms] obtain h1 where
    h1: "enqueue_all q mps h = Ret () h1" "rep h1 (A(q \<mapsto> map snd mps))" by auto
  from dequeue_n_ok [OF h1(2), of q "map snd mps" "[]"] h1(1) show ?thesis
    by (auto simp: prog_simps)
qed

text \<open>A removed process is gone: at most one occurrence goes, all others stay in order.\<close>

lemma remove_then_member:
  assumes "rep h A" and "A q = Some xs" and "distinct xs" and "p \<noteq> 0"
  shows "\<exists>h'. bnd (remove q p) (\<lambda>_. member q p) h = Ret False h' \<and> rep h' (A(q \<mapsto> remove1 p xs))"
proof -
  from remove_ok [OF assms(1,2,4)] obtain h1 where
    h1: "remove q p h = Ret () h1" "rep h1 (A(q \<mapsto> remove1 p xs))" by blast
  from member_ok [OF h1(2) _ assms(4), of q] h1 assms(3) show ?thesis
    by (simp add: prog_simps)
qed

end

section \<open>The doubly linked queues provide the interface\<close>

lemma queueRemove_rep:
  assumes "qrep h A" and A: "A q = Some xs" and p: "p \<noteq> 0"
  shows "\<exists>h'. queueRemove q p h = Ret () h' \<and> qrep h' (A(q \<mapsto> remove1 p xs)) \<and> limit h' = limit h"
proof -
  from assms(1) obtain R where rep: "qrepR h A R" by (auto simp: qrep_def)
  show ?thesis
  proof (cases "p \<in> set xs")
    case True
    obtain qu where "qok (nodes h) (limit h) qu (R q) xs" using qrepR_lookup [OF rep A] by blast
    with True have "p \<in> set (procs_of (nodes h) (R q))" by (simp add: qok_def)
    then obtain bs a cs where "R q = bs @ a # cs" "node_process (the (nodes h a)) = p"
      "p \<notin> set (procs_of (nodes h) bs)"
      using procs_of_split by blast
    from queueRemove_repR [OF rep A p this] show ?thesis unfolding qrep_def by blast
  next
    case False
    then have "A(q \<mapsto> remove1 p xs) = A" using A by (simp add: remove1_idem fun_upd_idem)
    with queueRemove_absent [OF rep A p False] assms(1) show ?thesis by simp
  qed
qed

interpretation kq: queue_store qrep limit queueCreate queueEnqueue queueDequeue queueRemove
  is_in_queue is_empty queueDelete
proof unfold_locales
  fix h A q xs m p and ys :: "addr list"
  show "\<exists>h'. queueCreate m h = Ret m h' \<and> qrep h' (A(m \<mapsto> [])) \<and> limit h' = Suc m"
    if "qrep h A" "m \<noteq> 0" "limit h \<le> m"
    using that unfolding qrep_def by (blast elim: queueCreate_repR)
  show "\<exists>h'. queueEnqueue m q p h = Ret () h' \<and> qrep h' (A(q \<mapsto> xs @ [p])) \<and> limit h' = Suc m"
    if "qrep h A" "A q = Some xs" "m \<noteq> 0" "limit h \<le> m" "p \<noteq> 0"
    using that unfolding qrep_def by (blast elim: queueEnqueue_repR)
  show "\<exists>h'. queueDequeue q h = Ret p h' \<and> qrep h' (A(q \<mapsto> ys)) \<and> limit h' = limit h"
    if "qrep h A" "A q = Some (p # ys)"
    using that unfolding qrep_def by (blast elim: queueDequeue_repR)
  show "queueDequeue q h = Ret 0 h" if "qrep h A" "A q = Some []"
    using that unfolding qrep_def by (blast intro: queueDequeue_empty)
  show "\<exists>h'. queueRemove q p h = Ret () h' \<and> qrep h' (A(q \<mapsto> remove1 p xs)) \<and> limit h' = limit h"
    if "qrep h A" "A q = Some xs" "p \<noteq> 0"
    using that by (rule queueRemove_rep)
  show "is_in_queue q p h = Ret (p \<in> set xs) h" if "qrep h A" "A q = Some xs" "p \<noteq> 0"
    using that is_in_queue_repR unfolding qrep_def by blast
  show "is_empty q h = Ret (xs = []) h" if "qrep h A" "A q = Some xs"
    using that is_empty_repR unfolding qrep_def by blast
  show "\<exists>h'. queueDelete q h = Ret () h' \<and> qrep h' (A(q := None)) \<and> limit h' = limit h"
    if "qrep h A" "A q = Some xs"
    using that unfolding qrep_def by (blast elim: queueDelete_repR)
  show "q \<noteq> 0 \<and> q < limit h \<and> 0 \<notin> set xs" if r: "qrep h A" and a: "A q = Some xs"
  proof -
    from r obtain R where rep: "qrepR h A R" by (auto simp: qrep_def)
    obtain qu where q: "queues h q = Some qu" "qok (nodes h) (limit h) qu (R q) xs"
      using qrepR_lookup [OF rep a] by blast
    then show ?thesis using rep unfolding qrepR_def qok_def by blast
  qed
qed

section \<open>The abstract queues of a heap\<close>

text \<open>
  The abstract store is determined by the heap: \<open>qview h\<close> walks the \<open>next\<close> links of every queue.
  \<open>qwf h\<close> is the invariant of the component.
\<close>

primrec chain_procs :: "nat \<Rightarrow> (addr \<Rightarrow> QueueNode_t option) \<Rightarrow> addr \<Rightarrow> addr list" where
  "chain_procs 0 N x = []"
| "chain_procs (Suc k) N x =
     (if x = 0 then []
      else case N x of None \<Rightarrow> [] | Some nd \<Rightarrow> node_process nd # chain_procs k N (node_next nd))"

definition qview :: "qheap \<Rightarrow> qstore" where
  "qview h q = (case queues h q of None \<Rightarrow> None
                | Some qu \<Rightarrow> Some (chain_procs (limit h) (nodes h) (q_head qu)))"

definition qwf :: "qheap \<Rightarrow> bool" where
  "qwf h \<longleftrightarrow> qrep h (qview h)"

lemma chain_procs_seg:
  "seg N pv x as 0 \<Longrightarrow> length as \<le> k \<Longrightarrow> chain_procs k N x = procs_of N as"
proof (induction as arbitrary: pv x k)
  case Nil
  then show ?case by (cases k) auto
next
  case (Cons a as)
  then show ?case by (cases k) auto
qed

lemma qrep_view:
  assumes "qrep h A"
  shows "qview h = A"
proof
  fix q
  from assms obtain R where rep: "qrepR h A R" by (auto simp: qrep_def)
  show "qview h q = A q"
  proof (cases "queues h q")
    case None
    with rep show ?thesis by (simp add: qrepR_def qview_def)
  next
    case (Some qu)
    obtain xs where "A q = Some xs" "qok (nodes h) (limit h) qu (R q) xs"
      using qrepR_queue [OF rep Some] by blast
    moreover from this have "chain_procs (limit h) (nodes h) (q_head qu) = xs"
      using qok_length chain_procs_seg unfolding qok_def by blast
    ultimately show ?thesis using Some by (simp add: qview_def)
  qed
qed

lemma qrep_wf: "qrep h A \<Longrightarrow> qwf h"
  by (simp add: qwf_def qrep_view)

lemma qrep_iff: "qrep h A \<longleftrightarrow> qwf h \<and> qview h = A"
  using qrep_view qrep_wf by (auto simp: qwf_def)

lemma qview_None: "qwf h \<Longrightarrow> queues h q = None \<longleftrightarrow> qview h q = None"
  by (simp add: qview_def split: option.splits)

text \<open>The operations on the view of the heap; these are the facts the kernel's components use.\<close>

lemma create_view:
  assumes "qwf h" and "m \<noteq> 0" and "limit h \<le> m"
  obtains h' where "queueCreate m h = Ret m h'" "qwf h'" "qview h' = (qview h)(m \<mapsto> [])" "limit h' = Suc m"
  using kq.create_ok [of h "qview h" m] assms by (auto simp: qrep_iff)

lemma enqueue_view:
  assumes "qwf h" and "qview h q = Some xs" and "m \<noteq> 0" and "limit h \<le> m" and "p \<noteq> 0"
  obtains h' where "queueEnqueue m q p h = Ret () h'" "qwf h'" "qview h' = (qview h)(q \<mapsto> xs @ [p])"
    "limit h' = Suc m"
  using kq.enqueue_ok [of h "qview h" q xs m p] assms by (auto simp: qrep_iff)

lemma dequeue_view:
  assumes "qwf h" and "qview h q = Some (p # xs)"
  obtains h' where "queueDequeue q h = Ret p h'" "qwf h'" "qview h' = (qview h)(q \<mapsto> xs)"
    "limit h' = limit h"
  using kq.dequeue_ok [of h "qview h" q p xs] assms by (auto simp: qrep_iff)

lemma dequeue_view_empty: "qwf h \<Longrightarrow> qview h q = Some [] \<Longrightarrow> queueDequeue q h = Ret 0 h"
  using kq.dequeue_none [of h "qview h" q] by (simp add: qrep_iff)

lemma remove_view:
  assumes "qwf h" and "qview h q = Some xs" and "p \<noteq> 0"
  obtains h' where "queueRemove q p h = Ret () h'" "qwf h'" "qview h' = (qview h)(q \<mapsto> remove1 p xs)"
    "limit h' = limit h"
  using kq.remove_ok [of h "qview h" q xs p] assms by (auto simp: qrep_iff)

lemma member_view:
  "qwf h \<Longrightarrow> qview h q = Some xs \<Longrightarrow> p \<noteq> 0 \<Longrightarrow> is_in_queue q p h = Ret (p \<in> set xs) h"
  using kq.member_ok [of h "qview h" q xs p] by (simp add: qrep_iff)

lemma empty_view: "qwf h \<Longrightarrow> qview h q = Some xs \<Longrightarrow> is_empty q h = Ret (xs = []) h"
  using kq.empty_ok [of h "qview h" q xs] by (simp add: qrep_iff)

lemma delete_view:
  assumes "qwf h" and "qview h q = Some xs"
  obtains h' where "queueDelete q h = Ret () h'" "qwf h'" "qview h' = (qview h)(q := None)"
    "limit h' = limit h"
  using kq.delete_ok [of h "qview h" q xs] assms by (auto simp: qrep_iff)

lemma view_facts: "qwf h \<Longrightarrow> qview h q = Some xs \<Longrightarrow> q \<noteq> 0 \<and> q < limit h \<and> 0 \<notin> set xs"
  using kq.rep_proc [of h "qview h" q xs] by (simp add: qrep_iff)

section \<open>Iteration\<close>

text \<open>
  The rule for \<^verbatim>\<open>queueIterate\<close>: \<open>Inv rest s\<close> is kept while \<open>rest\<close> are the nodes still to visit.
  The callback may unlink the node it is called for, since its successor was read before.
\<close>

definition head_of :: "addr list \<Rightarrow> addr" where
  "head_of as = (case as of [] \<Rightarrow> 0 | a # _ \<Rightarrow> a)"

lemma head_of_simps [simp]: "head_of [] = 0" "head_of (a # as) = a"
  by (simp_all add: head_of_def)

lemma seg_head: "seg N pv x as 0 \<Longrightarrow> x = head_of as"
  by (cases as) auto

lemma queueIterate_loop_rule:
  assumes "Inv as s" and "length as < fuel"
    and "\<And>a as s. Inv (a # as) s \<Longrightarrow> \<exists>nd s'. a \<noteq> 0 \<and> nodes (g s) a = Some nd \<and> node_next nd = head_of as \<and>
        f (node_process nd) s = Ret () s' \<and> Inv as s'"
  shows "\<exists>s'. queueIterate_loop fuel g f (head_of as) s = Ret () s' \<and> Inv [] s'"
  using assms(1,2)
proof (induction as arbitrary: fuel s)
  case Nil
  then show ?case by (cases fuel) (auto simp: prog_simps)
next
  case (Cons a as)
  from assms(3) [OF Cons.prems(1)] obtain nd s1 where
    st: "a \<noteq> 0" "nodes (g s) a = Some nd" "node_next nd = head_of as"
      "f (node_process nd) s = Ret () s1" "Inv as s1" by blast
  from Cons.prems(2) obtain fuel' where fuel: "fuel = Suc fuel'" "length as < fuel'" by (cases fuel) auto
  from Cons.IH [OF st(5) fuel(2)] st fuel show ?case by (simp add: prog_simps)
qed

lemma qrepR_next:
  assumes rep: "qrepR h A R" and A: "A q = Some xs" and R: "R q = pre @ a # as"
  shows "\<exists>nd. a \<noteq> 0 \<and> nodes h a = Some nd \<and> node_next nd = head_of as \<and>
    node_process nd = xs ! length pre \<and> length pre < length xs"
proof -
  obtain qu where ok: "qok (nodes h) (limit h) qu (R q) xs" using qrepR_lookup [OF rep A] by blast
  then have "seg (nodes h) 0 (q_head qu) (pre @ a # as) 0" "xs = procs_of (nodes h) (pre @ a # as)"
    using R by (simp_all add: qok_def)
  then show ?thesis by (auto simp: seg_append nth_append dest: seg_head)
qed

lemma queueIterate_rule:
  assumes rep: "qrepR (g s) A R" and A: "A q = Some xs" and inv: "Inv (R q) s"
    and step: "\<And>a as s. Inv (a # as) s \<Longrightarrow>
      \<exists>nd s'. a \<noteq> 0 \<and> nodes (g s) a = Some nd \<and> node_next nd = head_of as \<and>
        f (node_process nd) s = Ret () s' \<and> Inv as s'"
  shows "\<exists>s'. queueIterate g q f s = Ret () s' \<and> Inv [] s'"
proof -
  obtain qu where q: "queues (g s) q = Some qu" "q \<noteq> 0"
    and ok: "qok (nodes (g s)) (limit (g s)) qu (R q) xs"
    using qrepR_lookup [OF rep A] by blast
  from ok have "q_head qu = head_of (R q)" by (auto simp: qok_def dest: seg_head)
  then have "queueIterate g q f s = queueIterate_loop (Suc (limit (g s))) g f (head_of (R q)) s"
    using q by (simp add: queueIterate_def prog_simps del: queueIterate_loop.simps)
  moreover have "\<exists>s'. queueIterate_loop (Suc (limit (g s))) g f (head_of (R q)) s = Ret () s' \<and> Inv [] s'"
    using inv step qok_length [OF ok] by (intro queueIterate_loop_rule) auto
  ultimately show ?thesis by simp
qed

lemma keeps_queueIterate_loop:
  "(\<And>p. keeps I (f p)) \<Longrightarrow> keeps I (queueIterate_loop fuel g f x)"
  by (induction fuel arbitrary: x) (auto intro!: keeps_intros)

lemma keeps_queueIterate [keeps_intros]:
  "(\<And>p. keeps I (f p)) \<Longrightarrow> keeps I (queueIterate g q f)"
  unfolding queueIterate_def by (intro keeps_intros keeps_queueIterate_loop) auto

section \<open>Every operation keeps the queues well-formed\<close>

text \<open>
  Whatever queue and process pointers an operation is given: it ends in a well-formed heap or it
  has stopped (\<^verbatim>\<open>Halt\<close> on a null pointer, a fault on a dangling one).
\<close>

lemma queueRemove_wf: "qwf h \<Longrightarrow> holds_after (\<lambda>h'. qwf h' \<and> limit h' = limit h) (queueRemove q p h)"
proof (cases "qview h q")
  case None
  assume "qwf h"
  with None have "queues h q = None" by (simp add: qview_None)
  with \<open>qwf h\<close> show ?thesis by (simp add: queueRemove_def queue_ops prog_simps)
next
  case (Some xs)
  assume wf: "qwf h"
  show ?thesis
  proof (cases "p = 0")
    case True
    with wf show ?thesis by (simp add: queueRemove_def prog_simps)
  next
    case False
    obtain h' where "queueRemove q p h = Ret () h'" "qwf h'" "limit h' = limit h"
      using remove_view [OF wf Some False] by blast
    then show ?thesis by simp
  qed
qed

lemma queueEnqueue_wf:
  assumes wf: "qwf h" and m: "m \<noteq> 0 \<Longrightarrow> limit h \<le> m"
  shows "holds_after (\<lambda>h'. qwf h' \<and> limit h' = (if m = 0 \<or> q = 0 \<or> p = 0 then limit h else Suc m))
    (queueEnqueue m q p h)"
proof (cases "q = 0 \<or> p = 0 \<or> m = 0")
  case True
  with wf show ?thesis by (auto simp: queueEnqueue_def newNode_def prog_simps)
next
  case nz: False
  show ?thesis
  proof (cases "qview h q")
    case None
    with wf have "queues h q = None" by (simp add: qview_None)
    with nz show ?thesis by (simp add: queueEnqueue_def newNode_def queue_ops prog_simps)
  next
    case (Some xs)
    obtain h' where "queueEnqueue m q p h = Ret () h'" "qwf h'" "limit h' = Suc m"
      using enqueue_view [OF wf Some _ m, of p] nz by blast
    with nz show ?thesis by simp
  qed
qed

lemma queueDequeue_wf: "qwf h \<Longrightarrow> holds_after (\<lambda>h'. qwf h' \<and> limit h' = limit h) (queueDequeue q h)"
proof (cases "qview h q")
  case None
  assume "qwf h"
  with None have "queues h q = None" by (simp add: qview_None)
  with \<open>qwf h\<close> show ?thesis by (simp add: queueDequeue_def queue_ops prog_simps)
next
  case (Some xs)
  assume wf: "qwf h"
  show ?thesis
  proof (cases xs)
    case Nil
    with wf Some show ?thesis by (simp add: dequeue_view_empty)
  next
    case (Cons p ys)
    with Some have "qview h q = Some (p # ys)" by simp
    then obtain h' where "queueDequeue q h = Ret p h'" "qwf h'" "limit h' = limit h"
      using dequeue_view [OF wf] by blast
    then show ?thesis by simp
  qed
qed

lemma queueDelete_wf: "qwf h \<Longrightarrow> holds_after (\<lambda>h'. qwf h' \<and> limit h' = limit h) (queueDelete q h)"
proof (cases "qview h q")
  case None
  assume "qwf h"
  with None have "queues h q = None" by (simp add: qview_None)
  with \<open>qwf h\<close> show ?thesis by (simp add: queueDelete_def queue_ops prog_simps)
next
  case (Some xs)
  assume wf: "qwf h"
  obtain h' where "queueDelete q h = Ret () h'" "qwf h'" "limit h' = limit h"
    using delete_view [OF wf Some] by blast
  then show ?thesis by simp
qed

lemma queueCreate_wf:
  assumes wf: "qwf h" and m: "m \<noteq> 0 \<Longrightarrow> limit h \<le> m"
  shows "holds_after (\<lambda>h'. qwf h' \<and> limit h' = (if m = 0 then limit h else Suc m)) (queueCreate m h)"
proof (cases "m = 0")
  case True
  with wf show ?thesis by (simp add: queueCreate_def prog_simps)
next
  case False
  obtain h' where "queueCreate m h = Ret m h'" "qwf h'" "limit h' = Suc m"
    using create_view [OF wf False m [OF False]] by blast
  with False show ?thesis by simp
qed

text \<open>The two predicates do not change the heap, whatever they are given.\<close>

lemma is_in_queue_loop_pure: "holds_after (\<lambda>h'. h' = h) (is_in_queue_loop fuel p x h)"
  by (induction fuel arbitrary: x) (auto simp: queue_ops prog_simps split: option.split)

lemma is_in_queue_pure: "holds_after (\<lambda>h'. h' = h) (is_in_queue q p h)"
  using is_in_queue_loop_pure
  by (auto simp: is_in_queue_def queue_ops prog_simps simp del: is_in_queue_loop.simps split: option.split)

lemma is_empty_pure: "holds_after (\<lambda>h'. h' = h) (is_empty q h)"
  by (simp add: is_empty_def queue_ops prog_simps split: option.split)

section \<open>Properties of the queues\<close>

definition qheap0 :: qheap where
  "qheap0 = \<lparr>nodes = (\<lambda>_. None), queues = (\<lambda>_. None), limit = 1\<rparr>"

lemma qheap0_wf [simp]: "qwf qheap0" "qview qheap0 = (\<lambda>_. None)" "limit qheap0 = 1"
proof -
  have "qrep qheap0 (\<lambda>_. None)" by (auto simp: qheap0_def qrep_def qrepR_def)
  then show "qwf qheap0" "qview qheap0 = (\<lambda>_. None)" by (simp_all add: qrep_iff)
qed (simp add: qheap0_def)

text \<open>A heap with one queue at address 1 and the processes 10, 20, 10, used by the witnesses.\<close>

definition qheap_ex :: qheap where
  "qheap_ex = \<lparr>nodes = [2 \<mapsto> \<lparr>node_process = 10, node_next = 3, node_prev = 0\<rparr>,
                        3 \<mapsto> \<lparr>node_process = 20, node_next = 4, node_prev = 2\<rparr>,
                        4 \<mapsto> \<lparr>node_process = 10, node_next = 0, node_prev = 3\<rparr>],
               queues = [1 \<mapsto> \<lparr>q_head = 2, q_tail = 4\<rparr>], limit = 5\<rparr>"

lemma qheap_ex_wf [simp]: "qwf qheap_ex" "qview qheap_ex = [1 \<mapsto> [10, 20, 10]]"
proof -
  have "qrepR qheap_ex [1 \<mapsto> [10, 20, 10]] (\<lambda>_. [2, 3, 4])"
    by (auto simp: qheap_ex_def qrepR_def qok_def split: if_splits)
  then have "qrep qheap_ex [1 \<mapsto> [10, 20, 10]]" unfolding qrep_def by blast
  then show "qwf qheap_ex" "qview qheap_ex = [1 \<mapsto> [10, 20, 10]]" by (simp_all add: qrep_iff)
qed

text \<open>
  FIFO order at the pointer level: processes enqueued one after another on an empty queue (each
  node malloc'ed at a fresh address) come out of as many dequeues in exactly that order, no call
  faults or halts, the queue is empty again and every other queue is untouched.
\<close>

theorem queue_fifo:
  assumes "qwf h" and "qview h q = Some []" and "sorted_wrt (<) (map fst mps)"
    and "\<forall>(m, p) \<in> set mps. m \<noteq> 0 \<and> limit h \<le> m \<and> p \<noteq> 0"
  shows "\<exists>h'. thn (kq.enqueue_all q mps) (kq.dequeue_n (length mps) q) h = Ret (map snd mps) h' \<and>
    qwf h' \<and> qview h' = qview h"
proof -
  from assms(1) have "qrep h (qview h)" by (simp add: qwf_def)
  from kq.fifo [OF this assms(2,3)] assms(4) obtain h' where
    "thn (kq.enqueue_all q mps) (kq.dequeue_n (length mps) q) h = Ret (map snd mps) h'"
    "qrep h' ((qview h)(q \<mapsto> []))" by fastforce
  moreover from assms(2) have "(qview h)(q \<mapsto> []) = qview h" by (simp add: fun_upd_idem)
  ultimately show ?thesis by (auto simp: qrep_iff)
qed

theorem queue_fifo_witness:
  "\<exists>h h'. thn (kq.enqueue_all 1 [(2, 30), (3, 40)]) (kq.dequeue_n 2 1) h = Ret [30, 40] h' \<and> qwf h'"
proof -
  have "limit qheap0 \<le> 1" by simp
  from create_view [OF qheap0_wf(1) one_neq_zero this] obtain h where
    h: "qwf h" "qview h = (qview qheap0)(1 \<mapsto> [])" "limit h = Suc 1" by blast
  have "\<exists>h'. thn (kq.enqueue_all 1 [(2, 30), (3, 40)]) (kq.dequeue_n (length [(2::addr, 30::addr), (3, 40)]) 1) h
      = Ret (map snd [(2::addr, 30::addr), (3, 40)]) h' \<and> qwf h' \<and> qview h' = qview h"
    by (rule queue_fifo) (use h in simp_all)
  then show ?thesis by (auto simp: numeral_2_eq_2)
qed

text \<open>
  C6. Refinement of the mutating operations: on a well-formed heap \<^verbatim>\<open>queueEnqueue\<close> appends,
  \<^verbatim>\<open>queueDequeue\<close> takes the first process (or returns \<^verbatim>\<open>NULL\<close> and changes nothing), \<^verbatim>\<open>queueRemove\<close>
  removes the first occurrence only, and \<^verbatim>\<open>queueDelete\<close> frees the queue; all of them return, keep the
  doubly linked structure and leave every other queue as it was.
\<close>

theorem queue_refinement:
  assumes "qwf h" and "qview h q = Some xs" and "m \<noteq> 0" and "limit h \<le> m" and "p \<noteq> 0"
  shows "(\<exists>h'. queueEnqueue m q p h = Ret () h' \<and> qwf h' \<and> qview h' = (qview h)(q \<mapsto> xs @ [p])) \<and>
    (\<exists>h'. queueDequeue q h = Ret (case xs of [] \<Rightarrow> 0 | x # _ \<Rightarrow> x) h' \<and> qwf h' \<and>
       qview h' = (qview h)(q \<mapsto> tl xs)) \<and>
    (\<exists>h'. queueRemove q p h = Ret () h' \<and> qwf h' \<and> qview h' = (qview h)(q \<mapsto> remove1 p xs)) \<and>
    (\<exists>h'. queueDelete q h = Ret () h' \<and> qwf h' \<and> qview h' = (qview h)(q := None))"
proof (intro conjI)
  show "\<exists>h'. queueEnqueue m q p h = Ret () h' \<and> qwf h' \<and> qview h' = (qview h)(q \<mapsto> xs @ [p])"
    using enqueue_view [OF assms] by blast
  show "\<exists>h'. queueDequeue q h = Ret (case xs of [] \<Rightarrow> 0 | x # _ \<Rightarrow> x) h' \<and> qwf h' \<and>
      qview h' = (qview h)(q \<mapsto> tl xs)"
  proof (cases xs)
    case Nil
    with assms show ?thesis by (simp add: dequeue_view_empty fun_upd_idem)
  next
    case (Cons x ys)
    then have "qview h q = Some (x # ys)" using assms(2) by simp
    from dequeue_view [OF assms(1) this] Cons show ?thesis by fastforce
  qed
  show "\<exists>h'. queueRemove q p h = Ret () h' \<and> qwf h' \<and> qview h' = (qview h)(q \<mapsto> remove1 p xs)"
    using remove_view [OF assms(1,2,5)] by blast
  show "\<exists>h'. queueDelete q h = Ret () h' \<and> qwf h' \<and> qview h' = (qview h)(q := None)"
    using delete_view [OF assms(1,2)] by blast
qed

theorem queue_refinement_witness:
  "\<exists>h'. queueRemove 1 10 qheap_ex = Ret () h' \<and> qview h' 1 = Some [20, 10]"
proof -
  have "qview qheap_ex 1 = Some [10, 20, 10]" "limit qheap_ex \<le> 5" by simp_all (simp add: qheap_ex_def)
  from queue_refinement [OF qheap_ex_wf(1) this(1) _ this(2), of 10] obtain h' where
    "queueRemove 1 10 qheap_ex = Ret () h'" "qview h' = (qview qheap_ex)(1 \<mapsto> remove1 10 [10, 20, 10])"
    by auto
  then show ?thesis by auto
qed

end
