(* ===== verification/Hardware.thy ===== *)
theory Hardware
  imports Prelude
begin

text \<open>
  The Yalnix machine as \<^verbatim>\<open>.yalnix/include/hardware.h\<close> documents it: page geometry, page table
  entries with their bit-field widths, the user context, the registers the kernel writes, the
  translation lookaside buffer and the memory accesses the kernel makes through the MMU.

  \<open>kmem\<close> is everything the memory component works on: the physical frames, the MMU state, the
  page tables (region 0 and the heap-allocated region 1 and kernel stack tables) and the frame
  table of \<^verbatim>\<open>mem.c\<close>. The machine is compiled for 32 bits (\<^verbatim>\<open>-m32\<close>), so \<open>long\<close>, \<open>int\<close> and
  pointers are 32-bit words.

  The TLB keeps every translation it has used until it is flushed. A real TLB may also evict
  entries on its own, so it always holds a subset of the entries of the model.
\<close>

section \<open>Geometry\<close>

definition PAGESIZE :: nat where "PAGESIZE = 0x2000"
definition PAGESHIFT :: nat where "PAGESHIFT = 13"
definition VMEM_1_BASE :: word32 where "VMEM_1_BASE = 0x100000"
definition VMEM_1_LIMIT :: word32 where "VMEM_1_LIMIT = 0x200000"
definition MAX_PT_LEN :: nat where "MAX_PT_LEN = 128"
definition KERNEL_STACK_BASE :: word32 where "KERNEL_STACK_BASE = 0xFC000"
definition KERNEL_STACK_LIMIT :: word32 where "KERNEL_STACK_LIMIT = 0x100000"
definition KSTACK_PAGES :: nat where "KSTACK_PAGES = 2"
definition KSTACK_START_PAGE :: nat where "KSTACK_START_PAGE = 126"
definition SCRATCH_ADDR_DST :: word32 where "SCRATCH_ADDR_DST = KERNEL_STACK_BASE - 0x2000"
definition SCRATCH_ADDR_SRC :: word32 where "SCRATCH_ADDR_SRC = KERNEL_STACK_BASE - 0x4000"
definition NUM_TERMINALS :: nat where "NUM_TERMINALS = 4"
definition TERMINAL_MAX_LINE :: nat where "TERMINAL_MAX_LINE = 1024"
definition MAX_PROCS :: nat where "MAX_PROCS = 128"

lemmas geometry_defs = PAGESIZE_def PAGESHIFT_def VMEM_1_BASE_def VMEM_1_LIMIT_def MAX_PT_LEN_def
  KERNEL_STACK_BASE_def KERNEL_STACK_LIMIT_def KSTACK_PAGES_def KSTACK_START_PAGE_def
  SCRATCH_ADDR_DST_def SCRATCH_ADDR_SRC_def NUM_TERMINALS_def TERMINAL_MAX_LINE_def MAX_PROCS_def

text \<open>The rounding macros, on the 32-bit \<open>long\<close> of the machine.\<close>

definition UP_TO_PAGE :: "word32 \<Rightarrow> word32" where
  "UP_TO_PAGE n = (n + 0x1FFF) AND NOT 0x1FFF"

definition DOWN_TO_PAGE :: "word32 \<Rightarrow> word32" where
  "DOWN_TO_PAGE n = n AND NOT 0x1FFF"

text \<open>\<^verbatim>\<open>a >> PAGESHIFT\<close> on an unsigned address, as an array index.\<close>

definition vpn_of :: "word32 \<Rightarrow> nat" where
  "vpn_of a = unat (drop_bit PAGESHIFT a)"

section \<open>Return codes and protections\<close>

definition SUCCESS :: int where "SUCCESS = 0"
definition ERROR :: int where "ERROR = -1"
definition KILL :: int where "KILL = -2"

lemmas code_defs = SUCCESS_def ERROR_def KILL_def

type_synonym prot = "3 word"

definition PROT_READ :: prot where "PROT_READ = 1"
definition PROT_WRITE :: prot where "PROT_WRITE = 2"
definition PROT_EXEC :: prot where "PROT_EXEC = 4"

lemmas prot_defs = PROT_READ_def PROT_WRITE_def PROT_EXEC_def

section \<open>Page table entries\<close>

text \<open>\<^verbatim>\<open>struct pte\<close>: one valid bit, three protection bits, a 24-bit frame number.\<close>

record pte =
  valid :: bool
  prot :: prot
  pfn :: "24 word"

definition pte0 :: pte where
  "pte0 = \<lparr>valid = False, prot = 0, pfn = 0\<rparr>"

text \<open>Storing a C \<open>int\<close> in the 24-bit field keeps its low 24 bits.\<close>

definition to_pfn :: "int \<Rightarrow> 24 word" where
  "to_pfn i = word_of_int i"

definition frame_of :: "pte \<Rightarrow> nat" where
  "frame_of e = unat (pfn e)"

section \<open>The user context\<close>

record UserContext =
  vector :: int
  code :: word32
  uaddr :: word32
  pc :: word32
  sp :: word32
  ebp :: word32
  regs :: "word32 list"

definition uctx0 :: UserContext where
  "uctx0 = \<lparr>vector = 0, code = 0, uaddr = 0, pc = 0, sp = 0, ebp = 0, regs = replicate 8 0\<rparr>"

definition set_reg0 :: "word32 \<Rightarrow> UserContext \<Rightarrow> UserContext" where
  "set_reg0 w c = c\<lparr>regs := (regs c)[0 := w]\<rparr>"

definition reg :: "UserContext \<Rightarrow> nat \<Rightarrow> word32" where
  "reg c i = regs c ! i"

section \<open>Memory and MMU state\<close>

datatype frame_usage_t = FRAME_FREE | FRAME_KERNEL | FRAME_USER

text \<open>\<^verbatim>\<open>struct frame_desc\<close>; the field \<^verbatim>\<open>pfn\<close> is \<open>fd_pfn\<close>.\<close>

record frame_desc_t =
  fd_pfn :: nat
  usage :: frame_usage_t
  owner_pid :: int
  last_used_tick :: nat

record kmem =
  phys :: "nat \<Rightarrow> nat \<Rightarrow> byte"    \<comment> \<open>frame number, offset\<close>
  tlb :: "nat \<Rightarrow> pte option"      \<comment> \<open>virtual page number of the whole address space\<close>
  reg_vm_enable :: bool
  reg_ptlr0 :: nat
  reg_ptbr1 :: addr
  reg_ptlr1 :: nat
  pt_region0 :: "pte list"
  pts :: "addr \<Rightarrow> pte list option"  \<comment> \<open>heap-allocated tables: region 1 and kernel stacks\<close>
  nframes :: nat
  free_nframes :: int
  frame_table :: "frame_desc_t list"
  kernel_brk_page :: nat

section \<open>Registers\<close>

datatype reg_write =
    REG_VM_ENABLE bool
  | REG_TLB_FLUSH word32
  | REG_PTLR0 nat
  | REG_PTBR1 addr
  | REG_PTLR1 nat

definition TLB_FLUSH_ALL :: word32 where "TLB_FLUSH_ALL = -1"
definition TLB_FLUSH_0 :: word32 where "TLB_FLUSH_0 = -2"
definition TLB_FLUSH_1 :: word32 where "TLB_FLUSH_1 = -3"
definition TLB_FLUSH_KSTACK :: word32 where "TLB_FLUSH_KSTACK = -4"

lemmas flush_defs = TLB_FLUSH_ALL_def TLB_FLUSH_0_def TLB_FLUSH_1_def TLB_FLUSH_KSTACK_def

definition tlb_flush :: "word32 \<Rightarrow> (nat \<Rightarrow> pte option) \<Rightarrow> nat \<Rightarrow> pte option" where
  "tlb_flush w t = (\<lambda>v.
     if w = TLB_FLUSH_ALL then None
     else if w = TLB_FLUSH_0 then (if v < MAX_PT_LEN then None else t v)
     else if w = TLB_FLUSH_1 then (if MAX_PT_LEN \<le> v then None else t v)
     else if w = TLB_FLUSH_KSTACK then
       (if KSTACK_START_PAGE \<le> v \<and> v < KSTACK_START_PAGE + KSTACK_PAGES then None else t v)
     else if v = vpn_of w then None else t v)"

fun write_register :: "reg_write \<Rightarrow> kmem \<Rightarrow> kmem" where
  "write_register (REG_VM_ENABLE b) m = m\<lparr>reg_vm_enable := b\<rparr>"
| "write_register (REG_TLB_FLUSH w) m = m\<lparr>tlb := tlb_flush w (tlb m)\<rparr>"
| "write_register (REG_PTLR0 n) m = m\<lparr>reg_ptlr0 := n\<rparr>"
| "write_register (REG_PTBR1 a) m = m\<lparr>reg_ptbr1 := a\<rparr>"
| "write_register (REG_PTLR1 n) m = m\<lparr>reg_ptlr1 := n\<rparr>"

definition WriteRegister :: "reg_write \<Rightarrow> (kmem, unit) prog" where
  "WriteRegister r = modify (write_register r)"

section \<open>Translation and accesses\<close>

text \<open>The entry the page tables hold for a page of the address space, if it is valid.\<close>

definition pt_entry :: "kmem \<Rightarrow> nat \<Rightarrow> pte option" where
  "pt_entry m v =
     (if v < MAX_PT_LEN then
        (if v < length (pt_region0 m) \<and> valid (pt_region0 m ! v) then Some (pt_region0 m ! v) else None)
      else case pts m (reg_ptbr1 m) of
             None \<Rightarrow> None
           | Some t \<Rightarrow>
               (let i = v - MAX_PT_LEN in
                if i < reg_ptlr1 m \<and> i < length t \<and> valid (t ! i) then Some (t ! i) else None))"

text \<open>What the MMU uses: a cached entry if there is one, the tables otherwise.\<close>

definition translate :: "kmem \<Rightarrow> nat \<Rightarrow> pte option" where
  "translate m v = (case tlb m v of Some e \<Rightarrow> Some e | None \<Rightarrow> pt_entry m v)"

text \<open>
  One access: the page must translate, permit the access and name a frame that exists; the
  translation is cached. The result is the frame.
\<close>

definition access :: "prot \<Rightarrow> word32 \<Rightarrow> (kmem, nat) prog" where
  "access p a = (\<lambda>m. case translate m (vpn_of a) of
       None \<Rightarrow> Fault PageFault
     | Some e \<Rightarrow>
         if prot e AND p = p \<and> frame_of e < nframes m
         then Ret (frame_of e) (m\<lparr>tlb := (tlb m)(vpn_of a \<mapsto> e)\<rparr>)
         else Fault PageFault)"

definition page_off :: "word32 \<Rightarrow> nat" where
  "page_off a = unat a mod PAGESIZE"

definition load_byte :: "word32 \<Rightarrow> (kmem, byte) prog" where
  "load_byte a = bnd (access PROT_READ a) (\<lambda>f. gets (\<lambda>m. phys m f (page_off a)))"

definition store_byte :: "word32 \<Rightarrow> byte \<Rightarrow> (kmem, unit) prog" where
  "store_byte a b = bnd (access PROT_WRITE a)
     (\<lambda>f. modify (\<lambda>m. m\<lparr>phys := (phys m)(f := (phys m f)(page_off a := b))\<rparr>))"

text \<open>\<^verbatim>\<open>memcpy\<close> between two virtual ranges, and between a range and a kernel buffer.\<close>

definition memcpy_v :: "word32 \<Rightarrow> word32 \<Rightarrow> nat \<Rightarrow> (kmem, unit) prog" where
  "memcpy_v dst src n = for_do 0 n (\<lambda>i.
     bnd (load_byte (src + of_nat i)) (\<lambda>b. store_byte (dst + of_nat i) b))"

primrec copy_out :: "word32 \<Rightarrow> byte list \<Rightarrow> (kmem, unit) prog" where
  "copy_out a [] = ret ()"
| "copy_out a (b # bs) = thn (store_byte a b) (copy_out (a + 1) bs)"

primrec copy_in :: "word32 \<Rightarrow> nat \<Rightarrow> (kmem, byte list) prog" where
  "copy_in a 0 = ret []"
| "copy_in a (Suc n) = bnd (load_byte a) (\<lambda>b. bnd (copy_in (a + 1) n) (\<lambda>bs. ret (b # bs)))"

text \<open>A little-endian 32-bit store (\<^verbatim>\<open>*status_ptr = v\<close> on the x86 host).\<close>

definition word_bytes :: "word32 \<Rightarrow> byte list" where
  "word_bytes w = [ucast w, ucast (drop_bit 8 w), ucast (drop_bit 16 w), ucast (drop_bit 24 w)]"

definition store_int :: "word32 \<Rightarrow> int \<Rightarrow> (kmem, unit) prog" where
  "store_int a v = copy_out a (word_bytes (word_of_int v))"

section \<open>Word arithmetic of pages\<close>

lemma vpn_of_div: "vpn_of a = unat a div 8192"
  unfolding vpn_of_def PAGESHIFT_def unat_drop_bit_eq by (simp add: drop_bit_eq_div)

lemma and_not_mask13: "unat ((n :: word32) AND NOT 0x1FFF) = unat n div 8192 * 8192"
proof -
  have m: "(0x1FFF :: word32) = mask 13" by (simp add: mask_eq_exp_minus_1)
  have "unat n < 2 ^ 32" using unsigned_less [where 'b = 32, of n] by simp
  then have lt: "unat n div 8192 * 8192 < 2 ^ 32"
    by (metis div_times_less_eq_dividend order_le_less_trans)
  have "n AND NOT (mask 13) = push_bit 13 (drop_bit 13 n)"
    by (simp add: bit_eq_iff bit_simps) (auto simp: bit_simps)
  then have "unat (n AND NOT (mask 13)) = take_bit 32 (push_bit 13 (drop_bit 13 (unat n)))"
    by (simp only: unsigned_push_bit_eq unat_drop_bit_eq) simp
  also have "\<dots> = unat n div 8192 * 8192"
    using lt by (simp add: take_bit_eq_mod push_bit_eq_mult drop_bit_eq_div)
  finally show ?thesis by (simp only: m)
qed

lemma DOWN_TO_PAGE_unat: "unat (DOWN_TO_PAGE n) = unat n div 8192 * 8192"
  by (simp only: DOWN_TO_PAGE_def and_not_mask13)

lemma unat_add_no_wrap: "unat a + unat b < 2 ^ 32 \<Longrightarrow> unat (a + b :: word32) = unat a + unat b"
  by (simp add: unat_word_ariths(1))

lemma UP_TO_PAGE_unat:
  assumes "unat n + 8191 < 2 ^ 32"
  shows "unat (UP_TO_PAGE n) = (unat n + 8191) div 8192 * 8192"
proof -
  have "unat (n + 0x1FFF) = unat n + 8191"
    using assms unat_add_no_wrap [of n "0x1FFF"] by simp
  then show ?thesis by (simp only: UP_TO_PAGE_def and_not_mask13)
qed

lemma vpn_UP_TO_PAGE:
  "unat n + 8191 < 2 ^ 32 \<Longrightarrow> vpn_of (UP_TO_PAGE n) = (unat n + 8191) div 8192"
  by (simp add: vpn_of_div UP_TO_PAGE_unat)

lemma vpn_DOWN_TO_PAGE: "vpn_of (DOWN_TO_PAGE n) = vpn_of n"
  by (simp add: vpn_of_div DOWN_TO_PAGE_unat)

lemma vpn_offset:
  assumes "unat a mod 8192 = 0" and "i < 8192" and "unat a + 8192 \<le> 2 ^ 32"
  shows "vpn_of (a + of_nat i) = vpn_of a" "page_off (a + of_nat i) = i"
proof -
  have i: "unat (of_nat i :: word32) = i" using assms(2) by (simp add: unat_of_nat)
  then have s: "unat (a + of_nat i) = unat a + i"
    using assms unat_add_no_wrap [of a "of_nat i"] by simp
  have "unat a = unat a div 8192 * 8192" using assms(1) by (metis add.right_neutral div_mult_mod_eq)
  then obtain k where k: "unat a = k * 8192" ..
  from s k assms(2) show "vpn_of (a + of_nat i) = vpn_of a" "page_off (a + of_nat i) = i"
    by (simp_all add: vpn_of_div page_off_def PAGESIZE_def)
qed

lemma to_pfn_frame: "0 \<le> f \<Longrightarrow> f < 2 ^ 24 \<Longrightarrow> unat (to_pfn f) = nat f"
  by (simp add: to_pfn_def unsigned_of_int take_bit_int_eq_self nat_eq_iff)

section \<open>Accesses through a coherent TLB\<close>

text \<open>Every cached translation is the one the page tables hold.\<close>

definition tlb_coherent :: "kmem \<Rightarrow> bool" where
  "tlb_coherent m \<longleftrightarrow> (\<forall>v e. tlb m v = Some e \<longrightarrow> pt_entry m v = Some e)"

lemma translate_coherent: "tlb_coherent m \<Longrightarrow> translate m v = pt_entry m v"
  by (auto simp: tlb_coherent_def translate_def split: option.split)

lemma tlb_flush_sub: "tlb_flush w t v = Some e \<Longrightarrow> t v = Some e"
  by (simp add: tlb_flush_def split: if_splits)

lemma pt_entry_cong:
  assumes "pt_region0 m' = pt_region0 m" and "pts m' = pts m" and "reg_ptbr1 m' = reg_ptbr1 m"
    and "reg_ptlr1 m' = reg_ptlr1 m"
  shows "pt_entry m' = pt_entry m"
  by (rule ext) (simp only: pt_entry_def assms)

lemma pt_entry_frame [simp]:
  "pt_entry (m\<lparr>tlb := t\<rparr>) = pt_entry m" "pt_entry (m\<lparr>phys := p\<rparr>) = pt_entry m"
  "pt_entry (m\<lparr>frame_table := ft\<rparr>) = pt_entry m" "pt_entry (m\<lparr>free_nframes := n\<rparr>) = pt_entry m"
  "pt_entry (m\<lparr>kernel_brk_page := k\<rparr>) = pt_entry m"
  by (rule pt_entry_cong; simp)+

lemma tlb_flush_coherent:
  "tlb_coherent m \<Longrightarrow> tlb_coherent (m\<lparr>tlb := tlb_flush w (tlb m)\<rparr>)"
  by (auto simp: tlb_coherent_def dest: tlb_flush_sub)

lemma tlb_flush_all [simp]: "tlb_flush TLB_FLUSH_ALL t = (\<lambda>_. None)"
  by (simp add: tlb_flush_def fun_eq_iff)

lemma tlb_flush_page:
  assumes "vpn_of a < 256"
  shows "tlb_flush a t = t(vpn_of a := None)"
proof -
  have "vpn_of TLB_FLUSH_ALL = 524287" "vpn_of TLB_FLUSH_0 = 524287"
    "vpn_of TLB_FLUSH_1 = 524287" "vpn_of TLB_FLUSH_KSTACK = 524287"
    by (simp_all add: flush_defs vpn_of_div unsigned_minus_1_eq_mask mask_eq_exp_minus_1)
  with assms have "a \<noteq> TLB_FLUSH_ALL" "a \<noteq> TLB_FLUSH_0" "a \<noteq> TLB_FLUSH_1" "a \<noteq> TLB_FLUSH_KSTACK"
    by auto
  then show ?thesis by (auto simp: tlb_flush_def)
qed

lemma access_coherent: "tlb_coherent m \<Longrightarrow> holds_after tlb_coherent (access p a m)"
  by (auto simp: access_def tlb_coherent_def translate_def split: option.splits)

end
