(* ===== verification/Mem.thy ===== *)
theory Mem
  imports Hardware
begin

text \<open>
  \<^verbatim>\<open>src/mem.c\<close>: the frame table, the page table helpers and the copying of frames and page tables,
  and from \<^verbatim>\<open>src/kernel.c\<close> the two operations that work on the same state only,
  \<^verbatim>\<open>SetKernelBrk\<close> and the construction of kernel stacks.

  A page table that lives in the kernel heap is named by its address and indexed by a C \<^verbatim>\<open>int\<close>; an
  index outside a table is the fault \<open>OutOfBounds\<close>.
\<close>

section \<open>Arrays\<close>

definition get_fd :: "int \<Rightarrow> (kmem, frame_desc_t) prog" where
  "get_fd i = (\<lambda>m. if 0 \<le> i \<and> nat i < length (frame_table m)
     then Ret (frame_table m ! nat i) m else Fault OutOfBounds)"

definition upd_fd :: "int \<Rightarrow> (frame_desc_t \<Rightarrow> frame_desc_t) \<Rightarrow> (kmem, unit) prog" where
  "upd_fd i f = bnd (get_fd i) (\<lambda>fd. modify (\<lambda>m. m\<lparr>frame_table := (frame_table m)[nat i := f fd]\<rparr>))"

definition get_pte0 :: "nat \<Rightarrow> (kmem, pte) prog" where
  "get_pte0 v = (\<lambda>m. if v < length (pt_region0 m) then Ret (pt_region0 m ! v) m else Fault OutOfBounds)"

definition upd_pte0 :: "nat \<Rightarrow> (pte \<Rightarrow> pte) \<Rightarrow> (kmem, unit) prog" where
  "upd_pte0 v f = bnd (get_pte0 v) (\<lambda>e. modify (\<lambda>m. m\<lparr>pt_region0 := (pt_region0 m)[v := f e]\<rparr>))"

definition get_pte :: "addr \<Rightarrow> int \<Rightarrow> (kmem, pte) prog" where
  "get_pte t i = bnd (deref pts t) (\<lambda>es.
     if 0 \<le> i \<and> nat i < length es then ret (es ! nat i) else fail OutOfBounds)"

definition upd_pte :: "addr \<Rightarrow> int \<Rightarrow> (pte \<Rightarrow> pte) \<Rightarrow> (kmem, unit) prog" where
  "upd_pte t i f = bnd (deref pts t) (\<lambda>es.
     if 0 \<le> i \<and> nat i < length es
     then modify (\<lambda>m. m\<lparr>pts := (pts m)(t \<mapsto> es[nat i := f (es ! nat i)])\<rparr>)
     else fail OutOfBounds)"

lemmas array_ops = get_fd_def upd_fd_def get_pte0_def upd_pte0_def get_pte_def upd_pte_def

section \<open>Frames\<close>

text \<open>Both allocators store \<open>-1\<close> as the owner, whatever pid they are given.\<close>

definition take_free :: "(kmem, unit) prog" where
  "take_free = modify (\<lambda>m. if 0 < free_nframes m then m\<lparr>free_nframes := free_nframes m - 1\<rparr> else m)"

definition allocFrame :: "frame_usage_t \<Rightarrow> int \<Rightarrow> (kmem, int) prog" where
  "allocFrame u owner = bnd (gets nframes) (\<lambda>n.
     bnd (for_ret 0 n (\<lambda>i. bnd (get_fd (int i)) (\<lambda>fd.
            if usage fd = FRAME_FREE
            then thn (upd_fd (int i) (\<lambda>fd. fd\<lparr>usage := u, owner_pid := -1\<rparr>))
                (thn take_free (ret (Some (int i))))
            else ret None)))
     (\<lambda>r. case r of Some i \<Rightarrow> ret i | None \<Rightarrow> ret (-1)))"

definition allocSpecificFrame :: "int \<Rightarrow> frame_usage_t \<Rightarrow> int \<Rightarrow> (kmem, int) prog" where
  "allocSpecificFrame pf u owner = bnd (gets nframes) (\<lambda>n.
     if int n \<le> pf then ret (-1)
     else bnd (get_fd pf) (\<lambda>fd.
       if usage fd \<noteq> FRAME_FREE then ret (-1)
       else thn (upd_fd pf (\<lambda>fd. fd\<lparr>usage := u, owner_pid := -1\<rparr>))
           (thn take_free (ret pf))))"

definition valid_pfn :: "int \<Rightarrow> (kmem, bool) prog" where
  "valid_pfn pf = gets (\<lambda>m. 0 \<le> pf \<and> nat pf < nframes m)"

definition freeFrame :: "int \<Rightarrow> (kmem, unit) prog" where
  "freeFrame pf = bnd (valid_pfn pf) (\<lambda>ok.
     if \<not> ok then ret ()
     else thn (upd_fd pf (\<lambda>fd. fd\<lparr>usage := FRAME_FREE, owner_pid := -1\<rparr>))
              (modify (\<lambda>m. m\<lparr>free_nframes := free_nframes m + 1\<rparr>)))"

section \<open>Page tables\<close>

definition MapPage :: "addr \<Rightarrow> int \<Rightarrow> int \<Rightarrow> prot \<Rightarrow> (kmem, unit) prog" where
  "MapPage t vpn f p = upd_pte t vpn (\<lambda>e. e\<lparr>pfn := to_pfn f, prot := p, valid := True\<rparr>)"

definition vpn_in_region0 :: "nat \<Rightarrow> bool" where
  "vpn_in_region0 vpn \<longleftrightarrow> vpn < MAX_PT_LEN"

definition MapRegion0 :: "nat \<Rightarrow> int \<Rightarrow> (kmem, unit) prog" where
  "MapRegion0 vpn f =
     (if \<not> vpn_in_region0 vpn then ret ()
      else upd_pte0 vpn (\<lambda>e. e\<lparr>valid := True, prot := PROT_READ OR PROT_WRITE, pfn := to_pfn f\<rparr>))"

definition UnmapRegion0 :: "nat \<Rightarrow> (kmem, unit) prog" where
  "UnmapRegion0 vpn =
     (if \<not> vpn_in_region0 vpn then ret ()
      else upd_pte0 vpn (\<lambda>e. e\<lparr>valid := False, prot := 0, pfn := 0\<rparr>))"

definition CloneFrame :: "int \<Rightarrow> int \<Rightarrow> (kmem, unit) prog" where
  "CloneFrame pfn_src pfn_dst =
     (let dst = vpn_of SCRATCH_ADDR_DST; src = vpn_of SCRATCH_ADDR_SRC in
      thn (upd_pte0 src (\<lambda>e. e\<lparr>pfn := to_pfn pfn_src, prot := PROT_READ, valid := True\<rparr>))
     (thn (upd_pte0 dst (\<lambda>e. e\<lparr>pfn := to_pfn pfn_dst, prot := PROT_READ OR PROT_WRITE, valid := True\<rparr>))
     (thn (WriteRegister (REG_TLB_FLUSH SCRATCH_ADDR_SRC))
     (thn (WriteRegister (REG_TLB_FLUSH SCRATCH_ADDR_DST))
     (thn (memcpy_v SCRATCH_ADDR_DST SCRATCH_ADDR_SRC PAGESIZE)
     (thn (upd_pte0 src (\<lambda>e. e\<lparr>valid := False\<rparr>))
     (thn (upd_pte0 dst (\<lambda>e. e\<lparr>valid := False\<rparr>))
     (thn (WriteRegister (REG_TLB_FLUSH SCRATCH_ADDR_SRC))
          (WriteRegister (REG_TLB_FLUSH SCRATCH_ADDR_DST))))))))))"

text \<open>The loop of \<^verbatim>\<open>CopyPT\<close>, on the two tables and the pid its arguments give.\<close>

definition CopyPT_tables :: "addr \<Rightarrow> addr \<Rightarrow> int \<Rightarrow> (kmem, int) prog" where
  "CopyPT_tables pt_src pt_dst dst_pid =
     bnd (for_ret 0 MAX_PT_LEN (\<lambda>i. bnd (get_pte pt_src (int i)) (\<lambda>e.
            if valid e
            then bnd (allocFrame FRAME_USER dst_pid) (\<lambda>dst_frame.
              if dst_frame = -1 then ret (Some ERROR)
              else thn (CloneFrame (int (unat (pfn e))) dst_frame)
                  (thn (upd_pte pt_dst (int i) (\<lambda>d. d\<lparr>pfn := to_pfn dst_frame, valid := True, prot := prot e\<rparr>))
                       (ret None)))
            else ret None)))
     (\<lambda>r. case r of Some x \<Rightarrow> ret x | None \<Rightarrow> ret SUCCESS)"

text \<open>The loop of \<^verbatim>\<open>CloneRegion1\<close> (\<^verbatim>\<open>proc.c\<close>), which does not test the result of the allocation.\<close>

definition CloneRegion1_tables :: "addr \<Rightarrow> addr \<Rightarrow> int \<Rightarrow> (kmem, unit) prog" where
  "CloneRegion1_tables pt_from pt_to to_pid =
     for_do 0 MAX_PT_LEN (\<lambda>i. bnd (get_pte pt_from (int i)) (\<lambda>e.
       if valid e
       then bnd (allocFrame FRAME_USER to_pid) (\<lambda>pfn_to.
         thn (CloneFrame (int (unat (pfn e))) pfn_to)
             (upd_pte pt_to (int i) (\<lambda>d. d\<lparr>pfn := to_pfn pfn_to, prot := prot e, valid := True\<rparr>)))
       else ret ()))"

section \<open>The kernel break and the kernel stacks\<close>

fun SetKernelBrk_grow :: "nat \<Rightarrow> nat \<Rightarrow> nat \<Rightarrow> (kmem, bool) prog" where
  "SetKernelBrk_grow 0 cur target = ret True"
| "SetKernelBrk_grow (Suc k) cur target =
     (if cur < target
      then bnd (allocFrame FRAME_KERNEL (-1)) (\<lambda>f.
        if f = -1 then ret False
        else thn (MapRegion0 cur f) (SetKernelBrk_grow k (Suc cur) target))
      else ret True)"

text \<open>The flush is given the page number where the register takes an address.\<close>

fun SetKernelBrk_shrink :: "nat \<Rightarrow> nat \<Rightarrow> (kmem, bool) prog" where
  "SetKernelBrk_shrink 0 target = ret True"
| "SetKernelBrk_shrink (Suc vpn) target =
     (if target < Suc vpn
      then if \<not> vpn_in_region0 vpn then ret False
      else bnd (get_pte0 vpn) (\<lambda>e.
        if \<not> valid e then SetKernelBrk_shrink vpn target
        else thn (UnmapRegion0 vpn)
            (thn (WriteRegister (REG_TLB_FLUSH (of_nat vpn)))
            (thn (freeFrame (int (unat (pfn e))))
                 (SetKernelBrk_shrink vpn target))))
      else ret True)"

definition SetKernelBrk :: "word32 \<Rightarrow> (kmem, int) prog" where
  "SetKernelBrk a =
     (if a = 0 then ret (-1)
      else let target_vpn = vpn_of (UP_TO_PAGE a);
               stack_base_vpn = vpn_of (DOWN_TO_PAGE KERNEL_STACK_BASE)
           in if stack_base_vpn \<le> target_vpn then ret (-1)
      else bnd (gets kernel_brk_page) (\<lambda>cur_vpn.
        bnd (SetKernelBrk_grow (target_vpn - cur_vpn) cur_vpn target_vpn) (\<lambda>ok.
        if \<not> ok then ret (-1)
        else bnd (SetKernelBrk_shrink (max cur_vpn target_vpn) target_vpn) (\<lambda>ok.
        if \<not> ok then ret (-1)
        else thn (modify (\<lambda>m. m\<lparr>kernel_brk_page := target_vpn\<rparr>)) (ret 0)))))"

text \<open>\<open>t\<close> is the address \<^verbatim>\<open>malloc\<close> returned for the table of a kernel stack.\<close>

definition InitializeKernelStackIdle :: "addr \<Rightarrow> (kmem, addr) prog" where
  "InitializeKernelStackIdle t =
     (if t = 0 then ret 0
      else thn (modify (\<lambda>m. m\<lparr>pts := (pts m)(t \<mapsto> replicate KSTACK_PAGES pte0)\<rparr>))
          (thn (for_do 0 KSTACK_PAGES (\<lambda>i.
             thn (allocSpecificFrame (int (KSTACK_START_PAGE + i)) FRAME_KERNEL (-1))
                 (upd_pte t (int i) (\<lambda>e. e\<lparr>valid := True, pfn := to_pfn (int (KSTACK_START_PAGE + i)),
                                           prot := PROT_WRITE OR PROT_READ\<rparr>))))
          (ret t)))"

definition InitializeKernelStackProcess :: "addr \<Rightarrow> (kmem, addr) prog" where
  "InitializeKernelStackProcess t =
     (if t = 0 then ret 0
      else thn (modify (\<lambda>m. m\<lparr>pts := (pts m)(t \<mapsto> replicate KSTACK_PAGES pte0)\<rparr>))
          (thn (for_do 0 KSTACK_PAGES (\<lambda>i.
             bnd (allocFrame FRAME_KERNEL (-1)) (\<lambda>f.
             if f = -1 then halt
             else upd_pte t (int i) (\<lambda>e. e\<lparr>valid := True, pfn := to_pfn f,
                                           prot := PROT_WRITE OR PROT_READ\<rparr>))))
          (ret t)))"

section \<open>The frame table\<close>

definition free_frames :: "kmem \<Rightarrow> nat set" where
  "free_frames m = {i. i < nframes m \<and> usage (frame_table m ! i) = FRAME_FREE}"

text \<open>
  The invariant of the component: the tables have their lengths, the counter counts the free frames
  and every frame number fits the 24 bits of a page table entry (the machine has at most
  \<open>2 ^ 32 / PAGESIZE\<close> frames).
\<close>

definition frames_wf :: "kmem \<Rightarrow> bool" where
  "frames_wf m \<longleftrightarrow> length (frame_table m) = nframes m \<and> nframes m \<le> 2 ^ 19 \<and>
     free_nframes m = int (card (free_frames m))"

definition mem_wf :: "kmem \<Rightarrow> bool" where
  "mem_wf m \<longleftrightarrow> frames_wf m \<and> length (pt_region0 m) = MAX_PT_LEN"

definition take_frame :: "frame_usage_t \<Rightarrow> nat \<Rightarrow> kmem \<Rightarrow> kmem" where
  "take_frame u i m = m\<lparr>frame_table := (frame_table m)[i := (frame_table m ! i)\<lparr>usage := u, owner_pid := -1\<rparr>],
     free_nframes := free_nframes m - 1\<rparr>"

definition give_frame :: "nat \<Rightarrow> kmem \<Rightarrow> kmem" where
  "give_frame i m = m\<lparr>frame_table := (frame_table m)[i := (frame_table m ! i)\<lparr>usage := FRAME_FREE, owner_pid := -1\<rparr>],
     free_nframes := free_nframes m + 1\<rparr>"

lemma finite_free [simp]: "finite (free_frames m)"
  by (simp add: free_frames_def)

lemma free_frames_bound: "i \<in> free_frames m \<Longrightarrow> i < nframes m"
  by (simp add: free_frames_def)

lemma frames_frame [simp]:
  "phys (take_frame u i m) = phys m" "tlb (take_frame u i m) = tlb m"
  "pt_region0 (take_frame u i m) = pt_region0 m" "pts (take_frame u i m) = pts m"
  "reg_ptbr1 (take_frame u i m) = reg_ptbr1 m" "reg_ptlr1 (take_frame u i m) = reg_ptlr1 m"
  "nframes (take_frame u i m) = nframes m" "kernel_brk_page (take_frame u i m) = kernel_brk_page m"
  "free_nframes (take_frame u i m) = free_nframes m - 1" "free_nframes (give_frame i m) = free_nframes m + 1"
  "length (frame_table (take_frame u i m)) = length (frame_table m)"
  "phys (give_frame i m) = phys m" "tlb (give_frame i m) = tlb m"
  "pt_region0 (give_frame i m) = pt_region0 m" "pts (give_frame i m) = pts m"
  "reg_ptbr1 (give_frame i m) = reg_ptbr1 m" "reg_ptlr1 (give_frame i m) = reg_ptlr1 m"
  "nframes (give_frame i m) = nframes m" "kernel_brk_page (give_frame i m) = kernel_brk_page m"
  "length (frame_table (give_frame i m)) = length (frame_table m)"
  by (simp_all add: take_frame_def give_frame_def)

lemma free_take:
  assumes "length (frame_table m) = nframes m" and "u \<noteq> FRAME_FREE"
  shows "free_frames (take_frame u i m) = free_frames m - {i}"
  using assms by (cases "i < nframes m")
    (auto simp: free_frames_def take_frame_def nth_list_update list_update_beyond split: if_splits)

lemma free_give:
  assumes "length (frame_table m) = nframes m" and "i < nframes m"
  shows "free_frames (give_frame i m) = insert i (free_frames m)"
  using assms by (auto simp: free_frames_def give_frame_def nth_list_update split: if_splits)

lemma frames_wf_cong:
  "frame_table m' = frame_table m \<Longrightarrow> nframes m' = nframes m \<Longrightarrow> free_nframes m' = free_nframes m \<Longrightarrow>
   frames_wf m' = frames_wf m"
  by (simp add: frames_wf_def free_frames_def)

lemma frames_wf_take:
  assumes "frames_wf m" and "i \<in> free_frames m" and "u \<noteq> FRAME_FREE"
  shows "frames_wf (take_frame u i m)"
proof -
  have "0 < card (free_frames m)" using assms(2) by (auto simp: card_gt_0_iff)
  with assms show ?thesis by (simp add: frames_wf_def free_take of_nat_diff)
qed

lemma frames_wf_give:
  assumes "frames_wf m" and "i \<notin> free_frames m" and "i < nframes m"
  shows "frames_wf (give_frame i m)"
  using assms by (simp add: frames_wf_def free_give)

text \<open>\<^verbatim>\<open>allocFrame\<close> takes the lowest free frame, and fails exactly when there is none.\<close>

lemma allocFrame_none:
  assumes "frames_wf m" and "free_frames m = {}"
  shows "allocFrame u owner m = Ret (-1) m"
proof -
  from assms have "usage (frame_table m ! i) \<noteq> FRAME_FREE" "i < length (frame_table m)" if "i < nframes m" for i
    using that by (auto simp: frames_wf_def free_frames_def)
  then show ?thesis
    by (simp add: allocFrame_def prog_simps array_ops for_ret_none)
qed

lemma allocFrame_first:
  assumes wf: "frames_wf m" and k: "k \<in> free_frames m" and least: "\<And>i. i < k \<Longrightarrow> i \<notin> free_frames m"
  shows "allocFrame u owner m = Ret (int k) (take_frame u k m)"
proof -
  let ?body = "\<lambda>i. bnd (get_fd (int i)) (\<lambda>fd.
            if usage fd = FRAME_FREE
            then thn (upd_fd (int i) (\<lambda>fd. fd\<lparr>usage := u, owner_pid := -1\<rparr>))
                (thn take_free (ret (Some (int i))))
            else ret None)"
  from k have kn: "k < nframes m" by (rule free_frames_bound)
  have "usage (frame_table m ! i) \<noteq> FRAME_FREE" if "i < k" for i
    using that kn least [OF that] by (simp add: free_frames_def)
  then have skip: "?body i m = Ret None m" if "i < k" for i
    using that wf kn by (simp add: prog_simps array_ops frames_wf_def)
  have u: "usage (frame_table m ! k) = FRAME_FREE" "k < length (frame_table m)"
    using k wf by (simp_all add: free_frames_def frames_wf_def)
  have pos: "0 < free_nframes m" using wf k by (auto simp: frames_wf_def card_gt_0_iff)
  have "for_ret 0 (nframes m) ?body m = for_ret k (nframes m) ?body m"
    using skip kn by (intro for_ret_skip) auto
  also have "\<dots> = Ret (Some (int k)) (take_frame u k m)"
    using kn u pos by (simp add: for_ret_step prog_simps array_ops take_free_def take_frame_def)
  finally show ?thesis by (simp add: allocFrame_def prog_simps)
qed

definition least_free :: "kmem \<Rightarrow> nat" where
  "least_free m = Min (free_frames m)"

lemma least_free_in: "free_frames m \<noteq> {} \<Longrightarrow> least_free m \<in> free_frames m"
  by (simp add: least_free_def)

lemma least_free_le: "i < least_free m \<Longrightarrow> i \<notin> free_frames m"
  unfolding least_free_def using Min_le [OF finite_free, of i m] by fastforce

lemma allocFrame_some:
  assumes "frames_wf m" and "free_frames m \<noteq> {}"
  shows "allocFrame u owner m = Ret (int (least_free m)) (take_frame u (least_free m) m)"
  using assms by (intro allocFrame_first least_free_in) (simp_all add: least_free_le)

lemma allocSpecificFrame_eval:
  assumes wf: "frames_wf m" and "0 \<le> f"
  shows "allocSpecificFrame f u owner m =
    (if nat f \<in> free_frames m then Ret f (take_frame u (nat f) m) else Ret (-1) m)"
proof -
  have "0 < free_nframes m" if "nat f \<in> free_frames m" using wf that by (auto simp: frames_wf_def card_gt_0_iff)
  with assms show ?thesis
    by (auto simp: allocSpecificFrame_def prog_simps array_ops frames_wf_def free_frames_def take_free_def take_frame_def)
qed

lemma freeFrame_eval:
  assumes "frames_wf m"
  shows "freeFrame f m = Ret () (if 0 \<le> f \<and> nat f < nframes m then give_frame (nat f) m else m)"
  using assms by (auto simp: freeFrame_def valid_pfn_def prog_simps array_ops frames_wf_def give_frame_def)

section \<open>The interface of the frame allocator\<close>

text \<open>
  What the page table code relies on: an allocation gives a frame nobody holds, failure means there
  is none, and a frame that is given back can be allocated again.
\<close>

locale frame_allocator =
  fixes inv :: "'s \<Rightarrow> bool"
    and free :: "'s \<Rightarrow> nat set"
    and total :: "'s \<Rightarrow> nat"
    and alloc :: "('s, int) prog"
    and release :: "int \<Rightarrow> ('s, unit) prog"
  assumes free_sub: "inv s \<Longrightarrow> free s \<subseteq> {..<total s}"
    and alloc_none: "inv s \<Longrightarrow> free s = {} \<Longrightarrow> alloc s = Ret (-1) s"
    and alloc_some: "inv s \<Longrightarrow> free s \<noteq> {} \<Longrightarrow>
      \<exists>f s'. alloc s = Ret (int f) s' \<and> f \<in> free s \<and> inv s' \<and> free s' = free s - {f} \<and> total s' = total s"
    and release_ok: "inv s \<Longrightarrow> f < total s \<Longrightarrow> f \<notin> free s \<Longrightarrow>
      \<exists>s'. release (int f) s = Ret () s' \<and> inv s' \<and> free s' = insert f (free s) \<and> total s' = total s"
begin

fun alloc_n :: "nat \<Rightarrow> ('s, int list) prog" where
  "alloc_n 0 = ret []"
| "alloc_n (Suc k) = bnd alloc (\<lambda>f. bnd (alloc_n k) (\<lambda>fs. ret (f # fs)))"

fun release_all :: "int list \<Rightarrow> ('s, unit) prog" where
  "release_all [] = ret ()"
| "release_all (f # fs) = thn (release f) (release_all fs)"

lemma finite_free_set: "inv s \<Longrightarrow> finite (free s)"
  using free_sub finite_subset by blast

lemma alloc_n_ok:
  "inv s \<Longrightarrow> k \<le> card (free s) \<Longrightarrow>
   \<exists>fs s'. alloc_n k s = Ret (map int fs) s' \<and> length fs = k \<and> distinct fs \<and> set fs \<subseteq> free s \<and>
     inv s' \<and> free s' = free s - set fs \<and> total s' = total s"
proof (induction k arbitrary: s)
  case 0
  then show ?case by (auto simp: prog_simps)
next
  case (Suc k)
  have ne: "free s \<noteq> {}" using Suc.prems(2) by auto
  from alloc_some [OF Suc.prems(1) ne] obtain f s1 where
    f: "alloc s = Ret (int f) s1" "f \<in> free s" "inv s1" "free s1 = free s - {f}" "total s1 = total s" by blast
  have "k \<le> card (free s1)" using f(2,4) Suc.prems finite_free_set by simp
  from Suc.IH [OF f(3) this] obtain fs s2 where
    fs: "alloc_n k s1 = Ret (map int fs) s2" "length fs = k" "distinct fs" "set fs \<subseteq> free s1"
      "inv s2" "free s2 = free s1 - set fs" "total s2 = total s1" by blast
  have "alloc_n (Suc k) s = Ret (map int (f # fs)) s2"
    using f(1) fs(1) by (simp add: prog_simps)
  moreover have "distinct (f # fs)" "set (f # fs) \<subseteq> free s" "free s2 = free s - set (f # fs)"
    using f fs by auto
  ultimately show ?case using fs f(5) by (intro exI [of _ "f # fs"] exI [of _ s2]) simp
qed

lemma release_all_ok:
  "inv s \<Longrightarrow> distinct fs \<Longrightarrow> set fs \<subseteq> {..<total s} - free s \<Longrightarrow>
   \<exists>s'. release_all (map int fs) s = Ret () s' \<and> inv s' \<and> free s' = set fs \<union> free s \<and> total s' = total s"
proof (induction fs arbitrary: s)
  case Nil
  then show ?case by (auto simp: prog_simps)
next
  case (Cons f fs)
  from release_ok [OF Cons.prems(1), of f] Cons.prems(3) obtain s1 where
    s1: "release (int f) s = Ret () s1" "inv s1" "free s1 = insert f (free s)" "total s1 = total s" by auto
  have "set fs \<subseteq> {..<total s1} - free s1" using Cons.prems(2,3) s1 by auto
  from Cons.IH [OF s1(2) _ this] Cons.prems(2) obtain s2 where
    "release_all (map int fs) s1 = Ret () s2" "inv s2" "free s2 = set fs \<union> free s1" "total s2 = total s1" by auto
  with s1 show ?case by (auto simp: prog_simps)
qed

text \<open>Allocating and giving back leaves the pool as it was.\<close>

lemma alloc_release:
  assumes "inv s" and "k \<le> card (free s)"
  shows "\<exists>fs s'. bnd (alloc_n k) (\<lambda>fs. thn (release_all fs) (ret fs)) s = Ret (map int fs) s' \<and>
    distinct fs \<and> set fs \<subseteq> free s \<and> length fs = k \<and> inv s' \<and> free s' = free s"
proof -
  from alloc_n_ok [OF assms] obtain fs s1 where
    a: "alloc_n k s = Ret (map int fs) s1" "length fs = k" "distinct fs" "set fs \<subseteq> free s"
      "inv s1" "free s1 = free s - set fs" "total s1 = total s" by blast
  have "set fs \<subseteq> {..<total s1} - free s1" using a free_sub [OF assms(1)] by auto
  from release_all_ok [OF a(5,3) this] obtain s2 where
    r: "release_all (map int fs) s1 = Ret () s2" "inv s2" "free s2 = set fs \<union> free s1" by blast
  from a r show ?thesis
    by (intro exI [of _ fs] exI [of _ s2]) (auto simp: prog_simps)
qed

end

interpretation user_frames: frame_allocator frames_wf free_frames nframes
  "allocFrame FRAME_USER owner" freeFrame for owner
proof unfold_locales
  fix m :: kmem and f :: nat
  assume wf: "frames_wf m"
  show "free_frames m \<subseteq> {..<nframes m}" by (auto simp: free_frames_def)
  show "allocFrame FRAME_USER owner m = Ret (-1) m" if "free_frames m = {}"
    using allocFrame_none [OF wf that] .
  show "\<exists>f s'. allocFrame FRAME_USER owner m = Ret (int f) s' \<and> f \<in> free_frames m \<and> frames_wf s' \<and>
      free_frames s' = free_frames m - {f} \<and> nframes s' = nframes m" if ne: "free_frames m \<noteq> {}"
  proof -
    have k: "least_free m \<in> free_frames m" using ne by (rule least_free_in)
    moreover have "frames_wf (take_frame FRAME_USER (least_free m) m)"
      using wf k by (rule frames_wf_take) simp
    moreover have "free_frames (take_frame FRAME_USER (least_free m) m) = free_frames m - {least_free m}"
      using wf by (intro free_take) (simp_all add: frames_wf_def)
    ultimately show ?thesis using allocFrame_some [OF wf ne] by simp
  qed
  show "\<exists>s'. freeFrame (int f) m = Ret () s' \<and> frames_wf s' \<and>
      free_frames s' = insert f (free_frames m) \<and> nframes s' = nframes m"
    if "f < nframes m" "f \<notin> free_frames m"
  proof -
    have "free_frames (give_frame f m) = insert f (free_frames m)"
      using wf that by (intro free_give) (simp_all add: frames_wf_def)
    with wf that frames_wf_give [OF wf that(2,1)] show ?thesis by (simp add: freeFrame_eval)
  qed
qed

section \<open>Copying a frame\<close>

lemma scratch_vpn [simp]: "vpn_of SCRATCH_ADDR_DST = 125" "vpn_of SCRATCH_ADDR_SRC = 124"
  by (simp_all add: vpn_of_div SCRATCH_ADDR_DST_def SCRATCH_ADDR_SRC_def KERNEL_STACK_BASE_def)

lemma scratch_offset:
  assumes "i < 8192"
  shows "vpn_of (SCRATCH_ADDR_DST + of_nat i) = 125" "page_off (SCRATCH_ADDR_DST + of_nat i) = i"
    "vpn_of (SCRATCH_ADDR_SRC + of_nat i) = 124" "page_off (SCRATCH_ADDR_SRC + of_nat i) = i"
  using vpn_offset [OF _ assms, of SCRATCH_ADDR_DST] vpn_offset [OF _ assms, of SCRATCH_ADDR_SRC]
  by (simp_all add: SCRATCH_ADDR_DST_def SCRATCH_ADDR_SRC_def KERNEL_STACK_BASE_def vpn_of_div)

lemma access_eval:
  assumes "vpn_of a = v" and "tlb m v = None \<or> tlb m v = Some e" and "pt_entry m v = Some e"
    and "prot e AND p = p" and "frame_of e < nframes m"
  shows "access p a m = Ret (frame_of e) (m\<lparr>tlb := (tlb m)(v \<mapsto> e)\<rparr>)"
  using assms by (auto simp: access_def translate_def)

text \<open>The first \<open>n\<close> bytes of frame \<open>s\<close> copied over those of frame \<open>d\<close>.\<close>

definition copied :: "nat \<Rightarrow> nat \<Rightarrow> nat \<Rightarrow> (nat \<Rightarrow> nat \<Rightarrow> byte) \<Rightarrow> nat \<Rightarrow> nat \<Rightarrow> byte" where
  "copied n s d ph = ph(d := (\<lambda>k. if k < n then ph s k else ph d k))"

lemma copied_0 [simp]: "copied 0 s d ph = ph"
  by (simp add: copied_def fun_eq_iff)

lemma copied_src: "copied n s d ph s n = ph s n"
  by (simp add: copied_def)

lemma copied_Suc: "(copied n s d ph)(d := (copied n s d ph d)(n := ph s n)) = copied (Suc n) s d ph"
  by (auto simp: copied_def fun_eq_iff)

lemma copied_other: "f \<noteq> d \<Longrightarrow> copied n s d ph f = ph f"
  by (simp add: copied_def)

lemma mem_tlb [simp]: "free_frames (m\<lparr>tlb := x\<rparr>) = free_frames m" "mem_wf (m\<lparr>tlb := x\<rparr>) = mem_wf m"
  by (simp_all add: free_frames_def mem_wf_def frames_wf_def)

lemma kmem_tlb_idem: "m\<lparr>tlb := tlb m\<rparr> = m"
  by simp

lemma memcpy_scratch:
  assumes es: "pt_entry m 124 = Some es" "prot es AND PROT_READ = PROT_READ" "frame_of es < nframes m"
    and ed: "pt_entry m 125 = Some ed" "prot ed AND PROT_WRITE = PROT_WRITE" "frame_of ed < nframes m"
    and clean: "tlb m 124 = None" "tlb m 125 = None"
  shows "\<exists>T. memcpy_v SCRATCH_ADDR_DST SCRATCH_ADDR_SRC PAGESIZE m =
      Ret () (m\<lparr>phys := copied PAGESIZE (frame_of es) (frame_of ed) (phys m), tlb := T\<rparr>) \<and>
      T(124 := None, 125 := None) = tlb m"
proof -
  let ?c = "\<lambda>i. copied i (frame_of es) (frame_of ed) (phys m)"
  let ?P = "\<lambda>i t. \<exists>T. t = m\<lparr>phys := ?c i, tlb := T\<rparr> \<and> T(124 := None, 125 := None) = tlb m \<and>
      (T 124 = None \<or> T 124 = Some es) \<and> (T 125 = None \<or> T 125 = Some ed)"
  have "\<exists>t. memcpy_v SCRATCH_ADDR_DST SCRATCH_ADDR_SRC PAGESIZE m = Ret () t \<and> ?P PAGESIZE t"
    unfolding memcpy_v_def
  proof (rule for_do_rule)
    show "?P 0 m" using clean by (intro exI [of _ "tlb m"]) (auto simp: fun_eq_iff)
  next
    fix i t assume i: "i < PAGESIZE" and "?P i t"
    then obtain T where t: "t = m\<lparr>phys := ?c i, tlb := T\<rparr>" and T: "T(124 := None, 125 := None) = tlb m"
      "T 124 = None \<or> T 124 = Some es" "T 125 = None \<or> T 125 = Some ed" by blast
    note off = scratch_offset [OF i [unfolded PAGESIZE_def, simplified]]
    have l: "load_byte (SCRATCH_ADDR_SRC + of_nat i) t =
        Ret (phys m (frame_of es) i) (m\<lparr>phys := ?c i, tlb := T(124 \<mapsto> es)\<rparr>)"
      unfolding load_byte_def bnd_app
      by (subst access_eval [OF off(3)]) (use es T t off in \<open>auto simp: prog_simps copied_src\<close>)
    let ?t1 = "m\<lparr>phys := ?c i, tlb := T(124 \<mapsto> es)\<rparr>"
    have s: "store_byte (SCRATCH_ADDR_DST + of_nat i) (phys m (frame_of es) i) ?t1 =
        Ret () (m\<lparr>phys := ?c (Suc i), tlb := T(124 \<mapsto> es, 125 \<mapsto> ed)\<rparr>)"
      unfolding store_byte_def bnd_app
      by (subst access_eval [OF off(1)]) (use ed T off in \<open>auto simp: prog_simps copied_Suc\<close>)
    have "?P (Suc i) (m\<lparr>phys := ?c (Suc i), tlb := T(124 \<mapsto> es, 125 \<mapsto> ed)\<rparr>)"
      using T(1) by (intro exI [of _ "T(124 \<mapsto> es, 125 \<mapsto> ed)"]) (auto simp: fun_eq_iff)
    with l s show "\<exists>t'. bnd (load_byte (SCRATCH_ADDR_SRC + of_nat i))
        (store_byte (SCRATCH_ADDR_DST + of_nat i)) t = Ret () t' \<and> ?P (Suc i) t'"
      by (simp add: bnd_app)
  qed simp
  then show ?thesis by blast
qed

definition scratch_ptes :: "int \<Rightarrow> int \<Rightarrow> bool \<Rightarrow> pte list \<Rightarrow> pte list" where
  "scratch_ptes s d v t = t[124 := \<lparr>valid = v, prot = PROT_READ, pfn = to_pfn s\<rparr>,
     125 := \<lparr>valid = v, prot = PROT_READ OR PROT_WRITE, pfn = to_pfn d\<rparr>]"

lemma pte_upd_all [simp]:
  "e\<lparr>pfn := f, prot := p, valid := v\<rparr> = \<lparr>valid = v, prot = p, pfn = f\<rparr>"
  "e\<lparr>pfn := f, valid := v, prot := p\<rparr> = \<lparr>valid = v, prot = p, pfn = f\<rparr>"
  "e\<lparr>valid := v, prot := p, pfn := f\<rparr> = \<lparr>valid = v, prot = p, pfn = f\<rparr>"
  "e\<lparr>valid := v, pfn := f, prot := p\<rparr> = \<lparr>valid = v, prot = p, pfn = f\<rparr>"
  by (rule pte.equality; simp)+

lemma length_scratch_ptes [simp]: "length (scratch_ptes s d v t) = length t"
  by (simp add: scratch_ptes_def)

lemma scratch_ptes_nth:
  "v \<noteq> 124 \<Longrightarrow> v \<noteq> 125 \<Longrightarrow> scratch_ptes s d b t ! v = t ! v"
  by (simp add: scratch_ptes_def)

definition cloned :: "nat \<Rightarrow> nat \<Rightarrow> kmem \<Rightarrow> kmem" where
  "cloned s d m = m\<lparr>phys := copied PAGESIZE s d (phys m),
     pt_region0 := scratch_ptes (int s) (int d) False (pt_region0 m),
     tlb := (tlb m)(124 := None, 125 := None)\<rparr>"

lemma WriteRegister_flush: "vpn_of a < 256 \<Longrightarrow>
  WriteRegister (REG_TLB_FLUSH a) m = Ret () (m\<lparr>tlb := (tlb m)(vpn_of a := None)\<rparr>)"
  by (simp add: WriteRegister_def prog_simps tlb_flush_page)

lemma upd_pte0_eval:
  "v < length (pt_region0 m) \<Longrightarrow>
   upd_pte0 v f m = Ret () (m\<lparr>pt_region0 := (pt_region0 m)[v := f (pt_region0 m ! v)]\<rparr>)"
  by (simp add: upd_pte0_def get_pte0_def prog_simps)

lemma kmem_eqI:
  assumes "phys a = phys b" "tlb a = tlb b" "reg_vm_enable a = reg_vm_enable b" "reg_ptlr0 a = reg_ptlr0 b"
    "reg_ptbr1 a = reg_ptbr1 b" "reg_ptlr1 a = reg_ptlr1 b" "pt_region0 a = pt_region0 b" "pts a = pts b"
    "nframes a = nframes b" "free_nframes a = free_nframes b" "frame_table a = frame_table b"
    "kernel_brk_page a = kernel_brk_page b"
  shows "a = (b :: kmem)"
  using assms by simp

lemma CloneFrame_eval:
  assumes wf: "mem_wf m" and s: "s < nframes m" and d: "d < nframes m"
  shows "CloneFrame (int s) (int d) m = Ret () (cloned s d m)"
proof -
  have len: "length (pt_region0 m) = 128" and nf: "nframes m \<le> 2 ^ 19"
    using wf by (simp_all add: mem_wf_def frames_wf_def MAX_PT_LEN_def)
  define es where "es = \<lparr>valid = True, prot = PROT_READ, pfn = to_pfn (int s)\<rparr>"
  define ed where "ed = \<lparr>valid = True, prot = PROT_READ OR PROT_WRITE, pfn = to_pfn (int d)\<rparr>"
  have f: "frame_of es = s" "frame_of ed = d"
    using s d nf to_pfn_frame [of "int s"] to_pfn_frame [of "int d"]
    by (simp_all add: es_def ed_def frame_of_def)
  define m1 where "m1 = m\<lparr>pt_region0 := scratch_ptes (int s) (int d) True (pt_region0 m),
     tlb := (tlb m)(124 := None, 125 := None)\<rparr>"
  have e: "pt_entry m1 124 = Some es" "pt_entry m1 125 = Some ed"
    by (simp_all add: m1_def pt_entry_def MAX_PT_LEN_def len es_def ed_def scratch_ptes_def)
  have p: "prot es AND PROT_READ = PROT_READ" "prot ed AND PROT_WRITE = PROT_WRITE"
    by (simp_all add: es_def ed_def prot_defs)
  have b: "frame_of es < nframes m1" "frame_of ed < nframes m1" "tlb m1 124 = None" "tlb m1 125 = None"
    using s d by (simp_all add: m1_def f)
  from memcpy_scratch [OF e(1) p(1) b(1) e(2) p(2) b(2,3,4)] obtain T where
    T: "memcpy_v SCRATCH_ADDR_DST SCRATCH_ADDR_SRC PAGESIZE m1 =
        Ret () (m1\<lparr>phys := copied PAGESIZE s d (phys m1), tlb := T\<rparr>)" "T(124 := None, 125 := None) = tlb m1"
    by (auto simp: f)
  have t1: "(tlb m)(124 := None, 125 := None) = tlb m1" by (simp add: m1_def)
  have start: "m\<lparr>pt_region0 := (pt_region0 m)[124 := es, 125 := ed], tlb := (tlb m)(124 := None, 125 := None)\<rparr> = m1"
    by (simp add: m1_def es_def ed_def scratch_ptes_def)
  have "CloneFrame (int s) (int d) m =
    (thn (memcpy_v SCRATCH_ADDR_DST SCRATCH_ADDR_SRC PAGESIZE)
     (thn (upd_pte0 124 (\<lambda>e. e\<lparr>valid := False\<rparr>))
     (thn (upd_pte0 125 (\<lambda>e. e\<lparr>valid := False\<rparr>))
     (thn (WriteRegister (REG_TLB_FLUSH SCRATCH_ADDR_SRC))
          (WriteRegister (REG_TLB_FLUSH SCRATCH_ADDR_DST))))) m1)"
    by (simp add: CloneFrame_def thn_app upd_pte0_eval len WriteRegister_flush
        es_def [symmetric] ed_def [symmetric] start)
  also have "\<dots> = Ret () (cloned s d m)"
    using T(2) unfolding thn_app T(1)
    by (simp add: thn_app upd_pte0_eval len WriteRegister_flush m1_def cloned_def scratch_ptes_def
        list_update_swap)
  finally show ?thesis .
qed

lemma cloned_frame [simp]:
  "nframes (cloned s d m) = nframes m" "free_nframes (cloned s d m) = free_nframes m"
  "frame_table (cloned s d m) = frame_table m" "pts (cloned s d m) = pts m"
  "reg_ptbr1 (cloned s d m) = reg_ptbr1 m" "reg_ptlr1 (cloned s d m) = reg_ptlr1 m"
  "kernel_brk_page (cloned s d m) = kernel_brk_page m"
  "length (pt_region0 (cloned s d m)) = length (pt_region0 m)"
  "tlb (cloned s d m) = (tlb m)(124 := None, 125 := None)"
  "phys (cloned s d m) = copied PAGESIZE s d (phys m)"
  by (simp_all add: cloned_def)

lemma free_frames_cong:
  "frame_table m' = frame_table m \<Longrightarrow> nframes m' = nframes m \<Longrightarrow> free_frames m' = free_frames m"
  by (simp add: free_frames_def)

lemma free_frames_cloned [simp]: "free_frames (cloned s d m) = free_frames m"
  by (rule free_frames_cong) simp_all

lemma free_frames_pts [simp]: "free_frames (m\<lparr>pts := t\<rparr>) = free_frames m"
  by (rule free_frames_cong) simp_all

lemma mem_wf_cloned [simp]: "mem_wf (cloned s d m) = mem_wf m"
  using frames_wf_cong [of "cloned s d m" m] by (simp add: mem_wf_def)

lemma mem_wf_pts [simp]: "mem_wf (m\<lparr>pts := t\<rparr>) = mem_wf m"
  using frames_wf_cong [of "m\<lparr>pts := t\<rparr>" m] by (simp add: mem_wf_def)

lemma mem_wf_take: "mem_wf m \<Longrightarrow> i \<in> free_frames m \<Longrightarrow> u \<noteq> FRAME_FREE \<Longrightarrow> mem_wf (take_frame u i m)"
  by (simp add: mem_wf_def frames_wf_take)

lemma mem_wf_give: "mem_wf m \<Longrightarrow> i \<notin> free_frames m \<Longrightarrow> i < nframes m \<Longrightarrow> mem_wf (give_frame i m)"
  by (simp add: mem_wf_def frames_wf_give)

lemma free_take_wf: "mem_wf m \<Longrightarrow> u \<noteq> FRAME_FREE \<Longrightarrow> free_frames (take_frame u i m) = free_frames m - {i}"
  by (simp add: mem_wf_def frames_wf_def free_take)

lemma get_pte_eval: "t \<noteq> 0 \<Longrightarrow> pts m t = Some es \<Longrightarrow> 0 \<le> i \<Longrightarrow> nat i < length es \<Longrightarrow>
  get_pte t i m = Ret (es ! nat i) m"
  by (simp add: get_pte_def prog_simps)

lemma upd_pte_eval: "t \<noteq> 0 \<Longrightarrow> pts m t = Some es \<Longrightarrow> 0 \<le> i \<Longrightarrow> nat i < length es \<Longrightarrow>
  upd_pte t i f m = Ret () (m\<lparr>pts := (pts m)(t \<mapsto> es[nat i := f (es ! nat i)])\<rparr>)"
  by (simp add: upd_pte_def prog_simps)

section \<open>Copying a page table\<close>

text \<open>
  \<open>page_copied m t e e'\<close>: entry \<open>e'\<close> maps, with the protection of \<open>e\<close>, a frame that was free in
  \<open>m\<close>, is not free in \<open>t\<close>, and holds in \<open>t\<close> the bytes the frame of \<open>e\<close> held in \<open>m\<close>.
\<close>

definition page_copied :: "kmem \<Rightarrow> kmem \<Rightarrow> pte \<Rightarrow> pte \<Rightarrow> bool" where
  "page_copied m t e e' \<longleftrightarrow> valid e' \<and> prot e' = prot e \<and>
     frame_of e' \<in> free_frames m - free_frames t \<and>
     (\<forall>k < PAGESIZE. phys t (frame_of e') k = phys m (frame_of e) k)"

text \<open>The first \<open>n\<close> pages of table \<open>S\<close> have been copied to \<open>D'\<close>, which was \<open>D\<close>.\<close>

definition pages_copied :: "kmem \<Rightarrow> kmem \<Rightarrow> pte list \<Rightarrow> pte list \<Rightarrow> nat \<Rightarrow> pte list \<Rightarrow> bool" where
  "pages_copied m t S D n D' \<longleftrightarrow> length D' = length D \<and>
     (\<forall>j < length D. if j < n \<and> valid (S ! j) then page_copied m t (S ! j) (D' ! j) else D' ! j = D ! j) \<and>
     (\<forall>j l. j < n \<longrightarrow> l < n \<longrightarrow> j \<noteq> l \<longrightarrow> valid (S ! j) \<longrightarrow> valid (S ! l) \<longrightarrow>
        frame_of (D' ! j) \<noteq> frame_of (D' ! l))"

text \<open>A table whose valid entries map frames that exist and are in use.\<close>

definition table_ok :: "kmem \<Rightarrow> pte list \<Rightarrow> bool" where
  "table_ok m S \<longleftrightarrow> length S = MAX_PT_LEN \<and>
     (\<forall>e \<in> set S. valid e \<longrightarrow> frame_of e < nframes m \<and> frame_of e \<notin> free_frames m)"

definition valid_below :: "pte list \<Rightarrow> nat \<Rightarrow> nat set" where
  "valid_below S n = {j. j < n \<and> valid (S ! j)}"

lemma valid_below_Suc:
  "valid_below S (Suc n) = (if valid (S ! n) then insert n (valid_below S n) else valid_below S n)"
  by (auto simp: valid_below_def less_Suc_eq)

lemma valid_below_simps [simp]: "valid_below S 0 = {}" "finite (valid_below S n)" "n \<notin> valid_below S n"
  by (simp_all add: valid_below_def)

definition copy_inv :: "kmem \<Rightarrow> addr \<Rightarrow> pte list \<Rightarrow> pte list \<Rightarrow> nat \<Rightarrow> kmem \<Rightarrow> bool" where
  "copy_inv m pd S D n t \<longleftrightarrow> mem_wf t \<and> nframes t = nframes m \<and>
     free_frames t \<subseteq> free_frames m \<and>
     card (free_frames t) + card (valid_below S n) = card (free_frames m) \<and>
     (\<forall>f. f \<notin> free_frames m \<longrightarrow> phys t f = phys m f) \<and>
     (\<exists>D'. pts t = (pts m)(pd \<mapsto> D') \<and> pages_copied m t S D n D')"

lemma page_copied_step:
  assumes "page_copied m t e e'" and "d \<in> free_frames t" and "mem_wf t"
  shows "page_copied m ((cloned s d (take_frame FRAME_USER d t))\<lparr>pts := T\<rparr>) e e'"
proof -
  have "frame_of e' \<noteq> d" using assms(1,2) by (auto simp: page_copied_def)
  with assms show ?thesis by (simp add: page_copied_def free_take_wf copied_other)
qed

lemma copy_step:
  assumes inv: "copy_inv m pd S D i t" and S: "table_ok m S" "length D = MAX_PT_LEN" and i: "i < MAX_PT_LEN"
    and v: "valid (S ! i)" and D': "pts t = (pts m)(pd \<mapsto> D')" "pages_copied m t S D i D'"
    and d: "d \<in> free_frames t"
  shows "copy_inv m pd S D (Suc i) ((cloned (frame_of (S ! i)) d (take_frame FRAME_USER d t))
     \<lparr>pts := (pts t)(pd \<mapsto> D'[i := \<lparr>valid = True, prot = prot (S ! i), pfn = to_pfn (int d)\<rparr>])\<rparr>)"
    (is "copy_inv _ _ _ _ _ ?t'")
proof -
  let ?e = "\<lparr>valid = True, prot = prot (S ! i), pfn = to_pfn (int d)\<rparr>"
  have wf: "mem_wf t" and nf: "nframes t = nframes m" and sub: "free_frames t \<subseteq> free_frames m"
    and card: "card (free_frames t) + card (valid_below S i) = card (free_frames m)"
    and ph: "\<And>f. f \<notin> free_frames m \<Longrightarrow> phys t f = phys m f"
    using inv by (auto simp: copy_inv_def)
  have dn: "d < nframes m" "nframes m \<le> 2 ^ 19"
    using free_frames_bound [OF d] wf nf by (simp_all add: mem_wf_def frames_wf_def)
  have fe: "frame_of ?e = d" using dn to_pfn_frame [of "int d"] by (simp add: frame_of_def)
  have ei: "S ! i \<in> set S" using S i by (simp add: table_ok_def)
  then have src: "frame_of (S ! i) \<notin> free_frames m" using S v by (auto simp: table_ok_def)
  have free': "free_frames ?t' = free_frames t - {d}" using wf by (simp add: free_take_wf)
  have "card (free_frames t) = Suc (card (free_frames t - {d}))"
    using card_Suc_Diff1 [OF finite_free d] by simp
  then have c: "card (free_frames ?t') + card (valid_below S (Suc i)) = card (free_frames m)"
    unfolding free' using card v by (simp add: valid_below_Suc)
  have other: "phys ?t' f = phys m f" if "f \<notin> free_frames m" for f
  proof -
    from that sub d have "f \<noteq> d" by auto
    with that ph show ?thesis by (simp add: copied_other)
  qed
  have new: "page_copied m ?t' (S ! i) ?e"
    unfolding page_copied_def fe using d sub free' ph [OF src] by (auto simp: copied_def)
  have len: "length D' = MAX_PT_LEN" using D'(2) S(2) by (simp add: pages_copied_def)
  have old: "page_copied m ?t' (S ! j) (D' ! j)" "frame_of (D' ! j) \<noteq> d" if "j < i" "valid (S ! j)" for j
  proof -
    from D'(2) that i S(2) have pc: "page_copied m t (S ! j) (D' ! j)" by (auto simp: pages_copied_def)
    show "page_copied m ?t' (S ! j) (D' ! j)" by (rule page_copied_step [OF pc d wf])
    from pc d show "frame_of (D' ! j) \<noteq> d" by (auto simp: page_copied_def)
  qed
  have rest: "D' ! j = D ! j" if "j < length D" "\<not> (j < i \<and> valid (S ! j))" for j
    using D'(2) that unfolding pages_copied_def by metis
  have inj: "frame_of (D' ! j) \<noteq> frame_of (D' ! l)"
    if "j < i" "l < i" "j \<noteq> l" "valid (S ! j)" "valid (S ! l)" for j l
    using D'(2) that unfolding pages_copied_def by blast
  have "pages_copied m ?t' S D (Suc i) (D'[i := ?e])"
    unfolding pages_copied_def
  proof (intro conjI allI impI)
    fix j assume j: "j < length D"
    show "if j < Suc i \<and> valid (S ! j) then page_copied m ?t' (S ! j) (D'[i := ?e] ! j)
        else D'[i := ?e] ! j = D ! j"
      using j new old(1) [of j] rest [of j] len S(2) i v
      by (cases "j = i") (auto simp: less_Suc_eq simp del: cloned_frame)
  next
    fix j l assume "j < Suc i" "l < Suc i" "j \<noteq> l" "valid (S ! j)" "valid (S ! l)"
    then show "frame_of (D'[i := ?e] ! j) \<noteq> frame_of (D'[i := ?e] ! l)"
      using fe old(2) [of j] old(2) [of l] inj [of j l] len i
      by (cases "j = i"; cases "l = i") (auto simp: less_Suc_eq)
  qed (use len S(2) in simp)
  moreover have "pts ?t' = (pts m)(pd \<mapsto> D'[i := ?e])" using D'(1) by simp
  moreover have "mem_wf ?t'" using wf d by (simp add: mem_wf_take)
  ultimately show ?thesis unfolding copy_inv_def using nf c other sub free' by auto
qed

lemma CopyPT_loop:
  assumes wf: "mem_wf m" and ps: "ps \<noteq> 0" "pts m ps = Some S" "table_ok m S"
    and pd: "pd \<noteq> 0" "pts m pd = Some D" "length D = MAX_PT_LEN" "pd \<noteq> ps"
  shows "if card (valid_below S MAX_PT_LEN) \<le> card (free_frames m)
     then \<exists>t. CopyPT_tables ps pd pid m = Ret SUCCESS t \<and> copy_inv m pd S D MAX_PT_LEN t
     else \<exists>t. CopyPT_tables ps pd pid m = Ret ERROR t \<and> mem_wf t \<and> free_frames t = {} \<and>
       (\<forall>f. f \<notin> free_frames m \<longrightarrow> phys t f = phys m f)"
proof -
  let ?body = "\<lambda>i. bnd (get_pte ps (int i)) (\<lambda>e.
            if valid e
            then bnd (allocFrame FRAME_USER pid) (\<lambda>dst_frame.
              if dst_frame = -1 then ret (Some ERROR)
              else thn (CloneFrame (int (unat (pfn e))) dst_frame)
                  (thn (upd_pte pd (int i) (\<lambda>d. d\<lparr>pfn := to_pfn dst_frame, valid := True, prot := prot e\<rparr>))
                       (ret None)))
            else ret None)"
  let ?Q = "\<lambda>r t. r = ERROR \<and> mem_wf t \<and> free_frames t = {} \<and> (\<forall>f. f \<notin> free_frames m \<longrightarrow> phys t f = phys m f) \<and>
      card (free_frames m) < card (valid_below S MAX_PT_LEN)"
  have start: "copy_inv m pd S D 0 m"
  proof -
    have "pts m = (pts m)(pd \<mapsto> D) \<and> pages_copied m m S D 0 D" using pd by (simp add: pages_copied_def fun_upd_idem)
    with wf show ?thesis unfolding copy_inv_def by auto
  qed
  have "(\<exists>t. for_ret 0 MAX_PT_LEN ?body m = Ret None t \<and> copy_inv m pd S D MAX_PT_LEN t) \<or>
      (\<exists>r t. for_ret 0 MAX_PT_LEN ?body m = Ret (Some r) t \<and> ?Q r t)"
  proof (rule for_ret_rule [where P = "copy_inv m pd S D"])
    show "copy_inv m pd S D 0 m" by (rule start)
  next
    fix i t assume i: "i < MAX_PT_LEN" and inv: "copy_inv m pd S D i t"
    from inv have wft: "mem_wf t" and fwt: "frames_wf t" by (simp_all add: copy_inv_def mem_wf_def)
    from inv obtain D' where D': "pts t = (pts m)(pd \<mapsto> D')" "pages_copied m t S D i D'"
      by (auto simp: copy_inv_def)
    have len: "length S = MAX_PT_LEN" "length D' = MAX_PT_LEN"
      using ps(3) pd(3) D'(2) by (simp_all add: table_ok_def pages_copied_def)
    have S: "pts t ps = Some S" "pts t pd = Some D'" using D' ps pd by simp_all
    have get: "get_pte ps (int i) t = Ret (S ! i) t"
      using get_pte_eval [OF ps(1) S(1), of "int i"] i len by simp
    show "(\<exists>t'. ?body i t = Ret None t' \<and> copy_inv m pd S D (Suc i) t') \<or>
        (\<exists>r t'. ?body i t = Ret (Some r) t' \<and> ?Q r t')"
    proof (cases "valid (S ! i)")
      case False
      then have "copy_inv m pd S D (Suc i) t"
        using inv D' unfolding copy_inv_def pages_copied_def
        by (auto simp: valid_below_Suc less_Suc_eq)
      with get False show ?thesis by (simp add: prog_simps)
    next
      case v: True
      show ?thesis
      proof (cases "free_frames t = {}")
        case True
        have "valid_below S (Suc i) \<subseteq> valid_below S MAX_PT_LEN" using i by (auto simp: valid_below_def)
        then have "card (valid_below S (Suc i)) \<le> card (valid_below S MAX_PT_LEN)" by (simp add: card_mono)
        then have "card (free_frames m) < card (valid_below S MAX_PT_LEN)"
          using inv True v by (simp add: copy_inv_def valid_below_Suc)
        with True inv get v allocFrame_none [OF fwt True] show ?thesis
          by (auto simp: prog_simps copy_inv_def)
      next
        case False
        let ?d = "least_free t"
        have d: "?d \<in> free_frames t" using False by (rule least_free_in)
        have ei: "frame_of (S ! i) < nframes t"
          using ps(3) v i inv by (auto simp: table_ok_def copy_inv_def)
        have "CloneFrame (int (unat (pfn (S ! i)))) (int ?d) (take_frame FRAME_USER ?d t) =
            Ret () (cloned (frame_of (S ! i)) ?d (take_frame FRAME_USER ?d t))"
          using CloneFrame_eval [OF mem_wf_take [OF wft d], of FRAME_USER "frame_of (S ! i)" ?d] ei
            free_frames_bound [OF d] by (simp add: frame_of_def)
        with get v allocFrame_some [OF fwt False, of FRAME_USER pid]
          upd_pte_eval [OF pd(1), of "cloned (frame_of (S ! i)) ?d (take_frame FRAME_USER ?d t)" D' "int i"]
          copy_step [OF inv ps(3) pd(3) i v D' d] S(2) len i
        show ?thesis by (simp add: prog_simps)
      qed
    qed
  qed simp
  then show ?thesis
    by (auto simp: CopyPT_tables_def prog_simps code_defs copy_inv_def)
qed

section \<open>Mapping fresh frames\<close>

text \<open>
  \<open>fresh_pages F F' T T' V p\<close>: table \<open>T'\<close> is \<open>T\<close> except that each page of \<open>V\<close> maps, with
  protection \<open>p\<close>, a frame of its own that was in the pool \<open>F\<close> and is not in the pool \<open>F'\<close>.
  It is what every loop that maps newly allocated frames establishes.
\<close>

definition fresh_pages :: "nat set \<Rightarrow> nat set \<Rightarrow> pte list \<Rightarrow> pte list \<Rightarrow> nat set \<Rightarrow> prot \<Rightarrow> bool" where
  "fresh_pages F F' T T' V p \<longleftrightarrow> length T' = length T \<and> V \<subseteq> {..<length T} \<and> F' \<subseteq> F \<and>
     card F' + card V = card F \<and>
     (\<forall>v < length T. if v \<in> V then valid (T' ! v) \<and> prot (T' ! v) = p \<and> frame_of (T' ! v) \<in> F - F'
                    else T' ! v = T ! v) \<and>
     inj_on (\<lambda>v. frame_of (T' ! v)) V"

lemma fresh_pages_empty [simp]: "fresh_pages F F T T {} p"
  by (simp add: fresh_pages_def)

lemma fresh_pages_step:
  assumes fp: "fresh_pages F F' T T' V p" and n: "n < length T" "n \<notin> V"
    and d: "d \<in> F'" "d < 2 ^ 24" and fin: "finite F"
  shows "fresh_pages F (F' - {d}) T (T'[n := \<lparr>valid = True, prot = p, pfn = to_pfn (int d)\<rparr>]) (insert n V) p"
proof -
  let ?e = "\<lparr>valid = True, prot = p, pfn = to_pfn (int d)\<rparr>"
  have fe: "frame_of ?e = d" using d to_pfn_frame [of "int d"] by (simp add: frame_of_def)
  have len: "length T' = length T" and V: "V \<subseteq> {..<length T}" and sub: "F' \<subseteq> F"
    and card: "card F' + card V = card F" and inj: "inj_on (\<lambda>v. frame_of (T' ! v)) V"
    and at: "\<And>v. v \<in> V \<Longrightarrow> valid (T' ! v) \<and> prot (T' ! v) = p \<and> frame_of (T' ! v) \<in> F - F'"
    and out: "\<And>v. v < length T \<Longrightarrow> v \<notin> V \<Longrightarrow> T' ! v = T ! v"
    using fp by (auto simp: fresh_pages_def)
  have "finite F'" "finite V" using fin sub V finite_subset by blast+
  then have c: "card (F' - {d}) + card (insert n V) = card F"
    using card n(2) card_Suc_Diff1 [of F' d] d by simp
  have "inj_on (\<lambda>v. frame_of (T'[n := ?e] ! v)) (insert n V)"
    unfolding inj_on_def
  proof (intro ballI impI)
    fix x y assume xy: "x \<in> insert n V" "y \<in> insert n V" "frame_of (T'[n := ?e] ! x) = frame_of (T'[n := ?e] ! y)"
    have dv: "frame_of (T' ! v) \<noteq> d" if "v \<in> V" for v using at [OF that] d by auto
    show "x = y"
      using xy dv [of x] dv [of y] inj n len fe
      by (cases "x = n"; cases "y = n") (auto dest: inj_onD)
  qed
  moreover have "\<forall>v < length T. if v \<in> insert n V then valid (T'[n := ?e] ! v) \<and> prot (T'[n := ?e] ! v) = p \<and>
        frame_of (T'[n := ?e] ! v) \<in> F - (F' - {d})
      else T'[n := ?e] ! v = T ! v"
  proof (intro allI impI)
    fix v assume "v < length T"
    then show "if v \<in> insert n V then valid (T'[n := ?e] ! v) \<and> prot (T'[n := ?e] ! v) = p \<and>
        frame_of (T'[n := ?e] ! v) \<in> F - (F' - {d})
      else T'[n := ?e] ! v = T ! v"
      using at [of v] out [of v] fe n d sub len by (cases "v = n") auto
  qed
  moreover have "length (T'[n := ?e]) = length T" "insert n V \<subseteq> {..<length T}" "F' - {d} \<subseteq> F"
    using len V n sub by auto
  ultimately show ?thesis unfolding fresh_pages_def using c by blast
qed

lemma fresh_pages_page:
  "fresh_pages F F' T T' V p \<Longrightarrow> v \<in> V \<Longrightarrow> valid (T' ! v) \<and> prot (T' ! v) = p \<and> frame_of (T' ! v) \<in> F - F'"
  unfolding fresh_pages_def by auto

lemma fresh_pages_other:
  "fresh_pages F F' T T' V p \<Longrightarrow> v \<notin> V \<Longrightarrow> v < length T \<Longrightarrow> T' ! v = T ! v"
  unfolding fresh_pages_def by auto

section \<open>The kernel break\<close>

definition grow_inv :: "kmem \<Rightarrow> nat \<Rightarrow> nat \<Rightarrow> kmem \<Rightarrow> bool" where
  "grow_inv m a n t \<longleftrightarrow> mem_wf t \<and>
     t = m\<lparr>frame_table := frame_table t, free_nframes := free_nframes t, pt_region0 := pt_region0 t\<rparr> \<and>
     fresh_pages (free_frames m) (free_frames t) (pt_region0 m) (pt_region0 t) {a..<n} (PROT_READ OR PROT_WRITE)"

lemma free_frames_region0 [simp]: "free_frames (m\<lparr>pt_region0 := t\<rparr>) = free_frames m"
  by (rule free_frames_cong) simp_all

lemma mem_wf_region0: "mem_wf m \<Longrightarrow> length t = MAX_PT_LEN \<Longrightarrow> mem_wf (m\<lparr>pt_region0 := t\<rparr>)"
  using frames_wf_cong [of "m\<lparr>pt_region0 := t\<rparr>" m] by (simp add: mem_wf_def)

lemma grow_step:
  assumes inv: "grow_inv m a n t" and n: "n < MAX_PT_LEN" "a \<le> n" and d: "d \<in> free_frames t"
  shows "grow_inv m a (Suc n) ((take_frame FRAME_KERNEL d t)
    \<lparr>pt_region0 := (pt_region0 t)[n := \<lparr>valid = True, prot = PROT_READ OR PROT_WRITE, pfn = to_pfn (int d)\<rparr>]\<rparr>)"
    (is "grow_inv m a (Suc n) ?t'")
proof -
  have wf: "mem_wf t" and fp: "fresh_pages (free_frames m) (free_frames t) (pt_region0 m) (pt_region0 t) {a..<n}
      (PROT_READ OR PROT_WRITE)"
    and eq: "t = m\<lparr>frame_table := frame_table t, free_nframes := free_nframes t, pt_region0 := pt_region0 t\<rparr>"
    using inv unfolding grow_inv_def by blast+
  have len: "length (pt_region0 t) = MAX_PT_LEN" "length (pt_region0 m) = MAX_PT_LEN"
    using wf fp by (simp_all add: mem_wf_def fresh_pages_def)
  have d24: "d < 2 ^ 24" using free_frames_bound [OF d] wf by (simp add: mem_wf_def frames_wf_def)
  have ins: "insert n {a..<n} = {a..<Suc n}" using n by auto
  have "mem_wf ?t'" using wf d len by (intro mem_wf_region0 mem_wf_take) simp_all
  moreover have "?t' = m\<lparr>frame_table := frame_table ?t', free_nframes := free_nframes ?t', pt_region0 := pt_region0 ?t'\<rparr>"
    by (subst eq) (simp add: take_frame_def)
  moreover have "fresh_pages (free_frames m) (free_frames ?t') (pt_region0 m) (pt_region0 ?t') {a..<Suc n}
      (PROT_READ OR PROT_WRITE)"
    using fresh_pages_step [OF fp _ _ d d24, of n] n len ins wf by (simp add: free_take_wf)
  ultimately show ?thesis unfolding grow_inv_def by blast
qed

lemma MapRegion0_eval:
  assumes "mem_wf m" and "v < MAX_PT_LEN"
  shows "MapRegion0 v f m = Ret () (m\<lparr>pt_region0 := (pt_region0 m)
    [v := \<lparr>valid = True, prot = PROT_READ OR PROT_WRITE, pfn = to_pfn f\<rparr>]\<rparr>)"
  using assms by (simp add: MapRegion0_def vpn_in_region0_def upd_pte0_eval mem_wf_def)

lemma SetKernelBrk_grow_ok:
  "grow_inv m a n t \<Longrightarrow> a \<le> n \<Longrightarrow> n + k = target \<Longrightarrow> target \<le> MAX_PT_LEN \<Longrightarrow>
   if k \<le> card (free_frames t)
   then \<exists>t'. SetKernelBrk_grow k n target t = Ret True t' \<and> grow_inv m a target t'
   else \<exists>t'. SetKernelBrk_grow k n target t = Ret False t' \<and> free_frames t' = {} \<and> mem_wf t' \<and>
     kernel_brk_page t' = kernel_brk_page m"
proof (induction k arbitrary: n t)
  case 0
  then show ?case by (simp add: prog_simps)
next
  case (Suc k)
  have wf: "mem_wf t" and fw: "frames_wf t" using Suc.prems(1) by (simp_all add: grow_inv_def mem_wf_def)
  have n: "n < target" "n < MAX_PT_LEN" using Suc.prems by simp_all
  show ?case
  proof (cases "free_frames t = {}")
    case True
    have "kernel_brk_page t = kernel_brk_page m"
      using Suc.prems(1) unfolding grow_inv_def by (metis kmem.select_convs(12) kmem.surjective kmem.update_convs(7,10,11))
    with True allocFrame_none [OF fw True] n wf show ?thesis by (simp add: prog_simps)
  next
    case False
    let ?d = "least_free t"
    let ?t = "(take_frame FRAME_KERNEL ?d t)\<lparr>pt_region0 := (pt_region0 t)
      [n := \<lparr>valid = True, prot = PROT_READ OR PROT_WRITE, pfn = to_pfn (int ?d)\<rparr>]\<rparr>"
    have d: "?d \<in> free_frames t" using False by (rule least_free_in)
    have "SetKernelBrk_grow (Suc k) n target t = SetKernelBrk_grow k (Suc n) target ?t"
      using n allocFrame_some [OF fw False, of FRAME_KERNEL "-1"]
        MapRegion0_eval [OF mem_wf_take [OF wf d] n(2), of FRAME_KERNEL]
      by (simp add: prog_simps)
    moreover have "card (free_frames t) = Suc (card (free_frames ?t))"
      using card_Suc_Diff1 [OF finite_free d] wf by (simp add: free_take_wf)
    moreover have "grow_inv m a (Suc n) ?t"
      using Suc.prems(1) n(2) Suc.prems(2) d by (rule grow_step)
    ultimately show ?thesis using Suc.IH [of "Suc n" ?t] Suc.prems by simp
  qed
qed

definition mapped :: "pte list \<Rightarrow> nat \<Rightarrow> nat \<Rightarrow> nat set" where
  "mapped T a n = {v. a \<le> v \<and> v < n \<and> valid (T ! v)}"

definition unmapped :: "pte list \<Rightarrow> nat \<Rightarrow> nat \<Rightarrow> pte list" where
  "unmapped T a n = map (\<lambda>v. if v \<in> mapped T a n then pte0 else T ! v) [0..<length T]"

lemma mapped_Suc: "a \<le> n \<Longrightarrow>
  mapped T a (Suc n) = (if valid (T ! n) then insert n (mapped T a n) else mapped T a n)"
  by (auto simp: mapped_def less_Suc_eq)

lemma mapped_empty [simp]: "n \<le> a \<Longrightarrow> mapped T a n = {}"
  by (auto simp: mapped_def)

lemma unmapped_empty: "n \<le> a \<Longrightarrow> unmapped T a n = T"
  by (simp add: unmapped_def map_nth)

lemma mapped_update [simp]: "mapped (T[n := e]) a n = mapped T a n"
  by (auto simp: mapped_def)

lemma unmapped_Suc: "a \<le> n \<Longrightarrow> n < length T \<Longrightarrow> valid (T ! n) \<Longrightarrow>
  unmapped (T[n := pte0]) a n = unmapped T a (Suc n)"
  by (rule nth_equalityI) (auto simp: unmapped_def mapped_Suc nth_list_update mapped_def)

lemma UnmapRegion0_eval:
  assumes "mem_wf m" and "v < MAX_PT_LEN"
  shows "UnmapRegion0 v m = Ret () (m\<lparr>pt_region0 := (pt_region0 m)[v := pte0]\<rparr>)"
  using assms by (simp add: UnmapRegion0_def vpn_in_region0_def upd_pte0_eval mem_wf_def pte0_def)

text \<open>The flush that is meant for page \<open>v\<close> is given the number \<open>v\<close>: it flushes page 0.\<close>

lemma flush_of_vpn:
  assumes "v < 8192"
  shows "WriteRegister (REG_TLB_FLUSH (of_nat v)) m = Ret () (m\<lparr>tlb := (tlb m)(0 := None)\<rparr>)"
proof -
  have "vpn_of (of_nat v) = 0" using assms by (simp add: vpn_of_div unat_of_nat)
  then show ?thesis using WriteRegister_flush [of "of_nat v" m] by simp
qed

definition shrink_ok :: "kmem \<Rightarrow> nat \<Rightarrow> nat \<Rightarrow> bool" where
  "shrink_ok t a n \<longleftrightarrow> (\<forall>v \<in> mapped (pt_region0 t) a n.
       frame_of (pt_region0 t ! v) < nframes t \<and> frame_of (pt_region0 t ! v) \<notin> free_frames t) \<and>
     inj_on (\<lambda>v. frame_of (pt_region0 t ! v)) (mapped (pt_region0 t) a n)"

lemma shrink_ok_step:
  assumes wf: "mem_wf t" and ok: "shrink_ok t a (Suc n)" and n: "a \<le> n" "n < MAX_PT_LEN"
    and v: "valid (pt_region0 t ! n)"
  shows "shrink_ok ((give_frame (frame_of (pt_region0 t ! n)) t)
    \<lparr>pt_region0 := (pt_region0 t)[n := pte0], tlb := T\<rparr>) a n"
proof -
  let ?f = "\<lambda>v. frame_of (pt_region0 t ! v)"
  have ins: "mapped (pt_region0 t) a (Suc n) = insert n (mapped (pt_region0 t) a n)"
    using n v by (simp add: mapped_Suc)
  have nin: "n \<notin> mapped (pt_region0 t) a n" by (simp add: mapped_def)
  have fr: "?f v < nframes t" "?f v \<notin> free_frames t" "?f v \<noteq> ?f n" "n \<noteq> v"
    if "v \<in> mapped (pt_region0 t) a n" for v
  proof -
    from ok that show "?f v < nframes t" "?f v \<notin> free_frames t" unfolding shrink_ok_def ins by blast+
    from that nin show ne: "n \<noteq> v" by blast
    from ok have "inj_on ?f (insert n (mapped (pt_region0 t) a n))" unfolding shrink_ok_def ins by blast
    from inj_onD [OF this, of v n] ne that show "?f v \<noteq> ?f n" by blast
  qed
  have give: "free_frames (give_frame (?f n) t) = insert (?f n) (free_frames t)"
    using wf ok unfolding shrink_ok_def ins by (intro free_give) (auto simp: mem_wf_def frames_wf_def)
  have "free_frames ((give_frame (?f n) t)\<lparr>pt_region0 := (pt_region0 t)[n := pte0], tlb := T\<rparr>) =
      insert (?f n) (free_frames t)"
    using free_frames_cong [of "(give_frame (?f n) t)\<lparr>pt_region0 := (pt_region0 t)[n := pte0], tlb := T\<rparr>"
        "give_frame (?f n) t"] give by simp
  moreover have "inj_on ?f (mapped (pt_region0 t) a n)"
    using ok unfolding shrink_ok_def ins by (simp add: inj_on_insert)
  then have "inj_on (\<lambda>v. frame_of ((pt_region0 t)[n := pte0] ! v)) (mapped (pt_region0 t) a n)"
    using fr(4) inj_on_cong [of "mapped (pt_region0 t) a n" "\<lambda>v. frame_of ((pt_region0 t)[n := pte0] ! v)" ?f]
    by (metis nth_list_update_neq)
  moreover have "frame_of ((pt_region0 t)[n := pte0] ! v) = ?f v" if "v \<in> mapped (pt_region0 t) a n" for v
    using fr(4) [OF that] by simp
  ultimately show ?thesis using fr(1-3) unfolding shrink_ok_def by simp
qed

lemma SetKernelBrk_shrink_ok:
  "mem_wf t \<Longrightarrow> n \<le> MAX_PT_LEN \<Longrightarrow> shrink_ok t a n \<Longrightarrow>
   \<exists>t'. SetKernelBrk_shrink n a t = Ret True t' \<and> mem_wf t' \<and>
     pt_region0 t' = unmapped (pt_region0 t) a n \<and>
     free_frames t' = free_frames t \<union> (\<lambda>v. frame_of (pt_region0 t ! v)) ` mapped (pt_region0 t) a n \<and>
     kernel_brk_page t' = kernel_brk_page t \<and> nframes t' = nframes t \<and> phys t' = phys t \<and> pts t' = pts t \<and>
     (\<forall>v. v \<noteq> 0 \<longrightarrow> tlb t' v = tlb t v)"
proof (induction n arbitrary: t)
  case 0
  then show ?case by (simp add: prog_simps unmapped_empty)
next
  case (Suc n)
  let ?T = "pt_region0 t"
  have n: "n < MAX_PT_LEN" "n < length ?T" using Suc.prems by (simp_all add: mem_wf_def)
  consider "Suc n \<le> a" | "a \<le> n" "\<not> valid (?T ! n)" | "a \<le> n" "valid (?T ! n)" by linarith
  then show ?case
  proof cases
    case 1
    with Suc.prems show ?thesis by (simp add: prog_simps unmapped_empty)
  next
    case 2
    then have m: "mapped ?T a (Suc n) = mapped ?T a n" by (simp add: mapped_Suc)
    then have "shrink_ok t a n" "unmapped ?T a (Suc n) = unmapped ?T a n"
      using Suc.prems(3) by (simp_all add: shrink_ok_def unmapped_def)
    moreover have "SetKernelBrk_shrink (Suc n) a t = SetKernelBrk_shrink n a t"
      using 2 n by (simp add: prog_simps vpn_in_region0_def get_pte0_def)
    ultimately show ?thesis using Suc.IH [OF Suc.prems(1)] n m by simp
  next
    case 3
    let ?f = "frame_of (?T ! n)"
    let ?t1 = "(give_frame ?f t)\<lparr>pt_region0 := ?T[n := pte0], tlb := (tlb t)(0 := None)\<rparr>"
    have ins: "mapped ?T a (Suc n) = insert n (mapped ?T a n)" using 3 by (simp add: mapped_Suc)
    have f: "?f < nframes t" "?f \<notin> free_frames t" using Suc.prems(3) unfolding shrink_ok_def ins by auto
    let ?u = "t\<lparr>pt_region0 := ?T[n := pte0], tlb := (tlb t)(0 := None)\<rparr>"
    have fw: "frames_wf ?u" using Suc.prems(1) frames_wf_cong [of ?u t] by (simp add: mem_wf_def)
    have eq: "give_frame ?f ?u = ?t1" by (simp add: give_frame_def)
    have ff: "freeFrame (int (unat (pfn (?T ! n)))) ?u = Ret () ?t1"
      unfolding frame_of_def [symmetric] freeFrame_eval [OF fw] using f(1) eq by simp
    have "SetKernelBrk_shrink (Suc n) a t = SetKernelBrk_shrink n a ?t1"
      using 3 n Suc.prems(1) ff flush_of_vpn [of n]
      by (simp add: prog_simps vpn_in_region0_def get_pte0_def UnmapRegion0_eval MAX_PT_LEN_def)
    moreover have wf1: "mem_wf ?t1"
      using mem_wf_give [OF Suc.prems(1) f(2,1)] frames_wf_cong [of ?t1 "give_frame ?f t"]
        Suc.prems(1) by (simp add: mem_wf_def)
    moreover have "free_frames ?t1 = insert ?f (free_frames t)"
      using free_frames_cong [of ?t1 "give_frame ?f t"] free_give [of t ?f] Suc.prems(1) f(1)
      by (simp add: mem_wf_def frames_wf_def)
    moreover have "(\<lambda>v. frame_of (?T[n := pte0] ! v)) ` mapped ?T a n = (\<lambda>v. frame_of (?T ! v)) ` mapped ?T a n"
      by (rule image_cong) (auto simp: mapped_def)
    moreover note unmapped_Suc [OF 3(1) n(2) 3(2)]
    moreover obtain t' where "SetKernelBrk_shrink n a ?t1 = Ret True t'" "mem_wf t'"
      "pt_region0 t' = unmapped (pt_region0 ?t1) a n"
      "free_frames t' = free_frames ?t1 \<union> (\<lambda>v. frame_of (pt_region0 ?t1 ! v)) ` mapped (pt_region0 ?t1) a n"
      "kernel_brk_page t' = kernel_brk_page ?t1" "nframes t' = nframes ?t1" "phys t' = phys ?t1" "pts t' = pts ?t1"
      "\<forall>v. v \<noteq> 0 \<longrightarrow> tlb t' v = tlb ?t1 v"
      using Suc.IH [OF wf1 _ shrink_ok_step [OF Suc.prems(1,3) 3(1) n(1) 3(2)]] n(1)
      by (metis Suc.prems(2) Suc_leD)
    ultimately show ?thesis unfolding ins by simp
  qed
qed

text \<open>The whole call, when the break moves up and when it moves down.\<close>

lemma SetKernelBrk_target:
  assumes "unat a + 8191 < 2 ^ 32"
  shows "vpn_of (UP_TO_PAGE a) = (unat a + 8191) div 8192" "vpn_of (DOWN_TO_PAGE KERNEL_STACK_BASE) = 126"
  using vpn_UP_TO_PAGE [OF assms] by (simp_all add: vpn_DOWN_TO_PAGE) (simp add: vpn_of_div KERNEL_STACK_BASE_def)

lemma SetKernelBrk_shrink_same: "SetKernelBrk_shrink n n t = Ret True t"
  by (cases n) (simp_all add: prog_simps)

lemma SetKernelBrk_up:
  assumes wf: "mem_wf m" and a: "a \<noteq> 0" "unat a + 8191 < 2 ^ 32" "(unat a + 8191) div 8192 = n" "n < 126"
    and up: "kernel_brk_page m \<le> n"
  shows "if n - kernel_brk_page m \<le> card (free_frames m)
    then \<exists>t. SetKernelBrk a m = Ret 0 (t\<lparr>kernel_brk_page := n\<rparr>) \<and> grow_inv m (kernel_brk_page m) n t
    else \<exists>t. SetKernelBrk a m = Ret (-1) t \<and> free_frames t = {} \<and> mem_wf t \<and>
      kernel_brk_page t = kernel_brk_page m"
proof -
  have start: "grow_inv m (kernel_brk_page m) (kernel_brk_page m) m"
    using wf by (simp add: grow_inv_def)
  from SetKernelBrk_grow_ok [OF start, of "n - kernel_brk_page m" n] up a(4) SetKernelBrk_target [OF a(2)] a
  show ?thesis
    by (auto simp: SetKernelBrk_def prog_simps SetKernelBrk_shrink_same MAX_PT_LEN_def max_def split: if_splits)
qed

lemma SetKernelBrk_down:
  assumes wf: "mem_wf m" and a: "a \<noteq> 0" "unat a + 8191 < 2 ^ 32" "(unat a + 8191) div 8192 = n" "n < 126"
    and down: "n \<le> kernel_brk_page m" "kernel_brk_page m \<le> MAX_PT_LEN"
    and ok: "shrink_ok m n (kernel_brk_page m)"
  shows "\<exists>t. SetKernelBrk a m = Ret 0 (t\<lparr>kernel_brk_page := n\<rparr>) \<and> mem_wf t \<and>
     pt_region0 t = unmapped (pt_region0 m) n (kernel_brk_page m) \<and>
     free_frames t = free_frames m \<union>
       (\<lambda>v. frame_of (pt_region0 m ! v)) ` mapped (pt_region0 m) n (kernel_brk_page m) \<and>
     nframes t = nframes m \<and> phys t = phys m \<and> pts t = pts m \<and> (\<forall>v. v \<noteq> 0 \<longrightarrow> tlb t v = tlb m v)"
proof -
  have "SetKernelBrk_grow (n - kernel_brk_page m) (kernel_brk_page m) n m = Ret True m"
    using down by (simp add: prog_simps)
  moreover have "max (kernel_brk_page m) n = kernel_brk_page m" using down by simp
  ultimately show ?thesis
    using SetKernelBrk_shrink_ok [OF wf down(2) ok] SetKernelBrk_target [OF a(2)] a
    by (auto simp: SetKernelBrk_def prog_simps)
qed

text \<open>What growing mapped, shrinking can release.\<close>

lemma grow_shrink_ok:
  assumes g: "grow_inv m a n t" and "a \<le> n" and wf: "mem_wf m"
  shows "shrink_ok t a n" "mapped (pt_region0 t) a n = {a..<n}"
    "(\<lambda>v. frame_of (pt_region0 t ! v)) ` {a..<n} = free_frames m - free_frames t"
proof -
  let ?f = "\<lambda>v. frame_of (pt_region0 t ! v)"
  have fp: "fresh_pages (free_frames m) (free_frames t) (pt_region0 m) (pt_region0 t) {a..<n} (PROT_READ OR PROT_WRITE)"
    and eq: "t = m\<lparr>frame_table := frame_table t, free_nframes := free_nframes t, pt_region0 := pt_region0 t\<rparr>"
    using g unfolding grow_inv_def by blast+
  have nf: "nframes t = nframes m" by (subst eq) simp
  note page = fresh_pages_page [OF fp]
  show mp: "mapped (pt_region0 t) a n = {a..<n}" using page by (auto simp: mapped_def)
  have inj: "inj_on ?f {a..<n}" and card: "card (free_frames t) + card {a..<n} = card (free_frames m)"
    and sub: "free_frames t \<subseteq> free_frames m"
    using fp by (simp_all add: fresh_pages_def)
  have img: "?f ` {a..<n} \<subseteq> free_frames m - free_frames t" using page by auto
  have "?f v < nframes t" "?f v \<notin> free_frames t" if "v \<in> {a..<n}" for v
    using page [OF that] nf free_frames_bound [of "?f v" m] by auto
  then show "shrink_ok t a n" unfolding shrink_ok_def mp using inj by blast
  have "card (?f ` {a..<n}) = card (free_frames m - free_frames t)"
    using card_image [OF inj] card card_Diff_subset [OF finite_free sub] by simp
  then show "?f ` {a..<n} = free_frames m - free_frames t"
    using img by (intro card_subset_eq) simp_all
qed

section \<open>A memory for the witnesses\<close>

text \<open>\<open>u\<close> frames in use, then \<open>f\<close> free ones; empty page tables.\<close>

definition fd_ex :: "frame_usage_t \<Rightarrow> frame_desc_t" where
  "fd_ex us = \<lparr>fd_pfn = 0, usage = us, owner_pid = -1, last_used_tick = 0\<rparr>"

definition mem_ex :: "nat \<Rightarrow> nat \<Rightarrow> kmem" where
  "mem_ex u f = \<lparr>phys = (\<lambda>fr k. of_nat (fr + k)), tlb = (\<lambda>_. None), reg_vm_enable = True,
     reg_ptlr0 = MAX_PT_LEN, reg_ptbr1 = 0, reg_ptlr1 = MAX_PT_LEN, pt_region0 = replicate MAX_PT_LEN pte0,
     pts = Map.empty, nframes = u + f, free_nframes = int f,
     frame_table = replicate u (fd_ex FRAME_KERNEL) @ replicate f (fd_ex FRAME_FREE), kernel_brk_page = 4\<rparr>"

lemma mem_ex_free [simp]: "free_frames (mem_ex u f) = {u..<u + f}"
  by (auto simp: free_frames_def mem_ex_def fd_ex_def nth_append)

lemma mem_ex_wf [simp]: "u + f \<le> 2 ^ 19 \<Longrightarrow> mem_wf (mem_ex u f)" "u + f \<le> 2 ^ 19 \<Longrightarrow> frames_wf (mem_ex u f)"
  by (simp_all add: mem_wf_def frames_wf_def) (simp_all add: mem_ex_def)

lemma mem_ex_fields [simp]:
  "nframes (mem_ex u f) = u + f" "kernel_brk_page (mem_ex u f) = 4" "pts (mem_ex u f) = Map.empty"
  "pt_region0 (mem_ex u f) = replicate MAX_PT_LEN pte0" "tlb (mem_ex u f) = (\<lambda>_. None)"
  "phys (mem_ex u f) = (\<lambda>fr k. of_nat (fr + k))" "frame_table (mem_ex u f) = replicate u (fd_ex FRAME_KERNEL) @ replicate f (fd_ex FRAME_FREE)"
  by (simp_all add: mem_ex_def)

section \<open>Properties of the memory component\<close>

text \<open>
  \<^verbatim>\<open>allocFrame\<close> returns the lowest free frame and takes exactly that frame out of the pool,
  counter included, or returns -1 and changes nothing when (and only when) no frame is free; the
  invariant of the frame table is kept.
\<close>

theorem allocFrame_lowest:
  assumes "frames_wf m" and "u \<noteq> FRAME_FREE"
  shows "if free_frames m = {} then allocFrame u owner m = Ret (-1) m
    else \<exists>t. allocFrame u owner m = Ret (int (Min (free_frames m))) t \<and> frames_wf t \<and>
      free_frames t = free_frames m - {Min (free_frames m)} \<and> free_nframes t = free_nframes m - 1 \<and>
      t = m\<lparr>frame_table := frame_table t, free_nframes := free_nframes t\<rparr>"
proof (cases "free_frames m = {}")
  case True
  with assms show ?thesis by (simp add: allocFrame_none)
next
  case False
  let ?t = "take_frame u (Min (free_frames m)) m"
  have "allocFrame u owner m = Ret (int (Min (free_frames m))) ?t"
    using allocFrame_some [OF assms(1) False] by (simp add: least_free_def)
  moreover have "frames_wf ?t"
    using assms False by (intro frames_wf_take) simp_all
  moreover have "free_frames ?t = free_frames m - {Min (free_frames m)}"
    using assms by (intro free_take) (simp_all add: frames_wf_def)
  moreover have "?t = m\<lparr>frame_table := frame_table ?t, free_nframes := free_nframes ?t\<rparr>"
    by (simp add: take_frame_def)
  ultimately show ?thesis using False by auto
qed

theorem allocFrame_lowest_witness:
  "\<exists>t. allocFrame FRAME_USER 7 (mem_ex 3 2) = Ret 3 t \<and> free_nframes t = 1"
proof -
  have fr: "{3..<5} = {3, 4 :: nat}" by auto
  from allocFrame_lowest [of "mem_ex 3 2" FRAME_USER 7] show ?thesis
    by (auto simp: fr) (simp add: mem_ex_def)
qed

text \<open>
  Allocating any number of frames the pool can supply gives pairwise distinct frames of the
  pool, and freeing them restores the pool and the counter.
\<close>

theorem frames_roundtrip:
  assumes "frames_wf m" and "k \<le> card (free_frames m)"
  shows "\<exists>fs t. bnd (frame_allocator.alloc_n (allocFrame FRAME_USER owner) k)
      (\<lambda>fs. thn (frame_allocator.release_all freeFrame fs) (ret fs)) m = Ret (map int fs) t \<and>
    distinct fs \<and> set fs \<subseteq> free_frames m \<and> length fs = k \<and> frames_wf t \<and> free_frames t = free_frames m"
  using user_frames.alloc_release [OF assms] .

theorem frames_roundtrip_witness:
  "\<exists>fs t. bnd (frame_allocator.alloc_n (allocFrame FRAME_USER 1) 2)
      (\<lambda>fs. thn (frame_allocator.release_all freeFrame fs) (ret fs)) (mem_ex 3 2) = Ret (map int fs) t \<and>
    length fs = 2 \<and> free_frames t = {3..<5}"
  using frames_roundtrip [of "mem_ex 3 2" 2 1] by auto

text \<open>
  \<^verbatim>\<open>CloneFrame\<close> makes the destination frame a byte-for-byte copy of the source frame, changes no
  other frame, and leaves the two scratch pages unmapped and out of the TLB; nothing else changes.
\<close>

theorem CloneFrame_copies:
  assumes "mem_wf m" and "s < nframes m" and "d < nframes m"
  shows "\<exists>t. CloneFrame (int s) (int d) m = Ret () t \<and> mem_wf t \<and>
    (\<forall>k < PAGESIZE. phys t d k = phys m s k) \<and> (\<forall>f. f \<noteq> d \<longrightarrow> phys t f = phys m f) \<and>
    \<not> valid (pt_region0 t ! 124) \<and> \<not> valid (pt_region0 t ! 125) \<and> translate t 124 = None \<and> translate t 125 = None \<and>
    (\<forall>v. v \<noteq> 124 \<longrightarrow> v \<noteq> 125 \<longrightarrow> pt_region0 t ! v = pt_region0 m ! v \<and> tlb t v = tlb m v) \<and>
    t = m\<lparr>phys := phys t, pt_region0 := pt_region0 t, tlb := tlb t\<rparr>"
proof -
  have len: "length (pt_region0 m) = 128" using assms(1) by (simp add: mem_wf_def MAX_PT_LEN_def)
  have pt: "\<not> valid (pt_region0 (cloned s d m) ! 124)" "\<not> valid (pt_region0 (cloned s d m) ! 125)"
    using len by (simp_all add: cloned_def scratch_ptes_def)
  then have "translate (cloned s d m) 124 = None" "translate (cloned s d m) 125 = None"
    by (simp_all add: translate_def pt_entry_def MAX_PT_LEN_def)
  moreover have "cloned s d m = m\<lparr>phys := phys (cloned s d m), pt_region0 := pt_region0 (cloned s d m), tlb := tlb (cloned s d m)\<rparr>"
    by (simp add: cloned_def)
  moreover have "pt_region0 (cloned s d m) ! v = pt_region0 m ! v" if "v \<noteq> 124" "v \<noteq> 125" for v
    using that by (simp add: cloned_def scratch_ptes_nth)
  moreover have "phys (cloned s d m) d k = phys m s k" if "k < PAGESIZE" for k
    using that by (simp add: copied_def)
  ultimately show ?thesis
    using CloneFrame_eval [OF assms] pt assms(1) by (auto simp: copied_other)
qed

theorem CloneFrame_copies_witness:
  "\<exists>t. CloneFrame 3 4 (mem_ex 5 2) = Ret () t \<and> phys t 4 8191 = 8194 \<and> phys t 3 0 = 3"
proof -
  obtain t where t: "CloneFrame (int 3) (int 4) (mem_ex 5 2) = Ret () t"
    "\<forall>k < PAGESIZE. phys t 4 k = phys (mem_ex 5 2) 3 k" "\<forall>f. f \<noteq> 4 \<longrightarrow> phys t f = phys (mem_ex 5 2) f"
    using CloneFrame_copies [of "mem_ex 5 2" 3 4] by auto
  from t(2) [rule_format, of 8191] t(1,3) show ?thesis by (auto simp: PAGESIZE_def)
qed

text \<open>
  Copying an address space (\<^verbatim>\<open>CopyPT\<close>, the memory half of \<^verbatim>\<open>Fork\<close>): with enough free frames every
  valid page of the parent gets in the child a frame of its own, with the same protection and the
  same bytes; the frames of the child are pairwise distinct and were free, no byte of a frame that
  was in use changes (the parent and all other processes keep their memory), and the frame table
  stays consistent.
\<close>

theorem CopyPT_isolates:
  assumes wf: "mem_wf m" and ps: "ps \<noteq> 0" "pts m ps = Some S" "table_ok m S"
    and pd: "pd \<noteq> 0" "pts m pd = Some D" "length D = MAX_PT_LEN" "pd \<noteq> ps"
    and enough: "card {j. j < MAX_PT_LEN \<and> valid (S ! j)} \<le> card (free_frames m)"
  shows "\<exists>t D'. CopyPT_tables ps pd pid m = Ret SUCCESS t \<and> mem_wf t \<and> pts t = (pts m)(pd \<mapsto> D') \<and>
    (\<forall>j < MAX_PT_LEN. valid (S ! j) \<longrightarrow> valid (D' ! j) \<and> prot (D' ! j) = prot (S ! j) \<and>
       frame_of (D' ! j) \<in> free_frames m - free_frames t \<and>
       (\<forall>k < PAGESIZE. phys t (frame_of (D' ! j)) k = phys m (frame_of (S ! j)) k)) \<and>
    (\<forall>j < MAX_PT_LEN. \<not> valid (S ! j) \<longrightarrow> D' ! j = D ! j) \<and>
    (\<forall>j l. j < MAX_PT_LEN \<longrightarrow> l < MAX_PT_LEN \<longrightarrow> j \<noteq> l \<longrightarrow> valid (S ! j) \<longrightarrow> valid (S ! l) \<longrightarrow>
       frame_of (D' ! j) \<noteq> frame_of (D' ! l)) \<and>
    (\<forall>f. f \<notin> free_frames m \<longrightarrow> phys t f = phys m f)"
proof -
  from CopyPT_loop [OF wf ps pd, of pid] enough obtain t where
    t: "CopyPT_tables ps pd pid m = Ret SUCCESS t" "copy_inv m pd S D MAX_PT_LEN t"
    by (auto simp: valid_below_def)
  from t(2) obtain D' where "pts t = (pts m)(pd \<mapsto> D')" "pages_copied m t S D MAX_PT_LEN D'" "mem_wf t"
    "\<forall>f. f \<notin> free_frames m \<longrightarrow> phys t f = phys m f" by (auto simp: copy_inv_def)
  with t(1) pd(3) show ?thesis
    unfolding pages_copied_def page_copied_def by (intro exI [of _ t] exI [of _ D']) (simp, metis Diff_iff)
qed

text \<open>A parent whose page 0 is frame 3 (table 10) and a child with an empty table (11).\<close>

definition fork_mem_ex :: kmem where
  "fork_mem_ex = (mem_ex 5 2)\<lparr>pts := [10 \<mapsto> (replicate MAX_PT_LEN pte0)[0 := \<lparr>valid = True, prot = 3, pfn = 3\<rparr>],
     11 \<mapsto> replicate MAX_PT_LEN pte0]\<rparr>"

lemma fork_mem_ex_facts:
  "mem_wf fork_mem_ex" "free_frames fork_mem_ex = {5, 6}" "phys fork_mem_ex = (\<lambda>fr k. of_nat (fr + k))"
  "pts fork_mem_ex 10 = Some ((replicate MAX_PT_LEN pte0)[0 := \<lparr>valid = True, prot = 3, pfn = 3\<rparr>])"
  "pts fork_mem_ex 11 = Some (replicate MAX_PT_LEN pte0)"
  by (auto simp: fork_mem_ex_def)

lemma fork_table_ok:
  "table_ok fork_mem_ex ((replicate MAX_PT_LEN pte0)[0 := \<lparr>valid = True, prot = 3, pfn = 3\<rparr>])"
  by (auto simp: table_ok_def fork_mem_ex_facts frame_of_def in_set_conv_nth nth_list_update pte0_def split: if_splits)
     (simp_all add: fork_mem_ex_def)

lemma fork_table_valid:
  "{j. j < MAX_PT_LEN \<and> valid ((replicate MAX_PT_LEN pte0)[0 := \<lparr>valid = True, prot = 3, pfn = 3\<rparr>] ! j)} = {0}"
  by (auto simp: nth_list_update pte0_def MAX_PT_LEN_def split: if_splits)

theorem CopyPT_isolates_witness:
  "\<exists>t D'. CopyPT_tables 10 11 2 fork_mem_ex = Ret SUCCESS t \<and> pts t 11 = Some D' \<and>
     valid (D' ! 0) \<and> frame_of (D' ! 0) \<in> {5, 6} \<and> phys t (frame_of (D' ! 0)) 9 = 12"
proof -
  let ?S = "(replicate MAX_PT_LEN pte0)[0 := \<lparr>valid = True, prot = 3, pfn = 3 :: 24 word\<rparr>]"
  have "card {j. j < MAX_PT_LEN \<and> valid (?S ! j)} \<le> card (free_frames fork_mem_ex)"
    by (simp add: fork_table_valid fork_mem_ex_facts)
  from CopyPT_isolates [OF fork_mem_ex_facts(1) _ fork_mem_ex_facts(4) fork_table_ok _ fork_mem_ex_facts(5) _ _ this, of 2]
  obtain t D' where t: "CopyPT_tables 10 11 2 fork_mem_ex = Ret SUCCESS t" "pts t = (pts fork_mem_ex)(11 \<mapsto> D')"
    "\<forall>j < MAX_PT_LEN. valid (?S ! j) \<longrightarrow> valid (D' ! j) \<and> prot (D' ! j) = prot (?S ! j) \<and>
       frame_of (D' ! j) \<in> free_frames fork_mem_ex - free_frames t \<and>
       (\<forall>k < PAGESIZE. phys t (frame_of (D' ! j)) k = phys fork_mem_ex (frame_of (?S ! j)) k)" by auto
  from t(3) [rule_format, of 0] t(1,2) show ?thesis
    by (auto simp: MAX_PT_LEN_def PAGESIZE_def fork_mem_ex_facts frame_of_def)
qed

text \<open>
  When the pool cannot supply the pages of the parent, \<^verbatim>\<open>CopyPT\<close> returns \<^verbatim>\<open>ERROR\<close>; by then it has
  taken every free frame and gives none of them back (no frame in use is damaged).
\<close>

theorem CopyPT_out_of_frames:
  assumes wf: "mem_wf m" and ps: "ps \<noteq> 0" "pts m ps = Some S" "table_ok m S"
    and pd: "pd \<noteq> 0" "pts m pd = Some D" "length D = MAX_PT_LEN" "pd \<noteq> ps"
    and few: "card (free_frames m) < card {j. j < MAX_PT_LEN \<and> valid (S ! j)}"
  shows "\<exists>t. CopyPT_tables ps pd pid m = Ret ERROR t \<and> free_frames t = {} \<and>
    (\<forall>f. f \<notin> free_frames m \<longrightarrow> phys t f = phys m f)"
  using CopyPT_loop [OF wf ps pd, of pid] few by (auto simp: valid_below_def)

theorem CopyPT_out_of_frames_witness:
  "\<exists>t. CopyPT_tables 10 11 2 ((mem_ex 7 0)\<lparr>pts := pts fork_mem_ex\<rparr>) = Ret ERROR t \<and> free_frames t = {}"
proof -
  let ?m = "(mem_ex 7 0)\<lparr>pts := pts fork_mem_ex\<rparr>"
  let ?S = "(replicate MAX_PT_LEN pte0)[0 := \<lparr>valid = True, prot = 3, pfn = 3 :: 24 word\<rparr>]"
  have wf: "mem_wf ?m" by simp
  have ok: "table_ok ?m ?S"
    by (auto simp: table_ok_def frame_of_def in_set_conv_nth nth_list_update pte0_def split: if_splits)
  have few: "card (free_frames ?m) < card {j. j < MAX_PT_LEN \<and> valid (?S ! j)}" by (simp add: fork_table_valid)
  have p: "pts ?m 10 = Some ?S" "pts ?m 11 = Some (replicate MAX_PT_LEN pte0)" by (simp_all add: fork_mem_ex_facts)
  from CopyPT_out_of_frames [OF wf _ p(1) ok _ p(2) _ _ few, of 2] show ?thesis by auto
qed

text \<open>
  Growing the kernel break maps every page between the old and the new break, readable and
  writable, to a frame of its own from the pool, and touches no other page; when the pool runs out
  the call returns -1, the break stays where it was and the pool is empty.
\<close>

theorem SetKernelBrk_grows:
  assumes "mem_wf m" and "a \<noteq> 0" and "unat a + 8191 < 2 ^ 32" and "(unat a + 8191) div 8192 = n"
    and "n < 126" and "kernel_brk_page m \<le> n"
  shows "if n - kernel_brk_page m \<le> card (free_frames m)
    then \<exists>t. SetKernelBrk a m = Ret 0 t \<and> kernel_brk_page t = n \<and>
      fresh_pages (free_frames m) (free_frames t) (pt_region0 m) (pt_region0 t) {kernel_brk_page m..<n}
        (PROT_READ OR PROT_WRITE) \<and>
      phys t = phys m \<and> tlb t = tlb m \<and> pts t = pts m
    else \<exists>t. SetKernelBrk a m = Ret (-1) t \<and> free_frames t = {} \<and> kernel_brk_page t = kernel_brk_page m"
proof (cases "n - kernel_brk_page m \<le> card (free_frames m)")
  case True
  with SetKernelBrk_up [OF assms] obtain t where
    t: "SetKernelBrk a m = Ret 0 (t\<lparr>kernel_brk_page := n\<rparr>)" and g: "grow_inv m (kernel_brk_page m) n t"
    by auto
  have eq: "t = m\<lparr>frame_table := frame_table t, free_nframes := free_nframes t, pt_region0 := pt_region0 t\<rparr>"
    and fp: "fresh_pages (free_frames m) (free_frames t) (pt_region0 m) (pt_region0 t) {kernel_brk_page m..<n}
        (PROT_READ OR PROT_WRITE)"
    using g unfolding grow_inv_def by blast+
  have "phys t = phys m" "tlb t = tlb m" "pts t = pts m" by (subst eq, simp)+
  moreover have "free_frames (t\<lparr>kernel_brk_page := n\<rparr>) = free_frames t" by (rule free_frames_cong) simp_all
  ultimately show ?thesis using True t fp by simp
next
  case False
  with SetKernelBrk_up [OF assms] show ?thesis by auto
qed

theorem SetKernelBrk_grows_witness:
  "\<exists>t. SetKernelBrk 0xA001 (mem_ex 5 2) = Ret 0 t \<and> kernel_brk_page t = 6 \<and> valid (pt_region0 t ! 5)"
proof -
  have "SetKernelBrk 0xA001 (mem_ex 5 2) = SetKernelBrk 0xA001 (mem_ex 5 2)" ..
  from SetKernelBrk_grows [of "mem_ex 5 2" "0xA001" 6] obtain t where
    t: "SetKernelBrk 0xA001 (mem_ex 5 2) = Ret 0 t" "kernel_brk_page t = 6"
      "fresh_pages (free_frames (mem_ex 5 2)) (free_frames t) (pt_region0 (mem_ex 5 2)) (pt_region0 t) {4..<6}
        (PROT_READ OR PROT_WRITE)" by auto
  from fresh_pages_page [OF t(3), of 5] t show ?thesis by simp
qed

text \<open>
  C24. Raising the kernel break and lowering it again gives back exactly the frames that were taken:
  the pool and the break are what they were, and the pages in between are unmapped.
\<close>

theorem SetKernelBrk_roundtrip:
  assumes wf: "mem_wf m" and hi: "hi \<noteq> 0" "unat hi + 8191 < 2 ^ 32" "(unat hi + 8191) div 8192 = n" "n < 126"
    and lo: "lo \<noteq> 0" "unat lo + 8191 < 2 ^ 32" "(unat lo + 8191) div 8192 = kernel_brk_page m"
    and up: "kernel_brk_page m \<le> n" and enough: "n - kernel_brk_page m \<le> card (free_frames m)"
  shows "\<exists>t. thn (SetKernelBrk hi) (SetKernelBrk lo) m = Ret 0 t \<and> free_frames t = free_frames m \<and>
    kernel_brk_page t = kernel_brk_page m \<and>
    (\<forall>v < MAX_PT_LEN. pt_region0 t ! v = (if kernel_brk_page m \<le> v \<and> v < n then pte0 else pt_region0 m ! v))"
proof -
  let ?b = "kernel_brk_page m"
  from SetKernelBrk_up [OF wf hi up] enough obtain t1 where
    t1: "SetKernelBrk hi m = Ret 0 (t1\<lparr>kernel_brk_page := n\<rparr>)" and g: "grow_inv m ?b n t1" by auto
  note gs = grow_shrink_ok [OF g up wf]
  let ?u = "t1\<lparr>kernel_brk_page := n\<rparr>"
  have fr: "free_frames ?u = free_frames t1" by (rule free_frames_cong) simp_all
  have wfu: "mem_wf ?u" using g frames_wf_cong [of ?u t1] by (simp add: grow_inv_def mem_wf_def)
  have b: "?b < 126" using up hi(4) by simp
  have ok: "shrink_ok ?u ?b (kernel_brk_page ?u)" using gs(1) fr by (simp add: shrink_ok_def)
  from SetKernelBrk_down [OF wfu lo(1,2,3) b _ _ ok] up hi(4) obtain t2 where
    t2: "SetKernelBrk lo ?u = Ret 0 (t2\<lparr>kernel_brk_page := ?b\<rparr>)" "pt_region0 t2 = unmapped (pt_region0 t1) ?b n"
      "free_frames t2 = free_frames t1 \<union> (\<lambda>v. frame_of (pt_region0 t1 ! v)) ` mapped (pt_region0 t1) ?b n"
    by (auto simp: fr MAX_PT_LEN_def)
  have fp: "fresh_pages (free_frames m) (free_frames t1) (pt_region0 m) (pt_region0 t1) {?b..<n}
      (PROT_READ OR PROT_WRITE)" using g unfolding grow_inv_def by blast
  have "free_frames t2 = free_frames m"
    using t2(3) gs(2,3) fp by (auto simp: fresh_pages_def)
  then have "free_frames (t2\<lparr>kernel_brk_page := ?b\<rparr>) = free_frames m"
    using free_frames_cong [of "t2\<lparr>kernel_brk_page := ?b\<rparr>" t2] by simp
  moreover have "length (pt_region0 t1) = MAX_PT_LEN" "length (pt_region0 m) = MAX_PT_LEN"
    using g wf by (simp_all add: grow_inv_def mem_wf_def)
  then have "pt_region0 t2 ! v = (if ?b \<le> v \<and> v < n then pte0 else pt_region0 m ! v)" if "v < MAX_PT_LEN" for v
    using that fresh_pages_other [OF fp, of v] gs(2) by (simp add: t2(2) unmapped_def)
  ultimately show ?thesis using t1 t2(1) by (simp add: thn_app)
qed

theorem SetKernelBrk_roundtrip_witness:
  "\<exists>t. thn (SetKernelBrk 0xC000) (SetKernelBrk 0x8000) (mem_ex 5 2) = Ret 0 t \<and> free_frames t = {5..<7}"
  using SetKernelBrk_roundtrip [of "mem_ex 5 2" "0xC000" 6 "0x8000"] by auto

text \<open>
  The two refusals of \<^verbatim>\<open>SetKernelBrk\<close>: a null address and an address whose page would reach the
  kernel stack return -1 and change nothing.
\<close>

theorem SetKernelBrk_refuses:
  assumes "a = 0 \<or> (125 * 8192 < unat a \<and> unat a + 8191 < 2 ^ 32)"
  shows "SetKernelBrk a m = Ret (-1) m"
proof (cases "a = 0")
  case True
  then show ?thesis by (simp add: SetKernelBrk_def prog_simps)
next
  case False
  with assms have "126 * 8192 \<le> unat a + 8191" "unat a + 8191 < 2 ^ 32" by auto
  moreover from this(1) have "126 \<le> (unat a + 8191) div 8192" by (subst less_eq_div_iff_mult_less_eq) simp_all
  ultimately show ?thesis using False SetKernelBrk_target [of a] by (simp add: SetKernelBrk_def prog_simps)
qed

theorem SetKernelBrk_refuses_witness: "SetKernelBrk 0xFB000 (mem_ex 5 2) = Ret (-1) (mem_ex 5 2)"
  by (rule SetKernelBrk_refuses) simp

text \<open>
  C30. Lowering the kernel break leaves stale translations: a page of the released range that the
  TLB holds is still cached afterwards, and its frame is free for the next allocation. The flush is
  given the page number instead of the page address, so it hits page 0.
\<close>

theorem SetKernelBrk_stale_tlb:
  assumes wf: "mem_wf m" and a: "a \<noteq> 0" "unat a + 8191 < 2 ^ 32" "(unat a + 8191) div 8192 = n" "n < 126"
    and down: "n \<le> kernel_brk_page m" "kernel_brk_page m \<le> MAX_PT_LEN"
    and ok: "shrink_ok m n (kernel_brk_page m)"
    and v: "v \<in> mapped (pt_region0 m) n (kernel_brk_page m)" "v \<noteq> 0" "tlb m v = Some (pt_region0 m ! v)"
  shows "\<exists>t. SetKernelBrk a m = Ret 0 t \<and> translate t v = Some (pt_region0 m ! v) \<and>
    frame_of (pt_region0 m ! v) \<in> free_frames t \<and> \<not> tlb_coherent t"
proof -
  from SetKernelBrk_down [OF wf a down ok] obtain t where
    t: "SetKernelBrk a m = Ret 0 (t\<lparr>kernel_brk_page := n\<rparr>)" "pt_region0 t = unmapped (pt_region0 m) n (kernel_brk_page m)"
      "free_frames t = free_frames m \<union> (\<lambda>v. frame_of (pt_region0 m ! v)) ` mapped (pt_region0 m) n (kernel_brk_page m)"
      "tlb t v = tlb m v" using v(2) by blast
  let ?t = "t\<lparr>kernel_brk_page := n\<rparr>"
  have "free_frames ?t = free_frames t" by (rule free_frames_cong) simp_all
  then have "frame_of (pt_region0 m ! v) \<in> free_frames ?t" using t(3) v(1) by auto
  moreover have "tlb ?t v = Some (pt_region0 m ! v)" using t(4) v(3) by simp
  moreover have "v < MAX_PT_LEN" "v < length (pt_region0 m)" using v(1) down wf by (auto simp: mapped_def mem_wf_def)
  then have "pt_entry ?t v = None" using t(2) v(1) by (simp add: pt_entry_def unmapped_def pte0_def)
  ultimately show ?thesis using t(1) by (force simp: translate_def tlb_coherent_def)
qed

theorem SetKernelBrk_stale_tlb_witness:
  "\<exists>m t. tlb_coherent m \<and> SetKernelBrk 0x6000 m = Ret 0 t \<and> \<not> tlb_coherent t"
proof -
  define e where "e = \<lparr>valid = True, prot = 3, pfn = 2 :: 24 word\<rparr>"
  define m where "m = (mem_ex 5 2)\<lparr>pt_region0 := (replicate MAX_PT_LEN pte0)[3 := e], tlb := [3 \<mapsto> e]\<rparr>"
  have fr: "free_frames m = {5..<7}" using free_frames_cong [of m "mem_ex 5 2"] by (simp add: m_def)
  have wf: "mem_wf m" using frames_wf_cong [of m "mem_ex 5 2"] by (simp add: m_def mem_wf_def)
  have pt: "pt_region0 m = (replicate MAX_PT_LEN pte0)[3 := e]" "kernel_brk_page m = 4" "nframes m = 7"
    "tlb m = [3 \<mapsto> e]" by (simp_all add: m_def)
  have mp: "mapped (pt_region0 m) 3 (kernel_brk_page m) = {3}"
    by (auto simp: mapped_def pt e_def MAX_PT_LEN_def)
  have ok: "shrink_ok m 3 (kernel_brk_page m)"
    by (simp add: shrink_ok_def mp fr) (simp add: pt MAX_PT_LEN_def e_def frame_of_def)
  have "\<exists>t. SetKernelBrk 0x6000 m = Ret 0 t \<and> translate t 3 = Some (pt_region0 m ! 3) \<and>
      frame_of (pt_region0 m ! 3) \<in> free_frames t \<and> \<not> tlb_coherent t"
    by (rule SetKernelBrk_stale_tlb [where n = 3, OF wf _ _ _ _ _ _ ok]) (simp_all add: mp, simp_all add: pt MAX_PT_LEN_def)
  moreover have "tlb_coherent m"
    by (simp add: tlb_coherent_def pt pt_entry_def MAX_PT_LEN_def e_def)
  ultimately show ?thesis by blast
qed

text \<open>
  C31. The kernel heap may grow over the scratch pages of \<^verbatim>\<open>CloneFrame\<close>: \<^verbatim>\<open>SetKernelBrk\<close> accepts a break
  of 125 pages, and the next \<^verbatim>\<open>CloneFrame\<close> leaves heap page 124 unmapped.
\<close>

theorem scratch_page_collision:
  assumes wf: "mem_wf m" and up: "kernel_brk_page m \<le> 124"
    and enough: "125 - kernel_brk_page m \<le> card (free_frames m)" and f: "s < nframes m" "d < nframes m"
  shows "\<exists>t t'. SetKernelBrk 0xFA000 m = Ret 0 t \<and> valid (pt_region0 t ! 124) \<and>
    CloneFrame (int s) (int d) t = Ret () t' \<and> kernel_brk_page t' = 125 \<and> \<not> valid (pt_region0 t' ! 124)"
proof -
  from SetKernelBrk_up [OF wf, of "0xFA000" 125] up enough obtain t where
    t: "SetKernelBrk 0xFA000 m = Ret 0 (t\<lparr>kernel_brk_page := 125\<rparr>)" and g: "grow_inv m (kernel_brk_page m) 125 t"
    by auto
  let ?t = "t\<lparr>kernel_brk_page := 125\<rparr>"
  have fp: "fresh_pages (free_frames m) (free_frames t) (pt_region0 m) (pt_region0 t) {kernel_brk_page m..<125}
      (PROT_READ OR PROT_WRITE)"
    and eq: "t = m\<lparr>frame_table := frame_table t, free_nframes := free_nframes t, pt_region0 := pt_region0 t\<rparr>"
    using g unfolding grow_inv_def by blast+
  have v: "valid (pt_region0 ?t ! 124)" using fresh_pages_page [OF fp, of 124] up by simp
  have wft: "mem_wf ?t" using g frames_wf_cong [of ?t t] by (simp add: grow_inv_def mem_wf_def)
  have "nframes t = nframes m" by (subst eq) simp
  then have c: "CloneFrame (int s) (int d) ?t = Ret () (cloned s d ?t)" using f by (intro CloneFrame_eval [OF wft]) simp_all
  have "length (pt_region0 ?t) = 128" using wft by (simp add: mem_wf_def MAX_PT_LEN_def)
  then have "\<not> valid (pt_region0 (cloned s d ?t) ! 124)" by (simp add: cloned_def scratch_ptes_def)
  then show ?thesis using t v c by (intro exI [of _ ?t] exI [of _ "cloned s d ?t"]) (simp del: cloned_frame(8) )
qed

theorem scratch_page_collision_witness:
  "\<exists>t t'. SetKernelBrk 0xFA000 (mem_ex 5 200) = Ret 0 t \<and> valid (pt_region0 t ! 124) \<and>
    CloneFrame 1 2 t = Ret () t' \<and> kernel_brk_page t' = 125 \<and> \<not> valid (pt_region0 t' ! 124)"
  using scratch_page_collision [of "mem_ex 5 200" 1 2] by simp

section \<open>Every operation keeps the sizes of the tables\<close>

text \<open>
  Unlike \<open>mem_wf\<close> this holds after every call, whatever its arguments: the frame table and the
  region 0 table keep their lengths.
\<close>

definition tables_ok :: "kmem \<Rightarrow> bool" where
  "tables_ok m \<longleftrightarrow> length (pt_region0 m) = MAX_PT_LEN \<and> length (frame_table m) = nframes m"

lemma mem_wf_tables: "mem_wf m \<Longrightarrow> tables_ok m"
  by (simp add: mem_wf_def frames_wf_def tables_ok_def)

lemma tables_ok_upd [simp]:
  "tables_ok (m\<lparr>phys := a\<rparr>) = tables_ok m" "tables_ok (m\<lparr>tlb := b\<rparr>) = tables_ok m"
  "tables_ok (m\<lparr>pts := c\<rparr>) = tables_ok m" "tables_ok (m\<lparr>free_nframes := d\<rparr>) = tables_ok m"
  "tables_ok (m\<lparr>kernel_brk_page := e\<rparr>) = tables_ok m" "tables_ok (m\<lparr>reg_vm_enable := f\<rparr>) = tables_ok m"
  "tables_ok (m\<lparr>reg_ptlr0 := g\<rparr>) = tables_ok m" "tables_ok (m\<lparr>reg_ptbr1 := h\<rparr>) = tables_ok m"
  "tables_ok (m\<lparr>reg_ptlr1 := i\<rparr>) = tables_ok m"
  "tables_ok (m\<lparr>frame_table := (frame_table m)[j := k]\<rparr>) = tables_ok m"
  "tables_ok (m\<lparr>pt_region0 := (pt_region0 m)[j := l]\<rparr>) = tables_ok m"
  by (simp_all add: tables_ok_def)

lemma keeps_get_fd [keeps_intros]: "keeps I (get_fd i)"
  by (simp add: keeps_def get_fd_def)

lemma keeps_get_pte0 [keeps_intros]: "keeps I (get_pte0 v)"
  by (simp add: keeps_def get_pte0_def)

lemma keeps_get_pte [keeps_intros]: "keeps I (get_pte t i)"
  unfolding get_pte_def by (intro keeps_intros)

lemma keeps_upd_fd [keeps_intros]: "keeps tables_ok (upd_fd i f)"
  unfolding upd_fd_def by (intro keeps_intros) simp

lemma keeps_upd_pte0 [keeps_intros]: "keeps tables_ok (upd_pte0 v f)"
  unfolding upd_pte0_def by (intro keeps_intros) simp

lemma keeps_upd_pte [keeps_intros]: "keeps tables_ok (upd_pte t i f)"
  unfolding upd_pte_def by (intro keeps_intros) simp

lemma keeps_take_free [keeps_intros]: "keeps tables_ok take_free"
  unfolding take_free_def by (intro keeps_intros) simp

lemma keeps_WriteRegister [keeps_intros]: "keeps tables_ok (WriteRegister r)"
  unfolding WriteRegister_def by (intro keeps_intros) (cases r; simp)

lemma keeps_access [keeps_intros]: "keeps tables_ok (access p a)"
  by (auto simp: keeps_def access_def split: option.split)

lemma keeps_load_byte [keeps_intros]: "keeps tables_ok (load_byte a)"
  unfolding load_byte_def by (intro keeps_intros)

lemma keeps_store_byte [keeps_intros]: "keeps tables_ok (store_byte a b)"
  unfolding store_byte_def by (intro keeps_intros) simp

lemma keeps_copy_out [keeps_intros]: "keeps tables_ok (copy_out a bs)"
  by (induction bs arbitrary: a) (auto intro!: keeps_intros)

lemma keeps_copy_in [keeps_intros]: "keeps tables_ok (copy_in a n)"
  by (induction n arbitrary: a) (auto intro!: keeps_intros)

lemma keeps_store_int [keeps_intros]: "keeps tables_ok (store_int a v)"
  unfolding store_int_def by (intro keeps_intros)

lemma keeps_memcpy_v [keeps_intros]: "keeps tables_ok (memcpy_v d s n)"
  unfolding memcpy_v_def by (intro keeps_intros)

lemma keeps_allocFrame [keeps_intros]: "keeps tables_ok (allocFrame u w)"
  unfolding allocFrame_def by (intro keeps_intros)

lemma keeps_allocSpecificFrame [keeps_intros]: "keeps tables_ok (allocSpecificFrame f u w)"
  unfolding allocSpecificFrame_def by (intro keeps_intros)

lemma keeps_freeFrame [keeps_intros]: "keeps tables_ok (freeFrame f)"
  unfolding freeFrame_def valid_pfn_def by (intro keeps_intros) simp

lemma keeps_MapPage [keeps_intros]: "keeps tables_ok (MapPage t v f p)"
  unfolding MapPage_def by (intro keeps_intros)

lemma keeps_MapRegion0 [keeps_intros]: "keeps tables_ok (MapRegion0 v f)"
  unfolding MapRegion0_def by (intro keeps_intros)

lemma keeps_UnmapRegion0 [keeps_intros]: "keeps tables_ok (UnmapRegion0 v)"
  unfolding UnmapRegion0_def by (intro keeps_intros)

lemma keeps_CloneFrame [keeps_intros]: "keeps tables_ok (CloneFrame s d)"
  unfolding CloneFrame_def Let_def by (intro keeps_intros)

lemma keeps_CopyPT_tables [keeps_intros]: "keeps tables_ok (CopyPT_tables a b p)"
  unfolding CopyPT_tables_def by (intro keeps_intros)

lemma keeps_CloneRegion1_tables [keeps_intros]: "keeps tables_ok (CloneRegion1_tables a b p)"
  unfolding CloneRegion1_tables_def by (intro keeps_intros)

lemma keeps_SetKernelBrk_grow [keeps_intros]: "keeps tables_ok (SetKernelBrk_grow k c t)"
  by (induction k arbitrary: c) (auto intro!: keeps_intros)

lemma keeps_SetKernelBrk_shrink [keeps_intros]: "keeps tables_ok (SetKernelBrk_shrink k t)"
  by (induction k) (auto intro!: keeps_intros)

lemma keeps_SetKernelBrk [keeps_intros]: "keeps tables_ok (SetKernelBrk a)"
  unfolding SetKernelBrk_def Let_def by (intro keeps_intros) simp

lemma keeps_InitializeKernelStackIdle [keeps_intros]: "keeps tables_ok (InitializeKernelStackIdle t)"
  unfolding InitializeKernelStackIdle_def by (intro keeps_intros) simp

lemma keeps_InitializeKernelStackProcess [keeps_intros]: "keeps tables_ok (InitializeKernelStackProcess t)"
  unfolding InitializeKernelStackProcess_def by (intro keeps_intros) simp

end
