(* ===== verification/Kernel_State.thy ===== *)
theory Kernel_State
  imports Queue Mem
begin

text \<open>
  The global state of the kernel: the process control blocks of \<^verbatim>\<open>include/proc.h\<close>, the terminals of
  \<^verbatim>\<open>include/syscalls/tty.h\<close>, the global variables of \<^verbatim>\<open>proc.c\<close>, \<^verbatim>\<open>kernel.c\<close> and \<^verbatim>\<open>tty.c\<close>, and the two
  component states (\<open>km\<close>, the memory; \<open>qh\<close>, the queues).

  The toolchain and the machine are parameters held in the state: whether the \<open>n\<close>-th call of
  \<^verbatim>\<open>malloc\<close> or \<^verbatim>\<open>KernelContextSwitch\<close> succeeds and which pid \<^verbatim>\<open>helper_new_pid\<close> gives at that point.
  A buffer that only one pointer ever refers to (\<^verbatim>\<open>write_buffer\<close>, \<^verbatim>\<open>read_buffer\<close>,
  \<^verbatim>\<open>tty_kernel_read_buf\<close>) is its contents; \<open>None\<close> is the null pointer.
\<close>

section \<open>Processes\<close>

datatype proc_state_t = PROC_FREE | PROC_READY | PROC_RUNNING | PROC_BLOCKED | PROC_ZOMBIE | PROC_ORPHAN

definition IDLE_PID :: int where "IDLE_PID = 0"
definition INVALID_PID :: int where "INVALID_PID = -1"
definition USER_MEM_START :: word32 where "USER_MEM_START = VMEM_1_BASE"
definition USER_STACK_BASE :: word32 where "USER_STACK_BASE = VMEM_1_LIMIT"

lemmas proc_defs = IDLE_PID_def INVALID_PID_def USER_MEM_START_def USER_STACK_BASE_def

text \<open>
  A saved kernel context is the point of the kernel where the process waits, with the local
  variables that are still used there.
\<close>

datatype KernelContext =
    KC_none
  | KC_KernelStart
  | KC_Clock
  | KC_Delay
  | KC_Fork addr addr                    \<comment> \<open>\<^verbatim>\<open>parent\<close>, \<^verbatim>\<open>child\<close>\<close>
  | KC_Wait word32                       \<comment> \<open>\<^verbatim>\<open>status_ptr\<close>\<close>
  | KC_Exit bool                         \<comment> \<open>whether the caller of \<^verbatim>\<open>Exit\<close> halts when it returns\<close>
  | KC_TtyRead word32                    \<comment> \<open>\<^verbatim>\<open>buf\<close>\<close>
  | KC_TtyWriteLock int word32 int       \<comment> \<open>\<^verbatim>\<open>tty_id\<close>, \<^verbatim>\<open>buf\<close>, \<^verbatim>\<open>len\<close>\<close>
  | KC_TtyWriteDone int                  \<comment> \<open>\<^verbatim>\<open>len\<close>\<close>

record PCB =
  pid :: int
  pstate :: proc_state_t
  ppid :: int
  exit_status :: int
  ptbr :: addr
  ptlr :: nat
  user_context :: UserContext
  kernel_context :: KernelContext
  kstack :: addr
  user_heap_start_vaddr :: word32
  user_heap_end_vaddr :: word32
  user_stack_base_vaddr :: word32
  pcb_next :: addr
  pcb_prev :: addr
  parent :: addr
  children_processes :: addr
  waiting_for_child_pid :: int
  last_run_tick :: int
  delay_ticks :: int
  tty_read_buf :: word32
  tty_read_len :: int
  tty_write_buf :: word32
  tty_write_len :: int
  tty_kernel_read_buf :: "byte list option"
  kernel_read_size :: int

text \<open>\<^verbatim>\<open>memset(process, 0, sizeof(PCB))\<close>\<close>

definition pcb0 :: PCB where
  "pcb0 = \<lparr>pid = 0, pstate = PROC_FREE, ppid = 0, exit_status = 0, ptbr = 0, ptlr = 0,
     user_context = uctx0, kernel_context = KC_none, kstack = 0, user_heap_start_vaddr = 0,
     user_heap_end_vaddr = 0, user_stack_base_vaddr = 0, pcb_next = 0, pcb_prev = 0, parent = 0,
     children_processes = 0, waiting_for_child_pid = 0, last_run_tick = 0, delay_ticks = 0,
     tty_read_buf = 0, tty_read_len = 0, tty_write_buf = 0, tty_write_len = 0,
     tty_kernel_read_buf = None, kernel_read_size = 0\<rparr>"

section \<open>Terminals\<close>

record terminal_t =
  blocked_writers :: addr
  blocked_readers :: addr
  tty_id :: int
  read_buffer_len :: int
  write_buffer_len :: int
  read_buffer :: "byte list"
  write_buffer :: "byte list option"
  write_buffer_position :: int
  current_writer :: addr
  in_use :: bool

section \<open>The kernel\<close>

text \<open>The functions an entry of the interrupt vector table can name.\<close>

datatype trap_handler = H_NotImplemented | H_Kernel | H_Clock | H_Illegal | H_Memory | H_Math
  | H_TtyReceive | H_TtyTransmit

definition TRAP_KERNEL :: nat where "TRAP_KERNEL = 0"
definition TRAP_CLOCK :: nat where "TRAP_CLOCK = 1"
definition TRAP_ILLEGAL :: nat where "TRAP_ILLEGAL = 2"
definition TRAP_MEMORY :: nat where "TRAP_MEMORY = 3"
definition TRAP_MATH :: nat where "TRAP_MATH = 4"
definition TRAP_TTY_RECEIVE :: nat where "TRAP_TTY_RECEIVE = 5"
definition TRAP_TTY_TRANSMIT :: nat where "TRAP_TTY_TRANSMIT = 6"
definition TRAP_VECTOR_SIZE :: nat where "TRAP_VECTOR_SIZE = 16"

lemmas vector_defs = TRAP_KERNEL_def TRAP_CLOCK_def TRAP_ILLEGAL_def TRAP_MEMORY_def TRAP_MATH_def
  TRAP_TTY_RECEIVE_def TRAP_TTY_TRANSMIT_def TRAP_VECTOR_SIZE_def

record kstate =
  km :: kmem
  qh :: qheap
  pcbs :: "addr \<Rightarrow> PCB option"
  proc_table :: "addr list option"
  idle_proc :: addr
  init_proc :: addr
  current_process :: addr
  ready_queue :: addr
  blocked_queue :: addr
  zombie_queue :: addr
  waiting_parents :: addr
  terminals :: "terminal_t list"
  TRAP_VECTOR :: "trap_handler list"
  ctx :: UserContext                      \<comment> \<open>the context the machine restores on return to user mode\<close>
  transmitted :: "(nat \<times> byte list) list"   \<comment> \<open>the calls of \<^verbatim>\<open>TtyTransmit\<close>, oldest first\<close>
  next_addr :: nat
  calls :: nat
  malloc_ok :: "nat \<Rightarrow> bool"
  kcs_ok :: "nat \<Rightarrow> bool"
  new_pid :: "nat \<Rightarrow> int"

text \<open>Operations of the components on their part of the state.\<close>

definition on_mem :: "(kmem, 'a) prog \<Rightarrow> (kstate, 'a) prog" where
  "on_mem = zoom km (\<lambda>m. km_update (\<lambda>_. m))"

definition on_queues :: "(qheap, 'a) prog \<Rightarrow> (kstate, 'a) prog" where
  "on_queues = zoom qh (\<lambda>h. qh_update (\<lambda>_. h))"

text \<open>Fresh kernel memory: \<open>0\<close> when the allocation fails.\<close>

definition malloc :: "(kstate, addr) prog" where
  "malloc = (\<lambda>s. if malloc_ok s (calls s)
     then Ret (next_addr s) (s\<lparr>next_addr := Suc (next_addr s), calls := Suc (calls s)\<rparr>)
     else Ret 0 (s\<lparr>calls := Suc (calls s)\<rparr>))"

definition helper_new_pid :: "(kstate, int) prog" where
  "helper_new_pid = (\<lambda>s. Ret (new_pid s (calls s)) (s\<lparr>calls := Suc (calls s)\<rparr>))"

definition get_pcb :: "addr \<Rightarrow> (kstate, PCB) prog" where
  "get_pcb p = deref pcbs p"

definition upd_pcb :: "addr \<Rightarrow> (PCB \<Rightarrow> PCB) \<Rightarrow> (kstate, unit) prog" where
  "upd_pcb p f = bnd (get_pcb p) (\<lambda>b. modify (\<lambda>s. s\<lparr>pcbs := (pcbs s)(p \<mapsto> f b)\<rparr>))"

definition get_tty :: "int \<Rightarrow> (kstate, terminal_t) prog" where
  "get_tty i = (\<lambda>s. if 0 \<le> i \<and> nat i < length (terminals s) then Ret (terminals s ! nat i) s
     else Fault OutOfBounds)"

definition upd_tty :: "int \<Rightarrow> (terminal_t \<Rightarrow> terminal_t) \<Rightarrow> (kstate, unit) prog" where
  "upd_tty i f = bnd (get_tty i) (\<lambda>t. modify (\<lambda>s. s\<lparr>terminals := (terminals s)[nat i := f t]\<rparr>))"

lemmas state_ops = get_pcb_def upd_pcb_def get_tty_def upd_tty_def on_mem_def on_queues_def

text \<open>The calls of \<^verbatim>\<open>queue.c\<close> from the kernel.\<close>

definition kqueueCreate :: "(kstate, addr) prog" where
  "kqueueCreate = bnd malloc (\<lambda>m. on_queues (queueCreate m))"

text \<open>The null checks of \<^verbatim>\<open>queueEnqueue\<close> come before its \<^verbatim>\<open>malloc\<close>.\<close>

definition kqueueEnqueue :: "addr \<Rightarrow> addr \<Rightarrow> (kstate, unit) prog" where
  "kqueueEnqueue q p =
     (if q = 0 \<or> p = 0 then on_queues (queueEnqueue 0 q p)
      else bnd malloc (\<lambda>m. on_queues (queueEnqueue m q p)))"

definition kqueueDequeue :: "addr \<Rightarrow> (kstate, addr) prog" where
  "kqueueDequeue q = on_queues (queueDequeue q)"

definition kqueueRemove :: "addr \<Rightarrow> addr \<Rightarrow> (kstate, unit) prog" where
  "kqueueRemove q p = on_queues (queueRemove q p)"

definition kis_empty :: "addr \<Rightarrow> (kstate, bool) prog" where
  "kis_empty q = on_queues (is_empty q)"

text \<open>\<^verbatim>\<open>is_empty(ready_queue) ? idle_proc : queueDequeue(ready_queue)\<close>\<close>

definition next_process :: "(kstate, addr) prog" where
  "next_process = bnd (gets ready_queue) (\<lambda>q. bnd (kis_empty q) (\<lambda>e.
     if e then gets idle_proc else kqueueDequeue q))"

text \<open>Save the machine's user context in the current process, and load it from there.\<close>

definition save_ctx :: "(kstate, unit) prog" where
  "save_ctx = bnd (gets current_process) (\<lambda>p. bnd (gets ctx) (\<lambda>c.
     upd_pcb p (\<lambda>b. b\<lparr>user_context := c\<rparr>)))"

definition load_ctx :: "(kstate, unit) prog" where
  "load_ctx = bnd (gets current_process) (\<lambda>p. bnd (get_pcb p) (\<lambda>b.
     modify (\<lambda>s. s\<lparr>ctx := user_context b\<rparr>)))"

definition ctx_reg0 :: "int \<Rightarrow> (kstate, unit) prog" where
  "ctx_reg0 v = modify (\<lambda>s. s\<lparr>ctx := set_reg0 (word_of_int v) (ctx s)\<rparr>)"

section \<open>Evaluation\<close>

lemma on_mem_app [prog_simps]:
  "on_mem m s = (case m (km s) of
      Ret a c \<Rightarrow> Ret a (s\<lparr>km := c\<rparr>) | Switched c \<Rightarrow> Switched (s\<lparr>km := c\<rparr>)
    | Halted c \<Rightarrow> Halted (s\<lparr>km := c\<rparr>) | Fault e \<Rightarrow> Fault e)"
  by (simp add: on_mem_def zoom_app)

lemma on_queues_app [prog_simps]:
  "on_queues m s = (case m (qh s) of
      Ret a c \<Rightarrow> Ret a (s\<lparr>qh := c\<rparr>) | Switched c \<Rightarrow> Switched (s\<lparr>qh := c\<rparr>)
    | Halted c \<Rightarrow> Halted (s\<lparr>qh := c\<rparr>) | Fault e \<Rightarrow> Fault e)"
  by (simp add: on_queues_def zoom_app)

lemma get_pcb_eval [prog_simps]: "p \<noteq> 0 \<Longrightarrow> pcbs s p = Some b \<Longrightarrow> get_pcb p s = Ret b s"
  by (simp add: get_pcb_def deref_app)

lemma upd_pcb_eval [prog_simps]:
  "p \<noteq> 0 \<Longrightarrow> pcbs s p = Some b \<Longrightarrow> upd_pcb p f s = Ret () (s\<lparr>pcbs := (pcbs s)(p \<mapsto> f b)\<rparr>)"
  by (simp add: upd_pcb_def bnd_app get_pcb_eval modify_app)

lemma get_tty_eval [prog_simps]:
  "0 \<le> i \<Longrightarrow> nat i < length (terminals s) \<Longrightarrow> get_tty i s = Ret (terminals s ! nat i) s"
  by (simp add: get_tty_def)

lemma upd_tty_eval [prog_simps]:
  "0 \<le> i \<Longrightarrow> nat i < length (terminals s) \<Longrightarrow>
   upd_tty i f s = Ret () (s\<lparr>terminals := (terminals s)[nat i := f (terminals s ! nat i)]\<rparr>)"
  by (simp add: upd_tty_def bnd_app get_tty_eval modify_app)

section \<open>The invariant of the kernel\<close>

text \<open>
  A terminal: the input buffer is full size and its fill count in range; what remains to be
  transmitted lies inside the write buffer.
\<close>

definition tty_ok :: "terminal_t \<Rightarrow> bool" where
  "tty_ok t \<longleftrightarrow> length (read_buffer t) = TERMINAL_MAX_LINE \<and>
     0 \<le> read_buffer_len t \<and> read_buffer_len t \<le> int TERMINAL_MAX_LINE \<and>
     (\<forall>bs. write_buffer t = Some bs \<longrightarrow> write_buffer_len t = int (length bs) \<and>
        0 \<le> write_buffer_position t \<and> write_buffer_position t \<le> write_buffer_len t)"

text \<open>A process that waits for a terminal waits with the arguments \<^verbatim>\<open>TtyWrite\<close> has checked.\<close>

fun kc_ok :: "KernelContext \<Rightarrow> bool" where
  "kc_ok (KC_TtyWriteLock i buf len) \<longleftrightarrow> 0 \<le> i \<and> i < int NUM_TERMINALS \<and> 0 < len"
| "kc_ok _ \<longleftrightarrow> True"

text \<open>
  \<open>kinv T\<close>: the queues are well-formed doubly linked lists whose nodes lie below the allocation
  pointer, the tables have their sizes, the terminals of \<open>T\<close> are in order.
\<close>

definition kinv :: "nat set \<Rightarrow> kstate \<Rightarrow> bool" where
  "kinv T s \<longleftrightarrow> qwf (qh s) \<and> limit (qh s) \<le> next_addr s \<and> next_addr s \<noteq> 0 \<and> tables_ok (km s) \<and>
     length (terminals s) = NUM_TERMINALS \<and> (\<forall>i \<in> T. i < NUM_TERMINALS \<longrightarrow> tty_ok (terminals s ! i)) \<and>
     (\<forall>tbl. proc_table s = Some tbl \<longrightarrow> length tbl = MAX_PROCS) \<and>
     (\<forall>p b. pcbs s p = Some b \<longrightarrow> kc_ok (kernel_context b)) \<and>
     length (TRAP_VECTOR s) = TRAP_VECTOR_SIZE"

lemma kinv_upd [simp]:
  "kinv T (s\<lparr>current_process := a\<rparr>) = kinv T s" "kinv T (s\<lparr>idle_proc := a\<rparr>) = kinv T s"
  "kinv T (s\<lparr>init_proc := a\<rparr>) = kinv T s" "kinv T (s\<lparr>ctx := c\<rparr>) = kinv T s"
  "kinv T (s\<lparr>ready_queue := a\<rparr>) = kinv T s" "kinv T (s\<lparr>blocked_queue := a\<rparr>) = kinv T s"
  "kinv T (s\<lparr>zombie_queue := a\<rparr>) = kinv T s" "kinv T (s\<lparr>waiting_parents := a\<rparr>) = kinv T s"
  "kinv T (s\<lparr>transmitted := d\<rparr>) = kinv T s" "kinv T (s\<lparr>calls := n\<rparr>) = kinv T s"
  by (simp_all add: kinv_def)

lemma kinv_km: "kinv T s \<Longrightarrow> tables_ok m \<Longrightarrow> kinv T (s\<lparr>km := m\<rparr>)"
  by (simp add: kinv_def)

lemma keeps_on_mem [keeps_intros]:
  assumes "keeps tables_ok m"
  shows "keeps (kinv T) (on_mem m)"
  unfolding on_mem_def
proof (rule keeps_zoom)
  fix s assume k: "kinv T s"
  then have "tables_ok (km s)" by (simp add: kinv_def)
  with assms have "holds_after tables_ok (m (km s))" by (rule keepsD)
  then show "holds_after (\<lambda>c. kinv T (s\<lparr>km := c\<rparr>)) (m (km s))"
    using k kinv_km by (cases "m (km s)") auto
qed

lemma keeps_malloc [keeps_intros]: "keeps (kinv T) malloc"
  by (auto simp: keeps_def malloc_def kinv_def)

lemma keeps_helper_new_pid [keeps_intros]: "keeps (kinv T) helper_new_pid"
  by (simp add: keeps_def helper_new_pid_def)

lemma keeps_get_pcb [keeps_intros]: "keeps I (get_pcb p)"
  unfolding get_pcb_def by (intro keeps_intros)

lemma keeps_upd_pcb [keeps_intros]:
  assumes "\<And>b. kc_ok (kernel_context b) \<Longrightarrow> kc_ok (kernel_context (f b))"
  shows "keeps (kinv T) (upd_pcb p f)"
proof (rule keepsI)
  fix s assume "kinv T s"
  then show "holds_after (kinv T) (upd_pcb p f s)"
    using assms by (auto simp: upd_pcb_def get_pcb_def prog_simps kinv_def split: option.split)
qed

text \<open>What the invariant says of a process that is looked up.\<close>

lemma keeps_get_pcb_bnd:
  assumes "\<And>b. kc_ok (kernel_context b) \<Longrightarrow> keeps (kinv T) (f b)"
  shows "keeps (kinv T) (bnd (get_pcb p) f)"
proof (rule keepsI)
  fix s assume k: "kinv T s"
  show "holds_after (kinv T) (bnd (get_pcb p) f s)"
  proof (cases "p = 0 \<or> pcbs s p = None")
    case True
    then show ?thesis by (auto simp: get_pcb_def prog_simps)
  next
    case False
    then obtain b where b: "pcbs s p = Some b" "p \<noteq> 0" by auto
    with k have "kc_ok (kernel_context b)" by (auto simp: kinv_def)
    from keepsD [OF assms [OF this] k] b show ?thesis by (simp add: get_pcb_def prog_simps)
  qed
qed

lemma keeps_get_tty [keeps_intros]: "keeps I (get_tty i)"
  by (simp add: keeps_def get_tty_def)

lemma keeps_upd_tty:
  assumes "\<And>t. tty_ok t \<Longrightarrow> tty_ok (f t)"
  shows "keeps (kinv T) (upd_tty i f)"
proof (rule keepsI)
  fix s assume k: "kinv T s"
  have "tty_ok ((terminals s)[nat i := f (terminals s ! nat i)] ! j)" if "j \<in> T" "j < NUM_TERMINALS" for j
    using k that assms [of "terminals s ! nat i"] by (cases "j = nat i") (auto simp: kinv_def)
  with k show "holds_after (kinv T) (upd_tty i f s)"
    by (auto simp: upd_tty_def get_tty_def prog_simps kinv_def)
qed

lemma keeps_on_queues:
  assumes "\<And>h. qwf h \<Longrightarrow> holds_after (\<lambda>h'. qwf h' \<and> limit h' = limit h) (m h)"
  shows "keeps (kinv T) (on_queues m)"
  unfolding on_queues_def
proof (rule keeps_zoom)
  fix s assume k: "kinv T s"
  then have "qwf (qh s)" by (simp add: kinv_def)
  from assms [OF this] k show "holds_after (\<lambda>c. kinv T (s\<lparr>qh := c\<rparr>)) (m (qh s))"
    by (cases "m (qh s)") (auto simp: kinv_def)
qed

lemma keeps_on_queues_pure:
  assumes "\<And>h. holds_after (\<lambda>h'. h' = h) (m h)"
  shows "keeps (kinv T) (on_queues m)"
proof (rule keeps_on_queues)
  fix h assume "qwf h"
  with assms [of h] show "holds_after (\<lambda>h'. qwf h' \<and> limit h' = limit h) (m h)"
    by (cases "m h") auto
qed

lemma keeps_kqueueRemove [keeps_intros]: "keeps (kinv T) (kqueueRemove q p)"
  unfolding kqueueRemove_def by (rule keeps_on_queues) (rule queueRemove_wf)

lemma keeps_kqueueDequeue [keeps_intros]: "keeps (kinv T) (kqueueDequeue q)"
  unfolding kqueueDequeue_def by (rule keeps_on_queues) (rule queueDequeue_wf)

lemma keeps_queueDelete [keeps_intros]: "keeps (kinv T) (on_queues (queueDelete q))"
  by (rule keeps_on_queues) (rule queueDelete_wf)

lemma keeps_kis_empty [keeps_intros]: "keeps (kinv T) (kis_empty q)"
  unfolding kis_empty_def by (rule keeps_on_queues_pure) (rule is_empty_pure)

lemma keeps_get_queue [keeps_intros]: "keeps (kinv T) (on_queues (get_queue q))"
  by (rule keeps_on_queues_pure) (simp add: get_queue_def prog_simps split: option.split)

lemma keeps_get_node [keeps_intros]: "keeps (kinv T) (on_queues (get_node q))"
  by (rule keeps_on_queues_pure) (simp add: get_node_def prog_simps split: option.split)

lemma keeps_kqueueEnqueue [keeps_intros]: "keeps (kinv T) (kqueueEnqueue q p)"
proof (rule keepsI)
  fix s assume k: "kinv T s"
  have wf: "qwf (qh s)" and lim: "limit (qh s) \<le> next_addr s" using k by (simp_all add: kinv_def)
  show "holds_after (kinv T) (kqueueEnqueue q p s)"
  proof (cases "q = 0 \<or> p = 0")
    case True
    from queueEnqueue_wf [OF wf, of 0 q p] True k show ?thesis
      by (cases "queueEnqueue 0 q p (qh s)") (auto simp: kqueueEnqueue_def on_queues_def zoom_app kinv_def)
  next
    case False
    show ?thesis
    proof (cases "malloc_ok s (calls s)")
      case True
      from queueEnqueue_wf [OF wf, of "next_addr s" q p] lim False k True show ?thesis
        by (cases "queueEnqueue (next_addr s) q p (qh s)")
           (auto simp: kqueueEnqueue_def on_queues_def bnd_app malloc_def zoom_app kinv_def)
    next
      case fail: False
      from queueEnqueue_wf [OF wf, of 0 q p] False k fail show ?thesis
        by (cases "queueEnqueue 0 q p (qh s)")
           (auto simp: kqueueEnqueue_def on_queues_def bnd_app malloc_def zoom_app kinv_def)
    qed
  qed
qed

lemma keeps_kqueueCreate [keeps_intros]: "keeps (kinv T) kqueueCreate"
proof (rule keepsI)
  fix s assume k: "kinv T s"
  have wf: "qwf (qh s)" and lim: "limit (qh s) \<le> next_addr s" using k by (simp_all add: kinv_def)
  show "holds_after (kinv T) (kqueueCreate s)"
  proof (cases "malloc_ok s (calls s)")
    case True
    from queueCreate_wf [OF wf, of "next_addr s"] lim k True show ?thesis
      by (cases "queueCreate (next_addr s) (qh s)")
         (auto simp: kqueueCreate_def on_queues_def bnd_app malloc_def zoom_app kinv_def)
  next
    case False
    from queueCreate_wf [OF wf, of 0] k False show ?thesis
      by (cases "queueCreate 0 (qh s)")
         (auto simp: kqueueCreate_def on_queues_def bnd_app malloc_def zoom_app kinv_def)
  qed
qed

lemma keeps_next_process [keeps_intros]: "keeps (kinv T) next_process"
  unfolding next_process_def by (intro keeps_intros)

lemma keeps_save_ctx [keeps_intros]: "keeps (kinv T) save_ctx"
  unfolding save_ctx_def by (intro keeps_intros) simp

lemma keeps_load_ctx [keeps_intros]: "keeps (kinv T) load_ctx"
  unfolding load_ctx_def by (intro keeps_intros) simp

lemma keeps_ctx_reg0 [keeps_intros]: "keeps (kinv T) (ctx_reg0 v)"
  unfolding ctx_reg0_def by (intro keeps_intros) simp

text \<open>The invariant together with the exact terminals.\<close>

definition kinvt :: "nat set \<Rightarrow> terminal_t list \<Rightarrow> kstate \<Rightarrow> bool" where
  "kinvt T ts s \<longleftrightarrow> kinv T s \<and> terminals s = ts"

lemma kinvt_kinv: "kinvt T ts s \<Longrightarrow> kinv T s"
  by (simp add: kinvt_def)

text \<open>The operations on processes, queues and memory do not change the terminals.\<close>

definition same_ttys :: "(kstate, 'a) prog \<Rightarrow> bool" where
  "same_ttys m \<longleftrightarrow> (\<forall>ts. keeps (\<lambda>s. terminals s = ts) m)"

lemma keeps_kinvt:
  assumes "keeps (kinv T) m" and "same_ttys m"
  shows "leads (kinvt T ts) m (kinvt T ts)"
proof (rule leadsI)
  fix s assume "kinvt T ts s"
  then have "holds_after (kinv T) (m s)" "holds_after (\<lambda>s. terminals s = ts) (m s)"
    using assms by (auto simp: kinvt_def keeps_def same_ttys_def)
  then show "holds_after (kinvt T ts) (m s)" by (cases "m s") (auto simp: kinvt_def)
qed

lemma same_ttys_on_mem [simp]: "same_ttys (on_mem m)"
  unfolding same_ttys_def on_mem_def
  by (auto intro!: keeps_zoom simp: holds_after_def split: outcome.split)

lemma same_ttys_on_queues [simp]: "same_ttys (on_queues m)"
  unfolding same_ttys_def on_queues_def
  by (auto intro!: keeps_zoom simp: holds_after_def split: outcome.split)

lemma same_ttys_malloc [simp]: "same_ttys malloc"
  by (simp add: same_ttys_def keeps_def malloc_def)

lemma same_ttys_upd_pcb [simp]: "same_ttys (upd_pcb p f)"
  by (simp add: same_ttys_def keeps_def upd_pcb_def get_pcb_def prog_simps split: option.split)

lemma same_ttys_get_pcb [simp]: "same_ttys (get_pcb p)"
  by (simp add: same_ttys_def keeps_get_pcb)

lemma same_ttys_bnd: "same_ttys m \<Longrightarrow> (\<And>a. same_ttys (f a)) \<Longrightarrow> same_ttys (bnd m f)"
  unfolding same_ttys_def by (auto intro: keeps_bnd)

lemma same_ttys_kqueue [simp]:
  "same_ttys (kqueueEnqueue q p)" "same_ttys (kqueueDequeue q)" "same_ttys (kqueueRemove q p)" "same_ttys (kis_empty q)"
  by (auto simp: kqueueEnqueue_def kqueueDequeue_def kqueueRemove_def kis_empty_def intro!: same_ttys_bnd)

lemma leads_get_tty:
  assumes "\<And>ts. 0 \<le> i \<Longrightarrow> nat i < length ts \<Longrightarrow> length ts = NUM_TERMINALS \<Longrightarrow>
     \<forall>j \<in> T. j < NUM_TERMINALS \<longrightarrow> tty_ok (ts ! j) \<Longrightarrow> leads (kinvt T ts) (f (ts ! nat i)) (kinv T)"
  shows "keeps (kinv T) (bnd (get_tty i) f)"
proof (rule keepsI)
  fix s assume k: "kinv T s"
  then have "length (terminals s) = NUM_TERMINALS" "\<forall>j \<in> T. j < NUM_TERMINALS \<longrightarrow> tty_ok (terminals s ! j)"
    "kinvt T (terminals s) s"
    by (simp_all add: kinv_def kinvt_def)
  with assms [of "terminals s"] k show "holds_after (kinv T) (bnd (get_tty i) f s)"
    by (auto simp: get_tty_def bnd_app leads_def)
qed

lemma leads_upd_tty:
  assumes "length ts = NUM_TERMINALS"
    and "0 \<le> i \<Longrightarrow> nat i < length ts \<Longrightarrow> nat i \<in> T \<Longrightarrow> tty_ok (f (ts ! nat i))"
  shows "leads (kinvt T ts) (upd_tty i f) (kinvt T (ts[nat i := f (ts ! nat i)]))"
proof (rule leadsI)
  fix s assume k: "kinvt T ts s"
  have "tty_ok (ts[nat i := f (ts ! nat i)] ! j)" if "j \<in> T" "j < NUM_TERMINALS" "0 \<le> i" "nat i < length ts" for j
    using k that assms by (cases "j = nat i") (auto simp: kinv_def kinvt_def)
  with k assms show "holds_after (kinvt T (ts[nat i := f (ts ! nat i)])) (upd_tty i f s)"
    by (auto simp: upd_tty_def get_tty_def prog_simps kinv_def kinvt_def)
qed

lemma keeps_by_ttys:
  assumes "\<And>ts. length ts = NUM_TERMINALS \<Longrightarrow> \<forall>j \<in> T. j < NUM_TERMINALS \<longrightarrow> tty_ok (ts ! j) \<Longrightarrow>
    leads (kinvt T ts) m (kinv T)"
  shows "keeps (kinv T) m"
proof (rule keepsI)
  fix s assume "kinv T s"
  then have "kinvt T (terminals s) s" "length (terminals s) = NUM_TERMINALS"
    "\<forall>j \<in> T. j < NUM_TERMINALS \<longrightarrow> tty_ok (terminals s ! j)" by (simp_all add: kinvt_def kinv_def)
  with assms [of "terminals s"] show "holds_after (kinv T) (m s)" by (simp add: leads_def)
qed

lemma copy_in_length: "copy_in a n m = Ret bs m' \<Longrightarrow> length bs = n"
proof (induction n arbitrary: a m bs m')
  case 0
  then show ?case by (simp add: prog_simps)
next
  case (Suc n)
  then show ?case by (auto simp: prog_simps split: outcome.splits)
qed

lemma leads_copy_in:
  assumes "\<And>bytes. length bytes = n \<Longrightarrow> leads (kinvt T ts) (f bytes) (kinv T)"
  shows "leads (kinvt T ts) (bnd (on_mem (copy_in a n)) f) (kinv T)"
proof (rule leadsI)
  fix s assume k: "kinvt T ts s"
  then have m: "holds_after tables_ok (copy_in a n (km s))"
    using keepsD [OF keeps_copy_in] by (simp add: kinvt_def kinv_def)
  show "holds_after (kinv T) (bnd (on_mem (copy_in a n)) f s)"
  proof (cases "copy_in a n (km s)")
    case (Ret bs c)
    with m k have "kinvt T ts (s\<lparr>km := c\<rparr>)" by (auto simp: kinvt_def kinv_km)
    with assms [OF copy_in_length [OF Ret]] Ret show ?thesis
      by (simp add: leads_def bnd_app on_mem_def zoom_app)
  qed (use m k in \<open>auto simp: bnd_app on_mem_def zoom_app kinvt_def intro: kinv_km\<close>)
qed

end
