(* ===== verification/Proc.thy ===== *)
theory Proc
  imports Kernel_State
begin

text \<open>
  \<^verbatim>\<open>src/proc.c\<close>: allocation and deletion of process control blocks, the process table, the process
  queues and the idle process, and the calls of \<^verbatim>\<open>CopyPT\<close> and of the kernel stack functions on
  processes.
\<close>

section \<open>Operations\<close>

definition free_pcb :: "addr \<Rightarrow> (kstate, unit) prog" where
  "free_pcb p = modify (\<lambda>s. s\<lparr>pcbs := (pcbs s)(p := None)\<rparr>)"

definition free_table :: "addr \<Rightarrow> (kstate, unit) prog" where
  "free_table t = on_mem (modify (\<lambda>m. m\<lparr>pts := (pts m)(t := None)\<rparr>))"

definition allocNewPCB :: "(kstate, addr) prog" where
  "allocNewPCB = bnd malloc (\<lambda>process.
     if process = 0 then ret 0
     else thn (modify (\<lambda>s. s\<lparr>pcbs := (pcbs s)(process \<mapsto>
                 pcb0\<lparr>ppid := INVALID_PID, pstate := PROC_FREE, exit_status := 0\<rparr>)\<rparr>))
    (bnd malloc (\<lambda>table.
     thn (upd_pcb process (\<lambda>b. b\<lparr>ptbr := table\<rparr>))
     (if table = 0 then thn (free_pcb process) (ret 0)
      else thn (on_mem (modify (\<lambda>m. m\<lparr>pts := (pts m)(table \<mapsto> replicate MAX_PT_LEN pte0)\<rparr>)))
     (thn (upd_pcb process (\<lambda>b. b\<lparr>ptlr := MAX_PT_LEN,
              user_heap_start_vaddr := USER_MEM_START, user_heap_end_vaddr := USER_MEM_START,
              user_stack_base_vaddr := USER_STACK_BASE, kstack := 0,
              user_context := uctx0, kernel_context := KC_none,
              pcb_next := 0, pcb_prev := 0, parent := 0\<rparr>))
     (bnd kqueueCreate (\<lambda>children.
      thn (upd_pcb process (\<lambda>b. b\<lparr>children_processes := children\<rparr>))
      (if children = 0 then thn (free_table table) (thn (free_pcb process) (ret 0))
       else thn (upd_pcb process (\<lambda>b. b\<lparr>waiting_for_child_pid := INVALID_PID,
               last_run_tick := 0, delay_ticks := 0\<rparr>))
           (ret process)))))))))"

definition deletePCBHelper :: "addr \<Rightarrow> (kstate, unit) prog" where
  "deletePCBHelper process = upd_pcb process (\<lambda>b. b\<lparr>parent := 0, pstate := PROC_ORPHAN\<rparr>)"

definition deletePCB :: "addr \<Rightarrow> (kstate, unit) prog" where
  "deletePCB process =
     (if process = 0 then halt
      else bnd (get_pcb process) (\<lambda>b.
        thn (if children_processes b \<noteq> 0 then queueIterate qh (children_processes b) deletePCBHelper
             else ret ())
       (thn (on_queues (queueDelete (children_processes b)))
       (thn (free_table (ptbr b))
       (thn (free_table (kstack b))
            (free_pcb process))))))"

text \<open>The body of the search loop of \<^verbatim>\<open>getFreePCB\<close>, for slot \<open>i\<close>.\<close>

definition proc_slot :: "nat \<Rightarrow> (kstate, addr) prog" where
  "proc_slot i = (\<lambda>s. case proc_table s of
       None \<Rightarrow> Fault NullDeref
     | Some tbl \<Rightarrow> if length tbl \<le> i then Fault OutOfBounds else Ret (tbl ! i) s)"

definition fill_slot :: "nat \<Rightarrow> (kstate, addr) prog" where
  "fill_slot i = bnd allocNewPCB (\<lambda>pcb.
     thn (modify (\<lambda>s. s\<lparr>proc_table := map_option (\<lambda>tbl. tbl[i := pcb]) (proc_table s)\<rparr>))
    (thn (upd_pcb pcb (\<lambda>b. b\<lparr>pstate := PROC_RUNNING\<rparr>))
    (bnd helper_new_pid (\<lambda>n.
     thn (upd_pcb pcb (\<lambda>b. b\<lparr>pid := n\<rparr>)) (ret pcb)))))"

definition getFreePCB :: "(kstate, addr) prog" where
  "getFreePCB = bnd (gets proc_table) (\<lambda>pt.
     if pt = None then ret 0
     else bnd (for_ret 0 MAX_PROCS (\<lambda>i. bnd (proc_slot i) (\<lambda>e.
            if e = 0 then bnd (fill_slot i) (\<lambda>pcb. ret (Some pcb)) else ret None)))
         (\<lambda>r. case r of Some pcb \<Rightarrow> ret pcb | None \<Rightarrow> ret 0))"

definition CopyPT :: "addr \<Rightarrow> addr \<Rightarrow> (kstate, int) prog" where
  "CopyPT src dst = bnd (get_pcb src) (\<lambda>a. bnd (get_pcb dst) (\<lambda>b.
     on_mem (CopyPT_tables (ptbr a) (ptbr b) (pid b))))"

definition CloneRegion1 :: "addr \<Rightarrow> addr \<Rightarrow> (kstate, unit) prog" where
  "CloneRegion1 pcb_from pcb_to = bnd (get_pcb pcb_from) (\<lambda>a. bnd (get_pcb pcb_to) (\<lambda>b.
     on_mem (CloneRegion1_tables (ptbr a) (ptbr b) (pid b))))"

definition create_or_halt :: "(addr \<Rightarrow> kstate \<Rightarrow> kstate) \<Rightarrow> (kstate, unit) prog" where
  "create_or_halt assign = bnd kqueueCreate (\<lambda>q. thn (modify (assign q)) (if q = 0 then halt else ret ()))"

definition InitializeProcQueues :: "(kstate, unit) prog" where
  "InitializeProcQueues =
     thn (create_or_halt (\<lambda>q s. s\<lparr>ready_queue := q\<rparr>))
    (thn (create_or_halt (\<lambda>q s. s\<lparr>blocked_queue := q\<rparr>))
    (thn (create_or_halt (\<lambda>q s. s\<lparr>zombie_queue := q\<rparr>))
         (create_or_halt (\<lambda>q s. s\<lparr>waiting_parents := q\<rparr>))))"

definition kInitializeKernelStackIdle :: "(kstate, addr) prog" where
  "kInitializeKernelStackIdle = bnd malloc (\<lambda>t. on_mem (InitializeKernelStackIdle t))"

definition kInitializeKernelStackProcess :: "(kstate, addr) prog" where
  "kInitializeKernelStackProcess = bnd malloc (\<lambda>t. on_mem (InitializeKernelStackProcess t))"

text \<open>\<open>do_idle\<close> is the address of \<^verbatim>\<open>DoIdle\<close>.\<close>

definition CreateIdlePCB :: "word32 \<Rightarrow> (kstate, addr) prog" where
  "CreateIdlePCB do_idle = bnd getFreePCB (\<lambda>p.
     thn (modify (\<lambda>s. s\<lparr>idle_proc := p\<rparr>))
    (if p = 0 then halt
     else bnd (on_mem (allocFrame FRAME_USER 0)) (\<lambda>ustack_pfn.
      bnd (get_pcb p) (\<lambda>b.
      thn (on_mem (MapPage (ptbr b) (int (vpn_of (VMEM_1_LIMIT - 0x2000 - VMEM_1_BASE))) ustack_pfn
             (PROT_READ OR PROT_WRITE)))
     (thn (upd_pcb p (\<lambda>b. b\<lparr>user_context := uctx0\<lparr>sp := VMEM_1_LIMIT - 4\<rparr>\<rparr>))
     (bnd kInitializeKernelStackIdle (\<lambda>k.
      thn (upd_pcb p (\<lambda>b. b\<lparr>kstack := k\<rparr>))
     (thn (upd_pcb p (\<lambda>b. b\<lparr>user_context := (user_context b)\<lparr>pc := do_idle\<rparr>\<rparr>))
     (thn (upd_pcb p (\<lambda>b. b\<lparr>pstate := PROC_RUNNING\<rparr>))
          (ret p))))))))))"

section \<open>The operations keep the kernel's invariant\<close>

lemma keeps_free_pcb [keeps_intros]: "keeps (kinv T) (free_pcb p)"
  unfolding free_pcb_def by (intro keeps_intros) (simp add: kinv_def)

lemma keeps_free_table [keeps_intros]: "keeps (kinv T) (free_table t)"
  unfolding free_table_def by (intro keeps_intros) simp

lemma keeps_allocNewPCB [keeps_intros]: "keeps (kinv T) allocNewPCB"
  unfolding allocNewPCB_def by (intro keeps_intros) (simp_all add: kinv_def pcb0_def)

lemma keeps_deletePCBHelper [keeps_intros]: "keeps (kinv T) (deletePCBHelper p)"
  unfolding deletePCBHelper_def by (intro keeps_intros) simp

lemma keeps_deletePCB [keeps_intros]: "keeps (kinv T) (deletePCB p)"
  unfolding deletePCB_def by (intro keeps_intros)

lemma keeps_proc_slot [keeps_intros]: "keeps I (proc_slot i)"
  by (simp add: keeps_def proc_slot_def split: option.split)

lemma keeps_fill_slot [keeps_intros]: "keeps (kinv T) (fill_slot i)"
  unfolding fill_slot_def by (intro keeps_intros) (auto simp: kinv_def)

lemma keeps_getFreePCB [keeps_intros]: "keeps (kinv T) getFreePCB"
  unfolding getFreePCB_def by (intro keeps_intros)

lemma keeps_CopyPT [keeps_intros]: "keeps (kinv T) (CopyPT a b)"
  unfolding CopyPT_def by (intro keeps_intros)

lemma keeps_CloneRegion1 [keeps_intros]: "keeps (kinv T) (CloneRegion1 a b)"
  unfolding CloneRegion1_def by (intro keeps_intros)

lemma keeps_InitializeProcQueues [keeps_intros]: "keeps (kinv T) InitializeProcQueues"
  unfolding InitializeProcQueues_def create_or_halt_def by (intro keeps_intros) simp_all

lemma keeps_kInitializeKernelStackIdle [keeps_intros]: "keeps (kinv T) kInitializeKernelStackIdle"
  unfolding kInitializeKernelStackIdle_def by (intro keeps_intros)

lemma keeps_kInitializeKernelStackProcess [keeps_intros]: "keeps (kinv T) kInitializeKernelStackProcess"
  unfolding kInitializeKernelStackProcess_def by (intro keeps_intros)

lemma keeps_CreateIdlePCB [keeps_intros]: "keeps (kinv T) (CreateIdlePCB a)"
  unfolding CreateIdlePCB_def by (intro keeps_intros) simp_all

end
