(* ===== verification/Kernel.thy ===== *)
theory Kernel
  imports Proc
begin

text \<open>
  The context switch of \<^verbatim>\<open>src/kernel.c\<close>. \<^verbatim>\<open>KernelContextSwitch\<close> is the machine's: it saves the
  caller's kernel context, runs the given function on it and continues with the context that
  function returns; it fails (and returns -1 without running the function) when \<open>kcs_ok\<close> says so.
  The saved context is the argument \<open>kc\<close>, the place where the caller will continue.

  With \<^verbatim>\<open>KCSwitch\<close> the processor goes to another process, so the outcome is \<open>Switched\<close>; with
  \<^verbatim>\<open>KCCopy\<close> the caller itself continues.
\<close>

text \<open>The loop of \<^verbatim>\<open>KCSwitch\<close> that maps the kernel stack of the next process.\<close>

definition map_kernel_stack :: "addr \<Rightarrow> (kmem, unit) prog" where
  "map_kernel_stack next_kstack = for_do 0 KSTACK_PAGES (\<lambda>i. bnd (get_pte next_kstack (int i)) (\<lambda>e.
     upd_pte0 (vpn_of KERNEL_STACK_BASE + i) (\<lambda>_. e)))"

definition KCSwitch :: "KernelContext \<Rightarrow> addr \<Rightarrow> addr \<Rightarrow> (kstate, unit) prog" where
  "KCSwitch kc_in old new =
     thn (if old \<noteq> 0 then upd_pcb old (\<lambda>b. b\<lparr>kernel_context := kc_in\<rparr>) else ret ())
    (bnd (get_pcb new) (\<lambda>b.
     thn (on_mem (map_kernel_stack (kstack b)))
    (thn (modify (\<lambda>s. s\<lparr>current_process := new\<rparr>))
    (thn (upd_pcb new (\<lambda>b. b\<lparr>pstate := PROC_RUNNING\<rparr>))
    (thn (on_mem (WriteRegister (REG_PTBR1 (ptbr b))))
    (thn (on_mem (WriteRegister (REG_PTLR1 (ptlr b))))
         (on_mem (WriteRegister (REG_TLB_FLUSH TLB_FLUSH_ALL)))))))))"

definition KCCopy :: "KernelContext \<Rightarrow> addr \<Rightarrow> (kstate, unit) prog" where
  "KCCopy kc_in new =
     thn (upd_pcb new (\<lambda>b. b\<lparr>kernel_context := kc_in\<rparr>))
    (bnd (get_pcb new) (\<lambda>b.
     bnd (if kstack b = 0
          then bnd kInitializeKernelStackProcess (\<lambda>k. thn (upd_pcb new (\<lambda>b. b\<lparr>kstack := k\<rparr>)) (ret k))
          else ret (kstack b)) (\<lambda>kstack_new.
     thn (for_do 0 KSTACK_PAGES (\<lambda>i. bnd (gets current_process) (\<lambda>p. bnd (get_pcb p) (\<lambda>c.
            on_mem (bnd (get_pte (kstack c) (int i)) (\<lambda>e_parent.
                    bnd (get_pte kstack_new (int i)) (\<lambda>e_child.
                    CloneFrame (int (unat (pfn e_parent))) (int (unat (pfn e_child))))))))))
         (on_mem (WriteRegister (REG_TLB_FLUSH TLB_FLUSH_KSTACK))))))"

definition count_call :: "(kstate, nat) prog" where
  "count_call = (\<lambda>s. Ret (calls s) (s\<lparr>calls := Suc (calls s)\<rparr>))"

definition KernelContextSwitch_KCSwitch :: "KernelContext \<Rightarrow> addr \<Rightarrow> addr \<Rightarrow> (kstate, int) prog" where
  "KernelContextSwitch_KCSwitch kc old new = bnd count_call (\<lambda>n. bnd (gets (\<lambda>s. kcs_ok s n)) (\<lambda>ok.
     if ok then (\<lambda>s. case KCSwitch kc old new s of
         Ret _ t \<Rightarrow> Switched t | Switched t \<Rightarrow> Switched t | Halted t \<Rightarrow> Halted t | Fault e \<Rightarrow> Fault e)
     else ret (-1)))"

definition KernelContextSwitch_KCCopy :: "KernelContext \<Rightarrow> addr \<Rightarrow> (kstate, int) prog" where
  "KernelContextSwitch_KCCopy kc new = bnd count_call (\<lambda>n. bnd (gets (\<lambda>s. kcs_ok s n)) (\<lambda>ok.
     if ok then thn (KCCopy kc new) (ret 0) else ret (-1)))"

section \<open>The context switch keeps the kernel's invariant\<close>

lemma keeps_map_kernel_stack [keeps_intros]: "keeps tables_ok (map_kernel_stack t)"
  unfolding map_kernel_stack_def by (intro keeps_intros)

lemma keeps_KCSwitch [keeps_intros]: "kc_ok kc \<Longrightarrow> keeps (kinv T) (KCSwitch kc old new)"
  unfolding KCSwitch_def by (intro keeps_intros) simp_all

lemma keeps_KCCopy [keeps_intros]: "kc_ok kc \<Longrightarrow> keeps (kinv T) (KCCopy kc new)"
  unfolding KCCopy_def by (intro keeps_intros) simp_all

lemma keeps_count_call [keeps_intros]: "keeps (kinv T) count_call"
  by (simp add: keeps_def count_call_def)

lemma keeps_KernelContextSwitch_KCSwitch [keeps_intros]:
  assumes "kc_ok kc"
  shows "keeps (kinv T) (KernelContextSwitch_KCSwitch kc old new)"
proof -
  have "keeps (kinv T) (\<lambda>s. case KCSwitch kc old new s of
      Ret _ t \<Rightarrow> Switched t | Switched t \<Rightarrow> Switched t | Halted t \<Rightarrow> Halted t | Fault e \<Rightarrow> Fault e)"
  proof (rule keepsI)
    fix s assume "kinv T s"
    with keeps_KCSwitch [OF assms] have "holds_after (kinv T) (KCSwitch kc old new s)" by (rule keepsD)
    then show "holds_after (kinv T) (case KCSwitch kc old new s of
        Ret _ t \<Rightarrow> Switched t | Switched t \<Rightarrow> Switched t | Halted t \<Rightarrow> Halted t | Fault e \<Rightarrow> Fault e)"
      by (cases "KCSwitch kc old new s") simp_all
  qed
  then show ?thesis unfolding KernelContextSwitch_KCSwitch_def by (intro keeps_intros)
qed

lemma keeps_KernelContextSwitch_KCCopy [keeps_intros]:
  "kc_ok kc \<Longrightarrow> keeps (kinv T) (KernelContextSwitch_KCCopy kc new)"
  unfolding KernelContextSwitch_KCCopy_def by (intro keeps_intros)

section \<open>What a context switch does\<close>

text \<open>
  The memory after the switch to a process with kernel stack \<open>ks\<close>: its stack is mapped, its
  region 1 table is active, the TLB is empty.
\<close>

definition switch_mem :: "pte list \<Rightarrow> PCB \<Rightarrow> kmem \<Rightarrow> kmem" where
  "switch_mem ks b m = m\<lparr>pt_region0 := (pt_region0 m)[126 := ks ! 0, 127 := ks ! 1],
     reg_ptbr1 := ptbr b, reg_ptlr1 := ptlr b, tlb := (\<lambda>_. None)\<rparr>"

text \<open>A process that can be switched to: live, with a kernel stack.\<close>

definition switchable :: "addr \<Rightarrow> PCB \<Rightarrow> pte list \<Rightarrow> kstate \<Rightarrow> bool" where
  "switchable p b ks s \<longleftrightarrow> p \<noteq> 0 \<and> pcbs s p = Some b \<and> kstack b \<noteq> 0 \<and>
     pts (km s) (kstack b) = Some ks \<and> length ks = KSTACK_PAGES"

lemma kernel_stack_vpn [simp]: "vpn_of KERNEL_STACK_BASE = 126"
  by (simp add: vpn_of_div KERNEL_STACK_BASE_def)

lemma kstate_eqI:
  assumes "km a = km b" "qh a = qh b" "pcbs a = pcbs b" "proc_table a = proc_table b" "idle_proc a = idle_proc b"
    "init_proc a = init_proc b" "current_process a = current_process b" "ready_queue a = ready_queue b"
    "blocked_queue a = blocked_queue b" "zombie_queue a = zombie_queue b" "waiting_parents a = waiting_parents b"
    "terminals a = terminals b" "TRAP_VECTOR a = TRAP_VECTOR b" "ctx a = ctx b" "transmitted a = transmitted b"
    "next_addr a = next_addr b" "calls a = calls b" "malloc_ok a = malloc_ok b" "kcs_ok a = kcs_ok b" "new_pid a = new_pid b"
  shows "a = (b :: kstate)"
  using assms by simp

lemma map_kernel_stack_eval:
  assumes "t \<noteq> 0" and "pts m t = Some ks" and "length ks = KSTACK_PAGES" and "tables_ok m"
  shows "map_kernel_stack t m = Ret () (m\<lparr>pt_region0 := (pt_region0 m)[126 := ks ! 0, 127 := ks ! 1]\<rparr>)"
  using assms
  by (simp add: map_kernel_stack_def KSTACK_PAGES_def for_do_step for_do_done prog_simps get_pte_eval
      upd_pte0_eval numeral_2_eq_2 tables_ok_def MAX_PT_LEN_def)

lemma KCSwitch_eval:
  assumes new: "switchable new nb ks s" and old: "old \<noteq> 0" "pcbs s old = Some ob" "old \<noteq> new"
    and tab: "tables_ok (km s)"
  shows "KCSwitch kc old new s = Ret () (s\<lparr>km := switch_mem ks nb (km s), current_process := new,
     pcbs := (pcbs s)(old \<mapsto> ob\<lparr>kernel_context := kc\<rparr>, new \<mapsto> nb\<lparr>pstate := PROC_RUNNING\<rparr>)\<rparr>)"
  using assms map_kernel_stack_eval [of "kstack nb" "km s" ks]
  by (simp add: KCSwitch_def switchable_def prog_simps WriteRegister_def switch_mem_def)

lemma KernelContextSwitch_eval:
  assumes "kcs_ok s (calls s)" and "switchable new nb ks s" and "old \<noteq> 0" "pcbs s old = Some ob" "old \<noteq> new"
    and "tables_ok (km s)"
  shows "KernelContextSwitch_KCSwitch kc old new s = Switched (s\<lparr>km := switch_mem ks nb (km s),
     current_process := new, calls := Suc (calls s),
     pcbs := (pcbs s)(old \<mapsto> ob\<lparr>kernel_context := kc\<rparr>, new \<mapsto> nb\<lparr>pstate := PROC_RUNNING\<rparr>)\<rparr>)"
proof -
  have "KCSwitch kc old new (s\<lparr>calls := Suc (calls s)\<rparr>) = Ret () (s\<lparr>km := switch_mem ks nb (km s),
     current_process := new, calls := Suc (calls s),
     pcbs := (pcbs s)(old \<mapsto> ob\<lparr>kernel_context := kc\<rparr>, new \<mapsto> nb\<lparr>pstate := PROC_RUNNING\<rparr>)\<rparr>)"
    using KCSwitch_eval [of new nb ks "s\<lparr>calls := Suc (calls s)\<rparr>" old ob kc] assms
    by (simp add: switchable_def)
  with assms(1) show ?thesis
    by (simp add: KernelContextSwitch_KCSwitch_def count_call_def prog_simps)
qed

text \<open>A process switched to itself (the idle process waiting for work) keeps the processor.\<close>

lemma KCSwitch_self:
  assumes new: "switchable p b ks s" and tab: "tables_ok (km s)"
  shows "KCSwitch kc p p s = Ret () (s\<lparr>km := switch_mem ks b (km s), current_process := p,
     pcbs := (pcbs s)(p \<mapsto> b\<lparr>kernel_context := kc, pstate := PROC_RUNNING\<rparr>)\<rparr>)"
  using assms map_kernel_stack_eval [of "kstack b" "km s" ks]
  by (simp add: KCSwitch_def switchable_def prog_simps WriteRegister_def switch_mem_def)

lemma switch_mem_coherent: "tlb_coherent (switch_mem ks b m)"
  by (simp add: tlb_coherent_def switch_mem_def)

lemma switch_mem_stack:
  assumes "tables_ok m" and "i < KSTACK_PAGES" and "length ks = KSTACK_PAGES" and "valid (ks ! i)"
  shows "translate (switch_mem ks b m) (KSTACK_START_PAGE + i) = Some (ks ! i)"
proof -
  have "length (pt_region0 m) = 128" using assms(1) by (simp add: tables_ok_def MAX_PT_LEN_def)
  moreover have "i = 0 \<or> i = 1" using assms(2) by (auto simp: KSTACK_PAGES_def)
  ultimately show ?thesis using assms(4)
    by (auto simp: translate_def switch_mem_def pt_entry_def MAX_PT_LEN_def KSTACK_START_PAGE_def)
qed

end
