(* ===== verification/Process.thy ===== *)
theory Process
  imports Kernel
begin

text \<open>
  \<^verbatim>\<open>src/syscalls/process.c\<close> (\<^verbatim>\<open>Exec\<close> is in the theory of the loader). A system call that gives up the
  processor ends with the switch; what it does after it is resumed is the definition with the
  suffix \<open>_resume\<close>.
\<close>

section \<open>Brk\<close>

fun Brk_grow :: "nat \<Rightarrow> addr \<Rightarrow> int \<Rightarrow> nat \<Rightarrow> nat \<Rightarrow> (kmem, bool) prog" where
  "Brk_grow 0 pt_region1 own vpn target = ret True"
| "Brk_grow (Suc k) pt_region1 own vpn target =
     (if vpn < target
      then bnd (get_pte pt_region1 (int vpn)) (\<lambda>e.
        if valid e then Brk_grow k pt_region1 own (Suc vpn) target
        else bnd (allocFrame FRAME_USER own) (\<lambda>f.
          if f = -1 then ret False
          else thn (upd_pte pt_region1 (int vpn) (\<lambda>e. e\<lparr>pfn := to_pfn f, prot := PROT_READ OR PROT_WRITE,
                                                        valid := True\<rparr>))
              (Brk_grow k pt_region1 own (Suc vpn) target)))
      else ret True)"

text \<open>
  The second loop tests the entry of \<^verbatim>\<open>pt_region0\<close>, and moves up after it has freed a page, so it may
  run forever; \<open>fuel\<close> bounds the iterations. The result is the final page number.
\<close>

fun Brk_shrink :: "nat \<Rightarrow> addr \<Rightarrow> nat \<Rightarrow> nat \<Rightarrow> (kmem, nat) prog" where
  "Brk_shrink 0 pt_region1 vpn target = fail Diverges"
| "Brk_shrink (Suc fuel) pt_region1 vpn target =
     (if target < vpn
      then bnd (get_pte0 vpn) (\<lambda>e0.
        if \<not> valid e0 then Brk_shrink fuel pt_region1 (vpn - 1) target
        else bnd (get_pte pt_region1 (int vpn)) (\<lambda>e.
          thn (freeFrame (int (unat (pfn e))))
         (thn (upd_pte pt_region1 (int vpn) (\<lambda>e. e\<lparr>valid := False\<rparr>))
         (thn (WriteRegister (REG_TLB_FLUSH (push_bit PAGESHIFT (of_nat vpn) + VMEM_1_BASE)))
              (Brk_shrink fuel pt_region1 (Suc vpn) target)))))
      else ret vpn)"

definition brk_vpn :: "word32 \<Rightarrow> nat" where
  "brk_vpn a = vpn_of (UP_TO_PAGE a - VMEM_1_BASE)"

definition Brk_fuel :: "nat \<Rightarrow> nat" where
  "Brk_fuel vpn = vpn + MAX_PT_LEN + 2"

definition Brk :: "word32 \<Rightarrow> (kstate, int) prog" where
  "Brk a =
     (if a = 0 then ret ERROR
      else bnd (gets current_process) (\<lambda>p. bnd (get_pcb p) (\<lambda>b.
        let target_vpn = brk_vpn a; user_heap_brk_vpn = brk_vpn (user_heap_end_vaddr b) in
        bnd (on_mem (Brk_grow (target_vpn - user_heap_brk_vpn) (ptbr b) (pid b) user_heap_brk_vpn target_vpn)) (\<lambda>ok.
        if \<not> ok then ret ERROR
        else let vpn = max user_heap_brk_vpn target_vpn in
          bnd (on_mem (Brk_shrink (Brk_fuel vpn) (ptbr b) vpn target_vpn)) (\<lambda>vpn.
          thn (upd_pcb p (\<lambda>b. b\<lparr>user_heap_end_vaddr := push_bit PAGESHIFT (of_nat vpn) + VMEM_1_BASE\<rparr>))
              (ret SUCCESS))))))"

section \<open>Fork\<close>

text \<open>What both processes do after \<^verbatim>\<open>KernelContextSwitch(KCCopy, child, NULL)\<close>.\<close>

definition Fork_resume :: "addr \<Rightarrow> addr \<Rightarrow> (kstate, int) prog" where
  "Fork_resume par child = bnd (gets current_process) (\<lambda>cur. bnd (get_pcb cur) (\<lambda>b. bnd (get_pcb par) (\<lambda>pb.
     if pid b = pid pb
     then thn (upd_pcb child (\<lambda>c. c\<lparr>pstate := PROC_READY\<rparr>))
         (bnd (gets ready_queue) (\<lambda>rq.
          thn (kqueueEnqueue rq child)
         (thn (kqueueEnqueue (children_processes pb) child)
         (bnd (get_pcb child) (\<lambda>cb.
          thn (upd_pcb cur (\<lambda>b. b\<lparr>user_context := set_reg0 (word_of_int (pid cb)) (user_context b)\<rparr>))
              (ret SUCCESS))))))
     else thn (upd_pcb cur (\<lambda>b. b\<lparr>user_context := set_reg0 0 (user_context b)\<rparr>))
         (thn (upd_pcb cur (\<lambda>b. b\<lparr>parent := par\<rparr>))
              (ret SUCCESS)))))"

definition Fork :: "(kstate, int) prog" where
  "Fork = bnd getFreePCB (\<lambda>child.
     if child = 0 then ret ERROR
     else bnd (gets current_process) (\<lambda>par. bnd (get_pcb par) (\<lambda>pb.
       thn (upd_pcb child (\<lambda>c. c\<lparr>ppid := pid pb\<rparr>))
      (thn (upd_pcb child (\<lambda>c. c\<lparr>user_context := user_context pb\<rparr>))
      (bnd (CopyPT par child) (\<lambda>result.
       if result = ERROR then ret ERROR
       else bnd (KernelContextSwitch_KCCopy (KC_Fork par child) child) (\<lambda>rc.
         if rc = -1 then ret ERROR
         else Fork_resume par child)))))))"

section \<open>Exit\<close>

definition Exit :: "bool \<Rightarrow> int \<Rightarrow> (kstate, unit) prog" where
  "Exit halt_after status = bnd (gets current_process) (\<lambda>p. bnd (get_pcb p) (\<lambda>b.
     thn (if pid b = 1 then thn (deletePCB p) halt else ret ())
    (bnd (gets zombie_queue) (\<lambda>zq.
     thn (kqueueEnqueue zq p)
    (thn (upd_pcb p (\<lambda>b. b\<lparr>exit_status := status, pstate := PROC_ZOMBIE\<rparr>))
    (thn (if parent b \<noteq> 0
          then bnd (get_pcb (parent b)) (\<lambda>pb.
            if waiting_for_child_pid pb \<noteq> 0
            then thn (upd_pcb (parent b) (\<lambda>x. x\<lparr>pstate := PROC_READY, waiting_for_child_pid := 0\<rparr>))
                (bnd (gets ready_queue) (\<lambda>rq. kqueueEnqueue rq (parent b)))
            else ret ())
          else ret ())
    (bnd next_process (\<lambda>next.
     bnd (KernelContextSwitch_KCSwitch (KC_Exit halt_after) p next) (\<lambda>rc.
     if rc = -1 then halt else ret ())))))))))"

section \<open>Wait\<close>

text \<open>The body of the two scans of the zombie queue.\<close>

definition reap :: "addr \<Rightarrow> word32 \<Rightarrow> addr \<Rightarrow> (kstate, int) prog" where
  "reap cur status_ptr z = bnd (get_pcb z) (\<lambda>zb.
     thn (if status_ptr \<noteq> 0 then on_mem (store_int status_ptr (exit_status zb)) else ret ())
    (bnd (get_pcb cur) (\<lambda>b.
     thn (kqueueRemove (children_processes b) z)
    (bnd (gets zombie_queue) (\<lambda>zq.
     thn (kqueueRemove zq z)
    (thn (deletePCB z)
         (ret (pid zb))))))))"

fun reap_scan :: "nat \<Rightarrow> addr \<Rightarrow> word32 \<Rightarrow> addr \<Rightarrow> (kstate, int option) prog" where
  "reap_scan 0 cur status_ptr node = fail Diverges"
| "reap_scan (Suc fuel) cur status_ptr node =
     (if node = 0 then ret None
      else bnd (on_queues (get_node node)) (\<lambda>nd.
        bnd (get_pcb (node_process nd)) (\<lambda>zb. bnd (get_pcb cur) (\<lambda>b.
        if ppid zb = pid b then bnd (reap cur status_ptr (node_process nd)) (\<lambda>r. ret (Some r))
        else reap_scan fuel cur status_ptr (node_next nd)))))"

definition scan_zombies :: "addr \<Rightarrow> word32 \<Rightarrow> (kstate, int option) prog" where
  "scan_zombies cur status_ptr = bnd (gets zombie_queue) (\<lambda>zq. bnd (on_queues (get_queue zq)) (\<lambda>q.
     bnd (gets (\<lambda>s. limit (qh s))) (\<lambda>n. reap_scan (Suc n) cur status_ptr (q_head q))))"

definition Wait :: "word32 \<Rightarrow> (kstate, int) prog" where
  "Wait status_ptr = bnd (gets current_process) (\<lambda>p. bnd (get_pcb p) (\<lambda>b.
     bnd (on_queues (get_queue (children_processes b))) (\<lambda>cq.
     if q_head cq = 0 then ret ERROR
     else bnd (scan_zombies p status_ptr) (\<lambda>r. case r of
         Some n \<Rightarrow> ret n
       | None \<Rightarrow>
           thn (upd_pcb p (\<lambda>b. b\<lparr>pstate := PROC_BLOCKED, waiting_for_child_pid := 1\<rparr>))
          (bnd next_process (\<lambda>next.
           bnd (KernelContextSwitch_KCSwitch (KC_Wait status_ptr) p next) (\<lambda>rc.
           if rc = -1 then halt else ret rc)))))))"

definition Wait_resume :: "word32 \<Rightarrow> (kstate, int) prog" where
  "Wait_resume status_ptr = bnd (gets current_process) (\<lambda>p.
     bnd (scan_zombies p status_ptr) (\<lambda>r. case r of Some n \<Rightarrow> ret n | None \<Rightarrow> ret ERROR))"

section \<open>GetPid and Delay\<close>

definition GetPid :: "(kstate, int) prog" where
  "GetPid = bnd (gets current_process) (\<lambda>p. bnd (get_pcb p) (\<lambda>b. ret (pid b)))"

definition Delay :: "int \<Rightarrow> (kstate, int) prog" where
  "Delay clock_ticks =
     (if clock_ticks = 0 then ret SUCCESS
      else if clock_ticks < -1 then ret ERROR
      else bnd (gets current_process) (\<lambda>p.
        thn (upd_pcb p (\<lambda>b. b\<lparr>delay_ticks := clock_ticks\<rparr>))
       (thn (upd_pcb p (\<lambda>b. b\<lparr>pstate := PROC_BLOCKED\<rparr>))
       (bnd (gets blocked_queue) (\<lambda>bq.
        thn (kqueueEnqueue bq p)
       (bnd (gets ready_queue) (\<lambda>rq. bnd (kqueueDequeue rq) (\<lambda>next.
        bnd (if next = 0 then gets idle_proc else ret next) (\<lambda>next_proc.
        thn (KernelContextSwitch_KCSwitch KC_Delay p next_proc)
            (ret SUCCESS))))))))))"

section \<open>The system calls keep the kernel's invariant\<close>

lemma keeps_Brk_grow [keeps_intros]: "keeps tables_ok (Brk_grow k t w v n)"
  by (induction k arbitrary: v) (auto intro!: keeps_intros)

lemma keeps_Brk_shrink [keeps_intros]: "keeps tables_ok (Brk_shrink k t v n)"
  by (induction k arbitrary: v) (auto intro!: keeps_intros)

lemma keeps_Brk [keeps_intros]: "keeps (kinv T) (Brk a)"
  unfolding Brk_def Let_def by (intro keeps_intros) simp

lemma keeps_Fork_resume [keeps_intros]: "keeps (kinv T) (Fork_resume a b)"
  unfolding Fork_resume_def by (intro keeps_intros) simp_all

lemma keeps_Fork [keeps_intros]: "keeps (kinv T) Fork"
  unfolding Fork_def by (intro keeps_intros) simp_all

lemma keeps_Exit [keeps_intros]: "keeps (kinv T) (Exit h v)"
  unfolding Exit_def by (intro keeps_intros) simp_all

lemma keeps_reap [keeps_intros]: "keeps (kinv T) (reap a b c)"
  unfolding reap_def by (intro keeps_intros)

lemma keeps_reap_scan [keeps_intros]: "keeps (kinv T) (reap_scan k a b c)"
  by (induction k arbitrary: c) (auto intro!: keeps_intros)

lemma keeps_scan_zombies [keeps_intros]: "keeps (kinv T) (scan_zombies a b)"
  unfolding scan_zombies_def by (intro keeps_intros)

lemma keeps_Wait [keeps_intros]: "keeps (kinv T) (Wait a)"
  unfolding Wait_def by (intro keeps_intros) simp_all

lemma keeps_Wait_resume [keeps_intros]: "keeps (kinv T) (Wait_resume a)"
  unfolding Wait_resume_def by (intro keeps_intros)

lemma keeps_GetPid [keeps_intros]: "keeps (kinv T) GetPid"
  unfolding GetPid_def by (intro keeps_intros)

lemma keeps_Delay [keeps_intros]: "keeps (kinv T) (Delay n)"
  unfolding Delay_def by (intro keeps_intros) simp_all

end
