(* ===== verification/Tty.thy ===== *)
theory Tty
  imports Process
begin

text \<open>
  \<^verbatim>\<open>src/syscalls/tty.c\<close>: reading from and writing to terminals. \<^verbatim>\<open>TtyTransmit\<close> is the machine's; the
  model records its calls. The terminal lock is the field \<^verbatim>\<open>in_use\<close>.
\<close>

definition TtyTransmit :: "int \<Rightarrow> byte list \<Rightarrow> (kstate, unit) prog" where
  "TtyTransmit i bs = modify (\<lambda>s. s\<lparr>transmitted := transmitted s @ [(nat i, bs)]\<rparr>)"

definition BeginTtyTransmit :: "int \<Rightarrow> addr \<Rightarrow> word32 \<Rightarrow> int \<Rightarrow> (kstate, int) prog" where
  "BeginTtyTransmit i writer buf len = bnd malloc (\<lambda>a.
     if a = 0
     then thn (upd_tty i (\<lambda>t. t\<lparr>write_buffer := None\<rparr>))
         (thn (upd_pcb writer (\<lambda>b. b\<lparr>user_context := set_reg0 (word_of_int ERROR) (user_context b)\<rparr>))
              (ret ERROR))
     else bnd (on_mem (copy_in buf (nat len))) (\<lambda>bytes.
       thn (upd_tty i (\<lambda>t. t\<lparr>write_buffer := Some bytes, write_buffer_len := len,
                             write_buffer_position := 0, current_writer := writer\<rparr>))
      (let bytes_to_write = (if int TERMINAL_MAX_LINE < len then int TERMINAL_MAX_LINE else len) in
       thn (TtyTransmit i (take (nat bytes_to_write) bytes))
      (thn (upd_tty i (\<lambda>t. t\<lparr>write_buffer_position := bytes_to_write\<rparr>))
           (ret SUCCESS)))))"

text \<open>\<^verbatim>\<open>memmove(read_buffer, read_buffer + n, read_buffer_len - n)\<close>\<close>

definition shift_buffer :: "nat \<Rightarrow> nat \<Rightarrow> byte list \<Rightarrow> byte list" where
  "shift_buffer n len bs = take (len - n) (drop n bs) @ drop (len - n) bs"

text \<open>There is input: take up to \<open>len\<close> bytes of it.\<close>

definition TtyRead_now :: "int \<Rightarrow> int \<Rightarrow> terminal_t \<Rightarrow> addr \<Rightarrow> (kstate, int) prog" where
  "TtyRead_now i len t p =
     (let bytes_to_read = (if read_buffer_len t < len then read_buffer_len t else len) in
      bnd malloc (\<lambda>a.
      if a = 0 then ret ERROR
      else thn (upd_pcb p (\<lambda>b. b\<lparr>tty_kernel_read_buf := Some (take (nat bytes_to_read) (read_buffer t)),
                               kernel_read_size := bytes_to_read\<rparr>))
          (thn (if bytes_to_read < read_buffer_len t
                then upd_tty i (\<lambda>t. t\<lparr>read_buffer :=
                       shift_buffer (nat bytes_to_read) (nat (read_buffer_len t)) (read_buffer t)\<rparr>)
                else ret ())
          (thn (upd_tty i (\<lambda>t. t\<lparr>read_buffer_len := read_buffer_len t - bytes_to_read\<rparr>))
               (ret bytes_to_read)))))"

text \<open>There is none: wait for it.\<close>

definition TtyRead_wait :: "word32 \<Rightarrow> int \<Rightarrow> terminal_t \<Rightarrow> addr \<Rightarrow> (kstate, int) prog" where
  "TtyRead_wait buf len t p =
     thn (kqueueEnqueue (blocked_readers t) p)
    (bnd (gets blocked_queue) (\<lambda>bq.
     thn (kqueueEnqueue bq p)
    (thn (upd_pcb p (\<lambda>b. b\<lparr>pstate := PROC_BLOCKED\<rparr>))
    (thn (upd_pcb p (\<lambda>b. b\<lparr>tty_read_buf := buf, tty_read_len := len\<rparr>))
    (bnd next_process (\<lambda>next.
     thn (KernelContextSwitch_KCSwitch (KC_TtyRead buf) p next)
    (bnd (get_pcb p) (\<lambda>b. ret (sint (reg (user_context b) 0))))))))))"

definition TtyRead :: "int \<Rightarrow> word32 \<Rightarrow> int \<Rightarrow> (kstate, int) prog" where
  "TtyRead i buf len =
     (if i < 0 \<or> int NUM_TERMINALS \<le> i \<or> buf = 0 \<or> len \<le> 0 then ret ERROR
      else bnd (get_tty i) (\<lambda>t. bnd (gets current_process) (\<lambda>p.
        if 0 < read_buffer_len t then TtyRead_now i len t p else TtyRead_wait buf len t p)))"

definition TtyRead_resume :: "(kstate, int) prog" where
  "TtyRead_resume = bnd (gets current_process) (\<lambda>p. bnd (get_pcb p) (\<lambda>b.
     ret (sint (reg (user_context b) 0))))"

text \<open>\<^verbatim>\<open>TtyWrite\<close> once the terminal is the caller's.\<close>

definition TtyWrite_locked :: "int \<Rightarrow> word32 \<Rightarrow> int \<Rightarrow> (kstate, int) prog" where
  "TtyWrite_locked i buf len = bnd (gets current_process) (\<lambda>p.
     thn (upd_tty i (\<lambda>t. t\<lparr>in_use := True\<rparr>))
    (bnd (BeginTtyTransmit i p buf len) (\<lambda>result.
     if result = ERROR
     then thn (upd_tty i (\<lambda>t. t\<lparr>in_use := False\<rparr>))
         (bnd (get_tty i) (\<lambda>t. bnd (kis_empty (blocked_writers t)) (\<lambda>e.
          if \<not> e
          then bnd (kqueueDequeue (blocked_writers t)) (\<lambda>next_writer.
            thn (upd_pcb next_writer (\<lambda>b. b\<lparr>pstate := PROC_READY\<rparr>))
           (bnd (gets ready_queue) (\<lambda>rq.
            thn (kqueueEnqueue rq next_writer) (ret ERROR))))
          else ret ERROR)))
     else
       thn (upd_pcb p (\<lambda>b. b\<lparr>pstate := PROC_BLOCKED\<rparr>))
      (bnd (gets blocked_queue) (\<lambda>bq.
       thn (kqueueEnqueue bq p)
      (bnd next_process (\<lambda>next.
       thn (KernelContextSwitch_KCSwitch (KC_TtyWriteDone len) p next)
           (ret len))))))))"

definition TtyWrite :: "int \<Rightarrow> word32 \<Rightarrow> int \<Rightarrow> (kstate, int) prog" where
  "TtyWrite i buf len =
     (if i < 0 \<or> int NUM_TERMINALS \<le> i \<or> buf = 0 \<or> len \<le> 0 then ret ERROR
      else bnd (get_tty i) (\<lambda>t. bnd (gets current_process) (\<lambda>p.
        if in_use t
        then thn (kqueueEnqueue (blocked_writers t) p)
            (thn (upd_pcb p (\<lambda>b. b\<lparr>pstate := PROC_BLOCKED\<rparr>))
            (bnd (gets blocked_queue) (\<lambda>bq.
             thn (kqueueEnqueue bq p)
            (bnd next_process (\<lambda>next.
             thn (KernelContextSwitch_KCSwitch (KC_TtyWriteLock i buf len) p next)
                 (TtyWrite_locked i buf len))))))
        else TtyWrite_locked i buf len)))"

section \<open>The terminal calls keep the kernel's invariant\<close>

lemma length_shift_buffer: "n \<le> len \<Longrightarrow> len \<le> length bs \<Longrightarrow> length (shift_buffer n len bs) = length bs"
  by (simp add: shift_buffer_def)

lemma tty_ok_shift: "tty_ok t \<Longrightarrow> 0 \<le> n \<Longrightarrow> n \<le> read_buffer_len t \<Longrightarrow>
  tty_ok (t\<lparr>read_buffer := shift_buffer (nat n) (nat (read_buffer_len t)) (read_buffer t)\<rparr>)"
  by (auto simp: tty_ok_def length_shift_buffer nat_le_iff)

lemma tty_ok_consume: "tty_ok t \<Longrightarrow> 0 \<le> n \<Longrightarrow> n \<le> read_buffer_len t \<Longrightarrow>
  tty_ok (t\<lparr>read_buffer_len := read_buffer_len t - n\<rparr>)"
  by (auto simp: tty_ok_def)

lemma keeps_TtyTransmit [keeps_intros]: "keeps (kinv T) (TtyTransmit i bs)"
  unfolding TtyTransmit_def by (intro keeps_intros) simp

lemma same_ttys_TtyTransmit [simp]: "same_ttys (TtyTransmit i bs)"
  by (simp add: same_ttys_def keeps_def TtyTransmit_def prog_simps)

lemma tty_ok_no_write: "tty_ok t \<Longrightarrow> tty_ok (t\<lparr>write_buffer := None\<rparr>)"
  by (simp add: tty_ok_def)

lemma leads_BeginTtyTransmit_copy:
  assumes len: "0 \<le> len" and ts: "length ts = NUM_TERMINALS" "\<forall>j \<in> T. j < NUM_TERMINALS \<longrightarrow> tty_ok (ts ! j)"
    and n: "0 \<le> n" "n \<le> len"
  shows "leads (kinvt T ts) (bnd (on_mem (copy_in buf (nat len))) (\<lambda>bytes.
       thn (upd_tty i (\<lambda>t. t\<lparr>write_buffer := Some bytes, write_buffer_len := len,
                             write_buffer_position := 0, current_writer := w\<rparr>))
      (thn (TtyTransmit i (take (nat n) bytes))
      (thn (upd_tty i (\<lambda>t. t\<lparr>write_buffer_position := n\<rparr>))
           (ret SUCCESS))))) (kinv T)"
proof (rule leads_copy_in)
  fix bytes :: "byte list" assume b: "length bytes = nat len"
  let ?f = "\<lambda>t. t\<lparr>write_buffer := Some bytes, write_buffer_len := len, write_buffer_position := 0, current_writer := w\<rparr>"
  let ?ts = "ts[nat i := ?f (ts ! nat i)]"
  have 1: "leads (kinvt T ts) (upd_tty i ?f) (kinvt T ?ts)"
    using ts b len by (intro leads_upd_tty) (auto simp: tty_ok_def)
  have "leads (kinvt T ?ts) (upd_tty i (\<lambda>t. t\<lparr>write_buffer_position := n\<rparr>))
      (kinvt T (?ts[nat i := (?ts ! nat i)\<lparr>write_buffer_position := n\<rparr>]))"
    using ts b len n by (intro leads_upd_tty) (auto simp: tty_ok_def)
  then have 2: "leads (kinvt T ?ts) (upd_tty i (\<lambda>t. t\<lparr>write_buffer_position := n\<rparr>)) (kinv T)"
    by (rule leads_mono) (rule kinvt_kinv)
  have 3: "leads (kinvt T ?ts) (TtyTransmit i (take (nat n) bytes)) (kinvt T ?ts)"
    by (intro keeps_kinvt keeps_intros) simp
  show "leads (kinvt T ts) (thn (upd_tty i ?f) (thn (TtyTransmit i (take (nat n) bytes))
      (thn (upd_tty i (\<lambda>t. t\<lparr>write_buffer_position := n\<rparr>)) (ret SUCCESS)))) (kinv T)"
    using kinvt_kinv leads_ret by (intro leads_thn [OF 1] leads_thn [OF 3] leads_thn [OF 2]) auto
qed

lemma keeps_BeginTtyTransmit [keeps_intros]:
  assumes len: "0 \<le> len"
  shows "keeps (kinv T) (BeginTtyTransmit i w buf len)"
proof (rule keeps_by_ttys)
  fix ts assume ts: "length ts = NUM_TERMINALS" "\<forall>j \<in> T. j < NUM_TERMINALS \<longrightarrow> tty_ok (ts ! j)"
  have none: "keeps (kinv T) (thn (upd_tty i (\<lambda>t. t\<lparr>write_buffer := None\<rparr>))
     (thn (upd_pcb w (\<lambda>b. b\<lparr>user_context := set_reg0 (word_of_int ERROR) (user_context b)\<rparr>)) (ret ERROR)))"
    by (intro keeps_intros keeps_upd_tty tty_ok_no_write) simp_all
  have n: "0 \<le> (if int TERMINAL_MAX_LINE < len then int TERMINAL_MAX_LINE else len)"
    "(if int TERMINAL_MAX_LINE < len then int TERMINAL_MAX_LINE else len) \<le> len"
    using len by simp_all
  note copy = leads_BeginTtyTransmit_copy [OF len ts n]
  have m: "leads (kinvt T ts) malloc (kinvt T ts)" by (intro keeps_kinvt keeps_intros) simp
  show "leads (kinvt T ts) (BeginTtyTransmit i w buf len) (kinv T)"
    unfolding BeginTtyTransmit_def Let_def
    by (rule leads_bnd [OF m kinvt_kinv], assumption, rule leads_if, rule leads_pre [OF none kinvt_kinv],
        assumption, rule copy)
qed

lemma leads_consume:
  assumes ts: "length ts = NUM_TERMINALS" "\<forall>j \<in> T. j < NUM_TERMINALS \<longrightarrow> tty_ok (ts ! j)"
    and n: "0 \<le> n" "n \<le> read_buffer_len (ts ! nat i)"
  shows "leads (kinvt T ts)
    (thn (if n < read_buffer_len (ts ! nat i)
          then upd_tty i (\<lambda>t. t\<lparr>read_buffer := shift_buffer (nat n) (nat (read_buffer_len t)) (read_buffer t)\<rparr>)
          else ret ())
    (thn (upd_tty i (\<lambda>t. t\<lparr>read_buffer_len := read_buffer_len t - n\<rparr>)) (ret r))) (kinv T)"
proof -
  let ?f = "\<lambda>t. t\<lparr>read_buffer := shift_buffer (nat n) (nat (read_buffer_len t)) (read_buffer t)\<rparr>"
  let ?g = "\<lambda>t. t\<lparr>read_buffer_len := read_buffer_len t - n\<rparr>"
  have g: "leads (kinvt T us) (upd_tty i ?g) (kinv T)"
    if "length us = NUM_TERMINALS" "nat i \<in> T \<Longrightarrow> nat i < NUM_TERMINALS \<Longrightarrow> tty_ok (us ! nat i)"
      "nat i < length us \<Longrightarrow> n \<le> read_buffer_len (us ! nat i)" for us
    using that n by (intro leads_mono [OF leads_upd_tty kinvt_kinv] tty_ok_consume) auto
  have f: "leads (kinvt T ts) (upd_tty i ?f) (kinvt T (ts[nat i := ?f (ts ! nat i)]))"
    using ts n by (intro leads_upd_tty tty_ok_shift) auto
  have end1: "leads (kinvt T ts) (thn (upd_tty i ?g) (ret r)) (kinv T)"
    by (rule leads_thn [OF g], use ts n in \<open>auto intro: leads_ret\<close>)
  have end2: "leads (kinvt T (ts[nat i := ?f (ts ! nat i)])) (thn (upd_tty i ?g) (ret r)) (kinv T)"
    by (rule leads_thn [OF g], use ts n tty_ok_shift in \<open>auto intro: leads_ret\<close>)
  show ?thesis
  proof (cases "n < read_buffer_len (ts ! nat i)")
    case True
    then show ?thesis using leads_thn [OF f kinvt_kinv end2] by simp
  next
    case False
    have "leads (kinvt T ts) (ret ()) (kinvt T ts)" by (rule leads_ret)
    then show ?thesis using leads_thn [OF _ kinvt_kinv end1] False by simp
  qed
qed

lemma leads_TtyRead_now:
  assumes len: "0 < len" and r: "0 < read_buffer_len (ts ! nat i)"
    and ts: "length ts = NUM_TERMINALS" "\<forall>j \<in> T. j < NUM_TERMINALS \<longrightarrow> tty_ok (ts ! j)"
  shows "leads (kinvt T ts) (TtyRead_now i len (ts ! nat i) p) (kinv T)"
proof -
  let ?n = "if read_buffer_len (ts ! nat i) < len then read_buffer_len (ts ! nat i) else len"
  have n: "0 \<le> ?n" "?n \<le> read_buffer_len (ts ! nat i)" using len r by auto
  have m: "leads (kinvt T ts) malloc (kinvt T ts)" by (intro keeps_kinvt keeps_intros) simp
  have u: "leads (kinvt T ts) (upd_pcb p (\<lambda>b. b\<lparr>tty_kernel_read_buf := bf, kernel_read_size := ?n\<rparr>)) (kinvt T ts)" for bf
    by (intro keeps_kinvt keeps_intros) simp_all
  show ?thesis unfolding TtyRead_now_def Let_def
    by (rule leads_bnd [OF m kinvt_kinv], assumption, rule leads_if, rule leads_ret [OF kinvt_kinv], assumption,
        rule leads_thn [OF u kinvt_kinv], assumption, rule leads_consume [OF ts n])
qed

lemma keeps_TtyRead_wait [keeps_intros]: "keeps (kinv T) (TtyRead_wait buf len t p)"
  unfolding TtyRead_wait_def by (intro keeps_intros) simp_all

lemma keeps_TtyRead [keeps_intros]: "keeps (kinv T) (TtyRead i buf len)"
  unfolding TtyRead_def
proof (intro keeps_if keeps_ret leads_get_tty leads_gets leads_if)
  fix ts p assume "\<not> (i < 0 \<or> int NUM_TERMINALS \<le> i \<or> buf = 0 \<or> len \<le> 0)" "0 < read_buffer_len (ts ! nat i)"
    "length ts = NUM_TERMINALS" "\<forall>j \<in> T. j < NUM_TERMINALS \<longrightarrow> tty_ok (ts ! j)"
  then show "leads (kinvt T ts) (TtyRead_now i len (ts ! nat i) p) (kinv T)" by (intro leads_TtyRead_now) auto
next
  fix ts p
  show "leads (kinvt T ts) (TtyRead_wait buf len (ts ! nat i) p) (kinv T)"
    by (rule leads_pre [OF keeps_TtyRead_wait kinvt_kinv])
qed (rule kinvt_kinv)

lemma keeps_TtyRead_resume [keeps_intros]: "keeps (kinv T) TtyRead_resume"
  unfolding TtyRead_resume_def by (intro keeps_intros)

lemma tty_ok_in_use: "tty_ok t \<Longrightarrow> tty_ok (t\<lparr>in_use := b\<rparr>)"
  by (auto simp: tty_ok_def)

lemma keeps_TtyWrite_locked [keeps_intros]: "0 < len \<Longrightarrow> keeps (kinv T) (TtyWrite_locked i buf len)"
  unfolding TtyWrite_locked_def by (intro keeps_intros keeps_upd_tty tty_ok_in_use) simp_all

lemma keeps_TtyWrite [keeps_intros]: "keeps (kinv T) (TtyWrite i buf len)"
  unfolding TtyWrite_def by (intro keeps_intros) simp_all

end
