(* ===== verification/Loader.thy ===== *)
theory Loader
  imports Process
begin

text \<open>
  \<^verbatim>\<open>LoadProgram\<close> of \<^verbatim>\<open>src/kernel.c\<close> and the system call \<^verbatim>\<open>Exec\<close>. The file system and the ELF reader are
  parameters: \<open>fs name\<close> is \<open>None\<close> when \<^verbatim>\<open>open\<close> fails; otherwise it gives the result of \<^verbatim>\<open>LoadInfo\<close>
  (\<open>None\<close> for an error) and a function that returns the bytes \<^verbatim>\<open>read\<close> delivers at an offset.

  The function is split at its comments: the layout it computes before it commits itself, the new
  region 1, the reading of text and data, and the argument list on the new stack.
\<close>

section \<open>Executables\<close>

record load_info =
  entry :: word32
  t_faddr :: nat
  t_vaddr :: word32
  t_npg :: nat
  t_end :: word32
  id_faddr :: nat
  id_vaddr :: word32
  id_npg :: nat
  id_end :: word32
  ud_vaddr :: word32
  ud_npg :: nat
  ud_end :: word32

type_synonym exec_file = "load_info option \<times> (nat \<Rightarrow> nat \<Rightarrow> byte list)"
type_synonym file_system = "byte list \<Rightarrow> exec_file option"

section \<open>Layout\<close>

text \<open>\<open>size\<close>: the arguments with their terminating zeros.\<close>

definition arg_size :: "byte list list \<Rightarrow> nat" where
  "arg_size args = sum_list (map (\<lambda>a. length a + 1) args)"

record layout =
  text_pg1 :: nat
  data_pg1 :: nat
  data_npg :: nat
  arg_cp :: word32
  arg_cpp :: word32
  stack_npg :: nat

definition POST_ARGV_NULL_SPACE :: nat where "POST_ARGV_NULL_SPACE = 0x20"

definition program_layout :: "load_info \<Rightarrow> byte list list \<Rightarrow> layout" where
  "program_layout li args =
     (let cp = VMEM_1_LIMIT - of_nat (arg_size args);
          cpp = (cp - of_nat ((length args + 3 + POST_ARGV_NULL_SPACE) * 4)) AND NOT 7
      in \<lparr>text_pg1 = vpn_of (t_vaddr li - VMEM_1_BASE), data_pg1 = vpn_of (id_vaddr li - VMEM_1_BASE),
          data_npg = id_npg li + ud_npg li, arg_cp = cp, arg_cpp = cpp,
          stack_npg = vpn_of (VMEM_1_LIMIT - DOWN_TO_PAGE cpp)\<rparr>)"

section \<open>The new region 1\<close>

definition discard_region1 :: "addr \<Rightarrow> (kmem, unit) prog" where
  "discard_region1 t = for_do 0 MAX_PT_LEN (\<lambda>vpn. bnd (get_pte t (int vpn)) (\<lambda>e.
     if valid e
     then thn (freeFrame (int (unat (pfn e)))) (upd_pte t (int vpn) (\<lambda>e. e\<lparr>valid := False\<rparr>))
     else ret ()))"

text \<open>The three loops that map \<open>n\<close> pages from page \<open>base\<close>; the result of \<^verbatim>\<open>allocFrame\<close> is not tested.\<close>

definition map_pages :: "addr \<Rightarrow> int \<Rightarrow> nat \<Rightarrow> nat \<Rightarrow> (kmem, unit) prog" where
  "map_pages t own base n = for_do 0 n (\<lambda>i. bnd (allocFrame FRAME_USER own) (\<lambda>f.
     upd_pte t (int (base + i)) (\<lambda>e. e\<lparr>pfn := to_pfn f, valid := True, prot := PROT_READ OR PROT_WRITE\<rparr>)))"

definition build_region1 :: "addr \<Rightarrow> int \<Rightarrow> nat \<Rightarrow> layout \<Rightarrow> load_info \<Rightarrow> (kmem, unit) prog" where
  "build_region1 t own tlen lay li =
     thn (discard_region1 t)
    (thn (map_pages t own (text_pg1 lay) (t_npg li))
    (thn (map_pages t own (data_pg1 lay) (data_npg lay))
    (thn (map_pages t own (tlen - stack_npg lay) (stack_npg lay))
         (WriteRegister (REG_TLB_FLUSH TLB_FLUSH_1)))))"

section \<open>Text and data\<close>

text \<open>\<^verbatim>\<open>read(fd, addr, n) != n\<close>\<close>

definition read_segment :: "(nat \<Rightarrow> nat \<Rightarrow> byte list) \<Rightarrow> nat \<Rightarrow> word32 \<Rightarrow> nat \<Rightarrow> (kmem, bool) prog" where
  "read_segment rd off a n = (let bs = take n (rd off n) in thn (copy_out a bs) (ret (length bs = n)))"

definition protect_text :: "addr \<Rightarrow> nat \<Rightarrow> nat \<Rightarrow> (kmem, unit) prog" where
  "protect_text t base n =
     thn (for_do 0 n (\<lambda>i. upd_pte t (int (base + i)) (\<lambda>e. e\<lparr>prot := PROT_READ OR PROT_EXEC\<rparr>)))
         (WriteRegister (REG_TLB_FLUSH TLB_FLUSH_1))"

definition load_segments :: "addr \<Rightarrow> layout \<Rightarrow> load_info \<Rightarrow> (nat \<Rightarrow> nat \<Rightarrow> byte list) \<Rightarrow> (kmem, bool) prog" where
  "load_segments t lay li rd =
     bnd (read_segment rd (t_faddr li) (t_vaddr li) (t_npg li * PAGESIZE)) (\<lambda>ok.
     if \<not> ok then ret False
     else bnd (read_segment rd (id_faddr li) (id_vaddr li) (id_npg li * PAGESIZE)) (\<lambda>ok.
     if \<not> ok then ret False
     else thn (protect_text t (text_pg1 lay) (t_npg li))
         (thn (copy_out (id_end li) (replicate (unat (ud_end li - id_end li)) 0))
              (ret True))))"

section \<open>Arguments\<close>

text \<open>
  The stack image from \<open>cpp\<close> up: the loop that writes the pointer to each argument and the
  argument itself, then the two null pointers.
\<close>

fun put_args :: "word32 \<Rightarrow> word32 \<Rightarrow> byte list list \<Rightarrow> (kmem, word32) prog" where
  "put_args cpp cp [] = ret cpp"
| "put_args cpp cp (a # as) =
     thn (copy_out cpp (word_bytes cp))
    (thn (copy_out cp (a @ [0]))
         (put_args (cpp + 4) (cp + of_nat (length a + 1)) as))"

definition build_args :: "layout \<Rightarrow> byte list list \<Rightarrow> (kmem, unit) prog" where
  "build_args lay args =
     thn (copy_out (arg_cpp lay) (replicate (unat (VMEM_1_LIMIT - arg_cpp lay)) 0))
    (thn (copy_out (arg_cpp lay) (word_bytes (of_nat (length args))))
    (bnd (put_args (arg_cpp lay + 4) (arg_cp lay) args) (\<lambda>cpp.
     thn (copy_out cpp (word_bytes 0))
         (copy_out (cpp + 4) (word_bytes 0)))))"

section \<open>LoadProgram and Exec\<close>

text \<open>\<open>get_args\<close> reads the strings of \<^verbatim>\<open>args\<close>; it runs where the code first looks at them.\<close>

definition LoadProgram :: "exec_file option \<Rightarrow> (kmem, byte list list) prog \<Rightarrow> addr \<Rightarrow> (kstate, int) prog" where
  "LoadProgram file get_args p = (case file of
       None \<Rightarrow> ret ERROR
     | Some (None, _) \<Rightarrow> ret (-1)
     | Some (Some li, rd) \<Rightarrow>
         if entry li < VMEM_1_BASE then ret ERROR
         else bnd (on_mem get_args) (\<lambda>args. let lay = program_layout li args in
           if MAX_PT_LEN \<le> stack_npg lay + data_pg1 lay + data_npg lay then ret ERROR
           else thn (upd_pcb p (\<lambda>b. b\<lparr>user_context := (user_context b)\<lparr>sp := arg_cpp lay\<rparr>\<rparr>))
          (bnd malloc (\<lambda>argbuf.
           if argbuf = 0 then ret KILL
           else bnd (get_pcb p) (\<lambda>b.
             thn (on_mem (build_region1 (ptbr b) (pid b) (ptlr b) lay li))
            (bnd (on_mem (load_segments (ptbr b) lay li rd)) (\<lambda>ok.
             if \<not> ok then ret KILL
             else thn (upd_pcb p (\<lambda>b. b\<lparr>user_context := (user_context b)\<lparr>pc := entry li\<rparr>,
                 user_heap_start_vaddr := push_bit PAGESHIFT (of_nat (data_pg1 lay)) + VMEM_1_BASE,
                 user_heap_end_vaddr := push_bit PAGESHIFT (of_nat (data_pg1 lay)) + VMEM_1_BASE,
                 user_stack_base_vaddr := push_bit PAGESHIFT (of_nat (ptlr b - stack_npg lay)) + VMEM_1_BASE\<rparr>))
            (thn (on_mem (build_args lay args))
                 (ret SUCCESS)))))))))"

text \<open>
  \<^verbatim>\<open>Exec\<close> is given user pointers, which are read through the page tables. A string or vector that
  does not end within the bytes of the address space runs off the mapped pages.
\<close>

fun load_string :: "nat \<Rightarrow> word32 \<Rightarrow> (kmem, byte list) prog" where
  "load_string 0 a = fail PageFault"
| "load_string (Suc fuel) a = bnd (load_byte a) (\<lambda>c.
     if c = 0 then ret [] else bnd (load_string fuel (a + 1)) (\<lambda>cs. ret (c # cs)))"

definition load_word :: "word32 \<Rightarrow> (kmem, word32) prog" where
  "load_word a = bnd (copy_in a 4) (\<lambda>bs. ret (word_rcat (rev bs)))"

fun load_argv :: "nat \<Rightarrow> nat \<Rightarrow> word32 \<Rightarrow> (kmem, byte list list) prog" where
  "load_argv 0 slen a = fail PageFault"
| "load_argv (Suc fuel) slen a = bnd (load_word a) (\<lambda>ptr.
     if ptr = 0 then ret []
     else bnd (load_string slen ptr) (\<lambda>str. bnd (load_argv fuel slen (a + 4)) (\<lambda>strs. ret (str # strs))))"

definition VMEM_BYTES :: nat where "VMEM_BYTES = 0x200000"

definition Exec :: "file_system \<Rightarrow> word32 \<Rightarrow> word32 \<Rightarrow> (kstate, int) prog" where
  "Exec fs filename argvec = bnd (gets current_process) (\<lambda>p.
     bnd (on_mem (load_string VMEM_BYTES filename)) (\<lambda>name.
     bnd (LoadProgram (fs name) (load_argv VMEM_BYTES VMEM_BYTES argvec) p) (\<lambda>load_status.
     if load_status = ERROR then ret ERROR else ret SUCCESS)))"

section \<open>Loading keeps the kernel's invariant\<close>

lemma keeps_build_region1 [keeps_intros]: "keeps tables_ok (build_region1 t w n lay li)"
  unfolding build_region1_def discard_region1_def map_pages_def by (intro keeps_intros)

lemma keeps_load_segments [keeps_intros]: "keeps tables_ok (load_segments t lay li rd)"
  unfolding load_segments_def read_segment_def protect_text_def Let_def by (intro keeps_intros)

lemma keeps_put_args [keeps_intros]: "keeps tables_ok (put_args a b as)"
  by (induction as arbitrary: a b) (auto intro!: keeps_intros)

lemma keeps_build_args [keeps_intros]: "keeps tables_ok (build_args lay as)"
  unfolding build_args_def by (intro keeps_intros)

lemma keeps_load_string [keeps_intros]: "keeps tables_ok (load_string n a)"
  by (induction n arbitrary: a) (auto intro!: keeps_intros)

lemma keeps_load_argv [keeps_intros]: "keeps tables_ok (load_argv n k a)"
  by (induction n arbitrary: a) (auto simp: load_word_def intro!: keeps_intros)

lemma keeps_LoadProgram [keeps_intros]:
  assumes "keeps tables_ok get"
  shows "keeps (kinv T) (LoadProgram file get p)"
proof (cases "file")
  case None
  then show ?thesis by (simp add: LoadProgram_def keeps_ret)
next
  case (Some x)
  obtain li rd where x: "x = (li, rd)" by (cases x) auto
  show ?thesis
  proof (cases li)
    case None
    with Some x show ?thesis by (simp add: LoadProgram_def keeps_ret)
  next
    case (Some l)
    with \<open>file = Some x\<close> x show ?thesis
      unfolding LoadProgram_def Let_def by (auto intro!: keeps_intros assms)
  qed
qed

lemma keeps_Exec [keeps_intros]: "keeps (kinv T) (Exec fs a b)"
  unfolding Exec_def by (intro keeps_intros)

end
