(* ===== verification/Traps.thy ===== *)
theory Traps
  imports Tty Loader
begin

text \<open>
  \<^verbatim>\<open>src/traps/trap.c\<close>: the handlers the machine calls, with the user context in \<open>ctx\<close>, and the code
  that runs when a process that gave up the processor inside a handler continues.
\<close>

section \<open>Numbers\<close>

definition YALNIX_PREFIX :: word32 where "YALNIX_PREFIX = 0xabcdef00"
definition YALNIX_FORK :: word32 where "YALNIX_FORK = 0x1 OR YALNIX_PREFIX"
definition YALNIX_EXEC :: word32 where "YALNIX_EXEC = 0x2 OR YALNIX_PREFIX"
definition YALNIX_EXIT :: word32 where "YALNIX_EXIT = 0x3 OR YALNIX_PREFIX"
definition YALNIX_WAIT :: word32 where "YALNIX_WAIT = 0x4 OR YALNIX_PREFIX"
definition YALNIX_GETPID :: word32 where "YALNIX_GETPID = 0x5 OR YALNIX_PREFIX"
definition YALNIX_BRK :: word32 where "YALNIX_BRK = 0x6 OR YALNIX_PREFIX"
definition YALNIX_DELAY :: word32 where "YALNIX_DELAY = 0x7 OR YALNIX_PREFIX"
definition YALNIX_TTY_READ :: word32 where "YALNIX_TTY_READ = 0x21 OR YALNIX_PREFIX"
definition YALNIX_TTY_WRITE :: word32 where "YALNIX_TTY_WRITE = 0x22 OR YALNIX_PREFIX"
definition YALNIX_MAPERR :: word32 where "YALNIX_MAPERR = 1"
definition YALNIX_ACCERR :: word32 where "YALNIX_ACCERR = 2"

lemmas trap_codes = YALNIX_PREFIX_def YALNIX_FORK_def YALNIX_EXEC_def YALNIX_EXIT_def YALNIX_WAIT_def
  YALNIX_GETPID_def YALNIX_BRK_def YALNIX_DELAY_def YALNIX_TTY_READ_def YALNIX_TTY_WRITE_def
  YALNIX_MAPERR_def YALNIX_ACCERR_def

section \<open>Helpers\<close>

definition trapHandlerHelper :: "addr \<Rightarrow> (kstate, unit) prog" where
  "trapHandlerHelper process = bnd (get_pcb process) (\<lambda>b.
     if 0 < delay_ticks b
     then thn (upd_pcb process (\<lambda>b. b\<lparr>delay_ticks := delay_ticks b - 1\<rparr>))
         (if delay_ticks b - 1 = 0
          then bnd (gets blocked_queue) (\<lambda>bq.
            thn (kqueueRemove bq process)
           (thn (upd_pcb process (\<lambda>b. b\<lparr>pstate := PROC_READY\<rparr>))
           (bnd (gets ready_queue) (\<lambda>rq. kqueueEnqueue rq process))))
          else ret ())
     else ret ())"

text \<open>The frames \<^verbatim>\<open>growStack\<close> allocated so far are given back when it runs out.\<close>

definition growStack_undo :: "addr \<Rightarrow> int \<Rightarrow> nat \<Rightarrow> (kmem, unit) prog" where
  "growStack_undo t target_vpn i = for_do 0 i (\<lambda>j. bnd (get_pte t (target_vpn + int j)) (\<lambda>e.
     thn (freeFrame (int (unat (pfn e))))
         (upd_pte t (target_vpn + int j) (\<lambda>e. e\<lparr>valid := False\<rparr>))))"

definition growStack_pages :: "addr \<Rightarrow> int \<Rightarrow> int \<Rightarrow> int \<Rightarrow> (kmem, bool) prog" where
  "growStack_pages t own target_vpn num_pages =
     bnd (for_ret 0 (nat num_pages) (\<lambda>i. bnd (allocFrame FRAME_USER own) (\<lambda>f.
       if f = -1 then thn (growStack_undo t target_vpn i) (ret (Some ()))
       else thn (upd_pte t (target_vpn + int i) (\<lambda>e. e\<lparr>valid := True, pfn := to_pfn f,
                                                      prot := PROT_READ OR PROT_WRITE\<rparr>))
           (ret None))))
     (\<lambda>r. ret (r = None))"

definition growStack :: "word32 \<Rightarrow> (kstate, int) prog" where
  "growStack a = bnd (gets current_process) (\<lambda>p. bnd (get_pcb p) (\<lambda>b.
     let target_vpn = int (vpn_of (DOWN_TO_PAGE a - VMEM_1_BASE));
         stack_base_vpn = int (vpn_of (DOWN_TO_PAGE (user_stack_base_vaddr b) - VMEM_1_BASE))
     in bnd (on_mem (growStack_pages (ptbr b) (pid b) target_vpn (stack_base_vpn - target_vpn))) (\<lambda>ok.
        if \<not> ok then ret KILL
        else thn (upd_pcb p (\<lambda>b. b\<lparr>user_stack_base_vaddr := DOWN_TO_PAGE a\<rparr>)) (ret SUCCESS))))"

text \<open>The sum is taken in the 32 bits of \<^verbatim>\<open>unsigned long\<close>; a negative \<^verbatim>\<open>len\<close> is converted to it.\<close>

definition CheckBuffer :: "word32 \<Rightarrow> int \<Rightarrow> int" where
  "CheckBuffer start len =
     (if start < VMEM_1_BASE \<or> VMEM_1_LIMIT < start + word_of_int len then ERROR else SUCCESS)"

section \<open>Clock\<close>

definition ClockTrapHandler :: "(kstate, unit) prog" where
  "ClockTrapHandler = bnd (gets current_process) (\<lambda>p.
     thn save_ctx
    (bnd (gets blocked_queue) (\<lambda>bq.
     thn (queueIterate qh bq trapHandlerHelper)
    (bnd (gets ready_queue) (\<lambda>rq. bnd (kqueueDequeue rq) (\<lambda>next_proc.
     thn (if next_proc \<noteq> 0
          then bnd (get_pcb p) (\<lambda>b.
            thn (if pstate b = PROC_RUNNING \<and> pid b \<noteq> 0
                 then thn (upd_pcb p (\<lambda>b. b\<lparr>pstate := PROC_READY\<rparr>)) (kqueueEnqueue rq p)
                 else ret ())
           (thn (KernelContextSwitch_KCSwitch KC_Clock p next_proc) (ret ())))
          else ret ())
         load_ctx))))))"

section \<open>System calls\<close>

text \<open>\<^verbatim>\<open>TtyRead\<close> leaves the data in the kernel; it is copied to the user once the reader runs.\<close>

definition unpack_read :: "word32 \<Rightarrow> int \<Rightarrow> (kstate, unit) prog" where
  "unpack_read buf rc = bnd (gets current_process) (\<lambda>p. bnd (get_pcb p) (\<lambda>b.
     case tty_kernel_read_buf b of
       None \<Rightarrow> ret ()
     | Some bs \<Rightarrow>
         if 0 < rc
         then thn (on_mem (copy_out buf (take (nat (kernel_read_size b)) bs)))
                  (upd_pcb p (\<lambda>b. b\<lparr>tty_kernel_read_buf := None, kernel_read_size := 0\<rparr>))
         else ret ()))"

definition return_with :: "int \<Rightarrow> (kstate, unit) prog" where
  "return_with v = thn load_ctx (ctx_reg0 v)"

definition halt_on_error :: "int \<Rightarrow> (kstate, unit) prog" where
  "halt_on_error r = (if r = ERROR then halt else ret ())"

definition KernelTrapHandler :: "file_system \<Rightarrow> (kstate, unit) prog" where
  "KernelTrapHandler fs = bnd (gets ctx) (\<lambda>c.
     if code c = YALNIX_DELAY then
       thn save_ctx (bnd (Delay (sint (reg c 0))) (\<lambda>r. thn (halt_on_error r) (return_with r)))
     else if code c = YALNIX_BRK then
       thn save_ctx (bnd (Brk (reg c 0)) (\<lambda>r. thn (halt_on_error r) (return_with r)))
     else if code c = YALNIX_FORK then
       thn save_ctx (bnd Fork (\<lambda>r. thn (halt_on_error r) load_ctx))
     else if code c = YALNIX_GETPID then
       thn save_ctx (bnd GetPid (\<lambda>r. thn (halt_on_error r) (return_with r)))
     else if code c = YALNIX_WAIT then
       thn save_ctx (bnd (Wait (reg c 0)) return_with)
     else if code c = YALNIX_EXIT then
       Exit False (sint (reg c 0))
     else if code c = YALNIX_EXEC then
       thn save_ctx (bnd (Exec fs (reg c 0) (reg c 1)) return_with)
     else if code c = YALNIX_TTY_READ then
       (if CheckBuffer (reg c 1) (sint (reg c 2)) = ERROR then ctx_reg0 ERROR
        else thn save_ctx (bnd (TtyRead (sint (reg c 0)) (reg c 1) (sint (reg c 2))) (\<lambda>rc.
          thn (unpack_read (reg c 1) rc) (return_with rc))))
     else if code c = YALNIX_TTY_WRITE then
       (if CheckBuffer (reg c 1) (sint (reg c 2)) = ERROR then ctx_reg0 ERROR
        else thn save_ctx (bnd (TtyWrite (sint (reg c 0)) (reg c 1) (sint (reg c 2))) return_with))
     else ret ())"

section \<open>Exceptions\<close>

definition MathTrapHandler :: "(kstate, unit) prog" where
  "MathTrapHandler = thn (Exit True ERROR) halt"

definition IllegalInstructionTrapHandler :: "(kstate, unit) prog" where
  "IllegalInstructionTrapHandler = thn (Exit True ERROR) halt"

definition NotImplementedTrapHandler :: "(kstate, unit) prog" where
  "NotImplementedTrapHandler = ret ()"

definition MemoryTrapHandler :: "(kstate, unit) prog" where
  "MemoryTrapHandler = bnd (gets ctx) (\<lambda>c. bnd (gets current_process) (\<lambda>p. bnd (get_pcb p) (\<lambda>b.
     if code c = YALNIX_MAPERR \<and> UP_TO_PAGE (user_heap_end_vaddr b) < uaddr c \<and>
        uaddr c < DOWN_TO_PAGE (user_stack_base_vaddr b)
     then bnd (growStack (uaddr c)) (\<lambda>r. if r = KILL then Exit False ERROR else ret ())
     else if code c = YALNIX_MAPERR then Exit False ERROR
     else ret ())))"

section \<open>Terminals\<close>

definition transmit_chunk :: "int \<Rightarrow> terminal_t \<Rightarrow> (kstate, unit) prog" where
  "transmit_chunk i t =
     (let left = write_buffer_len t - write_buffer_position t;
          bytes_to_write = (if int TERMINAL_MAX_LINE < left then int TERMINAL_MAX_LINE else left)
      in (case write_buffer t of
            None \<Rightarrow> fail NullDeref
          | Some bs \<Rightarrow>
              thn (TtyTransmit i (take (nat bytes_to_write) (drop (nat (write_buffer_position t)) bs)))
                  (upd_tty i (\<lambda>t. t\<lparr>write_buffer_position := write_buffer_position t + bytes_to_write\<rparr>))))"

definition transmit_done :: "int \<Rightarrow> terminal_t \<Rightarrow> (kstate, unit) prog" where
  "transmit_done i t =
     thn (upd_tty i (\<lambda>t. t\<lparr>write_buffer := None, write_buffer_len := 0, write_buffer_position := 0\<rparr>))
    (thn (upd_tty i (\<lambda>t. t\<lparr>current_writer := 0\<rparr>))
    (thn (if current_writer t \<noteq> 0
          then thn (upd_pcb (current_writer t) (\<lambda>b. b\<lparr>pstate := PROC_READY,
                 user_context := set_reg0 (word_of_int (write_buffer_len t)) (user_context b)\<rparr>))
              (bnd (gets blocked_queue) (\<lambda>bq.
               thn (kqueueRemove bq (current_writer t))
              (bnd (gets ready_queue) (\<lambda>rq. kqueueEnqueue rq (current_writer t)))))
          else ret ())
    (bnd (kis_empty (blocked_writers t)) (\<lambda>e.
     if \<not> e
     then bnd (kqueueDequeue (blocked_writers t)) (\<lambda>next_writer.
       thn (upd_pcb next_writer (\<lambda>b. b\<lparr>pstate := PROC_READY\<rparr>))
      (bnd (gets blocked_queue) (\<lambda>bq.
       thn (kqueueRemove bq next_writer)
      (bnd (gets ready_queue) (\<lambda>rq. kqueueEnqueue rq next_writer)))))
     else upd_tty i (\<lambda>t. t\<lparr>in_use := False\<rparr>)))))"

definition TtyTrapTransmitHandler :: "(kstate, unit) prog" where
  "TtyTrapTransmitHandler = bnd (gets (\<lambda>s. sint (code (ctx s)))) (\<lambda>i. bnd (get_tty i) (\<lambda>t.
     if write_buffer_position t < write_buffer_len t then transmit_chunk i t else transmit_done i t))"

text \<open>
  One turn of the loop of \<^verbatim>\<open>TtyTrapReceiveHandler\<close> serves the first blocked reader. Every turn takes
  a reader off the queue, so \<open>fuel\<close>, a bound on the nodes there are, is enough.
\<close>

definition give_input :: "addr \<Rightarrow> int \<Rightarrow> byte list \<Rightarrow> (kstate, int) prog" where
  "give_input reader want buf = bnd malloc (\<lambda>a.
     if a \<noteq> 0
     then thn (upd_pcb reader (\<lambda>b. b\<lparr>tty_kernel_read_buf := Some (take (nat want) buf),
            kernel_read_size := want, user_context := set_reg0 (word_of_int want) (user_context b)\<rparr>))
         (ret want)
     else thn (upd_pcb reader (\<lambda>b. b\<lparr>user_context := set_reg0 0 (user_context b)\<rparr>)) (ret 0))"

definition drop_input :: "int \<Rightarrow> terminal_t \<Rightarrow> int \<Rightarrow> (kstate, unit) prog" where
  "drop_input i t n =
     (if 0 < n
      then if n < read_buffer_len t
           then upd_tty i (\<lambda>t. t\<lparr>read_buffer := shift_buffer (nat n) (nat (read_buffer_len t)) (read_buffer t),
                  read_buffer_len := read_buffer_len t - n\<rparr>)
           else upd_tty i (\<lambda>t. t\<lparr>read_buffer_len := 0\<rparr>)
      else ret ())"

definition wake_reader :: "addr \<Rightarrow> (kstate, unit) prog" where
  "wake_reader reader = bnd (gets blocked_queue) (\<lambda>bq.
     thn (kqueueRemove bq reader)
    (thn (upd_pcb reader (\<lambda>b. b\<lparr>pstate := PROC_READY\<rparr>))
    (bnd (gets ready_queue) (\<lambda>rq. kqueueEnqueue rq reader))))"

definition serve_reader :: "int \<Rightarrow> terminal_t \<Rightarrow> addr \<Rightarrow> (kstate, unit) prog" where
  "serve_reader i t reader = bnd (get_pcb reader) (\<lambda>rb.
     bnd (give_input reader
            (if tty_read_len rb < read_buffer_len t then tty_read_len rb else read_buffer_len t)
            (read_buffer t)) (\<lambda>bytes_to_read.
     thn (drop_input i t bytes_to_read) (wake_reader reader)))"

fun serve_readers :: "nat \<Rightarrow> int \<Rightarrow> (kstate, unit) prog" where
  "serve_readers 0 i = fail Diverges"
| "serve_readers (Suc fuel) i = bnd (get_tty i) (\<lambda>t. bnd (kis_empty (blocked_readers t)) (\<lambda>e.
     if \<not> e \<and> 0 < read_buffer_len t
     then bnd (kqueueDequeue (blocked_readers t)) (\<lambda>reader.
       thn (serve_reader i t reader) (serve_readers fuel i))
     else ret ()))"

text \<open>
  \<open>line\<close> is the input the terminal holds; \<^verbatim>\<open>TtyReceive\<close> stores as much of it as fits behind what
  the buffer holds and returns the number of bytes.
\<close>

definition put_input :: "nat \<Rightarrow> byte list \<Rightarrow> byte list \<Rightarrow> byte list" where
  "put_input at bs buf = take at buf @ bs @ drop (at + length bs) buf"

definition TtyTrapReceiveHandler :: "byte list \<Rightarrow> (kstate, unit) prog" where
  "TtyTrapReceiveHandler line = bnd (gets (\<lambda>s. sint (code (ctx s)))) (\<lambda>i. bnd (get_tty i) (\<lambda>t.
     let bs = take (nat (int TERMINAL_MAX_LINE - read_buffer_len t)) line in
     thn (upd_tty i (\<lambda>t. t\<lparr>read_buffer := put_input (nat (read_buffer_len t)) bs (read_buffer t),
                           read_buffer_len := read_buffer_len t + int (length bs)\<rparr>))
    (bnd (gets (\<lambda>s. limit (qh s))) (\<lambda>n. serve_readers (Suc n) i))))"

section \<open>Continuing a process\<close>

text \<open>
  What the kernel does when the processor has come to the current process: it continues at the
  point its kernel context names, down to the end of the handler.
\<close>

definition resume :: "(kstate, unit) prog" where
  "resume = bnd (gets current_process) (\<lambda>p. bnd (get_pcb p) (\<lambda>b. case kernel_context b of
       KC_none \<Rightarrow> fail BadResume
     | KC_KernelStart \<Rightarrow> load_ctx
     | KC_Clock \<Rightarrow> load_ctx
     | KC_Delay \<Rightarrow> return_with SUCCESS
     | KC_Fork par child \<Rightarrow> bnd (Fork_resume par child) (\<lambda>r. thn (halt_on_error r) load_ctx)
     | KC_Wait status_ptr \<Rightarrow> bnd (Wait_resume status_ptr) return_with
     | KC_Exit halt_after \<Rightarrow> (if halt_after then halt else ret ())
     | KC_TtyRead buf \<Rightarrow> bnd TtyRead_resume (\<lambda>rc. thn (unpack_read buf rc) (return_with rc))
     | KC_TtyWriteLock i buf len \<Rightarrow> bnd (TtyWrite_locked i buf len) return_with
     | KC_TtyWriteDone len \<Rightarrow> return_with len))"

section \<open>Every handler keeps the kernel's invariant\<close>

lemma keeps_trapHandlerHelper [keeps_intros]: "keeps (kinv T) (trapHandlerHelper p)"
  unfolding trapHandlerHelper_def by (intro keeps_intros) simp_all

lemma keeps_growStack [keeps_intros]: "keeps (kinv T) (growStack a)"
  unfolding growStack_def growStack_pages_def growStack_undo_def Let_def by (intro keeps_intros) simp

lemma keeps_ClockTrapHandler [keeps_intros]: "keeps (kinv T) ClockTrapHandler"
  unfolding ClockTrapHandler_def by (intro keeps_intros) simp_all

lemma keeps_unpack_read [keeps_intros]: "keeps (kinv T) (unpack_read a n)"
  unfolding unpack_read_def by (intro keeps_intros) simp

lemma keeps_return_with [keeps_intros]: "keeps (kinv T) (return_with v)"
  unfolding return_with_def by (intro keeps_intros)

lemma keeps_halt_on_error [keeps_intros]: "keeps (kinv T) (halt_on_error v)"
  unfolding halt_on_error_def by (intro keeps_intros)

lemma keeps_KernelTrapHandler [keeps_intros]: "keeps (kinv T) (KernelTrapHandler fs)"
  unfolding KernelTrapHandler_def by (intro keeps_intros)

lemma keeps_MathTrapHandler [keeps_intros]: "keeps (kinv T) MathTrapHandler"
  unfolding MathTrapHandler_def by (intro keeps_intros)

lemma keeps_IllegalInstructionTrapHandler [keeps_intros]: "keeps (kinv T) IllegalInstructionTrapHandler"
  unfolding IllegalInstructionTrapHandler_def by (intro keeps_intros)

lemma keeps_NotImplementedTrapHandler [keeps_intros]: "keeps (kinv T) NotImplementedTrapHandler"
  unfolding NotImplementedTrapHandler_def by (intro keeps_intros)

lemma keeps_MemoryTrapHandler [keeps_intros]: "keeps (kinv T) MemoryTrapHandler"
  unfolding MemoryTrapHandler_def by (intro keeps_intros)

lemma leads_transmit_chunk:
  assumes "length ts = NUM_TERMINALS" and "\<forall>j \<in> T. j < NUM_TERMINALS \<longrightarrow> tty_ok (ts ! j)"
    and "write_buffer_position (ts ! nat i) < write_buffer_len (ts ! nat i)"
  shows "leads (kinvt T ts) (transmit_chunk i (ts ! nat i)) (kinv T)"
proof (cases "write_buffer (ts ! nat i)")
  case None
  then show ?thesis by (simp add: transmit_chunk_def leads_def prog_simps)
next
  case (Some bs)
  let ?left = "write_buffer_len (ts ! nat i) - write_buffer_position (ts ! nat i)"
  let ?n = "if int TERMINAL_MAX_LINE < ?left then int TERMINAL_MAX_LINE else ?left"
  have 1: "leads (kinvt T ts) (TtyTransmit i (take (nat ?n) (drop (nat (write_buffer_position (ts ! nat i))) bs))) (kinvt T ts)"
    by (intro keeps_kinvt keeps_intros) simp
  have 2: "leads (kinvt T ts) (upd_tty i (\<lambda>t. t\<lparr>write_buffer_position := write_buffer_position t + ?n\<rparr>)) (kinv T)"
    using assms Some by (intro leads_mono [OF leads_upd_tty kinvt_kinv]) (auto simp: tty_ok_def)
  show ?thesis using leads_thn [OF 1 kinvt_kinv 2] Some by (simp add: transmit_chunk_def Let_def)
qed

lemma keeps_transmit_done [keeps_intros]: "keeps (kinv T) (transmit_done i t)"
  unfolding transmit_done_def
  by (intro keeps_intros keeps_upd_tty) (auto simp: tty_ok_def)

lemma keeps_TtyTrapTransmitHandler [keeps_intros]: "keeps (kinv T) TtyTrapTransmitHandler"
  unfolding TtyTrapTransmitHandler_def
proof (rule keeps_bnd [OF keeps_gets], rule leads_get_tty, rule leads_if)
  fix i ts assume "length ts = NUM_TERMINALS" "\<forall>j \<in> T. j < NUM_TERMINALS \<longrightarrow> tty_ok (ts ! j)"
    "write_buffer_position (ts ! nat i) < write_buffer_len (ts ! nat i)"
  then show "leads (kinvt T ts) (transmit_chunk i (ts ! nat i)) (kinv T)" by (rule leads_transmit_chunk)
next
  fix i ts show "leads (kinvt T ts) (transmit_done i (ts ! nat i)) (kinv T)"
    by (rule leads_pre [OF keeps_transmit_done kinvt_kinv])
qed

lemma keeps_wake_reader [keeps_intros]: "keeps (kinv T) (wake_reader p)"
  unfolding wake_reader_def by (intro keeps_intros) simp

lemma keeps_give_input [keeps_intros]: "keeps (kinv T) (give_input p n buf)"
  unfolding give_input_def by (intro keeps_intros) simp_all

lemma same_ttys_thn: "same_ttys m \<Longrightarrow> same_ttys k \<Longrightarrow> same_ttys (thn m k)"
  unfolding thn_def by (rule same_ttys_bnd)

lemma same_ttys_ret: "same_ttys (ret a)"
  by (simp add: same_ttys_def keeps_ret)

lemma same_ttys_give_input [simp]: "same_ttys (give_input p n buf)"
  unfolding give_input_def by (intro same_ttys_bnd) (auto intro!: same_ttys_thn same_ttys_ret)

lemma give_input_value: "give_input p n buf s = Ret v t \<Longrightarrow> v = n \<or> v = 0"
  by (auto simp: give_input_def prog_simps malloc_def split: outcome.splits if_splits)

lemma leads_drop_input:
  assumes "length ts = NUM_TERMINALS" and "\<forall>j \<in> T. j < NUM_TERMINALS \<longrightarrow> tty_ok (ts ! j)"
  shows "leads (kinvt T ts) (drop_input i (ts ! nat i) n) (kinv T)"
  unfolding drop_input_def
proof (intro leads_if leads_ret)
  assume "0 < n" "n < read_buffer_len (ts ! nat i)"
  then show "leads (kinvt T ts) (upd_tty i (\<lambda>t. t\<lparr>read_buffer := shift_buffer (nat n) (nat (read_buffer_len t)) (read_buffer t),
                  read_buffer_len := read_buffer_len t - n\<rparr>)) (kinv T)"
    using assms by (intro leads_mono [OF leads_upd_tty kinvt_kinv]) (auto simp: tty_ok_def length_shift_buffer nat_le_iff)
next
  show "leads (kinvt T ts) (upd_tty i (\<lambda>t. t\<lparr>read_buffer_len := 0\<rparr>)) (kinv T)"
    using assms by (intro leads_mono [OF leads_upd_tty kinvt_kinv]) (auto simp: tty_ok_def)
qed (rule kinvt_kinv)

lemma leads_serve_reader:
  assumes "length ts = NUM_TERMINALS" and "\<forall>j \<in> T. j < NUM_TERMINALS \<longrightarrow> tty_ok (ts ! j)"
  shows "leads (kinvt T ts) (serve_reader i (ts ! nat i) r) (kinv T)"
proof -
  have 1: "leads (kinvt T ts) (get_pcb r) (kinvt T ts)" by (intro keeps_kinvt keeps_intros) simp
  have 2: "leads (kinvt T ts) (give_input r n buf) (kinvt T ts)" for n buf by (intro keeps_kinvt keeps_intros) simp
  have 3: "leads (kinv T) (wake_reader r) (kinv T)" using keeps_wake_reader by (simp add: keeps_leads)
  show ?thesis unfolding serve_reader_def
    by (rule leads_bnd [OF 1 kinvt_kinv], assumption, rule leads_bnd [OF 2 kinvt_kinv], assumption,
        rule leads_thn [OF leads_drop_input [OF assms] _ 3])
qed

lemma keeps_serve_readers [keeps_intros]: "keeps (kinv T) (serve_readers fuel i)"
proof (induction fuel)
  case 0
  then show ?case by (simp add: keeps_fail)
next
  case (Suc fuel)
  have 1: "leads (kinvt T ts) (kis_empty q) (kinvt T ts)" for ts q by (intro keeps_kinvt keeps_intros) simp
  have 2: "leads (kinvt T ts) (kqueueDequeue q) (kinvt T ts)" for ts q by (intro keeps_kinvt keeps_intros) simp
  have 3: "leads (kinv T) (serve_readers fuel i) (kinv T)" using Suc by (simp add: keeps_leads)
  show ?case
    by (simp only: serve_readers.simps, rule leads_get_tty, rule leads_bnd [OF 1 kinvt_kinv], assumption,
        rule leads_if, rule leads_bnd [OF 2 kinvt_kinv], assumption,
        rule leads_thn [OF leads_serve_reader _ 3], assumption, assumption, assumption,
        rule leads_ret [OF kinvt_kinv])
qed

lemma length_put_input: "at + length bs \<le> length buf \<Longrightarrow> length (put_input at bs buf) = length buf"
  by (simp add: put_input_def)

lemma tty_ok_receive:
  assumes "tty_ok t" and "bs = take (nat (int TERMINAL_MAX_LINE - read_buffer_len t)) line"
  shows "tty_ok (t\<lparr>read_buffer := put_input (nat (read_buffer_len t)) bs (read_buffer t),
    read_buffer_len := read_buffer_len t + int (length bs)\<rparr>)"
proof -
  have l: "0 \<le> read_buffer_len t" "read_buffer_len t \<le> int TERMINAL_MAX_LINE" "length (read_buffer t) = TERMINAL_MAX_LINE"
    using assms(1) by (simp_all add: tty_ok_def)
  have "length bs \<le> nat (int TERMINAL_MAX_LINE - read_buffer_len t)" by (simp add: assms(2))
  then have "nat (read_buffer_len t) + length bs \<le> length (read_buffer t)" using l by linarith
  then show ?thesis using assms(1) l by (auto simp: tty_ok_def length_put_input)
qed

lemma keeps_TtyTrapReceiveHandler [keeps_intros]: "keeps (kinv T) (TtyTrapReceiveHandler line)"
  unfolding TtyTrapReceiveHandler_def Let_def
proof (rule keeps_bnd [OF keeps_gets], rule leads_get_tty)
  fix i ts assume ts: "length ts = NUM_TERMINALS" "\<forall>j \<in> T. j < NUM_TERMINALS \<longrightarrow> tty_ok (ts ! j)"
  let ?bs = "take (nat (int TERMINAL_MAX_LINE - read_buffer_len (ts ! nat i))) line"
  let ?f = "\<lambda>t. t\<lparr>read_buffer := put_input (nat (read_buffer_len t)) ?bs (read_buffer t),
        read_buffer_len := read_buffer_len t + int (length ?bs)\<rparr>"
  have 1: "leads (kinvt T ts) (upd_tty i ?f) (kinv T)"
    using ts by (intro leads_mono [OF leads_upd_tty kinvt_kinv] tty_ok_receive) auto
  have "keeps (kinv T) (bnd (gets (\<lambda>s. limit (qh s))) (\<lambda>n. serve_readers (Suc n) i))" by (intro keeps_intros)
  then show "leads (kinvt T ts) (thn (upd_tty i ?f) (bnd (gets (\<lambda>s. limit (qh s))) (\<lambda>n. serve_readers (Suc n) i))) (kinv T)"
    by (intro leads_thn [OF 1]) (simp_all add: keeps_leads)
qed

lemma keeps_resume [keeps_intros]: "keeps (kinv T) resume"
  unfolding resume_def
proof (rule keeps_bnd [OF keeps_gets], rule keeps_get_pcb_bnd)
  fix b :: PCB assume "kc_ok (kernel_context b)"
  then show "keeps (kinv T) (case kernel_context b of
       KC_none \<Rightarrow> fail BadResume
     | KC_KernelStart \<Rightarrow> load_ctx
     | KC_Clock \<Rightarrow> load_ctx
     | KC_Delay \<Rightarrow> return_with SUCCESS
     | KC_Fork par child \<Rightarrow> bnd (Fork_resume par child) (\<lambda>r. thn (halt_on_error r) load_ctx)
     | KC_Wait status_ptr \<Rightarrow> bnd (Wait_resume status_ptr) return_with
     | KC_Exit halt_after \<Rightarrow> (if halt_after then halt else ret ())
     | KC_TtyRead buf \<Rightarrow> bnd TtyRead_resume (\<lambda>rc. thn (unpack_read buf rc) (return_with rc))
     | KC_TtyWriteLock i buf len \<Rightarrow> bnd (TtyWrite_locked i buf len) return_with
     | KC_TtyWriteDone len \<Rightarrow> return_with len)"
    by (cases "kernel_context b") (auto intro!: keeps_intros)
qed

end
