(* ===== verification/Init.thy ===== *)
theory Init
  imports Traps
begin

text \<open>
  \<^verbatim>\<open>src/init.c\<close> and \<^verbatim>\<open>KernelStart\<close> of \<^verbatim>\<open>src/kernel.c\<close>: the boot of the kernel. Where the kernel image
  ends up in memory, and the address of \<^verbatim>\<open>DoIdle\<close>, come from the linker: \<open>boot_info\<close>.
\<close>

record boot_info =
  first_kernel_text_page :: nat
  first_kernel_data_page :: nat
  orig_kernel_brk_page :: nat
  do_idle :: word32

section \<open>Memory\<close>

definition InitializeVM :: "boot_info \<Rightarrow> (kmem, unit) prog" where
  "InitializeVM bi =
     thn (modify (\<lambda>m. m\<lparr>pt_region0 := replicate MAX_PT_LEN pte0\<rparr>))
    (thn (for_do (first_kernel_text_page bi) (first_kernel_data_page bi) (\<lambda>vpn.
            upd_pte0 vpn (\<lambda>e. e\<lparr>valid := True, prot := PROT_READ OR PROT_EXEC, pfn := to_pfn (int vpn)\<rparr>)))
    (thn (for_do (first_kernel_data_page bi) (orig_kernel_brk_page bi) (\<lambda>vpn.
            upd_pte0 vpn (\<lambda>e. e\<lparr>valid := True, prot := PROT_READ OR PROT_WRITE, pfn := to_pfn (int vpn)\<rparr>)))
         (for_do KSTACK_START_PAGE (KSTACK_START_PAGE + KSTACK_PAGES) (\<lambda>vpn.
            upd_pte0 vpn (\<lambda>e. e\<lparr>valid := True, prot := PROT_READ OR PROT_WRITE, pfn := to_pfn (int vpn)\<rparr>)))))"

text \<open>
  \<open>a\<close> is what \<^verbatim>\<open>malloc\<close> returned for the table. \<^verbatim>\<open>text_section_base_page\<close> is a global variable that is
  never assigned, so it is 0.
\<close>

definition text_section_base_page :: nat where "text_section_base_page = 0"

definition InitializeFreeFrameList :: "nat \<Rightarrow> addr \<Rightarrow> (kmem, unit) prog" where
  "InitializeFreeFrameList pmem_size a =
     thn (modify (\<lambda>m. m\<lparr>nframes := pmem_size div PAGESIZE, free_nframes := 0\<rparr>))
    (bnd (gets nframes) (\<lambda>n.
     thn (modify (\<lambda>m. m\<lparr>frame_table := (if a = 0 then [] else
            replicate n \<lparr>fd_pfn = 0, usage = FRAME_FREE, owner_pid = 0, last_used_tick = 0\<rparr>)\<rparr>))
         (for_do 0 n (\<lambda>i. bnd (gets kernel_brk_page) (\<lambda>kernel_brk_pfn.
            thn (upd_fd (int i) (\<lambda>fd. fd\<lparr>fd_pfn := i\<rparr>))
           (if text_section_base_page \<le> i \<and> i < kernel_brk_pfn
            then upd_fd (int i) (\<lambda>fd. fd\<lparr>usage := FRAME_KERNEL, owner_pid := IDLE_PID\<rparr>)
            else thn (upd_fd (int i) (\<lambda>fd. fd\<lparr>usage := FRAME_FREE, owner_pid := -1\<rparr>))
                     (modify (\<lambda>m. m\<lparr>free_nframes := free_nframes m + 1\<rparr>))))))))"

definition EnableVM :: "(kstate, unit) prog" where
  "EnableVM =
     thn (on_mem (WriteRegister (REG_PTLR0 MAX_PT_LEN)))
    (bnd (gets current_process) (\<lambda>p. bnd (get_pcb p) (\<lambda>b.
     thn (on_mem (WriteRegister (REG_PTBR1 (ptbr b))))
    (thn (on_mem (WriteRegister (REG_PTLR1 (ptlr b))))
         (on_mem (WriteRegister (REG_VM_ENABLE True)))))))"

section \<open>Tables\<close>

definition InitializeProcTable :: "(kstate, unit) prog" where
  "InitializeProcTable = bnd malloc (\<lambda>a.
     if a = 0 then fail NullDeref
     else modify (\<lambda>s. s\<lparr>proc_table := Some (replicate MAX_PROCS 0)\<rparr>))"

definition InitializeInterruptVectorTable :: "(kstate, unit) prog" where
  "InitializeInterruptVectorTable = modify (\<lambda>s. s\<lparr>TRAP_VECTOR := (TRAP_VECTOR s)
     [TRAP_KERNEL := H_Kernel, TRAP_CLOCK := H_Clock, TRAP_MEMORY := H_Memory,
      TRAP_TTY_RECEIVE := H_TtyReceive, TRAP_TTY_TRANSMIT := H_TtyTransmit,
      TRAP_MATH := H_Math, TRAP_ILLEGAL := H_Illegal]\<rparr>)"

definition InitializeTerminal :: "nat \<Rightarrow> (kstate, unit) prog" where
  "InitializeTerminal i =
     thn (upd_tty (int i) (\<lambda>t. t\<lparr>tty_id := int i\<rparr>))
    (bnd kqueueCreate (\<lambda>rq. thn (upd_tty (int i) (\<lambda>t. t\<lparr>blocked_readers := rq\<rparr>))
    (bnd kqueueCreate (\<lambda>wq. thn (upd_tty (int i) (\<lambda>t. t\<lparr>blocked_writers := wq\<rparr>))
    (if rq = 0 \<or> wq = 0 then halt
     else bnd malloc (\<lambda>a.
       if a = 0 then halt
       else upd_tty (int i) (\<lambda>t. t\<lparr>read_buffer := replicate TERMINAL_MAX_LINE 0,
              read_buffer_len := 0, write_buffer := None, write_buffer_position := 0,
              write_buffer_len := 0, current_writer := 0, in_use := False\<rparr>)))))))"

definition InitializeTerminals :: "(kstate, unit) prog" where
  "InitializeTerminals = for_do 0 NUM_TERMINALS InitializeTerminal"

section \<open>KernelStart\<close>

text \<open>\<^verbatim>\<open>./user/init\<close>\<close>

definition default_init :: "byte list" where
  "default_init = map (\<lambda>c. of_nat (of_char c)) ''./user/init''"

text \<open>Up to the creation of the idle process.\<close>

definition KernelStart_boot :: "boot_info \<Rightarrow> nat \<Rightarrow> (kstate, unit) prog" where
  "KernelStart_boot bi pmem_size =
     thn (on_mem (modify (\<lambda>m. m\<lparr>kernel_brk_page := orig_kernel_brk_page bi\<rparr>)))
    (thn (bnd malloc (\<lambda>a. on_mem (InitializeFreeFrameList pmem_size a)))
    (thn (on_mem (InitializeVM bi))
    (thn InitializeInterruptVectorTable
    (thn InitializeProcTable
    (thn InitializeTerminals
    (thn InitializeProcQueues
    (thn (on_mem (WriteRegister (REG_PTLR0 MAX_PT_LEN)))
    (thn (on_mem (WriteRegister (REG_VM_ENABLE True)))
    (bnd (CreateIdlePCB (do_idle bi)) (\<lambda>p.
     thn (modify (\<lambda>s. s\<lparr>idle_proc := p, current_process := p\<rparr>))
    (bnd (get_pcb p) (\<lambda>b.
     thn (on_mem (WriteRegister (REG_PTBR1 (ptbr b))))
    (thn (on_mem (WriteRegister (REG_PTLR1 MAX_PT_LEN)))
         load_ctx)))))))))))))"

definition KernelStart :: "boot_info \<Rightarrow> file_system \<Rightarrow> byte list list \<Rightarrow> nat \<Rightarrow> (kstate, unit) prog" where
  "KernelStart bi fs cmd_args pmem_size =
     thn (KernelStart_boot bi pmem_size)
    (bnd getFreePCB (\<lambda>ip.
     thn (modify (\<lambda>s. s\<lparr>init_proc := ip\<rparr>))
    (bnd kInitializeKernelStackProcess (\<lambda>k.
     thn (upd_pcb ip (\<lambda>b. b\<lparr>kstack := k\<rparr>))
    (bnd (gets ctx) (\<lambda>c.
     thn (upd_pcb ip (\<lambda>b. b\<lparr>user_context := c\<rparr>))
    (bnd (get_pcb ip) (\<lambda>b.
     thn (on_mem (WriteRegister (REG_PTBR1 (ptbr b))))
    (thn (on_mem (WriteRegister (REG_PTLR1 MAX_PT_LEN)))
    (thn (on_mem (WriteRegister (REG_TLB_FLUSH TLB_FLUSH_ALL)))
    (bnd (LoadProgram (fs (case cmd_args of [] \<Rightarrow> default_init | a # _ \<Rightarrow> a)) (ret cmd_args) ip) (\<lambda>load_status.
     thn (if load_status \<noteq> SUCCESS then halt else ret ())
    (bnd (gets idle_proc) (\<lambda>idle. bnd (get_pcb idle) (\<lambda>ib.
     thn (on_mem (WriteRegister (REG_PTBR1 (ptbr ib))))
    (thn (on_mem (WriteRegister (REG_PTLR1 MAX_PT_LEN)))
    (thn (on_mem (WriteRegister (REG_TLB_FLUSH TLB_FLUSH_ALL)))
    (bnd (gets ready_queue) (\<lambda>rq.
     thn (kqueueEnqueue rq ip)
    (thn (KernelContextSwitch_KCCopy KC_KernelStart ip)
         load_ctx))))))))))))))))))))"

section \<open>Boot establishes the invariant\<close>

text \<open>The state before the boot: static data is zero, nothing is allocated.\<close>

definition tty0 :: terminal_t where
  "tty0 = \<lparr>blocked_writers = 0, blocked_readers = 0, tty_id = 0, read_buffer_len = 0,
     write_buffer_len = 0, read_buffer = [], write_buffer = None, write_buffer_position = 0,
     current_writer = 0, in_use = False\<rparr>"

definition start_mem :: "(nat \<Rightarrow> nat \<Rightarrow> byte) \<Rightarrow> kmem" where
  "start_mem ph = \<lparr>phys = ph, tlb = (\<lambda>_. None), reg_vm_enable = False, reg_ptlr0 = 0, reg_ptbr1 = 0,
     reg_ptlr1 = 0, pt_region0 = replicate MAX_PT_LEN pte0, pts = Map.empty, nframes = 0,
     free_nframes = 0, frame_table = [], kernel_brk_page = 0\<rparr>"

definition start_state :: "(nat \<Rightarrow> nat \<Rightarrow> byte) \<Rightarrow> UserContext \<Rightarrow> (nat \<Rightarrow> bool) \<Rightarrow> (nat \<Rightarrow> bool) \<Rightarrow> (nat \<Rightarrow> int) \<Rightarrow> kstate" where
  "start_state ph uc mok kok npid = \<lparr>km = start_mem ph, qh = qheap0, pcbs = Map.empty, proc_table = None,
     idle_proc = 0, init_proc = 0, current_process = 0, ready_queue = 0, blocked_queue = 0,
     zombie_queue = 0, waiting_parents = 0, terminals = replicate NUM_TERMINALS tty0,
     TRAP_VECTOR = replicate TRAP_VECTOR_SIZE H_NotImplemented, ctx = uc, transmitted = [],
     next_addr = 1, calls = 0, malloc_ok = mok, kcs_ok = kok, new_pid = npid\<rparr>"

lemma start_state_kinv: "kinv {} (start_state ph uc mok kok npid)"
  by (simp add: kinv_def start_state_def start_mem_def tables_ok_def)

lemma keeps_InitializeVM [keeps_intros]: "keeps tables_ok (InitializeVM bi)"
  unfolding InitializeVM_def by (intro keeps_intros) (simp add: tables_ok_def)

lemma keeps_InitializeFreeFrameList [keeps_intros]: "keeps tables_ok (InitializeFreeFrameList n a)"
proof (rule keepsI)
  fix m assume m: "tables_ok m"
  let ?body = "\<lambda>i. bnd (gets kernel_brk_page) (\<lambda>kernel_brk_pfn.
            thn (upd_fd (int i) (\<lambda>fd. fd\<lparr>fd_pfn := i\<rparr>))
           (if text_section_base_page \<le> i \<and> i < kernel_brk_pfn
            then upd_fd (int i) (\<lambda>fd. fd\<lparr>usage := FRAME_KERNEL, owner_pid := IDLE_PID\<rparr>)
            else thn (upd_fd (int i) (\<lambda>fd. fd\<lparr>usage := FRAME_FREE, owner_pid := -1\<rparr>))
                     (modify (\<lambda>m. m\<lparr>free_nframes := free_nframes m + 1\<rparr>))))"
  let ?m = "m\<lparr>nframes := n div PAGESIZE, free_nframes := 0,
     frame_table := (if a = 0 then [] else
       replicate (n div PAGESIZE) \<lparr>fd_pfn = 0, usage = FRAME_FREE, owner_pid = 0, last_used_tick = 0\<rparr>)\<rparr>"
  have eq: "InitializeFreeFrameList n a m = for_do 0 (n div PAGESIZE) ?body ?m"
    by (simp add: InitializeFreeFrameList_def prog_simps)
  have keep: "keeps tables_ok (for_do 0 (n div PAGESIZE) ?body)" by (intro keeps_intros) simp_all
  show "holds_after tables_ok (InitializeFreeFrameList n a m)"
  proof (cases "a = 0 \<and> 0 < n div PAGESIZE")
    case True
    then show ?thesis unfolding eq by (simp add: for_do_step prog_simps array_ops)
  next
    case False
    then have "tables_ok ?m" using m by (auto simp: tables_ok_def)
    then show ?thesis unfolding eq by (rule keepsD [OF keep])
  qed
qed

lemma keeps_InitializeProcTable [keeps_intros]: "keeps (kinv T) InitializeProcTable"
  unfolding InitializeProcTable_def by (intro keeps_intros) (simp add: kinv_def)

lemma keeps_InitializeInterruptVectorTable [keeps_intros]: "keeps (kinv T) InitializeInterruptVectorTable"
  unfolding InitializeInterruptVectorTable_def by (intro keeps_intros) (simp add: kinv_def)

lemma keeps_upd_tty_other: "nat i \<notin> T \<Longrightarrow> keeps (kinv T) (upd_tty i f)"
  by (auto simp: keeps_def upd_tty_def get_tty_def prog_simps kinv_def nth_list_update)

lemma yields_upd_tty:
  "(\<And>t. tty_ok (f t)) \<Longrightarrow> yields (kinv T) (upd_tty i f) (kinv (insert (nat i) T))"
  by (auto simp: yields_def upd_tty_def get_tty_def prog_simps kinv_def nth_list_update)

lemma yields_InitializeTerminal: "yields (kinv {..<i}) (InitializeTerminal i) (kinv {..<Suc i})"
proof -
  note up = keeps_yields [OF keeps_upd_tty_other [of "int i" "{..<i}"], simplified]
  have last: "yields (kinv {..<i}) (upd_tty (int i) (\<lambda>t. t\<lparr>read_buffer := replicate TERMINAL_MAX_LINE 0,
              read_buffer_len := 0, write_buffer := None, write_buffer_position := 0,
              write_buffer_len := 0, current_writer := 0, in_use := False\<rparr>)) (kinv {..<Suc i})"
    using yields_upd_tty [of _ "{..<i}" "int i"] by (auto simp: lessThan_Suc tty_ok_def)
  show ?thesis unfolding InitializeTerminal_def
    by (intro yields_bnd [OF keeps_yields [OF keeps_kqueueCreate]] yields_thn [OF up] yields_if yields_halt
        yields_bnd [OF keeps_yields [OF keeps_malloc]] last)
qed

lemma yields_InitializeTerminals: "yields (kinv {}) InitializeTerminals (kinv {..<NUM_TERMINALS})"
  using yields_for_do [of 0 NUM_TERMINALS "\<lambda>i. kinv {..<i}" InitializeTerminal] yields_InitializeTerminal
  by (simp add: InitializeTerminals_def)

lemma yields_KernelStart: "yields (kinv {}) (KernelStart bi fs args n) (kinv {..<NUM_TERMINALS})"
proof -
  have boot: "yields (kinv {}) (KernelStart_boot bi n) (kinv {..<NUM_TERMINALS})"
    unfolding KernelStart_boot_def
    by (rule yields_thn [OF keeps_yields], (intro keeps_intros, simp),
        rule yields_thn [OF keeps_yields], (intro keeps_intros),
        rule yields_thn [OF keeps_yields], (intro keeps_intros),
        rule yields_thn [OF keeps_yields], (intro keeps_intros),
        rule yields_thn [OF keeps_yields], (intro keeps_intros),
        rule yields_thn [OF yields_InitializeTerminals],
        rule keeps_yields, (intro keeps_intros, simp))
  show ?thesis unfolding KernelStart_def
    by (rule yields_thn [OF boot], rule keeps_yields, intro keeps_intros) simp_all
qed

lemma keeps_InitializeTerminals: "keeps (kinv {}) InitializeTerminals"
  unfolding InitializeTerminals_def InitializeTerminal_def
  by (intro keeps_intros keeps_upd_tty_other) simp_all

lemma keeps_KernelStart: "keeps (kinv {}) (KernelStart bi fs args n)"
  unfolding KernelStart_def KernelStart_boot_def
  by (intro keeps_intros keeps_InitializeTerminals) simp_all

end
