(* ===== verification/System.thy ===== *)
theory System
  imports Init
begin

text \<open>
  The running system as a step relation: user code runs and traps, the machine calls the handler
  its vector table names, and a process that has been given the processor inside the kernel
  continues at its saved kernel context.

  Two ends of a run are memory errors. \<open>Crashed\<close>: the kernel has followed a null or dangling
  pointer, left an array or looped forever. \<open>Overwritten\<close>: the memory in which the kernel keeps its own
  data has changed under it, by a store through a pointer a process has passed (\<^verbatim>\<open>Wait\<close> stores the
  status wherever it is told to), by a user page that shares one of its frames, or because a page of it
  has been unmapped or mapped elsewhere. The model keeps that data (queues, process
  control blocks, tables) in fields of the state and not in bytes, so it follows a run up to the
  first such error and no further: there is no step from these two.
\<close>

section \<open>The memory of the kernel\<close>

text \<open>
  The frames the kernel has its own data in: its image and heap, from the pages of region 0
  below the kernel break, and the kernel stacks, the mapped one and those of all processes.
\<close>

definition own_pages :: "kmem \<Rightarrow> nat set" where
  "own_pages m = {v. v < kernel_brk_page m \<and> v < KSTACK_START_PAGE}"

definition image_frames :: "kmem \<Rightarrow> nat set" where
  "image_frames m = {frame_of (pt_region0 m ! v) | v. v \<in> own_pages m \<and> valid (pt_region0 m ! v)}"

definition stack_frames :: "kstate \<Rightarrow> nat set" where
  "stack_frames s = {frame_of (pt_region0 (km s) ! v) | v. KSTACK_START_PAGE \<le> v \<and> v < KSTACK_START_PAGE + KSTACK_PAGES} \<union>
     {frame_of e | e p b ks. pcbs s p = Some b \<and> pts (km s) (kstack b) = Some ks \<and> e \<in> set ks \<and> valid e}"

text \<open>
  Whether a piece of code that started in \<open>s\<close> and ended in \<open>t\<close> has changed a byte of these frames, or the
  mapping of a page of the image and heap (a break that falls is such a change: the kernel does not
  flush the translations of the pages it gives back).
\<close>

definition kernel_changed :: "kstate \<Rightarrow> kstate \<Rightarrow> bool" where
  "kernel_changed s t \<longleftrightarrow>
     (\<exists>f \<in> image_frames (km s) \<union> stack_frames s. \<exists>i < PAGESIZE. phys (km t) f i \<noteq> phys (km s) f i) \<or>
     (\<exists>v \<in> own_pages (km s). pt_region0 (km t) ! v \<noteq> pt_region0 (km s) ! v)"

section \<open>Steps\<close>

datatype machine =
    User kstate          \<comment> \<open>user code of the current process runs\<close>
  | Resuming kstate      \<comment> \<open>the kernel continues the current process\<close>
  | Stopped kstate       \<comment> \<open>\<^verbatim>\<open>Halt\<close>\<close>
  | Crashed fault
  | Overwritten

fun after :: "(kstate, unit) outcome \<Rightarrow> machine" where
  "after (Ret _ s) = User s"
| "after (Switched s) = Resuming s"
| "after (Halted s) = Stopped s"
| "after (Fault e) = Crashed e"

fun checked :: "kstate \<Rightarrow> machine \<Rightarrow> machine" where
  "checked s (User t) = (if kernel_changed s t then Overwritten else User t)"
| "checked s (Resuming t) = (if kernel_changed s t then Overwritten else Resuming t)"
| "checked s (Stopped t) = (if kernel_changed s t then Overwritten else Stopped t)"
| "checked s m = m"

text \<open>
  The machine after the boot code, which runs before there is any process to switch to and with the
  bytes of the kernel's image in \<open>ph\<close>: the image must still be there, each page in the frame of its number.
\<close>

definition boot_changed :: "boot_info \<Rightarrow> (nat \<Rightarrow> nat \<Rightarrow> byte) \<Rightarrow> kmem \<Rightarrow> bool" where
  "boot_changed bi ph m \<longleftrightarrow> (\<exists>v < KSTACK_START_PAGE. first_kernel_text_page bi \<le> v \<and> v < orig_kernel_brk_page bi \<and>
     (\<not> valid (pt_region0 m ! v) \<or> frame_of (pt_region0 m ! v) \<noteq> v \<or> (\<exists>i < PAGESIZE. phys m v i \<noteq> ph v i)))"

fun booted :: "boot_info \<Rightarrow> (nat \<Rightarrow> nat \<Rightarrow> byte) \<Rightarrow> (kstate, unit) outcome \<Rightarrow> machine" where
  "booted bi ph (Ret _ s) = (if boot_changed bi ph (km s) then Overwritten else User s)"
| "booted bi ph (Switched s) = Crashed BadResume"
| "booted bi ph (Halted s) = Stopped s"
| "booted bi ph (Fault e) = Crashed e"

text \<open>The handler of an entry of the vector table; \<open>line\<close> is the input for a terminal trap.\<close>

fun handler :: "file_system \<Rightarrow> byte list \<Rightarrow> trap_handler \<Rightarrow> (kstate, unit) prog" where
  "handler fs line H_NotImplemented = NotImplementedTrapHandler"
| "handler fs line H_Kernel = KernelTrapHandler fs"
| "handler fs line H_Clock = ClockTrapHandler"
| "handler fs line H_Illegal = IllegalInstructionTrapHandler"
| "handler fs line H_Memory = MemoryTrapHandler"
| "handler fs line H_Math = MathTrapHandler"
| "handler fs line H_TtyReceive = TtyTrapReceiveHandler line"
| "handler fs line H_TtyTransmit = TtyTrapTransmitHandler"

definition trap :: "file_system \<Rightarrow> nat \<Rightarrow> byte list \<Rightarrow> (kstate, unit) prog" where
  "trap fs n line = (\<lambda>s. if n < length (TRAP_VECTOR s) then handler fs line (TRAP_VECTOR s ! n) s
     else Fault OutOfBounds)"

text \<open>
  What can happen, and to which event it belongs. The bytes in which the kernel keeps its own data change
  with every call; the model does not follow which and lets them change to anything at any time
  (\<open>Own_Data\<close>). Its allocator moves the kernel break (\<open>Kernel_Heap\<close>).
\<close>

datatype event = User_Access | Own_Data | Kernel_Heap | Interrupt nat | Continue

inductive step :: "file_system \<Rightarrow> event \<Rightarrow> machine \<Rightarrow> machine \<Rightarrow> bool" for fs where
  user_store: "VMEM_1_BASE \<le> a \<Longrightarrow> store_byte a b (km s) = Ret () m \<Longrightarrow>
    step fs User_Access (User s) (checked s (User (s\<lparr>km := m\<rparr>)))"
| user_load: "VMEM_1_BASE \<le> a \<Longrightarrow> load_byte a (km s) = Ret b m \<Longrightarrow>
    step fs User_Access (User s) (checked s (User (s\<lparr>km := m\<rparr>)))"
| own_data_user: "(\<And>f. f \<notin> image_frames (km s) \<union> stack_frames s \<Longrightarrow> ph f = phys (km s) f) \<Longrightarrow>
    step fs Own_Data (User s) (User (s\<lparr>km := (km s)\<lparr>phys := ph\<rparr>\<rparr>))"
| own_data_kernel: "(\<And>f. f \<notin> image_frames (km s) \<union> stack_frames s \<Longrightarrow> ph f = phys (km s) f) \<Longrightarrow>
    step fs Own_Data (Resuming s) (Resuming (s\<lparr>km := (km s)\<lparr>phys := ph\<rparr>\<rparr>))"
| kernel_heap: "SetKernelBrk a (km s) = Ret r m \<Longrightarrow>
    step fs Kernel_Heap (User s) (checked s (User (s\<lparr>km := m\<rparr>)))"
| user_trap: "n < TRAP_VECTOR_SIZE \<Longrightarrow> length (regs c) = 8 \<Longrightarrow>
    step fs (Interrupt n) (User s) (checked s (after (trap fs n line (s\<lparr>ctx := c\<rparr>))))"
| continue: "step fs Continue (Resuming s) (checked s (after (resume s)))"

text \<open>A run and its events, oldest first.\<close>

inductive run :: "file_system \<Rightarrow> machine \<Rightarrow> event list \<Rightarrow> machine \<Rightarrow> bool" for fs m0 where
  run_start: "run fs m0 [] m0"
| run_step: "run fs m0 es m \<Longrightarrow> step fs e m m' \<Longrightarrow> run fs m0 (es @ [e]) m'"

definition reachable :: "file_system \<Rightarrow> machine \<Rightarrow> machine \<Rightarrow> bool" where
  "reachable fs m0 m \<longleftrightarrow> (\<exists>es. run fs m0 es m)"

inductive_cases step_StoppedE: "step fs e (Stopped s) m"
inductive_cases step_CrashedE: "step fs e (Crashed x) m"
inductive_cases step_OverwrittenE: "step fs e Overwritten m"
inductive_cases step_ResumingE: "step fs e (Resuming s) m"
inductive_cases step_UserE: "step fs e (User s) m"

lemma run_trans: "run fs m es m' \<Longrightarrow> run fs m0 ds m \<Longrightarrow> run fs m0 (ds @ es) m'"
proof (induction rule: run.induct)
  case (run_step es m' e m'')
  then show ?case using run.run_step [of fs m0 "ds @ es" m' e m''] by simp
qed simp

section \<open>The invariant of the running system\<close>

definition good :: "machine \<Rightarrow> bool" where
  "good m = (case m of User s \<Rightarrow> kinv {..<NUM_TERMINALS} s | Resuming s \<Rightarrow> kinv {..<NUM_TERMINALS} s
     | Stopped s \<Rightarrow> kinv {} s | Crashed _ \<Rightarrow> True | Overwritten \<Rightarrow> True)"

lemma good_ends [simp]: "good (Crashed e)" "good Overwritten"
  by (simp_all add: good_def)

lemma kinv_weaken: "kinv T s \<Longrightarrow> kinv {} s"
  by (simp add: kinv_def)

lemma good_after: "holds_after (kinv {..<NUM_TERMINALS}) r \<Longrightarrow> good (after r)"
  by (cases r) (auto simp: good_def intro: kinv_weaken)

lemma good_checked: "good m \<Longrightarrow> good (checked s m)"
  by (cases m) (auto simp: good_def)

lemma keeps_handler: "keeps (kinv T) (handler fs line h)"
  by (cases h) (auto intro!: keeps_intros)

lemma keeps_trap: "keeps (kinv T) (trap fs n line)"
  using keeps_handler by (auto simp: keeps_def trap_def)

lemma good_memory:
  assumes "keeps tables_ok f" and "good (User s)" and "f (km s) = Ret x m"
  shows "good (User (s\<lparr>km := m\<rparr>))"
proof -
  have "kinv {..<NUM_TERMINALS} s" using assms(2) by (simp add: good_def)
  moreover from this have "tables_ok m" using keeps_Ret [OF assms(1) _ assms(3)] by (simp add: kinv_def)
  ultimately show ?thesis by (simp add: good_def kinv_km)
qed

lemma good_own_data: "kinv T s \<Longrightarrow> kinv T (s\<lparr>km := (km s)\<lparr>phys := ph\<rparr>\<rparr>)"
  by (simp add: kinv_def tables_ok_def)

lemma step_good: "step fs e m m' \<Longrightarrow> good m \<Longrightarrow> good m'"
proof (induction rule: step.induct)
  case (user_trap n c s line)
  then have "kinv {..<NUM_TERMINALS} (s\<lparr>ctx := c\<rparr>)" by (simp add: good_def)
  then show ?case by (intro good_checked good_after keepsD [OF keeps_trap])
next
  case (continue s)
  then show ?case by (intro good_checked good_after keepsD [OF keeps_resume]) (simp add: good_def)
next
  case (own_data_user s ph)
  then show ?case using good_own_data by (simp add: good_def)
next
  case (own_data_kernel s ph)
  then show ?case using good_own_data by (simp add: good_def)
qed (auto intro!: good_checked intro: good_memory [OF keeps_store_byte] good_memory [OF keeps_load_byte] good_memory [OF keeps_SetKernelBrk])

lemma run_good: "run fs m0 es m \<Longrightarrow> good m0 \<Longrightarrow> good m"
  by (induction rule: run.induct) (auto intro: step_good)

lemma good_booted: "good (booted bi ph (KernelStart bi fs args n (start_state ph uc mok kok npid)))"
proof -
  let ?s = "start_state ph uc mok kok npid"
  have "holds_after (kinv {}) (KernelStart bi fs args n ?s)"
    by (rule keepsD [OF keeps_KernelStart start_state_kinv])
  moreover have "kinv {..<NUM_TERMINALS} t" if "KernelStart bi fs args n ?s = Ret a t" for a t
    using yieldsD [OF yields_KernelStart start_state_kinv that] .
  ultimately show ?thesis by (cases "KernelStart bi fs args n ?s") (auto simp: good_def)
qed

end
