(* ===== verification/Kernel_Example.thy ===== *)
theory Kernel_Example
  imports System
begin

text \<open>
  A concrete kernel on which the witnesses evaluate: five processes, their queues, kernel stacks and
  region 1 tables, idle terminals.
\<close>

section \<open>A kernel for the witnesses\<close>

text \<open>
  The idle process at 100; the process 101 (pid 2) runs, 102 (pid 3) is ready, 103 (pid 4) is blocked with
  one tick left, 104 (pid 5) is a zombie child of 101.
\<close>

definition qheap_sys :: qheap where
  "qheap_sys = \<lparr>nodes = [21 \<mapsto> \<lparr>node_process = 102, node_next = 0, node_prev = 0\<rparr>,
                        22 \<mapsto> \<lparr>node_process = 103, node_next = 0, node_prev = 0\<rparr>,
                        23 \<mapsto> \<lparr>node_process = 104, node_next = 0, node_prev = 0\<rparr>,
                        24 \<mapsto> \<lparr>node_process = 104, node_next = 0, node_prev = 0\<rparr>],
     queues = [1 \<mapsto> \<lparr>q_head = 21, q_tail = 21\<rparr>, 2 \<mapsto> \<lparr>q_head = 22, q_tail = 22\<rparr>,
               3 \<mapsto> \<lparr>q_head = 23, q_tail = 23\<rparr>, 4 \<mapsto> \<lparr>q_head = 24, q_tail = 24\<rparr>,
               5 \<mapsto> \<lparr>q_head = 0, q_tail = 0\<rparr>, 6 \<mapsto> \<lparr>q_head = 0, q_tail = 0\<rparr>],
     limit = 50\<rparr>"

definition qview_sys :: qstore where
  "qview_sys = [1 \<mapsto> [102], 2 \<mapsto> [103], 3 \<mapsto> [104], 4 \<mapsto> [104], 5 \<mapsto> [], 6 \<mapsto> []]"

lemma qheap_sys_wf [simp]: "qwf qheap_sys" "qview qheap_sys = qview_sys" "limit qheap_sys = 50"
proof -
  have "qrepR qheap_sys qview_sys (\<lambda>q. if q \<in> {1, 2, 3, 4} then [20 + q] else [])"
    unfolding qrepR_def
    by (intro conjI allI impI) (auto simp: qheap_sys_def qview_sys_def qok_def split: if_splits)
  then have "qrep qheap_sys qview_sys" unfolding qrep_def by blast
  then show "qwf qheap_sys" "qview qheap_sys = qview_sys" by (simp_all add: qrep_iff)
qed (simp add: qheap_sys_def)

definition pcb_ex :: "int \<Rightarrow> addr \<Rightarrow> PCB" where
  "pcb_ex n k = pcb0\<lparr>pid := n, kstack := k, pstate := PROC_READY, ptbr := k + 100, ptlr := MAX_PT_LEN,
     user_context := uctx0, user_heap_start_vaddr := VMEM_1_BASE + 0x4000,
     user_heap_end_vaddr := VMEM_1_BASE + 0x8000, user_stack_base_vaddr := VMEM_1_LIMIT - 0x4000\<rparr>"

definition pcbs_ex :: "addr \<Rightarrow> PCB option" where
  "pcbs_ex = [100 \<mapsto> pcb_ex 0 300, 101 \<mapsto> (pcb_ex 2 301)\<lparr>pstate := PROC_RUNNING, children_processes := 4\<rparr>,
     102 \<mapsto> pcb_ex 3 302, 103 \<mapsto> (pcb_ex 4 303)\<lparr>pstate := PROC_BLOCKED, delay_ticks := 1\<rparr>,
     104 \<mapsto> (pcb_ex 5 304)\<lparr>pstate := PROC_ZOMBIE, ppid := 2, parent := 101, exit_status := 7\<rparr>]"

definition pte_ex :: "nat \<Rightarrow> pte" where
  "pte_ex f = \<lparr>valid = True, prot = PROT_READ OR PROT_WRITE, pfn = of_nat f\<rparr>"

text \<open>Kernel stacks at 300 to 304, region 1 tables at 400 to 404 with the lower four pages and the top two mapped.\<close>

definition kmem_ex :: kmem where
  "kmem_ex = (mem_ex 64 64)\<lparr>reg_ptbr1 := 401, pts := (\<lambda>a.
     if a \<in> {300..304} then Some [pte_ex (2 * (a - 300)), pte_ex (2 * (a - 300) + 1)]
     else if a \<in> {400..404} then Some (map (\<lambda>i. pte_ex (10 + 6 * (a - 400) + i)) [0..<4] @ replicate 122 pte0 @
        map (\<lambda>i. pte_ex (14 + 6 * (a - 400) + i)) [0..<2])
     else None)\<rparr>"

definition tty_ex :: terminal_t where
  "tty_ex = tty0\<lparr>blocked_writers := 5, blocked_readers := 6, read_buffer := replicate TERMINAL_MAX_LINE 0\<rparr>"

definition kernel_ex :: kstate where
  "kernel_ex = (start_state (\<lambda>_ _. 0) uctx0 (\<lambda>_. True) (\<lambda>_. True) int)\<lparr>km := kmem_ex, qh := qheap_sys, pcbs := pcbs_ex,
     idle_proc := 100, init_proc := 101, current_process := 101, ready_queue := 1, blocked_queue := 2, zombie_queue := 3,
     terminals := replicate NUM_TERMINALS tty_ex, next_addr := 1000\<rparr>"

lemma kernel_ex_fields [simp]:
  "km kernel_ex = kmem_ex" "qh kernel_ex = qheap_sys" "pcbs kernel_ex = pcbs_ex" "idle_proc kernel_ex = 100"
  "current_process kernel_ex = 101" "ready_queue kernel_ex = 1" "blocked_queue kernel_ex = 2" "zombie_queue kernel_ex = 3"
  "terminals kernel_ex = replicate NUM_TERMINALS tty_ex" "next_addr kernel_ex = 1000" "malloc_ok kernel_ex = (\<lambda>_. True)"
  "kcs_ok kernel_ex = (\<lambda>_. True)" "new_pid kernel_ex = int" "ctx kernel_ex = uctx0" "proc_table kernel_ex = None"
  by (simp_all add: kernel_ex_def start_state_def)

lemma pcbs_ex_simps [simp]:
  "pcbs_ex 100 = Some (pcb_ex 0 300)" "pcbs_ex 101 = Some ((pcb_ex 2 301)\<lparr>pstate := PROC_RUNNING, children_processes := 4\<rparr>)"
  "pcbs_ex 102 = Some (pcb_ex 3 302)" "pcbs_ex 103 = Some ((pcb_ex 4 303)\<lparr>pstate := PROC_BLOCKED, delay_ticks := 1\<rparr>)"
  "pcbs_ex 104 = Some ((pcb_ex 5 304)\<lparr>pstate := PROC_ZOMBIE, ppid := 2, parent := 101, exit_status := 7\<rparr>)"
  by (simp_all add: pcbs_ex_def)

lemma pcb_ex_fields [simp]:
  "pid (pcb_ex n k) = n" "kstack (pcb_ex n k) = k" "ptbr (pcb_ex n k) = k + 100" "ptlr (pcb_ex n k) = MAX_PT_LEN"
  "pstate (pcb_ex n k) = PROC_READY" "user_context (pcb_ex n k) = uctx0" "delay_ticks (pcb_ex n k) = 0"
  "user_heap_end_vaddr (pcb_ex n k) = 0x108000" "user_stack_base_vaddr (pcb_ex n k) = 0x1FC000"
  "kernel_context (pcb_ex n k) = KC_none" "parent (pcb_ex n k) = 0" "ppid (pcb_ex n k) = 0"
  "waiting_for_child_pid (pcb_ex n k) = 0" "children_processes (pcb_ex n k) = 0" "tty_kernel_read_buf (pcb_ex n k) = None"
  by (simp_all add: pcb_ex_def pcb0_def VMEM_1_BASE_def VMEM_1_LIMIT_def)

lemma kmem_ex_fields [simp]:
  "reg_ptbr1 kmem_ex = 401" "reg_ptlr1 kmem_ex = MAX_PT_LEN" "tlb kmem_ex = (\<lambda>_. None)" "nframes kmem_ex = 128"
  "pt_region0 kmem_ex = replicate MAX_PT_LEN pte0" "reg_vm_enable kmem_ex = True"
  by (simp_all add: kmem_ex_def) (simp_all add: mem_ex_def)

lemma kernel_ex_kinv: "kinv {..<NUM_TERMINALS} kernel_ex"
  by (auto simp: kinv_def kmem_ex_def tables_ok_def tty_ok_def tty_ex_def tty0_def pcbs_ex_def pcb_ex_def pcb0_def
      kernel_ex_def start_state_def split: if_splits)

text \<open>The region 1 table of the running process and the frames it leaves free.\<close>

definition table_ex :: "pte list" where
  "table_ex = map (\<lambda>i. pte_ex (16 + i)) [0..<4] @ replicate 122 pte0 @ map (\<lambda>i. pte_ex (20 + i)) [0..<2]"

lemma length_table_ex [simp]: "length table_ex = MAX_PT_LEN"
  by (simp add: table_ex_def MAX_PT_LEN_def)

lemma kmem_ex_free: "free_frames kmem_ex = {64..<128}" "mem_wf kmem_ex"
proof -
  show f: "free_frames kmem_ex = {64..<128}" using free_frames_cong [of kmem_ex "mem_ex 64 64"] by (simp add: kmem_ex_def)
  show "mem_wf kmem_ex" using frames_wf_cong [of kmem_ex "mem_ex 64 64"] mem_ex_wf(2) [of 64 64] by (simp add: mem_wf_def kmem_ex_def)
qed

lemma frame_pte_ex: "n < 100 \<Longrightarrow> frame_of (pte_ex n) = n"
  by (simp add: pte_ex_def frame_of_def unsigned_of_nat take_bit_nat_eq_self)

end
