(* ===== verification/Scheduling.thy ===== *)
theory Scheduling
  imports Kernel_Example "HOL-Library.Multiset"
begin

text \<open>
  What the kernel does with the processor: the clock tick (\<^verbatim>\<open>trapHandlerHelper\<close> over the blocked
  queue, then the switch to the next ready process), \<^verbatim>\<open>Delay\<close>, \<^verbatim>\<open>Exit\<close> and \<^verbatim>\<open>Wait\<close>, in terms of the
  abstract queues.
\<close>

section \<open>Queue calls of the kernel\<close>

definition krep :: "kstate \<Rightarrow> qstore \<Rightarrow> (addr \<Rightarrow> addr list) \<Rightarrow> bool" where
  "krep s A R \<longleftrightarrow> qrepR (qh s) A R \<and> limit (qh s) \<le> next_addr s \<and> next_addr s \<noteq> 0"

lemma krep_view: "krep s A R \<Longrightarrow> qwf (qh s) \<and> qview (qh s) = A"
  using qrep_iff [of "qh s" A] by (auto simp: krep_def qrep_def)

lemma krep_exists: "kinv T s \<Longrightarrow> \<exists>R. krep s (qview (qh s)) R"
  by (auto simp: kinv_def krep_def qwf_def qrep_def)

text \<open>The state changed in the queues and the allocator only.\<close>

definition queues_only :: "kstate \<Rightarrow> kstate \<Rightarrow> bool" where
  "queues_only s t \<longleftrightarrow> (\<exists>h n c. t = s\<lparr>qh := h, next_addr := n, calls := c\<rparr>)"

lemma queues_onlyD:
  assumes "queues_only s t"
  shows "km t = km s" "pcbs t = pcbs s" "proc_table t = proc_table s" "idle_proc t = idle_proc s"
    "current_process t = current_process s" "ready_queue t = ready_queue s"
    "blocked_queue t = blocked_queue s" "zombie_queue t = zombie_queue s" "terminals t = terminals s"
    "ctx t = ctx s" "transmitted t = transmitted s" "malloc_ok t = malloc_ok s" "kcs_ok t = kcs_ok s"
    "new_pid t = new_pid s" "TRAP_VECTOR t = TRAP_VECTOR s"
  using assms by (auto simp: queues_only_def)

lemma queues_onlyI:
  "queues_only s (s\<lparr>qh := h, next_addr := n, calls := c\<rparr>)" "queues_only s (s\<lparr>qh := h\<rparr>)"
proof -
  show "queues_only s (s\<lparr>qh := h, next_addr := n, calls := c\<rparr>)" unfolding queues_only_def by blast
  have "s\<lparr>qh := h\<rparr> = s\<lparr>qh := h, next_addr := next_addr s, calls := calls s\<rparr>" by simp
  then show "queues_only s (s\<lparr>qh := h\<rparr>)" unfolding queues_only_def by blast
qed

lemma queues_only_trans: "queues_only s t \<Longrightarrow> queues_only t u \<Longrightarrow> queues_only s u"
  unfolding queues_only_def by (elim exE) (simp, blast)

lemma queues_only_pcbs: "queues_only s t \<Longrightarrow> queues_only (s\<lparr>pcbs := P\<rparr>) (t\<lparr>pcbs := P\<rparr>)"
proof -
  assume "queues_only s t"
  then obtain h n c where "t = s\<lparr>qh := h, next_addr := n, calls := c\<rparr>" unfolding queues_only_def by blast
  then have "t\<lparr>pcbs := P\<rparr> = s\<lparr>pcbs := P, qh := h, next_addr := n, calls := c\<rparr>" by simp
  then show ?thesis unfolding queues_only_def by blast
qed

lemma kqueueRemove_R:
  assumes k: "krep s A R" and A: "A q = Some xs" and p: "p \<noteq> 0"
    and R: "R q = bs @ a # cs" "node_process (the (nodes (qh s) a)) = p" "p \<notin> set (procs_of (nodes (qh s)) bs)"
  obtains t where "kqueueRemove q p s = Ret () t" "krep t (A(q \<mapsto> remove1 p xs)) (R(q := bs @ cs))" "queues_only s t"
proof -
  from k have rep: "qrepR (qh s) A R" by (simp add: krep_def)
  obtain h where h: "queueRemove q p (qh s) = Ret () h" "qrepR h (A(q \<mapsto> remove1 p xs)) (R(q := bs @ cs))"
    "limit h = limit (qh s)" using queueRemove_repR [OF rep A p R] by blast
  show thesis
    by (rule that [of "s\<lparr>qh := h\<rparr>"]) (use h k in \<open>simp_all add: kqueueRemove_def on_queues_app krep_def queues_onlyI\<close>)
qed

lemma kqueueEnqueue_R:
  assumes k: "krep s A R" and A: "A q = Some xs" and p: "p \<noteq> 0" and m: "malloc_ok s (calls s)"
  obtains t a where "kqueueEnqueue q p s = Ret () t" "krep t (A(q \<mapsto> xs @ [p])) (R(q := R q @ [a]))" "queues_only s t"
proof -
  from k have rep: "qrepR (qh s) A R" and n: "next_addr s \<noteq> 0" "limit (qh s) \<le> next_addr s" by (simp_all add: krep_def)
  obtain h where h: "queueEnqueue (next_addr s) q p (qh s) = Ret () h"
    "qrepR h (A(q \<mapsto> xs @ [p])) (R(q := R q @ [next_addr s]))" "limit h = Suc (next_addr s)"
    using queueEnqueue_repR [OF rep A n p] by blast
  have "q \<noteq> 0" using qrepR_lookup [OF rep A] by blast
  show thesis
    by (rule that [of "s\<lparr>qh := h, next_addr := Suc (next_addr s), calls := Suc (calls s)\<rparr>" "next_addr s"])
       (use h p m \<open>q \<noteq> 0\<close> in \<open>simp_all add: kqueueEnqueue_def malloc_def bnd_app on_queues_app krep_def queues_onlyI\<close>)
qed

section \<open>One tick for the blocked processes\<close>

definition tick_pcb :: "PCB \<Rightarrow> PCB" where
  "tick_pcb b = (if 0 < delay_ticks b
     then if delay_ticks b = 1 then b\<lparr>delay_ticks := 0, pstate := PROC_READY\<rparr>
          else b\<lparr>delay_ticks := delay_ticks b - 1\<rparr>
     else b)"

definition due :: "kstate \<Rightarrow> addr \<Rightarrow> bool" where
  "due s p \<longleftrightarrow> (\<exists>b. pcbs s p = Some b \<and> delay_ticks b = 1)"

lemma trapHandlerHelper_stay:
  assumes "p \<noteq> 0" and "pcbs s p = Some b" and "delay_ticks b \<noteq> 1"
  shows "trapHandlerHelper p s = Ret () (s\<lparr>pcbs := (pcbs s)(p \<mapsto> tick_pcb b)\<rparr>)"
  using assms by (auto simp: trapHandlerHelper_def prog_simps tick_pcb_def intro!: kstate_eqI)

lemma trapHandlerHelper_wake:
  assumes p: "p \<noteq> 0" "pcbs s p = Some b" "delay_ticks b = 1"
    and k: "krep s A R" and A: "A (blocked_queue s) = Some xs" "A (ready_queue s) = Some ys"
    and ne: "blocked_queue s \<noteq> ready_queue s" and m: "\<forall>n. malloc_ok s n"
    and R: "R (blocked_queue s) = bs @ a # cs" "node_process (the (nodes (qh s) a)) = p"
      "p \<notin> set (procs_of (nodes (qh s)) bs)"
  obtains t c where "trapHandlerHelper p s = Ret () t"
    "krep t (A(blocked_queue s \<mapsto> remove1 p xs, ready_queue s \<mapsto> ys @ [p]))
       (R(blocked_queue s := bs @ cs, ready_queue s := R (ready_queue s) @ [c]))"
    "queues_only (s\<lparr>pcbs := (pcbs s)(p \<mapsto> tick_pcb b)\<rparr>) t"
proof -
  let ?s1 = "s\<lparr>pcbs := (pcbs s)(p \<mapsto> b\<lparr>delay_ticks := 0\<rparr>)\<rparr>"
  have k1: "krep ?s1 A R" using k by (simp add: krep_def)
  from R have R1: "R (blocked_queue ?s1) = bs @ a # cs" "node_process (the (nodes (qh ?s1) a)) = p"
      "p \<notin> set (procs_of (nodes (qh ?s1)) bs)" by simp_all
  from A have A1: "A (blocked_queue ?s1) = Some xs" by simp
  from kqueueRemove_R [OF k1 A1 p(1) R1] obtain t1 where t1:
    "kqueueRemove (blocked_queue ?s1) p ?s1 = Ret () t1"
    "krep t1 (A(blocked_queue ?s1 \<mapsto> remove1 p xs)) (R(blocked_queue ?s1 := bs @ cs))" "queues_only ?s1 t1" by blast
  note d = queues_onlyD [OF t1(3)]
  let ?t2 = "t1\<lparr>pcbs := (pcbs t1)(p \<mapsto> tick_pcb b)\<rparr>"
  have k2: "krep ?t2 (A(blocked_queue s \<mapsto> remove1 p xs)) (R(blocked_queue s := bs @ cs))" using t1(2) by (simp add: krep_def)
  have A2: "(A(blocked_queue s \<mapsto> remove1 p xs)) (ready_queue s) = Some ys" using A ne by simp
  have m2: "malloc_ok ?t2 (calls ?t2)" using m d by simp
  from kqueueEnqueue_R [OF k2 A2 p(1) m2] obtain t3 c where t3:
    "kqueueEnqueue (ready_queue s) p ?t2 = Ret () t3"
    "krep t3 (A(blocked_queue s \<mapsto> remove1 p xs, ready_queue s \<mapsto> ys @ [p]))
      ((R(blocked_queue s := bs @ cs))(ready_queue s := (R(blocked_queue s := bs @ cs)) (ready_queue s) @ [c]))"
    "queues_only ?t2 t3" by blast
  have "tick_pcb b = b\<lparr>delay_ticks := 0, pstate := PROC_READY\<rparr>" using p by (simp add: tick_pcb_def)
  then have "trapHandlerHelper p s = Ret () t3"
    using p t1(1) t3(1) d by (simp add: trapHandlerHelper_def prog_simps)
  moreover have "queues_only (s\<lparr>pcbs := (pcbs s)(p \<mapsto> tick_pcb b)\<rparr>) t3"
    using t1(3) t3(3) unfolding queues_only_def by (elim exE) (simp, blast)
  ultimately show thesis using t3(2) ne by (intro that [of t3 c]) simp_all
qed


text \<open>The blocked queue after the tick, and the processes.\<close>

definition ticked :: "kstate \<Rightarrow> addr set \<Rightarrow> addr \<Rightarrow> PCB option" where
  "ticked s D p = (if p \<in> D then map_option tick_pcb (pcbs s p) else pcbs s p)"

definition tick_inv :: "kstate \<Rightarrow> qstore \<Rightarrow> addr list \<Rightarrow> addr list \<Rightarrow> addr list \<Rightarrow> kstate \<Rightarrow> bool" where
  "tick_inv s A xs ys rest t \<longleftrightarrow> (\<exists>dn todo pre R.
     xs = dn @ todo \<and>
     krep t (A(blocked_queue s \<mapsto> filter (\<lambda>p. \<not> due s p) dn @ todo, ready_queue s \<mapsto> ys @ filter (due s) dn)) R \<and>
     R (blocked_queue s) = pre @ rest \<and> length pre = length (filter (\<lambda>p. \<not> due s p) dn) \<and>
     length rest = length todo \<and> queues_only (s\<lparr>pcbs := ticked s (set dn)\<rparr>) t)"

lemma ticked_insert: "pcbs s p = Some b \<Longrightarrow> p \<notin> D \<Longrightarrow> ticked s (insert p D) = (ticked s D)(p \<mapsto> tick_pcb b)"
  by (auto simp: ticked_def fun_eq_iff)

lemma tick_step:
  assumes inv: "tick_inv s A xs ys (a # as) t" and d: "distinct xs" and live: "\<forall>p \<in> set xs. p \<noteq> 0 \<and> pcbs s p \<noteq> None"
    and ne: "blocked_queue s \<noteq> ready_queue s" and m: "\<forall>n. malloc_ok s n"
  shows "\<exists>nd t'. a \<noteq> 0 \<and> nodes (qh t) a = Some nd \<and> node_next nd = head_of as \<and>
    trapHandlerHelper (node_process nd) t = Ret () t' \<and> tick_inv s A xs ys as t'"
proof -
  let ?stay = "\<lambda>p. \<not> due s p"
  from inv obtain dn todo pre R where
    x: "xs = dn @ todo"
    and k: "krep t (A(blocked_queue s \<mapsto> filter ?stay dn @ todo, ready_queue s \<mapsto> ys @ filter (due s) dn)) R"
    and R: "R (blocked_queue s) = pre @ a # as" and l: "length pre = length (filter ?stay dn)"
    and lr: "length (a # as) = length todo" and q: "queues_only (s\<lparr>pcbs := ticked s (set dn)\<rparr>) t"
    unfolding tick_inv_def by blast
  from lr obtain p todo' where todo: "todo = p # todo'" by (cases todo) auto
  let ?B = "A(blocked_queue s \<mapsto> filter ?stay dn @ todo, ready_queue s \<mapsto> ys @ filter (due s) dn)"
  have B: "?B (blocked_queue s) = Some (filter ?stay dn @ p # todo')" "?B (ready_queue s) = Some (ys @ filter (due s) dn)"
    using ne todo by simp_all
  from k have rep: "qrepR (qh t) ?B R" by (simp add: krep_def)
  from qrepR_next [OF rep B(1) R] l obtain nd where
    nd: "a \<noteq> 0" "nodes (qh t) a = Some nd" "node_next nd = head_of as" "node_process nd = p"
    by (auto simp: nth_append)
  note qd = queues_onlyD [OF q]
  have pin: "p \<in> set xs" "p \<notin> set dn" "p \<notin> set todo'" using x todo d by auto
  then obtain b where b: "p \<noteq> 0" "pcbs s p = Some b" using live by auto
  have bt: "pcbs t p = Some b" using qd b pin by (simp add: ticked_def)
  have up: "(pcbs t)(p \<mapsto> tick_pcb b) = ticked s (set (dn @ [p]))"
    using ticked_insert [OF b(2) pin(2)] qd by simp
  show ?thesis
  proof (cases "delay_ticks b = 1")
    case False
    then have nd1: "\<not> due s p" using b by (simp add: due_def)
    let ?t = "t\<lparr>pcbs := (pcbs t)(p \<mapsto> tick_pcb b)\<rparr>"
    have "queues_only (s\<lparr>pcbs := ticked s (set (dn @ [p]))\<rparr>) ?t"
      using queues_only_pcbs [OF q, of "ticked s (set (dn @ [p]))"] up by simp
    moreover have "krep ?t ?B R" using k by (simp add: krep_def)
    ultimately have "tick_inv s A xs ys as ?t"
      unfolding tick_inv_def using x todo R l lr nd1
      by (intro exI [of _ "dn @ [p]"] exI [of _ todo'] exI [of _ "pre @ [a]"] exI [of _ R]) simp
    with nd trapHandlerHelper_stay [OF b(1) bt False] show ?thesis by auto
  next
    case True
    then have due1: "due s p" using b by (simp add: due_def)
    have procs: "procs_of (nodes (qh t)) pre = filter ?stay dn"
    proof -
      obtain qu where "qok (nodes (qh t)) (limit (qh t)) qu (R (blocked_queue s)) (filter ?stay dn @ p # todo')"
        using qrepR_lookup [OF rep B(1)] by blast
      then have "procs_of (nodes (qh t)) pre @ procs_of (nodes (qh t)) (a # as) = filter ?stay dn @ p # todo'"
        using R by (simp add: qok_def)
      then show ?thesis using l by (simp add: append_eq_append_conv)
    qed
    have R1: "R (blocked_queue t) = pre @ a # as" "node_process (the (nodes (qh t) a)) = p"
      "p \<notin> set (procs_of (nodes (qh t)) pre)"
      using R nd procs pin qd by auto
    have B1: "?B (blocked_queue t) = Some (filter ?stay dn @ p # todo')" "?B (ready_queue t) = Some (ys @ filter (due s) dn)"
      using B qd by simp_all
    have ne1: "blocked_queue t \<noteq> ready_queue t" and m1: "\<forall>n. malloc_ok t n" using ne m qd by simp_all
    from trapHandlerHelper_wake [OF b(1) bt True k B1 ne1 m1 R1] obtain t' c where
      t': "trapHandlerHelper p t = Ret () t'"
        "krep t' (?B(blocked_queue t \<mapsto> remove1 p (filter ?stay dn @ p # todo'), ready_queue t \<mapsto> (ys @ filter (due s) dn) @ [p]))
          (R(blocked_queue t := pre @ as, ready_queue t := R (ready_queue t) @ [c]))"
        "queues_only (t\<lparr>pcbs := (pcbs t)(p \<mapsto> tick_pcb b)\<rparr>) t'" by blast
    have "queues_only (s\<lparr>pcbs := ticked s (set (dn @ [p]))\<rparr>) t'"
      using queues_only_trans [OF queues_only_pcbs [OF q, of "ticked s (set (dn @ [p]))"]] t'(3) up by simp
    moreover have "remove1 p (filter ?stay dn @ p # todo') = filter ?stay dn @ todo'"
      using pin by (simp add: remove1_append)
    ultimately have "tick_inv s A xs ys as t'"
      unfolding tick_inv_def using x todo l lr due1 t'(2) qd ne
      by (intro exI [of _ "dn @ [p]"] exI [of _ todo'] exI [of _ pre]
          exI [of _ "R(blocked_queue s := pre @ as, ready_queue s := R (ready_queue s) @ [c])"])
         (simp add: fun_upd_twist)
    with nd t'(1) show ?thesis by auto
  qed
qed

lemma tick_all:
  assumes k: "krep s A R" and A: "A (blocked_queue s) = Some xs" "A (ready_queue s) = Some ys"
    and d: "distinct xs" and live: "\<forall>p \<in> set xs. pcbs s p \<noteq> None"
    and ne: "blocked_queue s \<noteq> ready_queue s" and m: "\<forall>n. malloc_ok s n"
  obtains t R' where "queueIterate qh (blocked_queue s) trapHandlerHelper s = Ret () t"
    "krep t (A(blocked_queue s \<mapsto> filter (\<lambda>p. \<not> due s p) xs, ready_queue s \<mapsto> ys @ filter (due s) xs)) R'"
    "queues_only (s\<lparr>pcbs := ticked s (set xs)\<rparr>) t"
proof -
  from k have rep: "qrepR (qh s) A R" by (simp add: krep_def)
  have "0 \<notin> set xs" using view_facts [of "qh s" "blocked_queue s" xs] krep_view [OF k] A by simp
  with live have live1: "\<forall>p \<in> set xs. p \<noteq> 0 \<and> pcbs s p \<noteq> None" by metis
  have same: "ticked s {} = pcbs s" by (simp add: ticked_def fun_eq_iff)
  have upd: "A(blocked_queue s \<mapsto> xs, ready_queue s \<mapsto> ys) = A" using A by (simp add: fun_upd_idem)
  obtain qu where "qok (nodes (qh s)) (limit (qh s)) qu (R (blocked_queue s)) xs"
    using qrepR_lookup [OF rep A(1)] by blast
  then have len: "length (R (blocked_queue s)) = length xs" by (simp add: qok_def)
  have "queues_only (s\<lparr>pcbs := ticked s {}\<rparr>) s" using queues_onlyI(2) [of s "qh s"] same by simp
  then have start: "tick_inv s A xs ys (R (blocked_queue s)) s"
    unfolding tick_inv_def using k upd len
    by (intro exI [of _ "[]"] exI [of _ xs] exI [of _ "[]"] exI [of _ R]) simp
  have "\<exists>t. queueIterate qh (blocked_queue s) trapHandlerHelper s = Ret () t \<and> tick_inv s A xs ys [] t"
    by (rule queueIterate_rule [where Inv = "tick_inv s A xs ys" and g = qh and s = s and A = A and R = R and q = "blocked_queue s" and xs = xs, OF rep A(1) start])
       (rule tick_step [OF _ d live1 ne m])
  then obtain t where t: "queueIterate qh (blocked_queue s) trapHandlerHelper s = Ret () t" "tick_inv s A xs ys [] t" by blast
  from t(2) obtain R' where "krep t (A(blocked_queue s \<mapsto> filter (\<lambda>p. \<not> due s p) xs, ready_queue s \<mapsto> ys @ filter (due s) xs)) R'"
    "queues_only (s\<lparr>pcbs := ticked s (set xs)\<rparr>) t" unfolding tick_inv_def by auto
  with t(1) show thesis by (rule that)
qed


section \<open>The scheduler as an abstract machine\<close>

text \<open>
  What the scheduling of the kernel amounts to: who runs, who is ready and who is blocked, in the
  order of the queues, and how many ticks each process still waits.
\<close>

record sched =
  idle :: addr
  running :: addr
  ready :: "addr list"
  blocked :: "addr list"
  ticks :: "addr \<Rightarrow> int"

definition sched_of :: "kstate \<Rightarrow> sched" where
  "sched_of s = \<lparr>idle = idle_proc s, running = current_process s,
     ready = the (qview (qh s) (ready_queue s)), blocked = the (qview (qh s) (blocked_queue s)),
     ticks = (\<lambda>p. case pcbs s p of None \<Rightarrow> 0 | Some b \<Rightarrow> delay_ticks b)\<rparr>"

text \<open>The head of the ready list runs next; the idle process when there is none.\<close>

definition dispatch :: "sched \<Rightarrow> sched" where
  "dispatch S = (case ready S of [] \<Rightarrow> S\<lparr>running := idle S\<rparr> | p # ps \<Rightarrow> S\<lparr>running := p, ready := ps\<rparr>)"

text \<open>The part of a tick that concerns the blocked processes.\<close>

definition sched_count :: "sched \<Rightarrow> sched" where
  "sched_count S = S\<lparr>ready := ready S @ filter (\<lambda>p. ticks S p = 1) (blocked S),
     blocked := filter (\<lambda>p. ticks S p \<noteq> 1) (blocked S),
     ticks := (\<lambda>p. if p \<in> set (blocked S) \<and> 0 < ticks S p then ticks S p - 1 else ticks S p)\<rparr>"

text \<open>Round robin: the running process goes behind the ready ones, unless it is alone or idle.\<close>

definition sched_tick :: "sched \<Rightarrow> sched" where
  "sched_tick S = (let S1 = sched_count S in
     if ready S1 = [] then S1
     else dispatch (S1\<lparr>ready := ready S1 @ (if running S = idle S then [] else [running S])\<rparr>))"

definition sched_delay :: "int \<Rightarrow> sched \<Rightarrow> sched" where
  "sched_delay n S = dispatch (S\<lparr>blocked := blocked S @ [running S], ticks := (ticks S)(running S := n)\<rparr>)"

text \<open>
  The states the abstract machine stands for: queues without repetition, of live processes with a
  kernel stack; allocation and context switch do not fail.
\<close>

definition pcb_key :: "PCB \<Rightarrow> addr \<times> int" where
  "pcb_key b = (kstack b, pid b)"

definition proc_ok :: "kstate \<Rightarrow> addr \<Rightarrow> bool" where
  "proc_ok s p = (case pcbs s p of None \<Rightarrow> False | Some b \<Rightarrow> p \<noteq> 0 \<and> kstack b \<noteq> 0 \<and>
     (case pts (km s) (kstack b) of None \<Rightarrow> False | Some ks \<Rightarrow> length ks = KSTACK_PAGES) \<and>
     (pid b = 0 \<longleftrightarrow> p = idle_proc s))"

definition run_ok :: "kstate \<Rightarrow> bool" where
  "run_ok s \<longleftrightarrow> current_process s = idle_proc s \<or>
     (\<exists>b. pcbs s (current_process s) = Some b \<and> pstate b = PROC_RUNNING)"

definition procs_in :: "sched \<Rightarrow> addr list" where
  "procs_in S = (if running S = idle S then [] else [running S]) @ ready S @ blocked S"

definition sched_ok :: "kstate \<Rightarrow> bool" where
  "sched_ok s \<longleftrightarrow> kinv {} s \<and> ready_queue s \<noteq> blocked_queue s \<and>
     qview (qh s) (ready_queue s) \<noteq> None \<and> qview (qh s) (blocked_queue s) \<noteq> None \<and>
     distinct (idle_proc s # procs_in (sched_of s)) \<and>
     list_all (proc_ok s) (idle_proc s # procs_in (sched_of s)) \<and> run_ok s \<and>
     (\<forall>n. malloc_ok s n \<and> kcs_ok s n)"

lemma proc_ok_cong:
  assumes "pts (km t) = pts (km s)" and "idle_proc t = idle_proc s"
    and "map_option pcb_key (pcbs t p) = map_option pcb_key (pcbs s p)"
  shows "proc_ok t p = proc_ok s p"
  using assms by (auto simp: proc_ok_def pcb_key_def split: option.splits)

lemma pcb_key_simps [simp]:
  "pcb_key (b\<lparr>pstate := x\<rparr>) = pcb_key b" "pcb_key (b\<lparr>delay_ticks := i\<rparr>) = pcb_key b"
  "pcb_key (b\<lparr>kernel_context := k\<rparr>) = pcb_key b" "pcb_key (b\<lparr>user_context := c\<rparr>) = pcb_key b"
  "pcb_key (tick_pcb b) = pcb_key b"
  by (simp_all add: pcb_key_def tick_pcb_def)

lemma proc_ok_switchable:
  assumes "proc_ok s p"
  obtains b ks where "switchable p b ks s" "pid b = 0 \<longleftrightarrow> p = idle_proc s" "pcbs s p = Some b" "p \<noteq> 0"
  using assms by (auto simp: proc_ok_def switchable_def split: option.splits)

lemma switch_mem_pts [simp]: "pts (switch_mem ks b m) = pts m"
  by (simp add: switch_mem_def)


section \<open>Queue calls on the abstract queues\<close>

definition queues_ok :: "kstate \<Rightarrow> bool" where
  "queues_ok s \<longleftrightarrow> qwf (qh s) \<and> limit (qh s) \<le> next_addr s \<and> next_addr s \<noteq> 0"

abbreviation kview :: "kstate \<Rightarrow> qstore" where
  "kview s \<equiv> qview (qh s)"

lemma krep_queues_ok: "krep s A R \<Longrightarrow> queues_ok s \<and> kview s = A"
  using krep_view [of s A R] by (simp add: krep_def queues_ok_def)

lemma kinv_queues_ok: "kinv T s \<Longrightarrow> queues_ok s"
  by (simp add: kinv_def queues_ok_def)

lemma queues_ok_upd [simp]:
  "queues_ok (s\<lparr>pcbs := P\<rparr>) = queues_ok s" "queues_ok (s\<lparr>ctx := c\<rparr>) = queues_ok s"
  "queues_ok (s\<lparr>calls := n\<rparr>) = queues_ok s" "queues_ok (s\<lparr>current_process := p\<rparr>) = queues_ok s"
  "queues_ok (s\<lparr>km := m\<rparr>) = queues_ok s" "queues_ok (s\<lparr>terminals := ts\<rparr>) = queues_ok s"
  by (simp_all add: queues_ok_def)

lemma kqueueEnqueue_view:
  assumes "queues_ok s" and "kview s q = Some xs" and "p \<noteq> 0" and "malloc_ok s (calls s)"
  shows "\<exists>t. kqueueEnqueue q p s = Ret () t \<and> queues_ok t \<and> kview t = (kview s)(q \<mapsto> xs @ [p]) \<and> queues_only s t"
proof -
  from assms have w: "qwf (qh s)" "next_addr s \<noteq> 0" "limit (qh s) \<le> next_addr s" by (simp_all add: queues_ok_def)
  from enqueue_view [OF w(1) assms(2) w(2,3) assms(3)] obtain h where
    h: "queueEnqueue (next_addr s) q p (qh s) = Ret () h" "qwf h" "qview h = (kview s)(q \<mapsto> xs @ [p])"
      "limit h = Suc (next_addr s)" by blast
  let ?t = "s\<lparr>qh := h, next_addr := Suc (next_addr s), calls := Suc (calls s)\<rparr>"
  have "q \<noteq> 0" using view_facts w(1) assms(2) by blast
  then have "kqueueEnqueue q p s = Ret () ?t" using h assms(3,4)
    by (simp add: kqueueEnqueue_def malloc_def bnd_app on_queues_app)
  moreover have "queues_ok ?t" "queues_only s ?t" "kview ?t = (kview s)(q \<mapsto> xs @ [p])"
    using h by (simp_all add: queues_ok_def queues_onlyI)
  ultimately show ?thesis by blast
qed

lemma kqueueDequeue_view:
  assumes "queues_ok s" and "kview s q = Some (p # xs)"
  shows "\<exists>t. kqueueDequeue q s = Ret p t \<and> queues_ok t \<and> kview t = (kview s)(q \<mapsto> xs) \<and> queues_only s t"
proof -
  from assms have w: "qwf (qh s)" by (simp add: queues_ok_def)
  from dequeue_view [OF w assms(2)] obtain h where
    h: "queueDequeue q (qh s) = Ret p h" "qwf h" "qview h = (kview s)(q \<mapsto> xs)" "limit h = limit (qh s)" by blast
  let ?t = "s\<lparr>qh := h\<rparr>"
  have "kqueueDequeue q s = Ret p ?t" "queues_ok ?t" "queues_only s ?t" "kview ?t = (kview s)(q \<mapsto> xs)"
    using h assms(1) by (simp_all add: kqueueDequeue_def on_queues_app queues_ok_def queues_onlyI)
  then show ?thesis by blast
qed

lemma kqueueDequeue_empty:
  assumes "queues_ok s" and "kview s q = Some []"
  shows "kqueueDequeue q s = Ret 0 s"
  using assms dequeue_view_empty [of "qh s" q] by (simp add: kqueueDequeue_def on_queues_app queues_ok_def)

lemma kqueueRemove_view:
  assumes "queues_ok s" and "kview s q = Some xs" and "p \<noteq> 0"
  shows "\<exists>t. kqueueRemove q p s = Ret () t \<and> queues_ok t \<and> kview t = (kview s)(q \<mapsto> remove1 p xs) \<and> queues_only s t"
proof -
  from assms have w: "qwf (qh s)" by (simp add: queues_ok_def)
  from remove_view [OF w assms(2,3)] obtain h where
    h: "queueRemove q p (qh s) = Ret () h" "qwf h" "qview h = (kview s)(q \<mapsto> remove1 p xs)" "limit h = limit (qh s)"
    by blast
  let ?t = "s\<lparr>qh := h\<rparr>"
  have "kqueueRemove q p s = Ret () ?t" "queues_ok ?t" "queues_only s ?t" "kview ?t = (kview s)(q \<mapsto> remove1 p xs)"
    using h assms(1) by (simp_all add: kqueueRemove_def on_queues_app queues_ok_def queues_onlyI)
  then show ?thesis by blast
qed

lemma kis_empty_view:
  assumes "queues_ok s" and "kview s q = Some xs"
  shows "kis_empty q s = Ret (xs = []) s"
  using assms empty_view [of "qh s" q xs] by (simp add: kis_empty_def on_queues_app queues_ok_def)

lemma next_process_view:
  assumes "queues_ok s" and "kview s (ready_queue s) = Some xs"
  shows "\<exists>t. next_process s = Ret (case xs of [] \<Rightarrow> idle_proc s | p # _ \<Rightarrow> p) t \<and> queues_ok t \<and>
    kview t = (kview s)(ready_queue s \<mapsto> tl xs) \<and> queues_only s t"
proof (cases xs)
  case Nil
  with assms have "next_process s = Ret (idle_proc s) s"
    by (simp add: next_process_def prog_simps kis_empty_view [OF assms])
  moreover have "queues_only s s" using queues_onlyI(2) [of s "qh s"] by simp
  moreover have "(kview s)(ready_queue s \<mapsto> tl xs) = kview s" using Nil assms by (simp add: fun_upd_idem)
  ultimately show ?thesis using assms Nil by auto
next
  case (Cons p ps)
  from kqueueDequeue_view [OF assms(1), of "ready_queue s" p ps] assms Cons obtain t where
    "kqueueDequeue (ready_queue s) s = Ret p t \<and> queues_ok t \<and> kview t = (kview s)(ready_queue s \<mapsto> ps) \<and> queues_only s t" by auto
  then show ?thesis using Cons by (simp add: next_process_def prog_simps kis_empty_view [OF assms])
qed

lemmas kqueue_view = kqueueEnqueue_view kqueueDequeue_view kqueueRemove_view next_process_view


section \<open>The kernel refines the abstract scheduler\<close>

text \<open>What a scheduling step leaves alone.\<close>

definition same_procs :: "kstate \<Rightarrow> kstate \<Rightarrow> bool" where
  "same_procs s t \<longleftrightarrow> idle_proc t = idle_proc s \<and> ready_queue t = ready_queue s \<and>
     blocked_queue t = blocked_queue s \<and> malloc_ok t = malloc_ok s \<and> kcs_ok t = kcs_ok s \<and>
     pts (km t) = pts (km s) \<and> (\<forall>q. map_option pcb_key (pcbs t q) = map_option pcb_key (pcbs s q))"

lemma same_procs_trans: "same_procs s t \<Longrightarrow> same_procs t u \<Longrightarrow> same_procs s u"
  by (simp add: same_procs_def)

lemma same_procs_queues_only: "queues_only s t \<Longrightarrow> same_procs s t"
  by (auto simp: same_procs_def dest: queues_onlyD)

lemma same_procs_pcb:
  "pcbs s p = Some b \<Longrightarrow> pcb_key c = pcb_key b \<Longrightarrow> same_procs s (s\<lparr>pcbs := (pcbs s)(p \<mapsto> c)\<rparr>)"
  by (simp add: same_procs_def)

lemma same_procs_ok: "same_procs s t \<Longrightarrow> proc_ok t p = proc_ok s p"
  by (rule proc_ok_cong) (simp_all add: same_procs_def)

lemma mset_dispatch:
  "idle S \<notin> set (ready S) \<Longrightarrow> mset (procs_in (dispatch S)) = mset (ready S @ blocked S)"
  by (cases "ready S") (auto simp: procs_in_def dispatch_def)

lemma idle_sched [simp]: "idle (dispatch S) = idle S" "idle (sched_count S) = idle S"
    "idle (sched_tick S) = idle S" "idle (sched_delay n S) = idle S"
  by (simp_all add: dispatch_def sched_count_def sched_tick_def sched_delay_def Let_def split: list.split)

lemma mset_sched_count: "mset (ready (sched_count S) @ blocked (sched_count S)) = mset (ready S @ blocked S)"
  by (simp add: sched_count_def)

lemma mset_sched_tick:
  assumes "idle S \<notin> set (ready S @ blocked S)"
  shows "mset (procs_in (sched_tick S)) = mset (procs_in S)"
proof (cases "ready (sched_count S) = []")
  case True
  then have "filter (\<lambda>p. ticks S p \<noteq> 1) (blocked S) = blocked S" "filter (\<lambda>p. ticks S p = 1) (blocked S) = []" "ready S = []"
    by (auto simp: sched_count_def filter_empty_conv filter_id_conv)
  then show ?thesis by (simp add: sched_tick_def procs_in_def Let_def sched_count_def del: mset_filter)
next
  case False
  let ?r = "ready (sched_count S) @ (if running S = idle S then [] else [running S])"
  have "idle S \<notin> set ?r" using assms by (auto simp: sched_count_def)
  then have "mset (procs_in (sched_tick S)) = mset (?r @ blocked (sched_count S))"
    using False mset_dispatch [of "(sched_count S)\<lparr>ready := ?r\<rparr>"] by (simp add: sched_tick_def Let_def)
  with mset_sched_count [of S] show ?thesis by (simp add: procs_in_def)
qed

lemma mset_sched_delay:
  assumes "idle S \<notin> set (ready S)" and "running S \<noteq> idle S"
  shows "mset (procs_in (sched_delay n S)) = mset (procs_in S)"
  using assms mset_dispatch [of "S\<lparr>blocked := blocked S @ [running S], ticks := (ticks S)(running S := n)\<rparr>"]
  by (simp add: sched_delay_def procs_in_def)

lemma sched_ok_step:
  assumes s: "sched_ok s" and same: "same_procs s t" and k: "kinv {} t" and r: "run_ok t"
    and q: "kview t (ready_queue s) \<noteq> None" "kview t (blocked_queue s) \<noteq> None"
    and S: "mset (procs_in (sched_of t)) = mset (procs_in (sched_of s))"
  shows "sched_ok t"
proof -
  have "set (procs_in (sched_of t)) = set (procs_in (sched_of s))"
    "distinct (procs_in (sched_of t)) = distinct (procs_in (sched_of s))"
    using S by (metis set_mset_mset, metis mset_eq_imp_distinct_iff)
  moreover have "proc_ok t = proc_ok s" using same_procs_ok [OF same] by blast
  ultimately show ?thesis using s same k r q
    by (simp add: sched_ok_def same_procs_def list_all_iff)
qed

lemma sched_okD:
  assumes "sched_ok s"
  obtains xs ys b where "kinv {} s" "kview s (blocked_queue s) = Some xs" "kview s (ready_queue s) = Some ys"
    "blocked_queue s \<noteq> ready_queue s" "\<forall>n. malloc_ok s n" "\<forall>n. kcs_ok s n" "distinct xs"
    "pcbs s (current_process s) = Some b" "current_process s \<noteq> 0" "pid b = 0 \<longleftrightarrow> current_process s = idle_proc s"
    "current_process s \<noteq> idle_proc s \<Longrightarrow> pstate b = PROC_RUNNING"
    "current_process s \<notin> set xs" "current_process s \<notin> set ys"
    "idle_proc s \<notin> set xs" "idle_proc s \<notin> set ys"
    "\<forall>p \<in> insert (idle_proc s) (insert (current_process s) (set xs \<union> set ys)). proc_ok s p"
proof -
  from assms obtain xs ys where q: "kview s (blocked_queue s) = Some xs" "kview s (ready_queue s) = Some ys"
    unfolding sched_ok_def by blast
  let ?p = "current_process s"
  have ps: "procs_in (sched_of s) = (if ?p = idle_proc s then [] else [?p]) @ ys @ xs"
    using q by (simp add: procs_in_def sched_of_def)
  have ok: "\<forall>p \<in> insert (idle_proc s) (insert ?p (set xs \<union> set ys)). proc_ok s p"
    using assms ps by (auto simp: sched_ok_def list_all_iff split: if_splits)
  then have "proc_ok s ?p" by simp
  from proc_ok_switchable [OF this] obtain b where
    b: "pid b = 0 \<longleftrightarrow> ?p = idle_proc s" "pcbs s ?p = Some b" "?p \<noteq> 0" by blast
  show thesis
    by (rule that [of xs ys b])
       (use assms q ps b ok in \<open>auto simp: sched_ok_def run_ok_def split: if_splits\<close>)
qed


text \<open>The context switch in these terms.\<close>

lemma switch_sched:
  assumes q: "queues_ok s" and tab: "tables_ok (km s)" and m: "kcs_ok s (calls s)"
    and p: "p \<noteq> 0" "pcbs s p = Some b" and n: "proc_ok s n" "p \<noteq> n"
  shows "\<exists>t. KernelContextSwitch_KCSwitch kc p n s = Switched t \<and> same_procs s t \<and> current_process t = n \<and>
    kview t = kview s \<and> run_ok t \<and> ticks (sched_of t) = ticks (sched_of s)"
proof -
  from proc_ok_switchable [OF n(1)] obtain nb ks where nb: "switchable n nb ks s" "pcbs s n = Some nb" by blast
  let ?t = "s\<lparr>km := switch_mem ks nb (km s), current_process := n, calls := Suc (calls s),
     pcbs := (pcbs s)(p \<mapsto> b\<lparr>kernel_context := kc\<rparr>, n \<mapsto> nb\<lparr>pstate := PROC_RUNNING\<rparr>)\<rparr>"
  have "KernelContextSwitch_KCSwitch kc p n s = Switched ?t"
    by (rule KernelContextSwitch_eval [OF m nb(1) p n(2) tab])
  moreover have "same_procs s ?t" using p nb n(2) by (auto simp: same_procs_def)
  moreover have "run_ok ?t" by (simp add: run_ok_def)
  moreover have "ticks (sched_of ?t) = ticks (sched_of s)"
    using p nb n(2) by (auto simp: sched_of_def fun_eq_iff)
  ultimately show ?thesis by (intro exI [of _ ?t]) simp
qed

lemma kinv_after:
  assumes "keeps (kinv T) m" and "kinv T s" and "m s = Ret a t \<or> m s = Switched t"
  shows "kinv T t"
  using keepsD [OF assms(1,2)] assms(3) by auto

lemma sched_of_sel:
  "idle (sched_of s) = idle_proc s" "running (sched_of s) = current_process s"
  "ready (sched_of s) = the (kview s (ready_queue s))" "blocked (sched_of s) = the (kview s (blocked_queue s))"
  by (simp_all add: sched_of_def)

lemma sched_ok_idle: "sched_ok s \<Longrightarrow> idle (sched_of s) \<notin> set (ready (sched_of s) @ blocked (sched_of s))"
  by (auto simp: sched_ok_def procs_in_def sched_of_sel)

lemma ticks_ticked:
  "pcbs t = ticked s D \<Longrightarrow>
   ticks (sched_of t) = (\<lambda>p. if p \<in> D \<and> 0 < ticks (sched_of s) p then ticks (sched_of s) p - 1 else ticks (sched_of s) p)"
  by (auto simp: fun_eq_iff sched_of_def ticked_def tick_pcb_def split: option.split)

lemma due_ticks: "due s p \<longleftrightarrow> ticks (sched_of s) p = 1"
  by (auto simp: due_def sched_of_def split: option.split)

lemma sched_eqI:
  "idle S = idle S' \<Longrightarrow> running S = running S' \<Longrightarrow> ready S = ready S' \<Longrightarrow> blocked S = blocked S' \<Longrightarrow> ticks S = ticks S' \<Longrightarrow>
   S = (S' :: sched)"
  by simp

text \<open>Saving the user context and the tick of the blocked processes.\<close>

lemma clock_count:
  assumes ok: "sched_ok s"
  shows "\<exists>t b. thn save_ctx (queueIterate qh (blocked_queue s) trapHandlerHelper) s = Ret () t \<and> same_procs s t \<and>
    queues_ok t \<and> km t = km s \<and> sched_of t = sched_count (sched_of s) \<and> kview t (blocked_queue s) \<noteq> None \<and>
    kview t (ready_queue s) \<noteq> None \<and>
    current_process t = current_process s \<and> ctx t = ctx s \<and>
    pcbs s (current_process s) = Some b \<and> pcbs t (current_process s) = Some (b\<lparr>user_context := ctx s\<rparr>)"
proof -
  from sched_okD [OF ok] obtain xs ys b where
    k: "kinv {} s" and q: "kview s (blocked_queue s) = Some xs" "kview s (ready_queue s) = Some ys"
    and ne: "blocked_queue s \<noteq> ready_queue s" and m: "\<forall>n. malloc_ok s n" and d: "distinct xs"
    and b: "pcbs s (current_process s) = Some b" "current_process s \<noteq> 0" and nin: "current_process s \<notin> set xs"
    and pok: "\<forall>p \<in> insert (idle_proc s) (insert (current_process s) (set xs \<union> set ys)). proc_ok s p" by metis
  let ?p = "current_process s"
  let ?s = "s\<lparr>pcbs := (pcbs s)(?p \<mapsto> b\<lparr>user_context := ctx s\<rparr>)\<rparr>"
  from krep_exists [OF k] obtain R where "krep s (kview s) R" by blast
  then have kr: "krep ?s (kview s) R" by (simp add: krep_def)
  have live: "\<forall>p \<in> set xs. pcbs ?s p \<noteq> None" using pok by (auto simp: proc_ok_def split: option.splits)
  from tick_all [OF kr, of xs ys] q d live ne m obtain t R' where
    t: "queueIterate qh (blocked_queue ?s) trapHandlerHelper ?s = Ret () t"
       "krep t ((kview s)(blocked_queue s \<mapsto> filter (\<lambda>p. \<not> due ?s p) xs, ready_queue s \<mapsto> ys @ filter (due ?s) xs)) R'"
       "queues_only (?s\<lparr>pcbs := ticked ?s (set xs)\<rparr>) t" by auto
  note td = queues_onlyD [OF t(3)]
  have run: "thn save_ctx (queueIterate qh (blocked_queue s) trapHandlerHelper) s = Ret () t"
    using t(1) b by (simp add: save_ctx_def prog_simps)
  have kv: "queues_ok t" "kview t = (kview s)(blocked_queue s \<mapsto> filter (\<lambda>p. \<not> due ?s p) xs, ready_queue s \<mapsto> ys @ filter (due ?s) xs)"
    using krep_queues_ok [OF t(2)] by simp_all
  have tick_s: "ticks (sched_of ?s) = ticks (sched_of s)" using b by (auto simp: sched_of_def fun_eq_iff)
  have du: "due ?s = (\<lambda>p. ticks (sched_of s) p = 1)" by (simp add: fun_eq_iff due_ticks tick_s)
  have tk: "ticks (sched_of t) = (\<lambda>p. if p \<in> set xs \<and> 0 < ticks (sched_of s) p then ticks (sched_of s) p - 1 else ticks (sched_of s) p)"
    using ticks_ticked [of t ?s "set xs", unfolded tick_s] td(2) by simp
  have "sched_of t = sched_count (sched_of s)"
    by (rule sched_eqI) (simp_all add: tk sched_count_def sched_of_sel kv(2) td q ne du)
  moreover have "same_procs s (?s\<lparr>pcbs := ticked ?s (set xs)\<rparr>)"
    using b by (auto simp: same_procs_def ticked_def option.map_comp comp_def)
  then have "same_procs s t" using same_procs_queues_only [OF t(3)] by (rule same_procs_trans)
  moreover have "pcbs t ?p = Some (b\<lparr>user_context := ctx s\<rparr>)" using td nin by (simp add: ticked_def)
  ultimately show ?thesis using run kv td b ne by (intro exI [of _ t] exI [of _ b]) simp
qed


text \<open>The interrupted process goes to the end of the ready queue, unless it is the idle process.\<close>

lemma clock_requeue:
  assumes q: "queues_ok s" "kview s rq = Some zs" and m: "\<forall>n. malloc_ok s n"
    and p: "p \<noteq> 0" "pcbs s p = Some c" "pid c = 0 \<longleftrightarrow> p = idle_proc s" "p \<noteq> idle_proc s \<Longrightarrow> pstate c = PROC_RUNNING"
  shows "\<exists>t d. (if pstate c = PROC_RUNNING \<and> pid c \<noteq> 0
      then thn (upd_pcb p (\<lambda>b. b\<lparr>pstate := PROC_READY\<rparr>)) (kqueueEnqueue rq p) else ret ()) s = Ret () t \<and>
    same_procs s t \<and> queues_ok t \<and> kview t = (kview s)(rq \<mapsto> zs @ (if p = idle_proc s then [] else [p])) \<and>
    ticks (sched_of t) = ticks (sched_of s) \<and> km t = km s \<and> pcbs t p = Some d"
proof (cases "p = idle_proc s")
  case True
  moreover have "same_procs s s" by (simp add: same_procs_def)
  ultimately show ?thesis using p q by (simp add: prog_simps fun_upd_idem)
next
  case False
  let ?s = "s\<lparr>pcbs := (pcbs s)(p \<mapsto> c\<lparr>pstate := PROC_READY\<rparr>)\<rparr>"
  from kqueueEnqueue_view [of ?s rq zs p] q m p obtain t where
    t: "kqueueEnqueue rq p ?s = Ret () t" "queues_ok t" "kview t = (kview s)(rq \<mapsto> zs @ [p])" "queues_only ?s t" by auto
  note td = queues_onlyD [OF t(4)]
  have "same_procs s t"
    using same_procs_trans [OF same_procs_pcb [OF p(2)] same_procs_queues_only [OF t(4)]] by simp
  moreover have "ticks (sched_of t) = ticks (sched_of s)" using td p by (auto simp: sched_of_def fun_eq_iff)
  ultimately show ?thesis using t td p False by (simp add: prog_simps)
qed

text \<open>The handler from the point where it has counted the tick.\<close>

definition clock_rest :: "addr \<Rightarrow> addr \<Rightarrow> (kstate, unit) prog" where
  "clock_rest rq p = bnd (kqueueDequeue rq) (\<lambda>next_proc.
     thn (if next_proc \<noteq> 0
          then bnd (get_pcb p) (\<lambda>b.
            thn (if pstate b = PROC_RUNNING \<and> pid b \<noteq> 0
                 then thn (upd_pcb p (\<lambda>b. b\<lparr>pstate := PROC_READY\<rparr>)) (kqueueEnqueue rq p)
                 else ret ())
           (thn (KernelContextSwitch_KCSwitch KC_Clock p next_proc) (ret ())))
          else ret ()) load_ctx)"

lemma clock_rest_switch:
  assumes q: "queues_ok t" "kview t rq = Some (n # zs)" and m: "\<forall>n. malloc_ok t n" "\<forall>n. kcs_ok t n"
    and tab: "tables_ok (km t)" and n: "proc_ok t n" "n \<noteq> p"
    and p: "p \<noteq> 0" "pcbs t p = Some c" "pid c = 0 \<longleftrightarrow> p = idle_proc t" "p \<noteq> idle_proc t \<Longrightarrow> pstate c = PROC_RUNNING"
  shows "\<exists>w. clock_rest rq p t = Switched w \<and> same_procs t w \<and> current_process w = n \<and> run_ok w \<and>
    kview w = (kview t)(rq \<mapsto> zs @ (if p = idle_proc t then [] else [p])) \<and> ticks (sched_of w) = ticks (sched_of t)"
proof -
  from kqueueDequeue_view [OF q] obtain u where
    u: "kqueueDequeue rq t = Ret n u" "queues_ok u" "kview u = (kview t)(rq \<mapsto> zs)" "queues_only t u" by blast
  note ud = queues_onlyD [OF u(4)]
  have su: "same_procs t u" by (rule same_procs_queues_only [OF u(4)])
  from clock_requeue [OF u(2), of rq zs p c] u(3) m p ud obtain v d where
    v: "(if pstate c = PROC_RUNNING \<and> pid c \<noteq> 0
      then thn (upd_pcb p (\<lambda>b. b\<lparr>pstate := PROC_READY\<rparr>)) (kqueueEnqueue rq p) else ret ()) u = Ret () v"
    "same_procs u v" "queues_ok v" "kview v = (kview t)(rq \<mapsto> zs @ (if p = idle_proc t then [] else [p]))"
    "ticks (sched_of v) = ticks (sched_of u)" "km v = km u" "pcbs v p = Some d" by auto
  have sv: "same_procs t v" using su v(2) by (rule same_procs_trans)
  have kv: "kcs_ok v (calls v)" "tables_ok (km v)" using sv m v(6) ud tab by (simp_all add: same_procs_def)
  have nv: "proc_ok v n" "p \<noteq> n" "n \<noteq> 0" using same_procs_ok [OF sv] n by (auto simp: proc_ok_def split: option.splits)
  from switch_sched [OF v(3) kv(2,1) p(1) v(7) nv(1,2), of KC_Clock] obtain w where
    w: "KernelContextSwitch_KCSwitch KC_Clock p n v = Switched w" "same_procs v w" "current_process w = n"
      "kview w = kview v" "run_ok w" "ticks (sched_of w) = ticks (sched_of v)" by auto
  have "clock_rest rq p t = Switched w"
    unfolding clock_rest_def using u(1) nv v(1) w(1) p ud by (simp add: prog_simps)
  moreover have "ticks (sched_of u) = ticks (sched_of t)" using ud(2) by (simp add: sched_of_def)
  ultimately show ?thesis using same_procs_trans [OF sv w(2)] w v by auto
qed

lemma clock_rest_alone:
  assumes "queues_ok t" "kview t rq = Some []" "p \<noteq> 0" "pcbs t p = Some c" "current_process t = p" "user_context c = ctx t"
  shows "clock_rest rq p t = Ret () t"
proof -
  have "clock_rest rq p t = Ret () (t\<lparr>ctx := ctx t\<rparr>)"
    using assms kqueueDequeue_empty [of t rq] by (simp add: clock_rest_def prog_simps load_ctx_def)
  then show ?thesis by simp
qed

lemma clock_refines:
  assumes ok: "sched_ok s"
  shows "\<exists>t. (ClockTrapHandler s = Ret () t \<and> current_process t = current_process s \<or> ClockTrapHandler s = Switched t) \<and> same_procs s t \<and>
    sched_of t = sched_tick (sched_of s) \<and> run_ok t \<and> kview t (ready_queue s) \<noteq> None \<and> kview t (blocked_queue s) \<noteq> None"
proof -
  from sched_okD [OF ok] obtain xs ys b where
    k: "kinv {} s" and q: "kview s (blocked_queue s) = Some xs" "kview s (ready_queue s) = Some ys"
    and ne: "blocked_queue s \<noteq> ready_queue s" and m: "\<forall>n. malloc_ok s n" "\<forall>n. kcs_ok s n"
    and b: "pcbs s (current_process s) = Some b" "current_process s \<noteq> 0" "pid b = 0 \<longleftrightarrow> current_process s = idle_proc s"
      "current_process s \<noteq> idle_proc s \<Longrightarrow> pstate b = PROC_RUNNING"
    and nin: "current_process s \<notin> set xs" "current_process s \<notin> set ys"
    and pok: "\<forall>p \<in> insert (idle_proc s) (insert (current_process s) (set xs \<union> set ys)). proc_ok s p" by metis
  let ?p = "current_process s" and ?S = "sched_of s" and ?c = "b\<lparr>user_context := ctx s\<rparr>"
  have sel: "running ?S = ?p" "idle ?S = idle_proc s" "ready ?S = ys" "blocked ?S = xs" using q by (simp_all add: sched_of_sel)
  from clock_count [OF ok] b(1) obtain t where
    t: "thn save_ctx (queueIterate qh (blocked_queue s) trapHandlerHelper) s = Ret () t" "same_procs s t"
      "queues_ok t" "km t = km s" "sched_of t = sched_count ?S" "kview t (blocked_queue s) \<noteq> None"
      "kview t (ready_queue s) \<noteq> None" "current_process t = ?p" "ctx t = ctx s" and bt: "pcbs t ?p = Some ?c" by auto
  have tq: "ready_queue t = ready_queue s" "blocked_queue t = blocked_queue s" "idle_proc t = idle_proc s"
    "\<forall>n. malloc_ok t n" "\<forall>n. kcs_ok t n" using t(2) m by (simp_all add: same_procs_def)
  define zs where "zs = ready (sched_count ?S)"
  have vz: "kview t (ready_queue s) = Some zs" using t(7) tq by (auto simp: zs_def sched_of_sel simp flip: t(5))
  have vb: "kview t (blocked_queue s) = Some (blocked (sched_count ?S))"
    using t(6) tq by (auto simp: sched_of_sel simp flip: t(5))
  have head: "ClockTrapHandler s = clock_rest (ready_queue s) ?p t"
    using t(1) tq by (auto simp: ClockTrapHandler_def clock_rest_def prog_simps save_ctx_def b(1,2) split: outcome.splits)
  show ?thesis
  proof (cases zs)
    case Nil
    then have "sched_tick ?S = sched_of t" using t(5) by (simp add: sched_tick_def zs_def Let_def)
    moreover have "ClockTrapHandler s = Ret () t"
      unfolding head using clock_rest_alone [OF t(3) _ b(2) bt t(8)] vz Nil t(9) by simp
    moreover have "run_ok t" using b(4) bt t(8) tq by (auto simp: run_ok_def)
    ultimately show ?thesis using t by auto
  next
    case (Cons n zs')
    have "set zs \<subseteq> set xs \<union> set ys" using sel by (auto simp: zs_def sched_count_def)
    with Cons nin pok have n: "n \<noteq> ?p" "proc_ok t n" using same_procs_ok [OF t(2)] by auto
    from clock_rest_switch [OF t(3) vz [unfolded Cons] tq(4,5) _ n(2,1) b(2) bt] t(4) k b tq obtain w where
      w: "clock_rest (ready_queue s) ?p t = Switched w" "same_procs t w" "current_process w = n" "run_ok w"
        "kview w = (kview t)(ready_queue s \<mapsto> zs' @ (if ?p = idle_proc s then [] else [?p]))"
        "ticks (sched_of w) = ticks (sched_of t)" by (auto simp: kinv_def)
    have sw: "same_procs s w" using t(2) w(2) by (rule same_procs_trans)
    then have wq: "ready_queue w = ready_queue s" "blocked_queue w = blocked_queue s" "idle_proc w = idle_proc s"
      by (simp_all add: same_procs_def)
    have "ready (sched_count ?S) = n # zs'" using Cons by (simp add: zs_def)
    then have "sched_tick ?S = (sched_count ?S)\<lparr>running := n, ready := zs' @ (if ?p = idle_proc s then [] else [?p])\<rparr>"
      by (simp add: sched_tick_def Let_def dispatch_def sel)
    then have "sched_of w = sched_tick ?S"
      by (intro sched_eqI) (simp_all add: w(6) t(5) sched_of_sel wq w(3,5) vb ne sel(2))
    then show ?thesis using w(1,4,5) sw vb ne unfolding head by auto
  qed
qed

lemma clock_step:
  assumes ok: "sched_ok s"
  shows "\<exists>t. (ClockTrapHandler s = Ret () t \<and> current_process t = current_process s \<or> ClockTrapHandler s = Switched t) \<and>
    sched_of t = sched_tick (sched_of s) \<and> sched_ok t"
proof -
  from clock_refines [OF ok] obtain t where t: "ClockTrapHandler s = Ret () t \<and> current_process t = current_process s \<or> ClockTrapHandler s = Switched t"
    "same_procs s t" "sched_of t = sched_tick (sched_of s)" "run_ok t"
    "kview t (ready_queue s) \<noteq> None" "kview t (blocked_queue s) \<noteq> None" by blast
  have k: "kinv {} s" and i: "idle_proc s \<notin> set (ready (sched_of s) @ blocked (sched_of s))"
    using ok by (auto simp: sched_ok_def procs_in_def)
  have "kinv {} t" by (rule kinv_after [OF keeps_ClockTrapHandler k]) (use t(1) in blast)
  moreover have "mset (procs_in (sched_of t)) = mset (procs_in (sched_of s))"
    using t(3) mset_sched_tick [of "sched_of s"] i by (simp add: sched_of_sel)
  ultimately have "sched_ok t" using sched_ok_step [OF ok t(2) _ t(4,5,6)] by blast
  with t show ?thesis by blast
qed


text \<open>The context of the caller and the contents of memory do not matter to the scheduler.\<close>

lemma sched_ok_save:
  assumes "sched_ok s" and "pcbs s (current_process s) = Some b"
  shows "sched_ok (s\<lparr>ctx := c, pcbs := (pcbs s)(current_process s \<mapsto> b\<lparr>user_context := c\<rparr>)\<rparr>)" (is "sched_ok ?t")
proof -
  have "kinv {} ?t" using assms by (auto simp: sched_ok_def kinv_def)
  moreover have "proc_ok ?t = proc_ok s"
    by (intro ext proc_ok_cong) (use assms(2) in \<open>simp_all add: pcb_key_def\<close>)
  moreover have "sched_of ?t = sched_of s" using assms(2) by (auto simp: sched_of_def fun_eq_iff)
  moreover have "run_ok ?t = run_ok s" using assms(2) by (simp add: run_ok_def)
  ultimately show ?thesis using assms(1) by (simp add: sched_ok_def)
qed

lemma sched_ok_memory: "sched_ok s \<Longrightarrow> sched_ok (s\<lparr>km := (km s)\<lparr>tlb := T, phys := P\<rparr>\<rparr>)"
proof -
  let ?t = "s\<lparr>km := (km s)\<lparr>tlb := T, phys := P\<rparr>\<rparr>"
  assume ok: "sched_ok s"
  then have "kinv {} ?t" by (simp add: sched_ok_def kinv_def tables_ok_def)
  moreover have "proc_ok ?t = proc_ok s" by (intro ext proc_ok_cong) simp_all
  moreover have "sched_of ?t = sched_of s" "run_ok ?t = run_ok s" by (simp_all add: sched_of_def run_ok_def)
  ultimately show ?thesis using ok by (simp add: sched_ok_def)
qed


section \<open>Delay\<close>

lemma delay_refines:
  assumes ok: "sched_ok s" and run: "current_process s \<noteq> idle_proc s" and n: "n \<noteq> 0" "-1 \<le> n"
  shows "\<exists>t. Delay n s = Switched t \<and> same_procs s t \<and> sched_of t = sched_delay n (sched_of s) \<and> run_ok t \<and>
    kview t (ready_queue s) \<noteq> None \<and> kview t (blocked_queue s) \<noteq> None"
proof -
  from sched_okD [OF ok] obtain xs ys b where
    k: "kinv {} s" and q: "kview s (blocked_queue s) = Some xs" "kview s (ready_queue s) = Some ys"
    and ne: "blocked_queue s \<noteq> ready_queue s" and m: "\<forall>n. malloc_ok s n" "\<forall>n. kcs_ok s n"
    and b: "pcbs s (current_process s) = Some b" "current_process s \<noteq> 0" and nin: "current_process s \<notin> set ys"
    and pok: "\<forall>p \<in> insert (idle_proc s) (insert (current_process s) (set xs \<union> set ys)). proc_ok s p" by metis
  let ?p = "current_process s" and ?S = "sched_of s" and ?c = "b\<lparr>delay_ticks := n, pstate := PROC_BLOCKED\<rparr>"
  let ?s = "s\<lparr>pcbs := (pcbs s)(?p \<mapsto> ?c)\<rparr>"
  have same: "same_procs s ?s" using b by (intro same_procs_pcb) simp_all
  from kqueueEnqueue_view [of ?s "blocked_queue s" xs ?p] kinv_queues_ok [OF k] q m b obtain t where
    t: "kqueueEnqueue (blocked_queue s) ?p ?s = Ret () t" "queues_ok t" "kview t = (kview s)(blocked_queue s \<mapsto> xs @ [?p])"
      "queues_only ?s t" by auto
  have vt: "kview t (ready_queue s) = Some ys" using t(3) q ne by simp
  let ?n = "case ys of [] \<Rightarrow> idle_proc s | y # _ \<Rightarrow> y"
  have "\<exists>u. bnd (kqueueDequeue (ready_queue s)) (\<lambda>n. if n = 0 then gets idle_proc else ret n) t = Ret ?n u \<and> queues_ok u \<and>
    kview u = (kview t)(ready_queue s \<mapsto> tl ys) \<and> queues_only t u"
  proof (cases ys)
    case Nil
    have "idle_proc t = idle_proc s" using queues_onlyD(4) [OF t(4)] by simp
    moreover have "queues_only t t" using queues_onlyI(2) [of t "qh t"] by simp
    moreover have "(kview t)(ready_queue s \<mapsto> tl ys) = kview t" using vt Nil by (simp add: fun_upd_idem)
    ultimately show ?thesis using Nil vt kqueueDequeue_empty [OF t(2), of "ready_queue s"] t(2) by (simp add: prog_simps)
  next
    case (Cons y zs)
    then have "y \<noteq> 0" using pok by (auto simp: proc_ok_def split: option.splits)
    then show ?thesis using kqueueDequeue_view [OF t(2) vt [unfolded Cons]] Cons by (auto simp: prog_simps)
  qed
  then obtain u where u: "bnd (kqueueDequeue (ready_queue s)) (\<lambda>n. if n = 0 then gets idle_proc else ret n) t = Ret ?n u"
    "queues_ok u" "kview u = (kview t)(ready_queue s \<mapsto> tl ys)" "queues_only t u" by blast
  have only: "queues_only ?s u" using t(4) u(4) by (rule queues_only_trans)
  note ud = queues_onlyD [OF only]
  have su: "same_procs s u" using same same_procs_queues_only [OF only] by (rule same_procs_trans)
  have nx: "proc_ok u ?n" "?p \<noteq> ?n" using same_procs_ok [OF su] pok run nin by (auto split: list.split)
  have ready: "kcs_ok u (calls u)" "tables_ok (km u)" "pcbs u ?p = Some ?c" using ud m k by (simp_all add: kinv_def)
  from switch_sched [OF u(2) ready(2,1) b(2) ready(3) nx, of KC_Delay] obtain w where
    w: "KernelContextSwitch_KCSwitch KC_Delay ?p ?n u = Switched w" "same_procs u w" "current_process w = ?n"
      "kview w = kview u" "run_ok w" "ticks (sched_of w) = ticks (sched_of u)" by blast
  have "Delay n s = Switched w"
    using n b t(1) u(1) w(1) queues_onlyD [OF t(4)]
    by (auto simp: Delay_def prog_simps split: outcome.splits if_splits)
  moreover have sw: "same_procs s w" using su w(2) by (rule same_procs_trans)
  have wq: "ready_queue w = ready_queue s" "blocked_queue w = blocked_queue s" "idle_proc w = idle_proc s"
    using sw by (simp_all add: same_procs_def)
  have "ticks (sched_of u) = (ticks ?S)(?p := n)" using ud by (auto simp: sched_of_def fun_eq_iff)
  then have "sched_of w = sched_delay n ?S"
    by (intro sched_eqI)
       (auto simp: w(3,4,6) u(3) t(3) wq sched_of_sel sched_delay_def dispatch_def q ne split: list.split)
  ultimately show ?thesis using sw w(4,5) u(3) t(3) ne q by auto
qed

lemma delay_step:
  assumes ok: "sched_ok s" and run: "current_process s \<noteq> idle_proc s" and n: "n \<noteq> 0" "-1 \<le> n"
  shows "\<exists>t. Delay n s = Switched t \<and> sched_of t = sched_delay n (sched_of s) \<and> sched_ok t"
proof -
  from delay_refines [OF assms] obtain t where t: "Delay n s = Switched t"
    "same_procs s t" "sched_of t = sched_delay n (sched_of s)" "run_ok t"
    "kview t (ready_queue s) \<noteq> None" "kview t (blocked_queue s) \<noteq> None" by blast
  have k: "kinv {} s" and i: "idle_proc s \<notin> set (ready (sched_of s))"
    using ok by (auto simp: sched_ok_def procs_in_def)
  have "kinv {} t" using kinv_after [OF keeps_Delay k] t(1) by blast
  moreover have "mset (procs_in (sched_of t)) = mset (procs_in (sched_of s))"
    using t(3) mset_sched_delay [of "sched_of s"] i run by (simp add: sched_of_sel)
  ultimately have "sched_ok t" using sched_ok_step [OF ok t(2) _ t(4,5,6)] by blast
  with t show ?thesis by blast
qed


section \<open>Repeated ticks\<close>

lemma sched_tick_fields:
  "blocked (sched_tick S) = filter (\<lambda>p. ticks S p \<noteq> 1) (blocked S)"
  "ticks (sched_tick S) = (\<lambda>p. if p \<in> set (blocked S) \<and> 0 < ticks S p then ticks S p - 1 else ticks S p)"
  by (simp_all add: sched_tick_def Let_def dispatch_def sched_count_def split: list.split)

lemma never_blocked_again: "p \<notin> set (blocked S) \<Longrightarrow> p \<notin> set (blocked ((sched_tick ^^ k) S))"
  by (induction k arbitrary: S) (simp_all add: funpow_swap1 sched_tick_fields del: funpow.simps, simp_all add: funpow_Suc_right sched_tick_fields del: funpow.simps)

lemma wakes_after:
  "p \<in> set (blocked S) \<Longrightarrow> 0 < ticks S p \<Longrightarrow> p \<in> set (blocked ((sched_tick ^^ k) S)) \<longleftrightarrow> int k < ticks S p"
proof (induction k arbitrary: S)
  case (Suc k)
  have eq: "(sched_tick ^^ Suc k) S = (sched_tick ^^ k) (sched_tick S)" by (simp add: funpow_swap1)
  show ?case
  proof (cases "ticks S p = 1")
    case True
    then have "p \<notin> set (blocked (sched_tick S))" by (simp add: sched_tick_fields)
    with never_blocked_again True eq show ?thesis by simp
  next
    case False
    with Suc.prems have "p \<in> set (blocked (sched_tick S))" "ticks (sched_tick S) p = ticks S p - 1"
      by (simp_all add: sched_tick_fields)
    with Suc.IH [of "sched_tick S"] Suc.prems False eq show ?thesis by auto
  qed
qed simp

lemma stays_blocked:
  "p \<in> set (blocked S) \<Longrightarrow> ticks S p \<le> 0 \<Longrightarrow> p \<in> set (blocked ((sched_tick ^^ k) S))"
proof (induction k arbitrary: S)
  case (Suc k)
  have "(sched_tick ^^ Suc k) S = (sched_tick ^^ k) (sched_tick S)" by (simp add: funpow_swap1)
  with Suc show ?case by (simp add: sched_tick_fields)
qed simp

lemma sched_delay_fields:
  "blocked (sched_delay n S) = blocked S @ [running S]" "ticks (sched_delay n S) = (ticks S)(running S := n)"
  by (simp_all add: sched_delay_def dispatch_def split: list.split)


lemma sched_tick_ready: "ready S = p # ps \<Longrightarrow> \<exists>us. ready (sched_tick S) = ps @ us \<and> running (sched_tick S) = p"
  by (simp add: sched_tick_def sched_count_def dispatch_def Let_def)

lemma ready_advances:
  "ready S = ps @ p # qs \<Longrightarrow> j \<le> length ps \<Longrightarrow> \<exists>us. ready ((sched_tick ^^ j) S) = drop j ps @ p # qs @ us"
proof (induction j)
  case (Suc j)
  then obtain us where us: "ready ((sched_tick ^^ j) S) = drop j ps @ p # qs @ us" by auto
  have "drop j ps = ps ! j # drop (Suc j) ps" using Suc.prems by (simp add: Cons_nth_drop_Suc)
  with us sched_tick_ready [of "(sched_tick ^^ j) S" "ps ! j"] obtain vs where
    "ready (sched_tick ((sched_tick ^^ j) S)) = (drop (Suc j) ps @ p # qs @ us) @ vs" by auto
  then show ?case by auto
qed simp

section \<open>Properties of the scheduling\<close>

lemma kernel_ex_sched: "sched_of kernel_ex = \<lparr>idle = 100, running = 101, ready = [102], blocked = [103],
    ticks = (\<lambda>p. case pcbs_ex p of None \<Rightarrow> 0 | Some b \<Rightarrow> delay_ticks b)\<rparr>"
  by (simp add: sched_of_def qview_sys_def)

lemma kernel_ex_sched_ok: "sched_ok kernel_ex"
proof -
  have "kinv {} kernel_ex" using kernel_ex_kinv by (simp add: kinv_def)
  moreover have "list_all (proc_ok kernel_ex) [100, 101, 102, 103]"
    by (simp add: proc_ok_def pcb_ex_def pcb0_def kmem_ex_def KSTACK_PAGES_def)
  ultimately show ?thesis
    by (simp add: sched_ok_def procs_in_def kernel_ex_sched run_ok_def qview_sys_def)
qed

text \<open>
  C2. The clock interrupt implements round robin with delays: on a kernel in order, the handler
  returns or switches, every blocked process whose last tick it was moves to the end of the ready
  queue in the order of the blocked queue, the other waiting processes lose one tick, the interrupted
  process goes behind them (unless it is the idle process or alone) and the head of the ready queue
  runs. No process is lost or doubled, so the kernel is in order for the next interrupt.
\<close>

theorem clock_refines_sched_tick:
  assumes "sched_ok s"
  shows "\<exists>t. (ClockTrapHandler s = Ret () t \<or> ClockTrapHandler s = Switched t) \<and>
    sched_of t = sched_tick (sched_of s) \<and> sched_ok t \<and> mset (procs_in (sched_of t)) = mset (procs_in (sched_of s))"
proof -
  have "mset (procs_in (sched_tick (sched_of s))) = mset (procs_in (sched_of s))"
    by (rule mset_sched_tick [OF sched_ok_idle [OF assms]])
  with clock_step [OF assms] show ?thesis by metis
qed

theorem clock_refines_sched_tick_witness:
  "\<exists>t. (ClockTrapHandler kernel_ex = Ret () t \<or> ClockTrapHandler kernel_ex = Switched t) \<and>
     running (sched_of t) = 102 \<and> ready (sched_of t) = [103, 101] \<and> blocked (sched_of t) = []"
  using clock_refines_sched_tick [OF kernel_ex_sched_ok]
  by (auto simp: kernel_ex_sched sched_tick_def sched_count_def dispatch_def Let_def)

end
