(* ===== verification/Terminals.thy ===== *)
theory Terminals
  imports Scheduling
begin

text \<open>
  What the terminal calls do with the bytes: \<^verbatim>\<open>TtyWrite\<close> with the transmit interrupts sends the whole buffer in lines
  of at most \<^verbatim>\<open>TERMINAL_MAX_LINE\<close> bytes, wakes the writer and passes the terminal on.
\<close>

section \<open>Output\<close>

function chunks :: "byte list \<Rightarrow> byte list list" where
  "chunks bs = (if bs = [] then [] else take TERMINAL_MAX_LINE bs # chunks (drop TERMINAL_MAX_LINE bs))"
  by auto
termination by (relation "measure length") (auto simp: TERMINAL_MAX_LINE_def)

declare chunks.simps [simp del]

lemma chunks_Nil [simp]: "chunks [] = []"
  by (subst chunks.simps) simp

lemma concat_chunks: "concat (chunks bs) = bs"
proof (induction bs rule: chunks.induct)
  case (1 bs)
  then show ?case by (subst chunks.simps) simp
qed

lemma chunks_short: "c \<in> set (chunks bs) \<Longrightarrow> c \<noteq> [] \<and> length c \<le> TERMINAL_MAX_LINE"
proof (induction bs rule: chunks.induct)
  case (1 bs)
  from 1(2) show ?case
    by (subst (asm) chunks.simps) (auto split: if_splits simp: TERMINAL_MAX_LINE_def dest: 1(1))
qed

text \<open>\<open>k\<close> transmit interrupts in a row.\<close>

primrec run_transmit :: "nat \<Rightarrow> (kstate, unit) prog" where
  "run_transmit 0 = ret ()"
| "run_transmit (Suc k) = thn TtyTrapTransmitHandler (run_transmit k)"

lemma transmit_next:
  assumes i: "0 \<le> i" "nat i < length (terminals s)" "sint (code (ctx s)) = i"
    and t: "t = terminals s ! nat i" "write_buffer t = Some bs" "write_buffer_len t = int (length bs)"
      "write_buffer_position t = int p" "p < length bs"
  shows "TtyTrapTransmitHandler s = Ret () (s\<lparr>
      transmitted := transmitted s @ [(nat i, take TERMINAL_MAX_LINE (drop p bs))],
      terminals := (terminals s)[nat i := t\<lparr>write_buffer_position := int (min (length bs) (p + TERMINAL_MAX_LINE))\<rparr>]\<rparr>)"
proof -
  define n where "n = min TERMINAL_MAX_LINE (length bs - p)"
  have n: "(if int TERMINAL_MAX_LINE < int (length bs) - int p then int TERMINAL_MAX_LINE else int (length bs) - int p) = int n"
    using t(5) by (auto simp: n_def)
  have tk: "take n (drop p bs) = take TERMINAL_MAX_LINE (drop p bs)" by (simp add: n_def min_def)
  have pos: "int p + int n = int (min (length bs) (p + TERMINAL_MAX_LINE))" using t(5) by (auto simp: n_def)
  have "transmit_chunk i t s = Ret () (s\<lparr>
      transmitted := transmitted s @ [(nat i, take TERMINAL_MAX_LINE (drop p bs))],
      terminals := (terminals s)[nat i := t\<lparr>write_buffer_position := int p + int n\<rparr>]\<rparr>)"
    unfolding transmit_chunk_def t(2-4) n Let_def using i t(1,4) tk
    by (simp add: TtyTransmit_def prog_simps)
  moreover have "get_tty i s = Ret t s" using i t(1) by (simp add: get_tty_eval)
  moreover have "write_buffer_position t < write_buffer_len t" using t by simp
  ultimately show ?thesis
    unfolding TtyTrapTransmitHandler_def bnd_app gets_app i(3) pos by simp
qed

lemma run_transmit_all:
  assumes i: "0 \<le> i" "nat i < length (terminals s)" "sint (code (ctx s)) = i"
    and t: "t = terminals s ! nat i" "write_buffer t = Some bs" "write_buffer_len t = int (length bs)"
      "write_buffer_position t = int p" "p \<le> length bs"
  shows "run_transmit (length (chunks (drop p bs))) s = Ret () (s\<lparr>
      transmitted := transmitted s @ map (Pair (nat i)) (chunks (drop p bs)),
      terminals := (terminals s)[nat i := t\<lparr>write_buffer_position := int (length bs)\<rparr>]\<rparr>)"
  using assms
proof (induction "drop p bs" arbitrary: s t p rule: chunks.induct)
  case 1
  show ?case
  proof (cases "p = length bs")
    case True
    with "1.prems" have "t\<lparr>write_buffer_position := int (length bs)\<rparr> = t" by simp
    then have "(terminals s)[nat i := t\<lparr>write_buffer_position := int (length bs)\<rparr>] = terminals s"
      using "1.prems"(4) by (simp only: list_update_id)
    with True show ?thesis by (simp add: ret_app)
  next
    case False
    then have p: "p < length bs" using "1.prems" by simp
    let ?q = "min (length bs) (p + TERMINAL_MAX_LINE)"
    let ?t = "t\<lparr>write_buffer_position := int ?q\<rparr>"
    let ?s = "s\<lparr>transmitted := transmitted s @ [(nat i, take TERMINAL_MAX_LINE (drop p bs))],
      terminals := (terminals s)[nat i := ?t]\<rparr>"
    have d: "drop TERMINAL_MAX_LINE (drop p bs) = drop ?q bs"
      by (cases "p + TERMINAL_MAX_LINE \<le> length bs") (auto simp: add.commute)
    have ch: "chunks (drop p bs) = take TERMINAL_MAX_LINE (drop p bs) # chunks (drop ?q bs)"
      using p d by (subst chunks.simps) simp
    have "run_transmit (length (chunks (drop ?q bs))) ?s = Ret () (?s\<lparr>
      transmitted := transmitted ?s @ map (Pair (nat i)) (chunks (drop ?q bs)),
      terminals := (terminals ?s)[nat i := ?t\<lparr>write_buffer_position := int (length bs)\<rparr>]\<rparr>)"
      using "1.prems" p d by (intro "1.hyps") simp_all
    then show ?thesis
      using transmit_next [OF "1.prems"(1-7) p] ch by (simp add: thn_app)
  qed
qed

lemma access_tlb: "access p a m = Ret f m' \<Longrightarrow> \<exists>T. m' = m\<lparr>tlb := T\<rparr>"
  by (auto simp: access_def split: option.splits if_splits)

lemma copy_in_tlb: "copy_in a n m = Ret bs m' \<Longrightarrow> \<exists>T. m' = m\<lparr>tlb := T\<rparr>"
proof (induction n arbitrary: a m bs)
  case 0
  then show ?case by (intro exI [of _ "tlb m"]) (simp add: ret_app)
next
  case (Suc n)
  then obtain b m1 bs' where l: "load_byte a m = Ret b m1" and c: "copy_in (a + 1) n m1 = Ret bs' m'"
    by (auto simp: bnd_app ret_app split: outcome.splits)
  from l obtain f where "access PROT_READ a m = Ret f m1"
    by (auto simp: load_byte_def bnd_app gets_app split: outcome.splits)
  from access_tlb [OF this] Suc.IH [OF c] show ?case by auto
qed

text \<open>A process gives up the processor and waits in the blocked queue.\<close>

lemma block_switch:
  assumes q: "queues_ok s" "kview s (blocked_queue s) = Some xs" "kview s (ready_queue s) = Some ys"
      "blocked_queue s \<noteq> ready_queue s"
    and m: "\<forall>n. malloc_ok s n" "\<forall>n. kcs_ok s n" and tab: "tables_ok (km s)"
    and p: "p \<noteq> 0" "pcbs s p = Some b" "p \<noteq> idle_proc s" "p \<notin> set ys"
    and ok: "\<forall>r \<in> insert (idle_proc s) (set ys). proc_ok s r"
  shows "\<exists>t. (thn (upd_pcb p (\<lambda>b. b\<lparr>pstate := PROC_BLOCKED\<rparr>)) (bnd (gets blocked_queue) (\<lambda>bq.
      thn (kqueueEnqueue bq p) (bnd next_process (\<lambda>next.
      thn (KernelContextSwitch_KCSwitch kc p next) k))))) s = Switched t \<and>
    kview t = (kview s)(blocked_queue s \<mapsto> xs @ [p], ready_queue s \<mapsto> tl ys) \<and>
    blocked_queue t = blocked_queue s \<and> ready_queue t = ready_queue s \<and>
    current_process t = (case ys of [] \<Rightarrow> idle_proc s | r # _ \<Rightarrow> r) \<and> terminals t = terminals s \<and>
    transmitted t = transmitted s \<and> map_option pstate (pcbs t p) = Some PROC_BLOCKED \<and>
    map_option kernel_context (pcbs t p) = Some kc"
proof -
  let ?b = "b\<lparr>pstate := PROC_BLOCKED\<rparr>"
  let ?n = "case ys of [] \<Rightarrow> idle_proc s | r # _ \<Rightarrow> r"
  define s1 where "s1 = s\<lparr>pcbs := (pcbs s)(p \<mapsto> ?b)\<rparr>"
  have r1: "upd_pcb p (\<lambda>b. b\<lparr>pstate := PROC_BLOCKED\<rparr>) s = Ret () s1" using p by (simp add: upd_pcb_eval s1_def)
  from q m have "queues_ok s1" "kview s1 (blocked_queue s) = Some xs" "malloc_ok s1 (calls s1)"
    by (simp_all add: s1_def)
  from kqueueEnqueue_view [OF this(1,2) p(1) this(3)] obtain s2 where s2:
    "kqueueEnqueue (blocked_queue s) p s1 = Ret () s2" "queues_ok s2"
    "kview s2 = (kview s)(blocked_queue s \<mapsto> xs @ [p])" "queues_only s1 s2" by (auto simp: s1_def)
  note d2 = queues_onlyD [OF s2(4)]
  have same: "idle_proc s2 = idle_proc s" "ready_queue s2 = ready_queue s" using d2 by (simp_all add: s1_def)
  have "kview s2 (ready_queue s2) = Some ys" using s2(3) q same by simp
  from next_process_view [OF s2(2) this, unfolded same] obtain s3 where s3: "next_process s2 = Ret ?n s3" "queues_ok s3"
    "kview s3 = (kview s2)(ready_queue s \<mapsto> tl ys)" "queues_only s2 s3"
    by blast
  note d3 = queues_onlyD [OF s3(4)]
  have n: "?n \<in> insert (idle_proc s) (set ys)" "?n \<noteq> p" using p by (auto split: list.split)
  then have "proc_ok s3 ?n"
    using ok d2 d3 p proc_ok_cong [of s3 s ?n] by (auto simp: s1_def)
  from proc_ok_switchable [OF this] obtain nb ks where nb: "switchable ?n nb ks s3" by blast
  have p3: "pcbs s3 p = Some ?b" "kcs_ok s3 (calls s3)" "tables_ok (km s3)"
    using d2 d3 m tab by (simp_all add: s1_def)
  have "KernelContextSwitch_KCSwitch kc p ?n s3 = Switched (s3\<lparr>km := switch_mem ks nb (km s3),
     current_process := ?n, calls := Suc (calls s3),
     pcbs := (pcbs s3)(p \<mapsto> ?b\<lparr>kernel_context := kc\<rparr>, ?n \<mapsto> nb\<lparr>pstate := PROC_RUNNING\<rparr>)\<rparr>)"
    using KernelContextSwitch_eval [OF p3(2) nb p(1) p3(1) n(2) [symmetric] p3(3)] .
  with r1 s2(1,3) s3(1,3) n(2) d2 d3 show ?thesis
    by (auto simp: thn_app bnd_app gets_app s1_def)
qed

lemma BeginTtyTransmit_ok:
  assumes i: "0 \<le> i" "nat i < length (terminals s)" and m: "malloc_ok s (calls s)" "next_addr s \<noteq> 0"
    and c: "copy_in buf (nat len) (km s) = Ret bytes m'" and len: "0 < len"
  shows "BeginTtyTransmit i w buf len s = Ret SUCCESS (s\<lparr>next_addr := Suc (next_addr s), calls := Suc (calls s), km := m',
    transmitted := transmitted s @ [(nat i, take TERMINAL_MAX_LINE bytes)],
    terminals := (terminals s)[nat i := (terminals s ! nat i)\<lparr>write_buffer := Some bytes, write_buffer_len := len,
      current_writer := w, write_buffer_position := int (min (length bytes) TERMINAL_MAX_LINE)\<rparr>]\<rparr>)"
proof -
  have l: "len = int (length bytes)" using copy_in_length [OF c] len by simp
  define n where "n = min (length bytes) TERMINAL_MAX_LINE"
  have n: "(if int TERMINAL_MAX_LINE < int (length bytes) then int TERMINAL_MAX_LINE else int (length bytes)) = int n"
    by (simp add: n_def)
  have tk: "take n bytes = take TERMINAL_MAX_LINE bytes" by (simp add: n_def min_def)
  show ?thesis
    unfolding BeginTtyTransmit_def l n n_def [symmetric] Let_def
    using i m c [unfolded l] tk by (simp add: malloc_def bnd_app thn_app on_mem_app upd_tty_eval TtyTransmit_def modify_app ret_app)
qed

lemma TtyWrite_starts:
  assumes ok: "sched_ok s" and cur: "current_process s = p" "p \<noteq> idle_proc s"
    and i: "0 \<le> i" "i < int NUM_TERMINALS" and arg: "buf \<noteq> 0" "0 < len"
    and free: "\<not> in_use (terminals s ! nat i)" and c: "copy_in buf (nat len) (km s) = Ret bytes m'"
  shows "\<exists>t. TtyWrite i buf len s = Switched t \<and>
    transmitted t = transmitted s @ [(nat i, take TERMINAL_MAX_LINE bytes)] \<and>
    terminals t = (terminals s)[nat i := (terminals s ! nat i)\<lparr>in_use := True, write_buffer := Some bytes,
      write_buffer_len := len, current_writer := p, write_buffer_position := int (min (length bytes) TERMINAL_MAX_LINE)\<rparr>] \<and>
    blocked (sched_of t) = blocked (sched_of s) @ [p] \<and> map_option pstate (pcbs t p) = Some PROC_BLOCKED"
proof -
  from sched_okD [OF ok] obtain xs ys b where k: "kinv {} s" and q: "kview s (blocked_queue s) = Some xs"
      "kview s (ready_queue s) = Some ys" "blocked_queue s \<noteq> ready_queue s"
    and m: "\<forall>n. malloc_ok s n" "\<forall>n. kcs_ok s n" and b: "pcbs s (current_process s) = Some b" "current_process s \<noteq> 0"
    and ns: "current_process s \<notin> set ys"
    and pr: "\<forall>p \<in> insert (idle_proc s) (insert (current_process s) (set xs \<union> set ys)). proc_ok s p" .
  have ts: "nat i < length (terminals s)" "next_addr s \<noteq> 0" "tables_ok (km s)" "queues_ok s"
    using k i by (auto simp: kinv_def queues_ok_def)
  from copy_in_tlb [OF c] obtain T where T: "m' = (km s)\<lparr>tlb := T\<rparr>" ..
  let ?s1 = "s\<lparr>terminals := (terminals s)[nat i := (terminals s ! nat i)\<lparr>in_use := True\<rparr>]\<rparr>"
  define s2 where "s2 = ?s1\<lparr>next_addr := Suc (next_addr s), calls := Suc (calls s), km := m',
    transmitted := transmitted s @ [(nat i, take TERMINAL_MAX_LINE bytes)],
    terminals := (terminals s)[nat i := (terminals s ! nat i)\<lparr>in_use := True, write_buffer := Some bytes, write_buffer_len := len,
      current_writer := p, write_buffer_position := int (min (length bytes) TERMINAL_MAX_LINE)\<rparr>]\<rparr>"
  have bg: "BeginTtyTransmit i p buf len ?s1 = Ret SUCCESS s2"
    using BeginTtyTransmit_ok [of i ?s1 buf len bytes m' p] i ts m c arg by (simp add: s2_def)
  have f2: "pcbs s2 = pcbs s" "qh s2 = qh s" "blocked_queue s2 = blocked_queue s" "ready_queue s2 = ready_queue s"
    "idle_proc s2 = idle_proc s" "malloc_ok s2 = malloc_ok s" "kcs_ok s2 = kcs_ok s" "pts (km s2) = pts (km s)"
    "tables_ok (km s2)" "queues_ok s2"
    using ts by (simp_all add: s2_def T tables_ok_def queues_ok_def)
  have pr2: "\<forall>r \<in> insert (idle_proc s2) (set ys). proc_ok s2 r"
    using pr proc_ok_cong [of s2 s] f2 by auto
  from block_switch [of s2 xs ys p b "KC_TtyWriteDone len" "ret len"] q m b ns cur f2 pr2 obtain t where
    t: "(thn (upd_pcb p (\<lambda>b. b\<lparr>pstate := PROC_BLOCKED\<rparr>)) (bnd (gets blocked_queue) (\<lambda>bq.
        thn (kqueueEnqueue bq p) (bnd next_process (\<lambda>next.
        thn (KernelContextSwitch_KCSwitch (KC_TtyWriteDone len) p next) (ret len)))))) s2 = Switched t"
      "kview t = (kview s2)(blocked_queue s2 \<mapsto> xs @ [p], ready_queue s2 \<mapsto> tl ys)"
      "blocked_queue t = blocked_queue s2" "terminals t = terminals s2" "transmitted t = transmitted s2"
      "map_option pstate (pcbs t p) = Some PROC_BLOCKED" by auto
  have "TtyWrite_locked i buf len s = Switched t"
    unfolding TtyWrite_locked_def using bg t(1) cur i ts
    by (simp add: bnd_app [of "gets current_process"] gets_app thn_app [of "upd_tty i f" for f] upd_tty_eval
      bnd_app [of "BeginTtyTransmit i p buf len"] code_defs)
  then have "TtyWrite i buf len s = Switched t"
    unfolding TtyWrite_def using i arg free ts by (simp add: bnd_app get_tty_eval gets_app)
  then show ?thesis using t(2-6) f2 q by (intro exI [of _ t]) (simp add: s2_def sched_of_def)
qed

lemma TtyWrite_sends:
  assumes "sched_ok s" and "current_process s = p" "p \<noteq> idle_proc s" and "0 \<le> i" "i < int NUM_TERMINALS"
    and "buf \<noteq> 0" "0 < len" and "\<not> in_use (terminals s ! nat i)" and "copy_in buf (nat len) (km s) = Ret bytes m'"
  shows "concat (chunks bytes) = bytes \<and> (\<forall>c \<in> set (chunks bytes). length c \<le> TERMINAL_MAX_LINE) \<and>
    (\<exists>t. TtyWrite i buf len s = Switched t \<and> in_use (terminals t ! nat i) \<and> current_writer (terminals t ! nat i) = p \<and>
      blocked (sched_of t) = blocked (sched_of s) @ [p] \<and>
      (\<forall>u. terminals u = terminals t \<and> transmitted u = transmitted t \<and> sint (code (ctx u)) = i \<longrightarrow>
        (\<exists>v. run_transmit (length (chunks bytes) - 1) u = Ret () v \<and>
          transmitted v = transmitted s @ map (Pair (nat i)) (chunks bytes) \<and>
          write_buffer_position (terminals v ! nat i) = write_buffer_len (terminals v ! nat i))))"
proof -
  from TtyWrite_starts [OF assms] obtain t where t: "TtyWrite i buf len s = Switched t"
    "transmitted t = transmitted s @ [(nat i, take TERMINAL_MAX_LINE bytes)]"
    "terminals t = (terminals s)[nat i := (terminals s ! nat i)\<lparr>in_use := True, write_buffer := Some bytes,
      write_buffer_len := len, current_writer := p, write_buffer_position := int (min (length bytes) TERMINAL_MAX_LINE)\<rparr>]"
    "blocked (sched_of t) = blocked (sched_of s) @ [p]" by blast
  have ti: "nat i < length (terminals s)" using assms(1,4,5) by (auto simp: sched_ok_def kinv_def)
  have l: "len = int (length bytes)" "bytes \<noteq> []" using copy_in_length [OF assms(9)] assms(7) by auto
  let ?q = "min (length bytes) TERMINAL_MAX_LINE"
  have ch: "chunks bytes = take TERMINAL_MAX_LINE bytes # chunks (drop ?q bytes)"
    using l(2) by (subst chunks.simps) (simp add: min_def)
  have "\<exists>v. run_transmit (length (chunks bytes) - 1) u = Ret () v \<and>
      transmitted v = transmitted s @ map (Pair (nat i)) (chunks bytes) \<and>
      write_buffer_position (terminals v ! nat i) = write_buffer_len (terminals v ! nat i)"
    if u: "terminals u = terminals t" "transmitted u = transmitted t" "sint (code (ctx u)) = i" for u
    using run_transmit_all [of i u "terminals u ! nat i" bytes ?q] u t(2,3) ch l(1) assms(4) ti by simp
  then show ?thesis using t ti by (simp add: concat_chunks chunks_short)
qed

text \<open>
  C11. As long as it works, the terminal sends what the process has written: when a process writes \<open>len\<close> bytes to a free
  terminal it is blocked and the terminal is its own; the transmit interrupts that follow send the rest of the buffer, so
  that the lines sent are the chunks of the buffer in order, none longer than \<^verbatim>\<open>TERMINAL_MAX_LINE\<close>.
\<close>

theorem TtyWrite_sends_everything:
  assumes "sched_ok s" and "current_process s = p" "p \<noteq> idle_proc s" and "0 \<le> i" "i < int NUM_TERMINALS"
    and "buf \<noteq> 0" "0 < len" and "\<not> in_use (terminals s ! nat i)" and "copy_in buf (nat len) (km s) = Ret bytes m'"
  shows "concat (chunks bytes) = bytes \<and> (\<forall>c \<in> set (chunks bytes). length c \<le> TERMINAL_MAX_LINE) \<and>
    (\<exists>t. TtyWrite i buf len s = Switched t \<and> in_use (terminals t ! nat i) \<and> current_writer (terminals t ! nat i) = p \<and>
      blocked (sched_of t) = blocked (sched_of s) @ [p] \<and>
      (\<forall>u. terminals u = terminals t \<and> transmitted u = transmitted t \<and> sint (code (ctx u)) = i \<longrightarrow>
        (\<exists>v. run_transmit (length (chunks bytes) - 1) u = Ret () v \<and>
          transmitted v = transmitted s @ map (Pair (nat i)) (chunks bytes) \<and>
          write_buffer_position (terminals v ! nat i) = write_buffer_len (terminals v ! nat i))))"
  using assms by (rule TtyWrite_sends)

lemma kernel_ex_page: "load_byte 0x100000 kmem_ex = Ret 16 (kmem_ex\<lparr>tlb := [128 \<mapsto> pte_ex 16]\<rparr>)"
proof -
  have v: "vpn_of 0x100000 = 128" by (simp add: vpn_of_div)
  have "translate kmem_ex 128 = Some (pte_ex 16)"
    by (simp add: translate_def pt_entry_def kmem_ex_def mem_ex_def MAX_PT_LEN_def pte_ex_def nth_append)
  then show ?thesis
    by (simp add: load_byte_def access_def v bnd_app gets_app pte_ex_def frame_of_def prot_defs) (simp add: kmem_ex_def mem_ex_def page_off_def PAGESIZE_def)
qed

theorem TtyWrite_sends_everything_witness:
  "\<exists>t. TtyWrite 0 0x100000 1 kernel_ex = Switched t \<and> current_writer (terminals t ! 0) = 101"
proof -
  have c: "copy_in 0x100000 (nat 1) (km kernel_ex) = Ret [16] (kmem_ex\<lparr>tlb := [128 \<mapsto> pte_ex 16]\<rparr>)"
    by (simp add: kernel_ex_page bnd_app ret_app)
  from TtyWrite_sends_everything [OF kernel_ex_sched_ok _ _ _ _ _ _ _ c, of 101 0] show ?thesis
    by (auto simp: NUM_TERMINALS_def tty_ex_def tty0_def)
qed

section \<open>The end of a write\<close>

lemma wake_up:
  assumes q: "queues_ok s" "kview s bq = Some xs" "kview s rq = Some ys" "bq \<noteq> rq" and p: "p \<noteq> 0"
    and m: "\<forall>n. malloc_ok s n" and rq: "ready_queue s = rq"
  shows "\<exists>t. thn (kqueueRemove bq p) (bnd (gets ready_queue) (\<lambda>rq. kqueueEnqueue rq p)) s = Ret () t \<and> queues_ok t \<and>
    kview t = (kview s)(bq \<mapsto> remove1 p xs, rq \<mapsto> ys @ [p]) \<and> queues_only s t"
proof -
  from kqueueRemove_view [OF q(1,2) p] obtain t1 where t1: "kqueueRemove bq p s = Ret () t1" "queues_ok t1"
    "kview t1 = (kview s)(bq \<mapsto> remove1 p xs)" "queues_only s t1" by blast
  note d = queues_onlyD [OF t1(4)]
  have "kview t1 rq = Some ys" "malloc_ok t1 (calls t1)" using t1(3) q m d by simp_all
  from kqueueEnqueue_view [OF t1(2) this(1) p this(2)] obtain t2 where t2: "kqueueEnqueue rq p t1 = Ret () t2"
    "queues_ok t2" "kview t2 = (kview t1)(rq \<mapsto> ys @ [p])" "queues_only t1 t2" by blast
  have "ready_queue t1 = rq" using d rq by simp
  with t1 t2 queues_only_trans [OF t1(4) t2(4)] show ?thesis
    by (intro exI [of _ t2]) (simp add: thn_app bnd_app gets_app)
qed

text \<open>The writer that has finished is ready again and finds the length in register 0.\<close>

lemma writer_done:
  assumes q: "queues_ok s" "kview s (blocked_queue s) = Some xs" "kview s (ready_queue s) = Some ys"
      "blocked_queue s \<noteq> ready_queue s"
    and w: "w \<noteq> 0" "pcbs s w = Some b" and m: "\<forall>n. malloc_ok s n"
  shows "\<exists>t. thn (upd_pcb w f) (bnd (gets blocked_queue) (\<lambda>bq. thn (kqueueRemove bq w)
        (bnd (gets ready_queue) (\<lambda>rq. kqueueEnqueue rq w)))) s = Ret () t \<and> queues_ok t \<and>
    kview t = (kview s)(blocked_queue s \<mapsto> remove1 w xs, ready_queue s \<mapsto> ys @ [w]) \<and>
    queues_only (s\<lparr>pcbs := (pcbs s)(w \<mapsto> f b)\<rparr>) t"
proof -
  let ?s = "s\<lparr>pcbs := (pcbs s)(w \<mapsto> f b)\<rparr>"
  have "queues_ok ?s" "kview ?s (blocked_queue s) = Some xs" "kview ?s (ready_queue s) = Some ys"
    "\<forall>n. malloc_ok ?s n" "ready_queue ?s = ready_queue s" using q m by simp_all
  from wake_up [OF this(1-3) q(4) w(1) this(4,5)] show ?thesis
    using w by (simp add: thn_app [of "upd_pcb w f"] upd_pcb_eval bnd_app [of "gets blocked_queue"] gets_app)
qed

text \<open>The terminal goes to the first of the waiting writers, or is free.\<close>

lemma next_writer_woken:
  assumes s: "queues_ok s" "\<forall>n. malloc_ok s n" and i: "0 \<le> i" "nat i < length (terminals s)"
    and q: "kview s q = Some ws" "kview s (blocked_queue s) = Some xs" "kview s (ready_queue s) = Some ys" "distinct [blocked_queue s, ready_queue s, q]"
    and live: "\<forall>p \<in> set ws. pcbs s p \<noteq> None"
  shows "\<exists>v. (bnd (kis_empty q) (\<lambda>e.
     if \<not> e
     then bnd (kqueueDequeue q) (\<lambda>next_writer.
       thn (upd_pcb next_writer (\<lambda>b. b\<lparr>pstate := PROC_READY\<rparr>))
      (bnd (gets blocked_queue) (\<lambda>bq.
       thn (kqueueRemove bq next_writer)
      (bnd (gets ready_queue) (\<lambda>rq. kqueueEnqueue rq next_writer)))))
     else upd_tty i (\<lambda>t. t\<lparr>in_use := False\<rparr>))) s = Ret () v \<and>
    kview v = (kview s)(ready_queue s \<mapsto> ys @ take 1 ws, q \<mapsto> tl ws, blocked_queue s \<mapsto> (case ws of [] \<Rightarrow> xs | p # _ \<Rightarrow> remove1 p xs)) \<and>
    terminals v = (if ws = [] then (terminals s)[nat i := (terminals s ! nat i)\<lparr>in_use := False\<rparr>] else terminals s) \<and>
    (\<forall>p. p \<notin> set ws \<longrightarrow> pcbs v p = pcbs s p)"
proof -
  have e: "kis_empty q s = Ret (ws = []) s" by (rule kis_empty_view [OF s(1) q(1)])
  show ?thesis
  proof (cases ws)
    case Nil
    then show ?thesis using e i q by (auto simp: bnd_app upd_tty_eval fun_upd_idem)
  next
    case (Cons p ps)
    from kqueueDequeue_view [OF s(1) q(1) [unfolded Cons]] obtain u where u: "kqueueDequeue q s = Ret p u"
      "queues_ok u" "kview u = (kview s)(q \<mapsto> ps)" "queues_only s u" by blast
    note du = queues_onlyD [OF u(4)]
    obtain c where c: "pcbs s p = Some c" using live Cons by auto
    have p0: "p \<noteq> 0" using view_facts [of "qh s" q ws] s(1) q(1) Cons by (auto simp: queues_ok_def)
    have qu: "kview u (blocked_queue u) = Some xs" "kview u (ready_queue u) = Some ys" "blocked_queue u \<noteq> ready_queue u" "pcbs u p = Some c"
      "\<forall>n. malloc_ok u n" using u(3) du s(2) q c by simp_all
    from writer_done [OF u(2) qu(1-3) p0 qu(4,5), of "\<lambda>b. b\<lparr>pstate := PROC_READY\<rparr>"] obtain v where
      v: "thn (upd_pcb p (\<lambda>b. b\<lparr>pstate := PROC_READY\<rparr>)) (bnd (gets blocked_queue) (\<lambda>bq. thn (kqueueRemove bq p)
          (bnd (gets ready_queue) (\<lambda>rq. kqueueEnqueue rq p)))) u = Ret () v"
        "kview v = (kview u)(blocked_queue u \<mapsto> remove1 p xs, ready_queue u \<mapsto> ys @ [p])"
        "queues_only (u\<lparr>pcbs := (pcbs u)(p \<mapsto> c\<lparr>pstate := PROC_READY\<rparr>)\<rparr>) v" by blast
    show ?thesis using Cons e u(1,3) v(1,2) du queues_onlyD [OF v(3)] q(4)
      by (intro exI [of _ v]) (auto simp: bnd_app fun_upd_twist)
  qed
qed

text \<open>
  C13. When the last line has gone out, the next transmit interrupt makes the writer ready with the number of bytes
  written as the result of its call, and passes the terminal to the first waiting writer; without one it is free.
\<close>

theorem TtyWrite_completes:
  assumes "queues_ok s" and "\<forall>n. malloc_ok s n" and "0 \<le> i" "nat i < length (terminals s)" "sint (code (ctx s)) = i"
    and "t = terminals s ! nat i" and "write_buffer_position t = write_buffer_len t" and "current_writer t = w" "w \<noteq> 0"
    and "pcbs s w = Some b" and "kview s (blocked_queue s) = Some xs" "kview s (ready_queue s) = Some ys"
    and "kview s (blocked_writers t) = Some ws" and "distinct [blocked_queue s, ready_queue s, blocked_writers t]"
    and "\<forall>p \<in> set ws. pcbs s p \<noteq> None \<and> p \<noteq> w"
  shows "\<exists>v. TtyTrapTransmitHandler s = Ret () v \<and>
    pcbs v w = Some (b\<lparr>pstate := PROC_READY, user_context := set_reg0 (word_of_int (write_buffer_len t)) (user_context b)\<rparr>) \<and>
    kview v = (kview s)(ready_queue s \<mapsto> ys @ w # take 1 ws, blocked_writers t \<mapsto> tl ws,
      blocked_queue s \<mapsto> (case ws of [] \<Rightarrow> remove1 w xs | p # _ \<Rightarrow> remove1 p (remove1 w xs))) \<and>
    write_buffer (terminals v ! nat i) = None \<and> current_writer (terminals v ! nat i) = 0 \<and>
    in_use (terminals v ! nat i) = (in_use t \<and> ws \<noteq> [])"
proof -
  let ?b = "b\<lparr>pstate := PROC_READY, user_context := set_reg0 (word_of_int (write_buffer_len t)) (user_context b)\<rparr>"
  define t2 where "t2 = t\<lparr>write_buffer := None, write_buffer_len := 0, write_buffer_position := 0, current_writer := 0\<rparr>"
  define s1 where "s1 = s\<lparr>terminals := (terminals s)[nat i := t2]\<rparr>"
  have q1: "queues_ok s1" "kview s1 (blocked_queue s1) = Some xs" "kview s1 (ready_queue s1) = Some ys"
    "blocked_queue s1 \<noteq> ready_queue s1" "pcbs s1 w = Some b" "\<forall>n. malloc_ok s1 n"
    using assms by (simp_all add: s1_def)
  from writer_done [OF q1(1-4) assms(9) q1(5,6), of "\<lambda>b. b\<lparr>pstate := PROC_READY,
      user_context := set_reg0 (word_of_int (write_buffer_len t)) (user_context b)\<rparr>"] obtain s2 where
    s2: "thn (upd_pcb w (\<lambda>b. b\<lparr>pstate := PROC_READY,
        user_context := set_reg0 (word_of_int (write_buffer_len t)) (user_context b)\<rparr>))
      (bnd (gets blocked_queue) (\<lambda>bq. thn (kqueueRemove bq w) (bnd (gets ready_queue) (\<lambda>rq. kqueueEnqueue rq w)))) s1 = Ret () s2"
      "queues_ok s2" "kview s2 = (kview s1)(blocked_queue s1 \<mapsto> remove1 w xs, ready_queue s1 \<mapsto> ys @ [w])"
      "queues_only (s1\<lparr>pcbs := (pcbs s1)(w \<mapsto> ?b)\<rparr>) s2" by blast
  note d2 = queues_onlyD [OF s2(4)]
  have ws2: "kview s2 (blocked_writers t) = Some ws" using s2(3) assms(13,14) by (simp add: s1_def)
  have run: "TtyTrapTransmitHandler s = bnd (kis_empty (blocked_writers t)) (\<lambda>e.
     if \<not> e
     then bnd (kqueueDequeue (blocked_writers t)) (\<lambda>next_writer.
       thn (upd_pcb next_writer (\<lambda>b. b\<lparr>pstate := PROC_READY\<rparr>))
      (bnd (gets blocked_queue) (\<lambda>bq.
       thn (kqueueRemove bq next_writer)
      (bnd (gets ready_queue) (\<lambda>rq. kqueueEnqueue rq next_writer)))))
     else upd_tty i (\<lambda>t. t\<lparr>in_use := False\<rparr>)) s2"
    using assms(3-5,7-9) assms(6) [symmetric] s2(1)
    by (simp add: TtyTrapTransmitHandler_def transmit_done_def bnd_app [of "gets f" for f] gets_app
        bnd_app [of "get_tty i"] get_tty_eval thn_app [of "upd_tty i f" for f] upd_tty_eval thn_Ret s1_def t2_def)
  have u: "ready_queue s2 = ready_queue s" "blocked_queue s2 = blocked_queue s" "malloc_ok s2 = malloc_ok s"
    "pcbs s2 = (pcbs s)(w \<mapsto> ?b)" "terminals s2 = (terminals s)[nat i := t2]"
    using d2 by (simp_all add: s1_def)
  have kv2: "kview s2 = (kview s)(blocked_queue s \<mapsto> remove1 w xs, ready_queue s \<mapsto> ys @ [w])"
    using s2(3) by (simp add: s1_def)
  have q2: "kview s2 (blocked_queue s2) = Some (remove1 w xs)" "kview s2 (ready_queue s2) = Some (ys @ [w])"
    "distinct [blocked_queue s2, ready_queue s2, blocked_writers t]" "\<forall>n. malloc_ok s2 n" "nat i < length (terminals s2)" "w \<notin> set ws"
    "\<forall>p \<in> set ws. pcbs s2 p \<noteq> None" using kv2 u assms(2,4,14,15) by auto
  from next_writer_woken [OF s2(2) q2(4) assms(3) q2(5) ws2 q2(1-3,7)] obtain v where
    v: "TtyTrapTransmitHandler s = Ret () v"
      "kview v = (kview s2)(ready_queue s2 \<mapsto> (ys @ [w]) @ take 1 ws, blocked_writers t \<mapsto> tl ws,
         blocked_queue s2 \<mapsto> (case ws of [] \<Rightarrow> remove1 w xs | p # _ \<Rightarrow> remove1 p (remove1 w xs)))"
      "terminals v = (if ws = [] then (terminals s2)[nat i := (terminals s2 ! nat i)\<lparr>in_use := False\<rparr>] else terminals s2)"
      "\<forall>p. p \<notin> set ws \<longrightarrow> pcbs v p = pcbs s2 p" unfolding run by blast
  have "kview v = (kview s)(ready_queue s \<mapsto> ys @ w # take 1 ws, blocked_writers t \<mapsto> tl ws,
      blocked_queue s \<mapsto> (case ws of [] \<Rightarrow> remove1 w xs | p # _ \<Rightarrow> remove1 p (remove1 w xs)))"
    using v(2) kv2 u assms(14) by (simp add: fun_upd_twist)
  then show ?thesis using v(1,3,4) u q2(6) assms(4) by (auto simp: t2_def)
qed

definition tty_sent :: terminal_t where
  "tty_sent = tty_ex\<lparr>in_use := True, write_buffer := Some [1, 2, 3], write_buffer_len := 3, write_buffer_position := 3, current_writer := 103\<rparr>"

theorem TtyWrite_completes_witness:
  "\<exists>v. TtyTrapTransmitHandler (kernel_ex\<lparr>terminals := replicate NUM_TERMINALS tty_sent\<rparr>) = Ret () v \<and>
     kview v 1 = Some [102, 103] \<and> \<not> in_use (terminals v ! 0)"
proof -
  let ?s = "kernel_ex\<lparr>terminals := replicate NUM_TERMINALS tty_sent\<rparr>"
  have "queues_ok ?s" by (simp add: queues_ok_def)
  from TtyWrite_completes [OF this, of 0 tty_sent 103 _ "[103]" "[102]" "[]"] show ?thesis
    by (auto simp: NUM_TERMINALS_def tty_sent_def tty_ex_def tty0_def uctx0_def qview_sys_def)
qed

end
