(* ===== verification/Terminal_Input.thy ===== *)
theory Terminal_Input
  imports Terminals
begin

text \<open>
  Terminal input: the receive interrupt (\<^verbatim>\<open>TtyTrapReceiveHandler\<close>) with the readers it serves, and \<^verbatim>\<open>TtyRead\<close>, as
  operations on a queue of bytes.
\<close>

section \<open>Input\<close>

text \<open>The bytes a terminal holds, the readers that wait for them, and the states the input handler works on.\<close>

definition pending :: "kstate \<Rightarrow> int \<Rightarrow> byte list" where
  "pending s i = take (nat (read_buffer_len (terminals s ! nat i))) (read_buffer (terminals s ! nat i))"

definition readers :: "kstate \<Rightarrow> int \<Rightarrow> addr list" where
  "readers s i = the (kview s (blocked_readers (terminals s ! nat i)))"

definition input_ok :: "kstate \<Rightarrow> int \<Rightarrow> bool" where
  "input_ok s i \<longleftrightarrow> queues_ok s \<and> (\<forall>n. malloc_ok s n) \<and> 0 \<le> i \<and> nat i < length (terminals s) \<and>
     tty_ok (terminals s ! nat i) \<and>
     list_all (\<lambda>q. kview s q \<noteq> None) [blocked_queue s, ready_queue s, blocked_readers (terminals s ! nat i)] \<and>
     distinct [blocked_queue s, ready_queue s, blocked_readers (terminals s ! nat i)]"

text \<open>Hand the bytes to the readers in order: each takes what it asked for as long as there is input.\<close>

fun hand_out :: "byte list \<Rightarrow> (addr \<times> int) list \<Rightarrow> (addr \<times> byte list) list \<times> byte list" where
  "hand_out bs [] = ([], bs)"
| "hand_out bs ((r, n) # rs) = (if bs = [] then ([], [])
     else let (gs, rest) = hand_out (drop (nat n) bs) rs in ((r, take (nat n) bs) # gs, rest))"

lemma hand_out_bytes: "hand_out bs rs = (gs, rest) \<Longrightarrow> concat (map snd gs) @ rest = bs"
  by (induction bs rs arbitrary: gs rest rule: hand_out.induct) (auto split: if_splits prod.splits)

lemma hand_out_prefix: "hand_out bs rs = (gs, rest) \<Longrightarrow> map fst gs = take (length gs) (map fst rs)"
  by (induction bs rs arbitrary: gs rest rule: hand_out.induct) (auto split: if_splits prod.splits)

lemma view_length: "qwf h \<Longrightarrow> qview h q = Some xs \<Longrightarrow> length xs \<le> limit h"
proof -
  assume "qwf h" and x: "qview h q = Some xs"
  then obtain R where "qrepR h (qview h) R" by (auto simp: qwf_def qrep_def)
  from qrepR_lookup [OF this x] obtain qu where ok: "qok (nodes h) (limit h) qu (R q) xs" by blast
  then have "length (R q) = length xs" by (simp add: qok_def)
  with qok_length [OF ok] show ?thesis by simp
qed

definition given :: "byte list \<Rightarrow> PCB \<Rightarrow> PCB" where
  "given g b = b\<lparr>tty_kernel_read_buf := Some g, kernel_read_size := int (length g),
     user_context := set_reg0 (word_of_int (int (length g))) (user_context b), pstate := PROC_READY\<rparr>"

lemma drop_input_pending:
  assumes i: "0 \<le> i" "nat i < length (terminals s)" and t: "t = terminals s ! nat i" "tty_ok t"
    and n: "0 < n" "n \<le> read_buffer_len t"
  shows "\<exists>t'. drop_input i t n s = Ret () (s\<lparr>terminals := (terminals s)[nat i := t']\<rparr>) \<and> tty_ok t' \<and>
    blocked_readers t' = blocked_readers t \<and>
    take (nat (read_buffer_len t')) (read_buffer t') = drop (nat n) (take (nat (read_buffer_len t)) (read_buffer t))"
proof (cases "n < read_buffer_len t")
  case True
  let ?t = "t\<lparr>read_buffer := shift_buffer (nat n) (nat (read_buffer_len t)) (read_buffer t), read_buffer_len := read_buffer_len t - n\<rparr>"
  have "tty_ok ?t"
    using tty_ok_consume [OF tty_ok_shift [OF t(2), of n], of n] n by simp
  moreover have "take (nat (read_buffer_len ?t)) (read_buffer ?t) = drop (nat n) (take (nat (read_buffer_len t)) (read_buffer t))"
  proof -
    have "nat (read_buffer_len t) \<le> length (read_buffer t)" using t(2) by (simp add: tty_ok_def nat_le_iff)
    then show ?thesis using n by (simp add: shift_buffer_def nat_diff_distrib drop_take)
  qed
  ultimately show ?thesis using True i t(1) n
    by (intro exI [of _ ?t]) (simp add: drop_input_def upd_tty_eval)
next
  case False
  let ?t = "t\<lparr>read_buffer_len := 0\<rparr>"
  have "tty_ok ?t" using t(2) by (auto simp: tty_ok_def)
  with False i t n show ?thesis by (intro exI [of _ ?t]) (simp add: drop_input_def upd_tty_eval tty_ok_def)
qed

lemma wake_reader_view:
  assumes q: "queues_ok s" "kview s (blocked_queue s) = Some xs" "kview s (ready_queue s) = Some ys"
      "blocked_queue s \<noteq> ready_queue s"
    and r: "r \<noteq> 0" "pcbs s r = Some b" and m: "\<forall>n. malloc_ok s n"
  shows "\<exists>t. wake_reader r s = Ret () t \<and> queues_ok t \<and>
    kview t = (kview s)(blocked_queue s \<mapsto> remove1 r xs, ready_queue s \<mapsto> ys @ [r]) \<and>
    queues_only (s\<lparr>pcbs := (pcbs s)(r \<mapsto> b\<lparr>pstate := PROC_READY\<rparr>)\<rparr>) t"
proof -
  from kqueueRemove_view [OF q(1,2) r(1)] obtain t1 where t1: "kqueueRemove (blocked_queue s) r s = Ret () t1"
    "queues_ok t1" "kview t1 = (kview s)(blocked_queue s \<mapsto> remove1 r xs)" "queues_only s t1" by blast
  note d = queues_onlyD [OF t1(4)]
  let ?t = "t1\<lparr>pcbs := (pcbs s)(r \<mapsto> b\<lparr>pstate := PROC_READY\<rparr>)\<rparr>"
  have t: "queues_ok ?t" "kview ?t (ready_queue s) = Some ys" "malloc_ok ?t (calls ?t)"
    using t1 q m d by simp_all
  from kqueueEnqueue_view [OF t(1,2) r(1) t(3)] obtain t2 where
    t2: "kqueueEnqueue (ready_queue s) r ?t = Ret () t2" "queues_ok t2"
      "kview t2 = (kview ?t)(ready_queue s \<mapsto> ys @ [r])" "queues_only ?t t2" by blast
  have "queues_only (s\<lparr>pcbs := (pcbs s)(r \<mapsto> b\<lparr>pstate := PROC_READY\<rparr>)\<rparr>) t2"
    by (rule queues_only_trans [OF queues_only_pcbs [OF t1(4)] t2(4)])
  with t1 t2 d r show ?thesis
    by (intro exI [of _ t2]) (simp add: wake_reader_def bnd_app thn_app gets_app upd_pcb_eval)
qed

lemma give_input_ok:
  assumes "malloc_ok s (calls s)" "next_addr s \<noteq> 0" "r \<noteq> 0" "pcbs s r = Some b"
  shows "give_input r n bs s = Ret n (s\<lparr>next_addr := Suc (next_addr s), calls := Suc (calls s),
    pcbs := (pcbs s)(r \<mapsto> b\<lparr>tty_kernel_read_buf := Some (take (nat n) bs), kernel_read_size := n,
      user_context := set_reg0 (word_of_int n) (user_context b)\<rparr>)\<rparr>)"
  using assms by (simp add: give_input_def malloc_def bnd_app thn_app upd_pcb_eval ret_app)

lemma serve_one:
  assumes ok: "input_ok s i" and t: "t = terminals s ! nat i" and rd: "readers s i = r # rs" and pe: "pending s i \<noteq> []"
    and b: "pcbs s r = Some b" "0 < tty_read_len b"
  shows "\<exists>v. bnd (kqueueDequeue (blocked_readers t)) (\<lambda>r. thn (serve_reader i t r) k) s = k v \<and> input_ok v i \<and>
    blocked_readers (terminals v ! nat i) = blocked_readers t \<and>
    readers v i = rs \<and> pending v i = drop (nat (tty_read_len b)) (pending s i) \<and>
    ready (sched_of v) = ready (sched_of s) @ [r] \<and> blocked (sched_of v) = remove1 r (blocked (sched_of s)) \<and>
    pcbs v = (pcbs s)(r \<mapsto> given (take (nat (tty_read_len b)) (pending s i)) b)"
proof -
  let ?q = "blocked_readers t" and ?bq = "blocked_queue s" and ?rq = "ready_queue s"
  from ok obtain xs ys where q: "kview s ?bq = Some xs" "kview s ?rq = Some ys" "kview s ?q = Some (r # rs)"
    using rd t by (auto simp: input_ok_def readers_def)
  have d: "distinct [?bq, ?rq, ?q]" and i: "0 \<le> i" "nat i < length (terminals s)" and ty: "tty_ok t"
    and m: "\<forall>n. malloc_ok s n" and qo: "queues_ok s" using ok t by (simp_all add: input_ok_def)
  have r0: "r \<noteq> 0" using view_facts [of "qh s" ?q "r # rs"] qo q(3) by (auto simp: queues_ok_def)
  define n where "n = (if tty_read_len b < read_buffer_len t then tty_read_len b else read_buffer_len t)"
  have len: "0 < read_buffer_len t" "read_buffer_len t \<le> int (length (read_buffer t))"
    using pe ty t by (auto simp: pending_def tty_ok_def)
  then have n: "0 < n" "n \<le> read_buffer_len t" using b by (auto simp: n_def)
  have g: "take (nat n) (read_buffer t) = take (nat (tty_read_len b)) (pending s i)"
    using t len by (auto simp: n_def pending_def min_def nat_le_eq_zle)
  have lg: "int (length (take (nat n) (read_buffer t))) = n" using n len by simp
  have dr: "drop (nat n) (pending s i) = drop (nat (tty_read_len b)) (pending s i)"
    using t len by (auto simp: n_def pending_def)
  from kqueueDequeue_view [OF qo q(3)] obtain s1 where s1: "kqueueDequeue ?q s = Ret r s1" "queues_ok s1"
    "kview s1 = (kview s)(?q \<mapsto> rs)" "queues_only s s1" by blast
  note d1 = queues_onlyD [OF s1(4)]
  let ?b = "b\<lparr>tty_kernel_read_buf := Some (take (nat n) (read_buffer t)), kernel_read_size := n,
      user_context := set_reg0 (word_of_int n) (user_context b)\<rparr>"
  define s2 where "s2 = s1\<lparr>next_addr := Suc (next_addr s1), calls := Suc (calls s1), pcbs := (pcbs s)(r \<mapsto> ?b)\<rparr>"
  have s2: "give_input r n (read_buffer t) s1 = Ret n s2" "queues_ok s2" "kview s2 = (kview s)(?q \<mapsto> rs)"
    using give_input_ok [of s1 r b n "read_buffer t"] s1(2,3) d1 m r0 b by (simp_all add: queues_ok_def s2_def)
  have e2: "terminals s2 = terminals s" "malloc_ok s2 = malloc_ok s" "blocked_queue s2 = ?bq" "ready_queue s2 = ?rq"
    using d1 by (simp_all add: s2_def)
  from drop_input_pending [of i s2 t n] i e2(1) t ty n obtain t' where
    t': "drop_input i t n s2 = Ret () (s2\<lparr>terminals := (terminals s)[nat i := t']\<rparr>)" "tty_ok t'" "blocked_readers t' = ?q"
      "take (nat (read_buffer_len t')) (read_buffer t') = drop (nat n) (pending s i)"
    by (auto simp: pending_def)
  define s3 where "s3 = s2\<lparr>terminals := (terminals s)[nat i := t']\<rparr>"
  have s3: "queues_ok s3" "kview s3 (blocked_queue s3) = Some xs" "kview s3 (ready_queue s3) = Some ys"
    "blocked_queue s3 \<noteq> ready_queue s3" "pcbs s3 r = Some ?b" "\<forall>n. malloc_ok s3 n"
    using s2 e2 q d m by (simp_all add: s3_def) (simp add: s2_def)
  from wake_reader_view [OF s3(1-4) r0 s3(5,6)] obtain v where v: "wake_reader r s3 = Ret () v" "queues_ok v"
    "kview v = (kview s3)(blocked_queue s3 \<mapsto> remove1 r xs, ready_queue s3 \<mapsto> ys @ [r])"
    "queues_only (s3\<lparr>pcbs := (pcbs s3)(r \<mapsto> ?b\<lparr>pstate := PROC_READY\<rparr>)\<rparr>) v" by blast
  note dv = queues_onlyD [OF v(4)]
  have run: "serve_reader i t r s1 = Ret () v"
    unfolding serve_reader_def using b(1) r0 d1 s2(1) t'(1) v(1) n_def
    by (simp add: bnd_app get_pcb_eval thn_app s3_def)
  have e: "terminals v ! nat i = t'" "blocked_queue v = ?bq" "ready_queue v = ?rq" "malloc_ok v = malloc_ok s"
    "length (terminals v) = length (terminals s)"
    "kview v = (kview s)(?q \<mapsto> rs, ?bq \<mapsto> remove1 r xs, ?rq \<mapsto> ys @ [r])"
    "pcbs v = (pcbs s)(r \<mapsto> ?b\<lparr>pstate := PROC_READY\<rparr>)"
    using dv e2 i s2(3) v(3) by (simp_all add: s3_def) (simp add: s2_def)
  have "input_ok v i" using v(2) e t' d m i by (simp add: input_ok_def)
  moreover have "?b\<lparr>pstate := PROC_READY\<rparr> = given (take (nat (tty_read_len b)) (pending s i)) b"
    using lg g by (simp add: given_def)
  moreover have "pending v i = drop (nat (tty_read_len b)) (pending s i)"
    using t'(4) dr e(1) by (simp add: pending_def)
  ultimately show ?thesis using s1(1) run e t'(3) d q
    by (intro exI [of _ v]) (simp add: bnd_app thn_app readers_def sched_of_def)
qed

definition wants :: "kstate \<Rightarrow> int \<Rightarrow> (addr \<times> int) list" where
  "wants s i = map (\<lambda>r. (r, tty_read_len (the (pcbs s r)))) (readers s i)"

lemma wants_fst [simp]: "map fst (wants s i) = readers s i"
  by (simp add: wants_def comp_def)

lemma serve_all:
  assumes "input_ok s i" and "\<forall>r \<in> set (readers s i). \<exists>b. pcbs s r = Some b \<and> 0 < tty_read_len b"
    and "distinct (readers s i)" and "length (readers s i) < fuel" and "hand_out (pending s i) (wants s i) = (gs, rest)"
  shows "\<exists>v. serve_readers fuel i s = Ret () v \<and> input_ok v i \<and> pending v i = rest \<and>
    readers v i = drop (length gs) (readers s i) \<and> ready (sched_of v) = ready (sched_of s) @ map fst gs \<and>
    blocked (sched_of v) = foldl (\<lambda>xs r. remove1 r xs) (blocked (sched_of s)) (map fst gs) \<and>
    (\<forall>(r, g) \<in> set gs. pcbs v r = map_option (given g) (pcbs s r)) \<and>
    (\<forall>r. r \<notin> fst ` set gs \<longrightarrow> pcbs v r = pcbs s r)"
  using assms
proof (induction "readers s i" arbitrary: s fuel gs)
  case Nil
  from Nil.prems(4) obtain k where k: "fuel = Suc k" by (cases fuel) auto
  have r: "kview s (blocked_readers (terminals s ! nat i)) = Some []" "queues_ok s" "get_tty i s = Ret (terminals s ! nat i) s"
    using Nil.hyps Nil.prems(1) by (auto simp: readers_def input_ok_def get_tty_eval)
  then have "serve_readers fuel i s = Ret () s"
    using k kis_empty_view [of s "blocked_readers (terminals s ! nat i)" "[]"] by (simp add: bnd_app ret_app)
  with Nil show ?case by (simp add: wants_def)
next
  case (Cons r rs)
  let ?t = "terminals s ! nat i"
  have rd: "readers s i = r # rs" using Cons.hyps(2) by simp
  from Cons.prems(4) rd obtain k where k: "fuel = Suc k" "length rs < k" by (cases fuel) auto
  have ok: "queues_ok s" "get_tty i s = Ret ?t s" "kview s (blocked_readers ?t) = Some (r # rs)"
    using Cons.prems(1) rd by (auto simp: input_ok_def readers_def get_tty_eval)
  note e = kis_empty_view [OF ok(1,3)]
  show ?case
  proof (cases "pending s i = []")
    case True
    then have "\<not> 0 < read_buffer_len ?t" using Cons.prems(1) by (auto simp: pending_def input_ok_def tty_ok_def)
    then have "serve_readers fuel i s = Ret () s" using k ok(2) e by (simp add: bnd_app ret_app)
    with True Cons.prems rd show ?thesis by (simp add: wants_def split: if_splits)
  next
    case False
    then have pos: "0 < read_buffer_len ?t" by (auto simp: pending_def)
    obtain b where b: "pcbs s r = Some b" "0 < tty_read_len b" using Cons.prems(2) rd by auto
    from serve_one [OF Cons.prems(1) refl rd False b, of "serve_readers k i"] obtain v where
      v: "bnd (kqueueDequeue (blocked_readers ?t)) (\<lambda>r. thn (serve_reader i ?t r) (serve_readers k i)) s = serve_readers k i v"
        "input_ok v i" "readers v i = rs" "pending v i = drop (nat (tty_read_len b)) (pending s i)"
        "ready (sched_of v) = ready (sched_of s) @ [r]" "blocked (sched_of v) = remove1 r (blocked (sched_of s))"
        "pcbs v = (pcbs s)(r \<mapsto> given (take (nat (tty_read_len b)) (pending s i)) b)" by blast
    have nr: "r \<notin> set rs" "distinct rs" using Cons.prems(3) rd by auto
    have w: "wants s i = (r, tty_read_len b) # wants v i"
      using rd v(3,7) b nr by (auto simp: wants_def)
    obtain gs' where gs: "gs = (r, take (nat (tty_read_len b)) (pending s i)) # gs'" "hand_out (pending v i) (wants v i) = (gs', rest)"
      using Cons.prems(5) False w v(4) by (auto split: prod.splits)
    have run: "serve_readers fuel i s = serve_readers k i v"
      using k(1) ok(2) e pos v(1) by (simp add: bnd_app [of "get_tty i"] bnd_app [of "kis_empty q" for q])
    have ih: "\<forall>q \<in> set (readers v i). \<exists>b. pcbs v q = Some b \<and> 0 < tty_read_len b"
      using Cons.prems(2) rd v(3,7) nr by auto
    have "distinct (readers v i)" "length (readers v i) < k" using nr(2) k(2) v(3) by simp_all
    from Cons.hyps(1) [OF v(3) [symmetric] v(2) ih this gs(2)] obtain u where
      u: "serve_readers k i v = Ret () u" "input_ok u i" "pending u i = rest" "readers u i = drop (length gs') (readers v i)"
        "ready (sched_of u) = ready (sched_of v) @ map fst gs'"
        "blocked (sched_of u) = foldl (\<lambda>xs r. remove1 r xs) (blocked (sched_of v)) (map fst gs')"
        "\<forall>(q, g) \<in> set gs'. pcbs u q = map_option (given g) (pcbs v q)" "\<forall>q. q \<notin> fst ` set gs' \<longrightarrow> pcbs u q = pcbs v q"
      by (elim exE conjE) (rule that)
    have "map fst gs' = take (length gs') rs" using hand_out_prefix [OF gs(2)] v(3) by simp
    then have "r \<notin> set (map fst gs')" using nr(1) set_take_subset [of "length gs'" rs] by auto
    then have nin: "r \<notin> fst ` set gs'" by simp
    have a1: "pcbs u q = map_option (given g) (pcbs s q)" if "(q, g) \<in> set gs'" for q g
    proof -
      have "q \<noteq> r" using that nin by force
      moreover have "pcbs u q = map_option (given g) (pcbs v q)" using u(7) that by fast
      ultimately show ?thesis using v(7) by simp
    qed
    have a2: "pcbs u r = Some (given (take (nat (tty_read_len b)) (pending s i)) b)" using u(8) nin v(7) by simp
    have a3: "pcbs u q = pcbs s q" if "q \<notin> fst ` set gs'" "q \<noteq> r" for q using u(8) v(7) that by simp
    show ?thesis
      using run u(1-6) v(3,5,6) gs(1) rd b a1 a2 a3 by (intro exI [of _ u]) auto
  qed
qed

lemma put_input_pending:
  assumes "tty_ok t" and "t' = t\<lparr>read_buffer := put_input (nat (read_buffer_len t)) (take (nat (int TERMINAL_MAX_LINE - read_buffer_len t)) line)
      (read_buffer t), read_buffer_len := read_buffer_len t + int (length (take (nat (int TERMINAL_MAX_LINE - read_buffer_len t)) line))\<rparr>"
  shows "take (nat (read_buffer_len t')) (read_buffer t') =
    take TERMINAL_MAX_LINE (take (nat (read_buffer_len t)) (read_buffer t) @ line)"
proof -
  from assms(1) obtain n where n: "read_buffer_len t = int n" "n \<le> length (read_buffer t)"
      "length (read_buffer t) = TERMINAL_MAX_LINE"
    by (auto simp: tty_ok_def elim!: nonneg_int_cases)
  have d: "nat (int TERMINAL_MAX_LINE - int n) = TERMINAL_MAX_LINE - n" by simp
  define ins where "ins = take (TERMINAL_MAX_LINE - n) line"
  have "take (n + length ins) (put_input n ins (read_buffer t)) = take n (read_buffer t) @ ins"
    using n(2) by (simp add: put_input_def)
  moreover have "take TERMINAL_MAX_LINE (take n (read_buffer t) @ line) = take n (read_buffer t) @ ins"
    using n(2,3) by (simp add: ins_def)
  moreover have "nat (int n + int (length ins)) = n + length ins" by simp
  ultimately show ?thesis unfolding assms(2) n(1) d ins_def [symmetric] by simp
qed

text \<open>
  C12. Input is delivered in order: the receive interrupt appends the line to the bytes that wait, up to the \<^verbatim>\<open>TERMINAL_MAX_LINE\<close> bytes the buffer
  holds (what is beyond them is dropped), and hands the buffer to the blocked readers first come first served, each
  getting as much as it asked for while there is input. What the readers got, in order, followed by what stays in the buffer, is
  the old contents followed by the line, cut at \<^verbatim>\<open>TERMINAL_MAX_LINE\<close>; the readers served are ready with the length as their result, the others still wait.
\<close>

theorem receive_delivers_in_order:
  assumes "input_ok s i" and "sint (code (ctx s)) = i" and "distinct (readers s i)"
    and "\<forall>r \<in> set (readers s i). \<exists>b. pcbs s r = Some b \<and> 0 < tty_read_len b"
    and "bs = take TERMINAL_MAX_LINE (pending s i @ line)" and "hand_out bs (wants s i) = (gs, rest)"
  shows "\<exists>v. TtyTrapReceiveHandler line s = Ret () v \<and> concat (map snd gs) @ pending v i = bs \<and>
    readers v i = drop (length gs) (readers s i) \<and> map fst gs = take (length gs) (readers s i) \<and>
    ready (sched_of v) = ready (sched_of s) @ map fst gs \<and>
    (\<forall>(r, g) \<in> set gs. pcbs v r = map_option (given g) (pcbs s r)) \<and>
    (\<forall>r. r \<notin> fst ` set gs \<longrightarrow> pcbs v r = pcbs s r)"
proof -
  let ?t = "terminals s ! nat i"
  let ?in = "take (nat (int TERMINAL_MAX_LINE - read_buffer_len ?t)) line"
  let ?n = "nat (read_buffer_len ?t)"
  let ?t' = "?t\<lparr>read_buffer := put_input ?n ?in (read_buffer ?t), read_buffer_len := read_buffer_len ?t + int (length ?in)\<rparr>"
  define s1 where "s1 = s\<lparr>terminals := (terminals s)[nat i := ?t']\<rparr>"
  have i: "0 \<le> i" "nat i < length (terminals s)" and ty: "tty_ok ?t" using assms(1) by (simp_all add: input_ok_def)
  have ti: "terminals s1 ! nat i = ?t'" using i by (simp add: s1_def)
  have p1: "pending s1 i = bs"
    using put_input_pending [OF ty refl, of line] ti by (simp only: pending_def assms(5))
  have same: "readers s1 i = readers s i" "wants s1 i = wants s i" "sched_of s1 = sched_of s" "pcbs s1 = pcbs s" "limit (qh s1) = limit (qh s)"
    using ti by (simp_all add: readers_def wants_def sched_of_def) (simp_all add: s1_def)
  have ok1: "input_ok s1 i"
    using assms(1) ti tty_ok_receive [OF ty] by (simp add: input_ok_def) (simp add: s1_def)
  have "kview s (blocked_readers ?t) = Some (readers s i)" using assms(1) by (auto simp: input_ok_def readers_def)
  then have fuel: "length (readers s1 i) < Suc (limit (qh s))"
    using view_length [of "qh s"] assms(1) same by (auto simp: input_ok_def queues_ok_def less_Suc_eq_le)
  from serve_all [OF ok1 _ _ fuel, of gs rest] assms(3,4,6) same p1 obtain v where
    v: "serve_readers (Suc (limit (qh s))) i s1 = Ret () v" "pending v i = rest" "readers v i = drop (length gs) (readers s i)"
      "ready (sched_of v) = ready (sched_of s) @ map fst gs" "\<forall>(r, g) \<in> set gs. pcbs v r = map_option (given g) (pcbs s r)"
      "\<forall>r. r \<notin> fst ` set gs \<longrightarrow> pcbs v r = pcbs s r" by auto
  have "TtyTrapReceiveHandler line s = Ret () v"
    using assms(2) i v(1) same(5) by (simp add: TtyTrapReceiveHandler_def bnd_app gets_app get_tty_eval thn_app upd_tty_eval Let_def
      s1_def del: serve_readers.simps)
  moreover have "map fst gs = take (length gs) (readers s i)"
    using hand_out_prefix [OF assms(6)] by simp
  ultimately show ?thesis using v hand_out_bytes [OF assms(6)] by blast
qed

text \<open>Two processes wait for terminal 0: 103 for two bytes, then 102 for five.\<close>

definition qheap_rd :: qheap where
  "qheap_rd = \<lparr>nodes = [21 \<mapsto> \<lparr>node_process = 103, node_next = 22, node_prev = 0\<rparr>, 22 \<mapsto> \<lparr>node_process = 102, node_next = 0, node_prev = 21\<rparr>,
                       23 \<mapsto> \<lparr>node_process = 103, node_next = 24, node_prev = 0\<rparr>, 24 \<mapsto> \<lparr>node_process = 102, node_next = 0, node_prev = 23\<rparr>],
     queues = [1 \<mapsto> \<lparr>q_head = 0, q_tail = 0\<rparr>, 2 \<mapsto> \<lparr>q_head = 21, q_tail = 22\<rparr>, 6 \<mapsto> \<lparr>q_head = 23, q_tail = 24\<rparr>], limit = 50\<rparr>"

lemma qheap_rd_wf: "qwf qheap_rd" "qview qheap_rd = [1 \<mapsto> [], 2 \<mapsto> [103, 102], 6 \<mapsto> [103, 102]]" "limit qheap_rd = 50"
proof -
  have "qrepR qheap_rd [1 \<mapsto> [], 2 \<mapsto> [103, 102], 6 \<mapsto> [103, 102]] (\<lambda>q. if q = 2 then [21, 22] else if q = 6 then [23, 24] else [])"
    unfolding qrepR_def
    by (intro conjI allI impI) (auto simp: qheap_rd_def qok_def split: if_splits)
  then have "qrep qheap_rd [1 \<mapsto> [], 2 \<mapsto> [103, 102], 6 \<mapsto> [103, 102]]" unfolding qrep_def by blast
  then show "qwf qheap_rd" "qview qheap_rd = [1 \<mapsto> [], 2 \<mapsto> [103, 102], 6 \<mapsto> [103, 102]]" by (simp_all add: qrep_iff)
qed (simp add: qheap_rd_def)

definition kernel_readers :: kstate where
  "kernel_readers = kernel_ex\<lparr>qh := qheap_rd, pcbs := pcbs_ex(102 \<mapsto> (pcb_ex 3 302)\<lparr>pstate := PROC_BLOCKED, tty_read_len := 5\<rparr>,
     103 \<mapsto> (pcb_ex 4 303)\<lparr>pstate := PROC_BLOCKED, tty_read_len := 2\<rparr>)\<rparr>"

theorem receive_delivers_in_order_witness:
  "\<exists>v b c. TtyTrapReceiveHandler [104, 105, 106] kernel_readers = Ret () v \<and> pcbs v 103 = Some b \<and> tty_kernel_read_buf b = Some [104, 105] \<and>
     kernel_read_size b = 2 \<and> pcbs v 102 = Some c \<and> tty_kernel_read_buf c = Some [106] \<and> kernel_read_size c = 1 \<and>
     ready (sched_of v) = [103, 102] \<and> pending v 0 = []"
proof -
  let ?s = kernel_readers
  have f: "qh ?s = qheap_rd" "terminals ?s = replicate NUM_TERMINALS tty_ex" "blocked_queue ?s = 2" "ready_queue ?s = 1" "next_addr ?s = 1000"
    "malloc_ok ?s = (\<lambda>_. True)" "ctx ?s = uctx0" by (simp_all add: kernel_readers_def)
  have p: "pcbs ?s 103 = Some ((pcb_ex 4 303)\<lparr>pstate := PROC_BLOCKED, tty_read_len := 2\<rparr>)"
    "pcbs ?s 102 = Some ((pcb_ex 3 302)\<lparr>pstate := PROC_BLOCKED, tty_read_len := 5\<rparr>)" by (simp_all add: kernel_readers_def)
  have ok: "input_ok ?s 0"
    by (simp add: input_ok_def queues_ok_def f qheap_rd_wf tty_ok_def tty_ex_def tty0_def NUM_TERMINALS_def)
  have rd: "readers ?s 0 = [103, 102]" by (simp add: readers_def f qheap_rd_wf NUM_TERMINALS_def tty_ex_def)
  have pe: "pending ?s 0 = []" by (simp add: pending_def f NUM_TERMINALS_def tty_ex_def tty0_def)
  have rq: "ready (sched_of ?s) = []" by (simp add: sched_of_def f qheap_rd_wf)
  have code: "sint (code (ctx ?s)) = 0" by (simp add: f uctx0_def)
  have wt: "wants ?s 0 = [(103, 2), (102, 5)]" by (simp add: wants_def rd p)
  have ho: "hand_out [104, 105, 106] (wants ?s 0) = ([(103, [104, 105]), (102, [106])], [])" by (simp add: wt)
  have live: "\<forall>r \<in> set (readers ?s 0). \<exists>b. pcbs ?s r = Some b \<and> 0 < tty_read_len b" by (simp add: rd p)
  have bs: "[104, 105, 106] = take TERMINAL_MAX_LINE (pending ?s 0 @ [104, 105, 106])" by (simp add: pe TERMINAL_MAX_LINE_def)
  have "distinct (readers ?s 0)" by (simp add: rd)
  from receive_delivers_in_order [OF ok code this live bs ho] obtain v where
    v: "TtyTrapReceiveHandler [104, 105, 106] ?s = Ret () v" "concat [[104, 105], [106]] @ pending v 0 = [104, 105, 106]"
      "ready (sched_of v) = [103, 102]" "pcbs v 103 = map_option (given [104, 105]) (pcbs ?s 103)" "pcbs v 102 = map_option (given [106]) (pcbs ?s 102)"
    by (auto simp: rq)
  then show ?thesis by (auto simp: p given_def)
qed

text \<open>
  C15. \<^verbatim>\<open>TtyRead\<close> on a terminal with input takes as many bytes as the caller asked for, or all there are, from the front of the
  buffer, returns their number and leaves the rest in place.
\<close>

theorem TtyRead_consumes:
  assumes "input_ok s i" and "i < int NUM_TERMINALS" and "buf \<noteq> 0" "0 < len" and "pending s i \<noteq> []"
    and "current_process s = p" "p \<noteq> 0" "pcbs s p = Some b" and "g = take (nat len) (pending s i)"
  shows "\<exists>t. TtyRead i buf len s = Ret (int (length g)) t \<and> pending t i = drop (nat len) (pending s i) \<and>
    pcbs t = (pcbs s)(p \<mapsto> b\<lparr>tty_kernel_read_buf := Some g, kernel_read_size := int (length g)\<rparr>)"
proof -
  let ?t = "terminals s ! nat i"
  have i: "0 \<le> i" "nat i < length (terminals s)" and ty: "tty_ok ?t" and m: "malloc_ok s (calls s)" "next_addr s \<noteq> 0"
    using assms(1) by (auto simp: input_ok_def queues_ok_def)
  have "0 \<le> read_buffer_len ?t" using ty by (simp add: tty_ok_def)
  then obtain k where k1: "read_buffer_len ?t = int k" by (rule nonneg_int_cases)
  then have k: "read_buffer_len ?t = int k" "k \<le> length (read_buffer ?t)" "0 < k"
    using ty assms(5) by (auto simp: tty_ok_def pending_def intro: gr0I)
  obtain l where l: "len = int l" "0 < l" using assms(4) by (metis zero_less_imp_eq_int)
  define n where "n = min k l"
  have n: "(if int k < int l then int k else int l) = int n" by (simp add: n_def)
  have g: "g = take n (read_buffer ?t)" "length g = n" using k l by (auto simp: assms(9) pending_def n_def min.commute)
  define s1 where "s1 = s\<lparr>next_addr := Suc (next_addr s), calls := Suc (calls s),
    pcbs := (pcbs s)(p \<mapsto> b\<lparr>tty_kernel_read_buf := Some g, kernel_read_size := int (length g)\<rparr>)\<rparr>"
  let ?t' = "if n < k then ?t\<lparr>read_buffer := shift_buffer n k (read_buffer ?t), read_buffer_len := int k - int n\<rparr>
     else ?t\<lparr>read_buffer_len := int k - int n\<rparr>"
  have "TtyRead_now i (int l) ?t p s = Ret (int n) (s1\<lparr>terminals := (terminals s)[nat i := ?t']\<rparr>)"
    unfolding TtyRead_now_def k(1) n Let_def using i m g k assms(7,8)
    by (simp add: bnd_app malloc_def thn_app upd_pcb_eval upd_tty_eval ret_app s1_def)
  then have run: "TtyRead i buf len s = Ret (int n) (s1\<lparr>terminals := (terminals s)[nat i := ?t']\<rparr>)"
    using assms(2-4,6) i k l by (simp add: TtyRead_def bnd_app get_tty_eval gets_app)
  have "take (k - n) (read_buffer ?t') = drop n (take k (read_buffer ?t))"
  proof (cases "n < k")
    case True
    then show ?thesis using k(2) by (simp add: shift_buffer_def drop_take)
  next
    case False
    then show ?thesis by (simp add: n_def)
  qed
  moreover have "nat (read_buffer_len ?t') = k - n" by auto
  moreover have "drop n (take k (read_buffer ?t)) = drop l (take k (read_buffer ?t))" by (simp add: n_def min_def)
  ultimately show ?thesis using run g i k(1) l(1)
    by (intro exI [of _ "s1\<lparr>terminals := (terminals s)[nat i := ?t']\<rparr>"]) (simp add: pending_def s1_def)
qed

definition tty_in :: terminal_t where
  "tty_in = tty_ex\<lparr>read_buffer := [104, 105] @ replicate 1022 0, read_buffer_len := 2\<rparr>"

theorem TtyRead_consumes_witness:
  "\<exists>t. TtyRead 0 0x100000 1 (kernel_ex\<lparr>terminals := replicate NUM_TERMINALS tty_in\<rparr>) = Ret 1 t \<and> pending t 0 = [105]"
proof -
  let ?s = "kernel_ex\<lparr>terminals := replicate NUM_TERMINALS tty_in\<rparr>"
  have "input_ok ?s 0"
    by (simp add: input_ok_def queues_ok_def tty_ok_def tty_in_def tty_ex_def tty0_def NUM_TERMINALS_def TERMINAL_MAX_LINE_def qview_sys_def)
  moreover have "pending ?s 0 = [104, 105]"
    by (simp add: pending_def tty_in_def NUM_TERMINALS_def)
  ultimately show ?thesis
    using TtyRead_consumes [of ?s 0 "0x100000" 1 101 _ "[104]"] by (auto simp: NUM_TERMINALS_def)
qed

end
