(* ===== verification/Children.thy ===== *)
theory Children
  imports Terminals
begin

text \<open>
  Parents and children: what \<^verbatim>\<open>Exit\<close> leaves behind and what \<^verbatim>\<open>Wait\<close> collects, with the queues of zombies and of
  children as lists, and what the deletion of a process does not give back.
\<close>

section \<open>Deleting a process\<close>

definition orphan :: "PCB \<Rightarrow> PCB" where
  "orphan b = b\<lparr>parent := 0, pstate := PROC_ORPHAN\<rparr>"

definition orphaned :: "(addr \<Rightarrow> PCB option) \<Rightarrow> addr set \<Rightarrow> addr \<Rightarrow> PCB option" where
  "orphaned P D p = (if p \<in> D then map_option orphan (P p) else P p)"

lemma orphaned_empty [simp]: "orphaned P {} = P"
  by (simp add: orphaned_def fun_eq_iff)

lemma orphan_children:
  assumes q: "queues_ok s" "kview s c = Some ds" and live: "\<forall>d \<in> set ds. pcbs s d \<noteq> None"
  shows "queueIterate qh c deletePCBHelper s = Ret () (s\<lparr>pcbs := orphaned (pcbs s) (set ds)\<rparr>)"
proof -
  from q obtain R where rep: "qrepR (qh s) (kview s) R" by (auto simp: queues_ok_def qwf_def qrep_def)
  let ?Inv = "\<lambda>rest t. \<exists>pre. R c = pre @ rest \<and> t = s\<lparr>pcbs := orphaned (pcbs s) (set (take (length pre) ds))\<rparr>"
  have "\<exists>t. queueIterate qh c deletePCBHelper s = Ret () t \<and> ?Inv [] t"
  proof (rule queueIterate_rule [where g = qh and Inv = ?Inv, OF rep q(2)])
    show "?Inv (R c) s" by (intro exI [of _ "[]"]) simp
  next
    fix a as t assume "?Inv (a # as) t"
    then obtain pre where pre: "R c = pre @ a # as"
      and t: "t = s\<lparr>pcbs := orphaned (pcbs s) (set (take (length pre) ds))\<rparr>" by blast
    from qrepR_next [OF rep q(2) pre] obtain nd where nd: "a \<noteq> 0" "nodes (qh s) a = Some nd" "node_next nd = head_of as"
      "node_process nd = ds ! length pre" "length pre < length ds" by blast
    let ?d = "ds ! length pre"
    have d: "?d \<in> set ds" using nd(5) by simp
    moreover have "0 \<notin> set ds" using view_facts [of "qh s" c ds] q by (auto simp: queues_ok_def)
    ultimately have d0: "?d \<noteq> 0" by metis
    from d obtain b where b: "pcbs s ?d = Some b" using live by blast
    let ?P = "orphaned (pcbs s) (set (take (length pre) ds))"
    have "\<exists>b'. ?P ?d = Some b' \<and> orphan b' = orphan b" using b by (auto simp: orphaned_def orphan_def)
    then obtain b' where b': "?P ?d = Some b'" "orphan b' = orphan b" by blast
    have "deletePCBHelper ?d t = Ret () (s\<lparr>pcbs := ?P(?d \<mapsto> orphan b)\<rparr>)"
      using b' d0 by (simp add: deletePCBHelper_def t upd_pcb_eval orphan_def)
    moreover have "?P(?d \<mapsto> orphan b) = orphaned (pcbs s) (set (take (length (pre @ [a])) ds))"
      using nd(5) b by (auto simp: orphaned_def fun_eq_iff take_Suc_conv_app_nth)
    ultimately show "\<exists>nd t'. a \<noteq> 0 \<and> nodes (qh t) a = Some nd \<and> node_next nd = head_of as \<and>
        deletePCBHelper (node_process nd) t = Ret () t' \<and> ?Inv as t'"
      using nd pre by (intro exI [of _ nd] exI [of _ "s\<lparr>pcbs := ?P(?d \<mapsto> orphan b)\<rparr>"]) (auto simp: t intro!: exI [of _ "pre @ [a]"])
  qed
  then obtain t pre where t: "queueIterate qh c deletePCBHelper s = Ret () t" "R c = pre"
    "t = s\<lparr>pcbs := orphaned (pcbs s) (set (take (length pre) ds))\<rparr>" by auto
  from qrepR_lookup [OF rep q(2)] obtain qu where "qok (nodes (qh s)) (limit (qh s)) qu (R c) ds" by blast
  then have "length pre = length ds" using t(2) by (simp add: qok_def)
  with t show ?thesis by simp
qed

text \<open>
  The process and its tables are gone and its children are orphans; the frames and the slot of the process table stay
  as they are.
\<close>

lemma deletePCB_view:
  assumes q: "queues_ok s" and p: "p \<noteq> 0" "pcbs s p = Some b" and c: "kview s (children_processes b) = Some ds"
    and live: "\<forall>d \<in> set ds. pcbs s d \<noteq> None"
  shows "\<exists>h. deletePCB p s = Ret () (s\<lparr>qh := h, pcbs := (orphaned (pcbs s) (set ds))(p := None),
      km := (km s)\<lparr>pts := (pts (km s))(ptbr b := None, kstack b := None)\<rparr>\<rparr>) \<and>
    qwf h \<and> limit h = limit (qh s) \<and> qview h = (kview s)(children_processes b := None)"
proof -
  have w: "qwf (qh s)" using q by (simp add: queues_ok_def)
  from delete_view [OF w c] obtain h where h: "queueDelete (children_processes b) (qh s) = Ret () h" "qwf h"
    "qview h = (kview s)(children_processes b := None)" "limit h = limit (qh s)" by blast
  have "children_processes b \<noteq> 0" using view_facts [OF w c] by blast
  then have "deletePCB p s = Ret () (s\<lparr>qh := h, pcbs := (orphaned (pcbs s) (set ds))(p := None),
      km := (km s)\<lparr>pts := (pts (km s))(ptbr b := None, kstack b := None)\<rparr>\<rparr>)"
    using p orphan_children [OF q c live] h(1)
    by (simp add: deletePCB_def bnd_app get_pcb_eval thn_app on_queues_app free_table_def on_mem_app modify_app free_pcb_def)
  with h show ?thesis by blast
qed

section \<open>Collecting a zombie\<close>

definition status_stored :: "word32 \<Rightarrow> int \<Rightarrow> kmem \<Rightarrow> kmem \<Rightarrow> bool" where
  "status_stored a v m m' \<longleftrightarrow> (if a = 0 then m' = m else store_int a v m = Ret () m')"

text \<open>The state after the zombie \<open>z\<close> with block \<open>zb\<close> and children \<open>ds\<close> has been collected.\<close>

definition reaped :: "kstate \<Rightarrow> kmem \<Rightarrow> addr \<Rightarrow> PCB \<Rightarrow> addr list \<Rightarrow> kstate \<Rightarrow> bool" where
  "reaped s m' z zb ds t \<longleftrightarrow> queues_ok t \<and> queues_only (s\<lparr>pcbs := (orphaned (pcbs s) (set ds))(z := None),
     km := m'\<lparr>pts := (pts m')(ptbr zb := None, kstack zb := None)\<rparr>\<rparr>) t"

lemma reap_view:
  assumes q: "queues_ok s" and cur: "pcbs s p = Some b" "p \<noteq> 0" and z: "z \<noteq> 0" "pcbs s z = Some zb"
    and cs: "kview s (children_processes b) = Some cs" and zs: "kview s (zombie_queue s) = Some zs"
    and ds: "kview s (children_processes zb) = Some ds" "\<forall>d \<in> set ds. pcbs s d \<noteq> None"
    and dq: "distinct [children_processes b, zombie_queue s, children_processes zb]"
    and st: "status_stored a (exit_status zb) (km s) m'"
  shows "\<exists>t. reap p a z s = Ret (pid zb) t \<and> reaped s m' z zb ds t \<and>
    kview t = (kview s)(children_processes b \<mapsto> remove1 z cs, zombie_queue s \<mapsto> remove1 z zs, children_processes zb := None)"
proof -
  define s1 where "s1 = s\<lparr>km := m'\<rparr>"
  have r1: "(if a \<noteq> 0 then on_mem (store_int a (exit_status zb)) else ret ()) s = Ret () s1"
    using st by (auto simp: status_stored_def on_mem_app s1_def ret_app)
  have q1: "queues_ok s1" "kview s1 (children_processes b) = Some cs" using q cs by (simp_all add: s1_def queues_ok_def)
  from kqueueRemove_view [OF q1 z(1)] obtain s2 where s2: "kqueueRemove (children_processes b) z s1 = Ret () s2"
    "queues_ok s2" "kview s2 = (kview s1)(children_processes b \<mapsto> remove1 z cs)" "queues_only s1 s2" by blast
  note d2 = queues_onlyD [OF s2(4)]
  have "kview s2 (zombie_queue s) = Some zs" using s2(3) zs dq by (simp add: s1_def)
  from kqueueRemove_view [OF s2(2) this z(1)] obtain s3 where s3: "kqueueRemove (zombie_queue s) z s2 = Ret () s3"
    "queues_ok s3" "kview s3 = (kview s2)(zombie_queue s \<mapsto> remove1 z zs)" "queues_only s2 s3" by blast
  note d3 = queues_onlyD [OF s3(4)]
  have p3: "pcbs s3 = pcbs s" "km s3 = m'" "zombie_queue s2 = zombie_queue s" using d2 d3 by (simp_all add: s1_def)
  have kv3: "kview s3 = (kview s)(children_processes b \<mapsto> remove1 z cs, zombie_queue s \<mapsto> remove1 z zs)"
    using s3(3) s2(3) by (simp add: s1_def)
  have "pcbs s3 z = Some zb" "kview s3 (children_processes zb) = Some ds" "\<forall>d \<in> set ds. pcbs s3 d \<noteq> None"
    using kv3 p3 z ds dq by auto
  from deletePCB_view [OF s3(2) z(1) this] obtain h where h:
    "deletePCB z s3 = Ret () (s3\<lparr>qh := h, pcbs := (orphaned (pcbs s3) (set ds))(z := None),
      km := (km s3)\<lparr>pts := (pts (km s3))(ptbr zb := None, kstack zb := None)\<rparr>\<rparr>)"
    "qwf h" "qview h = (kview s3)(children_processes zb := None)" "limit h = limit (qh s3)" by blast
  have "reap p a z s = Ret (pid zb) (s3\<lparr>qh := h, pcbs := (orphaned (pcbs s3) (set ds))(z := None),
      km := (km s3)\<lparr>pts := (pts (km s3))(ptbr zb := None, kstack zb := None)\<rparr>\<rparr>)"
    using z cur r1 s2(1) s3(1) h(1) p3(3)
    by (simp add: reap_def bnd_app [of "get_pcb z"] get_pcb_eval thn_app bnd_app s1_def gets_app ret_app)
  moreover have "queues_ok (s3\<lparr>qh := h, pcbs := P, km := m\<rparr>)" for P m using s3(2) h(2,4) by (simp add: queues_ok_def)
  moreover from s2(4) s3(4) obtain h1 n1 c1 where "s3 = s1\<lparr>qh := h1, next_addr := n1, calls := c1\<rparr>"
    by (auto simp: queues_only_def)
  ultimately show ?thesis using h(3) kv3 unfolding reaped_def queues_only_def
    by (intro exI [of _ "s3\<lparr>qh := h, pcbs := (orphaned (pcbs s3) (set ds))(z := None),
      km := (km s3)\<lparr>pts := (pts (km s3))(ptbr zb := None, kstack zb := None)\<rparr>\<rparr>"] conjI exI [of _ h] exI [of _ n1] exI [of _ c1])
      (simp_all add: s1_def)
qed

text \<open>The scan finds the first zombie whose parent is the caller.\<close>

definition my_zombie :: "kstate \<Rightarrow> PCB \<Rightarrow> addr list \<Rightarrow> addr option" where
  "my_zombie s b zs = find (\<lambda>z. ppid (the (pcbs s z)) = pid b) zs"

lemma reap_scan_finds:
  assumes "queues_ok s" "pcbs s p = Some b" "p \<noteq> 0" and "qrepR (qh s) (kview s) R" "kview s zq = Some zs"
    and "\<forall>x \<in> set zs. pcbs s x \<noteq> None" and "R zq = pre @ ns" and "length ns < k"
  shows "reap_scan k p a (head_of ns) s = (case my_zombie s b (drop (length pre) zs) of
      None \<Rightarrow> Ret None s | Some z \<Rightarrow> bnd (reap p a z) (\<lambda>r. ret (Some r)) s)"
  using assms(7,8)
proof (induction ns arbitrary: pre k)
  case Nil
  from qrepR_lookup [OF assms(4,5)] obtain qu where "qok (nodes (qh s)) (limit (qh s)) qu (R zq) zs" by blast
  then have "length pre = length zs" using Nil.prems by (simp add: qok_def)
  then show ?case using Nil.prems by (cases k) (simp_all add: my_zombie_def head_of_def ret_app)
next
  case (Cons n ns)
  then obtain k' where k: "k = Suc k'" "length ns < k'" by (cases k) simp_all
  from qrepR_next [OF assms(4,5) Cons.prems(1)] obtain nd where nd: "n \<noteq> 0" "nodes (qh s) n = Some nd"
    "node_next nd = head_of ns" "node_process nd = zs ! length pre" "length pre < length zs" by blast
  let ?z = "zs ! length pre"
  have z: "?z \<in> set zs" using nd(5) by simp
  moreover have "0 \<notin> set zs" using view_facts [of "qh s" zq zs] assms(1,5) by (auto simp: queues_ok_def)
  ultimately have z0: "?z \<noteq> 0" by metis
  from z obtain zb where zb: "pcbs s ?z = Some zb" using assms(6) by blast
  have dr: "drop (length pre) zs = ?z # drop (Suc (length pre)) zs" using nd(5) by (simp add: Cons_nth_drop_Suc)
  show ?case using k nd(1-4) z0 zb assms(2,3) Cons.IH [of "pre @ [n]" k'] Cons.prems(1)
    by (simp add: head_of_def bnd_app [of "on_queues m" for m] bnd_app [of "get_pcb q" for q] on_queues_app queue_ops deref_app
        get_pcb_eval dr my_zombie_def)
qed

lemma scan_zombies_finds:
  assumes "queues_ok s" "pcbs s p = Some b" "p \<noteq> 0" and zs: "kview s (zombie_queue s) = Some zs"
    and "\<forall>x \<in> set zs. pcbs s x \<noteq> None"
  shows "scan_zombies p a s = (case my_zombie s b zs of
      None \<Rightarrow> Ret None s | Some z \<Rightarrow> bnd (reap p a z) (\<lambda>r. ret (Some r)) s)"
proof -
  from assms(1) obtain R where rep: "qrepR (qh s) (kview s) R" by (auto simp: queues_ok_def qwf_def qrep_def)
  from qrepR_lookup [OF rep zs] obtain qu where qu: "queues (qh s) (zombie_queue s) = Some qu"
    "zombie_queue s \<noteq> 0" "qok (nodes (qh s)) (limit (qh s)) qu (R (zombie_queue s)) zs" by blast
  have "length (R (zombie_queue s)) < Suc (limit (qh s))" "q_head qu = head_of (R (zombie_queue s))"
    using qok_length [OF qu(3)] qu(3) by (auto simp: qok_def dest: seg_head)
  with reap_scan_finds [OF assms(1-3) rep zs assms(5), of "[]" "R (zombie_queue s)" "Suc (limit (qh s))"] show ?thesis
    using qu(1,2) by (simp add: scan_zombies_def bnd_app [of "gets zombie_queue"] bnd_app [of "on_queues m" for m] bnd_app [of "gets f" for f]
        gets_app on_queues_app queue_ops deref_app del: reap_scan.simps)
qed

section \<open>Leaving\<close>

text \<open>The parent that \<^verbatim>\<open>Exit\<close> makes ready: it is there and its \<^verbatim>\<open>waiting_for_child_pid\<close> is not zero.\<close>

definition woken_parent :: "kstate \<Rightarrow> addr \<Rightarrow> addr list" where
  "woken_parent s r = (if r \<noteq> 0 \<and> waiting_for_child_pid (the (pcbs s r)) \<noteq> 0 then [r] else [])"

definition wake :: "PCB \<Rightarrow> PCB" where
  "wake b = b\<lparr>pstate := PROC_READY, waiting_for_child_pid := 0\<rparr>"

definition exited :: "bool \<Rightarrow> int \<Rightarrow> PCB \<Rightarrow> PCB" where
  "exited h v b = b\<lparr>exit_status := v, pstate := PROC_ZOMBIE, kernel_context := KC_Exit h\<rparr>"

lemma wake_key: "map_option pcb_key (map_option wake x) = map_option pcb_key x"
  by (cases x) (simp_all add: wake_def pcb_key_def)

lemma wake_parent_view:
  assumes q: "queues_ok s" "kview s (ready_queue s) = Some ys" "malloc_ok s (calls s)" and r: "r \<noteq> 0 \<Longrightarrow> pcbs s r \<noteq> None"
  shows "\<exists>t. (if r \<noteq> 0 then bnd (get_pcb r) (\<lambda>pb.
      if waiting_for_child_pid pb \<noteq> 0
      then thn (upd_pcb r (\<lambda>x. x\<lparr>pstate := PROC_READY, waiting_for_child_pid := 0\<rparr>))
          (bnd (gets ready_queue) (\<lambda>rq. kqueueEnqueue rq r))
      else ret ()) else ret ()) s = Ret () t \<and>
    queues_ok t \<and> kview t = (kview s)(ready_queue s \<mapsto> ys @ woken_parent s r) \<and>
    queues_only (s\<lparr>pcbs := (\<lambda>x. if x \<in> set (woken_parent s r) then map_option wake (pcbs s x) else pcbs s x)\<rparr>) t"
proof (cases "woken_parent s r")
  case Nil
  moreover have "queues_only s s" using queues_onlyI(2) [of s "qh s"] by simp
  ultimately show ?thesis using q r
    by (intro exI [of _ s]) (auto simp: woken_parent_def bnd_app get_pcb_eval ret_app split: if_splits)
next
  case (Cons x xs)
  then have w: "r \<noteq> 0" "woken_parent s r = [r]" by (auto simp: woken_parent_def split: if_splits)
  then obtain rb where rb: "pcbs s r = Some rb" "waiting_for_child_pid rb \<noteq> 0"
    using r by (auto simp: woken_parent_def split: if_splits)
  define s1 where "s1 = s\<lparr>pcbs := (pcbs s)(r \<mapsto> wake rb)\<rparr>"
  have "queues_ok s1" "kview s1 (ready_queue s) = Some ys" "malloc_ok s1 (calls s1)" using q by (simp_all add: s1_def)
  from kqueueEnqueue_view [OF this(1,2) w(1) this(3)] obtain t where t: "kqueueEnqueue (ready_queue s) r s1 = Ret () t"
    "queues_ok t" "kview t = (kview s)(ready_queue s \<mapsto> ys @ [r])" "queues_only s1 t" by (auto simp: s1_def)
  moreover have "s1 = s\<lparr>pcbs := (\<lambda>x. if x \<in> set (woken_parent s r) then map_option wake (pcbs s x) else pcbs s x)\<rparr>"
    using w rb by (simp add: s1_def fun_upd_def [abs_def] fun_eq_iff cong: if_cong)
  ultimately show ?thesis using w rb
    by (intro exI [of _ t]) (simp add: bnd_app get_pcb_eval thn_app upd_pcb_eval gets_app wake_def s1_def)
qed

lemma Exit_view:
  assumes q: "queues_ok s" "kview s (zombie_queue s) = Some zs" "kview s (ready_queue s) = Some ys"
      "zombie_queue s \<noteq> ready_queue s"
    and m: "\<forall>n. malloc_ok s n" "\<forall>n. kcs_ok s n" and tab: "tables_ok (km s)"
    and p: "current_process s = p" "p \<noteq> 0" "pcbs s p = Some b" "pid b \<noteq> 1" "p \<noteq> idle_proc s" "p \<notin> set ys" "parent b \<noteq> p"
    and r: "parent b \<noteq> 0 \<Longrightarrow> pcbs s (parent b) \<noteq> None"
    and ok: "\<forall>x \<in> insert (idle_proc s) (set (ys @ woken_parent s (parent b))). proc_ok s x"
    and n: "n = (case ys @ woken_parent s (parent b) of [] \<Rightarrow> idle_proc s | x # _ \<Rightarrow> x)"
    and P: "P = (\<lambda>x. if x \<in> set (woken_parent s (parent b)) then map_option wake (pcbs s x) else pcbs s x)"
  shows "\<exists>t nb ks. Exit h v s = Switched t \<and> queues_ok t \<and>
    kview t = (kview s)(zombie_queue s \<mapsto> zs @ [p], ready_queue s \<mapsto> tl (ys @ woken_parent s (parent b))) \<and>
    P n = Some nb \<and> p \<noteq> n \<and> pcbs t = P(p \<mapsto> exited h v b, n \<mapsto> nb\<lparr>pstate := PROC_RUNNING\<rparr>) \<and> current_process t = n \<and>
    km t = switch_mem ks nb (km s) \<and> zombie_queue t = zombie_queue s \<and> ready_queue t = ready_queue s \<and>
    pts (km s) (kstack nb) = Some ks"
proof -
  from kqueueEnqueue_view [OF q(1,2) p(2)] m obtain s1 where s1: "kqueueEnqueue (zombie_queue s) p s = Ret () s1"
    "queues_ok s1" "kview s1 = (kview s)(zombie_queue s \<mapsto> zs @ [p])" "queues_only s s1" by blast
  note d1 = queues_onlyD [OF s1(4)]
  let ?b = "b\<lparr>exit_status := v, pstate := PROC_ZOMBIE\<rparr>" and ?w = "woken_parent s (parent b)"
  define s2 where "s2 = s1\<lparr>pcbs := (pcbs s)(p \<mapsto> ?b)\<rparr>"
  have r2: "upd_pcb p (\<lambda>b. b\<lparr>exit_status := v, pstate := PROC_ZOMBIE\<rparr>) s1 = Ret () s2"
    using p d1 by (simp add: upd_pcb_eval s2_def)
  have w2: "woken_parent s2 (parent b) = ?w" using p(7) by (simp add: woken_parent_def s2_def)
  have q2: "queues_ok s2" "kview s2 (ready_queue s2) = Some ys" "malloc_ok s2 (calls s2)"
      "parent b \<noteq> 0 \<Longrightarrow> pcbs s2 (parent b) \<noteq> None"
    using s1(2,3) q d1 m r by (auto simp: s2_def)
  from wake_parent_view [OF q2] obtain s3 where s3: "(if parent b \<noteq> 0 then bnd (get_pcb (parent b)) (\<lambda>pb.
      if waiting_for_child_pid pb \<noteq> 0
      then thn (upd_pcb (parent b) (\<lambda>x. x\<lparr>pstate := PROC_READY, waiting_for_child_pid := 0\<rparr>))
          (bnd (gets ready_queue) (\<lambda>rq. kqueueEnqueue rq (parent b)))
      else ret ()) else ret ()) s2 = Ret () s3" "queues_ok s3"
    "kview s3 = (kview s2)(ready_queue s2 \<mapsto> ys @ ?w)"
    "queues_only (s2\<lparr>pcbs := (\<lambda>x. if x \<in> set ?w then map_option wake (pcbs s2 x) else pcbs s2 x)\<rparr>) s3"
    unfolding w2 by blast
  note d3 = queues_onlyD [OF s3(4)]
  have pw: "p \<notin> set ?w" using p(7) by (auto simp: woken_parent_def)
  have P3: "pcbs s3 = P(p \<mapsto> ?b)" using d3 pw by (auto simp: s2_def P fun_eq_iff)
  have same3: "ready_queue s3 = ready_queue s" "idle_proc s3 = idle_proc s" "km s3 = km s" "zombie_queue s3 = zombie_queue s"
    using d1 d3 by (simp_all add: s2_def)
  have "kview s3 (ready_queue s3) = Some (ys @ ?w)" using s3(3) d1 same3 by (simp add: s2_def)
  from next_process_view [OF s3(2) this] obtain s4 where s4: "next_process s3 = Ret n s4" "queues_ok s4"
    "kview s4 = (kview s3)(ready_queue s3 \<mapsto> tl (ys @ ?w))" "queues_only s3 s4" unfolding same3 n [symmetric] by blast
  note d4 = queues_onlyD [OF s4(4)]
  have nn: "n \<in> insert (idle_proc s) (set (ys @ ?w))" "n \<noteq> p" using p(5,6) pw unfolding n by (cases ys; auto split: list.split)+
  have "map_option pcb_key (pcbs s4 n) = map_option pcb_key (pcbs s n)"
    using nn d4 P3 by (simp add: P wake_key)
  then have "proc_ok s4 n = proc_ok s n" using d4 same3 by (intro proc_ok_cong) simp_all
  with ok nn have "proc_ok s4 n" by blast
  from proc_ok_switchable [OF this] obtain nb ks where nb: "switchable n nb ks s4" by blast
  have p4: "pcbs s4 p = Some ?b" "kcs_ok s4 (calls s4)" "tables_ok (km s4)"
    using d4 d3(1,3-15) d1 P3 m tab same3 by (simp_all add: s2_def)
  have sw: "KernelContextSwitch_KCSwitch (KC_Exit h) p n s4 = Switched (s4\<lparr>km := switch_mem ks nb (km s4),
     current_process := n, calls := Suc (calls s4),
     pcbs := (pcbs s4)(p \<mapsto> ?b\<lparr>kernel_context := KC_Exit h\<rparr>, n \<mapsto> nb\<lparr>pstate := PROC_RUNNING\<rparr>)\<rparr>)" (is "_ = Switched ?t")
    using KernelContextSwitch_eval [OF p4(2) nb p(2) p4(1) nn(2) [symmetric] p4(3)] .
  have "Exit h v s = Switched ?t"
    unfolding Exit_def using p s1(1) r2 s3(1) s4(1) sw d1
    by (simp add: bnd_app [of "gets f" for f] gets_app bnd_app [of "get_pcb p"] get_pcb_eval thn_app ret_app
        bnd_app [of next_process] bnd_app [of "KernelContextSwitch_KCSwitch k x y" for k x y])
  moreover have "P n = Some nb" using nb d4 P3 nn by (simp add: switchable_def)
  moreover have "pts (km s) (kstack nb) = Some ks" using nb d4 same3 by (simp add: switchable_def)
  ultimately show ?thesis using s4(2,3) s3(3) s1(3) d1 d3(1,3-15) d4 P3 same3 nn(2)
    by (intro exI [of _ ?t] exI [of _ nb] exI [of _ ks]) (simp add: s2_def exited_def)
qed

section \<open>Wait and Exit together\<close>

lemma children_head:
  assumes "queues_ok s" and "kview s c = Some cs"
  shows "\<exists>qu. on_queues (get_queue c) s = Ret qu s \<and> (q_head qu = 0 \<longleftrightarrow> cs = [])"
proof -
  have "c \<noteq> 0" using view_facts assms by (auto simp: queues_ok_def)
  moreover from assms obtain R where "qrepR (qh s) (kview s) R" by (auto simp: queues_ok_def qwf_def qrep_def)
  from qrepR_lookup [OF this assms(2)] obtain qu where "queues (qh s) c = Some qu" by blast
  ultimately show ?thesis using kis_empty_view [OF assms]
    by (simp add: kis_empty_def on_queues_app is_empty_def bnd_app queue_ops deref_app ret_app)
qed

lemma store_int_frames: "status_stored a v m m' \<Longrightarrow> frame_table m' = frame_table m"
proof -
  have "keeps (\<lambda>x. frame_table x = frame_table m) (access k a)" for k a
    by (auto simp: keeps_def access_def split: option.split)
  then have "keeps (\<lambda>x. frame_table x = frame_table m) (copy_out a bs)" for bs
    by (induction bs arbitrary: a) (auto intro!: keeps_intros simp: store_byte_def)
  then have "holds_after (\<lambda>x. frame_table x = frame_table m) (store_int a v m)"
    by (simp add: store_int_def keepsD)
  then show "status_stored a v m m' \<Longrightarrow> frame_table m' = frame_table m"
    by (auto simp: status_stored_def split: if_splits)
qed

lemma find_append_None: "find P xs = None \<Longrightarrow> find P (xs @ ys) = find P ys"
  by (induction xs) (auto split: if_splits)

lemma scan_collects:
  assumes "queues_ok s" "p \<noteq> 0" "pcbs s p = Some b" and "kview s (children_processes b) = Some cs"
    and "kview s (zombie_queue s) = Some zs" "\<forall>x \<in> set zs. pcbs s x \<noteq> None" "my_zombie s b zs = Some z"
    and "pcbs s z = Some zb" "kview s (children_processes zb) = Some ds" "\<forall>d \<in> set ds. pcbs s d \<noteq> None"
    and "distinct [children_processes b, zombie_queue s, children_processes zb]"
    and "status_stored a (exit_status zb) (km s) m'"
  shows "\<exists>t. scan_zombies p a s = Ret (Some (pid zb)) t \<and> reaped s m' z zb ds t \<and>
    kview t = (kview s)(children_processes b \<mapsto> remove1 z cs, zombie_queue s \<mapsto> remove1 z zs, children_processes zb := None)"
proof -
  have "z \<in> set zs" using assms(7) by (auto simp: my_zombie_def find_Some_iff)
  moreover have "0 \<notin> set zs" using view_facts [of "qh s" "zombie_queue s" zs] assms(1,5) by (auto simp: queues_ok_def)
  ultimately have z: "z \<noteq> 0" by metis
  from reap_view [OF assms(1,3,2) z assms(8,4,5,9-12)] obtain t where t: "reap p a z s = Ret (pid zb) t"
    "reaped s m' z zb ds t" "kview t = (kview s)(children_processes b \<mapsto> remove1 z cs, zombie_queue s \<mapsto> remove1 z zs,
      children_processes zb := None)" by blast
  then show ?thesis using scan_zombies_finds [OF assms(1,3,2,5,6)] assms(7) by (simp add: bnd_app ret_app)
qed

text \<open>
  C18. \<^verbatim>\<open>Wait\<close> collects a child that has exited, on its first scan and on the scan after it has been woken: it returns
  the pid of the first zombie whose parent is the caller, stores the exit status where the caller asked for it,
  takes the zombie out of the two queues it is in, makes orphans of its children and releases its control block and
  tables. The frames it used and its slot of the process table are not given back.
\<close>

theorem Wait_collects:
  assumes "queues_ok s" "current_process s = p" "p \<noteq> 0" "pcbs s p = Some b"
    and "kview s (children_processes b) = Some cs" "cs \<noteq> []"
    and "kview s (zombie_queue s) = Some zs" "\<forall>x \<in> set zs. pcbs s x \<noteq> None" "my_zombie s b zs = Some z"
    and "pcbs s z = Some zb" "kview s (children_processes zb) = Some ds" "\<forall>d \<in> set ds. pcbs s d \<noteq> None"
    and "distinct [children_processes b, zombie_queue s, children_processes zb]"
    and "status_stored a (exit_status zb) (km s) m'"
  shows "\<exists>t. Wait a s = Ret (pid zb) t \<and> Wait_resume a s = Ret (pid zb) t \<and> queues_ok t \<and>
    kview t = (kview s)(children_processes b \<mapsto> remove1 z cs, zombie_queue s \<mapsto> remove1 z zs, children_processes zb := None) \<and>
    pcbs t = (orphaned (pcbs s) (set ds))(z := None) \<and>
    km t = m'\<lparr>pts := (pts m')(ptbr zb := None, kstack zb := None)\<rparr> \<and>
    frame_table (km t) = frame_table (km s) \<and> proc_table t = proc_table s"
proof -
  from scan_collects [OF assms(1,3-5,7-14)] obtain t where scan: "scan_zombies p a s = Ret (Some (pid zb)) t"
    and t: "reaped s m' z zb ds t" "kview t = (kview s)(children_processes b \<mapsto> remove1 z cs, zombie_queue s \<mapsto> remove1 z zs,
      children_processes zb := None)" by blast
  from children_head [OF assms(1,5)] obtain qu where "on_queues (get_queue (children_processes b)) s = Ret qu s" "q_head qu \<noteq> 0"
    using assms(6) by blast
  then have "Wait a s = Ret (pid zb) t" "Wait_resume a s = Ret (pid zb) t"
    using scan assms(2-4) by (simp_all add: Wait_def Wait_resume_def bnd_app gets_app get_pcb_eval ret_app)
  moreover have "frame_table (km t) = frame_table (km s)"
    using t(1) store_int_frames [OF assms(14)] by (auto simp: reaped_def dest: queues_onlyD)
  ultimately show ?thesis using t by (intro exI [of _ t]) (auto simp: reaped_def dest: queues_onlyD)
qed

definition kernel_wait :: kstate where
  "kernel_wait = kernel_ex\<lparr>pcbs := pcbs_ex(104 \<mapsto> (pcb_ex 5 304)\<lparr>pstate := PROC_ZOMBIE, ppid := 2, parent := 101,
     exit_status := 7, children_processes := 5\<rparr>)\<rparr>"

theorem Wait_collects_witness:
  "\<exists>t. Wait 0 kernel_wait = Ret 5 t \<and> kview t 3 = Some [] \<and> pcbs t 104 = None"
proof -
  have "queues_ok kernel_wait" by (simp add: queues_ok_def kernel_wait_def)
  from Wait_collects [OF this, of 101 "(pcb_ex 2 301)\<lparr>pstate := PROC_RUNNING, children_processes := 4\<rparr>" "[104]" "[104]" 104
    "(pcb_ex 5 304)\<lparr>pstate := PROC_ZOMBIE, ppid := 2, parent := 101, exit_status := 7, children_processes := 5\<rparr>" "[]" 0 kmem_ex]
  show ?thesis
    by (auto simp: kernel_wait_def qview_sys_def my_zombie_def status_stored_def)
qed

lemma Exit_wakes_parent:
  assumes "queues_ok s" "kview s (zombie_queue s) = Some zs" "kview s (ready_queue s) = Some []"
    and "\<forall>n. malloc_ok s n" "\<forall>n. kcs_ok s n" and "tables_ok (km s)"
    and "current_process s = p" "p \<noteq> 0" "pcbs s p = Some b" "pid b \<noteq> 1" "p \<noteq> idle_proc s"
    and "parent b = r" "r \<noteq> 0" "r \<noteq> p" "pcbs s r = Some rb" "ppid b = pid rb" "waiting_for_child_pid rb \<noteq> 0"
    and "proc_ok s r" "proc_ok s (idle_proc s)"
    and "p \<notin> set zs" "r \<notin> set zs" "\<forall>x \<in> set zs. pcbs s x \<noteq> None" "my_zombie s rb zs = None"
    and "kview s (children_processes rb) = Some cs" "kview s (children_processes b) = Some ds" "\<forall>d \<in> set ds. pcbs s d \<noteq> None"
    and "distinct [children_processes rb, zombie_queue s, children_processes b, ready_queue s]"
  shows "\<exists>t. Exit h v s = Switched t \<and> current_process t = r \<and>
    km t = switch_mem (the (pts (km s) (kstack rb))) rb (km s) \<and>
    pcbs t r = Some (rb\<lparr>pstate := PROC_RUNNING, waiting_for_child_pid := 0\<rparr>) \<and> (\<forall>m'. status_stored a v (km t) m' \<longrightarrow>
    (\<exists>u. Wait_resume a t = Ret (pid b) u \<and> pcbs u p = None \<and> phys (km u) = phys m' \<and> current_process u = r \<and>
      (\<exists>c. pcbs u r = Some c \<and> user_context c = user_context rb) \<and>
      kview u (zombie_queue s) = Some zs \<and> kview u (children_processes rb) = Some (remove1 p cs)))"
proof -
  have w: "woken_parent s (parent b) = [r]" using assms(12-17) by (simp add: woken_parent_def)
  let ?P = "(pcbs s)(r \<mapsto> wake rb)"
  have P: "?P = (\<lambda>x. if x \<in> set (woken_parent s (parent b)) then map_option wake (pcbs s x) else pcbs s x)"
    using w assms(15) by (auto simp: fun_eq_iff)
  have e: "zombie_queue s \<noteq> ready_queue s" "p \<notin> set []" "parent b \<noteq> p" "parent b \<noteq> 0 \<Longrightarrow> pcbs s (parent b) \<noteq> None"
    "\<forall>x \<in> insert (idle_proc s) (set ([] @ woken_parent s (parent b))). proc_ok s x"
    "r = (case [] @ woken_parent s (parent b) of [] \<Rightarrow> idle_proc s | x # _ \<Rightarrow> x)"
    using assms w by auto
  from Exit_view [OF assms(1-3) e(1) assms(4-11) e(2-6) P, of h v] obtain t nb ks where t: "Exit h v s = Switched t" "queues_ok t"
    "kview t = (kview s)(zombie_queue s \<mapsto> zs @ [p], ready_queue s \<mapsto> [])" "?P r = Some nb"
    "pcbs t = ?P(p \<mapsto> exited h v b, r \<mapsto> nb\<lparr>pstate := PROC_RUNNING\<rparr>)" "current_process t = r"
    "zombie_queue t = zombie_queue s" "km t = switch_mem ks nb (km s)" "pts (km s) (kstack nb) = Some ks" unfolding w by auto
  have wk: "nb = wake rb" using t(4) by simp
  then have km: "km t = switch_mem (the (pts (km s) (kstack rb))) rb (km s)" using t(8,9) by (simp add: wake_def switch_mem_def)
  let ?rb = "nb\<lparr>pstate := PROC_RUNNING\<rparr>"
  have nb: "children_processes ?rb = children_processes rb" "pid ?rb = pid rb" using t(4) by (auto simp: wake_def)
  have r: "pcbs t r = Some ?rb" "pcbs t p = Some (exited h v b)" using t(5) assms(14) by simp_all
  have zs: "kview t (zombie_queue t) = Some (zs @ [p])" using t(3,7) assms(27) by simp
  have zo: "\<forall>x \<in> set zs. pcbs t x = pcbs s x" using t(5) assms(20,21) by auto
  have live: "\<forall>x \<in> set (zs @ [p]). pcbs t x \<noteq> None" "\<forall>d \<in> set ds. pcbs t d \<noteq> None"
    using assms(22,26) r t(5) by auto
  have "find (\<lambda>z. ppid (the (pcbs t z)) = pid ?rb) zs = None"
    using assms(23) zo nb by (simp add: my_zombie_def find_None_iff)
  then have z: "my_zombie t ?rb (zs @ [p]) = Some p"
    using r(2) nb assms(16) by (simp add: my_zombie_def find_append_None exited_def)
  have "\<exists>u. Wait_resume a t = Ret (pid b) u \<and> pcbs u p = None \<and> phys (km u) = phys m' \<and> current_process u = r \<and>
      (\<exists>c. pcbs u r = Some c \<and> user_context c = user_context rb) \<and>
      kview u (zombie_queue s) = Some zs \<and> kview u (children_processes rb) = Some (remove1 p cs)"
    if "status_stored a v (km t) m'" for m'
  proof -
    have c: "kview t (children_processes ?rb) = Some cs" "kview t (children_processes (exited h v b)) = Some ds"
      "distinct [children_processes ?rb, zombie_queue t, children_processes (exited h v b)]"
      "status_stored a (exit_status (exited h v b)) (km t) m'"
      using t(3,7) nb assms(24,25,27) that by (auto simp: exited_def)
    from scan_collects [OF t(2) assms(13) r(1) c(1) zs live(1) z r(2) c(2) live(2) c(3,4)] obtain u where
      u: "scan_zombies r a t = Ret (Some (pid (exited h v b))) u" "reaped t m' p (exited h v b) ds u"
      "kview u = (kview t)(children_processes ?rb \<mapsto> remove1 p cs, zombie_queue t \<mapsto> remove1 p (zs @ [p]),
        children_processes (exited h v b) := None)" by blast
    have "Wait_resume a t = Ret (pid b) u" using u(1) t(6) by (simp add: Wait_resume_def bnd_app gets_app ret_app exited_def)
    moreover have "pcbs u p = None" "phys (km u) = phys m'" "current_process u = r" using u(2) t(6) by (auto simp: reaped_def dest: queues_onlyD)
    moreover have "\<exists>c. pcbs u r = Some c \<and> user_context c = user_context rb"
    proof -
      have "pcbs u r = orphaned (pcbs t) (set ds) r" using u(2) assms(14) by (auto simp: reaped_def dest: queues_onlyD)
      then show ?thesis using r(1) wk by (auto simp: orphaned_def wake_def orphan_def)
    qed
    ultimately show ?thesis using u(3) t(7) nb assms(20,27) by (intro exI [of _ u]) (auto simp: exited_def remove1_append)
  qed
  moreover have "pcbs t r = Some (rb\<lparr>pstate := PROC_RUNNING, waiting_for_child_pid := 0\<rparr>)" using r(1) wk by (simp add: wake_def)
  ultimately show ?thesis using t(1,6) km by blast
qed

text \<open>
  C16. A parent that sleeps in \<^verbatim>\<open>Wait\<close> learns how its child ended: when the child exits and no other process is ready, the
  parent is resumed, and the scan it then makes returns the pid of that child and stores the status the child
  passed to \<^verbatim>\<open>Exit\<close>; the child is gone from the zombies and from the children of its parent.
\<close>

theorem Exit_wakes_waiting_parent:
  assumes "queues_ok s" "kview s (zombie_queue s) = Some zs" "kview s (ready_queue s) = Some []"
    and "\<forall>n. malloc_ok s n" "\<forall>n. kcs_ok s n" and "tables_ok (km s)"
    and "current_process s = p" "p \<noteq> 0" "pcbs s p = Some b" "pid b \<noteq> 1" "p \<noteq> idle_proc s"
    and "parent b = r" "r \<noteq> 0" "r \<noteq> p" "pcbs s r = Some rb" "ppid b = pid rb" "waiting_for_child_pid rb \<noteq> 0"
    and "proc_ok s r" "proc_ok s (idle_proc s)"
    and "p \<notin> set zs" "r \<notin> set zs" "\<forall>x \<in> set zs. pcbs s x \<noteq> None" "my_zombie s rb zs = None"
    and "kview s (children_processes rb) = Some cs" "kview s (children_processes b) = Some ds" "\<forall>d \<in> set ds. pcbs s d \<noteq> None"
    and "distinct [children_processes rb, zombie_queue s, children_processes b, ready_queue s]"
  shows "\<exists>t. Exit h v s = Switched t \<and> current_process t = r \<and> (\<forall>m'. status_stored a v (km t) m' \<longrightarrow>
    (\<exists>u. Wait_resume a t = Ret (pid b) u \<and> pcbs u p = None \<and> phys (km u) = phys m' \<and>
      kview u (zombie_queue s) = Some zs \<and> kview u (children_processes rb) = Some (remove1 p cs)))"
  using Exit_wakes_parent [OF assms, of h v a] by blast

text \<open>The process 104 runs, its parent 101 waits for it and nobody is ready; 102 is a child of 104.\<close>

definition kernel_exit :: kstate where
  "kernel_exit = kernel_ex\<lparr>ready_queue := 5, zombie_queue := 6, current_process := 104,
     pcbs := pcbs_ex(101 \<mapsto> (pcb_ex 2 301)\<lparr>children_processes := 4, pstate := PROC_BLOCKED, waiting_for_child_pid := 1\<rparr>,
       104 \<mapsto> (pcb_ex 5 304)\<lparr>pstate := PROC_RUNNING, ppid := 2, parent := 101, children_processes := 1\<rparr>)\<rparr>"

theorem Exit_wakes_waiting_parent_witness:
  "\<exists>t u. Exit False 7 kernel_exit = Switched t \<and> Wait_resume 0 t = Ret 5 u \<and> kview u 4 = Some []"
proof -
  let ?rb = "(pcb_ex 2 301)\<lparr>children_processes := 4, pstate := PROC_BLOCKED, waiting_for_child_pid := 1\<rparr>"
  let ?b = "(pcb_ex 5 304)\<lparr>pstate := PROC_RUNNING, ppid := 2, parent := 101, children_processes := 1\<rparr>"
  have q: "queues_ok kernel_exit" by (simp add: queues_ok_def kernel_exit_def)
  have tab: "tables_ok (km kernel_exit)" using kernel_ex_kinv by (simp add: kinv_def kernel_exit_def)
  have ok: "proc_ok kernel_exit 101" "proc_ok kernel_exit (idle_proc kernel_exit)"
    by (simp_all add: proc_ok_def kernel_exit_def kmem_ex_def KSTACK_PAGES_def)
  from Exit_wakes_waiting_parent [OF q, of "[]" 104 ?b 101 ?rb "[104]" "[102]" False 7 0] tab ok
  have "\<exists>t. Exit False 7 kernel_exit = Switched t \<and> current_process t = 101 \<and> (\<forall>m'. status_stored 0 7 (km t) m' \<longrightarrow>
    (\<exists>u. Wait_resume 0 t = Ret 5 u \<and> pcbs u 104 = None \<and> phys (km u) = phys m' \<and> kview u 6 = Some [] \<and> kview u 4 = Some []))"
    by (simp add: kernel_exit_def qview_sys_def my_zombie_def)
  then obtain t where "Exit False 7 kernel_exit = Switched t" "\<forall>m'. status_stored 0 7 (km t) m' \<longrightarrow>
    (\<exists>u. Wait_resume 0 t = Ret 5 u \<and> pcbs u 104 = None \<and> phys (km u) = phys m' \<and> kview u 6 = Some [] \<and> kview u 4 = Some [])"
    by blast
  moreover have "status_stored 0 7 (km t) (km t)" by (simp add: status_stored_def)
  ultimately show ?thesis by blast
qed

text \<open>
  C32. \<^verbatim>\<open>Exit\<close> takes any \<^verbatim>\<open>waiting_for_child_pid\<close> other than zero for a parent that sleeps in \<^verbatim>\<open>Wait\<close>, but \<^verbatim>\<open>allocNewPCB\<close> starts it at
  \<^verbatim>\<open>INVALID_PID\<close>: the exit of a child puts a parent that never waited, and is ready already, into the ready queue a
  second time.
\<close>

theorem Exit_requeues_ready_parent:
  assumes "queues_ok s" "kview s (zombie_queue s) = Some zs" "kview s (ready_queue s) = Some ys" "zombie_queue s \<noteq> ready_queue s"
    and "\<forall>n. malloc_ok s n" "\<forall>n. kcs_ok s n" and "tables_ok (km s)"
    and "current_process s = p" "p \<noteq> 0" "pcbs s p = Some b" "pid b \<noteq> 1" "p \<noteq> idle_proc s" "p \<notin> set ys"
    and "parent b \<in> set ys" "pcbs s (parent b) = Some rb" "waiting_for_child_pid rb = INVALID_PID"
    and "\<forall>x \<in> insert (idle_proc s) (set ys). proc_ok s x"
  shows "\<exists>t ys'. Exit h v s = Switched t \<and> kview t (ready_queue t) = Some ys' \<and>
    current_process t # ys' = ys @ [parent b] \<and> \<not> distinct (current_process t # ys')"
proof -
  have "0 \<notin> set ys" using view_facts [of "qh s" "ready_queue s" ys] assms(1,3) by (auto simp: queues_ok_def)
  then have r: "parent b \<noteq> 0" "parent b \<noteq> p" using assms(13,14) by metis+
  have w: "woken_parent s (parent b) = [parent b]" using r assms(15,16) by (simp add: woken_parent_def INVALID_PID_def)
  obtain y ys2 where ys: "ys = y # ys2" using assms(14) by (cases ys) auto
  have e: "parent b \<noteq> 0 \<Longrightarrow> pcbs s (parent b) \<noteq> None"
    "\<forall>x \<in> insert (idle_proc s) (set (ys @ woken_parent s (parent b))). proc_ok s x"
    using assms(14,15,17) w by auto
  from Exit_view [OF assms(1-13) r(2) e refl refl, of h v] obtain t where "Exit h v s = Switched t"
    "kview t = (kview s)(zombie_queue s \<mapsto> zs @ [p], ready_queue s \<mapsto> tl (ys @ [parent b]))"
    "current_process t = (case ys @ [parent b] of [] \<Rightarrow> idle_proc s | x # _ \<Rightarrow> x)" "ready_queue t = ready_queue s"
    unfolding w by blast
  then show ?thesis using ys assms(14) by (intro exI [of _ t] exI [of _ "ys2 @ [parent b]"]) auto
qed

definition kernel_requeue :: kstate where
  "kernel_requeue = kernel_ex\<lparr>zombie_queue := 6,
     pcbs := pcbs_ex(101 \<mapsto> (pcb_ex 2 301)\<lparr>parent := 102\<rparr>, 102 \<mapsto> (pcb_ex 3 302)\<lparr>waiting_for_child_pid := INVALID_PID\<rparr>)\<rparr>"

theorem Exit_requeues_ready_parent_witness:
  "\<exists>t. Exit False 0 kernel_requeue = Switched t \<and> kview t (ready_queue t) = Some [102] \<and> current_process t = 102"
proof -
  have q: "queues_ok kernel_requeue" by (simp add: queues_ok_def kernel_requeue_def)
  have tab: "tables_ok (km kernel_requeue)" using kernel_ex_kinv by (simp add: kinv_def kernel_requeue_def)
  have ok: "\<forall>x \<in> insert (idle_proc kernel_requeue) (set [102]). proc_ok kernel_requeue x"
    by (simp add: proc_ok_def kernel_requeue_def kmem_ex_def KSTACK_PAGES_def)
  from Exit_requeues_ready_parent [OF q, of "[]" "[102]" 101 "(pcb_ex 2 301)\<lparr>parent := 102\<rparr>"
    "(pcb_ex 3 302)\<lparr>waiting_for_child_pid := INVALID_PID\<rparr>" False 0] tab ok
  show ?thesis by (auto simp: kernel_requeue_def qview_sys_def)
qed

end
