(* ===== verification/User_Calls.thy ===== *)
theory User_Calls
  imports Children User_Heap
begin

unbundle bit_operations_syntax

text \<open>
  The system calls as user programs see them: the stubs of \<^verbatim>\<open>yuser/calls.c\<close>, the rest of \<^verbatim>\<open>yuser/libc.c\<close> and the start-up code
  \<^verbatim>\<open>common/start.c\<close>, and how they meet the trap handlers of the kernel.

  A stub loads the call number and four arguments into registers, executes \<^verbatim>\<open>int $04\<close> and returns what it then finds in
  \<^verbatim>\<open>eax\<close>; \<open>YSYSCALL\<close> is the contents of the registers at that instruction. The checks of the heap around it are
  \<open>helper_check_heap\<close> of \<open>User_Heap\<close>, and \<^verbatim>\<open>lkra\<close> only serves messages; the variants \<^verbatim>\<open>YSYSCALL_NOCHECK\<close> and \<^verbatim>\<open>YSYSCALL_NR\<close> leave
  these out and load the registers in the same way. How the machine turns the registers
  into the user context of the handler is not part of the repository: it is the parameter \<open>enter\<close>.
\<close>

section \<open>Call numbers\<close>

definition YALNIX_READ_SECTOR :: word32 where "YALNIX_READ_SECTOR = 0x41 OR YALNIX_PREFIX"
definition YALNIX_WRITE_SECTOR :: word32 where "YALNIX_WRITE_SECTOR = 0x42 OR YALNIX_PREFIX"
definition YALNIX_PIPE_INIT :: word32 where "YALNIX_PIPE_INIT = 0x48 OR YALNIX_PREFIX"
definition YALNIX_PIPE_READ :: word32 where "YALNIX_PIPE_READ = 0x49 OR YALNIX_PREFIX"
definition YALNIX_PIPE_WRITE :: word32 where "YALNIX_PIPE_WRITE = 0x4a OR YALNIX_PREFIX"
definition YALNIX_NOP :: word32 where "YALNIX_NOP = 0x50 OR YALNIX_PREFIX"
definition YALNIX_LOCK_INIT :: word32 where "YALNIX_LOCK_INIT = 0x63 OR YALNIX_PREFIX"
definition YALNIX_LOCK_ACQUIRE :: word32 where "YALNIX_LOCK_ACQUIRE = 0x64 OR YALNIX_PREFIX"
definition YALNIX_LOCK_RELEASE :: word32 where "YALNIX_LOCK_RELEASE = 0x65 OR YALNIX_PREFIX"
definition YALNIX_CVAR_INIT :: word32 where "YALNIX_CVAR_INIT = 0x66 OR YALNIX_PREFIX"
definition YALNIX_CVAR_SIGNAL :: word32 where "YALNIX_CVAR_SIGNAL = 0x67 OR YALNIX_PREFIX"
definition YALNIX_CVAR_BROADCAST :: word32 where "YALNIX_CVAR_BROADCAST = 0x68 OR YALNIX_PREFIX"
definition YALNIX_CVAR_WAIT :: word32 where "YALNIX_CVAR_WAIT = 0x69 OR YALNIX_PREFIX"
definition YALNIX_RECLAIM :: word32 where "YALNIX_RECLAIM = 0x6a OR YALNIX_PREFIX"
definition YALNIX_SEM_INIT :: word32 where "YALNIX_SEM_INIT = 0x60 OR YALNIX_PREFIX"
definition YALNIX_SEM_UP :: word32 where "YALNIX_SEM_UP = 0x61 OR YALNIX_PREFIX"
definition YALNIX_SEM_DOWN :: word32 where "YALNIX_SEM_DOWN = 0x62 OR YALNIX_PREFIX"
definition YALNIX_SHARED_PAGES :: word32 where "YALNIX_SHARED_PAGES = 0x80 OR YALNIX_PREFIX"
definition YALNIX_CUSTOM_0 :: word32 where "YALNIX_CUSTOM_0 = 0x70 OR YALNIX_PREFIX"
definition YALNIX_CUSTOM_1 :: word32 where "YALNIX_CUSTOM_1 = 0x71 OR YALNIX_PREFIX"
definition YALNIX_CUSTOM_2 :: word32 where "YALNIX_CUSTOM_2 = 0x72 OR YALNIX_PREFIX"
definition YALNIX_ABORT :: word32 where "YALNIX_ABORT = 0xF0 OR YALNIX_PREFIX"

lemmas unused_codes = YALNIX_READ_SECTOR_def YALNIX_WRITE_SECTOR_def YALNIX_PIPE_INIT_def YALNIX_PIPE_READ_def
  YALNIX_PIPE_WRITE_def YALNIX_NOP_def YALNIX_LOCK_INIT_def YALNIX_LOCK_ACQUIRE_def
  YALNIX_LOCK_RELEASE_def YALNIX_CVAR_INIT_def YALNIX_CVAR_SIGNAL_def YALNIX_CVAR_BROADCAST_def
  YALNIX_CVAR_WAIT_def YALNIX_RECLAIM_def YALNIX_SEM_INIT_def YALNIX_SEM_UP_def
  YALNIX_SEM_DOWN_def YALNIX_SHARED_PAGES_def YALNIX_CUSTOM_0_def YALNIX_CUSTOM_1_def
  YALNIX_CUSTOM_2_def YALNIX_ABORT_def

section \<open>The stubs\<close>

record reg_file =
  r_eax :: word32
  r_ebx :: word32
  r_ecx :: word32
  r_edx :: word32
  r_edi :: word32

definition YSYSCALL :: "word32 \<Rightarrow> word32 \<Rightarrow> word32 \<Rightarrow> word32 \<Rightarrow> word32 \<Rightarrow> reg_file" where
  "YSYSCALL num a b c d = \<lparr>r_eax = a, r_ebx = b, r_ecx = c, r_edx = d, r_edi = num\<rparr>"

definition Nop_stub :: "word32 \<Rightarrow> word32 \<Rightarrow> word32 \<Rightarrow> word32 \<Rightarrow> reg_file" where "Nop_stub a b c d = YSYSCALL YALNIX_NOP a b c d"
definition Fork_stub :: "reg_file" where "Fork_stub = YSYSCALL YALNIX_FORK 0 0 0 0"
definition Exec_stub :: "word32 \<Rightarrow> word32 \<Rightarrow> reg_file" where "Exec_stub a b = YSYSCALL YALNIX_EXEC a b 0 0"
definition Exit_stub :: "word32 \<Rightarrow> reg_file" where "Exit_stub a = YSYSCALL YALNIX_EXIT a 0 0 0"
definition Wait_stub :: "word32 \<Rightarrow> reg_file" where "Wait_stub a = YSYSCALL YALNIX_WAIT a 0 0 0"
definition GetPid_stub :: "reg_file" where "GetPid_stub = YSYSCALL YALNIX_GETPID 0 0 0 0"
definition SysBrk_stub :: "word32 \<Rightarrow> reg_file" where "SysBrk_stub a = YSYSCALL YALNIX_BRK a 0 0 0"
definition Delay_stub :: "word32 \<Rightarrow> reg_file" where "Delay_stub a = YSYSCALL YALNIX_DELAY a 0 0 0"
definition TtyRead_stub :: "word32 \<Rightarrow> word32 \<Rightarrow> word32 \<Rightarrow> reg_file" where "TtyRead_stub a b c = YSYSCALL YALNIX_TTY_READ a b c 0"
definition TtyWrite_stub :: "word32 \<Rightarrow> word32 \<Rightarrow> word32 \<Rightarrow> reg_file" where "TtyWrite_stub a b c = YSYSCALL YALNIX_TTY_WRITE a b c 0"
definition ReadSector_stub :: "word32 \<Rightarrow> word32 \<Rightarrow> reg_file" where "ReadSector_stub a b = YSYSCALL YALNIX_READ_SECTOR a b 0 0"
definition WriteSector_stub :: "word32 \<Rightarrow> word32 \<Rightarrow> reg_file" where "WriteSector_stub a b = YSYSCALL YALNIX_WRITE_SECTOR a b 0 0"
definition PipeInit_stub :: "word32 \<Rightarrow> reg_file" where "PipeInit_stub a = YSYSCALL YALNIX_PIPE_INIT a 0 0 0"
definition PipeRead_stub :: "word32 \<Rightarrow> word32 \<Rightarrow> word32 \<Rightarrow> reg_file" where "PipeRead_stub a b c = YSYSCALL YALNIX_PIPE_READ a b c 0"
definition PipeWrite_stub :: "word32 \<Rightarrow> word32 \<Rightarrow> word32 \<Rightarrow> reg_file" where "PipeWrite_stub a b c = YSYSCALL YALNIX_PIPE_WRITE a b c 0"
definition SemInit_stub :: "word32 \<Rightarrow> word32 \<Rightarrow> reg_file" where "SemInit_stub a b = YSYSCALL YALNIX_SEM_INIT a b 0 0"
definition SemUp_stub :: "word32 \<Rightarrow> reg_file" where "SemUp_stub a = YSYSCALL YALNIX_SEM_UP a 0 0 0"
definition SemDown_stub :: "word32 \<Rightarrow> reg_file" where "SemDown_stub a = YSYSCALL YALNIX_SEM_DOWN a 0 0 0"
definition LockInit_stub :: "word32 \<Rightarrow> reg_file" where "LockInit_stub a = YSYSCALL YALNIX_LOCK_INIT a 0 0 0"
definition Acquire_stub :: "word32 \<Rightarrow> reg_file" where "Acquire_stub a = YSYSCALL YALNIX_LOCK_ACQUIRE a 0 0 0"
definition Release_stub :: "word32 \<Rightarrow> reg_file" where "Release_stub a = YSYSCALL YALNIX_LOCK_RELEASE a 0 0 0"
definition CvarInit_stub :: "word32 \<Rightarrow> reg_file" where "CvarInit_stub a = YSYSCALL YALNIX_CVAR_INIT a 0 0 0"
definition CvarWait_stub :: "word32 \<Rightarrow> word32 \<Rightarrow> reg_file" where "CvarWait_stub a b = YSYSCALL YALNIX_CVAR_WAIT a b 0 0"
definition CvarSignal_stub :: "word32 \<Rightarrow> reg_file" where "CvarSignal_stub a = YSYSCALL YALNIX_CVAR_SIGNAL a 0 0 0"
definition CvarBroadcast_stub :: "word32 \<Rightarrow> reg_file" where "CvarBroadcast_stub a = YSYSCALL YALNIX_CVAR_BROADCAST a 0 0 0"
definition Reclaim_stub :: "word32 \<Rightarrow> reg_file" where "Reclaim_stub a = YSYSCALL YALNIX_RECLAIM a 0 0 0"
definition Shared_Pages_stub :: "word32 \<Rightarrow> reg_file" where "Shared_Pages_stub a = YSYSCALL YALNIX_SHARED_PAGES a 0 0 0"
definition Custom0_stub :: "word32 \<Rightarrow> word32 \<Rightarrow> word32 \<Rightarrow> word32 \<Rightarrow> reg_file" where "Custom0_stub a b c d = YSYSCALL YALNIX_CUSTOM_0 a b c d"
definition Custom1_stub :: "word32 \<Rightarrow> word32 \<Rightarrow> word32 \<Rightarrow> word32 \<Rightarrow> reg_file" where "Custom1_stub a b c d = YSYSCALL YALNIX_CUSTOM_1 a b c d"
definition Custom2_stub :: "word32 \<Rightarrow> word32 \<Rightarrow> word32 \<Rightarrow> word32 \<Rightarrow> reg_file" where "Custom2_stub a b c d = YSYSCALL YALNIX_CUSTOM_2 a b c d"

text \<open>
  The user's \<^verbatim>\<open>helper_maybort\<close>: \<open>lkra\<close> is the address the last stub noted, \<open>ra\<close> the return address of the call itself. Its macro ends
  with a \<^verbatim>\<open>return\<close>, so what follows it in the source is never reached.
\<close>

definition helper_maybort_stub :: "word32 \<Rightarrow> word32 \<Rightarrow> word32 \<Rightarrow> reg_file" where
  "helper_maybort_stub lkra ra msg = YSYSCALL YALNIX_ABORT msg (if lkra = 0 then ra else lkra) 0 0"

lemmas stub_defs = YSYSCALL_def helper_maybort_stub_def
  Nop_stub_def Fork_stub_def Exec_stub_def Exit_stub_def Wait_stub_def
  GetPid_stub_def SysBrk_stub_def Delay_stub_def TtyRead_stub_def TtyWrite_stub_def
  ReadSector_stub_def WriteSector_stub_def PipeInit_stub_def PipeRead_stub_def PipeWrite_stub_def
  SemInit_stub_def SemUp_stub_def SemDown_stub_def LockInit_stub_def Acquire_stub_def
  Release_stub_def CvarInit_stub_def CvarWait_stub_def CvarSignal_stub_def CvarBroadcast_stub_def
  Reclaim_stub_def Shared_Pages_stub_def Custom0_stub_def Custom1_stub_def Custom2_stub_def

section \<open>The rest of libc.c and start.c\<close>

text \<open>The functions that end the program: the registers of the system call they end in. The library functions that user
  programs must not call end it with \<open>-1\<close>.\<close>

definition BadLib :: "reg_file" where "BadLib = Exit_stub (- 1)"
definition printf_user :: "reg_file" where "printf_user = BadLib"
definition fork_user :: "reg_file" where "fork_user = BadLib"
definition sleep_user :: "reg_file" where "sleep_user = BadLib"
definition pause_user :: "reg_file" where "pause_user = BadLib"

definition exit_user :: "word32 \<Rightarrow> reg_file" where "exit_user status = Exit_stub status"
definition underscore_exit :: "word32 \<Rightarrow> reg_file" where "underscore_exit status = exit_user status"
definition Exit_user :: "word32 \<Rightarrow> reg_file" where "Exit_user status = Exit_stub status"
definition abort_user :: "reg_file" where "abort_user = underscore_exit 255"
definition assert_fail :: "reg_file" where "assert_fail = abort_user"

text \<open>\<^verbatim>\<open>__libc_start_main\<close>: the environment begins after the null pointer that ends \<^verbatim>\<open>argv\<close>. \<open>main\<close> is the program.\<close>

definition libc_start_main :: "(word32 \<Rightarrow> word32 \<Rightarrow> word32 \<Rightarrow> word32) \<Rightarrow> word32 \<Rightarrow> word32 \<Rightarrow> reg_file" where
  "libc_start_main main argc ubp_av =
     (let argv = ubp_av; ev = argv + 4 * (argc + 1); result = main argc argv ev in underscore_exit result)"

definition default_morecore :: "int \<Rightarrow> (uheap, nat) prog" where
  "default_morecore increment = bnd (sbrk increment) (\<lambda>result. case result of None \<Rightarrow> ret 0 | Some a \<Rightarrow> ret a)"

definition getpagesize :: nat where "getpagesize = PAGESIZE"

section \<open>Into the kernel and back\<close>

text \<open>What the machine does at \<^verbatim>\<open>int $04\<close>: the user context has the number and the arguments.\<close>

definition passes_registers :: "(reg_file \<Rightarrow> UserContext \<Rightarrow> UserContext) \<Rightarrow> bool" where
  "passes_registers enter \<longleftrightarrow> (\<forall>r c. code (enter r c) = r_edi r \<and> length (regs (enter r c)) = 8 \<and>
     reg (enter r c) 0 = r_eax r \<and> reg (enter r c) 1 = r_ebx r \<and> reg (enter r c) 2 = r_ecx r \<and> reg (enter r c) 3 = r_edx r)"

definition user_call :: "file_system \<Rightarrow> (reg_file \<Rightarrow> UserContext \<Rightarrow> UserContext) \<Rightarrow> reg_file \<Rightarrow> (kstate, unit) prog" where
  "user_call fs enter r = (\<lambda>s. trap fs TRAP_KERNEL [] (s\<lparr>ctx := enter r (ctx s)\<rparr>))"

definition call_result :: "kstate \<Rightarrow> int" where
  "call_result s = sint (reg (ctx s) 0)"

definition kernel_vector :: "kstate \<Rightarrow> bool" where
  "kernel_vector s \<longleftrightarrow> TRAP_KERNEL < length (TRAP_VECTOR s) \<and> TRAP_VECTOR s ! TRAP_KERNEL = H_Kernel"

lemma user_call_handler:
  "kernel_vector s \<Longrightarrow> user_call fs enter r s = KernelTrapHandler fs (s\<lparr>ctx := enter r (ctx s)\<rparr>)"
  by (simp add: user_call_def trap_def kernel_vector_def)

lemma passes_registersD:
  assumes "passes_registers enter"
  shows "code (enter r c) = r_edi r" "length (regs (enter r c)) = 8" "reg (enter r c) 0 = r_eax r"
    "reg (enter r c) 1 = r_ebx r" "reg (enter r c) 2 = r_ecx r" "reg (enter r c) 3 = r_edx r"
  using assms by (simp_all add: passes_registers_def)

definition enter_ex :: "reg_file \<Rightarrow> UserContext \<Rightarrow> UserContext" where
  "enter_ex r c = c\<lparr>vector := 0, code := r_edi r, regs := [r_eax r, r_ebx r, r_ecx r, r_edx r, 0, 0, 0, 0]\<rparr>"

lemma passes_enter_ex: "passes_registers enter_ex"
  by (simp add: passes_registers_def enter_ex_def reg_def)

definition with_vector :: "kstate \<Rightarrow> kstate" where
  "with_vector s = s\<lparr>TRAP_VECTOR := (replicate TRAP_VECTOR_SIZE H_NotImplemented)[TRAP_KERNEL := H_Kernel]\<rparr>"

lemma kernel_vector_with: "kernel_vector (with_vector s)"
  by (simp add: kernel_vector_def with_vector_def vector_defs)

text \<open>The stubs whose call numbers the switch of \<^verbatim>\<open>KernelTrapHandler\<close> does not list.\<close>

definition unimplemented :: "reg_file \<Rightarrow> bool" where
  "unimplemented r \<longleftrightarrow> (\<exists>a b c d. r \<in> {Nop_stub a b c d, ReadSector_stub a b, WriteSector_stub a b, PipeInit_stub a,
     PipeRead_stub a b c, PipeWrite_stub a b c, SemInit_stub a b, SemUp_stub a, SemDown_stub a, LockInit_stub a, Acquire_stub a,
     Release_stub a, CvarInit_stub a, CvarWait_stub a b, CvarSignal_stub a, CvarBroadcast_stub a, Reclaim_stub a,
     Shared_Pages_stub a, Custom0_stub a b c d, Custom1_stub a b c d, Custom2_stub a b c d, helper_maybort_stub a b c})"

lemma unimplemented_code:
  assumes "unimplemented r"
  shows "r_edi r \<notin> {YALNIX_DELAY, YALNIX_BRK, YALNIX_FORK, YALNIX_GETPID, YALNIX_WAIT, YALNIX_EXIT, YALNIX_EXEC,
    YALNIX_TTY_READ, YALNIX_TTY_WRITE}"
  using assms by (auto simp: unimplemented_def stub_defs unused_codes trap_codes)

text \<open>
  C39. The calls the kernel does not implement fail silently: the stub of a pipe, lock, condition variable, semaphore or other
  unused call returns its own first argument, as if that were the result of the call, and the kernel does nothing. The call by which the
  user heap reports that it is corrupted is one of them.
\<close>

theorem unimplemented_call_returns_argument:
  assumes "passes_registers enter" and "kernel_vector s" and "unimplemented r"
  shows "\<exists>t. user_call fs enter r s = Ret () t \<and> t = s\<lparr>ctx := enter r (ctx s)\<rparr> \<and> call_result t = sint (r_eax r)"
  using unimplemented_code [OF assms(3)]
  by (simp add: user_call_handler assms(2) KernelTrapHandler_def prog_simps passes_registersD [OF assms(1)] call_result_def)

theorem unimplemented_call_returns_argument_witness:
  "\<exists>t. user_call (\<lambda>_. None) enter_ex (PipeRead_stub 3 0x100000 10) (with_vector kernel_ex) = Ret () t \<and> call_result t = 3"
proof -
  have "unimplemented (PipeRead_stub 3 0x100000 10)" by (auto simp: unimplemented_def)
  then show ?thesis
    using unimplemented_call_returns_argument [OF passes_enter_ex kernel_vector_with, of "PipeRead_stub 3 0x100000 10" "\<lambda>_. None" kernel_ex]
    by (auto simp: stub_defs)
qed

section \<open>The end of a program\<close>

lemma exit_call: "kernel_vector s \<Longrightarrow> passes_registers enter \<Longrightarrow>
    user_call fs enter (Exit_stub v) s = Exit False (sint v) (s\<lparr>ctx := enter (Exit_stub v) (ctx s)\<rparr>)"
  by (simp add: user_call_handler KernelTrapHandler_def prog_simps passes_registersD stub_defs trap_codes)

lemma ctx_irrelevant:
  "queues_ok (s\<lparr>ctx := c\<rparr>) = queues_ok s" "proc_ok (s\<lparr>ctx := c\<rparr>) q = proc_ok s q" "my_zombie (s\<lparr>ctx := c\<rparr>) b zs = my_zombie s b zs"
  by (auto simp: queues_ok_def proc_ok_def my_zombie_def split: option.splits)

text \<open>
  C17. What \<^verbatim>\<open>main\<close> returns reaches the parent: when the program of a process returns from \<^verbatim>\<open>main\<close> while its parent sleeps in \<^verbatim>\<open>Wait\<close> and no other process is ready,
  the start-up code, the stub of \<^verbatim>\<open>_Exit\<close> and the kernel together give the processor to the parent, with the parent's kernel stack and table mapped. The kernel then continues the parent
  in \<^verbatim>\<open>Wait\<close>: if the four bytes of the value \<^verbatim>\<open>main\<close> returned can be stored where the parent asked for them, they are, and the parent returns to
  user mode with the pid of the process as the result of its call; the process is gone. (With other processes ready they run first; an address that cannot be stored to crashes the kernel.)
\<close>

theorem main_result_reaches_parent:
  assumes "passes_registers enter" and "kernel_vector s"
    and "queues_ok s" "kview s (zombie_queue s) = Some zs" "kview s (ready_queue s) = Some []"
    and "\<forall>n. malloc_ok s n" "\<forall>n. kcs_ok s n" and "tables_ok (km s)"
    and "current_process s = p" "p \<noteq> 0" "pcbs s p = Some b" "pid b \<noteq> 1" "p \<noteq> idle_proc s"
    and "parent b = r" "r \<noteq> 0" "r \<noteq> p" "pcbs s r = Some rb" "ppid b = pid rb"
    and "pstate rb = PROC_BLOCKED" "waiting_for_child_pid rb = 1" "kernel_context rb = KC_Wait a"
    and "proc_ok s r" "proc_ok s (idle_proc s)"
    and "p \<notin> set zs" "r \<notin> set zs" "\<forall>x \<in> set zs. pcbs s x \<noteq> None" "my_zombie s rb zs = None"
    and "kview s (children_processes rb) = Some cs" "kview s (children_processes b) = Some ds" "\<forall>d \<in> set ds. pcbs s d \<noteq> None"
    and "distinct [children_processes rb, zombie_queue s, children_processes b, ready_queue s]"
  shows "\<exists>t. user_call fs enter (libc_start_main main argc argv) s = Switched t \<and> current_process t = r \<and>
    km t = switch_mem (the (pts (km s) (kstack rb))) rb (km s) \<and>
    (\<forall>m'. status_stored a (sint (main argc argv (argv + 4 * (argc + 1)))) (km t) m' \<longrightarrow>
      (\<exists>u. resume t = Ret () u \<and> current_process u = r \<and> ctx u = set_reg0 (word_of_int (pid b)) (user_context rb) \<and>
        phys (km u) = phys m' \<and> pcbs u p = None))"
proof -
  define v where "v = main argc argv (argv + 4 * (argc + 1))"
  define s' where "s' = s\<lparr>ctx := enter (Exit_stub v) (ctx s)\<rparr>"
  have e: "libc_start_main main argc argv = Exit_stub v"
    by (simp add: libc_start_main_def underscore_exit_def exit_user_def v_def Let_def)
  have w: "waiting_for_child_pid rb \<noteq> 0" using assms(20) by simp
  have "\<exists>t. Exit False (sint v) s' = Switched t \<and> current_process t = r \<and>
    km t = switch_mem (the (pts (km s') (kstack rb))) rb (km s') \<and>
    pcbs t r = Some (rb\<lparr>pstate := PROC_RUNNING, waiting_for_child_pid := 0\<rparr>) \<and> (\<forall>m'. status_stored a (sint v) (km t) m' \<longrightarrow>
    (\<exists>u. Wait_resume a t = Ret (pid b) u \<and> pcbs u p = None \<and> phys (km u) = phys m' \<and> current_process u = r \<and>
      (\<exists>c. pcbs u r = Some c \<and> user_context c = user_context rb) \<and>
      kview u (zombie_queue s') = Some zs \<and> kview u (children_processes rb) = Some (remove1 p cs)))"
    by (rule Exit_wakes_parent [where ds = ds]) (use assms(3-18,22-) w in \<open>simp_all add: s'_def ctx_irrelevant\<close>)
  moreover have ks: "km s' = km s" by (simp add: s'_def)
  ultimately obtain t where t: "Exit False (sint v) s' = Switched t" "current_process t = r" "km t = switch_mem (the (pts (km s) (kstack rb))) rb (km s)"
      "pcbs t r = Some (rb\<lparr>pstate := PROC_RUNNING, waiting_for_child_pid := 0\<rparr>)"
    and st: "\<And>m'. status_stored a (sint v) (km t) m' \<Longrightarrow> \<exists>u. Wait_resume a t = Ret (pid b) u \<and> pcbs u p = None \<and> phys (km u) = phys m' \<and>
      current_process u = r \<and> (\<exists>c. pcbs u r = Some c \<and> user_context c = user_context rb)" unfolding ks by blast
  have "\<exists>u. resume t = Ret () u \<and> current_process u = r \<and> ctx u = set_reg0 (word_of_int (pid b)) (user_context rb) \<and> phys (km u) = phys m' \<and> pcbs u p = None"
    if "status_stored a (sint v) (km t) m'" for m'
  proof -
    from st [OF that] obtain u c where u: "Wait_resume a t = Ret (pid b) u" "pcbs u p = None" "phys (km u) = phys m'"
      "current_process u = r" "pcbs u r = Some c" "user_context c = user_context rb" by blast
    have "resume t = return_with (pid b) u"
      using t(2,4) assms(15,21) u(1) by (simp add: resume_def bnd_app gets_app get_pcb_eval)
    also have "\<dots> = Ret () (u\<lparr>ctx := set_reg0 (word_of_int (pid b)) (user_context rb)\<rparr>)"
      using u(4-6) assms(15) by (simp add: return_with_def load_ctx_def ctx_reg0_def thn_app bnd_app gets_app get_pcb_eval modify_app)
    finally show ?thesis using u by (intro exI [of _ "u\<lparr>ctx := set_reg0 (word_of_int (pid b)) (user_context rb)\<rparr>"]) simp
  qed
  with t(1-3) show ?thesis unfolding e exit_call [OF assms(2,1)] v_def [symmetric] s'_def [symmetric] by blast
qed

text \<open>The process 104 of \<^verbatim>\<open>Children\<close> runs; its parent 101 sleeps in \<^verbatim>\<open>Wait\<close> and wants the status at the start of its first page, which is frame 16.\<close>

definition kernel_main :: kstate where
  "kernel_main = with_vector (kernel_exit\<lparr>pcbs := (pcbs kernel_exit)(101 \<mapsto> (the (pcbs kernel_exit 101))\<lparr>kernel_context := KC_Wait 0x100000\<rparr>)\<rparr>)"

lemma store_status_ex:
  assumes m: "m = switch_mem K rb kmem_ex" "ptbr rb = 401" "ptlr rb = MAX_PT_LEN"
  shows "\<exists>m'. status_stored 0x100000 7 m m' \<and> map (phys m' 16) [0, 1, 2, 3] = [7, 0, 0, 0]"
proof -
  have fr: "frame_of (pte_ex 16) = 16" by (rule frame_pte_ex) simp
  have pr: "prot (pte_ex 16) AND PROT_WRITE = PROT_WRITE" by (simp add: pte_ex_def prot_defs)
  have "pt_entry m 128 = Some (pte_ex 16)"
    by (simp add: pt_entry_def m switch_mem_def MAX_PT_LEN_def kmem_ex_def pte_ex_def nth_append)
  moreover have "tlb m = (\<lambda>_. None)" "nframes m = 128" by (simp_all add: m switch_mem_def)
  ultimately have tr: "translate m 128 = Some (pte_ex 16)" "nframes m = 128" by (simp_all add: translate_def)
  have st: "store_byte a b x = Ret () (x\<lparr>tlb := (tlb x)(128 \<mapsto> pte_ex 16), phys := (phys x)(16 := (phys x 16)(page_off a := b))\<rparr>)"
    if "vpn_of a = 128" "translate x 128 = Some (pte_ex 16)" "nframes x = 128" for a b x
    using that fr pr by (simp add: store_byte_def access_def bnd_app modify_app)
  have kept: "translate (x\<lparr>tlb := (tlb x)(128 \<mapsto> pte_ex 16), phys := ph\<rparr>) 128 = Some (pte_ex 16)" for x ph
    by (simp add: translate_def)
  have v: "vpn_of 0x100000 = 128" "vpn_of 0x100001 = 128" "vpn_of 0x100002 = 128" "vpn_of 0x100003 = 128"
    "page_off 0x100000 = 0" "page_off 0x100001 = 1" "page_off 0x100002 = 2" "page_off 0x100003 = 3"
    by (simp_all add: vpn_of_div page_off_def PAGESIZE_def)
  have w: "word_bytes 7 = [7, 0, 0, 0]" by (simp add: word_bytes_def)
  show ?thesis
    by (simp add: status_stored_def store_int_def w thn_app ret_app st v tr kept)
qed

theorem main_result_reaches_parent_witness:
  "\<exists>t u. user_call (\<lambda>_. None) enter_ex (libc_start_main (\<lambda>_ _ _. 7) 0 0) kernel_main = Switched t \<and>
     resume t = Ret () u \<and> current_process u = 101 \<and> reg (ctx u) 0 = 5 \<and> map (phys (km u) 16) [0, 1, 2, 3] = [7, 0, 0, 0]"
proof -
  let ?rb = "(pcb_ex 2 301)\<lparr>children_processes := 4, pstate := PROC_BLOCKED, waiting_for_child_pid := 1, kernel_context := KC_Wait 0x100000\<rparr>"
  let ?b = "(pcb_ex 5 304)\<lparr>pstate := PROC_RUNNING, ppid := 2, parent := 101, children_processes := 1\<rparr>"
  let ?s = kernel_main
  have rb: "the (pcbs kernel_exit 101)\<lparr>kernel_context := KC_Wait 0x100000\<rparr> = ?rb" by (simp add: kernel_exit_def pcb_ex_def pcb0_def)
  have f: "pcbs ?s = (pcbs kernel_exit)(101 \<mapsto> ?rb)" "km ?s = kmem_ex" "qh ?s = qheap_sys" "current_process ?s = 104" "ready_queue ?s = 5" "zombie_queue ?s = 6"
    "idle_proc ?s = 100" "malloc_ok ?s = (\<lambda>_. True)" "kcs_ok ?s = (\<lambda>_. True)" "pcbs ?s 104 = Some ?b" "pcbs ?s 101 = Some ?rb" "next_addr ?s = 1000"
    unfolding kernel_main_def rb by (simp_all add: with_vector_def kernel_exit_def)
  have q: "queues_ok ?s" by (simp add: queues_ok_def f)
  have tab: "tables_ok (km ?s)" using kernel_ex_kinv by (simp add: kinv_def f)
  have ok: "proc_ok ?s 101" "proc_ok ?s (idle_proc ?s)"
    by (simp_all add: proc_ok_def f kmem_ex_def KSTACK_PAGES_def) (simp_all add: kernel_exit_def f kmem_ex_def KSTACK_PAGES_def)
  have vec: "kernel_vector ?s" unfolding kernel_main_def by (rule kernel_vector_with)
  from main_result_reaches_parent [OF passes_enter_ex vec q, of "[]" 104 ?b 101 ?rb "0x100000" "[104]" "[102]"
      "\<lambda>_. None" "\<lambda>_ _ _. 7" 0 0] tab ok
  have "\<exists>t. user_call (\<lambda>_. None) enter_ex (libc_start_main (\<lambda>_ _ _. 7) 0 0) ?s = Switched t \<and> current_process t = 101 \<and>
    km t = switch_mem (the (pts kmem_ex 301)) ?rb kmem_ex \<and>
    (\<forall>m'. status_stored 0x100000 7 (km t) m' \<longrightarrow> (\<exists>u. resume t = Ret () u \<and> current_process u = 101 \<and> ctx u = set_reg0 5 uctx0 \<and> phys (km u) = phys m' \<and> pcbs u 104 = None))"
    by (simp add: f qview_sys_def my_zombie_def) (simp add: kernel_exit_def)
  then obtain t where t: "user_call (\<lambda>_. None) enter_ex (libc_start_main (\<lambda>_ _ _. 7) 0 0) ?s = Switched t"
    "km t = switch_mem (the (pts kmem_ex 301)) ?rb kmem_ex"
    and st: "\<And>m'. status_stored 0x100000 7 (km t) m' \<Longrightarrow> \<exists>u. resume t = Ret () u \<and> current_process u = 101 \<and> ctx u = set_reg0 5 uctx0 \<and> phys (km u) = phys m'"
    by blast
  from store_status_ex [OF t(2)] obtain m' where m': "status_stored 0x100000 7 (km t) m'" "map (phys m' 16) [0, 1, 2, 3] = [7, 0, 0, 0]" by auto
  from st [OF m'(1)] obtain u where "resume t = Ret () u" "current_process u = 101" "ctx u = set_reg0 5 uctx0" "phys (km u) = phys m'" by blast
  moreover have "reg (set_reg0 5 uctx0) 0 = 5" by (simp add: reg_def set_reg0_def uctx0_def)
  ultimately show ?thesis using t(1) m'(2) by (intro exI [of _ t] exI [of _ u]) simp
qed

end
