(* ===== verification/User_Strings.thy ===== *)
theory User_Strings
  imports Hardware "HOL-Library.Monad_Syntax"
begin

unbundle bit_operations_syntax

text \<open>
  The C library of user programs, \<^verbatim>\<open>.yalnix/etc/yuserlib/common\<close>: character classes, blocks of memory, strings, numbers
  and random numbers.

  The memory of a program is a map from addresses to bytes, \<open>None\<close> where nothing is mapped. A function returns
  \<open>None\<close> when it touches such an address or does not return, and otherwise its value and the memory it leaves (just the
  value, when it writes nothing). A null pointer is 0. Pointers and sizes are numbers: no object crosses the end of the
  address space. \<^verbatim>\<open>memcpy\<close>, \<^verbatim>\<open>memmove\<close> and \<^verbatim>\<open>memset\<close> are the i386 variants, with the repeated string instructions
  of the assembler text as functions of their own; each sets the direction flag before it uses it.
\<close>

type_synonym cmem = "nat \<Rightarrow> byte option"

definition st :: "nat \<Rightarrow> byte \<Rightarrow> cmem \<Rightarrow> cmem option" where
  "st p b m = (if m p = None then None else Some (m(p \<mapsto> b)))"

section \<open>Character classes\<close>

definition ctype_upper :: byte where "ctype_upper = push_bit 0 1"
definition ctype_lower :: byte where "ctype_lower = push_bit 1 1"
definition ctype_digit :: byte where "ctype_digit = push_bit 2 1"
definition ctype_xdigit :: byte where "ctype_xdigit = push_bit 3 1"
definition ctype_space :: byte where "ctype_space = push_bit 4 1"
definition ctype_print :: byte where "ctype_print = push_bit 5 1"
definition ctype_punct :: byte where "ctype_punct = push_bit 6 1"
definition ctype_cntrl :: byte where "ctype_cntrl = push_bit 7 1"

text \<open>The entries of the table in the order of the file, equal neighbours taken together.\<close>

definition ctypes_ascii :: "byte list" where
  "ctypes_ascii =
     [0] @
     replicate 8 ctype_cntrl @
     replicate 6 (ctype_cntrl OR ctype_space) @
     replicate 18 ctype_cntrl @
     [ctype_print OR ctype_space] @
     replicate 15 (ctype_print OR ctype_punct) @
     replicate 10 (ctype_print OR ctype_digit OR ctype_xdigit) @
     replicate 7 (ctype_print OR ctype_punct) @
     replicate 6 (ctype_print OR ctype_upper OR ctype_xdigit) @
     replicate 20 (ctype_print OR ctype_upper) @
     replicate 6 (ctype_print OR ctype_punct) @
     replicate 6 (ctype_print OR ctype_lower OR ctype_xdigit) @
     replicate 20 (ctype_print OR ctype_lower) @
     replicate 4 (ctype_print OR ctype_punct) @
     [ctype_cntrl]"

definition ctypes_latin :: "byte list" where
  "ctypes_latin =
     replicate 32 ctype_cntrl @
     [ctype_print OR ctype_space] @
     replicate 31 (ctype_print OR ctype_punct) @
     replicate 23 (ctype_print OR ctype_upper) @
     [ctype_print OR ctype_punct] @
     replicate 7 (ctype_print OR ctype_upper) @
     replicate 24 (ctype_print OR ctype_lower) @
     [ctype_print OR ctype_punct] @
     replicate 8 (ctype_print OR ctype_lower)"

definition ctypes :: "byte list" where
  "ctypes = ctypes_ascii @ ctypes_latin"

text \<open>The index is \<^verbatim>\<open>__c + 1\<close>; a call outside \<open>-1\<close> to \<open>255\<close> reads past the table and has no meaning in C.\<close>

definition ctype_of :: "int \<Rightarrow> byte" where
  "ctype_of c = ctypes ! nat (c + 1)"

definition isalnum :: "int \<Rightarrow> bool" where
  "isalnum c \<longleftrightarrow> ctype_of c AND (ctype_upper OR ctype_lower OR ctype_digit) \<noteq> 0"

definition isalpha :: "int \<Rightarrow> bool" where
  "isalpha c \<longleftrightarrow> ctype_of c AND (ctype_upper OR ctype_lower) \<noteq> 0"

definition isascii :: "int \<Rightarrow> bool" where
  "isascii c \<longleftrightarrow> c AND NOT 0x7f = 0"

definition isblank :: "int \<Rightarrow> bool" where
  "isblank c \<longleftrightarrow> c = 9 \<or> c = 32"

definition iscntrl :: "int \<Rightarrow> bool" where
  "iscntrl c \<longleftrightarrow> ctype_of c AND ctype_cntrl \<noteq> 0"

definition isdigit :: "int \<Rightarrow> bool" where
  "isdigit c \<longleftrightarrow> (word_of_int c :: word32) - 48 \<le> 9"

definition isgraph :: "int \<Rightarrow> bool" where
  "isgraph c \<longleftrightarrow> ctype_of c AND (ctype_upper OR ctype_lower OR ctype_digit OR ctype_punct) \<noteq> 0"

definition islower :: "int \<Rightarrow> bool" where
  "islower c \<longleftrightarrow> ctype_of c AND ctype_lower \<noteq> 0"

definition isprint :: "int \<Rightarrow> bool" where
  "isprint c \<longleftrightarrow> ctype_of c AND ctype_print \<noteq> 0"

definition ispunct :: "int \<Rightarrow> bool" where
  "ispunct c \<longleftrightarrow> ctype_of c AND ctype_punct \<noteq> 0"

definition isspace :: "int \<Rightarrow> bool" where
  "isspace c \<longleftrightarrow> ctype_of c AND ctype_space \<noteq> 0"

definition isupper :: "int \<Rightarrow> bool" where
  "isupper c \<longleftrightarrow> ctype_of c AND ctype_upper \<noteq> 0"

definition isxdigit :: "int \<Rightarrow> bool" where
  "isxdigit c \<longleftrightarrow> ctype_of c AND ctype_xdigit \<noteq> 0"

definition toupper :: "int \<Rightarrow> int" where
  "toupper c = (if islower c then c AND NOT 32 else c)"

definition tolower :: "int \<Rightarrow> int" where
  "tolower c = (if isupper c then c OR 32 else c)"

section \<open>Blocks of memory\<close>

fun memccpy :: "nat \<Rightarrow> nat \<Rightarrow> int \<Rightarrow> nat \<Rightarrow> cmem \<Rightarrow> (nat \<times> cmem) option" where
  "memccpy q p c 0 m = Some (0, m)"
| "memccpy q p c (Suc n) m = do {
     ch \<leftarrow> m p;
     m \<leftarrow> st q ch m;
     if ch = word_of_int c then Some (q + 1, m) else memccpy (q + 1) (p + 1) c n m }"

fun memchr :: "nat \<Rightarrow> int \<Rightarrow> nat \<Rightarrow> cmem \<Rightarrow> nat option" where
  "memchr p c 0 m = Some 0"
| "memchr p c (Suc n) m = do {
     b \<leftarrow> m p;
     if b = word_of_int c then Some p else memchr (p + 1) c n m }"

fun memrchr_loop :: "nat \<Rightarrow> int \<Rightarrow> nat \<Rightarrow> cmem \<Rightarrow> nat option" where
  "memrchr_loop p c 0 m = Some 0"
| "memrchr_loop p c (Suc n) m = do {
     b \<leftarrow> m p;
     if b = word_of_int c then Some p else memrchr_loop (p - 1) c n m }"

definition memrchr :: "nat \<Rightarrow> int \<Rightarrow> nat \<Rightarrow> cmem \<Rightarrow> nat option" where
  "memrchr s c n m = memrchr_loop (s + n - 1) c n m"

fun memcmp :: "nat \<Rightarrow> nat \<Rightarrow> nat \<Rightarrow> cmem \<Rightarrow> int option" where
  "memcmp c1 c2 0 m = Some 0"
| "memcmp c1 c2 (Suc n) m = do {
     a \<leftarrow> m c1; b \<leftarrow> m c2;
     let d = uint a - uint b in
     if d \<noteq> 0 then Some d else memcmp (c1 + 1) (c2 + 1) n m }"

text \<open>\<^verbatim>\<open>rep movsb\<close> upwards and downwards, \<^verbatim>\<open>rep movsl\<close>: \<open>p\<close> is the source and \<open>q\<close> the destination register.\<close>

fun movsb :: "nat \<Rightarrow> nat \<Rightarrow> nat \<Rightarrow> cmem \<Rightarrow> (nat \<times> nat \<times> cmem) option" where
  "movsb 0 p q m = Some (p, q, m)"
| "movsb (Suc n) p q m = do { b \<leftarrow> m p; m \<leftarrow> st q b m; movsb n (p + 1) (q + 1) m }"

fun movsb_down :: "nat \<Rightarrow> nat \<Rightarrow> nat \<Rightarrow> cmem \<Rightarrow> (nat \<times> nat \<times> cmem) option" where
  "movsb_down 0 p q m = Some (p, q, m)"
| "movsb_down (Suc n) p q m = do { b \<leftarrow> m p; m \<leftarrow> st q b m; movsb_down n (p - 1) (q - 1) m }"

fun movsl :: "nat \<Rightarrow> nat \<Rightarrow> nat \<Rightarrow> cmem \<Rightarrow> (nat \<times> nat \<times> cmem) option" where
  "movsl 0 p q m = Some (p, q, m)"
| "movsl (Suc n) p q m = do {
     b0 \<leftarrow> m p; b1 \<leftarrow> m (p + 1); b2 \<leftarrow> m (p + 2); b3 \<leftarrow> m (p + 3);
     m \<leftarrow> st q b0 m; m \<leftarrow> st (q + 1) b1 m; m \<leftarrow> st (q + 2) b2 m; m \<leftarrow> st (q + 3) b3 m;
     movsl n (p + 4) (q + 4) m }"

definition memcpy :: "nat \<Rightarrow> nat \<Rightarrow> nat \<Rightarrow> cmem \<Rightarrow> (nat \<times> cmem) option" where
  "memcpy dst src n m = do {
     (p, q, m) \<leftarrow> movsl (n div 4) src dst m;
     (p, q, m) \<leftarrow> movsb (n mod 4) p q m;
     Some (dst, m) }"

definition memmove :: "nat \<Rightarrow> nat \<Rightarrow> nat \<Rightarrow> cmem \<Rightarrow> (nat \<times> cmem) option" where
  "memmove dst src n m =
     (if dst < src then do { (p, q, m) \<leftarrow> movsb n src dst m; Some (dst, m) }
      else do { (p, q, m) \<leftarrow> movsb_down n (src + (n - 1)) (dst + (n - 1)) m; Some (dst, m) })"

fun stosb :: "nat \<Rightarrow> byte \<Rightarrow> nat \<Rightarrow> cmem \<Rightarrow> (nat \<times> cmem) option" where
  "stosb 0 b q m = Some (q, m)"
| "stosb (Suc n) b q m = do { m \<leftarrow> st q b m; stosb n b (q + 1) m }"

fun st_all :: "nat \<Rightarrow> byte list \<Rightarrow> cmem \<Rightarrow> cmem option" where
  "st_all q [] m = Some m"
| "st_all q (b # bs) m = do { m \<leftarrow> st q b m; st_all (q + 1) bs m }"

fun stosl :: "nat \<Rightarrow> word32 \<Rightarrow> nat \<Rightarrow> cmem \<Rightarrow> (nat \<times> cmem) option" where
  "stosl 0 w q m = Some (q, m)"
| "stosl (Suc n) w q m = do { m \<leftarrow> st_all q (word_bytes w) m; stosl n w (q + 4) m }"

definition memset :: "nat \<Rightarrow> int \<Rightarrow> nat \<Rightarrow> cmem \<Rightarrow> (nat \<times> cmem) option" where
  "memset dst c n m = (let a = ucast (word_of_int c :: byte) * (0x01010101 :: word32) in do {
     (q, m) \<leftarrow> stosl (n div 4) a dst m;
     (q, m) \<leftarrow> stosb (n mod 4) (ucast a) q m;
     Some (dst, m) })"

definition bzero :: "nat \<Rightarrow> nat \<Rightarrow> cmem \<Rightarrow> cmem option" where
  "bzero s n m = do { (_, m) \<leftarrow> memset s 0 n m; Some m }"

fun memswap :: "nat \<Rightarrow> nat \<Rightarrow> nat \<Rightarrow> cmem \<Rightarrow> cmem option" where
  "memswap p q 0 m = Some m"
| "memswap p q (Suc n) m = do {
     tmp \<leftarrow> m p; b \<leftarrow> m q;
     m \<leftarrow> st p b m; m \<leftarrow> st q tmp m;
     memswap (p + 1) (q + 1) n m }"

text \<open>The search of \<^verbatim>\<open>memmem\<close>: the loop for needles of two bytes and more, and the one for a single byte. The steps
  \<open>k\<close> and \<open>l\<close> are 1 and 2 in some order; the test that they are not 0 makes the definition total.\<close>

function memmem_loop :: "nat \<Rightarrow> nat \<Rightarrow> nat \<Rightarrow> nat \<Rightarrow> nat \<Rightarrow> nat \<Rightarrow> nat \<Rightarrow> cmem \<Rightarrow> nat option" where
  "memmem_loop j k l y n x len m =
     (if k = 0 \<or> l = 0 then None
      else if j \<le> n - len then do {
        x1 \<leftarrow> m (x + 1); y1 \<leftarrow> m (y + j + 1);
        if x1 \<noteq> y1 then memmem_loop (j + k) k l y n x len m
        else do {
          d \<leftarrow> memcmp (x + 2) (y + j + 2) (len - 2) m;
          found \<leftarrow> (if d = 0 then do { x0 \<leftarrow> m x; y0 \<leftarrow> m (y + j); Some (x0 = y0) } else Some False);
          if found then Some (y + j) else memmem_loop (j + l) k l y n x len m } }
      else Some 0)"
  by auto
termination by (relation "measure (\<lambda>(j, k, l, y, n, x, len, m). Suc n - j)") auto

fun memmem_one :: "nat \<Rightarrow> nat \<Rightarrow> nat \<Rightarrow> cmem \<Rightarrow> nat option" where
  "memmem_one y 0 x m = Some 0"
| "memmem_one y (Suc n) x m = do {
     a \<leftarrow> m y; b \<leftarrow> m x;
     if a = b then Some y else memmem_one (y + 1) n x m }"

definition memmem :: "nat \<Rightarrow> nat \<Rightarrow> nat \<Rightarrow> nat \<Rightarrow> cmem \<Rightarrow> nat option" where
  "memmem haystack n needle len m =
     (if n < len \<or> len = 0 \<or> n = 0 then Some 0
      else if len \<noteq> 1 then do {
        x0 \<leftarrow> m needle; x1 \<leftarrow> m (needle + 1);
        let (k, l) = (if x0 = x1 then (2, 1) else (1, 2)) in
        memmem_loop 0 k l haystack n needle len m }
      else memmem_one haystack n needle m)"

section \<open>Strings\<close>

partial_function (option) strlen_loop :: "nat \<Rightarrow> cmem \<Rightarrow> nat option" where
  "strlen_loop p m = do { b \<leftarrow> m p; if b \<noteq> 0 then strlen_loop (p + 1) m else Some p }"

definition strlen :: "nat \<Rightarrow> cmem \<Rightarrow> nat option" where
  "strlen s m = do { p \<leftarrow> strlen_loop s m; Some (p - s) }"

fun strnlen_loop :: "nat \<Rightarrow> nat \<Rightarrow> cmem \<Rightarrow> nat option" where
  "strnlen_loop p 0 m = Some p"
| "strnlen_loop p (Suc maxlen) m = do { b \<leftarrow> m p; if b \<noteq> 0 then strnlen_loop (p + 1) maxlen m else Some p }"

definition strnlen :: "nat \<Rightarrow> nat \<Rightarrow> cmem \<Rightarrow> nat option" where
  "strnlen s maxlen m = do { p \<leftarrow> strnlen_loop s maxlen m; Some (p - s) }"

partial_function (option) strchr :: "nat \<Rightarrow> int \<Rightarrow> cmem \<Rightarrow> nat option" where
  "strchr s c m = do {
     b \<leftarrow> m s;
     if b \<noteq> word_of_int c then (if b = 0 then Some 0 else strchr (s + 1) c m) else Some s }"

partial_function (option) strcmp :: "nat \<Rightarrow> nat \<Rightarrow> cmem \<Rightarrow> int option" where
  "strcmp c1 c2 m = do {
     ch \<leftarrow> m c1; b \<leftarrow> m c2;
     let d = uint ch - uint b in
     if d \<noteq> 0 \<or> ch = 0 then Some d else strcmp (c1 + 1) (c2 + 1) m }"

fun strncmp_loop :: "int \<Rightarrow> nat \<Rightarrow> nat \<Rightarrow> nat \<Rightarrow> cmem \<Rightarrow> int option" where
  "strncmp_loop d c1 c2 0 m = Some d"
| "strncmp_loop d c1 c2 (Suc n) m = do {
     ch \<leftarrow> m c1; b \<leftarrow> m c2;
     let d = uint ch - uint b in
     if d \<noteq> 0 \<or> ch = 0 then Some d else strncmp_loop d (c1 + 1) (c2 + 1) n m }"

definition strncmp :: "nat \<Rightarrow> nat \<Rightarrow> nat \<Rightarrow> cmem \<Rightarrow> int option" where
  "strncmp s1 s2 n m = strncmp_loop 0 s1 s2 n m"

partial_function (option) strcpy_loop :: "nat \<Rightarrow> nat \<Rightarrow> cmem \<Rightarrow> cmem option" where
  "strcpy_loop q p m = do {
     ch \<leftarrow> m p;
     m \<leftarrow> st q ch m;
     if ch \<noteq> 0 then strcpy_loop (q + 1) (p + 1) m else Some m }"

definition strcpy :: "nat \<Rightarrow> nat \<Rightarrow> cmem \<Rightarrow> (nat \<times> cmem) option" where
  "strcpy dst src m = do { m \<leftarrow> strcpy_loop dst src m; Some (dst, m) }"

text \<open>\<^verbatim>\<open>i\<close> runs from \<^verbatim>\<open>len - n\<close> on; \<open>dst\<close> and \<open>src\<close> are the addresses of the elements at \<^verbatim>\<open>i\<close>.\<close>

fun strncpy_loop :: "bool \<Rightarrow> nat \<Rightarrow> nat \<Rightarrow> nat \<Rightarrow> cmem \<Rightarrow> cmem option" where
  "strncpy_loop zmode dst src 0 m = Some m"
| "strncpy_loop zmode dst src (Suc n) m =
     (if zmode then do { m \<leftarrow> st dst 0 m; strncpy_loop zmode (dst + 1) (src + 1) n m }
      else do {
        b \<leftarrow> m src;
        m \<leftarrow> st dst b m;
        c \<leftarrow> m src;
        strncpy_loop (c = 0) (dst + 1) (src + 1) n m })"

definition strncpy :: "nat \<Rightarrow> nat \<Rightarrow> nat \<Rightarrow> cmem \<Rightarrow> (nat \<times> cmem) option" where
  "strncpy dst src len m = do { m \<leftarrow> strncpy_loop False dst src len m; Some (dst, m) }"

definition strcat :: "nat \<Rightarrow> nat \<Rightarrow> cmem \<Rightarrow> (nat \<times> cmem) option" where
  "strcat dst src m = do { q \<leftarrow> strchr dst 0 m; (_, m) \<leftarrow> strcpy q src m; Some (dst, m) }"

fun strncat_loop :: "nat \<Rightarrow> nat \<Rightarrow> nat \<Rightarrow> cmem \<Rightarrow> cmem option" where
  "strncat_loop q p 0 m = st q 0 m"
| "strncat_loop q p (Suc n) m = do {
     ch \<leftarrow> m p;
     m \<leftarrow> st q ch m;
     if ch = 0 then Some m else strncat_loop (q + 1) (p + 1) n m }"

definition strncat :: "nat \<Rightarrow> nat \<Rightarrow> nat \<Rightarrow> cmem \<Rightarrow> (nat \<times> cmem) option" where
  "strncat dst src n m = do { q \<leftarrow> strchr dst 0 m; m \<leftarrow> strncat_loop q src n m; Some (dst, m) }"

text \<open>
  \<^verbatim>\<open>__strxspn\<close>: \<open>mm\<close> is the array \<^verbatim>\<open>matchmap\<close>, which lives on the stack of the function.
\<close>

partial_function (option) strxspn_map :: "nat \<Rightarrow> (byte \<Rightarrow> int) \<Rightarrow> cmem \<Rightarrow> (byte \<Rightarrow> int) option" where
  "strxspn_map p mm m = do { b \<leftarrow> m p; if b \<noteq> 0 then strxspn_map (p + 1) (mm(b := 1)) m else Some mm }"

partial_function (option) strxspn_span :: "nat \<Rightarrow> (byte \<Rightarrow> int) \<Rightarrow> int \<Rightarrow> nat \<Rightarrow> cmem \<Rightarrow> nat option" where
  "strxspn_span s mm parity n m = do {
     b \<leftarrow> m s;
     if mm b XOR parity \<noteq> 0 then strxspn_span (s + 1) mm parity (n + 1) m else Some n }"

definition strxspn :: "nat \<Rightarrow> nat \<Rightarrow> int \<Rightarrow> cmem \<Rightarrow> nat option" where
  "strxspn s map_p parity m = do {
     mm \<leftarrow> strxspn_map map_p (\<lambda>_. 0) m;
     strxspn_span s (mm(0 := parity)) parity 0 m }"

definition strpbrk :: "nat \<Rightarrow> nat \<Rightarrow> cmem \<Rightarrow> nat option" where
  "strpbrk s accept m = do {
     n \<leftarrow> strxspn s accept 1 m;
     b \<leftarrow> m (s + n);
     Some (if b \<noteq> 0 then s + n else 0) }"

text \<open>\<^verbatim>\<open>strsep\<close> gets the pointer that \<^verbatim>\<open>stringp\<close> points to and returns the value it stores there.\<close>

definition strsep :: "nat \<Rightarrow> nat \<Rightarrow> cmem \<Rightarrow> (nat \<times> nat \<times> cmem) option" where
  "strsep s delim m =
     (if s = 0 then Some (0, 0, m)
      else do {
        e \<leftarrow> strpbrk s delim m;
        if e \<noteq> 0 then do { m \<leftarrow> st e 0 m; Some (s, e + 1, m) } else Some (s, 0, m) })"

text \<open>\<^verbatim>\<open>strtok\<close> with its static variable \<^verbatim>\<open>holder\<close> as an argument and a result.\<close>

partial_function (option) strtok_loop :: "nat \<Rightarrow> nat \<Rightarrow> cmem \<Rightarrow> (nat \<times> nat \<times> cmem) option" where
  "strtok_loop holder delim m = do {
     (s, holder, m) \<leftarrow> strsep holder delim m;
     if s = 0 then Some (s, holder, m)
     else do { b \<leftarrow> m s; if b = 0 then strtok_loop holder delim m else Some (s, holder, m) } }"

definition strtok :: "nat \<Rightarrow> nat \<Rightarrow> nat \<Rightarrow> cmem \<Rightarrow> (nat \<times> nat \<times> cmem) option" where
  "strtok holder s delim m = strtok_loop (if s \<noteq> 0 then s else holder) delim m"

section \<open>Numbers\<close>

definition digitval :: "int \<Rightarrow> int" where
  "digitval ch =
     (if 48 \<le> ch \<and> ch \<le> 57 then ch - 48
      else if 65 \<le> ch \<and> ch \<le> 90 then ch - 65 + 10
      else if 97 \<le> ch \<and> ch \<le> 122 then ch - 97 + 10
      else -1)"

fun skip_spaces :: "nat \<Rightarrow> nat \<Rightarrow> cmem \<Rightarrow> (nat \<times> nat) option" where
  "skip_spaces nptr 0 m = Some (nptr, 0)"
| "skip_spaces nptr (Suc n) m = do {
     b \<leftarrow> m nptr;
     if isspace (uint b) then skip_spaces (nptr + 1) n m else Some (nptr, Suc n) }"

definition optional_sign :: "nat \<Rightarrow> nat \<Rightarrow> cmem \<Rightarrow> (bool \<times> nat \<times> nat) option" where
  "optional_sign nptr n m =
     (if n \<noteq> 0 then do {
        c \<leftarrow> m nptr;
        if c = 45 \<or> c = 43 then Some (c = 45, nptr + 1, n - 1) else Some (False, nptr, n) }
      else Some (False, nptr, n))"

text \<open>\<^verbatim>\<open>nptr[0] == '0' && (nptr[1] == 'x' || nptr[1] == 'X')\<close> and \<^verbatim>\<open>nptr[0] == '0'\<close>, guarded by the length.\<close>

definition hex_prefix :: "nat \<Rightarrow> nat \<Rightarrow> cmem \<Rightarrow> bool option" where
  "hex_prefix nptr n m =
     (if 2 \<le> n then do {
        a \<leftarrow> m nptr;
        if a = 48 then do { b \<leftarrow> m (nptr + 1); Some (b = 120 \<or> b = 88) } else Some False }
      else Some False)"

definition octal_prefix :: "nat \<Rightarrow> nat \<Rightarrow> cmem \<Rightarrow> bool option" where
  "octal_prefix nptr n m = (if 1 \<le> n then do { a \<leftarrow> m nptr; Some (a = 48) } else Some False)"

definition number_prefix :: "int \<Rightarrow> nat \<Rightarrow> nat \<Rightarrow> cmem \<Rightarrow> (int \<times> nat \<times> nat) option" where
  "number_prefix base nptr n m =
     (if base = 0 then do {
        hex \<leftarrow> hex_prefix nptr n m;
        if hex then Some (16, nptr + 2, n - 2)
        else do {
          oct \<leftarrow> octal_prefix nptr n m;
          if oct then Some (8, nptr + 1, n - 1) else Some (10, nptr, n) } }
      else if base = 16 then do {
        hex \<leftarrow> hex_prefix nptr n m;
        if hex then Some (base, nptr + 2, n - 2) else Some (base, nptr, n) }
      else Some (base, nptr, n))"

fun digits_loop :: "int \<Rightarrow> 64 word \<Rightarrow> nat \<Rightarrow> nat \<Rightarrow> cmem \<Rightarrow> (64 word \<times> nat) option" where
  "digits_loop base v nptr 0 m = Some (v, nptr)"
| "digits_loop base v nptr (Suc n) m = do {
     b \<leftarrow> m nptr;
     let d = digitval (sint b) in
     if 0 \<le> d \<and> d < base then digits_loop base (v * word_of_int base + word_of_int d) (nptr + 1) n m
     else Some (v, nptr) }"

text \<open>The value and the pointer stored through \<^verbatim>\<open>endptr\<close>.\<close>

definition strntoumax :: "nat \<Rightarrow> int \<Rightarrow> nat \<Rightarrow> cmem \<Rightarrow> (64 word \<times> nat) option" where
  "strntoumax nptr base n m = do {
     (nptr, n) \<leftarrow> skip_spaces nptr n m;
     (minus, nptr, n) \<leftarrow> optional_sign nptr n m;
     (base, nptr, n) \<leftarrow> number_prefix base nptr n m;
     (v, nptr) \<leftarrow> digits_loop base 0 nptr n m;
     Some (if minus then - v else v, nptr) }"

section \<open>Random numbers\<close>

type_synonym seed48 = "16 word \<times> 16 word \<times> 16 word"

definition jrand48 :: "seed48 \<Rightarrow> int \<times> seed48" where
  "jrand48 xsubi = (case xsubi of (x0, x1, x2) \<Rightarrow>
     let x = (ucast x0 :: 64 word) + push_bit 16 (ucast x1) + push_bit 32 (ucast x2);
         x = 0x5deece66d * x + 0xb
     in (sint (ucast (drop_bit 16 x) :: 32 word), (ucast x, ucast (drop_bit 16 x), ucast (drop_bit 32 x))))"

definition srand48 :: "int \<Rightarrow> seed48" where
  "srand48 seedval = (0x330e, word_of_int seedval, ucast (drop_bit 16 (word_of_int seedval :: 32 word)))"

definition srand :: "32 word \<Rightarrow> seed48" where
  "srand seed = srand48 (sint seed)"

definition mrand48 :: "seed48 \<Rightarrow> int \<times> seed48" where
  "mrand48 rand48_seed = jrand48 rand48_seed"

text \<open>\<^verbatim>\<open>-rc\<close> is computed in an \<^verbatim>\<open>int\<close> of 32 bits.\<close>

definition rand :: "seed48 \<Rightarrow> int \<times> seed48" where
  "rand rand48_seed = (let (rc, seed) = jrand48 rand48_seed in
     (if rc < 0 then sint (- word_of_int rc :: 32 word) else rc, seed))"

end
