(* ===== verification/String_Properties.thy ===== *)
theory String_Properties
  imports User_Strings
begin

text \<open>
  What the memory and string functions of the user library compute: copying between overlapping blocks, searching,
  comparing, appending, splitting and reading numbers.
\<close>

section \<open>Contents of memory\<close>

primrec bytes_at :: "cmem \<Rightarrow> nat \<Rightarrow> byte list \<Rightarrow> bool" where
  "bytes_at m p [] = True"
| "bytes_at m p (x # xs) = (m p = Some x \<and> bytes_at m (Suc p) xs)"

definition cstring :: "cmem \<Rightarrow> nat \<Rightarrow> byte list \<Rightarrow> bool" where
  "cstring m p xs \<longleftrightarrow> bytes_at m p (xs @ [0]) \<and> 0 \<notin> set xs"

definition is_mapped :: "cmem \<Rightarrow> nat \<Rightarrow> nat \<Rightarrow> bool" where
  "is_mapped m p n \<longleftrightarrow> (\<forall>i < n. m (p + i) \<noteq> None)"

definition filled :: "nat \<Rightarrow> byte list \<Rightarrow> cmem \<Rightarrow> cmem" where
  "filled p xs m = (\<lambda>a. if p \<le> a \<and> a < p + length xs then Some (xs ! (a - p)) else m a)"

definition copied :: "nat \<Rightarrow> nat \<Rightarrow> nat \<Rightarrow> cmem \<Rightarrow> cmem" where
  "copied dst src n m = (\<lambda>a. if dst \<le> a \<and> a < dst + n then m (src + (a - dst)) else m a)"

definition apart_ranges :: "nat \<Rightarrow> nat \<Rightarrow> nat \<Rightarrow> nat \<Rightarrow> bool" where
  "apart_ranges p k q n \<longleftrightarrow> p + k \<le> q \<or> q + n \<le> p"

lemma bytes_at_nth: "bytes_at m p xs \<longleftrightarrow> (\<forall>i < length xs. m (p + i) = Some (xs ! i))"
  by (induction xs arbitrary: p) (auto simp: All_less_Suc2 nth_Cons split: nat.split)

lemma bytes_at_append [simp]: "bytes_at m p (xs @ ys) \<longleftrightarrow> bytes_at m p xs \<and> bytes_at m (p + length xs) ys"
  by (induction xs arbitrary: p) auto

lemma is_mapped_0 [simp]: "is_mapped m p 0"
  by (simp add: is_mapped_def)

lemma is_mapped_Suc [simp]: "is_mapped m p (Suc n) \<longleftrightarrow> m p \<noteq> None \<and> is_mapped m (Suc p) n"
  by (simp add: is_mapped_def All_less_Suc2)

lemma is_mapped_add: "is_mapped m p (k + n) \<longleftrightarrow> is_mapped m p k \<and> is_mapped m (p + k) n"
  by (induction k arbitrary: p) auto

lemma is_mapped_part: "is_mapped m p n \<Longrightarrow> i + k \<le> n \<Longrightarrow> is_mapped m (p + i) k"
  by (auto simp: is_mapped_def add.assoc)

lemma is_mapped_upd [simp]: "is_mapped m p n \<Longrightarrow> is_mapped (m(q \<mapsto> b)) p n"
  by (auto simp: is_mapped_def)

lemma is_mapped_copied [simp]: "is_mapped m p n \<Longrightarrow> is_mapped m src k \<Longrightarrow> is_mapped (copied dst src k m) p n"
proof -
  assume m: "is_mapped m p n" "is_mapped m src k"
  have "copied dst src k m (p + i) \<noteq> None" if "i < n" for i
  proof (cases "dst \<le> p + i \<and> p + i < dst + k")
    case True
    then have "p + i - dst < k" by arith
    with m(2) have "m (src + (p + i - dst)) \<noteq> None" by (auto simp only: is_mapped_def)
    with True show ?thesis by (simp add: copied_def)
  next
    case False
    then have "copied dst src k m (p + i) = m (p + i)" by (auto simp: copied_def)
    with m(1) that show ?thesis by (simp add: is_mapped_def)
  qed
  then show ?thesis by (simp add: is_mapped_def)
qed

lemma is_mappedD: "is_mapped m p n \<Longrightarrow> i < n \<Longrightarrow> \<exists>b. m (p + i) = Some b"
  by (auto simp: is_mapped_def)

lemma bytes_mapped: "bytes_at m p xs \<Longrightarrow> is_mapped m p (length xs)"
  by (induction xs arbitrary: p) auto

lemma st_Some [simp]: "m p \<noteq> None \<Longrightarrow> st p b m = Some (m(p \<mapsto> b))"
  by (simp add: st_def)

section \<open>Copying\<close>

lemma copied_step:
  assumes "m p = Some b" and "q \<le> p \<or> p + n < q"
  shows "copied (Suc q) (Suc p) n (m(q \<mapsto> b)) = copied q p (Suc n) m"
proof
  fix a
  consider "a = q" | "q < a" "a < Suc q + n" | "a < q \<or> q + n < a" by linarith
  then show "copied (Suc q) (Suc p) n (m(q \<mapsto> b)) a = copied q p (Suc n) m a"
  proof cases
    case 2
    then have "Suc p + (a - Suc q) = p + (a - q)" "p + (a - q) \<noteq> q" using assms(2) by auto
    with 2 show ?thesis by (simp add: copied_def)
  qed (use assms in \<open>auto simp: copied_def\<close>)
qed

lemma movsb_copies:
  "is_mapped m p n \<Longrightarrow> is_mapped m q n \<Longrightarrow> q \<le> p \<or> p + n \<le> q \<Longrightarrow> movsb n p q m = Some (p + n, q + n, copied q p n m)"
proof (induction n arbitrary: p q m)
  case 0
  then show ?case by (auto simp: copied_def fun_eq_iff)
next
  case (Suc n)
  then obtain b where b: "m p = Some b" by auto
  have "is_mapped (m(q \<mapsto> b)) (Suc p) n" "is_mapped (m(q \<mapsto> b)) (Suc q) n" using Suc.prems(1,2) by simp_all
  then have "movsb n (Suc p) (Suc q) (m(q \<mapsto> b)) = Some (Suc p + n, Suc q + n, copied (Suc q) (Suc p) n (m(q \<mapsto> b)))"
    using Suc.prems(3) by (intro Suc.IH) (auto simp del: fun_upd_apply)
  with b Suc.prems copied_step [where m = m and p = p and b = b and q = q and n = n] show ?case by (auto simp del: fun_upd_apply)
qed

lemma copied_step_down:
  assumes "m (p + n) = Some b" and "p \<le> q"
  shows "copied q p n (m(q + n \<mapsto> b)) = copied q p (Suc n) m"
  using assms by (auto simp: copied_def fun_eq_iff less_Suc_eq)

lemma movsb_down_copies:
  "is_mapped m p n \<Longrightarrow> is_mapped m q n \<Longrightarrow> p \<le> q \<Longrightarrow>
    \<exists>p' q'. movsb_down n (p + (n - 1)) (q + (n - 1)) m = Some (p', q', copied q p n m)"
proof (induction n arbitrary: m)
  case 0
  then show ?case by (auto simp: copied_def fun_eq_iff)
next
  case (Suc n)
  from is_mappedD [OF Suc.prems(1), of n] obtain b where b: "m (p + n) = Some b" by auto
  from is_mappedD [OF Suc.prems(2), of n] have q: "m (q + n) \<noteq> None" by auto
  have "is_mapped m p n" "is_mapped m q n" using Suc.prems(1,2) by (auto simp: is_mapped_def)
  with Suc.IH [of "m(q + n \<mapsto> b)"] Suc.prems(3) have
    "\<exists>p' q'. movsb_down n (p + (n - 1)) (q + (n - 1)) (m(q + n \<mapsto> b)) = Some (p', q', copied q p (Suc n) m)"
    using copied_step_down [where m = m and p = p and n = n and b = b and q = q] b by (simp del: fun_upd_apply)
  moreover have "p + n - 1 = p + (n - 1) \<and> q + n - 1 = q + (n - 1)" if "n \<noteq> 0" using that by simp
  ultimately show ?case using b q by (cases n) auto
qed

lemma memmove_copies:
  "is_mapped m src n \<Longrightarrow> is_mapped m dst n \<Longrightarrow> memmove dst src n m = Some (dst, copied dst src n m)"
  using movsb_copies [of m src n dst] movsb_down_copies [of m src n dst]
  by (cases "dst < src") (auto simp: memmove_def)

lemma movsl_movsb:
  "is_mapped m p (4 * k) \<Longrightarrow> is_mapped m q (4 * k) \<Longrightarrow> apart_ranges p (4 * k) q (4 * k) \<Longrightarrow> movsl k p q m = movsb (4 * k) p q m"
proof (induction k arbitrary: p q m)
  case 0
  then show ?case by simp
next
  case (Suc k)
  have e: "4 * Suc k = Suc (Suc (Suc (Suc (4 * k))))" by simp
  from Suc.prems(1,2) [unfolded e] obtain b0 b1 b2 b3 where b: "m p = Some b0" "m (Suc p) = Some b1"
    "m (Suc (Suc p)) = Some b2" "m (Suc (Suc (Suc p))) = Some b3" by auto
  define m4 where "m4 = m(q \<mapsto> b0, Suc q \<mapsto> b1, Suc (Suc q) \<mapsto> b2, Suc (Suc (Suc q)) \<mapsto> b3)"
  have mp: "is_mapped m4 (p + 4) (4 * k)" "is_mapped m4 (q + 4) (4 * k)"
    using Suc.prems(1,2) [unfolded e] by (simp_all add: m4_def eval_nat_numeral)
  have "movsl k (p + 4) (q + 4) m4 = movsb (4 * k) (p + 4) (q + 4) m4"
    using Suc.prems(3) by (intro Suc.IH mp) (auto simp: apart_ranges_def)
  then show ?case
    using Suc.prems b unfolding e by (auto simp: m4_def eval_nat_numeral apart_ranges_def)
qed


text \<open>
  C23. \<^verbatim>\<open>memmove\<close> copies correctly however the two blocks overlap: the destination ends up with what the source held before
  the call, and nothing else changes. Where the blocks do not overlap, \<^verbatim>\<open>memcpy\<close>, which moves four bytes at a time, is
  equal to it.
\<close>

theorem memmove_correct:
  assumes "is_mapped m src n" and "is_mapped m dst n"
  shows "memmove dst src n m = Some (dst, \<lambda>a. if dst \<le> a \<and> a < dst + n then m (src + (a - dst)) else m a) \<and>
    (apart_ranges src n dst n \<longrightarrow> memcpy dst src n m = memmove dst src n m)"
proof -
  have mv: "memmove dst src n m = Some (dst, copied dst src n m)" using assms by (rule memmove_copies)
  have "memcpy dst src n m = Some (dst, copied dst src n m)" if d: "apart_ranges src n dst n"
  proof -
    define k r where "k = 4 * (n div 4)" and "r = n mod 4"
    have n: "n = k + r" by (simp add: k_def r_def)
    have mp: "is_mapped m src k" "is_mapped m dst k" "is_mapped m (src + k) r" "is_mapped m (dst + k) r"
      using assms unfolding n is_mapped_add by simp_all
    have ap: "apart_ranges src k dst k" "dst \<le> src \<or> src + k \<le> dst" "dst + k \<le> src + k \<or> src + k + r \<le> dst + k"
      using d n by (auto simp: apart_ranges_def)
    have "movsl (n div 4) src dst m = Some (src + k, dst + k, copied dst src k m)"
      using movsl_movsb [of m src "n div 4" dst] movsb_copies [OF mp(1,2) ap(2)] mp ap(1) by (simp add: k_def)
    moreover have "movsb r (src + k) (dst + k) (copied dst src k m) =
        Some (src + k + r, dst + k + r, copied (dst + k) (src + k) r (copied dst src k m))"
      by (rule movsb_copies) (use mp ap in simp_all)
    moreover have "copied (dst + k) (src + k) r (copied dst src k m) = copied dst src n m" unfolding n
    proof
      fix a show "copied (dst + k) (src + k) r (copied dst src k m) a = copied dst src (k + r) m a"
        using d n by (cases "dst + k \<le> a") (auto simp: copied_def apart_ranges_def)
    qed
    ultimately show ?thesis by (simp add: memcpy_def r_def [symmetric])
  qed
  with mv show ?thesis by (simp add: copied_def)
qed

theorem memmove_correct_witness:
  "\<exists>m'. memmove 12 10 4 [10 \<mapsto> 1, 11 \<mapsto> 2, 12 \<mapsto> 3, 13 \<mapsto> 4, 14 \<mapsto> 5, 15 \<mapsto> 6] = Some (12, m') \<and> m' 14 = Some 3 \<and> m' 15 = Some 4"
  using memmove_correct [of "[10 \<mapsto> 1, 11 \<mapsto> 2, 12 \<mapsto> 3, 13 \<mapsto> 4, 14 \<mapsto> 5, 15 \<mapsto> 6]" 10 4 12]
  by (simp add: is_mapped_def All_less_Suc eval_nat_numeral)

section \<open>Searching\<close>

lemma memcmp_zero:
  "is_mapped m p n \<Longrightarrow> is_mapped m q n \<Longrightarrow> \<exists>d. memcmp p q n m = Some d \<and> (d = 0 \<longleftrightarrow> (\<forall>i < n. m (p + i) = m (q + i)))"
proof (induction n arbitrary: p q)
  case 0
  then show ?case by simp
next
  case (Suc n)
  then obtain a b where ab: "m p = Some a" "m q = Some b" by auto
  from Suc.IH [of "Suc p" "Suc q"] Suc.prems obtain d where "memcmp (Suc p) (Suc q) n m = Some d" "d = 0 \<longleftrightarrow> (\<forall>i < n. m (Suc p + i) = m (Suc q + i))" by auto
  with ab show ?case by (auto simp: All_less_Suc2 Let_def word_uint_eq_iff)
qed

definition occurs :: "cmem \<Rightarrow> nat \<Rightarrow> nat \<Rightarrow> nat \<Rightarrow> nat \<Rightarrow> bool" where
  "occurs m y x len j \<longleftrightarrow> (\<forall>i < len. m (y + j + i) = m (x + i))"

text \<open>The offset of the first occurrence of the needle, if there is one.\<close>

definition first_occurrence :: "cmem \<Rightarrow> nat \<Rightarrow> nat \<Rightarrow> nat \<Rightarrow> nat \<Rightarrow> nat option" where
  "first_occurrence m y n x len = find (occurs m y x len) [0..<Suc (n - len)]"

lemma occurs_2: "occurs m y x (Suc (Suc k)) j \<longleftrightarrow>
    m (y + j) = m x \<and> m (Suc (y + j)) = m (Suc x) \<and> (\<forall>i < k. m (y + j + 2 + i) = m (x + 2 + i))"
  by (simp add: occurs_def All_less_Suc2)

lemma find_upt_skip: "i \<le> j \<Longrightarrow> (\<forall>a. i \<le> a \<and> a < j \<longrightarrow> \<not> P a) \<Longrightarrow> find P [i..<n] = find P [j..<n]"
proof (induction "j - i" arbitrary: i)
  case 0
  then show ?case by simp
next
  case (Suc d)
  then have "find P [Suc i..<n] = find P [j..<n]" by (intro Suc.hyps) auto
  moreover have "\<not> P i" using Suc by simp
  ultimately show ?case using Suc.hyps(2) by (cases "i < n") (simp_all add: upt_conv_Cons)
qed


lemma memmem_loop_finds:
  assumes x: "m x = Some x0" "m (Suc x) = Some x1" and kl: "(k, l) = (if x0 = x1 then (2, 1) else (1, 2))"
    and len: "len = Suc (Suc w)" "len \<le> n" and mapped: "is_mapped m y n" "is_mapped m x len"
  shows "memmem_loop j k l y n x len m =
    Some (case find (occurs m y x len) [j..<Suc (n - len)] of None \<Rightarrow> 0 | Some i \<Rightarrow> y + i)"
proof (induction "Suc n - j" arbitrary: j rule: less_induct)
  case less
  have kl0: "0 < k" "0 < l" using kl by (auto split: if_splits)
  let ?find = "\<lambda>j. case find (occurs m y x len) [j..<Suc (n - len)] of None \<Rightarrow> 0 | Some i \<Rightarrow> y + i"
  show ?case
  proof (cases "j \<le> n - len")
    case False
    then show ?thesis using kl0 by simp
  next
    case True
    then have jn: "j + len \<le> n" using len(2) by simp
    from is_mappedD [OF mapped(1), of j] is_mappedD [OF mapped(1), of "Suc j"] jn len(1) obtain y0 y1 where
      y: "m (y + j) = Some y0" "m (Suc (y + j)) = Some y1" by auto
    have "is_mapped m (x + 2) w" "is_mapped m (y + j + 2) w"
      using is_mapped_part [OF mapped(1), of "j + 2" w] is_mapped_part [OF mapped(2), of 2 w] jn len(1) by (simp_all add: add.assoc)
    from memcmp_zero [OF this] obtain d where d: "memcmp (x + 2) (y + j + 2) w m = Some d"
      "d = 0 \<longleftrightarrow> (\<forall>i < w. m (x + 2 + i) = m (y + j + 2 + i))" by blast
    have occ: "occurs m y x len j \<longleftrightarrow> y0 = x0 \<and> y1 = x1 \<and> d = 0"
      using x y d(2) by (auto simp: len(1) occurs_2)
    have occS: "occurs m y x len (Suc j) \<Longrightarrow> y1 = x0" using x y by (auto simp: len(1) occurs_2)
    have IH: "memmem_loop (j + i) k l y n x len m = Some (?find (j + i))" if "0 < i" for i
      using that True by (intro less.hyps) auto
    show ?thesis
    proof (cases "x1 = y1")
      case False
      have "find (occurs m y x len) [j..<Suc (n - len)] = find (occurs m y x len) [j + k..<Suc (n - len)]"
        using False occ occS kl by (intro find_upt_skip) (auto split: if_splits dest: le_Suc_eq [THEN iffD1] simp: less_Suc_eq numeral_2_eq_2)
      then show ?thesis using False True kl0 x y IH [OF kl0(1)] by simp
    next
      case eq: True
      show ?thesis
      proof (cases "occurs m y x len j")
        case True
        then show ?thesis using eq \<open>j \<le> n - len\<close> kl0 x y d(1) occ by (simp add: upt_conv_Cons len(1) del: upt_Suc)
      next
        case False
        have "find (occurs m y x len) [j..<Suc (n - len)] = find (occurs m y x len) [j + l..<Suc (n - len)]"
          using False eq occS kl by (intro find_upt_skip) (auto split: if_splits simp: less_Suc_eq numeral_2_eq_2)
        then show ?thesis using False eq True kl0 x y IH [OF kl0(2)] d(1) occ by (auto simp: len(1))
      qed
    qed
  qed
qed


lemma memmem_one_finds:
  "is_mapped m y n \<Longrightarrow> m x = Some b \<Longrightarrow>
    memmem_one (y + j) k x m = Some (case find (occurs m y x 1) [j..<j + k] of None \<Rightarrow> 0 | Some i \<Rightarrow> y + i)" if "j + k \<le> n"
  using that
proof (induction k arbitrary: j)
  case 0
  then show ?case by simp
next
  case (Suc k)
  from is_mappedD [OF Suc.prems(1), of j] Suc.prems(3) obtain a where "m (y + j) = Some a" by auto
  with Suc.IH [of "Suc j"] Suc.prems show ?case by (auto simp: upt_conv_Cons occurs_def simp del: upt_Suc)
qed

text \<open>
  C22. \<^verbatim>\<open>memmem\<close> finds the first occurrence of the needle in the haystack and returns null when there is none: the steps of two
  bytes that the search takes never jump over an occurrence.
\<close>

theorem memmem_finds_first:
  assumes "is_mapped m haystack n" and "is_mapped m needle len" and "0 < len" "len \<le> n"
  shows "memmem haystack n needle len m =
    Some (case first_occurrence m haystack n needle len of None \<Rightarrow> 0 | Some j \<Rightarrow> haystack + j)"
proof (cases "len = 1")
  case True
  then obtain b where "m needle = Some b" using assms(2) by auto
  then show ?thesis using memmem_one_finds [of 0 n n m haystack needle b] assms True
    by (simp add: memmem_def first_occurrence_def)
next
  case False
  then obtain w where len: "len = Suc (Suc w)" using assms(3) by (cases len; cases "len - 1") auto
  obtain x0 x1 where x: "m needle = Some x0" "m (Suc needle) = Some x1" using assms(2) len by auto
  show ?thesis
    using memmem_loop_finds [OF x _ len assms(4,1,2), of _ _ 0] x assms(4) len
    by (auto simp: memmem_def first_occurrence_def)
qed

theorem memmem_finds_first_witness:
  "memmem 10 5 20 2 [10 \<mapsto> 1, 11 \<mapsto> 2, 12 \<mapsto> 2, 13 \<mapsto> 3, 14 \<mapsto> 3, 20 \<mapsto> 2, 21 \<mapsto> 3] = Some 12"
proof -
  let ?m = "[10 \<mapsto> 1, 11 \<mapsto> 2, 12 \<mapsto> 2, 13 \<mapsto> 3, 14 \<mapsto> 3, 20 \<mapsto> 2, 21 \<mapsto> 3] :: cmem"
  have "is_mapped ?m 10 5" "is_mapped ?m 20 2" by (simp_all add: is_mapped_def All_less_Suc eval_nat_numeral)
  moreover have "first_occurrence ?m 10 5 20 2 = Some 2"
    by (simp add: first_occurrence_def occurs_def All_less_Suc eval_nat_numeral upt_conv_Cons)
  ultimately show ?thesis using memmem_finds_first [of ?m 10 5 20 2] by simp
qed


section \<open>Strings\<close>

lemma cstring_Nil [simp]: "cstring m p [] \<longleftrightarrow> m p = Some 0"
  by (simp add: cstring_def)

lemma cstring_Cons [simp]: "cstring m p (x # xs) \<longleftrightarrow> m p = Some x \<and> x \<noteq> 0 \<and> cstring m (Suc p) xs"
  by (auto simp: cstring_def)

lemma cstring_upd: "q < p \<or> p + length xs < q \<Longrightarrow> cstring (m(q \<mapsto> b)) p xs = cstring m p xs"
  by (induction xs arbitrary: p) auto

lemma cstring_append: "cstring m p (xs @ ys) \<longleftrightarrow> bytes_at m p xs \<and> 0 \<notin> set xs \<and> cstring m (p + length xs) ys"
  by (auto simp: cstring_def add.assoc)

lemma uint_pos: "x \<noteq> 0 \<Longrightarrow> 0 < uint (x :: byte)"
  by (simp add: word_neq_0_conv word_less_def)

lemma strlen_loop_ends: "cstring m p xs \<Longrightarrow> strlen_loop p m = Some (p + length xs)"
  by (induction xs arbitrary: p) (subst strlen_loop.simps, simp)+

lemma strlen_length: "cstring m p xs \<Longrightarrow> strlen p m = Some (length xs)"
  by (simp add: strlen_def strlen_loop_ends)

lemma strchr_end: "cstring m p xs \<Longrightarrow> strchr p 0 m = Some (p + length xs)"
  by (induction xs arbitrary: p) (subst strchr.simps, simp)+

lemma strcmp_value:
  "cstring m p xs \<Longrightarrow> cstring m q ys \<Longrightarrow>
    \<exists>d. strcmp p q m = Some d \<and> (d = 0 \<longleftrightarrow> xs = ys) \<and> (d < 0 \<longleftrightarrow> (xs, ys) \<in> lexord {(a, b). a < b})"
proof (induction xs arbitrary: p q ys)
  case Nil
  then show ?case by (cases ys) (subst strcmp.simps, auto simp: Let_def dest: uint_pos)+
next
  case (Cons x xs)
  show ?case
  proof (cases ys)
    case Nil
    have "uint x > 0" using Cons.prems by (simp add: uint_pos)
    then show ?thesis using Cons.prems Nil by (subst strcmp.simps) (simp add: Let_def)
  next
    case (Cons y zs)
    have u: "uint x = uint y \<longleftrightarrow> x = y" "uint x < uint y \<longleftrightarrow> x < y" by (auto simp: word_uint_eq_iff word_less_def)
    from Cons.prems Cons Cons.IH [of "Suc p" "Suc q" zs] obtain d where "strcmp (Suc p) (Suc q) m = Some d"
      "d = 0 \<longleftrightarrow> xs = zs" "d < 0 \<longleftrightarrow> (xs, zs) \<in> lexord {(a, b). a < b}" by auto
    with Cons.prems Cons u show ?thesis
      by (subst strcmp.simps) (auto simp: Let_def)
  qed
qed

text \<open>
  \<^verbatim>\<open>strcmp\<close> always ends on two strings, and its sign is the lexicographic order of their bytes taken as unsigned
  numbers: zero for equal strings, negative when the first comes before the second.
\<close>

theorem strcmp_lexicographic:
  assumes "cstring m p xs" and "cstring m q ys"
  shows "\<exists>d. strcmp p q m = Some d \<and> (d = 0 \<longleftrightarrow> xs = ys) \<and> (d < 0 \<longleftrightarrow> (xs, ys) \<in> lexord {(a, b). a < b})"
  using assms by (rule strcmp_value)

theorem strcmp_lexicographic_witness:
  "\<exists>d. strcmp 10 20 [10 \<mapsto> 97, 11 \<mapsto> 0, 20 \<mapsto> 97, 21 \<mapsto> 200, 22 \<mapsto> 0] = Some d \<and> d < 0"
  using strcmp_lexicographic [of "[10 \<mapsto> 97, 11 \<mapsto> 0, 20 \<mapsto> 97, 21 \<mapsto> 200, 22 \<mapsto> 0]" 10 "[97]" 20 "[97, 200]"] by auto

lemma filled_step: "filled (Suc q) xs (m(q \<mapsto> x)) = filled q (x # xs) m"
proof
  fix a show "filled (Suc q) xs (m(q \<mapsto> x)) a = filled q (x # xs) m a"
  proof (cases "q < a")
    case True
    then obtain k where "a = Suc (q + k)" by (auto simp: less_iff_Suc_add)
    then show ?thesis by (simp add: filled_def)
  qed (auto simp: filled_def)
qed

lemma strcpy_loop_fills:
  "cstring m p xs \<Longrightarrow> is_mapped m q (Suc (length xs)) \<Longrightarrow> apart_ranges p (Suc (length xs)) q (Suc (length xs)) \<Longrightarrow>
    strcpy_loop q p m = Some (filled q (xs @ [0]) m)"
proof (induction xs arbitrary: p q m)
  case Nil
  then show ?case by (subst strcpy_loop.simps) (auto simp: filled_def fun_eq_iff)
next
  case (Cons x xs)
  have "cstring (m(q \<mapsto> x)) (Suc p) xs" using Cons.prems by (subst cstring_upd) (auto simp: apart_ranges_def)
  moreover have "is_mapped (m(q \<mapsto> x)) (Suc q) (Suc (length xs))" using Cons.prems(2) by (simp del: is_mapped_Suc) simp
  ultimately have "strcpy_loop (Suc q) (Suc p) (m(q \<mapsto> x)) = Some (filled (Suc q) (xs @ [0]) (m(q \<mapsto> x)))"
    using Cons.prems(3) by (intro Cons.IH) (auto simp: apart_ranges_def simp del: fun_upd_apply)
  with Cons.prems show ?case by (subst strcpy_loop.simps) (auto simp: filled_step simp del: fun_upd_apply)
qed

lemma bytes_at_filled: "bytes_at (filled p xs m) p xs"
  by (simp add: bytes_at_nth filled_def)

lemma bytes_at_cong: "(\<And>i. i < length xs \<Longrightarrow> m' (p + i) = m (p + i)) \<Longrightarrow> bytes_at m' p xs = bytes_at m p xs"
  by (simp add: bytes_at_nth)

text \<open>
  \<^verbatim>\<open>strcat\<close> appends: the string at the destination becomes the concatenation of the two, and only the bytes from its old
  end on are written, as many as the source has with its terminating zero.
\<close>

theorem strcat_appends:
  assumes "cstring m dst xs" and "cstring m src ys" and "is_mapped m (dst + length xs) (Suc (length ys))"
    and "apart_ranges src (Suc (length ys)) (dst + length xs) (Suc (length ys))"
  shows "\<exists>m'. strcat dst src m = Some (dst, m') \<and> cstring m' dst (xs @ ys) \<and>
    (\<forall>a. a < dst + length xs \<or> dst + length xs + length ys < a \<longrightarrow> m' a = m a)"
proof -
  let ?m = "filled (dst + length xs) (ys @ [0]) m"
  have "strcat dst src m = Some (dst, ?m)"
    using strchr_end [OF assms(1)] strcpy_loop_fills [OF assms(2-4)] by (simp add: strcat_def strcpy_def)
  moreover have "bytes_at ?m dst xs = bytes_at m dst xs" by (rule bytes_at_cong) (simp add: filled_def)
  then have "cstring ?m dst (xs @ ys)"
    using assms(1,2) bytes_at_filled [of "dst + length xs" "ys @ [0]" m] by (simp add: cstring_def add.assoc)
  moreover have "\<forall>a. a < dst + length xs \<or> dst + length xs + length ys < a \<longrightarrow> ?m a = m a" by (auto simp: filled_def)
  ultimately show ?thesis by blast
qed


section \<open>Tokens\<close>

lemma strxspn_map_fills: "cstring m p ds \<Longrightarrow> strxspn_map p mm m = Some (\<lambda>b. if b \<in> set ds then 1 else mm b)"
proof (induction ds arbitrary: p mm)
  case Nil
  then show ?case by (subst strxspn_map.simps) simp
next
  case (Cons d ds)
  then show ?case by (subst strxspn_map.simps) (auto simp: fun_eq_iff)
qed

lemma strxspn_span_counts:
  "cstring m s xs \<Longrightarrow> \<forall>b. mm b \<in> {0, 1} \<Longrightarrow> mm 0 = 1 \<Longrightarrow>
    strxspn_span s mm 1 n m = Some (n + length (takeWhile (\<lambda>b. mm b = 0) xs))"
proof (induction xs arbitrary: s n)
  case Nil
  then show ?case by (subst strxspn_span.simps) simp
next
  case (Cons x xs)
  then have "mm x = 0 \<or> mm x = 1" by blast
  with Cons show ?case by (subst strxspn_span.simps) auto
qed

definition token :: "byte set \<Rightarrow> byte list \<Rightarrow> byte list" where
  "token D xs = takeWhile (\<lambda>b. b \<notin> D) xs"

lemma token_split: "xs = token D xs @ dropWhile (\<lambda>b. b \<notin> D) xs"
  by (simp add: token_def)

lemma strpbrk_value:
  assumes "cstring m s xs" and "cstring m delim ds"
  shows "strpbrk s delim m = Some (if token (set ds) xs = xs then 0 else s + length (token (set ds) xs))"
proof -
  let ?mm = "(\<lambda>b. if b \<in> set ds then 1 else 0)(0 := 1) :: byte \<Rightarrow> int"
  have nz: "0 \<notin> set xs" using assms(1) by (simp add: cstring_def)
  then have "takeWhile (\<lambda>b. ?mm b = 0) xs = token (set ds) xs"
    unfolding token_def by (intro takeWhile_cong) auto
  then have span: "strxspn s delim 1 m = Some (length (token (set ds) xs))"
    using strxspn_map_fills [OF assms(2), of "\<lambda>_. 0"] strxspn_span_counts [OF assms(1), of ?mm 0] by (simp add: strxspn_def)
  have "cstring m (s + length (token (set ds) xs)) (dropWhile (\<lambda>b. b \<notin> set ds) xs)"
    using assms(1) token_split [of xs "set ds"] by (metis cstring_append)
  moreover have "dropWhile (\<lambda>b. b \<notin> set ds) xs = [] \<longleftrightarrow> token (set ds) xs = xs"
    using token_split [of xs "set ds"] by (metis append_self_conv)
  ultimately show ?thesis using span by (cases "dropWhile (\<lambda>b. b \<notin> set ds) xs") (auto simp: strpbrk_def)
qed

lemma strsep_value:
  assumes "cstring m s xs" and "cstring m delim ds" and "s \<noteq> 0"
  shows "strsep s delim m = Some (let t = token (set ds) xs in
    if t = xs then (s, 0, m) else (s, s + length t + 1, m(s + length t \<mapsto> 0)))"
proof (cases "token (set ds) xs = xs")
  case True
  then show ?thesis using strpbrk_value [OF assms(1,2)] assms(3) by (simp add: strsep_def)
next
  case False
  have "length (token (set ds) xs) \<le> length xs" by (simp add: token_def length_takeWhile_le)
  then have "m (s + length (token (set ds) xs)) \<noteq> None"
    using is_mappedD [OF bytes_mapped, of m s "xs @ [0]" "length (token (set ds) xs)"] assms(1) by (auto simp: cstring_def)
  then show ?thesis using strpbrk_value [OF assms(1,2)] assms(3) False by (simp add: strsep_def Let_def)
qed

lemma token_Cons: "token D (x # xs) = (if x \<in> D then [] else x # token D xs)"
  by (simp add: token_def)

text \<open>What one call of \<^verbatim>\<open>strtok\<close> leaves for the string \<open>xs\<close> at \<open>s\<close>: token, pointer for the next call, memory.\<close>

definition tokenised :: "byte set \<Rightarrow> nat \<Rightarrow> byte list \<Rightarrow> nat \<times> nat \<times> cmem \<Rightarrow> bool" where
  "tokenised D s xs r = (case r of (tok, h, m') \<Rightarrow>
     let body = dropWhile (\<lambda>b. b \<in> D) xs; t = token D body; rest = drop (length t) body in
     if body = [] then tok = 0 \<and> h = 0
     else tok = s + (length xs - length body) \<and> cstring m' tok t \<and>
       (if rest = [] then h = 0 else h = tok + length t + 1 \<and> cstring m' h (tl rest)))"

lemma tokenised_skip: "x \<in> D \<Longrightarrow> tokenised D (Suc s) xs r \<Longrightarrow> tokenised D s (x # xs) r"
  using length_dropWhile_le [of "\<lambda>b. b \<in> D" xs] by (auto simp: tokenised_def Let_def split: if_splits)

lemma strtok_loop_tokenises:
  assumes "cstring m s xs" and "cstring m delim ds" and "s \<noteq> 0" and "delim + length ds < s \<or> s + length xs < delim"
  shows "\<exists>tok h m'. strtok_loop s delim m = Some (tok, h, m') \<and> tokenised (set ds) s xs (tok, h, m') \<and> cstring m' delim ds"
  using assms
proof (induction xs arbitrary: s m)
  case Nil
  have "strtok_loop 0 delim m = Some (0, 0, m)" by (subst strtok_loop.simps) (simp add: strsep_def)
  with Nil strsep_value [OF Nil.prems(1-3)] show ?case
    by (subst strtok_loop.simps) (simp add: token_def tokenised_def)
next
  case (Cons x xs)
  note sep = strsep_value [OF Cons.prems(1-3)]
  show ?case
  proof (cases "x \<in> set ds")
    case True
    have "cstring (m(s \<mapsto> 0)) (Suc s) xs" "cstring (m(s \<mapsto> 0)) delim ds"
      using Cons.prems by (auto simp: cstring_upd simp del: fun_upd_apply)
    then obtain tok h m' where "strtok_loop (Suc s) delim (m(s \<mapsto> 0)) = Some (tok, h, m')"
      "tokenised (set ds) (Suc s) xs (tok, h, m')" "cstring m' delim ds"
      using Cons.IH [of "m(s \<mapsto> 0)" "Suc s"] Cons.prems(4) by (auto simp del: fun_upd_apply)
    then show ?thesis using sep True Cons.prems(3)
      by (subst strtok_loop.simps) (auto simp: token_Cons intro: tokenised_skip)
  next
    case False
    define t where "t = token (set ds) (x # xs)"
    have t: "t = x # token (set ds) xs" using False by (simp add: t_def token_Cons)
    let ?m = "if t = x # xs then m else m(s + length t \<mapsto> 0)" and ?h = "if t = x # xs then 0 else s + length t + 1"
    have x: "m s = Some x" "x \<noteq> 0" using Cons.prems(1) by auto
    have "?m s = Some x" "t \<noteq> []" using t x by simp_all
    then have run: "strtok_loop s delim m = Some (s, ?h, ?m)"
      using sep x Cons.prems(3) by (subst strtok_loop.simps) (simp add: t_def [symmetric] Let_def)
    obtain rest where rest: "x # xs = t @ rest" using token_split [of "x # xs" "set ds"] unfolding t_def by blast
    have parts: "bytes_at m s t" "0 \<notin> set t" "cstring m (s + length t) rest"
      using Cons.prems(1) unfolding rest cstring_append by simp_all
    have body: "dropWhile (\<lambda>b. b \<in> set ds) (x # xs) = x # xs" "token (set ds) (x # xs) = t" using False by (simp_all add: t_def)
    show ?thesis
    proof (cases rest)
      case Nil
      then have "t = x # xs" using rest by simp
      with run Cons.prems(1,2) show ?thesis unfolding tokenised_def prod.case body Let_def by auto
    next
      case (Cons r rs)
      let ?w = "m(s + length t \<mapsto> 0)"
      have ne: "t \<noteq> x # xs" and dr: "drop (length t) (x # xs) = r # rs" using rest Cons by auto
      have "bytes_at ?w s t = bytes_at m s t" by (rule bytes_at_cong) simp
      then have 1: "cstring ?w s t" using parts(1,2) by (simp add: cstring_def)
      have 2: "cstring ?w (s + length t + 1) rs" using parts(3) Cons by (subst cstring_upd) auto
      have "length (x # xs) = length t + Suc (length rs)" unfolding rest Cons by simp
      then have 3: "cstring ?w delim ds" using Cons.prems(2,4) by (subst cstring_upd) auto
      have "strtok_loop s delim m = Some (s, s + length t + 1, ?w)" using run ne by simp
      moreover have "tokenised (set ds) s (x # xs) (s, s + length t + 1, ?w)"
        unfolding tokenised_def prod.case body Let_def dr using 1 2 by simp
      ultimately show ?thesis using 3 by blast
    qed
  qed
qed


theorem strcat_appends_witness:
  "\<exists>m'. strcat 10 20 [10 \<mapsto> 97, 11 \<mapsto> 0, 12 \<mapsto> 7, 20 \<mapsto> 98, 21 \<mapsto> 0] = Some (10, m') \<and> m' 11 = Some 98 \<and> m' 12 = Some 0"
  using strcat_appends [of "[10 \<mapsto> 97, 11 \<mapsto> 0, 12 \<mapsto> 7, 20 \<mapsto> 98, 21 \<mapsto> 0]" 10 "[97]" 20 "[98]"]
  by (auto simp: apart_ranges_def)

text \<open>
  A call of \<^verbatim>\<open>strtok\<close> skips the leading delimiters and returns the first token, cut off by a zero byte, or null when only
  delimiters are left; the pointer it keeps for the next call is the rest of the string after that token, or null.
\<close>

theorem strtok_next_token:
  assumes "cstring m p xs" and "p = (if s \<noteq> 0 then s else holder)" "p \<noteq> 0" and "cstring m delim ds"
    and "delim + length ds < p \<or> p + length xs < delim"
  shows "\<exists>tok h m'. strtok holder s delim m = Some (tok, h, m') \<and> cstring m' delim ds \<and>
    (let body = dropWhile (\<lambda>b. b \<in> set ds) xs; t = takeWhile (\<lambda>b. b \<notin> set ds) body; rest = drop (length t) body in
     if body = [] then tok = 0 \<and> h = 0
     else tok = p + (length xs - length body) \<and> cstring m' tok t \<and>
       (if rest = [] then h = 0 else h = tok + length t + 1 \<and> cstring m' h (tl rest)))"
proof -
  from strtok_loop_tokenises [OF assms(1,4,3,5)] obtain tok h m' where r: "strtok_loop p delim m = Some (tok, h, m')"
    "tokenised (set ds) p xs (tok, h, m')" "cstring m' delim ds" by blast
  have "strtok holder s delim m = Some (tok, h, m')" using r(1) assms(2) by (simp add: strtok_def)
  with r(2,3) show ?thesis unfolding tokenised_def token_def prod.case by blast
qed

theorem strtok_next_token_witness:
  "\<exists>h m'. strtok 0 10 20 [10 \<mapsto> 32, 11 \<mapsto> 97, 12 \<mapsto> 32, 13 \<mapsto> 98, 14 \<mapsto> 0, 20 \<mapsto> 32, 21 \<mapsto> 0] = Some (11, h, m') \<and>
     h = 13 \<and> m' 12 = Some 0"
  using strtok_next_token [of "[10 \<mapsto> 32, 11 \<mapsto> 97, 12 \<mapsto> 32, 13 \<mapsto> 98, 14 \<mapsto> 0, 20 \<mapsto> 32, 21 \<mapsto> 0]" 10 "[32, 97, 32, 98]" 10 0 20 "[32]"]
  by (auto simp: Let_def)

section \<open>Numbers\<close>

text \<open>The value of a sequence of digits, most significant first, and the digit of a byte in a base.\<close>

definition digits_value :: "int \<Rightarrow> int list \<Rightarrow> int" where
  "digits_value base ds = foldl (\<lambda>v d. v * base + d) 0 ds"

definition digit_in :: "int \<Rightarrow> byte \<Rightarrow> bool" where
  "digit_in base b \<longleftrightarrow> 0 \<le> digitval (sint b) \<and> digitval (sint b) < base"

definition stops :: "int \<Rightarrow> byte list \<Rightarrow> bool" where
  "stops base ys \<longleftrightarrow> (case ys of [] \<Rightarrow> True | y # _ \<Rightarrow> \<not> digit_in base y)"

text \<open>A number ends at \<open>q\<close>, with \<open>k\<close> characters left: there is none, or the next is not a digit.\<close>

definition ends_at :: "int \<Rightarrow> cmem \<Rightarrow> nat \<Rightarrow> nat \<Rightarrow> bool" where
  "ends_at base m q k \<longleftrightarrow> k = 0 \<or> (\<exists>b. m q = Some b \<and> \<not> digit_in base b)"

lemma digits_loop_value:
  "bytes_at m p ds \<Longrightarrow> list_all (digit_in base) ds \<Longrightarrow> ends_at base m (p + length ds) k \<Longrightarrow>
    digits_loop base v p (length ds + k) m =
      Some (foldl (\<lambda>v d. v * word_of_int base + word_of_int (digitval (sint d))) v ds, p + length ds)"
proof (induction ds arbitrary: p v)
  case Nil
  then show ?case by (cases k) (auto simp: ends_at_def digit_in_def Let_def)
next
  case (Cons d ds)
  then show ?case by (auto simp: digit_in_def Let_def)
qed

lemma foldl_word_of_int:
  "foldl (\<lambda>v d. v * word_of_int base + word_of_int (f d)) (word_of_int a :: 64 word) ds =
    word_of_int (foldl (\<lambda>v d. v * base + d) a (map f ds))"
  by (induction ds arbitrary: a) (simp_all flip: of_int_mult of_int_add)


lemmas ctype_bits = ctype_upper_def ctype_lower_def ctype_digit_def ctype_xdigit_def ctype_space_def ctype_print_def
  ctype_punct_def ctype_cntrl_def

lemma spaces_table: "map (\<lambda>b. b AND ctype_space \<noteq> 0) ctypes =
    replicate 9 False @ replicate 6 True @ replicate 18 False @ [True] @ replicate 127 False @ [True] @ replicate 95 False"
  unfolding ctypes_def ctypes_ascii_def ctypes_latin_def by (simp add: ctype_bits) (simp add: numeral_eq_Suc)

lemma isspace_iff: "0 \<le> c \<Longrightarrow> c < 256 \<Longrightarrow> isspace c \<longleftrightarrow> (8 \<le> c \<and> c \<le> 13) \<or> c = 32 \<or> c = 160"
proof -
  assume c: "0 \<le> c" "c < 256"
  have l: "length ctypes = 257" by (simp add: ctypes_def ctypes_ascii_def ctypes_latin_def)
  have "isspace c = map (\<lambda>b. b AND ctype_space \<noteq> 0) ctypes ! nat (c + 1)"
    using c l by (simp add: isspace_def ctype_of_def)
  also have "\<dots> \<longleftrightarrow> (8 \<le> c \<and> c \<le> 13) \<or> c = 32 \<or> c = 160"
    unfolding spaces_table using c by (auto simp: nth_append nth_Cons')
  finally show ?thesis .
qed
lemma skip_spaces_skips:
  "bytes_at m p (ws @ b # ys) \<Longrightarrow> list_all (\<lambda>w. isspace (uint w)) ws \<Longrightarrow> \<not> isspace (uint b) \<Longrightarrow>
    skip_spaces p (length ws + Suc k) m = Some (p + length ws, Suc k)"
  by (induction ws arbitrary: p) auto

lemma digit_in_sint: "digit_in base b \<Longrightarrow> 48 \<le> sint b \<and> sint b \<le> 122 \<and> sint b \<notin> {58..64} \<union> {91..96}"
  by (auto simp: digit_in_def digitval_def split: if_splits)

lemma uint_sint_pos: "0 \<le> sint (b :: byte) \<Longrightarrow> uint b = sint b"
  using sint_lt [of b] uint_sint [of b] by (simp add: take_bit_int_eq_self)

lemma digit_not_space: "digit_in base b \<Longrightarrow> \<not> isspace (uint b) \<and> b \<noteq> 43 \<and> b \<noteq> 45"
proof -
  assume "digit_in base b"
  then have r: "48 \<le> sint b" "sint b \<le> 122" using digit_in_sint by auto
  then have "\<not> isspace (uint b)" using isspace_iff [of "uint b"] uint_sint_pos [of b] by simp
  moreover have "b \<noteq> 43 \<and> b \<noteq> 45" using r(1) by auto
  ultimately show ?thesis by blast
qed

lemma sign_not_space: "\<not> isspace 43" "\<not> isspace 45"
  by (simp_all add: isspace_iff)

lemma strntoumax_value:
  assumes "base \<noteq> 0" "base \<noteq> 16" and "bytes_at m p (ws @ sg @ ds)" and "list_all (\<lambda>w. isspace (uint w)) ws"
    and "sg = [] \<or> sg = [43] \<or> sg = [45]" and "ds \<noteq> []" "list_all (digit_in base) ds"
    and "ends_at base m (p + length (ws @ sg @ ds)) k"
  shows "strntoumax p base (length (ws @ sg @ ds) + k) m =
    Some (word_of_int ((if sg = [45] then -1 else 1) * digits_value base (map (\<lambda>b. digitval (sint b)) ds)),
      p + length (ws @ sg @ ds))"
proof -
  let ?V = "digits_value base (map (\<lambda>b. digitval (sint b)) ds)"
  obtain d ds' where ds: "ds = d # ds'" using assms(6) by (cases ds) auto
  have d: "\<not> isspace (uint d)" "d \<noteq> 43" "d \<noteq> 45" using assms(7) ds digit_not_space by auto
  obtain c cs where c: "sg @ ds = c # cs" "\<not> isspace (uint c)" using assms(5) ds d sign_not_space by auto
  let ?n = "length ds + k" and ?q = "p + length ws + length sg"
  have len: "length sg + ?n = Suc (length cs + k)" using arg_cong [OF c(1), of length] by simp
  have "skip_spaces p (length ws + Suc (length cs + k)) m = Some (p + length ws, Suc (length cs + k))"
    by (rule skip_spaces_skips [where ys = cs, OF _ assms(4) c(2)]) (use assms(3) c(1) in simp)
  then have 1: "skip_spaces p (length (ws @ sg @ ds) + k) m = Some (p + length ws, length sg + ?n)"
    unfolding len [symmetric] by (simp add: add.assoc)
  have "bytes_at m (p + length ws) (sg @ d # ds')" using assms(3) ds by simp
  then have 2: "optional_sign (p + length ws) (length sg + ?n) m = Some (sg = [45], ?q, ?n)"
    using assms(5) ds d by (auto simp: optional_sign_def)
  have "bytes_at m ?q ds" "ends_at base m (?q + length ds) k" using assms(3,8) by (simp_all add: add.assoc)
  from digits_loop_value [OF this(1) assms(7) this(2), of 0] have
    3: "digits_loop base 0 ?q ?n m = Some (word_of_int ?V, ?q + length ds)"
    using foldl_word_of_int [of base "\<lambda>b. digitval (sint b)" 0 ds] by (simp add: digits_value_def)
  show ?thesis using 1 2 3 assms(1,2) by (simp add: strntoumax_def number_prefix_def add.assoc)
qed

text \<open>
  \<^verbatim>\<open>strntoumax\<close> reads a number in any base other than 0 and 16: it skips spaces, takes an optional sign, and
  returns the value of the digits that follow modulo \<open>2 ^ 64\<close> (negated after a minus) with the position of the first
  byte that is not a digit of the base.
\<close>

theorem strntoumax_reads:
  assumes "base \<noteq> 0" "base \<noteq> 16" and "bytes_at m p (ws @ sg @ ds @ ys)" and "list_all (\<lambda>w. isspace (uint w)) ws"
    and "sg = [] \<or> sg = [43] \<or> sg = [45]" and "ds \<noteq> []" "list_all (digit_in base) ds" and "stops base ys"
  shows "strntoumax p base (length (ws @ sg @ ds @ ys)) m =
    Some (word_of_int ((if sg = [45] then -1 else 1) * digits_value base (map (\<lambda>b. digitval (sint b)) ds)),
      p + length (ws @ sg @ ds))"
proof -
  have "ends_at base m (p + length (ws @ sg @ ds)) (length ys)"
    using assms(3,8) by (cases ys) (auto simp: ends_at_def stops_def add.assoc)
  moreover have "bytes_at m p (ws @ sg @ ds)" using assms(3) by simp
  ultimately show ?thesis
    using strntoumax_value [OF assms(1,2) _ assms(4-7), of m p "length ys"] by (simp add: add.assoc)
qed

theorem strntoumax_reads_witness:
  "strntoumax 10 10 5 [10 \<mapsto> 32, 11 \<mapsto> 45, 12 \<mapsto> 52, 13 \<mapsto> 50, 14 \<mapsto> 0] = Some (- 42, 14)"
  using strntoumax_reads [of 10 "[10 \<mapsto> 32, 11 \<mapsto> 45, 12 \<mapsto> 52, 13 \<mapsto> 50, 14 \<mapsto> 0]" 10 "[32]" "[45]" "[52, 50]" "[0]"]
  by (simp add: digits_value_def digit_in_def digitval_def stops_def isspace_iff) (simp add: numeral_eq_Suc)

end
