(* ===== verification/User_Store.thy ===== *)
theory User_Store
  imports Kernel_Example String_Properties
begin

text \<open>
  The memory that the user library is modelled on, a map from addresses to bytes, is implemented by the machine: by the loads and
  stores of a process through the TLB and its page tables.
\<close>

section \<open>Byte memories\<close>

text \<open>A sequence of stores.\<close>

fun pokes :: "(nat \<Rightarrow> byte \<Rightarrow> 'm \<Rightarrow> 'm option) \<Rightarrow> (nat \<times> byte) list \<Rightarrow> 'm \<Rightarrow> 'm option" where
  "pokes poke [] m = Some m"
| "pokes poke ((a, b) # ws) m = do { m \<leftarrow> poke a b m; pokes poke ws m }"

definition writes :: "(nat \<times> byte) list \<Rightarrow> cmem \<Rightarrow> cmem" where
  "writes ws m = foldl (\<lambda>m (a, b). m(a \<mapsto> b)) m ws"

text \<open>What the library needs of its memory: a store to a writable address succeeds and changes that byte only.\<close>

locale byte_memory =
  fixes ok :: "'m \<Rightarrow> bool"
    and peek :: "'m \<Rightarrow> cmem"
    and writable :: "'m \<Rightarrow> nat \<Rightarrow> bool"
    and poke :: "nat \<Rightarrow> byte \<Rightarrow> 'm \<Rightarrow> 'm option"
  assumes poke_law: "ok m \<Longrightarrow> writable m a \<Longrightarrow>
      \<exists>m'. poke a b m = Some m' \<and> ok m' \<and> writable m' = writable m \<and> peek m' = (peek m)(a \<mapsto> b)"
    and writable_readable: "ok m \<Longrightarrow> writable m a \<Longrightarrow> peek m a \<noteq> None"
begin

lemma pokes_law:
  "ok m \<Longrightarrow> \<forall>w \<in> set ws. writable m (fst w) \<Longrightarrow>
    \<exists>m'. pokes poke ws m = Some m' \<and> ok m' \<and> writable m' = writable m \<and> peek m' = writes ws (peek m)"
proof (induction ws arbitrary: m)
  case Nil
  then show ?case by (simp add: writes_def)
next
  case (Cons w ws)
  obtain a b where w: "w = (a, b)" by (cases w) auto
  from poke_law [of m a b] Cons.prems w obtain m1 where m1: "poke a b m = Some m1" "ok m1" "writable m1 = writable m"
    "peek m1 = (peek m)(a \<mapsto> b)" by auto
  from Cons.IH [OF m1(2)] Cons.prems(2) m1(3) obtain m2 where "pokes poke ws m1 = Some m2" "ok m2" "writable m2 = writable m"
    "peek m2 = writes ws (peek m1)" by auto
  then show ?case using m1(1,4) w by (simp add: writes_def)
qed

end

lemma st_law: "m a \<noteq> None \<Longrightarrow> \<exists>m'. st a b m = Some m' \<and> (\<lambda>c. m' c \<noteq> None) = (\<lambda>c. m c \<noteq> None) \<and> m' = m(a \<mapsto> b)"
  by (intro exI [of _ "m(a \<mapsto> b)"]) (auto simp: st_def fun_eq_iff)

interpretation lib: byte_memory "\<lambda>_. True" "\<lambda>m. m" "\<lambda>m a. m a \<noteq> None" st
  by unfold_locales (simp_all only: simp_thms st_law)

section \<open>The memory of a process\<close>

text \<open>The bytes a program reads: those that the translation of the current address space makes readable.\<close>

definition user_memory :: "kmem \<Rightarrow> cmem" where
  "user_memory m a = (if a < 2 ^ 32 then (case load_byte (of_nat a) m of Ret b _ \<Rightarrow> Some b | _ \<Rightarrow> None) else None)"

lemma translate_cached: "translate m v = Some e \<Longrightarrow> translate (m\<lparr>tlb := (tlb m)(v \<mapsto> e)\<rparr>) w = translate m w"
proof -
  have "pt_entry (m\<lparr>tlb := T\<rparr>) = pt_entry m" for T by (simp add: pt_entry_def fun_eq_iff)
  then show "translate m v = Some e \<Longrightarrow> ?thesis" by (simp add: translate_def split: option.splits)
qed

lemma translate_phys: "translate (m\<lparr>tlb := T, phys := P\<rparr>) v = translate (m\<lparr>tlb := T\<rparr>) v"
  by (simp add: translate_def pt_entry_def split: option.splits)

lemma load_byte_value:
  "load_byte a m = (case translate m (vpn_of a) of None \<Rightarrow> Fault PageFault
    | Some e \<Rightarrow> if prot e AND PROT_READ = PROT_READ \<and> frame_of e < nframes m
        then Ret (phys m (frame_of e) (page_off a)) (m\<lparr>tlb := (tlb m)(vpn_of a \<mapsto> e)\<rparr>) else Fault PageFault)"
  by (simp add: load_byte_def access_def bnd_app gets_app split: option.splits)

lemma user_memory_after_load: "load_byte a m = Ret b m' \<Longrightarrow> user_memory m' = user_memory m"
  by (auto simp: user_memory_def fun_eq_iff load_byte_value translate_cached split: option.splits if_splits)

lemma copy_in_user_memory:
  "bytes_at (user_memory m) a xs \<Longrightarrow> \<exists>m'. copy_in (of_nat a) (length xs) m = Ret xs m'"
proof (induction xs arbitrary: a m)
  case Nil
  then show ?case by (simp add: ret_app)
next
  case (Cons x xs)
  then obtain m1 where l: "load_byte (of_nat a) m = Ret x m1"
    by (auto simp: user_memory_def split: if_splits outcome.splits)
  have "bytes_at (user_memory m1) (Suc a) xs" using Cons.prems user_memory_after_load [OF l] by simp
  from Cons.IH [OF this] obtain m' where "copy_in (of_nat (Suc a)) (length xs) m1 = Ret xs m'" ..
  then show ?case using l by (simp add: bnd_app ret_app add.commute)
qed

lemma unat_of_nat_small: "n < 2 ^ 32 \<Longrightarrow> unat (of_nat n :: word32) = n"
  by (simp only: unsigned_of_nat) (simp add: take_bit_nat_eq_self)

text \<open>Every address the process may write it may also read, and no two of its pages share a frame.\<close>

definition user_writable :: "kmem \<Rightarrow> nat \<Rightarrow> bool" where
  "user_writable m a \<longleftrightarrow> a < 2 ^ 32 \<and> (case translate m (vpn_of (of_nat a)) of None \<Rightarrow> False
     | Some e \<Rightarrow> prot e AND PROT_READ = PROT_READ \<and> prot e AND PROT_WRITE = PROT_WRITE \<and> frame_of e < nframes m)"

definition private_frames :: "kmem \<Rightarrow> bool" where
  "private_frames m \<longleftrightarrow> (\<forall>v w d e. translate m v = Some d \<longrightarrow> translate m w = Some e \<longrightarrow> frame_of d = frame_of e \<longrightarrow> v = w)"

definition user_poke :: "nat \<Rightarrow> byte \<Rightarrow> kmem \<Rightarrow> kmem option" where
  "user_poke a b m = (case store_byte (of_nat a) b m of Ret _ m' \<Rightarrow> Some m' | _ \<Rightarrow> None)"

lemma store_byte_value:
  "translate m (vpn_of a) = Some e \<Longrightarrow> prot e AND PROT_WRITE = PROT_WRITE \<Longrightarrow> frame_of e < nframes m \<Longrightarrow>
    store_byte a b m = Ret () (m\<lparr>tlb := (tlb m)(vpn_of a \<mapsto> e), phys := (phys m)(frame_of e := (phys m (frame_of e))(page_off a := b))\<rparr>)"
  by (simp add: store_byte_def access_def bnd_app modify_app)

lemma same_address: "a < 2 ^ 32 \<Longrightarrow> c < 2 ^ 32 \<Longrightarrow> vpn_of (of_nat a) = vpn_of (of_nat c) \<Longrightarrow> page_off (of_nat a) = page_off (of_nat c) \<Longrightarrow> a = c"
proof -
  assume l: "a < 2 ^ 32" "c < 2 ^ 32" and e: "vpn_of (of_nat a) = vpn_of (of_nat c)" "page_off (of_nat a) = page_off (of_nat c)"
  have u: "unat (of_nat a :: word32) = a" "unat (of_nat c :: word32) = c" using l by (simp_all add: unat_of_nat_small)
  have "a div 8192 = c div 8192" "a mod 8192 = c mod 8192" using e by (simp_all add: vpn_of_div page_off_def PAGESIZE_def u)
  then show ?thesis by (metis div_mult_mod_eq)
qed

lemma user_poke_law:
  assumes "private_frames m" and "user_writable m a"
  shows "\<exists>m'. user_poke a b m = Some m' \<and> private_frames m' \<and> user_writable m' = user_writable m \<and>
    user_memory m' = (user_memory m)(a \<mapsto> b)"
proof -
  let ?v = "vpn_of (of_nat a)" and ?o = "page_off (of_nat a)"
  from assms(2) obtain e where e: "translate m ?v = Some e" "prot e AND PROT_READ = PROT_READ" "prot e AND PROT_WRITE = PROT_WRITE"
    "frame_of e < nframes m" and a: "a < 2 ^ 32" by (auto simp: user_writable_def split: option.splits)
  define m' where "m' = m\<lparr>tlb := (tlb m)(?v \<mapsto> e), phys := (phys m)(frame_of e := (phys m (frame_of e))(?o := b))\<rparr>"
  have tr: "translate m' = translate m"
    using translate_cached [OF e(1)] by (auto simp: m'_def translate_phys fun_eq_iff)
  have nf: "nframes m' = nframes m" by (simp add: m'_def)
  have "user_memory m' c = ((user_memory m)(a \<mapsto> b)) c" for c
  proof (cases "c < 2 ^ 32 \<and> c \<noteq> a")
    case True
    have "phys m' (frame_of d) (page_off (of_nat c)) = phys m (frame_of d) (page_off (of_nat c))"
      if d: "translate m (vpn_of (of_nat c)) = Some d" for d
    proof (cases "frame_of d = frame_of e")
      case same: True
      then have "vpn_of (of_nat c) = ?v" using assms(1) d e(1) by (auto simp: private_frames_def)
      then have "page_off (of_nat c) \<noteq> ?o" using same_address [of c a] True a by auto
      with same show ?thesis by (simp add: m'_def)
    qed (simp add: m'_def)
    then show ?thesis using True by (auto simp: user_memory_def load_byte_value tr nf split: option.splits)
  next
    case False
    have "phys m' (frame_of e) ?o = b" by (simp add: m'_def)
    then show ?thesis using False a e by (cases "c = a") (simp_all add: user_memory_def load_byte_value tr nf)
  qed
  moreover have "user_poke a b m = Some m'" by (simp add: user_poke_def store_byte_value [OF e(1,3,4)] m'_def)
  moreover have "private_frames m'" using assms(1) by (simp add: private_frames_def tr)
  moreover have "user_writable m' = user_writable m" by (intro ext) (simp only: user_writable_def tr nf)
  ultimately show ?thesis by blast
qed

lemma user_writable_readable: "user_writable m a \<Longrightarrow> user_memory m a \<noteq> None"
  by (auto simp: user_writable_def user_memory_def load_byte_value split: option.splits)

interpretation proc: byte_memory private_frames user_memory user_writable user_poke
  by unfold_locales (use user_poke_law user_writable_readable in blast)+

text \<open>
  The machine implements the memory of the library: any sequence of stores to writable addresses that a process makes through the
  TLB and its page tables succeeds and leaves, as the process reads it, exactly the memory that the same stores leave
  in the map of bytes on which the library functions are defined.
\<close>

lemma stores_refine_library_memory:
  assumes "private_frames m" and "\<forall>w \<in> set ws. user_writable m (fst w)"
  shows "\<exists>m'. pokes user_poke ws m = Some m' \<and> private_frames m' \<and> pokes st ws (user_memory m) = Some (user_memory m')"
proof -
  from proc.pokes_law [OF assms] obtain m' where m': "pokes user_poke ws m = Some m'" "private_frames m'"
    "user_memory m' = writes ws (user_memory m)" by blast
  have "\<forall>w \<in> set ws. user_memory m (fst w) \<noteq> None" using assms(2) user_writable_readable by blast
  from lib.pokes_law [OF TrueI this] m' show ?thesis by auto
qed

lemma user_poke_shape: "user_poke a b m = Some m' \<Longrightarrow> \<exists>T P. m' = m\<lparr>tlb := T, phys := P\<rparr>"
  by (auto simp: user_poke_def store_byte_def access_def bnd_app modify_app split: option.splits if_splits)

lemma pokes_shape: "pokes user_poke ws m = Some m' \<Longrightarrow> \<exists>T P. m' = m\<lparr>tlb := T, phys := P\<rparr>"
proof (induction ws arbitrary: m)
  case Nil
  then have "m' = m\<lparr>tlb := tlb m, phys := phys m\<rparr>" by simp
  then show ?case by blast
next
  case (Cons w ws)
  obtain a b where w: "w = (a, b)" by (cases w) auto
  from Cons.prems w obtain m1 where m1: "user_poke a b m = Some m1" "pokes user_poke ws m1 = Some m'"
    by (auto simp: Option.bind_eq_Some_conv)
  from user_poke_shape [OF m1(1)] obtain T P where "m1 = m\<lparr>tlb := T, phys := P\<rparr>" by blast
  moreover from Cons.IH [OF m1(2)] obtain T' P' where "m' = m1\<lparr>tlb := T', phys := P'\<rparr>" by blast
  ultimately have "m' = m\<lparr>tlb := T', phys := P'\<rparr>" by simp
  then show ?case by blast
qed

lemma writes_filled: "writes (zip [p..<p + length xs] xs) m = filled p xs m"
proof (induction xs arbitrary: p m)
  case Nil
  then show ?case by (auto simp: writes_def filled_def fun_eq_iff)
next
  case (Cons x xs)
  have "[p..<p + length (x # xs)] = p # [Suc p..<Suc p + length xs]" by (simp add: upt_conv_Cons del: upt_Suc)
  then show ?case using Cons [of "Suc p" "m(p \<mapsto> x)"] by (simp add: writes_def filled_step del: fun_upd_apply upt_Suc)
qed

text \<open>Storing a text byte by byte.\<close>

lemma store_text:
  assumes "private_frames m" and "\<forall>j < length xs. user_writable m (p + j)"
  shows "\<exists>T P. pokes user_poke (zip [p..<p + length xs] xs) m = Some (m\<lparr>tlb := T, phys := P\<rparr>) \<and>
    private_frames (m\<lparr>tlb := T, phys := P\<rparr>) \<and> user_memory (m\<lparr>tlb := T, phys := P\<rparr>) = filled p xs (user_memory m)"
proof -
  have "user_writable m (fst w)" if "w \<in> set (zip [p..<p + length xs] xs)" for w
    using that assms(2) by (auto simp: set_zip)
  then have "\<forall>w \<in> set (zip [p..<p + length xs] xs). user_writable m (fst w)" by blast
  from proc.pokes_law [OF assms(1) this] obtain m' where m': "pokes user_poke (zip [p..<p + length xs] xs) m = Some m'"
    "private_frames m'" "user_memory m' = filled p xs (user_memory m)" by (auto simp: writes_filled)
  from pokes_shape [OF m'(1)] obtain T P where "m' = m\<lparr>tlb := T, phys := P\<rparr>" by blast
  with m' show ?thesis by blast
qed

text \<open>The address space of the example: the pages 0 to 3, 126 and 127 of region 1 are mapped to the frames 16 to 21.\<close>

lemma translate_kmem_ex: "translate kmem_ex v = Some d \<Longrightarrow> v = (if frame_of d < 20 then frame_of d + 112 else frame_of d + 234)"
proof -
  let ?T = "map (\<lambda>i. pte_ex (16 + i)) [0..<4] @ replicate 122 pte0 @ map (\<lambda>i. pte_ex (20 + i)) [0..<2]"
  have frame: "frame_of (pte_ex n) = n" if "n < 100" for n
    using that by (simp add: pte_ex_def frame_of_def unsigned_of_nat take_bit_nat_eq_self)
  assume "translate kmem_ex v = Some d"
  then have "128 \<le> v" "v - 128 < 128" "valid (?T ! (v - 128))" "d = ?T ! (v - 128)"
    by (auto simp: translate_def pt_entry_def kmem_ex_def MAX_PT_LEN_def pte0_def Let_def split: if_splits)
  then obtain i where v: "v = 128 + i" "i < 128" "valid (?T ! i)" "d = ?T ! i" by (metis le_add_diff_inverse)
  consider "i < 4" | "4 \<le> i" "i < 126" | "i = 126" | "i = 127" using v(2) by linarith
  then show ?thesis
  proof cases
    case 1
    then show ?thesis using v frame [of "16 + i"] by (simp add: nth_append)
  next
    case 2
    then have "i - 4 < 122" by arith
    with 2 have "?T ! i = pte0" by (simp add: nth_append)
    then show ?thesis using v(3) by (simp add: pte0_def)
  qed (use v frame [of 20] frame [of 21] in \<open>simp_all add: nth_append\<close>)
qed

lemma private_kmem_ex: "private_frames kmem_ex"
  unfolding private_frames_def using translate_kmem_ex by metis

lemma stores_refine_example:
  "\<exists>m'. pokes user_poke [(0x100000, 5), (0x100000, 6)] kmem_ex = Some m' \<and> user_memory m' 0x100000 = Some 6"
proof -
  have "vpn_of 0x100000 = 128" by (simp add: vpn_of_div)
  moreover have "translate kmem_ex 128 = Some (pte_ex 16)"
    by (simp add: translate_def pt_entry_def kmem_ex_def mem_ex_def MAX_PT_LEN_def pte_ex_def nth_append)
  ultimately have w: "user_writable kmem_ex 0x100000"
    by (simp add: user_writable_def pte_ex_def frame_of_def prot_defs kmem_ex_def)
  from stores_refine_library_memory [OF private_kmem_ex, of "[(0x100000, 5), (0x100000, 6)]"] w obtain m' where
    m': "pokes user_poke [(0x100000, 5), (0x100000, 6)] kmem_ex = Some m'"
      "pokes st [(0x100000, 5), (0x100000, 6)] (user_memory kmem_ex) = Some (user_memory m')" by auto
  then have "user_memory m' = (user_memory kmem_ex)(0x100000 \<mapsto> 5, 0x100000 \<mapsto> 6)"
    using user_writable_readable [OF w] by (auto simp: st_def)
  with m'(1) show ?thesis by auto
qed

end
