(* ===== verification/User_Printf.thy ===== *)
theory User_Printf
  imports User_Strings
begin

unbundle bit_operations_syntax

text \<open>
  \<^verbatim>\<open>vsnprintf.c\<close>, \<^verbatim>\<open>sprintf.c\<close>, \<^verbatim>\<open>vsprintf.c\<close> and \<^verbatim>\<open>TtyPrintf\<close> of \<^verbatim>\<open>yuser/ttylib.c\<close>: formatted output into a buffer.

  The variable arguments are the 4-byte slots the caller has pushed; \<^verbatim>\<open>va_arg\<close> of a \<^verbatim>\<open>long long\<close> takes two. An \<^verbatim>\<open>int\<close> is a number,
  since C gives no meaning to its overflow. The \<^verbatim>\<open>switch\<close> over the conversions ends in a jump to one of the labels
  of the function; the jump is a value of the type \<open>conversion\<close>.
\<close>

section \<open>Integers\<close>

definition FL_ZERO :: word32 where "FL_ZERO = 0x01"
definition FL_MINUS :: word32 where "FL_MINUS = 0x02"
definition FL_PLUS :: word32 where "FL_PLUS = 0x04"
definition FL_TICK :: word32 where "FL_TICK = 0x08"
definition FL_SPACE :: word32 where "FL_SPACE = 0x10"
definition FL_HASH :: word32 where "FL_HASH = 0x20"
definition FL_SIGNED :: word32 where "FL_SIGNED = 0x40"
definition FL_UPPER :: word32 where "FL_UPPER = 0x80"

definition rank_char :: int where "rank_char = -2"
definition rank_short :: int where "rank_short = -1"
definition rank_int :: int where "rank_int = 0"
definition rank_long :: int where "rank_long = 1"
definition rank_longlong :: int where "rank_longlong = 2"

definition lcdigits :: "byte list" where "lcdigits = map of_char ''0123456789abcdef''"
definition ucdigits :: "byte list" where "ucdigits = map of_char ''0123456789ABCDEF''"

text \<open>The output position: the pointer \<^verbatim>\<open>q\<close>, the count \<^verbatim>\<open>o\<close> of characters, and the memory.\<close>

type_synonym outpos = "nat \<times> nat \<times> cmem"

definition EMIT :: "nat \<Rightarrow> byte \<Rightarrow> outpos \<Rightarrow> outpos option" where
  "EMIT n x out = (case out of (q, k, m) \<Rightarrow>
     if k < n then do { m \<leftarrow> st q x m; Some (q + 1, k + 1, m) } else Some (q, k + 1, m))"

text \<open>\<^verbatim>\<open>while (width > nchars) { EMIT(x); width--; }\<close>\<close>

function pad :: "nat \<Rightarrow> byte \<Rightarrow> int \<Rightarrow> int \<Rightarrow> outpos \<Rightarrow> (int \<times> outpos) option" where
  "pad n x nchars width out =
     (if width > nchars then do { out \<leftarrow> EMIT n x out; pad n x nchars (width - 1) out } else Some (width, out))"
  by auto
termination by (relation "measure (\<lambda>(n, x, nchars, width, out). nat (width - nchars))") auto

partial_function (option) count_digits :: "64 word \<Rightarrow> int \<Rightarrow> int \<Rightarrow> int option" where
  "count_digits tmpval base ndigits =
     (if tmpval \<noteq> 0 then count_digits (tmpval div word_of_int base) base (ndigits + 1) else Some ndigits)"

text \<open>The loop that generates the number from right to left.\<close>

definition store_below :: "nat \<Rightarrow> nat \<Rightarrow> nat \<Rightarrow> byte \<Rightarrow> cmem \<Rightarrow> cmem option" where
  "store_below n oo qq x m = (if oo < n then st qq x m else Some m)"

function number_loop :: "byte list \<Rightarrow> nat \<Rightarrow> int \<Rightarrow> int \<Rightarrow> int \<Rightarrow> int \<Rightarrow> 64 word \<Rightarrow> nat \<Rightarrow> nat \<Rightarrow> cmem \<Rightarrow> cmem option" where
  "number_loop digits n base tickskip ndigits b4tick val qq oo m =
     (if ndigits > 0
      then if b4tick = 0
        then do {
          m \<leftarrow> store_below n (oo - 1) (qq - 1) 95 m;
          m \<leftarrow> store_below n (oo - 2) (qq - 2) (digits ! unat (val mod word_of_int base)) m;
          number_loop digits n base tickskip (ndigits - 2) (tickskip - 1) (val div word_of_int base) (qq - 2) (oo - 2) m }
        else do {
          m \<leftarrow> store_below n (oo - 1) (qq - 1) (digits ! unat (val mod word_of_int base)) m;
          number_loop digits n base tickskip (ndigits - 1) (b4tick - 1) (val div word_of_int base) (qq - 1) (oo - 1) m }
      else Some m)"
  by auto
termination
  by (relation "measure (\<lambda>(digits, n, base, tickskip, ndigits, b4tick, val, qq, oo, m). nat ndigits)") auto

text \<open>The second half of \<^verbatim>\<open>format_int\<close>, which emits the number, and the first half, which computes its size.\<close>

definition emit_number :: "byte list \<Rightarrow> bool \<Rightarrow> int \<Rightarrow> int \<Rightarrow> nat \<Rightarrow> nat \<Rightarrow> 64 word \<Rightarrow> word32 \<Rightarrow> int \<Rightarrow> int \<Rightarrow> cmem \<Rightarrow> (nat \<times> cmem) option" where
  "emit_number digits neg tickskip ndigits q n val flags base width m =
     (let nchars = ndigits;
          nchars = (if neg \<or> flags AND (FL_PLUS OR FL_SPACE) \<noteq> 0 then nchars + 1 else nchars);
          nchars = (if flags AND FL_HASH \<noteq> 0 \<and> base = 16 then nchars + 2 else nchars)
      in do {
        (width, out) \<leftarrow> (if flags AND (FL_MINUS OR FL_ZERO) = 0 then pad n 32 nchars width (q, 0, m) else Some (width, q, 0, m));
        out \<leftarrow> (if neg then EMIT n 45 out
               else if flags AND FL_PLUS \<noteq> 0 then EMIT n 43 out
               else if flags AND FL_SPACE \<noteq> 0 then EMIT n 32 out
               else Some out);
        out \<leftarrow> (if flags AND FL_HASH \<noteq> 0 \<and> base = 16
               then do { out \<leftarrow> EMIT n 48 out; EMIT n (if flags AND FL_UPPER \<noteq> 0 then 88 else 120) out }
               else Some out);
        (width, q, k, m) \<leftarrow> (if flags AND (FL_MINUS OR FL_ZERO) = FL_ZERO \<and> width > ndigits
               then pad n 48 nchars width out else Some (width, out));
        m \<leftarrow> number_loop digits n base tickskip ndigits tickskip val (q + nat ndigits) (k + nat ndigits) m;
        (width, q, k, m) \<leftarrow> (if flags AND FL_MINUS \<noteq> 0 then pad n 32 nchars width (q + nat ndigits, k + nat ndigits, m)
               else Some (width, q + nat ndigits, k + nat ndigits, m));
        Some (k, m) })"

definition format_int :: "nat \<Rightarrow> nat \<Rightarrow> 64 word \<Rightarrow> word32 \<Rightarrow> int \<Rightarrow> int \<Rightarrow> int \<Rightarrow> cmem \<Rightarrow> (nat \<times> cmem) option" where
  "format_int q n val flags base width prec m =
     (let digits = (if flags AND FL_UPPER \<noteq> 0 then ucdigits else lcdigits);
          neg = (flags AND FL_SIGNED \<noteq> 0 \<and> sint val < 0);
          val = (if neg then - val else val)
      in do {
        ndigits \<leftarrow> count_digits val base 0;
        let prec = (if flags AND FL_HASH \<noteq> 0 \<and> base = 8 then (if prec < ndigits + 1 then ndigits + 1 else prec) else prec);
        let ndigits = (if ndigits < prec then prec else if val = 0 then 1 else ndigits);
        let tickskip = (if flags AND FL_TICK \<noteq> 0 then (if base = 16 then 4 else 3) else ndigits);
        emit_number digits neg tickskip (ndigits + (ndigits - 1) div tickskip) q n val flags base width m })"

section \<open>The format\<close>

datatype fmt_state = st_normal | st_flags | st_width | st_prec | st_modifiers

text \<open>The local variables of \<^verbatim>\<open>vsnprintf\<close> that belong to the format and its arguments.\<close>

record fmt =
  fmt_p :: nat
  fmt_rank :: int
  fmt_width :: int
  fmt_prec :: int
  fmt_flags :: word32
  fmt_st :: fmt_state
  fmt_ap :: "word32 list"

definition va_slot :: "fmt \<Rightarrow> (word32 \<times> fmt) option" where
  "va_slot f = (case fmt_ap f of [] \<Rightarrow> None | a # as \<Rightarrow> Some (a, f\<lparr>fmt_ap := as\<rparr>))"

definition va_longlong :: "fmt \<Rightarrow> (64 word \<times> fmt) option" where
  "va_longlong f = do { (lo, f) \<leftarrow> va_slot f; (hi, f) \<leftarrow> va_slot f; Some (ucast lo + push_bit 32 (ucast hi), f) }"

definition start_directive :: "fmt \<Rightarrow> fmt" where
  "start_directive f = f\<lparr>fmt_st := st_flags, fmt_flags := 0, fmt_rank := rank_int, fmt_width := 0, fmt_prec := -1\<rparr>"

definition again :: "fmt_state \<Rightarrow> fmt \<Rightarrow> fmt" where
  "again x f = f\<lparr>fmt_st := x, fmt_p := fmt_p f - 1\<rparr>"

definition add_flag :: "word32 \<Rightarrow> fmt \<Rightarrow> fmt" where
  "add_flag x f = f\<lparr>fmt_flags := fmt_flags f OR x\<rparr>"

definition step_flags :: "byte \<Rightarrow> fmt \<Rightarrow> fmt" where
  "step_flags ch f =
     (if ch = 45 then add_flag FL_MINUS f
      else if ch = 43 then add_flag FL_PLUS f
      else if ch = 39 then add_flag FL_TICK f
      else if ch = 32 then add_flag FL_SPACE f
      else if ch = 35 then add_flag FL_HASH f
      else if ch = 48 then add_flag FL_ZERO f
      else again st_width f)"

definition step_width :: "byte \<Rightarrow> fmt \<Rightarrow> fmt option" where
  "step_width ch f =
     (if 48 \<le> sint ch \<and> sint ch \<le> 57 then Some (f\<lparr>fmt_width := fmt_width f * 10 + (sint ch - 48)\<rparr>)
      else if ch = 42 then do {
        (a, f) \<leftarrow> va_slot f;
        Some (if sint a < 0 then add_flag FL_MINUS (f\<lparr>fmt_width := - sint a\<rparr>) else f\<lparr>fmt_width := sint a\<rparr>) }
      else if ch = 46 then Some (f\<lparr>fmt_prec := 0, fmt_st := st_prec\<rparr>)
      else Some (again st_modifiers f))"

definition step_prec :: "byte \<Rightarrow> fmt \<Rightarrow> fmt option" where
  "step_prec ch f =
     (if 48 \<le> sint ch \<and> sint ch \<le> 57 then Some (f\<lparr>fmt_prec := fmt_prec f * 10 + (sint ch - 48)\<rparr>)
      else if ch = 42 then do {
        (a, f) \<leftarrow> va_slot f;
        Some (f\<lparr>fmt_prec := (if sint a < 0 then -1 else sint a)\<rparr>) }
      else Some (again st_modifiers f))"

text \<open>The length modifiers; \<open>None\<close> for any other character.\<close>

definition length_modifier :: "byte \<Rightarrow> int \<Rightarrow> int option" where
  "length_modifier ch r =
     (if ch = 104 then Some (r - 1)
      else if ch = 108 then Some (r + 1)
      else if ch = 106 then Some rank_longlong
      else if ch = 122 then Some rank_long
      else if ch = 116 then Some rank_long
      else if ch = 76 \<or> ch = 113 then Some (r + 2)
      else None)"

definition canonical_rank :: "int \<Rightarrow> int" where
  "canonical_rank r = (if r < rank_char then rank_char else if r > rank_longlong then rank_longlong else r)"

section \<open>Conversions\<close>

datatype sarg = Pointer nat | Local byte | Literal "byte list"

datatype conversion =
    Is_integer "64 word" int
  | Is_string sarg int
  | Store_count word32
  | Emit_char

definition signed_arg :: "fmt \<Rightarrow> (64 word \<times> fmt) option" where
  "signed_arg f =
     (if fmt_rank f = rank_longlong then va_longlong f
      else do {
        (a, f) \<leftarrow> va_slot f;
        Some (if fmt_rank f = rank_char then word_of_int (sint (ucast a :: 8 word))
              else if fmt_rank f = rank_short then word_of_int (sint (ucast a :: 16 word))
              else word_of_int (sint a), f) })"

definition unsigned_arg :: "fmt \<Rightarrow> (64 word \<times> fmt) option" where
  "unsigned_arg f =
     (if fmt_rank f = rank_longlong then va_longlong f
      else do {
        (a, f) \<leftarrow> va_slot f;
        Some (if fmt_rank f = rank_char then ucast (ucast a :: 8 word)
              else if fmt_rank f = rank_short then ucast (ucast a :: 16 word)
              else ucast a, f) })"

definition to_integer :: "(64 word \<times> fmt) option \<Rightarrow> int \<Rightarrow> (conversion \<times> fmt) option" where
  "to_integer r base = do { (val, f) \<leftarrow> r; Some (Is_integer val base, f) }"

definition string_arg :: "cmem \<Rightarrow> fmt \<Rightarrow> (conversion \<times> fmt) option" where
  "string_arg m f = do {
     (a, f) \<leftarrow> va_slot f;
     if a = 0 then Some (Is_string (Literal (map of_char ''(null)'')) 6, f)
     else do { slen \<leftarrow> strlen (unat a) m; Some (Is_string (Pointer (unat a)) (int slen), f) } }"

definition convert :: "byte \<Rightarrow> cmem \<Rightarrow> fmt \<Rightarrow> (conversion \<times> fmt) option" where
  "convert ch m f =
     (if ch = 80 \<or> ch = 112 then do {
        (a, f) \<leftarrow> va_slot f;
        Some (Is_integer (ucast a) 16,
          add_flag FL_HASH ((if ch = 80 then add_flag FL_UPPER f else f)\<lparr>fmt_prec := (8 * 4 + 3) div 4\<rparr>)) }
      else if ch = 100 \<or> ch = 105 then to_integer (signed_arg (add_flag FL_SIGNED f)) 10
      else if ch = 111 then to_integer (unsigned_arg f) 8
      else if ch = 117 then to_integer (unsigned_arg f) 10
      else if ch = 88 then to_integer (unsigned_arg (add_flag FL_UPPER f)) 16
      else if ch = 120 then to_integer (unsigned_arg f) 16
      else if ch = 99 then do { (a, f) \<leftarrow> va_slot f; Some (Is_string (Local (ucast a)) 1, f) }
      else if ch = 115 then string_arg m f
      else if ch = 110 then do { (a, f) \<leftarrow> va_slot f; Some (Store_count a, f) }
      else Some (Emit_char, f))"

definition sarg_at :: "sarg \<Rightarrow> nat \<Rightarrow> cmem \<Rightarrow> byte option" where
  "sarg_at s i m = (case s of Pointer a \<Rightarrow> m (a + i) | Local b \<Rightarrow> Some b | Literal bs \<Rightarrow> Some (bs ! i))"

fun emit_string :: "nat \<Rightarrow> sarg \<Rightarrow> nat \<Rightarrow> nat \<Rightarrow> outpos \<Rightarrow> outpos option" where
  "emit_string n s i 0 out = Some out"
| "emit_string n s i (Suc k) out = do {
     sch \<leftarrow> sarg_at s i (snd (snd out));
     out \<leftarrow> EMIT n sch out;
     emit_string n s (Suc i) k out }"

definition format_string :: "nat \<Rightarrow> sarg \<Rightarrow> int \<Rightarrow> fmt \<Rightarrow> outpos \<Rightarrow> outpos option" where
  "format_string n s slen f out =
     (let slen = (if fmt_prec f \<noteq> -1 \<and> slen > fmt_prec f then fmt_prec f else slen) in do {
        (width, out) \<leftarrow> (if fmt_width f > slen \<and> fmt_flags f AND FL_MINUS = 0
          then pad n (if fmt_flags f AND FL_ZERO \<noteq> 0 then 48 else 32) slen (fmt_width f) out else Some (fmt_width f, out));
        out \<leftarrow> emit_string n s 0 (nat slen) out;
        (width, out) \<leftarrow> (if width > slen \<and> fmt_flags f AND FL_MINUS \<noteq> 0 then pad n 32 slen width out else Some (width, out));
        Some out })"

definition le_bytes :: "nat \<Rightarrow> nat \<Rightarrow> byte list" where
  "le_bytes k v = map (\<lambda>i. of_nat (v div 256 ^ i)) [0..<k]"

definition rank_size :: "int \<Rightarrow> nat" where
  "rank_size r = (if r = rank_char then 1 else if r = rank_short then 2 else if r = rank_longlong then 8 else 4)"

definition run_conversion :: "nat \<Rightarrow> byte \<Rightarrow> conversion \<Rightarrow> fmt \<Rightarrow> outpos \<Rightarrow> outpos option" where
  "run_conversion n ch c f out = (case c of
     Is_integer val base \<Rightarrow> (case out of (q, k, m) \<Rightarrow> do {
       (sz, m) \<leftarrow> format_int q (if k < n then n - k else 0) val (fmt_flags f) base (fmt_width f) (fmt_prec f) m;
       Some (q + sz, k + sz, m) })
   | Is_string s slen \<Rightarrow> format_string n s slen f out
   | Store_count a \<Rightarrow> (case out of (q, k, m) \<Rightarrow> do {
       m \<leftarrow> st_all (unat a) (le_bytes (rank_size (fmt_rank f)) k) m;
       Some (q, k, m) })
   | Emit_char \<Rightarrow> EMIT n ch out)"

section \<open>vsnprintf\<close>

definition step_modifiers :: "nat \<Rightarrow> byte \<Rightarrow> fmt \<Rightarrow> outpos \<Rightarrow> (fmt \<times> outpos) option" where
  "step_modifiers n ch f out = (case length_modifier ch (fmt_rank f) of
     Some r \<Rightarrow> Some (f\<lparr>fmt_rank := r\<rparr>, out)
   | None \<Rightarrow> do {
       (c, f) \<leftarrow> convert ch (snd (snd out)) (f\<lparr>fmt_st := st_normal, fmt_rank := canonical_rank (fmt_rank f)\<rparr>);
       out \<leftarrow> run_conversion n ch c f out;
       Some (f, out) })"

definition vsnprintf_step :: "nat \<Rightarrow> byte \<Rightarrow> fmt \<Rightarrow> outpos \<Rightarrow> (fmt \<times> outpos) option" where
  "vsnprintf_step n ch f out = (case fmt_st f of
     st_normal \<Rightarrow> if ch = 37 then Some (start_directive f, out) else do { out \<leftarrow> EMIT n ch out; Some (f, out) }
   | st_flags \<Rightarrow> Some (step_flags ch f, out)
   | st_width \<Rightarrow> do { f \<leftarrow> step_width ch f; Some (f, out) }
   | st_prec \<Rightarrow> do { f \<leftarrow> step_prec ch f; Some (f, out) }
   | st_modifiers \<Rightarrow> step_modifiers n ch f out)"

partial_function (option) vsnprintf_loop :: "nat \<Rightarrow> fmt \<Rightarrow> outpos \<Rightarrow> outpos option" where
  "vsnprintf_loop n f out = do {
     ch \<leftarrow> (snd (snd out)) (fmt_p f);
     if ch = 0 then Some out
     else do {
       (f, out) \<leftarrow> vsnprintf_step n ch (f\<lparr>fmt_p := fmt_p f + 1\<rparr>) out;
       vsnprintf_loop n f out } }"

definition fmt_start :: "nat \<Rightarrow> word32 list \<Rightarrow> fmt" where
  "fmt_start format ap = \<lparr>fmt_p = format, fmt_rank = rank_int, fmt_width = 0, fmt_prec = -1, fmt_flags = 0,
     fmt_st = st_normal, fmt_ap = ap\<rparr>"

definition vsnprintf :: "nat \<Rightarrow> nat \<Rightarrow> nat \<Rightarrow> word32 list \<Rightarrow> cmem \<Rightarrow> (nat \<times> cmem) option" where
  "vsnprintf buffer n format ap m = do {
     (q, k, m) \<leftarrow> vsnprintf_loop n (fmt_start format ap) (buffer, 0, m);
     m \<leftarrow> (if k < n then st q 0 m else if n > 0 then st (buffer + n - 1) 0 m else Some m);
     Some (k, m) }"

definition vsprintf :: "nat \<Rightarrow> nat \<Rightarrow> word32 list \<Rightarrow> cmem \<Rightarrow> (nat \<times> cmem) option" where
  "vsprintf buffer format ap m = vsnprintf buffer (2 ^ 32 - 1) format ap m"

definition sprintf :: "nat \<Rightarrow> nat \<Rightarrow> word32 list \<Rightarrow> cmem \<Rightarrow> (nat \<times> cmem) option" where
  "sprintf buffer format ap m = vsnprintf buffer (2 ^ 32 - 1) format ap m"

text \<open>\<^verbatim>\<open>TtyPrintf\<close> up to its call of \<^verbatim>\<open>TtyWrite\<close>: the length it passes, with the text in \<^verbatim>\<open>tty_buff\<close>.\<close>

definition TtyPrintf :: "nat \<Rightarrow> nat \<Rightarrow> word32 list \<Rightarrow> cmem \<Rightarrow> (nat \<times> cmem) option" where
  "TtyPrintf tty_buff format ap m = do {
     (_, m) \<leftarrow> vsprintf tty_buff format ap m;
     len \<leftarrow> strlen tty_buff m;
     Some (len, m) }"

end
