(* ===== verification/Printf_Numbers.thy ===== *)
theory Printf_Numbers
  imports User_Printf String_Properties
begin

unbundle bit_operations_syntax

text \<open>
  What \<^verbatim>\<open>format_int\<close> puts into its buffer: the text of the number in closed form, cut to the size of the buffer; and that
  \<^verbatim>\<open>strntoumax\<close> reads it back.
\<close>

section \<open>Bounded output\<close>

text \<open>The output position after the text \<open>xs\<close>, in a buffer of \<open>n\<close> bytes at \<open>q0\<close>.\<close>

definition out_at :: "nat \<Rightarrow> nat \<Rightarrow> cmem \<Rightarrow> byte list \<Rightarrow> outpos \<Rightarrow> bool" where
  "out_at q0 n m0 xs out = (case out of (q, k, m) \<Rightarrow>
     k = length xs \<and> (k < n \<longrightarrow> q = q0 + k) \<and> m = filled q0 (take n xs) m0)"

lemma filled_Nil [simp]: "filled p [] m = m"
  by (auto simp: filled_def fun_eq_iff)

lemma filled_append: "filled p (xs @ ys) m = filled (p + length xs) ys (filled p xs m)"
proof
  fix a
  consider "a < p + length xs" | k where "a = p + length xs + k" by (meson le_Suc_ex not_less)
  then show "filled p (xs @ ys) m a = filled (p + length xs) ys (filled p xs m) a"
    by cases (auto simp: filled_def nth_append)
qed

lemma filled_commute: "p + length xs \<le> q \<Longrightarrow> filled p xs (m(q \<mapsto> b)) = (filled p xs m)(q \<mapsto> b)"
  by (auto simp: filled_def fun_eq_iff)

lemma filled_one: "filled p [b] m = m(p \<mapsto> b)"
  by (auto simp: filled_def fun_eq_iff)

lemma filled_mapped: "m a \<noteq> None \<Longrightarrow> filled p xs m a \<noteq> None"
  by (simp add: filled_def)

lemma is_mapped_filled [simp]: "is_mapped m p n \<Longrightarrow> is_mapped (filled q xs m) p n"
  by (auto simp: is_mapped_def filled_def)

lemma is_mapped_less: "is_mapped m p n \<Longrightarrow> k \<le> n \<Longrightarrow> is_mapped m p k"
  by (simp add: is_mapped_def)

lemma out_at_start: "out_at q n m [] (q, 0, m)"
  by (simp add: out_at_def)

lemma EMIT_out:
  assumes "out_at q0 n m0 xs out" and "is_mapped m0 q0 (min n L)" and "length xs < L"
  shows "\<exists>out'. EMIT n x out = Some out' \<and> out_at q0 n m0 (xs @ [x]) out'"
proof -
  obtain q k m where out: "out = (q, k, m)" by (cases out) auto
  have o: "k = length xs" "k < n \<longrightarrow> q = q0 + k" "m = filled q0 (take n xs) m0"
    using assms(1) by (simp_all add: out out_at_def)
  show ?thesis
  proof (cases "k < n")
    case True
    have "m0 (q0 + k) \<noteq> None" using assms(2,3) True o(1) by (simp add: is_mapped_def)
    then have "m q \<noteq> None" using filled_mapped o True by simp
    then show ?thesis using True o by (simp add: EMIT_def out out_at_def filled_append filled_one)
  next
    case False
    then show ?thesis using o by (simp add: EMIT_def out out_at_def)
  qed
qed

lemma pad_out:
  assumes "out_at q0 n m0 xs out" and "is_mapped m0 q0 (min n L)" and "length xs + nat (width - nchars) \<le> L"
  shows "\<exists>out'. pad n x nchars width out = Some (min width nchars, out') \<and>
    out_at q0 n m0 (xs @ replicate (nat (width - nchars)) x) out'"
  using assms
proof (induction "nat (width - nchars)" arbitrary: width xs out)
  case 0
  then show ?case by simp
next
  case (Suc k)
  then have w: "width > nchars" "k = nat (width - 1 - nchars)" by auto
  have l: "length xs < L" "length (xs @ [x]) + nat (width - 1 - nchars) \<le> L" using Suc.prems(3) Suc.hyps(2) w by auto
  from EMIT_out [OF Suc.prems(1,2) l(1), of x] obtain out1 where
    o1: "EMIT n x out = Some out1" "out_at q0 n m0 (xs @ [x]) out1" by blast
  from Suc.hyps(1) [OF w(2) o1(2) Suc.prems(2) l(2)] obtain out2 where
    "pad n x nchars (width - 1) out1 = Some (min (width - 1) nchars, out2)"
    "out_at q0 n m0 ((xs @ [x]) @ replicate (nat (width - 1 - nchars)) x) out2" by blast
  moreover have "replicate (nat (width - nchars)) x = x # replicate (nat (width - 1 - nchars)) x"
    using Suc.hyps(2) w(2) by (metis replicate_Suc)
  ultimately show ?case using o1(1) w(1) by (simp add: min_def)
qed

declare pad.simps [simp del]

section \<open>Digits\<close>

fun number_length :: "nat \<Rightarrow> nat \<Rightarrow> nat" where
  "number_length b v = (if v = 0 \<or> b < 2 then 0 else Suc (number_length b (v div b)))"

declare number_length.simps [simp del]

lemma unat_base: "0 \<le> b \<Longrightarrow> b < 2 ^ 63 \<Longrightarrow> unat (word_of_int b :: 64 word) = nat b"
  by (simp add: unat_eq_nat_uint take_bit_int_eq_self uint_word_of_int)

lemma count_digits_value:
  assumes "2 \<le> b" "b < 2 ^ 63"
  shows "count_digits v b k = Some (k + int (number_length (nat b) (unat v)))"
proof (induction "unat v" arbitrary: v k rule: less_induct)
  case less
  show ?case
  proof (cases "v = 0")
    case True
    then show ?thesis by (subst count_digits.simps) (simp add: number_length.simps)
  next
    case False
    have u: "unat (v div word_of_int b) = unat v div nat b" using assms by (simp add: unat_div unat_base)
    have "0 < unat v" using False by (simp add: unat_gt_0)
    then have "unat (v div word_of_int b) < unat v" unfolding u using assms(1) by simp
    from less [OF this] have "count_digits (v div word_of_int b) b (k + 1) =
        Some (k + 1 + int (number_length (nat b) (unat v div nat b)))" unfolding u .
    moreover have "number_length (nat b) (unat v) = Suc (number_length (nat b) (unat v div nat b))"
      using \<open>0 < unat v\<close> assms(1) by (subst number_length.simps) simp
    ultimately show ?thesis using False by (subst count_digits.simps) simp
  qed
qed


text \<open>
  The characters of a number, least significant first: \<open>D\<close> digits, with an underscore before each group of \<open>skip\<close> but the
  first.
\<close>

definition digit_chars :: "byte list \<Rightarrow> nat \<Rightarrow> nat \<Rightarrow> nat \<Rightarrow> nat \<Rightarrow> byte list" where
  "digit_chars digits b skip D v =
     concat (map (\<lambda>i. (if i \<noteq> 0 \<and> i mod skip = 0 then [95] else []) @ [digits ! (v div b ^ i mod b)]) [0..<D])"

lemma length_digit_chars: "0 < D \<Longrightarrow> length (digit_chars digits b skip D v) = D + (D - 1) div skip"
proof (induction D)
  case 0
  then show ?case by simp
next
  case (Suc D)
  then show ?case by (cases D) (simp_all add: digit_chars_def div_Suc)
qed

text \<open>The same characters as the loop produces them, \<open>t\<close> digits before the next underscore.\<close>

fun loop_chars :: "byte list \<Rightarrow> nat \<Rightarrow> nat \<Rightarrow> nat \<Rightarrow> nat \<Rightarrow> nat \<Rightarrow> byte list" where
  "loop_chars digits b skip 0 t v = []"
| "loop_chars digits b skip (Suc D) t v =
     (if t = 0 then 95 # (digits ! (v mod b)) # loop_chars digits b skip D (skip - 1) (v div b)
      else (digits ! (v mod b)) # loop_chars digits b skip D (t - 1) (v div b))"

lemma loop_chars_from:
  assumes "0 < skip" and "0 < i" and "t = (skip - i mod skip) mod skip"
  shows "loop_chars digits b skip D t v =
    concat (map (\<lambda>j. (if (i + j) mod skip = 0 then [95] else []) @ [digits ! (v div b ^ j mod b)]) [0..<D])"
  using assms(2,3)
proof (induction D arbitrary: i t v)
  case 0
  then show ?case by simp
next
  case (Suc D)
  let ?t = "if t = 0 then skip - 1 else t - 1"
  have r: "i mod skip < skip" using assms(1) by simp
  then have t: "t = (if i mod skip = 0 then 0 else skip - i mod skip)" using Suc.prems(2) by simp
  then have t0: "t = 0 \<longleftrightarrow> i mod skip = 0" using r by simp
  have "?t = (skip - Suc i mod skip) mod skip"
    using r unfolding t by (auto simp: mod_Suc)
  from Suc.IH [OF _ this, of "v div b"] have "loop_chars digits b skip D ?t (v div b) = concat (map (\<lambda>j.
      (if (Suc i + j) mod skip = 0 then [95] else []) @ [digits ! (v div b div b ^ j mod b)]) [0..<D])" by simp
  also have "\<dots> = concat (map (\<lambda>j. (if (i + j) mod skip = 0 then [95] else []) @ [digits ! (v div b ^ j mod b)]) [Suc 0..<Suc D])"
    by (simp add: map_Suc_upt [symmetric] div_mult2_eq comp_def del: upt_Suc)
  finally show ?case using t0 by (simp add: upt_conv_Cons del: upt_Suc split: if_splits)
qed

lemma loop_chars_digits: "0 < skip \<Longrightarrow> loop_chars digits b skip D skip v = digit_chars digits b skip D v"
proof (cases D)
  case (Suc D')
  assume s: "0 < skip"
  have "loop_chars digits b skip D' (skip - 1) (v div b) = concat (map (\<lambda>j.
      (if (1 + j) mod skip = 0 then [95] else []) @ [digits ! (v div b div b ^ j mod b)]) [0..<D'])"
    using s by (intro loop_chars_from) (cases skip; auto simp: mod_Suc)+
  also have "\<dots> = concat (map (\<lambda>j. (if j \<noteq> 0 \<and> j mod skip = 0 then [95] else []) @ [digits ! (v div b ^ j mod b)]) [Suc 0..<Suc D'])"
    by (simp add: map_Suc_upt [symmetric] div_mult2_eq comp_def del: upt_Suc)
  finally show ?thesis using s Suc by (simp add: digit_chars_def upt_conv_Cons del: upt_Suc)
qed (simp add: digit_chars_def)


text \<open>Storing from right to left, as far as the buffer goes.\<close>

fun put_back :: "nat \<Rightarrow> nat \<Rightarrow> nat \<Rightarrow> byte list \<Rightarrow> cmem \<Rightarrow> cmem option" where
  "put_back n qq oo [] m = Some m"
| "put_back n qq oo (c # cs) m = do { m \<leftarrow> store_below n (oo - 1) (qq - 1) c m; put_back n (qq - 1) (oo - 1) cs m }"

declare number_loop.simps [simp del]

lemma number_loop_put_back:
  assumes "2 \<le> b" "b < 2 ^ 63" "0 < skip"
  shows "number_loop digits n b (int skip) (int (length (loop_chars digits (nat b) skip D t (unat v)))) (int t) v qq oo =
    put_back n qq oo (loop_chars digits (nat b) skip D t (unat v))"
proof (induction D arbitrary: t v qq oo)
  case 0
  then show ?case by (simp add: number_loop.simps fun_eq_iff)
next
  case (Suc D)
  have d: "unat (v div word_of_int b) = unat v div nat b" "unat (v mod word_of_int b) = unat v mod nat b"
    using assms by (simp_all add: unat_div unat_mod unat_base)
  have i: "int skip - 1 = int (skip - 1)" "\<And>x :: int. 1 + (1 + x) - 2 = x" "\<And>x :: int. 1 + x - 1 = x" using assms(3) by auto
  note IH = Suc.IH [where v = "v div word_of_int b", unfolded d(1)]
  show ?case
  proof (cases "t = 0")
    case True
    then show ?thesis using IH [of "skip - 1"]
      by (intro ext, subst number_loop.simps) (simp add: d i numeral_2_eq_2 put_back.simps(2) [abs_def] del: of_nat_diff put_back.simps(2))
  next
    case False
    then have "int t - 1 = int (t - 1)" by simp
    then show ?thesis using False IH [of "t - 1"] by (intro ext, subst number_loop.simps) (simp add: d i del: of_nat_diff)
  qed
qed

lemma put_back_beyond: "length cs \<le> oo \<Longrightarrow> n \<le> oo - length cs \<Longrightarrow> put_back n qq oo cs m = Some m"
  by (induction cs arbitrary: qq oo) (auto simp: store_below_def)

lemma put_back_fills:
  assumes "k \<le> n"
  shows "oo = k + length cs \<Longrightarrow> is_mapped m (q0 + k) (min (n - k) (length cs)) \<Longrightarrow>
    put_back n (q0 + oo) oo cs m = Some (filled (q0 + k) (take (n - k) (rev cs)) m)"
proof (induction cs arbitrary: oo m)
  case Nil
  then show ?case by simp
next
  case (Cons c cs)
  have e: "q0 + oo - 1 = q0 + (k + length cs)" "oo - 1 = k + length cs" using Cons.prems(1) by simp_all
  show ?case
  proof (cases "k + length cs < n")
    case True
    then have "length cs < min (n - k) (length (c # cs))" by simp
    then have "m (q0 + k + length cs) \<noteq> None" using Cons.prems(2) unfolding is_mapped_def by blast
    then have s: "store_below n (oo - 1) (q0 + oo - 1) c m = Some (m(q0 + (k + length cs) \<mapsto> c))"
      using True e by (simp add: store_below_def add.assoc)
    let ?m = "m(q0 + (k + length cs) \<mapsto> c)"
    have "is_mapped ?m (q0 + k) (min (n - k) (length cs))"
      by (rule is_mapped_upd) (use Cons.prems(2) in \<open>auto elim!: is_mapped_less\<close>)
    from Cons.IH [OF _ this, of "k + length cs"] have "put_back n (q0 + (k + length cs)) (k + length cs) cs ?m =
        Some (filled (q0 + k) (take (n - k) (rev cs)) ?m)" by (simp del: fun_upd_apply)
    moreover have "filled (q0 + k) (take (n - k) (rev cs)) ?m = filled (q0 + k) (take (n - k) (rev (c # cs))) m"
      using True by (simp add: filled_append filled_one filled_commute add.assoc)
    ultimately show ?thesis using s e by (simp del: fun_upd_apply)
  next
    case False
    then have "store_below n (oo - 1) (q0 + oo - 1) c m = Some m" using e by (simp add: store_below_def)
    moreover have "is_mapped m (q0 + k) (min (n - k) (length cs))" using Cons.prems(2) by (rule is_mapped_less) simp
    from Cons.IH [OF _ this, of "k + length cs"] have "put_back n (q0 + (k + length cs)) (k + length cs) cs m =
        Some (filled (q0 + k) (take (n - k) (rev cs)) m)" by simp
    ultimately show ?thesis using e False by simp
  qed
qed

section \<open>The text of a number\<close>

abbreviation has :: "word32 \<Rightarrow> word32 \<Rightarrow> bool" where
  "has flags x \<equiv> flags AND x \<noteq> 0"

definition int_sign :: "word32 \<Rightarrow> bool \<Rightarrow> byte list" where
  "int_sign flags neg =
     (if neg then [45] else if has flags FL_PLUS then [43] else if has flags FL_SPACE then [32] else [])"

definition int_prefix :: "word32 \<Rightarrow> int \<Rightarrow> byte list" where
  "int_prefix flags base =
     (if has flags FL_HASH \<and> base = 16 then [48, if has flags FL_UPPER then 88 else 120] else [])"

definition int_digits :: "word32 \<Rightarrow> int \<Rightarrow> int \<Rightarrow> nat \<Rightarrow> byte list" where
  "int_digits flags base prec v =
     (let nd = number_length (nat base) v;
          D = nat (max 1 (max (int nd) (if has flags FL_HASH \<and> base = 8 then max prec (int nd + 1) else prec)));
          skip = (if has flags FL_TICK then (if base = 16 then 4 else 3) else D)
      in rev (digit_chars (if has flags FL_UPPER then ucdigits else lcdigits) (nat base) skip D v))"

definition int_text :: "64 word \<Rightarrow> word32 \<Rightarrow> int \<Rightarrow> int \<Rightarrow> int \<Rightarrow> byte list" where
  "int_text val flags base width prec =
     (let neg = (has flags FL_SIGNED \<and> sint val < 0);
          head = int_sign flags neg @ int_prefix flags base;
          number = int_digits flags base prec (unat (if neg then - val else val));
          gap = nat (width - int (length (head @ number)))
      in if has flags FL_MINUS then head @ number @ replicate gap 32
         else if has flags FL_ZERO then head @ replicate gap 48 @ number
         else replicate gap 32 @ head @ number)"

lemma and_bit: "f AND 2 ^ k = (if bit f k then 2 ^ k else 0)" for f :: word32
  by (rule bit_eqI) (auto simp: bit_simps)

lemma flag_tests:
  "flags AND (FL_PLUS OR FL_SPACE) \<noteq> 0 \<longleftrightarrow> has flags FL_PLUS \<or> has flags FL_SPACE"
  "flags AND (FL_MINUS OR FL_ZERO) = 0 \<longleftrightarrow> \<not> has flags FL_MINUS \<and> \<not> has flags FL_ZERO"
  "flags AND (FL_MINUS OR FL_ZERO) = FL_ZERO \<longleftrightarrow> \<not> has flags FL_MINUS \<and> has flags FL_ZERO"
proof -
  have b: "flags AND FL_PLUS = (if bit flags 2 then 4 else 0)" "flags AND FL_SPACE = (if bit flags 4 then 16 else 0)"
    "flags AND FL_MINUS = (if bit flags 1 then 2 else 0)" "flags AND FL_ZERO = (if bit flags 0 then 1 else 0)"
    using and_bit [of flags 2] and_bit [of flags 4] and_bit [of flags 1] and_bit [of flags 0]
    by (simp_all add: FL_PLUS_def FL_SPACE_def FL_MINUS_def FL_ZERO_def)
  show "flags AND (FL_PLUS OR FL_SPACE) \<noteq> 0 \<longleftrightarrow> has flags FL_PLUS \<or> has flags FL_SPACE"
    "flags AND (FL_MINUS OR FL_ZERO) = 0 \<longleftrightarrow> \<not> has flags FL_MINUS \<and> \<not> has flags FL_ZERO"
    "flags AND (FL_MINUS OR FL_ZERO) = FL_ZERO \<longleftrightarrow> \<not> has flags FL_MINUS \<and> has flags FL_ZERO"
    unfolding bit.conj_disj_distrib b by (simp_all add: FL_ZERO_def)
qed

lemma number_length_0: "number_length b v = 0 \<longleftrightarrow> v = 0 \<or> b < 2"
  by (subst number_length.simps) simp

lemma sign_length: "int (length (int_sign flags neg)) = (if neg \<or> flags AND (FL_PLUS OR FL_SPACE) \<noteq> 0 then 1 else 0)"
  by (simp add: int_sign_def flag_tests(1))

lemma prefix_length: "int (length (int_prefix flags base)) = (if has flags FL_HASH \<and> base = 16 then 2 else 0)"
  by (simp add: int_prefix_def)

lemma emit_sign:
  assumes "out_at q0 n m0 xs out" and "is_mapped m0 q0 (min n L)" and "length xs + length (int_sign flags neg) \<le> L"
  shows "\<exists>out'. (if neg then EMIT n 45 out else if has flags FL_PLUS then EMIT n 43 out
      else if has flags FL_SPACE then EMIT n 32 out else Some out) = Some out' \<and> out_at q0 n m0 (xs @ int_sign flags neg) out'"
  using EMIT_out [OF assms(1,2)] assms(1,3)
  by (cases neg; cases "has flags FL_PLUS"; cases "has flags FL_SPACE") (simp_all add: int_sign_def)

lemma emit_prefix:
  assumes "out_at q0 n m0 xs out" and "is_mapped m0 q0 (min n L)" and "length xs + length (int_prefix flags base) \<le> L"
  shows "\<exists>out'. (if has flags FL_HASH \<and> base = 16
      then do { out \<leftarrow> EMIT n 48 out; EMIT n (if has flags FL_UPPER then 88 else 120) out } else Some out) = Some out' \<and>
    out_at q0 n m0 (xs @ int_prefix flags base) out'"
proof (cases "has flags FL_HASH \<and> base = 16")
  case True
  then have l: "length xs < L" "length (xs @ [48]) < L" using assms(3) by (simp_all add: int_prefix_def)
  from EMIT_out [OF assms(1,2) l(1), of 48] obtain o1 where o1: "EMIT n 48 out = Some o1" "out_at q0 n m0 (xs @ [48]) o1" by blast
  from EMIT_out [OF o1(2) assms(2) l(2)] show ?thesis using True o1(1) by (simp add: int_prefix_def)
next
  case False
  then have "int_prefix flags base = []" by (auto simp: int_prefix_def)
  then show ?thesis using False assms(1) by (cases out) auto
qed

lemma number_out:
  assumes "out_at q0 n m0 xs (q, k, m)" and "is_mapped m0 q0 (min n L)" and "length xs + length cs \<le> L"
  shows "\<exists>m'. put_back n (q + length cs) (k + length cs) cs m = Some m' \<and>
    out_at q0 n m0 (xs @ rev cs) (q + length cs, k + length cs, m')"
proof (cases "k < n")
  case True
  have o: "k = length xs" "q = q0 + k" "m = filled q0 (take n xs) m0" using assms(1) True by (auto simp: out_at_def)
  have "k + min (n - k) (length cs) \<le> min n L" using assms(3) o(1) True by arith
  then have "is_mapped m (q0 + k) (min (n - k) (length cs))"
    using is_mapped_part [OF is_mapped_filled [OF assms(2)]] o(3) by blast
  from put_back_fills [OF _ refl this] have "put_back n (q + length cs) (k + length cs) cs m =
      Some (filled (q0 + k) (take (n - k) (rev cs)) m)" using True o(2) by (simp add: add.assoc)
  moreover have "filled (q0 + k) (take (n - k) (rev cs)) m = filled q0 (take n (xs @ rev cs)) m0"
    using o True by (simp add: filled_append)
  ultimately show ?thesis using o by (auto simp: out_at_def)
next
  case False
  then have "put_back n (q + length cs) (k + length cs) cs m = Some m" by (intro put_back_beyond) auto
  with False assms(1) show ?thesis by (auto simp: out_at_def)
qed



lemma emit_number_out:
  fixes flags :: word32 and width base :: int
  assumes base: "2 \<le> base" "base < 2 ^ 63" and skip: "0 < skip"
    and cs: "cs = loop_chars digits (nat base) skip D skip (unat v)"
    and head: "head = int_sign flags neg @ int_prefix flags base"
    and gap: "gap = nat (width - int (length (head @ cs)))"
    and T: "T = (if has flags FL_MINUS then head @ rev cs @ replicate gap 32
      else if has flags FL_ZERO then head @ replicate gap 48 @ rev cs else replicate gap 32 @ head @ rev cs)"
    and room: "is_mapped m q (min n (length T))"
  shows "emit_number digits neg (int skip) (int (length cs)) q n v flags base width m = Some (length T, filled q (take n T) m)"
proof -
  define S P where "S = int_sign flags neg" and "P = int_prefix flags base"
  define nch where "nch = int (length (head @ cs))"
  have nc: "(if has flags FL_HASH \<and> base = 16 then (if neg \<or> flags AND (FL_PLUS OR FL_SPACE) \<noteq> 0 then int (length cs) + 1 else int (length cs)) + 2
      else (if neg \<or> flags AND (FL_PLUS OR FL_SPACE) \<noteq> 0 then int (length cs) + 1 else int (length cs))) = nch"
    using sign_length [of flags neg] prefix_length [of flags base] by (simp add: nch_def head)
  have num: "number_loop digits n base (int skip) (int (length cs)) (int skip) v qq oo = put_back n qq oo cs" for qq oo
    unfolding cs by (rule number_loop_put_back [OF base skip])
  define gap1 gap2 gap3 where "gap1 = (if has flags FL_MINUS \<or> has flags FL_ZERO then 0 else gap)"
    and "gap2 = (if \<not> has flags FL_MINUS \<and> has flags FL_ZERO then gap else 0)"
    and "gap3 = (if has flags FL_MINUS then gap else 0)"
  define X1 where "X1 = replicate gap1 (32 :: byte)"
  define X4 where "X4 = ((X1 @ S) @ P) @ replicate gap2 (48 :: byte)"
  have T': "T = (X4 @ rev cs) @ replicate gap3 32"
    unfolding T gap1_def gap2_def gap3_def X1_def X4_def S_def P_def head by simp
  have K: "length ([] :: byte list) + nat (width - nch) \<le> length T" "length X1 + length S \<le> length T" "length (X1 @ S) + length P \<le> length T"
    "length ((X1 @ S) @ P) + gap2 \<le> length T" "length X4 + length cs \<le> length T" "length (X4 @ rev cs) + gap3 \<le> length T"
    unfolding T' X4_def X1_def gap1_def gap2_def gap3_def gap nch_def by auto
  let ?w1 = "if has flags FL_MINUS \<or> has flags FL_ZERO then width else min width nch"
  have "\<exists>o1. (if flags AND (FL_MINUS OR FL_ZERO) = 0 then pad n 32 nch width (q, 0, m) else Some (width, q, 0, m)) =
      Some (?w1, o1) \<and> out_at q n m X1 o1"
    using pad_out [OF out_at_start room K(1), of 32] out_at_start [of q n m]
    unfolding flag_tests(2) X1_def gap1_def gap nch_def by auto
  then obtain o1 where o1: "(if flags AND (FL_MINUS OR FL_ZERO) = 0 then pad n 32 nch width (q, 0, m) else Some (width, q, 0, m)) =
      Some (?w1, o1)" "out_at q n m X1 o1" by blast
  from emit_sign [OF o1(2) room K(2) [unfolded S_def]] obtain o2 where
    o2: "(if neg then EMIT n 45 o1 else if has flags FL_PLUS then EMIT n 43 o1 else if has flags FL_SPACE then EMIT n 32 o1 else Some o1) = Some o2"
      "out_at q n m (X1 @ S) o2" unfolding S_def by blast
  from emit_prefix [OF o2(2) room K(3) [unfolded P_def]] obtain o3 where
    o3: "(if has flags FL_HASH \<and> base = 16 then do { out \<leftarrow> EMIT n 48 o2; EMIT n (if has flags FL_UPPER then 88 else 120) out } else Some o2) = Some o3"
      "out_at q n m ((X1 @ S) @ P) o3" unfolding P_def by blast
  let ?w4 = "if \<not> has flags FL_MINUS \<and> has flags FL_ZERO \<and> width > int (length cs) then min width nch else ?w1"
  have "\<exists>q4 k4 m4. (if flags AND (FL_MINUS OR FL_ZERO) = FL_ZERO \<and> ?w1 > int (length cs) then pad n 48 nch ?w1 o3 else Some (?w1, o3)) =
      Some (?w4, q4, k4, m4) \<and> out_at q n m X4 (q4, k4, m4)"
  proof (cases "\<not> has flags FL_MINUS \<and> has flags FL_ZERO \<and> width > int (length cs)")
    case True
    with pad_out [OF o3(2) room, of width nch 48] K(4) show ?thesis
      unfolding flag_tests(3) X4_def by (auto simp: gap2_def gap nch_def)
  next
    case False
    then have "gap2 = 0" by (auto simp: gap2_def gap)
    with False o3(2) show ?thesis unfolding flag_tests(3) X4_def by (cases o3) auto
  qed
  then obtain q4 k4 m4 where o4: "(if flags AND (FL_MINUS OR FL_ZERO) = FL_ZERO \<and> ?w1 > int (length cs) then pad n 48 nch ?w1 o3 else Some (?w1, o3)) =
      Some (?w4, q4, k4, m4)" "out_at q n m X4 (q4, k4, m4)" by blast
  from number_out [OF o4(2) room K(5)] obtain m5 where m5: "put_back n (q4 + length cs) (k4 + length cs) cs m4 = Some m5"
    "out_at q n m (X4 @ rev cs) (q4 + length cs, k4 + length cs, m5)" by blast
  have "\<exists>w q6 k6 m6. (if has flags FL_MINUS then pad n 32 nch ?w4 (q4 + length cs, k4 + length cs, m5)
      else Some (?w4, q4 + length cs, k4 + length cs, m5)) = Some (w, q6, k6, m6) \<and> out_at q n m T (q6, k6, m6)"
  proof (cases "has flags FL_MINUS")
    case True
    with pad_out [OF m5(2) room, of width nch 32] K(6) show ?thesis unfolding T' by (auto simp: gap3_def gap nch_def)
  next
    case False
    with m5(2) show ?thesis unfolding T' by (simp add: gap3_def)
  qed
  then obtain w q6 k6 m6 where o6: "(if has flags FL_MINUS then pad n 32 nch ?w4 (q4 + length cs, k4 + length cs, m5)
      else Some (?w4, q4 + length cs, k4 + length cs, m5)) = Some (w, q6, k6, m6)" "out_at q n m T (q6, k6, m6)" by blast
  have "emit_number digits neg (int skip) (int (length cs)) q n v flags base width m = Some (k6, m6)"
    unfolding emit_number_def Let_def nc by (simp only: o1(1) o2(1) o3(1) o4(1) num nat_int m5(1) o6(1) bind.bind_lunit prod.case)
  with o6(2) show ?thesis by (simp add: out_at_def)
qed

lemma format_int_text:
  assumes base: "2 \<le> base" "base < 2 ^ 63" and room: "is_mapped m q (min n (length (int_text val flags base width prec)))"
  shows "format_int q n val flags base width prec m =
    Some (length (int_text val flags base width prec), filled q (take n (int_text val flags base width prec)) m)"
proof -
  define neg where "neg = (has flags FL_SIGNED \<and> sint val < 0)"
  define v where "v = (if neg then - val else val)"
  define nd where "nd = int (number_length (nat base) (unat v))"
  define prec' where "prec' = (if has flags FL_HASH \<and> base = 8 then (if prec < nd + 1 then nd + 1 else prec) else prec)"
  define D where "D = nat (max 1 (max nd prec'))"
  define skip where "skip = (if has flags FL_TICK then (if base = 16 then 4 else 3) else D)"
  define digits where "digits = (if has flags FL_UPPER then ucdigits else lcdigits)"
  define cs where "cs = loop_chars digits (nat base) skip D skip (unat v)"
  have count: "count_digits v base 0 = Some nd" using count_digits_value [OF base, of v 0] by (simp add: nd_def)
  have v0: "nd = 0 \<longleftrightarrow> v = 0" "0 \<le> nd" using base(1) by (auto simp: nd_def number_length_0 unat_eq_0)
  have D: "(if nd < prec' then prec' else if v = 0 then 1 else nd) = int D" "0 < D" using v0 by (auto simp: D_def)
  have skip: "(if has flags FL_TICK then (if base = 16 then 4 else 3) else int D) = int skip" "0 < skip"
    using D(2) by (auto simp: skip_def)
  have csd: "cs = digit_chars digits (nat base) skip D (unat v)" using skip(2) by (simp add: cs_def loop_chars_digits)
  then have L: "int D + (int D - 1) div int skip = int (length cs)"
    using D(2) by (simp add: length_digit_chars zdiv_int of_nat_diff)
  have "(if has flags FL_HASH \<and> base = 8 then max prec (nd + 1) else prec) = prec'" by (simp add: prec'_def max_def)
  then have dg: "int_digits flags base prec (unat v) = rev cs"
    unfolding int_digits_def Let_def nd_def [symmetric] csd digits_def skip_def D_def by (simp only:)
  have T: "int_text val flags base width prec = (let head = int_sign flags neg @ int_prefix flags base;
      gap = nat (width - int (length (head @ cs))) in
    if has flags FL_MINUS then head @ rev cs @ replicate gap 32
    else if has flags FL_ZERO then head @ replicate gap 48 @ rev cs else replicate gap 32 @ head @ rev cs)"
    unfolding int_text_def Let_def neg_def [symmetric] v_def [symmetric] dg by simp
  show ?thesis
    unfolding format_int_def Let_def neg_def [symmetric] v_def [symmetric] digits_def [symmetric] count bind.bind_lunit
      prec'_def [symmetric] D(1) skip(1) L
    by (rule emit_number_out [OF base skip(2) cs_def refl refl T [unfolded Let_def] room])
qed

section \<open>Reading back what was printed\<close>

text \<open>The digits of a number in its base have its value.\<close>

lemma digits_value_append: "digits_value b (xs @ [d]) = digits_value b xs * b + d"
  by (simp add: digits_value_def)

lemma digits_value_number:
  "0 < b \<Longrightarrow> v < b ^ D \<Longrightarrow> digits_value (int b) (map (\<lambda>i. int (v div b ^ i mod b)) (rev [0..<D])) = int v"
proof (induction D arbitrary: v)
  case 0
  then show ?case by (simp add: digits_value_def)
next
  case (Suc D)
  have e: "rev [0..<Suc D] = map Suc (rev [0..<D]) @ [0]" by (simp add: rev_map [symmetric] map_Suc_upt upt_conv_Cons del: upt_Suc)
  have "v div b < b ^ D" using Suc.prems by (simp add: less_mult_imp_div_less mult.commute)
  from Suc.IH [OF Suc.prems(1) this] have "digits_value (int b) (map (\<lambda>i. int (v div b ^ Suc i mod b)) (rev [0..<D])) = int (v div b)"
    by (simp add: div_mult2_eq)
  then show ?case unfolding e map_append by (simp add: digits_value_append comp_def del: power_Suc flip: of_nat_mult of_nat_add)
qed

lemma number_length_bound: "2 \<le> b \<Longrightarrow> v < b ^ number_length b v"
proof (induction b v rule: number_length.induct)
  case (1 b v)
  show ?case
  proof (cases "v = 0")
    case False
    with 1 have "v div b < b ^ number_length b (v div b)" by simp
    then have "v < b * b ^ number_length b (v div b)" using "1.prems" by (simp add: div_less_iff_less_mult mult.commute)
    with False "1.prems" show ?thesis by (subst number_length.simps) simp
  qed (simp add: number_length.simps)
qed

lemma lcdigit_value: "d < 10 \<Longrightarrow> digitval (sint (lcdigits ! d)) = int d"
  by (auto simp: lcdigits_def digitval_def less_Suc_eq numeral_eq_Suc nth_Cons')

lemma number_length_le: "2 \<le> b \<Longrightarrow> v < b ^ k \<Longrightarrow> number_length b v \<le> k"
proof (induction k arbitrary: v)
  case 0
  then show ?case by (simp add: number_length.simps)
next
  case (Suc k)
  then have "v div b < b ^ k" by (simp add: less_mult_imp_div_less mult.commute)
  with Suc show ?case by (subst number_length.simps) simp
qed

lemma digit_chars_plain: "digit_chars digits b D D v = map (\<lambda>i. digits ! (v div b ^ i mod b)) [0..<D]"
proof -
  have "concat (map (\<lambda>i. (if i \<noteq> 0 \<and> i mod D = 0 then [95] else []) @ [digits ! (v div b ^ i mod b)]) [0..<D]) =
      concat (map (\<lambda>i. [digits ! (v div b ^ i mod b)]) [0..<D])"
    by (intro arg_cong [where f = concat] map_cong) auto
  then show ?thesis by (simp add: digit_chars_def concat_map_singleton)
qed

definition decimal :: "nat \<Rightarrow> byte list" where
  "decimal v = map (\<lambda>i. lcdigits ! (v div 10 ^ i mod 10)) (rev [0..<max 1 (number_length 10 v)])"

lemma signed_flags: "\<not> has FL_SIGNED FL_PLUS" "\<not> has FL_SIGNED FL_SPACE" "\<not> has FL_SIGNED FL_HASH" "\<not> has FL_SIGNED FL_TICK"
  "\<not> has FL_SIGNED FL_UPPER" "\<not> has FL_SIGNED FL_MINUS" "\<not> has FL_SIGNED FL_ZERO" "has FL_SIGNED FL_SIGNED"
  by (simp_all add: FL_SIGNED_def FL_PLUS_def FL_SPACE_def FL_HASH_def FL_TICK_def FL_UPPER_def FL_MINUS_def FL_ZERO_def)

lemma int_text_decimal: "int_text val FL_SIGNED 10 0 (-1) =
    (if sint val < 0 then 45 # decimal (unat (- val)) else decimal (unat val))"
proof -
  have "nat (max 1 (max (int k) (- 1))) = max 1 k" for k by (auto simp: max_def)
  then have "int_digits FL_SIGNED 10 (-1) v = decimal v" for v
    by (simp add: int_digits_def signed_flags digit_chars_plain decimal_def rev_map)
  then show ?thesis by (simp add: int_text_def signed_flags int_sign_def int_prefix_def Let_def FL_SIGNED_def [THEN arg_cong, of "\<lambda>x. x = 0"])
qed

lemma decimal_digits: "list_all (digit_in 10) (decimal v)"
  by (simp add: decimal_def list_all_iff digit_in_def lcdigit_value)

lemma decimal_value: "digits_value 10 (map (\<lambda>b. digitval (sint b)) (decimal v)) = int v"
proof -
  have "v < 10 ^ max 1 (number_length 10 v)"
    by (rule less_le_trans [OF number_length_bound power_increasing]) simp_all
  from digits_value_number [OF _ this] show ?thesis by (simp add: decimal_def comp_def lcdigit_value)
qed

lemma length_decimal: "length (decimal (unat (w :: 64 word))) \<le> 20"
proof -
  have "unat w < 2 ^ LENGTH(64)" by (rule unsigned_less)
  then have "unat w < 10 ^ 20" by simp
  then show ?thesis using number_length_le [of 10 "unat w" 20] by (simp add: decimal_def)
qed

text \<open>
  What \<^verbatim>\<open>format_int\<close> prints in decimal \<^verbatim>\<open>strntoumax\<close> reads back: for every 64-bit number, with a buffer of 21 bytes or more,
  parsing the printed text returns the number and ends at the end of the text.
\<close>

theorem print_parse_roundtrip:
  assumes "is_mapped m q n" and "21 \<le> n"
  shows "\<exists>k m'. format_int q n val FL_SIGNED 10 0 (-1) m = Some (k, m') \<and> strntoumax q 10 k m' = Some (val, q + k)"
proof -
  let ?T = "int_text val FL_SIGNED 10 0 (-1)"
  define neg where "neg = (sint val < 0)"
  define sg :: "byte list" where "sg = (if neg then [45] else [])"
  define v where "v = (if neg then - val else val)"
  have T: "?T = sg @ decimal (unat v)" by (simp add: int_text_decimal sg_def v_def neg_def)
  have l: "length ?T \<le> n" using length_decimal [of v] assms(2) unfolding T by (simp add: sg_def)
  then have "is_mapped m q (min n (length ?T))" using assms(1) by (auto elim: is_mapped_less)
  from format_int_text [OF _ _ this] have f: "format_int q n val FL_SIGNED 10 0 (-1) m = Some (length ?T, filled q ?T m)"
    using l by simp
  have ne: "decimal (unat v) \<noteq> []" by (simp add: decimal_def)
  have "bytes_at (filled q ?T m) q ([] @ sg @ decimal (unat v))" using bytes_at_filled [of q ?T m] by (simp add: T)
  from strntoumax_value [OF _ _ this _ _ ne decimal_digits, of 0] have
    "strntoumax q 10 (length ?T) (filled q ?T m) =
      Some (word_of_int ((if sg = [45] then -1 else 1) * int (unat v)), q + length ?T)"
    by (simp add: decimal_value ends_at_def T sg_def)
  moreover have "word_of_int ((if sg = [45] then -1 else 1) * int (unat v)) = val" by (simp add: sg_def v_def)
  ultimately show ?thesis using f by simp
qed

theorem print_parse_roundtrip_witness:
  "\<exists>k m'. format_int 0 21 7 FL_SIGNED 10 0 (-1) (\<lambda>_. Some 0) = Some (k, m') \<and> strntoumax 0 10 k m' = Some (7, k)"
  using print_parse_roundtrip [of "\<lambda>_. Some 0" 0 21 7] by (simp add: is_mapped_def)

text \<open>
  \<^verbatim>\<open>format_int\<close> writes the text of the number (sign, prefix, padding and digits with their grouping, given in closed form),
  cut to the \<open>n\<close> bytes there are, touches nothing else, and returns the length of the whole text.
\<close>

theorem format_int_writes_text:
  assumes "2 \<le> base" "base < 2 ^ 63" and "is_mapped m q (min n (length (int_text val flags base width prec)))"
  shows "format_int q n val flags base width prec m =
    Some (length (int_text val flags base width prec), filled q (take n (int_text val flags base width prec)) m)"
  using assms by (rule format_int_text)

theorem format_int_writes_text_witness:
  "\<exists>m'. format_int 10 1 (- 5) FL_SIGNED 10 0 (-1) [10 \<mapsto> 7] = Some (2, m') \<and> m' 10 = Some 45"
proof -
  have "number_length 10 5 = 1" by (simp add: number_length.simps)
  then have "int_text (- 5) FL_SIGNED 10 0 (-1) = [45, 53]"
    by (simp add: int_text_decimal decimal_def lcdigits_def)
  then show ?thesis using format_int_writes_text [of 10 "[10 \<mapsto> 7]" 10 1 "- 5" FL_SIGNED 0 "-1"]
    by (simp add: filled_def)
qed

end
