(* ===== verification/Printf_Properties.thy ===== *)
theory Printf_Properties
  imports Printf_Numbers
begin

text \<open>
  What \<^verbatim>\<open>vsnprintf\<close> and \<^verbatim>\<open>TtyPrintf\<close> put into their buffers: the text of a format as a list of bytes, cut to the size of
  the buffer.
\<close>

unbundle bit_operations_syntax

section \<open>The text of a format\<close>

text \<open>
  The specification of the formatter, without a buffer: the text that a format and its arguments produce. The memory is only
  read, for the format and the string arguments. A format that stores the count (\<^verbatim>\<open>%n\<close>) has no text.
\<close>

fun read_sarg :: "cmem \<Rightarrow> sarg \<Rightarrow> nat \<Rightarrow> nat \<Rightarrow> byte list option" where
  "read_sarg m s i 0 = Some []"
| "read_sarg m s i (Suc k) = do { b \<leftarrow> sarg_at s i m; bs \<leftarrow> read_sarg m s (Suc i) k; Some (b # bs) }"

definition string_text :: "cmem \<Rightarrow> sarg \<Rightarrow> int \<Rightarrow> fmt \<Rightarrow> byte list option" where
  "string_text m s slen f =
     (let slen = (if fmt_prec f \<noteq> -1 \<and> slen > fmt_prec f then fmt_prec f else slen);
          gap = nat (fmt_width f - slen)
      in do {
        bs \<leftarrow> read_sarg m s 0 (nat slen);
        Some (if has (fmt_flags f) FL_MINUS then bs @ replicate gap 32
              else replicate gap (if has (fmt_flags f) FL_ZERO then 48 else 32) @ bs) })"

definition conversion_text :: "cmem \<Rightarrow> byte \<Rightarrow> conversion \<Rightarrow> fmt \<Rightarrow> byte list option" where
  "conversion_text m ch c f = (case c of
     Is_integer val base \<Rightarrow> Some (int_text val (fmt_flags f) base (fmt_width f) (fmt_prec f))
   | Is_string s slen \<Rightarrow> string_text m s slen f
   | Store_count a \<Rightarrow> None
   | Emit_char \<Rightarrow> Some [ch])"

definition text_step :: "cmem \<Rightarrow> byte \<Rightarrow> fmt \<Rightarrow> (fmt \<times> byte list) option" where
  "text_step m ch f = (case fmt_st f of
     st_normal \<Rightarrow> Some (if ch = 37 then (start_directive f, []) else (f, [ch]))
   | st_flags \<Rightarrow> Some (step_flags ch f, [])
   | st_width \<Rightarrow> do { f \<leftarrow> step_width ch f; Some (f, []) }
   | st_prec \<Rightarrow> do { f \<leftarrow> step_prec ch f; Some (f, []) }
   | st_modifiers \<Rightarrow> (case length_modifier ch (fmt_rank f) of
       Some r \<Rightarrow> Some (f\<lparr>fmt_rank := r\<rparr>, [])
     | None \<Rightarrow> do {
         (c, f) \<leftarrow> convert ch m (f\<lparr>fmt_st := st_normal, fmt_rank := canonical_rank (fmt_rank f)\<rparr>);
         xs \<leftarrow> conversion_text m ch c f;
         Some (f, xs) }))"

partial_function (option) text_loop :: "cmem \<Rightarrow> fmt \<Rightarrow> byte list option" where
  "text_loop m f = do {
     ch \<leftarrow> m (fmt_p f);
     if ch = 0 then Some []
     else do {
       (f, xs) \<leftarrow> text_step m ch (f\<lparr>fmt_p := fmt_p f + 1\<rparr>);
       ys \<leftarrow> text_loop m f;
       Some (xs @ ys) } }"

definition format_text :: "cmem \<Rightarrow> nat \<Rightarrow> word32 list \<Rightarrow> byte list option" where
  "format_text m format ap = text_loop m (fmt_start format ap)"

section \<open>Reading is monotone in the memory\<close>

lemma strlen_loop_mono:
  assumes "strlen_loop p m = Some r" and "m \<subseteq>\<^sub>m m'"
  shows "strlen_loop p m' = Some r"
proof -
  have "\<forall>m'. m \<subseteq>\<^sub>m m' \<longrightarrow> strlen_loop p m' = Some r"
  proof (rule strlen_loop.raw_induct [where P = "\<lambda>p m r. \<forall>m'. m \<subseteq>\<^sub>m m' \<longrightarrow> strlen_loop p m' = Some r", OF _ assms(1)], intro allI impI)
    fix loop p m r m'
    assume IH: "\<And>p m r. loop p m = Some r \<Longrightarrow> \<forall>m'. m \<subseteq>\<^sub>m m' \<longrightarrow> strlen_loop p m' = Some r"
      and run: "do { b \<leftarrow> m p; if b \<noteq> 0 then loop (p + 1) m else Some p } = Some r" and le: "m \<subseteq>\<^sub>m m'"
    from run obtain b where "m p = Some b" by (cases "m p") auto
    then have "m' p = Some b" using le by (metis domI map_le_def)
    then show "strlen_loop p m' = Some r"
      using run IH [of "p + 1" m r] \<open>m p = Some b\<close> le by (subst strlen_loop.simps) (auto split: if_splits)
  qed
  with assms(2) show ?thesis by blast
qed

lemma sarg_at_mono: "sarg_at s i m = Some b \<Longrightarrow> m \<subseteq>\<^sub>m m' \<Longrightarrow> sarg_at s i m' = Some b"
  by (auto simp: sarg_at_def map_le_def dom_def split: sarg.splits)

lemma convert_mono: "convert ch m f = Some r \<Longrightarrow> m \<subseteq>\<^sub>m m' \<Longrightarrow> convert ch m' f = Some r"
  by (auto simp: convert_def string_arg_def strlen_def Option.bind_eq_Some_conv dest: strlen_loop_mono split: if_splits)

lemma convert_base: "convert ch m f = Some (Is_integer val base, f') \<Longrightarrow> 2 \<le> base \<and> base < 2 ^ 63"
  by (auto simp: convert_def string_arg_def to_integer_def Option.bind_eq_Some_conv split: if_splits)


section \<open>The buffer holds the text\<close>

text \<open>The memory that the formatter may read: nothing of the buffer.\<close>

definition readable :: "nat \<Rightarrow> nat \<Rightarrow> cmem \<Rightarrow> nat \<Rightarrow> cmem \<Rightarrow> bool" where
  "readable q0 n m0 L mh \<longleftrightarrow> (\<forall>xs. length xs \<le> L \<longrightarrow> mh \<subseteq>\<^sub>m filled q0 (take n xs) m0)"

lemma readable_out: "readable q0 n m0 L mh \<Longrightarrow> out_at q0 n m0 xs out \<Longrightarrow> length xs \<le> L \<Longrightarrow> mh \<subseteq>\<^sub>m snd (snd out)"
  by (auto simp: readable_def out_at_def split: prod.splits)

lemma emit_string_out:
  assumes "readable q0 n m0 L mh" and "is_mapped m0 q0 (min n L)"
  shows "out_at q0 n m0 xs out \<Longrightarrow> read_sarg mh s i k = Some bs \<Longrightarrow> length xs + length bs \<le> L \<Longrightarrow>
    \<exists>out'. emit_string n s i k out = Some out' \<and> out_at q0 n m0 (xs @ bs) out'"
proof (induction k arbitrary: i xs out bs)
  case 0
  then show ?case by simp
next
  case (Suc k)
  from Suc.prems(2) obtain b cs where b: "sarg_at s i mh = Some b" "read_sarg mh s (Suc i) k = Some cs" "bs = b # cs"
    by (auto simp: Option.bind_eq_Some_conv)
  have l: "length xs \<le> L" "length xs < L" "length (xs @ [b]) + length cs \<le> L" using Suc.prems(3) b(3) by simp_all
  have "sarg_at s i (snd (snd out)) = Some b" using sarg_at_mono [OF b(1) readable_out [OF assms(1) Suc.prems(1) l(1)]] .
  moreover from EMIT_out [OF Suc.prems(1) assms(2) l(2)] obtain o1 where
    "EMIT n b out = Some o1" "out_at q0 n m0 (xs @ [b]) o1" by blast
  moreover from Suc.IH [OF this(2) b(2) l(3)] obtain o2 where
    "emit_string n s (Suc i) k o1 = Some o2" "out_at q0 n m0 ((xs @ [b]) @ cs) o2" by blast
  ultimately show ?case using b(3) by simp
qed

lemma format_string_out:
  assumes r: "readable q0 n m0 L mh" "is_mapped m0 q0 (min n L)"
    and out: "out_at q0 n m0 xs out" and t: "string_text mh s slen f = Some ys" and l: "length xs + length ys \<le> L"
  shows "\<exists>out'. format_string n s slen f out = Some out' \<and> out_at q0 n m0 (xs @ ys) out'"
proof -
  define sl where "sl = (if fmt_prec f \<noteq> -1 \<and> slen > fmt_prec f then fmt_prec f else slen)"
  define gap where "gap = nat (fmt_width f - sl)"
  define c where "c = (if has (fmt_flags f) FL_ZERO then 48 else 32 :: byte)"
  from t obtain bs where bs: "read_sarg mh s 0 (nat sl) = Some bs"
    "ys = (if has (fmt_flags f) FL_MINUS then bs @ replicate gap 32 else replicate gap c @ bs)"
    unfolding string_text_def Let_def sl_def [symmetric] gap_def [symmetric] c_def [symmetric] by (auto simp: Option.bind_eq_Some_conv)
  let ?M = "has (fmt_flags f) FL_MINUS"
  show ?thesis
  proof (cases ?M)
    case True
    then have ys: "ys = bs @ replicate gap 32" using bs(2) by simp
    from emit_string_out [OF r out bs(1)] l ys obtain o2 where
      o2: "emit_string n s 0 (nat sl) out = Some o2" "out_at q0 n m0 (xs @ bs) o2" by auto
    from pad_out [OF o2(2) r(2), of "fmt_width f" sl 32] l ys have
      "\<exists>o3. pad n 32 sl (fmt_width f) o2 = Some (min (fmt_width f) sl, o3) \<and> out_at q0 n m0 ((xs @ bs) @ replicate gap 32) o3"
      by (simp add: gap_def)
    then obtain o3 where o3: "pad n 32 sl (fmt_width f) o2 = Some (min (fmt_width f) sl, o3)" "out_at q0 n m0 (xs @ ys) o3"
      using ys by auto
    show ?thesis
    proof (cases "fmt_width f > sl")
      case w: True
      show ?thesis using True w o2(1) o3 unfolding format_string_def sl_def [symmetric] Let_def by (cases out) auto
    next
      case w: False
      then have "ys = bs" using ys by (simp add: gap_def)
      then show ?thesis using True w o2 unfolding format_string_def sl_def [symmetric] Let_def by (cases out; cases o2) auto
    qed
  next
    case False
    then have ys: "ys = replicate gap c @ bs" using bs(2) by simp
    from pad_out [OF out r(2), of "fmt_width f" sl c] l ys have
      "\<exists>o1. pad n c sl (fmt_width f) out = Some (min (fmt_width f) sl, o1) \<and> out_at q0 n m0 (xs @ replicate gap c) o1"
      by (simp add: gap_def)
    then obtain o1 where o1: "pad n c sl (fmt_width f) out = Some (min (fmt_width f) sl, o1)" "out_at q0 n m0 (xs @ replicate gap c) o1"
      by blast
    from emit_string_out [OF r o1(2) bs(1)] l ys obtain o2 where
      o2: "emit_string n s 0 (nat sl) o1 = Some o2" "out_at q0 n m0 (xs @ ys) o2" by auto
    have "fmt_width f \<le> sl \<Longrightarrow> o1 = out" using o1(1) by (simp add: pad.simps)
    then show ?thesis using False o1(1) o2
      unfolding format_string_def sl_def [symmetric] Let_def c_def [symmetric] by (cases "fmt_width f > sl"; cases o1; cases o2) auto
  qed
qed


lemma run_conversion_out:
  assumes r: "readable q0 n m0 L mh" "is_mapped m0 q0 (min n L)" and out: "out_at q0 n m0 xs out"
    and t: "conversion_text mh ch c f = Some ys" and l: "length xs + length ys \<le> L"
    and base: "\<And>val base. c = Is_integer val base \<Longrightarrow> 2 \<le> base \<and> base < 2 ^ 63"
  shows "\<exists>out'. run_conversion n ch c f out = Some out' \<and> out_at q0 n m0 (xs @ ys) out'"
proof (cases c)
  case (Is_integer val base)
  obtain q k m where o: "out = (q, k, m)" by (cases out) auto
  have ys: "ys = int_text val (fmt_flags f) base (fmt_width f) (fmt_prec f)" using t Is_integer by (simp add: conversion_text_def)
  have km: "k = length xs" "k < n \<longrightarrow> q = q0 + k" "m = filled q0 (take n xs) m0" using out by (simp_all add: o out_at_def)
  have room: "is_mapped m q (min (n - k) (length ys))"
  proof (cases "k < n")
    case True
    then have "k + min (n - k) (length ys) \<le> min n L" using l km(1) by arith
    from is_mapped_part [OF is_mapped_filled [OF r(2)] this] show ?thesis using km True by blast
  qed simp
  have fi: "format_int q (n - k) val (fmt_flags f) base (fmt_width f) (fmt_prec f) m = Some (length ys, filled q (take (n - k) ys) m)"
    using format_int_text room base [OF Is_integer] unfolding ys by blast
  have room0: "(if k < n then n - k else 0) = n - k" by simp
  have "run_conversion n ch c f out = Some (q + length ys, k + length ys, filled q (take (n - k) ys) m)"
    unfolding run_conversion_def Is_integer o conversion.case prod.case room0 fi bind.bind_lunit ..
  moreover have "filled q (take (n - k) ys) m = filled q0 (take n (xs @ ys)) m0"
    using km by (cases "k < n") (simp_all add: filled_append)
  then have "out_at q0 n m0 (xs @ ys) (q + length ys, k + length ys, filled q (take (n - k) ys) m)"
    using km by (simp add: out_at_def)
  ultimately show ?thesis by blast
next
  case (Is_string s slen)
  then show ?thesis using format_string_out [OF r out _ l] t by (simp add: run_conversion_def conversion_text_def)
next
  case (Store_count a)
  then show ?thesis using t by (simp add: conversion_text_def)
next
  case Emit_char
  then show ?thesis using EMIT_out [OF out r(2), of ch] t l by (auto simp: run_conversion_def conversion_text_def)
qed

lemma vsnprintf_step_out:
  assumes r: "readable q0 n m0 L mh" "is_mapped m0 q0 (min n L)" and out: "out_at q0 n m0 xs out"
    and t: "text_step mh ch f = Some (f', ys)" and l: "length xs + length ys \<le> L"
  shows "\<exists>out'. vsnprintf_step n ch f out = Some (f', out') \<and> out_at q0 n m0 (xs @ ys) out'"
proof (cases "fmt_st f")
  case st_normal
  then show ?thesis using t out EMIT_out [OF out r(2), of ch] l
    by (cases out) (auto simp: text_step_def vsnprintf_step_def split: if_splits)
next
  case st_modifiers
  show ?thesis
  proof (cases "length_modifier ch (fmt_rank f)")
    case None
    let ?f = "f\<lparr>fmt_st := st_normal, fmt_rank := canonical_rank (fmt_rank f)\<rparr>"
    from t st_modifiers None obtain c where c: "convert ch mh ?f = Some (c, f')" "conversion_text mh ch c f' = Some ys"
      by (auto simp: text_step_def Option.bind_eq_Some_conv split: prod.splits)
    have "convert ch (snd (snd out)) ?f = Some (c, f')" using convert_mono [OF c(1) readable_out [OF r(1) out]] l by simp
    moreover from run_conversion_out [OF r out c(2) l] c(1) convert_base obtain out' where
      "run_conversion n ch c f' out = Some out'" "out_at q0 n m0 (xs @ ys) out'" by blast
    ultimately show ?thesis using st_modifiers None by (cases out') (simp add: vsnprintf_step_def step_modifiers_def)
  next
    case (Some k)
    then show ?thesis using t out st_modifiers by (cases out) (simp add: text_step_def vsnprintf_step_def step_modifiers_def)
  qed
qed (use t out in \<open>cases out; auto simp: text_step_def vsnprintf_step_def Option.bind_eq_Some_conv\<close>)+


lemma vsnprintf_loop_out:
  assumes r: "readable q0 n m0 L mh" "is_mapped m0 q0 (min n L)" and t: "text_loop mh f = Some ys"
  shows "out_at q0 n m0 xs out \<Longrightarrow> length xs + length ys \<le> L \<Longrightarrow>
    \<exists>out'. vsnprintf_loop n f out = Some out' \<and> out_at q0 n m0 (xs @ ys) out'"
proof -
  let ?P = "\<lambda>m f ys. m = mh \<longrightarrow> (\<forall>xs out. out_at q0 n m0 xs out \<longrightarrow> length xs + length ys \<le> L \<longrightarrow>
    (\<exists>out'. vsnprintf_loop n f out = Some out' \<and> out_at q0 n m0 (xs @ ys) out'))"
  have "?P mh f ys"
  proof (rule text_loop.raw_induct [where P = ?P, OF _ t], intro impI allI)
    fix loop m f ys xs out
    assume IH: "\<And>m f ys. loop m f = Some ys \<Longrightarrow> ?P m f ys"
      and run: "do { ch \<leftarrow> m (fmt_p f); if ch = 0 then Some [] else do { (f, xs) \<leftarrow> text_step m ch (f\<lparr>fmt_p := fmt_p f + 1\<rparr>);
        ys \<leftarrow> loop m f; Some (xs @ ys) } } = Some ys"
      and m: "m = mh" and out: "out_at q0 n m0 xs out" and l: "length xs + length ys \<le> L"
    from run obtain ch where ch: "mh (fmt_p f) = Some ch" using m by (cases "m (fmt_p f)") auto
    then have ch': "(snd (snd out)) (fmt_p f) = Some ch"
      using readable_out [OF r(1) out] l by (metis add_leD1 domI map_le_def)
    show "\<exists>out'. vsnprintf_loop n f out = Some out' \<and> out_at q0 n m0 (xs @ ys) out'"
    proof (cases "ch = 0")
      case True
      then show ?thesis using run ch ch' m out by (subst vsnprintf_loop.simps) (cases out, simp)
    next
      case False
      with run ch m obtain f' zs ws where s: "text_step mh ch (f\<lparr>fmt_p := fmt_p f + 1\<rparr>) = Some (f', zs)" "loop mh f' = Some ws"
        "ys = zs @ ws" by (auto simp: Option.bind_eq_Some_conv split: prod.splits)
      from vsnprintf_step_out [OF r out s(1)] l s(3) obtain o1 where
        o1: "vsnprintf_step n ch (f\<lparr>fmt_p := fmt_p f + 1\<rparr>) out = Some (f', o1)" "out_at q0 n m0 (xs @ zs) o1" by auto
      from IH [OF s(2)] o1(2) l s(3) have "\<exists>o2. vsnprintf_loop n f' o1 = Some o2 \<and> out_at q0 n m0 ((xs @ zs) @ ws) o2"
        by (metis append.assoc length_append)
      then show ?thesis using False ch' o1(1) s(3) by (subst vsnprintf_loop.simps) auto
    qed
  qed
  then show "out_at q0 n m0 xs out \<Longrightarrow> length xs + length ys \<le> L \<Longrightarrow>
    \<exists>out'. vsnprintf_loop n f out = Some out' \<and> out_at q0 n m0 (xs @ ys) out'" by blast
qed

lemma readable_hidden: "readable q n m L (m |` (- {q..<q + min n (Suc L)}))"
  unfolding readable_def map_le_def by (auto simp: filled_def restrict_map_def)

lemma vsnprintf_writes:
  assumes room: "is_mapped m buffer (min n (Suc (length text)))"
    and tx: "format_text (m |` (- {buffer..<buffer + min n (Suc (length text))})) format ap = Some text"
  shows "vsnprintf buffer n format ap m =
    Some (length text, if n = 0 then m else filled buffer (take (n - 1) text @ [0]) m)"
proof -
  have "is_mapped m buffer (min n (length text))" using room by (rule is_mapped_less) simp
  from vsnprintf_loop_out [OF readable_hidden this tx [unfolded format_text_def] out_at_start] obtain out where
    run: "vsnprintf_loop n (fmt_start format ap) (buffer, 0, m) = Some out" "out_at buffer n m text out" by auto
  obtain q k m' where out: "out = (q, k, m')" by (cases out) auto
  have km: "k = length text" "k < n \<longrightarrow> q = buffer + k" "m' = filled buffer (take n text) m" using run(2) by (simp_all add: out out_at_def)
  consider "n = 0" | "k < n" | n' where "n = Suc n'" "n' < k" by (metis not0_implies_Suc not_less_eq)
  then show ?thesis
  proof cases
    case 1
    then show ?thesis using run(1) km by (simp add: vsnprintf_def out)
  next
    case 2
    have "m (buffer + k) \<noteq> None" using room 2 km(1) by (simp add: is_mapped_def)
    then have "m' q \<noteq> None" using 2 km filled_mapped by simp
    then show ?thesis using run(1) km 2 by (simp add: vsnprintf_def out filled_append filled_one)
  next
    case 3
    have "m (buffer + n') \<noteq> None" using room 3 km(1) by (simp add: is_mapped_def)
    then have "m' (buffer + n') \<noteq> None" using km filled_mapped by simp
    moreover have "(filled buffer (take n text) m)(buffer + n' \<mapsto> 0) = filled buffer (take n' text @ [0]) m"
      using 3 km(1) by (auto simp: fun_eq_iff filled_def nth_append)
    ultimately show ?thesis using run(1) km 3 by (simp add: vsnprintf_def out)
  qed
qed


text \<open>
  C19. \<^verbatim>\<open>vsnprintf\<close> never writes outside the buffer, and what it writes is the text of the format, independently of the size
  of the buffer: the buffer gets the first \<open>n - 1\<close> bytes of the text and a zero byte (nothing when \<open>n\<close> is 0), the rest of the
  memory stays as it is, and the result is the length of the whole text. The hypothesis says that the text is
  defined without reading the part of the buffer that is written.
\<close>

theorem vsnprintf_bounded:
  assumes "is_mapped m buffer (min n (Suc (length text)))"
    and "format_text (m |` (- {buffer..<buffer + min n (Suc (length text))})) format ap = Some text"
  shows "vsnprintf buffer n format ap m =
    Some (length text, if n = 0 then m else filled buffer (take (n - 1) text @ [0]) m)"
  using assms by (rule vsnprintf_writes)

theorem vsnprintf_bounded_witness:
  "\<exists>m'. vsnprintf 10 2 20 [98] [10 \<mapsto> 7, 11 \<mapsto> 7, 20 \<mapsto> 97, 21 \<mapsto> 37, 22 \<mapsto> 99, 23 \<mapsto> 0] = Some (2, m') \<and>
     m' 10 = Some 97 \<and> m' 11 = Some 0"
proof -
  let ?m = "[10 \<mapsto> 7, 11 \<mapsto> 7, 20 \<mapsto> 97, 21 \<mapsto> 37, 22 \<mapsto> 99, 23 \<mapsto> 0] :: cmem"
  have "format_text (?m |` (- {10..<12})) 20 [98] = Some [97, 98]"
    unfolding format_text_def fmt_start_def
    by (subst text_loop.simps, simp add: restrict_map_def text_step_def start_directive_def step_flags_def again_def step_width_def
        length_modifier_def convert_def va_slot_def conversion_text_def string_text_def sarg_at_def canonical_rank_def
        rank_int_def rank_char_def rank_longlong_def numeral_2_eq_2 [symmetric])+
  moreover have "is_mapped ?m 10 2" by (simp add: numeral_2_eq_2)
  ultimately show ?thesis using vsnprintf_bounded [of ?m 10 2 "[97, 98]" 20 "[98]"] by (simp add: filled_def)
qed

lemma TtyPrintf_writes:
  assumes "length text < 2 ^ 32 - 1" and "0 \<notin> set text" and "is_mapped m tty_buff (Suc (length text))"
    and "format_text (m |` (- {tty_buff..<tty_buff + Suc (length text)})) format ap = Some text"
  shows "TtyPrintf tty_buff format ap m = Some (length text, filled tty_buff (text @ [0]) m)"
proof -
  have mn: "min (2 ^ 32 - 1) (Suc (length text)) = Suc (length text)" using assms(1) by simp
  have "vsnprintf tty_buff (2 ^ 32 - 1) format ap m = Some (length text, filled tty_buff (take (2 ^ 32 - 1 - 1) text @ [0]) m)"
    using vsnprintf_writes [of m tty_buff "2 ^ 32 - 1" "text" "format" ap] assms(3,4) unfolding mn by simp
  moreover have "take (2 ^ 32 - 1 - 1) text = text" using assms(1) by simp
  moreover have "cstring (filled tty_buff (text @ [0]) m) tty_buff text"
    using bytes_at_filled [of tty_buff "text @ [0]" m] assms(2) by (simp add: cstring_def)
  ultimately show ?thesis by (simp add: TtyPrintf_def vsprintf_def strlen_length)
qed

text \<open>
  C40. \<^verbatim>\<open>TtyPrintf\<close> formats into a static buffer of 4096 bytes without a limit: it writes a text of any length, with its
  terminating zero, to the addresses from \<^verbatim>\<open>tty_buff\<close> on, and passes that length to \<^verbatim>\<open>TtyWrite\<close>; a text of 4096 bytes or more
  changes the memory behind the buffer.
\<close>

theorem TtyPrintf_unbounded:
  assumes "length text < 2 ^ 32 - 1" and "0 \<notin> set text" and "is_mapped m tty_buff (Suc (length text))"
    and "format_text (m |` (- {tty_buff..<tty_buff + Suc (length text)})) format ap = Some text"
  shows "TtyPrintf tty_buff format ap m = Some (length text, filled tty_buff (text @ [0]) m) \<and>
    (4096 \<le> length text \<longrightarrow> filled tty_buff (text @ [0]) m (tty_buff + 4096) = Some ((text @ [0]) ! 4096))"
  using TtyPrintf_writes [OF assms] by (simp add: filled_def)

theorem TtyPrintf_unbounded_witness:
  "\<exists>m'. TtyPrintf 10 20 [] [10 \<mapsto> 7, 11 \<mapsto> 7, 20 \<mapsto> 97, 21 \<mapsto> 0] = Some (1, m') \<and> m' 10 = Some 97 \<and> m' 11 = Some 0"
proof -
  let ?m = "[10 \<mapsto> 7, 11 \<mapsto> 7, 20 \<mapsto> 97, 21 \<mapsto> 0] :: cmem"
  have "format_text (?m |` (- {10..<12})) 20 [] = Some [97]"
    unfolding format_text_def fmt_start_def by (subst text_loop.simps, simp add: restrict_map_def text_step_def)+
  then show ?thesis using TtyPrintf_unbounded [of "[97]" ?m 10 20 "[]"] by (simp add: filled_def)
qed

end
