(* ===== verification/User_Output.thy ===== *)
theory User_Output
  imports User_Calls User_Store Terminals Printf_Properties
begin

text \<open>
  From the program to the terminal: what \<^verbatim>\<open>TtyPrintf\<close> formats is what the kernel sends.
\<close>

section \<open>Formatted output\<close>

lemma sint_of_nat_small: "n < 2 ^ 31 \<Longrightarrow> sint (of_nat n :: word32) = int n"
proof -
  assume n: "n < 2 ^ 31"
  have "sint (word_of_int (int n) :: word32) = int n" using n by (simp only: signed_of_int) (simp add: signed_take_bit_int_eq_self)
  then show ?thesis by simp
qed

lemma write_call:
  assumes "passes_registers enter" "kernel_vector s" and "sched_ok s" and p: "current_process s = p" "p \<noteq> idle_proc s"
    and i: "i < NUM_TERMINALS" "\<not> in_use (terminals s ! i)" and buf: "0x100000 \<le> buf" "buf + k \<le> 0x200000" and k: "0 < k"
    and bytes: "bytes_at (user_memory (km s)) buf bs" "length bs = k"
  shows "\<exists>t. user_call fs enter (TtyWrite_stub (of_nat i) (of_nat buf) (of_nat k)) s = Switched t \<and>
    in_use (terminals t ! i) \<and> current_writer (terminals t ! i) = p \<and>
    (\<forall>u. terminals u = terminals t \<and> transmitted u = transmitted t \<and> sint (code (ctx u)) = int i \<longrightarrow>
      (\<exists>v. run_transmit (length (chunks bs) - 1) u = Ret () v \<and> transmitted v = transmitted s @ map (Pair i) (chunks bs) \<and>
        write_buffer_position (terminals v ! i) = write_buffer_len (terminals v ! i)))"
proof -
  let ?r = "TtyWrite_stub (of_nat i) (of_nat buf) (of_nat k)" and ?c = "enter (TtyWrite_stub (of_nat i) (of_nat buf) (of_nat k)) (ctx s)"
  obtain b where b: "pcbs s (current_process s) = Some b" "current_process s \<noteq> 0"
    by (rule sched_okD [OF assms(3)]) (rule that; assumption)
  let ?s = "s\<lparr>ctx := ?c, pcbs := (pcbs s)(current_process s \<mapsto> b\<lparr>user_context := ?c\<rparr>)\<rparr>"
  have ok: "sched_ok ?s" by (rule sched_ok_save [OF assms(3) b(1)])
  have si: "sint (of_nat i :: word32) = int i" by (rule sint_of_nat_small) (use i(1) in \<open>simp add: NUM_TERMINALS_def\<close>)
  have sk: "sint (of_nat k :: word32) = int k" by (rule sint_of_nat_small) (use buf in simp)
  have ub: "unat (of_nat buf :: word32) = buf" "unat (of_nat (buf + k) :: word32) = buf + k"
    by (rule unat_of_nat_small, use buf in simp)+
  have nz: "(of_nat buf :: word32) \<noteq> 0" using ub(1) buf(1) by auto
  have check: "CheckBuffer (of_nat buf) (int k) \<noteq> ERROR"
    using ub buf by (auto simp: CheckBuffer_def word_less_nat_alt VMEM_1_BASE_def VMEM_1_LIMIT_def code_defs)
  from copy_in_user_memory [OF bytes(1)] obtain m' where c: "copy_in (of_nat buf) (nat (int k)) (km ?s) = Ret bs m'"
    using bytes(2) by auto
  from TtyWrite_sends [OF ok _ _ _ _ nz _ _ c, of p "int i"] p i k obtain t where
    t: "TtyWrite (int i) (of_nat buf) (int k) ?s = Switched t" "in_use (terminals t ! i)" "current_writer (terminals t ! i) = p"
      "\<forall>u. terminals u = terminals t \<and> transmitted u = transmitted t \<and> sint (code (ctx u)) = int i \<longrightarrow>
        (\<exists>v. run_transmit (length (chunks bs) - 1) u = Ret () v \<and> transmitted v = transmitted s @ map (Pair i) (chunks bs) \<and>
          write_buffer_position (terminals v ! i) = write_buffer_len (terminals v ! i))"
    by auto
  have "user_call fs enter ?r s = Switched t"
    using t(1) check b
    by (simp add: user_call_handler assms(2) KernelTrapHandler_def prog_simps passes_registersD [OF assms(1), unfolded One_nat_def] stub_defs trap_codes
        save_ctx_def si sk)
  with t show ?thesis by blast
qed

text \<open>
  C14. A formatted text reaches the terminal: the stores by which \<^verbatim>\<open>TtyPrintf\<close> puts the text into its buffer, made through the TLB
  and the page tables of the process, leave the memory that the library function computes; its call of \<^verbatim>\<open>TtyWrite\<close> then enters the
  kernel, passes the check of the buffer and gives the terminal to the process, and the transmit interrupts that follow
  send the text of the format, completely and in order.
\<close>

theorem TtyPrintf_reaches_terminal:
  assumes "private_frames (km s)" "\<forall>j < Suc (length text). user_writable (km s) (tty_buff + j)" and "text \<noteq> []" "0 \<notin> set text"
    and "format_text (user_memory (km s) |` (- {tty_buff..<tty_buff + Suc (length text)})) format ap = Some text"
    and "0x100000 \<le> tty_buff" "tty_buff + length text \<le> 0x200000"
    and "passes_registers enter" "kernel_vector s" and "sched_ok s" "current_process s \<noteq> idle_proc s"
    and "i < NUM_TERMINALS" "\<not> in_use (terminals s ! i)"
  shows "\<exists>m' k t. pokes user_poke (zip [tty_buff..<tty_buff + Suc (length text)] (text @ [0])) (km s) = Some m' \<and>
    TtyPrintf tty_buff format ap (user_memory (km s)) = Some (k, user_memory m') \<and>
    user_call fs enter (TtyWrite_stub (of_nat i) (of_nat tty_buff) (of_nat k)) (s\<lparr>km := m'\<rparr>) = Switched t \<and>
    current_writer (terminals t ! i) = current_process s \<and> concat (chunks text) = text \<and>
    (\<forall>u. terminals u = terminals t \<and> transmitted u = transmitted t \<and> sint (code (ctx u)) = int i \<longrightarrow>
      (\<exists>v. run_transmit (length (chunks text) - 1) u = Ret () v \<and>
        transmitted v = transmitted s @ map (Pair i) (chunks text)))"
proof -
  let ?um = "user_memory (km s)" and ?k = "length text"
  have mp: "is_mapped ?um tty_buff (Suc ?k)" using assms(2) user_writable_readable unfolding is_mapped_def by blast
  have "?k < 2 ^ 32 - 1" using assms(7) by simp
  from TtyPrintf_writes [OF this assms(4) mp assms(5)] have
    p: "TtyPrintf tty_buff format ap ?um = Some (?k, filled tty_buff (text @ [0]) ?um)" .
  from store_text [OF assms(1), of "text @ [0]" tty_buff] assms(2) obtain T P where
    st: "pokes user_poke (zip [tty_buff..<tty_buff + Suc ?k] (text @ [0])) (km s) = Some ((km s)\<lparr>tlb := T, phys := P\<rparr>)"
      "user_memory ((km s)\<lparr>tlb := T, phys := P\<rparr>) = filled tty_buff (text @ [0]) ?um" by auto
  let ?s = "s\<lparr>km := (km s)\<lparr>tlb := T, phys := P\<rparr>\<rparr>"
  have "bytes_at (user_memory (km ?s)) tty_buff text" using bytes_at_filled [of tty_buff "text @ [0]" ?um] st(2) by simp
  moreover have "kernel_vector ?s" using assms(9) by (simp add: kernel_vector_def)
  moreover have "0 < ?k" using assms(3) by simp
  ultimately have "\<exists>t. user_call fs enter (TtyWrite_stub (of_nat i) (of_nat tty_buff) (of_nat ?k)) ?s = Switched t \<and>
    in_use (terminals t ! i) \<and> current_writer (terminals t ! i) = current_process s \<and>
    (\<forall>u. terminals u = terminals t \<and> transmitted u = transmitted t \<and> sint (code (ctx u)) = int i \<longrightarrow>
      (\<exists>v. run_transmit (length (chunks text) - 1) u = Ret () v \<and> transmitted v = transmitted ?s @ map (Pair i) (chunks text) \<and>
        write_buffer_position (terminals v ! i) = write_buffer_len (terminals v ! i)))"
    using assms(6-8,11-13) sched_ok_memory [OF assms(10)] by (intro write_call) simp_all
  then obtain t where t: "user_call fs enter (TtyWrite_stub (of_nat i) (of_nat tty_buff) (of_nat ?k)) ?s = Switched t"
    "current_writer (terminals t ! i) = current_process s"
    "\<forall>u. terminals u = terminals t \<and> transmitted u = transmitted t \<and> sint (code (ctx u)) = int i \<longrightarrow>
      (\<exists>v. run_transmit (length (chunks text) - 1) u = Ret () v \<and> transmitted v = transmitted s @ map (Pair i) (chunks text))"
    by (auto; blast)
  show ?thesis using p t st concat_chunks [of "text"] by (intro exI [of _ "(km s)\<lparr>tlb := T, phys := P\<rparr>"] exI [of _ ?k] exI [of _ t]) simp
qed

text \<open>A process whose first page holds its buffer and, two bytes further on, a format.\<close>

definition kernel_printf :: kstate where
  "kernel_printf = with_vector (kernel_ex\<lparr>km := kmem_ex\<lparr>phys := (phys kmem_ex)(16 := (\<lambda>i. if i = 1 \<or> i = 3 then 0 else 16))\<rparr>\<rparr>)"

lemma kernel_printf_ok: "sched_ok kernel_printf" "current_process kernel_printf = 101" "kernel_vector kernel_printf"
proof -
  have "tables_ok (km kernel_printf)" using kernel_ex_kinv by (simp add: kernel_printf_def with_vector_def kinv_def tables_ok_def)
  then have k: "kinv {} kernel_printf" using kernel_ex_kinv
    by (simp add: kernel_printf_def with_vector_def kinv_def vector_defs)
  have "proc_ok kernel_printf = proc_ok kernel_ex" by (intro ext proc_ok_cong) (simp_all add: kernel_printf_def with_vector_def)
  moreover have "sched_of kernel_printf = sched_of kernel_ex" "run_ok kernel_printf = run_ok kernel_ex"
    by (simp_all add: kernel_printf_def with_vector_def sched_of_def run_ok_def)
  ultimately show "sched_ok kernel_printf"
    using kernel_ex_sched_ok k by (simp add: sched_ok_def) (simp add: kernel_printf_def with_vector_def)
qed (simp_all add: kernel_printf_def kernel_vector_with, simp add: with_vector_def)

lemma kernel_printf_byte: "i < 4 \<Longrightarrow> user_memory (km kernel_printf) (0x100000 + i) = Some (if i = 1 \<or> i = 3 then 0 else 16)"
proof -
  assume i: "i < 4"
  let ?a = "of_nat (0x100000 + i) :: word32"
  have u: "unat ?a = 0x100000 + i" by (rule unat_of_nat_small) (use i in simp)
  have e: "0x100000 + i = i + 128 * 8192" by simp
  have "(0x100000 + i) mod 8192 = i" unfolding e mod_mult_self1 using i by simp
  moreover have "(0x100000 + i) div 8192 = 128" unfolding e using i by (subst div_mult_self1) simp_all
  ultimately have v: "vpn_of ?a = 128" "page_off ?a = i" using u by (simp_all add: vpn_of_div page_off_def PAGESIZE_def)
  have "translate (km kernel_printf) 128 = Some (pte_ex 16)"
    by (simp add: kernel_printf_def with_vector_def translate_def pt_entry_def kmem_ex_def mem_ex_def MAX_PT_LEN_def pte_ex_def nth_append)
  then have "\<exists>m'. load_byte ?a (km kernel_printf) = Ret (if i = 1 \<or> i = 3 then 0 else 16) m'" using v
    by (simp add: load_byte_value pte_ex_def frame_of_def prot_defs) (simp add: kernel_printf_def with_vector_def kmem_ex_def mem_ex_def)
  then show ?thesis using i by (auto simp: user_memory_def)
qed

lemma kernel_printf_translate: "translate (km kernel_printf) = translate kmem_ex"
  by (simp add: fun_eq_iff kernel_printf_def with_vector_def translate_def pt_entry_def split: option.split)

lemma kernel_printf_private: "private_frames (km kernel_printf)"
  using private_kmem_ex by (simp add: private_frames_def kernel_printf_translate)

lemma kernel_printf_writable: "j < 2 \<Longrightarrow> user_writable (km kernel_printf) (0x100000 + j)"
proof -
  assume j: "j < 2"
  have u: "unat (of_nat (0x100000 + j) :: word32) = 0x100000 + j" by (rule unat_of_nat_small) (use j in simp)
  have e: "0x100000 + j = j + 128 * 8192" by simp
  have "(0x100000 + j) div 8192 = 128" unfolding e using j by (subst div_mult_self1) simp_all
  then have "vpn_of (of_nat (0x100000 + j)) = 128" using u by (simp add: vpn_of_div)
  moreover have "translate kmem_ex 128 = Some (pte_ex 16)"
    by (simp add: translate_def pt_entry_def kmem_ex_def mem_ex_def MAX_PT_LEN_def pte_ex_def nth_append)
  moreover have "nframes (km kernel_printf) = 128" by (simp add: kernel_printf_def with_vector_def kmem_ex_def)
  ultimately show ?thesis using j
    by (simp add: user_writable_def kernel_printf_translate pte_ex_def frame_of_def prot_defs)
qed

theorem TtyPrintf_reaches_terminal_witness:
  "\<exists>m' k t. TtyPrintf 0x100000 0x100002 [] (user_memory (km kernel_printf)) = Some (k, user_memory m') \<and>
     user_call (\<lambda>_. None) enter_ex (TtyWrite_stub (of_nat 0) (of_nat 0x100000) (of_nat k)) (kernel_printf\<lparr>km := m'\<rparr>) = Switched t \<and>
     current_writer (terminals t ! 0) = 101"
proof -
  let ?um = "user_memory (km kernel_printf)" and ?x = "[16] :: byte list"
  have um: "?um 0x100002 = Some 16" "?um 0x100003 = Some 0" using kernel_printf_byte [of 2] kernel_printf_byte [of 3] by simp_all
  have f: "format_text (?um |` (- {0x100000..<0x100000 + Suc (length ?x)})) 0x100002 [] = Some ?x" unfolding format_text_def fmt_start_def
    by (subst text_loop.simps, simp add: restrict_map_def text_step_def um)+
  have w: "\<forall>j < Suc (length ?x). user_writable (km kernel_printf) (0x100000 + j)" using kernel_printf_writable by simp
  have "\<not> in_use (terminals kernel_printf ! 0)" "current_process kernel_printf \<noteq> idle_proc kernel_printf" "0 < NUM_TERMINALS"
    by (simp_all add: kernel_printf_def with_vector_def kernel_ex_def NUM_TERMINALS_def tty_ex_def tty0_def)
  from TtyPrintf_reaches_terminal [OF kernel_printf_private w _ _ f _ _ passes_enter_ex kernel_printf_ok(3,1) this(2,3,1), of "\<lambda>_. None"]
  obtain m' k t where "TtyPrintf 0x100000 0x100002 [] ?um = Some (k, user_memory m')"
    "user_call (\<lambda>_. None) enter_ex (TtyWrite_stub (of_nat 0) (of_nat 0x100000) (of_nat k)) (kernel_printf\<lparr>km := m'\<rparr>) = Switched t"
    "current_writer (terminals t ! 0) = current_process kernel_printf" by auto
  then show ?thesis using kernel_printf_ok(2) by metis
qed

end
