(* ===== verification/User_Scanf.thy ===== *)
theory User_Scanf
  imports User_Printf
begin

unbundle bit_operations_syntax

text \<open>
  \<^verbatim>\<open>vsscanf.c\<close> and \<^verbatim>\<open>sscanf.c\<close>: formatted input from a string.

  The memory, the argument slots and the ranks are those of \<open>User_Printf\<close>. The destinations of the conversions are ordinary
  memory and may overlap the format and the buffer: every character is read again from the memory that the earlier
  stores left. The \<^verbatim>\<open>goto\<close> labels \<^verbatim>\<open>scan_int\<close>, \<^verbatim>\<open>set_integer\<close> and \<^verbatim>\<open>match_run\<close> are functions.
\<close>

section \<open>Helpers\<close>

definition FL_SPLAT :: word32 where "FL_SPLAT = 0x01"
definition FL_INV :: word32 where "FL_INV = 0x02"
definition FL_WIDTH :: word32 where "FL_WIDTH = 0x04"

definition rank_ptr :: int where "rank_ptr = 0x7fffffff"

definition UINT_MAX :: word32 where "UINT_MAX = 0xffffffff"

datatype bail = bail_none | bail_eof | bail_err

partial_function (option) skipspace :: "nat \<Rightarrow> cmem \<Rightarrow> nat option" where
  "skipspace p m = do { b \<leftarrow> m p; if isspace (uint b) then skipspace (p + 1) m else Some p }"

text \<open>\<^verbatim>\<open>LONG_BIT\<close> is 32. The bit maps have eight words and the bit numbers are characters.\<close>

definition set_bit_map :: "word32 list \<Rightarrow> nat \<Rightarrow> word32 list" where
  "set_bit_map bitmap i = bitmap[i div 32 := bitmap ! (i div 32) OR push_bit (i mod 32) 1]"

definition test_bit_map :: "word32 list \<Rightarrow> nat \<Rightarrow> int" where
  "test_bit_map bitmap i = sint (drop_bit (i mod 32) (bitmap ! (i div 32))) AND 1"

section \<open>State\<close>

datatype scan_state =
    st_scan_normal | st_scan_flags | st_scan_width | st_scan_modifiers | st_match_init | st_match | st_match_range

text \<open>The local variables of \<^verbatim>\<open>vsscanf\<close>; those that every use sets first are local to the definitions below.\<close>

record scan =
  sc_p :: nat
  sc_q :: nat
  sc_rank :: int
  sc_width :: word32
  sc_flags :: word32
  sc_st :: scan_state
  sc_sarg :: nat
  sc_bail :: bail
  sc_converted :: int
  sc_matchmap :: "word32 list"
  sc_matchinv :: int
  sc_range_start :: byte
  sc_ap :: "word32 list"

definition scan_arg :: "scan \<Rightarrow> (nat \<times> scan) option" where
  "scan_arg f = (case sc_ap f of [] \<Rightarrow> None | a # as \<Rightarrow> Some (unat a, f\<lparr>sc_ap := as\<rparr>))"

abbreviation splat :: "scan \<Rightarrow> bool" where "splat f \<equiv> sc_flags f AND FL_SPLAT \<noteq> 0"

definition count_conversion :: "scan \<Rightarrow> scan" where
  "count_conversion f = f\<lparr>sc_converted := sc_converted f + 1\<rparr>"

section \<open>Conversions\<close>

definition set_integer :: "64 word \<Rightarrow> scan \<Rightarrow> cmem \<Rightarrow> (scan \<times> cmem) option" where
  "set_integer val f m =
     (if splat f then Some (f, m)
      else do {
        (a, f) \<leftarrow> scan_arg f;
        m \<leftarrow> st_all a (le_bytes (rank_size (sc_rank f)) (unat val)) m;
        Some (f, m) })"

definition scan_int :: "int \<Rightarrow> scan \<Rightarrow> cmem \<Rightarrow> (scan \<times> cmem) option" where
  "scan_int base f m = do {
     q \<leftarrow> skipspace (sc_q f) m;
     let f = f\<lparr>sc_q := q\<rparr>;
     b \<leftarrow> m q;
     if b = 0 then Some (f\<lparr>sc_bail := bail_eof\<rparr>, m)
     else do {
       (val, qq) \<leftarrow> strntoumax q base (unat (sc_width f)) m;
       if qq = q then Some (f\<lparr>sc_bail := bail_err\<rparr>, m)
       else let f = f\<lparr>sc_q := qq\<rparr> in
         set_integer val (if splat f then f else count_conversion f) m } }"

text \<open>\<^verbatim>\<open>%c\<close>: whether the end of the buffer was hit, and the positions reached. With \<^verbatim>\<open>*\<close> the position stays.\<close>

fun drop_chars :: "nat \<Rightarrow> nat \<Rightarrow> cmem \<Rightarrow> bool option" where
  "drop_chars 0 q m = Some False"
| "drop_chars (Suc width) q m = do { b \<leftarrow> m q; if b = 0 then Some True else drop_chars width q m }"

fun copy_chars :: "nat \<Rightarrow> nat \<Rightarrow> nat \<Rightarrow> cmem \<Rightarrow> (bool \<times> nat \<times> nat \<times> cmem) option" where
  "copy_chars 0 sarg q m = Some (False, sarg, q, m)"
| "copy_chars (Suc width) sarg q m = do {
     b \<leftarrow> m q;
     if b = 0 then Some (True, sarg, q, m)
     else do { m \<leftarrow> st sarg b m; copy_chars width (sarg + 1) (q + 1) m } }"

definition scan_char :: "scan \<Rightarrow> cmem \<Rightarrow> (scan \<times> cmem) option" where
  "scan_char f m =
     (let width = (if sc_flags f AND FL_WIDTH \<noteq> 0 then sc_width f else 1) in
      if splat f then do {
        eof \<leftarrow> drop_chars (unat width) (sc_q f) m;
        Some (if eof then f\<lparr>sc_bail := bail_eof\<rparr> else f, m) }
      else do {
        (a, f) \<leftarrow> scan_arg f;
        (eof, a, q, m) \<leftarrow> copy_chars (unat width) a (sc_q f) m;
        let f = f\<lparr>sc_sarg := a, sc_q := q\<rparr>;
        Some (if eof then f\<lparr>sc_bail := bail_eof\<rparr> else count_conversion f, m) })"

text \<open>\<^verbatim>\<open>%s\<close>: the last character looked at (\<^verbatim>\<open>uc\<close>) and the positions reached.\<close>

fun drop_word :: "nat \<Rightarrow> byte \<Rightarrow> nat \<Rightarrow> cmem \<Rightarrow> (byte \<times> nat) option" where
  "drop_word 0 uc q m = Some (uc, q)"
| "drop_word (Suc width) uc q m = do {
     uc \<leftarrow> m q;
     if uc \<noteq> 0 \<and> \<not> isspace (uint uc) then drop_word width uc (q + 1) m else Some (uc, q) }"

fun copy_word :: "nat \<Rightarrow> byte \<Rightarrow> nat \<Rightarrow> nat \<Rightarrow> cmem \<Rightarrow> (byte \<times> nat \<times> nat \<times> cmem) option" where
  "copy_word 0 uc dst q m = Some (uc, dst, q, m)"
| "copy_word (Suc width) uc dst q m = do {
     uc \<leftarrow> m q;
     if uc \<noteq> 0 \<and> \<not> isspace (uint uc)
     then do { m \<leftarrow> st dst uc m; copy_word width uc (dst + 1) (q + 1) m }
     else Some (uc, dst, q, m) }"

definition at_end :: "byte \<Rightarrow> scan \<Rightarrow> scan" where
  "at_end uc f = (if uc = 0 then f\<lparr>sc_bail := bail_eof\<rparr> else f)"

definition scan_string :: "scan \<Rightarrow> cmem \<Rightarrow> (scan \<times> cmem) option" where
  "scan_string f m =
     (if splat f then do {
        (uc, q) \<leftarrow> drop_word (unat (sc_width f)) 1 (sc_q f) m;
        Some (at_end uc (f\<lparr>sc_q := q\<rparr>), m) }
      else do {
        (sarg, f) \<leftarrow> scan_arg f;
        (uc, dst, q, m) \<leftarrow> copy_word (unat (sc_width f)) 1 sarg (sc_q f) m;
        let f = f\<lparr>sc_sarg := sarg, sc_q := q\<rparr>;
        (f, m) \<leftarrow> (if sarg \<noteq> dst then do { m \<leftarrow> st dst 0 m; Some (count_conversion f, m) } else Some (f, m));
        Some (at_end uc f, m) })"

definition scan_set :: "scan \<Rightarrow> scan option" where
  "scan_set f = do {
     (a, f) \<leftarrow> (if splat f then Some (0, f) else scan_arg f);
     Some (f\<lparr>sc_sarg := a, sc_st := st_match_init, sc_matchinv := 0, sc_matchmap := replicate 8 0\<rparr>) }"

definition scan_literal :: "byte \<Rightarrow> scan \<Rightarrow> cmem \<Rightarrow> (scan \<times> cmem) option" where
  "scan_literal ch f m = do {
     b \<leftarrow> m (sc_q f);
     Some (if b = ch then f\<lparr>sc_q := sc_q f + 1\<rparr> else f\<lparr>sc_bail := bail_err\<rparr>, m) }"

definition scan_conversion :: "nat \<Rightarrow> byte \<Rightarrow> scan \<Rightarrow> cmem \<Rightarrow> (scan \<times> cmem) option" where
  "scan_conversion buffer ch f m =
     (if ch = 80 \<or> ch = 112 then scan_int 0 (f\<lparr>sc_rank := rank_ptr\<rparr>) m
      else if ch = 105 then scan_int 0 f m
      else if ch = 100 then scan_int 10 f m
      else if ch = 111 then scan_int 8 f m
      else if ch = 117 then scan_int 10 f m
      else if ch = 120 \<or> ch = 88 then scan_int 16 f m
      else if ch = 110 then set_integer (of_nat (sc_q f - buffer)) f m
      else if ch = 99 then scan_char f m
      else if ch = 115 then scan_string f m
      else if ch = 91 then do { f \<leftarrow> scan_set f; Some (f, m) }
      else if ch = 37 then scan_literal 37 f m
      else Some (f\<lparr>sc_bail := bail_err\<rparr>, m))"

text \<open>The loop at \<^verbatim>\<open>match_run\<close>; \<open>width\<close> does not change in it.\<close>

partial_function (option) match_loop ::
    "word32 list \<Rightarrow> int \<Rightarrow> word32 \<Rightarrow> byte \<Rightarrow> nat \<Rightarrow> nat \<Rightarrow> cmem \<Rightarrow> (byte \<times> nat \<times> nat \<times> cmem) option" where
  "match_loop mm minv width uc sarg q m =
     (if width \<noteq> 0 then do {
        uc \<leftarrow> m q;
        if uc \<noteq> 0 \<and> test_bit_map mm (unat uc) XOR minv \<noteq> 0
        then do {
          (sarg, m) \<leftarrow> (if sarg \<noteq> 0 then do { m \<leftarrow> st sarg uc m; Some (sarg + 1, m) } else Some (sarg, m));
          match_loop mm minv width uc sarg (q + 1) m }
        else Some (uc, sarg, q, m) }
      else Some (uc, sarg, q, m))"

definition match_run :: "scan \<Rightarrow> cmem \<Rightarrow> (scan \<times> cmem) option" where
  "match_run f m = do {
     (uc, sarg, q, m) \<leftarrow> match_loop (sc_matchmap f) (sc_matchinv f) (sc_width f) 1 (sc_sarg f) (sc_q f) m;
     (f, m) \<leftarrow> (if q \<noteq> sc_q f \<and> sarg \<noteq> 0
       then do { m \<leftarrow> st sarg 0 m; Some (count_conversion f, m) }
       else Some (f\<lparr>sc_bail := bail_err\<rparr>, m));
     Some (at_end uc (f\<lparr>sc_sarg := sarg, sc_q := q\<rparr>), m) }"

section \<open>The format\<close>

definition scan_again :: "scan \<Rightarrow> scan" where
  "scan_again f = f\<lparr>sc_st := st_scan_modifiers, sc_p := sc_p f - 1\<rparr>"

definition scan_normal :: "byte \<Rightarrow> scan \<Rightarrow> cmem \<Rightarrow> (scan \<times> cmem) option" where
  "scan_normal ch f m =
     (if ch = 37 then Some (f\<lparr>sc_st := st_scan_flags, sc_flags := 0, sc_rank := rank_int, sc_width := UINT_MAX\<rparr>, m)
      else if isspace (uint ch) then do { q \<leftarrow> skipspace (sc_q f) m; Some (f\<lparr>sc_q := q\<rparr>, m) }
      else scan_literal ch f m)"

definition scan_flags :: "byte \<Rightarrow> scan \<Rightarrow> scan" where
  "scan_flags ch f =
     (if ch = 42 then f\<lparr>sc_flags := sc_flags f OR FL_SPLAT\<rparr>
      else if 48 \<le> sint ch \<and> sint ch \<le> 57
      then f\<lparr>sc_width := word_of_int (sint ch - 48), sc_st := st_scan_width, sc_flags := sc_flags f OR FL_WIDTH\<rparr>
      else scan_again f)"

definition scan_width :: "byte \<Rightarrow> scan \<Rightarrow> scan" where
  "scan_width ch f =
     (if 48 \<le> sint ch \<and> sint ch \<le> 57 then f\<lparr>sc_width := sc_width f * 10 + word_of_int (sint ch - 48)\<rparr>
      else scan_again f)"

definition scan_length_modifier :: "byte \<Rightarrow> int \<Rightarrow> int option" where
  "scan_length_modifier ch r =
     (if ch = 104 then Some (r - 1)
      else if ch = 108 then Some (r + 1)
      else if ch = 106 then Some rank_longlong
      else if ch = 122 then Some rank_long
      else if ch = 116 then Some rank_long
      else if ch = 76 \<or> ch = 113 then Some rank_longlong
      else None)"

definition scan_modifiers :: "nat \<Rightarrow> byte \<Rightarrow> scan \<Rightarrow> cmem \<Rightarrow> (scan \<times> cmem) option" where
  "scan_modifiers buffer ch f m = (case scan_length_modifier ch (sc_rank f) of
     Some r \<Rightarrow> Some (f\<lparr>sc_rank := r\<rparr>, m)
   | None \<Rightarrow> scan_conversion buffer ch (f\<lparr>sc_st := st_scan_normal, sc_rank := canonical_rank (sc_rank f)\<rparr>) m)"

definition add_char :: "byte \<Rightarrow> scan \<Rightarrow> scan" where
  "add_char ch f = f\<lparr>sc_matchmap := set_bit_map (sc_matchmap f) (unat ch), sc_st := st_match\<rparr>"

text \<open>\<^verbatim>\<open>for (i = range_start; i < (unsigned char)ch; i++) set_bit(matchmap, i)\<close>\<close>

definition add_range :: "byte \<Rightarrow> scan \<Rightarrow> scan" where
  "add_range ch f =
     f\<lparr>sc_matchmap := fold (\<lambda>i mm. set_bit_map mm i) [unat (sc_range_start f)..<unat ch] (sc_matchmap f), sc_st := st_match\<rparr>"

definition scan_match_init :: "byte \<Rightarrow> scan \<Rightarrow> scan" where
  "scan_match_init ch f = (if ch = 94 \<and> sc_flags f AND FL_INV = 0 then f\<lparr>sc_matchinv := 1\<rparr> else add_char ch f)"

definition scan_match :: "byte \<Rightarrow> scan \<Rightarrow> cmem \<Rightarrow> (scan \<times> cmem) option" where
  "scan_match ch f m =
     (if ch = 93 then match_run f m
      else if ch = 45 then Some (f\<lparr>sc_range_start := ch, sc_st := st_match_range\<rparr>, m)
      else Some (add_char ch f, m))"

definition scan_match_range :: "byte \<Rightarrow> scan \<Rightarrow> cmem \<Rightarrow> (scan \<times> cmem) option" where
  "scan_match_range ch f m =
     (if ch = 93 then match_run (f\<lparr>sc_matchmap := set_bit_map (sc_matchmap f) 45\<rparr>) m
      else Some (add_range ch f, m))"

definition scan_step :: "nat \<Rightarrow> byte \<Rightarrow> scan \<Rightarrow> cmem \<Rightarrow> (scan \<times> cmem) option" where
  "scan_step buffer ch f m = (case sc_st f of
     st_scan_normal \<Rightarrow> scan_normal ch f m
   | st_scan_flags \<Rightarrow> Some (scan_flags ch f, m)
   | st_scan_width \<Rightarrow> Some (scan_width ch f, m)
   | st_scan_modifiers \<Rightarrow> scan_modifiers buffer ch f m
   | st_match_init \<Rightarrow> Some (scan_match_init ch f, m)
   | st_match \<Rightarrow> scan_match ch f m
   | st_match_range \<Rightarrow> scan_match_range ch f m)"

partial_function (option) vsscanf_loop :: "nat \<Rightarrow> scan \<Rightarrow> cmem \<Rightarrow> (scan \<times> cmem) option" where
  "vsscanf_loop buffer f m = do {
     ch \<leftarrow> m (sc_p f);
     let f = f\<lparr>sc_p := sc_p f + 1\<rparr>;
     if ch \<noteq> 0 \<and> sc_bail f = bail_none
     then do { (f, m) \<leftarrow> scan_step buffer ch f m; vsscanf_loop buffer f m }
     else Some (f, m) }"

definition scan_start :: "nat \<Rightarrow> nat \<Rightarrow> word32 list \<Rightarrow> scan" where
  "scan_start buffer fmt ap = \<lparr>sc_p = fmt, sc_q = buffer, sc_rank = rank_int, sc_width = UINT_MAX, sc_flags = 0,
     sc_st = st_scan_normal, sc_sarg = 0, sc_bail = bail_none, sc_converted = 0, sc_matchmap = replicate 8 0,
     sc_matchinv = 0, sc_range_start = 0, sc_ap = ap\<rparr>"

definition vsscanf :: "nat \<Rightarrow> nat \<Rightarrow> word32 list \<Rightarrow> cmem \<Rightarrow> (int \<times> cmem) option" where
  "vsscanf buffer fmt ap m = do {
     (f, m) \<leftarrow> vsscanf_loop buffer (scan_start buffer fmt ap) m;
     Some (if sc_bail f = bail_eof \<and> sc_converted f = 0 then -1 else sc_converted f, m) }"

definition sscanf :: "nat \<Rightarrow> nat \<Rightarrow> word32 list \<Rightarrow> cmem \<Rightarrow> (int \<times> cmem) option" where
  "sscanf s fmt ap m = vsscanf s fmt ap m"

end
