(* ===== verification/Scan_Properties.thy ===== *)
theory Scan_Properties
  imports Printf_Properties User_Scanf
begin

text \<open>
  What \<^verbatim>\<open>vsscanf\<close> reads: decimal numbers separated by white space, what \<^verbatim>\<open>vsnprintf\<close> has printed, and sets of characters.
\<close>

unbundle bit_operations_syntax

section \<open>Numbers\<close>

lemma skipspace_skips:
  "bytes_at m p (ws @ [b]) \<Longrightarrow> list_all (\<lambda>w. isspace (uint w)) ws \<Longrightarrow> \<not> isspace (uint b) \<Longrightarrow> skipspace p m = Some (p + length ws)"
  by (induction ws arbitrary: p) (subst skipspace.simps, simp)+

lemma filled_Cons: "filled p (x # xs) m = filled (Suc p) xs (m(p \<mapsto> x))"
  by (simp add: filled_step)

lemma st_all_filled: "is_mapped m p (length xs) \<Longrightarrow> st_all p xs m = Some (filled p xs m)"
proof (induction xs arbitrary: p m)
  case Nil
  then show ?case by simp
next
  case (Cons x xs)
  then show ?case by (simp add: st_def filled_Cons del: fun_upd_apply)
qed

lemma byte_of_word: "(of_nat (unat (w :: 64 word) div 256 ^ i) :: byte) = ucast (drop_bit (8 * i) w)"
proof -
  have "unat w div 256 ^ i = unat (drop_bit (8 * i) w)"
    by (simp add: unat_drop_bit_eq drop_bit_eq_div [of "8 * i" "unat w"] power_mult)
  then show ?thesis by simp
qed

lemma word_bytes_ucast: "word_bytes (ucast (w :: 64 word)) = le_bytes 4 (unat w)"
proof -
  have e: "(ucast (drop_bit k (ucast w :: word32)) :: byte) = ucast (drop_bit k w)" if "k \<le> 24" for k
    using that by (intro bit_word_eqI) (auto simp: bit_simps)
  have "[0..<4] = [0, 1, 2, 3 :: nat]" by (simp add: upt_rec)
  then have "le_bytes 4 (unat w) = map (\<lambda>i. ucast (drop_bit (8 * i) w)) [0, 1, 2, 3 :: nat]"
    by (simp only: le_bytes_def byte_of_word)
  then show ?thesis using e [of 0] by (simp add: word_bytes_def e)
qed

lemma le_bytes_word: "le_bytes 4 (unat (word_of_int v :: 64 word)) = word_bytes (word_of_int v)"
proof -
  have "(ucast (word_of_int v :: 64 word) :: word32) = word_of_int v" by (intro bit_word_eqI) (auto simp: bit_simps)
  then show ?thesis using word_bytes_ucast [of "word_of_int v"] by simp
qed

text \<open>A number in the buffer: spaces, a sign and digits.\<close>

type_synonym number_item = "byte list \<times> byte list \<times> byte list"

definition item_text :: "number_item \<Rightarrow> byte list" where
  "item_text x = (case x of (ws, sg, ds) \<Rightarrow> ws @ sg @ ds)"

definition item_value :: "number_item \<Rightarrow> int" where
  "item_value x = (case x of (ws, sg, ds) \<Rightarrow>
     (if sg = [45] then -1 else 1) * digits_value 10 (map (\<lambda>b. digitval (sint b)) ds))"

definition item_ok :: "number_item \<Rightarrow> bool" where
  "item_ok x = (case x of (ws, sg, ds) \<Rightarrow> list_all (\<lambda>w. isspace (uint w)) ws \<and> sg \<in> {[], [43], [45]} \<and>
     ds \<noteq> [] \<and> list_all (digit_in 10) ds)"

lemma digit_not_zero: "digit_in base b \<Longrightarrow> b \<noteq> 0"
  using digit_in_sint [of base b] by auto

lemma item_head:
  assumes "item_ok (ws, sg, ds)"
  obtains c cs where "sg @ ds = c # cs" "c \<noteq> 0" "\<not> isspace (uint c)"
proof -
  obtain d ds' where ds: "ds = d # ds'" using assms by (cases ds) (auto simp: item_ok_def)
  have "digit_in 10 d" using assms ds by (simp add: item_ok_def)
  from digit_not_space [OF this] digit_not_zero [OF this] show ?thesis
    using that assms ds sign_not_space by (auto simp: item_ok_def)
qed

lemma scan_int_number:
  assumes item: "item_ok ([], sg, ds)" and at: "bytes_at m (sc_q f) (sg @ ds @ [b])" "\<not> digit_in 10 b"
    and len: "length (sg @ ds) \<le> unat (sc_width f)"
    and f: "\<not> splat f" "sc_rank f = rank_int" "sc_ap f = a # as" and room: "is_mapped m (unat a) 4"
  shows "scan_int 10 f m = Some (f\<lparr>sc_q := sc_q f + length (sg @ ds), sc_converted := sc_converted f + 1, sc_ap := as\<rparr>,
    filled (unat a) (word_bytes (word_of_int (item_value ([], sg, ds)))) m)"
proof -
  from item_head [OF item] obtain c cs where c: "sg @ ds = c # cs" "c \<noteq> 0" "\<not> isspace (uint c)" by blast
  have mc: "m (sc_q f) = Some c" using at(1) c(1) by (metis append_Cons append_assoc bytes_at.simps(2))
  have q: "skipspace (sc_q f) m = Some (sc_q f)" using mc c(3) by (subst skipspace.simps) simp
  have "ends_at 10 m (sc_q f + length ([] @ sg @ ds)) (unat (sc_width f) - length (sg @ ds))"
    using at by (auto simp: ends_at_def add.assoc)
  from strntoumax_value [OF _ _ _ _ _ _ _ this] item at(1) len have
    v: "strntoumax (sc_q f) 10 (unat (sc_width f)) m = Some (word_of_int (item_value ([], sg, ds)), sc_q f + length (sg @ ds))"
    by (simp add: item_ok_def item_value_def)
  have "length (sg @ ds) \<noteq> 0" using c(1) by simp
  then have ne: "sc_q f + length (sg @ ds) \<noteq> sc_q f" by simp
  have "rank_size rank_int = 4" by (simp add: rank_size_def rank_int_def rank_char_def rank_short_def rank_longlong_def)
  moreover have "length (word_bytes w) = 4" for w by (simp add: word_bytes_def)
  ultimately show ?thesis using q mc c(2) v ne f room
    by (auto simp: scan_int_def set_integer_def scan_arg_def count_conversion_def le_bytes_word st_all_filled)
qed

definition int_directives :: "nat \<Rightarrow> byte list" where
  "int_directives k = concat (replicate k [32, 37, 100])"

lemma int_directives_simps [simp]: "int_directives 0 = []" "int_directives (Suc k) = 32 # 37 # 100 # int_directives k"
  by (simp_all add: int_directives_def)

lemma UINT_MAX_width: "unat UINT_MAX = 2 ^ 32 - 1"
  by (simp add: UINT_MAX_def)

lemmas rank_defs = rank_char_def rank_short_def rank_int_def rank_long_def rank_longlong_def

lemma int_directive:
  assumes p: "bytes_at m (sc_p f) [32, 37, 100]" and f: "sc_st f = st_scan_normal" "sc_bail f = bail_none" "sc_ap f = a # as"
    and item: "item_ok (ws, sg, ds)" and at: "bytes_at m (sc_q f) (ws @ sg @ ds @ [b])" "\<not> digit_in 10 b"
    and len: "length (sg @ ds) < 2 ^ 32" and room: "is_mapped m (unat a) 4"
  shows "\<exists>f'. vsscanf_loop buffer f m = vsscanf_loop buffer f' (filled (unat a) (word_bytes (word_of_int (item_value (ws, sg, ds)))) m) \<and>
    sc_p f' = sc_p f + 3 \<and> sc_q f' = sc_q f + length (item_text (ws, sg, ds)) \<and> sc_st f' = st_scan_normal \<and> sc_bail f' = bail_none \<and>
    sc_ap f' = as \<and> sc_converted f' = sc_converted f + 1"
proof -
  have sp: "isspace 32" by (simp add: isspace_iff)
  from item_head [OF item] obtain c cs where c: "sg @ ds = c # cs" "\<not> isspace (uint c)" by blast
  have "bytes_at m (sc_q f) (ws @ [c])" using at(1) c(1)
    by (metis append_Cons append_assoc bytes_at.simps bytes_at_append)
  from skipspace_skips [OF this _ c(2)] item have q: "skipspace (sc_q f) m = Some (sc_q f + length ws)" by (simp add: item_ok_def)
  define f1 where "f1 = f\<lparr>sc_p := sc_p f + 1, sc_q := sc_q f + length ws\<rparr>"
  define f2 where "f2 = f1\<lparr>sc_p := sc_p f + 2, sc_st := st_scan_flags, sc_flags := 0, sc_rank := rank_int, sc_width := UINT_MAX\<rparr>"
  define f3 where "f3 = scan_flags 100 (f2\<lparr>sc_p := Suc (sc_p f2)\<rparr>)"
  have f3: "f3 = f2\<lparr>sc_st := st_scan_modifiers\<rparr>"
    by (rule scan.equality) (simp_all add: f3_def scan_flags_def scan_again_def)
  define f4 where "f4 = f3\<lparr>sc_p := sc_p f + 3, sc_st := st_scan_normal, sc_rank := rank_int\<rparr>"
  let ?v = "item_value (ws, sg, ds)"
  have 1: "vsscanf_loop buffer f m = vsscanf_loop buffer f1 m"
    using p f sp q by (subst vsscanf_loop.simps) (simp add: scan_step_def scan_normal_def f1_def)
  have 2: "vsscanf_loop buffer f1 m = vsscanf_loop buffer f2 m"
    using p f by (subst vsscanf_loop.simps) (simp add: scan_step_def scan_normal_def f1_def f2_def)
  have 3: "vsscanf_loop buffer f2 m = vsscanf_loop buffer f3 m"
    using p f by (subst vsscanf_loop.simps) (simp add: scan_step_def f1_def f2_def f3_def)
  have "scan_int 10 f4 m = Some (f4\<lparr>sc_q := sc_q f4 + length (sg @ ds), sc_converted := sc_converted f4 + 1, sc_ap := as\<rparr>,
    filled (unat a) (word_bytes (word_of_int (item_value ([], sg, ds)))) m)"
    by (rule scan_int_number)
      (use item at len f room in \<open>simp_all add: item_ok_def f1_def f2_def f3 f4_def UINT_MAX_width\<close>)
  moreover have "item_value ([], sg, ds) = ?v" by (simp add: item_value_def)
  moreover have "scan_step buffer 100 (f3\<lparr>sc_p := sc_p f + 3\<rparr>) m = scan_int 10 f4 m"
    by (simp add: scan_step_def scan_modifiers_def scan_length_modifier_def scan_conversion_def f4_def f3 f2_def canonical_rank_def rank_defs)
  ultimately have 4: "vsscanf_loop buffer f3 m = vsscanf_loop buffer
      (f4\<lparr>sc_q := sc_q f4 + length (sg @ ds), sc_converted := sc_converted f4 + 1, sc_ap := as\<rparr>) (filled (unat a) (word_bytes (word_of_int ?v)) m)"
    using p f by (subst vsscanf_loop.simps) (simp add: f1_def f2_def f3 numeral_3_eq_3)
  show ?thesis unfolding 1 2 3 4
    by (rule exI, rule conjI, rule refl) (use f in \<open>simp add: f1_def f2_def f3 f4_def item_text_def\<close>)
qed

text \<open>The numbers \<open>ws\<close> stored through the pointers \<open>as\<close>, one after the other.\<close>

fun store_words :: "word32 list \<Rightarrow> word32 list \<Rightarrow> cmem \<Rightarrow> cmem" where
  "store_words (a # as) (w # ws) m = store_words as ws (filled (unat a) (word_bytes w) m)"
| "store_words _ _ m = m"

definition items_ok :: "number_item list \<Rightarrow> bool" where
  "items_ok xs \<longleftrightarrow> list_all item_ok xs \<and> list_all (\<lambda>(ws, sg, ds). ws \<noteq> [] \<or> sg \<noteq> []) (tl xs)"

definition items_text :: "number_item list \<Rightarrow> byte list" where
  "items_text xs = concat (map item_text xs)"

lemma bytes_at_other: "apart_ranges a 4 p (length xs) \<Longrightarrow> bytes_at (filled a (word_bytes w) m) p xs = bytes_at m p xs"
  by (intro bytes_at_cong) (auto simp: apart_ranges_def filled_def word_bytes_def)

lemma is_mapped_filled_any: "is_mapped m p n \<Longrightarrow> is_mapped (filled q xs m) p n"
  by (simp add: is_mapped_def filled_mapped)

lemma space_not_digit: "isspace (uint b) \<Longrightarrow> \<not> digit_in base b"
  using digit_not_space by blast

lemma item_separator:
  assumes "items_ok (x # xs)"
  shows "\<exists>b bs. items_text xs @ [0] = b # bs \<and> \<not> digit_in 10 b"
proof (cases xs)
  case Nil
  then show ?thesis by (auto simp: items_text_def dest: digit_not_zero)
next
  case (Cons y ys)
  obtain ws sg ds where y: "y = (ws, sg, ds)" by (cases y) auto
  have ok: "item_ok (ws, sg, ds)" "ws \<noteq> [] \<or> sg \<noteq> []" using assms by (simp_all add: items_ok_def Cons y)
  show ?thesis
  proof (cases ws)
    case Nil
    then have "sg = [43] \<or> sg = [45]" using ok by (auto simp: item_ok_def)
    then show ?thesis using Nil by (auto simp: items_text_def Cons y item_text_def dest: digit_not_space)
  next
    case w: (Cons w ws')
    then show ?thesis using ok by (auto simp: items_text_def Cons y item_text_def item_ok_def dest: space_not_digit)
  qed
qed

lemma vsscanf_loop_numbers:
  assumes "bytes_at m (sc_p f) (int_directives (length xs) @ [0])" and "bytes_at m (sc_q f) (items_text xs @ [0])"
    and "items_ok xs" and "length (items_text xs) < 2 ^ 32"
    and "sc_st f = st_scan_normal" "sc_bail f = bail_none" and "length (sc_ap f) = length xs"
    and "\<forall>a \<in> set (sc_ap f). is_mapped m (unat a) 4 \<and> apart_ranges (unat a) 4 (sc_p f) (Suc (length (int_directives (length xs)))) \<and>
      apart_ranges (unat a) 4 (sc_q f) (Suc (length (items_text xs)))"
  shows "\<exists>f'. vsscanf_loop buffer f m = Some (f', store_words (sc_ap f) (map (\<lambda>x. word_of_int (item_value x)) xs) m) \<and>
    sc_converted f' = sc_converted f + int (length xs) \<and> sc_bail f' = bail_none"
  using assms
proof (induction xs arbitrary: f m)
  case Nil
  then show ?case by (subst vsscanf_loop.simps) simp
next
  case (Cons x xs)
  obtain ws sg ds where x: "x = (ws, sg, ds)" by (cases x) auto
  obtain a as where ap: "sc_ap f = a # as" using Cons.prems(7) by (cases "sc_ap f") auto
  from item_separator [OF Cons.prems(3)] obtain b bs where b: "items_text xs @ [0] = b # bs" "\<not> digit_in 10 b" by blast
  have T: "items_text (x # xs) = item_text x @ items_text xs" by (simp add: items_text_def)
  let ?m = "filled (unat a) (word_bytes (word_of_int (item_value x))) m"
  have apart: "is_mapped m (unat c) 4 \<and> apart_ranges (unat c) 4 (sc_p f + 3) (Suc (length (int_directives (length xs)))) \<and>
      apart_ranges (unat c) 4 (sc_q f + length (item_text x)) (Suc (length (items_text xs)))" if "c \<in> set (a # as)" for c
    using Cons.prems(8) that by (auto simp: ap T apart_ranges_def)
  have t: "bytes_at m (sc_q f) (item_text x @ b # bs)" using Cons.prems(2) by (simp only: T append_assoc b(1))
  have q: "bytes_at m (sc_q f) (ws @ sg @ ds @ [b])" using t by (simp add: x item_text_def)
  have "item_ok (ws, sg, ds)" "length (sg @ ds) < 2 ^ 32" "is_mapped m (unat a) 4"
    using Cons.prems(3,4) apart [of a] by (simp_all add: items_ok_def x items_text_def item_text_def)
  from int_directive [OF _ Cons.prems(5,6) ap this(1) q b(2) this(2,3), of buffer] Cons.prems(1) obtain f1 where
    f1: "vsscanf_loop buffer f m = vsscanf_loop buffer f1 ?m"
      "sc_p f1 = sc_p f + 3" "sc_q f1 = sc_q f + length (item_text x)" "sc_st f1 = st_scan_normal" "sc_bail f1 = bail_none"
      "sc_ap f1 = as" "sc_converted f1 = sc_converted f + 1" by (auto simp: x)
  have "bytes_at m (sc_p f1) (int_directives (length xs) @ [0])" "bytes_at m (sc_q f1) (items_text xs @ [0])"
    using Cons.prems(1) t by (simp_all add: f1 b(1) numeral_3_eq_3)
  then have "bytes_at ?m (sc_p f1) (int_directives (length xs) @ [0])" "bytes_at ?m (sc_q f1) (items_text xs @ [0])"
    using apart [of a] by (simp_all add: bytes_at_other f1 del: bytes_at_append)
  moreover have "items_ok xs" using Cons.prems(3) by (cases xs) (simp_all add: items_ok_def)
  moreover have "length (items_text xs) < 2 ^ 32" "length as = length xs" using Cons.prems(4,7) by (simp_all add: T ap)
  moreover have "\<forall>c \<in> set as. is_mapped ?m (unat c) 4 \<and> apart_ranges (unat c) 4 (sc_p f1) (Suc (length (int_directives (length xs)))) \<and>
      apart_ranges (unat c) 4 (sc_q f1) (Suc (length (items_text xs)))"
    using apart by (simp add: f1 is_mapped_filled_any)
  ultimately have "\<exists>f'. vsscanf_loop buffer f1 ?m = Some (f', store_words as (map (\<lambda>x. word_of_int (item_value x)) xs) ?m) \<and>
    sc_converted f' = sc_converted f1 + int (length xs) \<and> sc_bail f' = bail_none"
    using Cons.IH [of ?m f1] f1 by simp
  then show ?case using f1 by (simp add: ap add.assoc)
qed

lemma vsscanf_numbers:
  assumes "cstring m fmt (int_directives (length xs))" and "cstring m buffer (items_text xs)"
    and "items_ok xs" "length (items_text xs) < 2 ^ 32" and "length ap = length xs"
    and "\<forall>a \<in> set ap. is_mapped m (unat a) 4 \<and> apart_ranges (unat a) 4 fmt (Suc (length (int_directives (length xs)))) \<and>
      apart_ranges (unat a) 4 buffer (Suc (length (items_text xs)))"
  shows "vsscanf buffer fmt ap m = Some (int (length xs), store_words ap (map (\<lambda>x. word_of_int (item_value x)) xs) m)"
  using vsscanf_loop_numbers [of m "scan_start buffer fmt ap" xs buffer] assms
  by (auto simp: vsscanf_def scan_start_def cstring_def)

section \<open>Printing and scanning\<close>

text \<open>The text that \<^verbatim>\<open>vsnprintf\<close> produces for a number, as an item of the buffer.\<close>

definition printed_item :: "word32 \<Rightarrow> number_item" where
  "printed_item a = ([32], if sint a < 0 then [45] else [], decimal (nat \<bar>sint a\<bar>))"

lemma sint_ranges: "- 2147483648 \<le> sint (a :: word32)" "sint (a :: word32) < 2147483648"
  using sint_ge [of a] sint_lt [of a] by simp_all

lemma word64_signed: "- (2 ^ 63) \<le> v \<Longrightarrow> v < 2 ^ 63 \<Longrightarrow> sint (word_of_int v :: 64 word) = v"
  by (simp add: signed_of_int signed_take_bit_int_eq_self)

lemma word64_sint: "sint (word_of_int (sint (a :: word32)) :: 64 word) = sint a"
  by (rule word64_signed) (use sint_ranges [of a] in simp_all)

lemma word64_unat: "0 \<le> v \<Longrightarrow> v < 2 ^ 63 \<Longrightarrow> unat (word_of_int v :: 64 word) = nat v"
  by (simp add: unsigned_of_int take_bit_int_eq_self)

lemma int_text_printed: "32 # int_text (word_of_int (sint a)) FL_SIGNED 10 0 (-1) = item_text (printed_item a)"
proof (cases "sint a < 0")
  case True
  have "- (word_of_int (sint a) :: 64 word) = word_of_int (- sint a)" by simp
  moreover have "unat (word_of_int (- sint a) :: 64 word) = nat (- sint a)"
    by (rule word64_unat) (use True sint_ranges [of a] in simp_all)
  ultimately have "unat (- (word_of_int (sint a) :: 64 word)) = nat (- sint a)" by metis
  then show ?thesis using True word64_sint [of a] by (simp add: int_text_decimal item_text_def printed_item_def)
next
  case False
  then have "unat (word_of_int (sint a) :: 64 word) = nat (sint a)"
    by (intro word64_unat) (use sint_ranges [of a] in simp_all)
  then show ?thesis using False word64_sint [of a] by (simp add: int_text_decimal item_text_def printed_item_def)
qed

lemma printed_item_ok: "item_ok (printed_item a)"
  by (simp add: item_ok_def printed_item_def decimal_digits isspace_iff) (simp add: decimal_def)

lemma printed_items_ok: "items_ok (map printed_item args)"
  by (cases args) (auto simp: items_ok_def printed_item_ok list_all_iff, auto simp: printed_item_def)

lemma printed_item_value: "word_of_int (item_value (printed_item a)) = a"
  by (simp add: item_value_def printed_item_def decimal_value)

lemma length_printed_item: "length (item_text (printed_item a)) \<le> 12"
proof -
  have "nat \<bar>sint a\<bar> < 10 ^ 10" using sint_ranges [of a] by simp
  from number_length_le [OF _ this] have "number_length 10 (nat \<bar>sint a\<bar>) \<le> 10" by simp
  then show ?thesis by (cases "sint a < 0") (simp_all add: item_text_def printed_item_def decimal_def)
qed

lemma length_printed: "length (items_text (map printed_item args)) \<le> 12 * length args"
proof (induction args)
  case (Cons a args)
  then show ?case using length_printed_item [of a] by (simp add: items_text_def)
qed (simp add: items_text_def)

lemma text_loop_numbers:
  "bytes_at m (fmt_p f) (int_directives (length args) @ [0]) \<Longrightarrow> fmt_st f = st_normal \<Longrightarrow> fmt_ap f = args \<Longrightarrow>
    text_loop m f = Some (items_text (map printed_item args))"
proof (induction args arbitrary: f)
  case Nil
  then show ?case by (subst text_loop.simps) (simp add: items_text_def)
next
  case (Cons a args)
  define f1 where "f1 = f\<lparr>fmt_p := Suc (fmt_p f)\<rparr>"
  define f2 where "f2 = start_directive (f1\<lparr>fmt_p := Suc (fmt_p f1)\<rparr>)"
  define f3 where "f3 = step_flags 100 (f2\<lparr>fmt_p := Suc (fmt_p f2)\<rparr>)"
  define f4 where "f4 = again st_modifiers (f3\<lparr>fmt_p := Suc (fmt_p f3)\<rparr>)"
  define f5 where "f5 = f4\<lparr>fmt_p := Suc (fmt_p f4), fmt_st := st_normal, fmt_rank := canonical_rank (fmt_rank f4), fmt_flags := FL_SIGNED, fmt_ap := args\<rparr>"
  note d = f1_def f2_def f3_def f4_def start_directive_def step_flags_def again_def
  have p: "fmt_p f1 = Suc (fmt_p f)" "fmt_p f2 = Suc (Suc (fmt_p f))" "fmt_p f3 = Suc (Suc (fmt_p f))" "fmt_p f4 = Suc (Suc (fmt_p f))"
    and fs: "fmt_st f1 = fmt_st f" "fmt_st f2 = st_flags" "fmt_st f3 = st_width" "fmt_st f4 = st_modifiers"
    by (simp_all add: d)
  have 1: "text_loop m f = do { ys \<leftarrow> text_loop m f1; Some (32 # ys) }"
    using Cons.prems by (subst text_loop.simps) (simp add: text_step_def f1_def)
  have 2: "text_loop m f1 = text_loop m f2"
    using Cons.prems by (subst text_loop.simps) (simp add: text_step_def p fs f2_def)
  have 3: "text_loop m f2 = text_loop m f3"
    using Cons.prems by (subst text_loop.simps) (simp add: text_step_def p fs f3_def)
  have 4: "text_loop m f3 = text_loop m f4"
    using Cons.prems by (subst text_loop.simps) (simp add: text_step_def p fs f4_def step_width_def)
  have c: "convert 100 m (f4\<lparr>fmt_p := Suc (fmt_p f4), fmt_st := st_normal, fmt_rank := canonical_rank (fmt_rank f4)\<rparr>) =
      Some (Is_integer (word_of_int (sint a)) 10, f5)"
    using Cons.prems by (simp add: convert_def to_integer_def signed_arg_def add_flag_def va_slot_def f5_def canonical_rank_def rank_defs d)
  have "conversion_text m 100 (Is_integer (word_of_int (sint a)) 10) f5 = Some (int_text (word_of_int (sint a)) FL_SIGNED 10 0 (-1))"
    by (simp add: conversion_text_def f5_def d)
  then have 5: "text_loop m f4 = do { ys \<leftarrow> text_loop m f5; Some (int_text (word_of_int (sint a)) FL_SIGNED 10 0 (-1) @ ys) }"
    using Cons.prems c by (subst text_loop.simps) (simp add: text_step_def length_modifier_def p fs)
  have "text_loop m f5 = Some (items_text (map printed_item args))"
    using Cons.prems by (intro Cons.IH) (simp_all add: f5_def d numeral_3_eq_3)
  then show ?case unfolding 1 2 3 4 5 using int_text_printed [of a] by (simp add: items_text_def)
qed

lemma item_no_zero: "item_ok x \<Longrightarrow> 0 \<notin> set (item_text x)"
proof -
  assume "item_ok x"
  moreover have "\<not> isspace (uint (0 :: byte))" by (simp add: isspace_iff)
  ultimately show ?thesis by (cases x) (auto simp: item_ok_def item_text_def list_all_iff dest: digit_not_zero)
qed

lemma items_no_zero: "items_ok xs \<Longrightarrow> 0 \<notin> set (items_text xs)"
  using item_no_zero by (auto simp: items_ok_def items_text_def list_all_iff)

lemma length_int_directives: "length (int_directives k) = 3 * k"
  by (induction k) auto

lemma vsnprintf_numbers:
  assumes fmt: "cstring m fmt (int_directives (length args))" and room: "is_mapped m buffer n" "12 * length args < n"
    and apart: "apart_ranges buffer n fmt (Suc (3 * length args))"
  shows "vsnprintf buffer n fmt args m =
    Some (length (items_text (map printed_item args)), filled buffer (items_text (map printed_item args) @ [0]) m)"
proof -
  let ?T = "items_text (map printed_item args)"
  have l: "Suc (length ?T) \<le> n" using length_printed [of args] room(2) by simp
  let ?mh = "m |` (- {buffer..<buffer + min n (Suc (length ?T))})"
  have "bytes_at ?mh fmt (int_directives (length args) @ [0]) = bytes_at m fmt (int_directives (length args) @ [0])"
    by (rule bytes_at_cong) (use apart l in \<open>auto simp: restrict_map_def apart_ranges_def length_int_directives\<close>)
  then have "format_text ?mh fmt args = Some ?T" unfolding format_text_def
    by (intro text_loop_numbers) (use fmt in \<open>simp_all add: fmt_start_def cstring_def\<close>)
  moreover have "is_mapped m buffer (min n (Suc (length ?T)))" using room(1) by (rule is_mapped_less) simp
  ultimately show ?thesis using vsnprintf_writes [of m buffer n ?T fmt args] l by simp
qed

text \<open>
  C21. \<^verbatim>\<open>vsscanf\<close> with a format of \<open>k\<close> directives \<^verbatim>\<open>" %d"\<close> reads \<open>k\<close> decimal numbers, each after any white space and with an
  optional sign: it returns, the result is \<open>k\<close>, and the value of the i-th number (modulo \<open>2 ^ 32\<close>) is stored through the i-th
  pointer; no other byte of the memory changes.
\<close>

theorem vsscanf_reads_numbers:
  assumes "cstring m fmt (int_directives (length xs))" and "cstring m buffer (items_text xs)"
    and "items_ok xs" "length (items_text xs) < 2 ^ 32" and "length ap = length xs"
    and "\<forall>a \<in> set ap. is_mapped m (unat a) 4 \<and> apart_ranges (unat a) 4 fmt (Suc (3 * length xs)) \<and>
      apart_ranges (unat a) 4 buffer (Suc (length (items_text xs)))"
  shows "vsscanf buffer fmt ap m = Some (int (length xs), store_words ap (map (\<lambda>x. word_of_int (item_value x)) xs) m)"
  using assms by (intro vsscanf_numbers) (simp_all add: length_int_directives)

theorem vsscanf_reads_numbers_witness:
  "\<exists>m'. vsscanf 10 20 [30] [10 \<mapsto> 45, 11 \<mapsto> 55, 12 \<mapsto> 0, 20 \<mapsto> 32, 21 \<mapsto> 37, 22 \<mapsto> 100, 23 \<mapsto> 0,
     30 \<mapsto> 0, 31 \<mapsto> 0, 32 \<mapsto> 0, 33 \<mapsto> 0] = Some (1, m') \<and> m' 30 = Some 0xf9 \<and> m' 33 = Some 0xff"
proof -
  let ?m = "[10 \<mapsto> 45, 11 \<mapsto> 55, 12 \<mapsto> 0, 20 \<mapsto> 32, 21 \<mapsto> 37, 22 \<mapsto> 100, 23 \<mapsto> 0, 30 \<mapsto> 0, 31 \<mapsto> 0, 32 \<mapsto> 0, 33 \<mapsto> 0] :: cmem"
  have "digit_in 10 55" by (simp add: digit_in_def digitval_def)
  moreover have "item_value ([], [45], [55]) = - 7" by (simp add: item_value_def digits_value_def digitval_def)
  moreover have "is_mapped ?m 30 4" by (simp add: is_mapped_def All_less_Suc eval_nat_numeral)
  ultimately show ?thesis using vsscanf_reads_numbers [of ?m 20 "[([], [45], [55])]" 10 "[30]"]
    by (simp add: items_ok_def item_ok_def items_text_def item_text_def apart_ranges_def cstring_def filled_def word_bytes_def)
qed

text \<open>
  C20. What \<^verbatim>\<open>vsnprintf\<close> prints \<^verbatim>\<open>vsscanf\<close> reads back with the same format: printing any list of 32-bit numbers with a format
  of directives \<^verbatim>\<open>" %d"\<close> into a buffer of more than 12 bytes for each and scanning the buffer returns the count and stores
  exactly these numbers.
\<close>

theorem printf_scanf_roundtrip:
  assumes "cstring m fmt (int_directives (length args))" and "is_mapped m buffer n" "12 * length args < n" "n < 2 ^ 32"
    and "apart_ranges buffer n fmt (Suc (3 * length args))" and "length ap = length args"
    and "\<forall>a \<in> set ap. is_mapped m (unat a) 4 \<and> apart_ranges (unat a) 4 fmt (Suc (3 * length args)) \<and>
      apart_ranges (unat a) 4 buffer n"
  shows "\<exists>k m'. vsnprintf buffer n fmt args m = Some (k, m') \<and>
    vsscanf buffer fmt ap m' = Some (int (length args), store_words ap args m')"
proof -
  let ?xs = "map printed_item args" and ?T = "items_text (map printed_item args)"
  let ?m = "filled buffer (?T @ [0]) m"
  have l: "length ?T < n" using length_printed [of args] assms(3) by simp
  have f: "\<forall>i. length (?T @ [0]) \<le> i - buffer \<or> i < buffer \<longrightarrow> ?m i = m i" by (auto simp: filled_def)
  have "bytes_at ?m fmt (int_directives (length args) @ [0]) = bytes_at m fmt (int_directives (length args) @ [0])"
    by (rule bytes_at_cong) (use f assms(5) l in \<open>auto simp: apart_ranges_def length_int_directives\<close>)
  then have "cstring ?m fmt (int_directives (length ?xs))" using assms(1) by (simp add: cstring_def)
  moreover have "cstring ?m buffer ?T"
    using bytes_at_filled [of buffer "?T @ [0]" m] items_no_zero [OF printed_items_ok] by (simp add: cstring_def)
  moreover have "\<forall>a \<in> set ap. is_mapped ?m (unat a) 4 \<and> apart_ranges (unat a) 4 fmt (Suc (length (int_directives (length ?xs)))) \<and>
      apart_ranges (unat a) 4 buffer (Suc (length ?T))"
    using assms(7) l by (auto simp: is_mapped_filled_any length_int_directives apart_ranges_def)
  ultimately have "vsscanf buffer fmt ap ?m = Some (int (length args), store_words ap args ?m)"
    using vsscanf_numbers [OF _ _ printed_items_ok, of ?m fmt args buffer ap] assms(4,6) l
    by (simp add: comp_def printed_item_value)
  with vsnprintf_numbers [OF assms(1,2,3,5)] show ?thesis by blast
qed

theorem printf_scanf_roundtrip_witness:
  "\<exists>k m'. vsnprintf 100 13 20 [5] (\<lambda>p. Some (if p = 20 then 32 else if p = 21 then 37 else if p = 22 then 100 else 0)) = Some (k, m') \<and>
     vsscanf 100 20 [200] m' = Some (1, store_words [200] [5] m')"
  using printf_scanf_roundtrip [of "\<lambda>p. Some (if p = 20 then 32 else if p = 21 then 37 else if p = 22 then 100 else 0)" 20 "[5]" 100 13 "[200]"]
  by (simp add: cstring_def is_mapped_def apart_ranges_def)

section \<open>Character sets\<close>

lemma test_bit_map_bit: "test_bit_map mm i = of_bool (bit (mm ! (i div 32)) (i mod 32))"
proof -
  have "sint (w :: word32) AND 1 = of_bool (bit w 0)" for w
    by (rule bit_eqI) (auto simp: bit_simps)
  then show ?thesis by (simp add: test_bit_map_def bit_simps)
qed

lemma test_set_bit_map:
  assumes "length mm = 8" and "j < 256"
  shows "test_bit_map (set_bit_map mm j) i = (if i = j then 1 else test_bit_map mm i)"
proof (cases "i div 32 = j div 32")
  case True
  then have "(i mod 32 = j mod 32) = (i = j)" by (metis div_mult_mod_eq)
  then show ?thesis using True assms by (auto simp: test_bit_map_bit set_bit_map_def bit_simps)
next
  case False
  then show ?thesis using assms by (auto simp: test_bit_map_bit set_bit_map_def)
qed

lemma length_set_bit_map [simp]: "length (set_bit_map mm j) = length mm"
  by (simp add: set_bit_map_def)

lemma length_fold_set_bit [simp]: "length (fold (\<lambda>i mm. set_bit_map mm i) js mm) = length mm"
  by (induction js arbitrary: mm) simp_all

lemma test_fold_set_bit:
  "length mm = 8 \<Longrightarrow> \<forall>j \<in> set js. j < 256 \<Longrightarrow>
    test_bit_map (fold (\<lambda>i mm. set_bit_map mm i) js mm) i = (if i \<in> set js then 1 else test_bit_map mm i)"
  by (induction js arbitrary: mm) (auto simp: test_set_bit_map)

lemma byte_bound: "unat (b :: byte) < 256"
  using unsigned_less [of b] by simp

lemma test_empty: "i < 256 \<Longrightarrow> test_bit_map (replicate 8 0) i = 0"
  by (simp add: test_bit_map_bit)

text \<open>The set of characters of the directive \<^verbatim>\<open>%[lo-hi]\<close>, with the dash in the middle.\<close>

lemma match_range_class:
  assumes "sc_matchmap f = replicate 8 0" and "i < 256" and "lo \<noteq> 94"
    and "scan_match 45 (scan_match_init lo f) m = Some (f1, m)" and "scan_match_range hi f1 m = Some (f2, m)" and "hi \<noteq> 93"
  shows "test_bit_map (sc_matchmap f2) i = of_bool (i = unat lo \<or> 45 \<le> i \<and> i < unat hi)"
proof -
  have "sc_matchmap f2 = fold (\<lambda>i mm. set_bit_map mm i) [45..<unat hi] (set_bit_map (replicate 8 0) (unat lo))"
    using assms by (auto simp: scan_match_init_def scan_match_def scan_match_range_def add_char_def add_range_def)
  moreover have "\<forall>j \<in> set [45..<unat hi]. j < 256" using byte_bound [of hi] by auto
  ultimately show ?thesis
    using test_fold_set_bit [of "set_bit_map (replicate 8 0) (unat lo)" "[45..<unat hi]" i]
      test_set_bit_map [of "replicate 8 0" "unat lo" i] byte_bound [of lo] test_empty [OF assms(2)] by auto
qed

lemma match_loop_copies:
  "bytes_at m q (xs @ [y]) \<Longrightarrow> \<forall>x \<in> set xs. x \<noteq> 0 \<and> test_bit_map mm (unat x) = 1 \<Longrightarrow> y = 0 \<or> test_bit_map mm (unat y) = 0 \<Longrightarrow>
    width \<noteq> 0 \<Longrightarrow> d \<noteq> 0 \<Longrightarrow> is_mapped m d (length xs) \<Longrightarrow> apart_ranges d (length xs) q (Suc (length xs)) \<Longrightarrow>
    match_loop mm 0 width uc d q m = Some (y, d + length xs, q + length xs, filled d xs m)"
proof (induction xs arbitrary: d q m uc)
  case Nil
  then show ?case by (subst match_loop.simps) (auto simp: filled_def fun_eq_iff)
next
  case (Cons x xs)
  have "bytes_at (m(d \<mapsto> x)) (Suc q) (xs @ [y]) = bytes_at m (Suc q) (xs @ [y])"
    by (rule bytes_at_cong) (use Cons.prems(7) in \<open>auto simp: apart_ranges_def\<close>)
  then have b: "bytes_at (m(d \<mapsto> x)) (Suc q) (xs @ [y])" using Cons.prems(1) by simp
  have a: "apart_ranges (Suc d) (length xs) (Suc q) (Suc (length xs))" using Cons.prems(7) by (auto simp: apart_ranges_def)
  have "match_loop mm 0 width x (Suc d) (Suc q) (m(d \<mapsto> x)) =
      Some (y, Suc d + length xs, Suc q + length xs, filled (Suc d) xs (m(d \<mapsto> x)))"
    by (rule Cons.IH [OF b]) (use Cons.prems a in \<open>simp_all del: fun_upd_apply\<close>)
  then show ?case using Cons.prems by (subst match_loop.simps) (simp add: st_def filled_step del: fun_upd_apply)
qed

lemma match_swallows:
  assumes "bytes_at m (sc_p f) (rest @ [0])" and "93 \<notin> set rest" and "sc_st f \<in> {st_match, st_match_range}"
  shows "\<exists>f'. vsscanf_loop buffer f m = Some (f', m) \<and> sc_converted f' = sc_converted f \<and> sc_bail f' = sc_bail f"
  using assms
proof (induction rest arbitrary: f)
  case Nil
  then show ?case by (subst vsscanf_loop.simps) simp
next
  case (Cons c rest)
  define f0 where "f0 = f\<lparr>sc_p := Suc (sc_p f)\<rparr>"
  define f1 where "f1 = (if sc_st f = st_match_range then add_range c f0
    else if c = 45 then f0\<lparr>sc_range_start := c, sc_st := st_match_range\<rparr> else add_char c f0)"
  have f1: "sc_p f1 = Suc (sc_p f)" "sc_st f1 \<in> {st_match, st_match_range}" "sc_converted f1 = sc_converted f" "sc_bail f1 = sc_bail f"
    by (simp_all add: f1_def f0_def add_range_def add_char_def)
  show ?case
  proof (cases "c \<noteq> 0 \<and> sc_bail f = bail_none")
    case True
    have "scan_step buffer c f0 m = Some (f1, m)"
      using Cons.prems(2,3) by (auto simp: scan_step_def scan_match_def scan_match_range_def f1_def f0_def)
    then have "vsscanf_loop buffer f m = vsscanf_loop buffer f1 m"
      using True Cons.prems(1) by (subst vsscanf_loop.simps) (simp add: f0_def)
    moreover have "\<exists>f'. vsscanf_loop buffer f1 m = Some (f', m) \<and> sc_converted f' = sc_converted f1 \<and> sc_bail f' = sc_bail f1"
      by (rule Cons.IH) (use Cons.prems f1 in simp_all)
    ultimately show ?thesis using f1 by simp
  next
    case False
    then show ?thesis using Cons.prems(1) by (subst vsscanf_loop.simps) auto
  qed
qed

text \<open>The local variables that reading a set of characters keeps.\<close>

definition same_scan :: "scan \<Rightarrow> scan \<Rightarrow> bool" where
  "same_scan f f' \<longleftrightarrow> sc_q f' = sc_q f \<and> sc_bail f' = sc_bail f \<and> sc_sarg f' = sc_sarg f \<and> sc_width f' = sc_width f \<and>
     sc_matchinv f' = sc_matchinv f \<and> sc_converted f' = sc_converted f"

lemma scan_step_char:
  assumes "m (sc_p f) = Some c" and "sc_st f = st_match" "sc_bail f = bail_none" and "c \<noteq> 0" "c \<noteq> 45" "c \<noteq> 93"
  shows "vsscanf_loop buffer f m = vsscanf_loop buffer (add_char c (f\<lparr>sc_p := Suc (sc_p f)\<rparr>)) m"
  using assms by (subst vsscanf_loop.simps) (simp add: scan_step_def scan_match_def)

lemma match_chars:
  "bytes_at m (sc_p f) cs \<Longrightarrow> sc_st f = st_match \<Longrightarrow> sc_bail f = bail_none \<Longrightarrow> set cs \<inter> {0, 45, 93} = {} \<Longrightarrow>
    \<exists>f'. vsscanf_loop buffer f m = vsscanf_loop buffer f' m \<and> sc_p f' = sc_p f + length cs \<and> sc_st f' = st_match \<and>
      sc_matchmap f' = fold (\<lambda>i mm. set_bit_map mm i) (map unat cs) (sc_matchmap f) \<and> same_scan f f'"
proof (induction cs arbitrary: f)
  case Nil
  then show ?case by (intro exI [of _ f]) (simp add: same_scan_def)
next
  case (Cons c cs)
  let ?f = "add_char c (f\<lparr>sc_p := Suc (sc_p f)\<rparr>)"
  have l: "vsscanf_loop buffer f m = vsscanf_loop buffer ?f m" using Cons.prems by (intro scan_step_char) simp_all
  have "\<exists>f'. vsscanf_loop buffer ?f m = vsscanf_loop buffer f' m \<and> sc_p f' = sc_p ?f + length cs \<and> sc_st f' = st_match \<and>
      sc_matchmap f' = fold (\<lambda>i mm. set_bit_map mm i) (map unat cs) (sc_matchmap ?f) \<and> same_scan ?f f'"
    by (rule Cons.IH) (use Cons.prems in \<open>simp_all add: add_char_def\<close>)
  then show ?case unfolding l by (simp add: add_char_def same_scan_def)
qed

lemma match_directive:
  assumes p: "bytes_at m (sc_p f) (37 # 91 # cs)" and f: "sc_st f = st_scan_normal" "sc_bail f = bail_none" "sc_ap f = d # as"
    and cs: "cs = c # cs'" "set cs \<inter> {0, 45, 93} = {}" "c \<noteq> 94"
  shows "\<exists>f'. vsscanf_loop buffer f m = vsscanf_loop buffer f' m \<and> sc_p f' = sc_p f + length (37 # 91 # cs) \<and> sc_st f' = st_match \<and>
      sc_matchmap f' = fold (\<lambda>i mm. set_bit_map mm i) (map unat cs) (replicate 8 0) \<and> sc_q f' = sc_q f \<and> sc_bail f' = bail_none \<and>
      sc_sarg f' = unat d \<and> sc_width f' \<noteq> 0 \<and> sc_matchinv f' = 0 \<and> sc_converted f' = sc_converted f"
proof -
  define f1 where "f1 = f\<lparr>sc_p := Suc (sc_p f), sc_st := st_scan_flags, sc_flags := 0, sc_rank := rank_int, sc_width := UINT_MAX\<rparr>"
  define f2 where "f2 = scan_flags 91 (f1\<lparr>sc_p := Suc (sc_p f1)\<rparr>)"
  define f3 where "f3 = f2\<lparr>sc_p := Suc (sc_p f2), sc_st := st_match_init, sc_rank := canonical_rank (sc_rank f2), sc_ap := as,
    sc_sarg := unat d, sc_matchinv := 0, sc_matchmap := replicate 8 0\<rparr>"
  define f4 where "f4 = add_char c (f3\<lparr>sc_p := Suc (sc_p f3)\<rparr>)"
  note d = f1_def f2_def f3_def scan_flags_def scan_again_def
  have pp: "sc_p f1 = Suc (sc_p f)" "sc_p f2 = Suc (sc_p f)" "sc_p f3 = Suc (Suc (sc_p f))" "sc_p f4 = sc_p f + 3"
    and ff: "sc_st f1 = st_scan_flags" "sc_st f2 = st_scan_modifiers" "sc_st f3 = st_match_init" "sc_bail f1 = bail_none"
      "sc_bail f2 = bail_none" "sc_bail f3 = bail_none" "sc_flags f2 = 0" "sc_flags f3 = 0" "sc_ap f2 = d # as"
    using f by (simp_all add: d f4_def add_char_def)
  have 1: "vsscanf_loop buffer f m = vsscanf_loop buffer f1 m"
    using p f by (subst vsscanf_loop.simps) (simp add: scan_step_def scan_normal_def f1_def)
  have 2: "vsscanf_loop buffer f1 m = vsscanf_loop buffer f2 m"
    using p by (subst vsscanf_loop.simps) (simp add: scan_step_def pp ff f2_def)
  have "scan_step buffer 91 (f2\<lparr>sc_p := Suc (sc_p f2)\<rparr>) m = Some (f3, m)"
    by (simp add: scan_step_def scan_modifiers_def scan_length_modifier_def scan_conversion_def scan_set_def scan_arg_def ff)
      (rule scan.equality, simp_all add: f3_def)
  then have 3: "vsscanf_loop buffer f2 m = vsscanf_loop buffer f3 m"
    using p by (subst vsscanf_loop.simps) (simp add: pp ff)
  have 4: "vsscanf_loop buffer f3 m = vsscanf_loop buffer f4 m"
    using p cs by (subst vsscanf_loop.simps) (simp add: scan_step_def scan_match_init_def pp ff f4_def)
  have "bytes_at m (sc_p f4) cs'" "sc_st f4 = st_match" "sc_bail f4 = bail_none" "set cs' \<inter> {0, 45, 93} = {}"
    using p cs ff by (simp_all add: pp f4_def add_char_def numeral_3_eq_3)
  from match_chars [OF this, of buffer] obtain f5 where
    f5: "vsscanf_loop buffer f4 m = vsscanf_loop buffer f5 m" "sc_p f5 = sc_p f4 + length cs'" "sc_st f5 = st_match"
      "sc_matchmap f5 = fold (\<lambda>i mm. set_bit_map mm i) (map unat cs') (sc_matchmap f4)" "same_scan f4 f5" by blast
  have "sc_matchmap f4 = set_bit_map (replicate 8 0) (unat c)" by (simp add: f4_def add_char_def f3_def)
  moreover have "sc_width f4 = UINT_MAX" "sc_sarg f4 = unat d" "sc_q f4 = sc_q f" "sc_matchinv f4 = 0" "sc_converted f4 = sc_converted f"
    "sc_bail f4 = bail_none" using f by (simp_all add: f4_def add_char_def d)
  ultimately show ?thesis unfolding 1 2 3 4 using f5 cs(1) pp by (intro exI [of _ f5]) (simp add: same_scan_def UINT_MAX_def)
qed

definition class_map :: "byte list \<Rightarrow> word32 list" where
  "class_map cs = fold (\<lambda>i mm. set_bit_map mm i) (map unat cs) (replicate 8 0)"

lemma test_class_map: "test_bit_map (class_map cs) (unat x) = of_bool (x \<in> set cs)"
proof -
  have "unat x \<in> set (map unat cs) \<longleftrightarrow> x \<in> set cs" by (auto dest: unsigned_word_eqI)
  then show ?thesis
    using test_fold_set_bit [of "replicate 8 0" "map unat cs" "unat x"] byte_bound test_empty [of "unat x"]
    by (simp add: class_map_def byte_bound)
qed

lemma match_run_stores:
  assumes f: "sc_matchmap f = class_map cs" "sc_matchinv f = 0" "sc_width f \<noteq> 0" "sc_sarg f = d" "d \<noteq> 0"
    and b: "bytes_at m (sc_q f) (xs @ [y])" "y = 0 \<or> y \<notin> set cs" "0 \<notin> set xs" "set xs \<subseteq> set cs" "xs \<noteq> []"
    and room: "is_mapped m d (Suc (length xs))" "apart_ranges d (Suc (length xs)) (sc_q f) (Suc (length xs))"
  shows "match_run f m = Some (at_end y (count_conversion f\<lparr>sc_sarg := d + length xs, sc_q := sc_q f + length xs\<rparr>), filled d (xs @ [0]) m)"
proof -
  let ?n = "length xs"
  have "match_loop (class_map cs) 0 (sc_width f) 1 d (sc_q f) m = Some (y, d + ?n, sc_q f + ?n, filled d xs m)"
    by (rule match_loop_copies [OF b(1)])
      (use b f room in \<open>auto simp: test_class_map apart_ranges_def simp del: is_mapped_Suc elim: is_mapped_less\<close>)
  moreover have "m (d + ?n) \<noteq> None" using room(1) by (auto simp: is_mapped_def simp del: is_mapped_Suc)
  then have "filled d xs m (d + ?n) \<noteq> None" by (rule filled_mapped)
  ultimately show ?thesis using f b(5) by (simp add: match_run_def st_def filled_append filled_one)
qed

text \<open>
  C38. A directive \<^verbatim>\<open>%[...]\<close> stores the longest prefix of the input that consists of characters of the set, with a
  terminating zero, but never leaves the state of reading a set: whatever directives follow it, as long as they contain no further closing
  bracket, are taken for characters of the set, so that \<^verbatim>\<open>vsscanf\<close> returns 1 and stores nothing else.
\<close>

theorem match_set_swallows_format:
  assumes "cstring m fmt ([37, 91] @ cs @ [93] @ rest)" and "cs \<noteq> []" "hd cs \<noteq> 94" "45 \<notin> set cs" "93 \<notin> set cs" and "93 \<notin> set rest"
    and "cstring m buffer (xs @ ys)" and "xs \<noteq> []" "set xs \<subseteq> set cs" "ys = [] \<or> hd ys \<notin> set cs"
    and "d \<noteq> 0" "is_mapped m (unat d) (Suc (length xs))" and "apart_ranges (unat d) (Suc (length xs)) buffer (Suc (length (xs @ ys)))"
    and "apart_ranges (unat d) (Suc (length xs)) fmt (4 + length cs + length rest)"
  shows "vsscanf buffer fmt (d # as) m = Some (1, filled (unat d) (xs @ [0]) m)"
proof -
  let ?f = "scan_start buffer fmt (d # as)" and ?m = "filled (unat d) (xs @ [0]) m"
  obtain c cs' where c: "cs = c # cs'" "c \<noteq> 94" using assms(2,3) by (cases cs) auto
  have fm: "bytes_at m fmt (37 # 91 # cs)" "bytes_at m (fmt + length (37 # 91 # cs)) [93]"
      "bytes_at m (fmt + Suc (length (37 # 91 # cs))) (rest @ [0])" and nz: "0 \<notin> set cs"
    using assms(1) by (simp_all add: cstring_def)
  from match_directive [of m ?f cs d as c cs' buffer] fm(1) c nz assms(4,5) obtain f1 where
    f1: "vsscanf_loop buffer ?f m = vsscanf_loop buffer f1 m" "sc_p f1 = fmt + length (37 # 91 # cs)" "sc_st f1 = st_match"
      "sc_matchmap f1 = class_map cs" "sc_q f1 = buffer" "sc_bail f1 = bail_none"
      "sc_sarg f1 = unat d" "sc_width f1 \<noteq> 0" "sc_matchinv f1 = 0" "sc_converted f1 = 0"
    by (auto simp: scan_start_def class_map_def)
  obtain y zs where y: "ys @ [0] = y # zs" "y = 0 \<or> y \<notin> set cs" using assms(10) by (cases ys) auto
  have bxs: "bytes_at m buffer ((xs @ ys) @ [0])" "0 \<notin> set xs" using assms(7) by (simp_all add: cstring_def)
  have b: "bytes_at m buffer (xs @ [y])" using bxs(1) by (simp only: append_assoc y(1)) simp
  define f0 where "f0 = f1\<lparr>sc_p := Suc (sc_p f1)\<rparr>"
  define f2 where "f2 = at_end y (count_conversion f0\<lparr>sc_sarg := unat d + length xs, sc_q := sc_q f0 + length xs\<rparr>)"
  have "match_run f0 m = Some (f2, ?m)" unfolding f2_def
    by (rule match_run_stores [where cs = cs])
      (use f1 b bxs(2) y(2) assms(8,9,11,12,13) in \<open>auto simp: f0_def unat_eq_0 apart_ranges_def\<close>)
  then have 1: "vsscanf_loop buffer f1 m = vsscanf_loop buffer f2 ?m"
    using fm(2) f1 by (subst vsscanf_loop.simps) (simp add: scan_step_def scan_match_def f0_def)
  have "bytes_at ?m (fmt + Suc (length (37 # 91 # cs))) (rest @ [0]) = bytes_at m (fmt + Suc (length (37 # 91 # cs))) (rest @ [0])"
    by (rule bytes_at_cong) (use assms(14) in \<open>auto simp: filled_def apart_ranges_def\<close>)
  then have "bytes_at ?m (sc_p f2) (rest @ [0])" "sc_st f2 \<in> {st_match, st_match_range}"
    using fm(3) f1 by (simp_all add: f2_def f0_def at_end_def count_conversion_def)
  from match_swallows [OF this(1) assms(6) this(2), of buffer] obtain f3 where
    "vsscanf_loop buffer f2 ?m = Some (f3, ?m)" "sc_converted f3 = 1"
    using f1 by (auto simp: f2_def f0_def at_end_def count_conversion_def)
  then show ?thesis using f1(1) 1 by (simp add: vsscanf_def)
qed

theorem match_set_swallows_format_witness:
  "vsscanf 10 20 [30, 40] [10 \<mapsto> 97, 11 \<mapsto> 55, 12 \<mapsto> 0, 20 \<mapsto> 37, 21 \<mapsto> 91, 22 \<mapsto> 97, 23 \<mapsto> 93, 24 \<mapsto> 37, 25 \<mapsto> 100, 26 \<mapsto> 0,
     30 \<mapsto> 9, 31 \<mapsto> 9] = Some (1, [10 \<mapsto> 97, 11 \<mapsto> 55, 12 \<mapsto> 0, 20 \<mapsto> 37, 21 \<mapsto> 91, 22 \<mapsto> 97, 23 \<mapsto> 93, 24 \<mapsto> 37, 25 \<mapsto> 100, 26 \<mapsto> 0,
     30 \<mapsto> 97, 31 \<mapsto> 0])"
proof -
  let ?m = "[10 \<mapsto> 97, 11 \<mapsto> 55, 12 \<mapsto> 0, 20 \<mapsto> 37, 21 \<mapsto> 91, 22 \<mapsto> 97, 23 \<mapsto> 93, 24 \<mapsto> 37, 25 \<mapsto> 100, 26 \<mapsto> 0, 30 \<mapsto> 9, 31 \<mapsto> 9] :: cmem"
  have "vsscanf 10 20 [30, 40] ?m = Some (1, filled 30 ([97] @ [0]) ?m)"
    using match_set_swallows_format [of ?m 20 "[97]" "[37, 100]" 10 "[97]" "[55]" 30 "[40]"]
    by (simp add: cstring_def apart_ranges_def)
  moreover have "filled 30 ([97] @ [0]) ?m = ?m(30 \<mapsto> 97, 31 \<mapsto> 0)" by (simp add: filled_step [symmetric] filled_one del: fun_upd_apply)
  ultimately show ?thesis by simp
qed

end
