(* ===== verification/User_Memory.thy ===== *)
theory User_Memory
  imports Scheduling
begin

text \<open>
  The memory of user processes: growing the stack on a page fault (\<^verbatim>\<open>growStack\<close>, \<^verbatim>\<open>MemoryTrapHandler\<close>),
  moving the break (\<^verbatim>\<open>Brk\<close>), and the check of user buffers (\<^verbatim>\<open>CheckBuffer\<close>).
\<close>

section \<open>Fresh pages in a region 1 table\<close>

definition user_grown :: "kmem \<Rightarrow> addr \<Rightarrow> pte list \<Rightarrow> nat set \<Rightarrow> kmem \<Rightarrow> bool" where
  "user_grown m tb T V t \<longleftrightarrow> mem_wf t \<and> (\<exists>T'.
     t = m\<lparr>frame_table := frame_table t, free_nframes := free_nframes t, pts := (pts m)(tb \<mapsto> T')\<rparr> \<and>
     fresh_pages (free_frames m) (free_frames t) T T' V (PROT_READ OR PROT_WRITE))"

lemma user_grown_start: "mem_wf m \<Longrightarrow> pts m tb = Some T \<Longrightarrow> user_grown m tb T {} m"
  unfolding user_grown_def by (intro conjI exI [of _ T]) (auto simp: fun_upd_idem intro!: kmem_eqI)

lemma user_grown_step:
  assumes inv: "user_grown m tb T V t" and tb: "tb \<noteq> 0" and v: "v < length T" "v \<notin> V" and fr: "free_frames t \<noteq> {}"
  shows "\<exists>t'. bnd (allocFrame FRAME_USER own) (\<lambda>f. if f = -1 then k
      else thn (upd_pte tb (int v) (\<lambda>e. e\<lparr>valid := True, pfn := to_pfn f, prot := PROT_READ OR PROT_WRITE\<rparr>)) c) t = c t' \<and>
    user_grown m tb T (insert v V) t' \<and> card (free_frames t) = Suc (card (free_frames t'))"
proof -
  from inv obtain T' where wf: "mem_wf t"
    and eq: "t = m\<lparr>frame_table := frame_table t, free_nframes := free_nframes t, pts := (pts m)(tb \<mapsto> T')\<rparr>"
    and fp: "fresh_pages (free_frames m) (free_frames t) T T' V (PROT_READ OR PROT_WRITE)"
    unfolding user_grown_def by blast
  let ?d = "least_free t"
  let ?e = "\<lparr>valid = True, prot = PROT_READ OR PROT_WRITE, pfn = to_pfn (int ?d)\<rparr>"
  let ?t = "(take_frame FRAME_USER ?d t)\<lparr>pts := (pts t)(tb \<mapsto> T'[v := ?e])\<rparr>"
  have d: "?d \<in> free_frames t" using fr by (rule least_free_in)
  have d24: "?d < 2 ^ 24" using free_frames_bound [OF d] wf by (simp add: mem_wf_def frames_wf_def)
  have p: "pts t tb = Some T'" by (subst eq) simp
  have len: "length T' = length T" using fp by (simp add: fresh_pages_def)
  have e: "(T' ! v)\<lparr>valid := True, pfn := to_pfn (int ?d), prot := PROT_READ OR PROT_WRITE\<rparr> = ?e" by simp
  have fw: "frames_wf t" using wf by (simp add: mem_wf_def)
  have run: "bnd (allocFrame FRAME_USER own) (\<lambda>f. if f = -1 then k
      else thn (upd_pte tb (int v) (\<lambda>e. e\<lparr>valid := True, pfn := to_pfn f, prot := PROT_READ OR PROT_WRITE\<rparr>)) c) t = c ?t"
    using allocFrame_some [OF fw fr, of FRAME_USER own] p tb v len e by (simp add: prog_simps upd_pte_eval)
  have ft: "free_frames ?t = free_frames t - {?d}" using wf by (simp add: free_take_wf)
  have "mem_wf ?t" using wf d by (simp add: mem_wf_take)
  moreover have "?t = m\<lparr>frame_table := frame_table ?t, free_nframes := free_nframes ?t, pts := (pts m)(tb \<mapsto> T'[v := ?e])\<rparr>"
    by (subst eq, subst (3) eq) (simp add: take_frame_def)
  moreover have "fresh_pages (free_frames m) (free_frames ?t) T (T'[v := ?e]) (insert v V) (PROT_READ OR PROT_WRITE)"
    unfolding ft by (rule fresh_pages_step [OF fp v d d24 finite_free])
  ultimately have "user_grown m tb T (insert v V) ?t" unfolding user_grown_def by blast
  moreover have "card (free_frames t) = Suc (card (free_frames ?t))"
    unfolding ft using card_Suc_Diff1 [OF finite_free d] by simp
  ultimately show ?thesis using run by blast
qed

lemma user_grown_card: "user_grown m tb T V t \<Longrightarrow> card (free_frames t) + card V = card (free_frames m)"
  by (auto simp: user_grown_def fresh_pages_def)

lemma fresh_pages_image:
  assumes "fresh_pages F F' T T' V p" and "finite F"
  shows "(\<lambda>v. frame_of (T' ! v)) ` V = F - F'"
proof -
  let ?f = "\<lambda>v. frame_of (T' ! v)"
  have inj: "inj_on ?f V" and card: "card F' + card V = card F" and sub: "F' \<subseteq> F"
    using assms by (simp_all add: fresh_pages_def)
  have "?f ` V \<subseteq> F - F'" using fresh_pages_page [OF assms(1)] by auto
  moreover have "card (?f ` V) = card (F - F')"
    using card_image [OF inj] card card_Diff_subset [of F' F] sub assms(2) finite_subset by fastforce
  ultimately show ?thesis using assms(2) by (intro card_subset_eq) simp_all
qed

section \<open>Growing the stack\<close>

lemma growStack_pages_ok:
  assumes m: "mem_wf m" and tb: "tb \<noteq> 0" "pts m tb = Some T" and n: "target + n \<le> length T" and fr: "n \<le> card (free_frames m)"
  shows "\<exists>t. growStack_pages tb own (int target) (int n) m = Ret True t \<and> user_grown m tb T {target..<target + n} t"
proof -
  let ?body = "\<lambda>i. bnd (allocFrame FRAME_USER own) (\<lambda>f.
       if f = -1 then thn (growStack_undo tb (int target) i) (ret (Some ()))
       else thn (upd_pte tb (int target + int i) (\<lambda>e. e\<lparr>valid := True, pfn := to_pfn f,
                                                      prot := PROT_READ OR PROT_WRITE\<rparr>)) (ret None))"
  let ?P = "\<lambda>i t. user_grown m tb T {target..<target + i} t"
  have step: "(\<exists>t'. ?body i t = Ret None t' \<and> ?P (Suc i) t') \<or> (\<exists>r t'. ?body i t = Ret (Some r) t' \<and> False)"
    if i: "i < n" and P: "?P i t" for i t
  proof -
    have "card (free_frames t) + i = card (free_frames m)" using user_grown_card [OF P] by simp
    then have "free_frames t \<noteq> {}" using i fr by auto
    from user_grown_step [OF P tb(1) _ _ this, of "target + i" own "thn (growStack_undo tb (int target) i) (ret (Some ()))" "ret None", unfolded of_nat_add]
      i n obtain t' where "?body i t = ret None t'" "user_grown m tb T (insert (target + i) {target..<target + i}) t'"
      by auto
    moreover have "insert (target + i) {target..<target + i} = {target..<target + Suc i}" by auto
    ultimately show ?thesis by (simp add: prog_simps)
  qed
  have "(\<exists>t. for_ret 0 n ?body m = Ret None t \<and> ?P n t) \<or> (\<exists>r t. for_ret 0 n ?body m = Ret (Some r) t \<and> False)"
    by (rule for_ret_rule [where P = ?P]) (use user_grown_start [OF m tb(2)] step in auto)
  then show ?thesis by (auto simp: growStack_pages_def prog_simps)
qed


text \<open>Giving the pages back: the pool is what it was, the pages are not mapped.\<close>

definition rolled_back :: "kmem \<Rightarrow> addr \<Rightarrow> pte list \<Rightarrow> nat set \<Rightarrow> kmem \<Rightarrow> bool" where
  "rolled_back m tb T V t \<longleftrightarrow> mem_wf t \<and> free_frames t = free_frames m \<and> (\<exists>T'.
     t = m\<lparr>frame_table := frame_table t, free_nframes := free_nframes t, pts := (pts m)(tb \<mapsto> T')\<rparr> \<and>
     length T' = length T \<and> (\<forall>v < length T. if v \<in> V then \<not> valid (T' ! v) else T' ! v = T ! v))"

definition undo_inv :: "kmem \<Rightarrow> addr \<Rightarrow> nat set \<Rightarrow> pte list \<Rightarrow> nat \<Rightarrow> nat \<Rightarrow> kmem \<Rightarrow> bool" where
  "undo_inv m tb F T' a j u \<longleftrightarrow> mem_wf u \<and> free_frames u = F \<union> (\<lambda>v. frame_of (T' ! v)) ` {a..<a + j} \<and> (\<exists>U.
     u = m\<lparr>frame_table := frame_table u, free_nframes := free_nframes u, pts := (pts m)(tb \<mapsto> U)\<rparr> \<and>
     length U = length T' \<and> (\<forall>v < length T'. U ! v = (if v \<in> {a..<a + j} then (T' ! v)\<lparr>valid := False\<rparr> else T' ! v)))"

lemma undo_step:
  assumes inv: "undo_inv m tb F T' a j u" and tb: "tb \<noteq> 0" and j: "j < n" "a + n \<le> length T'"
    and fr: "inj_on (\<lambda>v. frame_of (T' ! v)) {a..<a + n}" "\<forall>v \<in> {a..<a + n}. frame_of (T' ! v) \<notin> F \<and> frame_of (T' ! v) < nframes m"
  shows "\<exists>u'. bnd (get_pte tb (int a + int j)) (\<lambda>e. thn (freeFrame (int (unat (pfn e))))
      (upd_pte tb (int a + int j) (\<lambda>e. e\<lparr>valid := False\<rparr>))) u = Ret () u' \<and> undo_inv m tb F T' a (Suc j) u'"
proof -
  from inv obtain U where wf: "mem_wf u" and fu: "free_frames u = F \<union> (\<lambda>v. frame_of (T' ! v)) ` {a..<a + j}"
    and eq: "u = m\<lparr>frame_table := frame_table u, free_nframes := free_nframes u, pts := (pts m)(tb \<mapsto> U)\<rparr>"
    and len: "length U = length T'" and U: "\<forall>v < length T'. U ! v = (if v \<in> {a..<a + j} then (T' ! v)\<lparr>valid := False\<rparr> else T' ! v)"
    unfolding undo_inv_def by blast
  let ?v = "a + j" and ?f = "frame_of (T' ! (a + j))"
  let ?u = "(give_frame ?f u)\<lparr>pts := (pts u)(tb \<mapsto> U[?v := (U ! ?v)\<lparr>valid := False\<rparr>])\<rparr>"
  have p: "pts u tb = Some U" and nf: "nframes u = nframes m" by (subst eq, simp)+
  have Uv: "U ! ?v = T' ! ?v" using U j by simp
  have fb: "?f < nframes u" using fr(2) j nf by simp
  have notin: "?f \<notin> free_frames u"
    unfolding fu using fr j by (auto dest!: inj_onD [where x = "a + j"])
  have fw: "frames_wf u" using wf by (simp add: mem_wf_def)
  have iv: "nat (int a + int j) = ?v" by simp
  have run: "bnd (get_pte tb (int a + int j)) (\<lambda>e. thn (freeFrame (int (unat (pfn e))))
      (upd_pte tb (int a + int j) (\<lambda>e. e\<lparr>valid := False\<rparr>))) u = Ret () ?u"
    using p tb j len freeFrame_eval [OF fw, of "int ?f"] fb Uv
    by (simp add: prog_simps get_pte_eval upd_pte_eval iv frame_of_def)
  have gf: "free_frames ?u = insert ?f (free_frames u)"
    using fw fb by (simp add: free_give frames_wf_def)
  have "{a..<a + Suc j} = insert ?v {a..<a + j}" by auto
  then have "free_frames ?u = F \<union> (\<lambda>v. frame_of (T' ! v)) ` {a..<a + Suc j}" using gf fu by simp
  moreover have "mem_wf ?u" using mem_wf_give [OF wf notin fb] by simp
  moreover have "?u = m\<lparr>frame_table := frame_table ?u, free_nframes := free_nframes ?u,
      pts := (pts m)(tb \<mapsto> U[?v := (U ! ?v)\<lparr>valid := False\<rparr>])\<rparr>"
    by (subst eq, subst (3) eq) (simp add: give_frame_def)
  moreover have "\<forall>v < length T'. U[?v := (U ! ?v)\<lparr>valid := False\<rparr>] ! v =
      (if v \<in> {a..<a + Suc j} then (T' ! v)\<lparr>valid := False\<rparr> else T' ! v)"
  proof (intro allI impI)
    fix v assume "v < length T'"
    then show "U[?v := (U ! ?v)\<lparr>valid := False\<rparr>] ! v = (if v \<in> {a..<a + Suc j} then (T' ! v)\<lparr>valid := False\<rparr> else T' ! v)"
      using U len Uv by (cases "v = ?v") auto
  qed
  moreover have "length (U[?v := (U ! ?v)\<lparr>valid := False\<rparr>]) = length T'" using len by simp
  ultimately have "undo_inv m tb F T' a (Suc j) ?u" unfolding undo_inv_def by blast
  with run show ?thesis by blast
qed

lemma growStack_undo_ok:
  assumes g: "user_grown m tb T {a..<a + i} t" and tb: "tb \<noteq> 0" and i: "a + i \<le> length T"
  shows "\<exists>u. growStack_undo tb (int a) i t = Ret () u \<and> rolled_back m tb T {a..<a + i} u"
proof -
  from g obtain T' where wf: "mem_wf t"
    and eq: "t = m\<lparr>frame_table := frame_table t, free_nframes := free_nframes t, pts := (pts m)(tb \<mapsto> T')\<rparr>"
    and fp: "fresh_pages (free_frames m) (free_frames t) T T' {a..<a + i} (PROT_READ OR PROT_WRITE)"
    unfolding user_grown_def by blast
  let ?P = "undo_inv m tb (free_frames t) T' a"
  have len: "length T' = length T" and inj: "inj_on (\<lambda>v. frame_of (T' ! v)) {a..<a + i}" and sub: "free_frames t \<subseteq> free_frames m"
    using fp by (simp_all add: fresh_pages_def)
  have fr: "\<forall>v \<in> {a..<a + i}. frame_of (T' ! v) \<notin> free_frames t \<and> frame_of (T' ! v) < nframes m"
    using fresh_pages_page [OF fp] free_frames_bound by blast
  have start: "?P 0 t" unfolding undo_inv_def using wf eq by auto
  have "\<exists>u. growStack_undo tb (int a) i t = Ret () u \<and> ?P i u"
    unfolding growStack_undo_def
    by (rule for_do_rule [where P = ?P, OF _ start]) (use undo_step [OF _ tb _ _ inj fr] len i in auto)
  then obtain u where u: "growStack_undo tb (int a) i t = Ret () u" "?P i u" by blast
  from u(2) obtain U where U: "mem_wf u" "free_frames u = free_frames t \<union> (\<lambda>v. frame_of (T' ! v)) ` {a..<a + i}"
    "u = m\<lparr>frame_table := frame_table u, free_nframes := free_nframes u, pts := (pts m)(tb \<mapsto> U)\<rparr>" "length U = length T"
    "\<forall>v < length T. U ! v = (if v \<in> {a..<a + i} then (T' ! v)\<lparr>valid := False\<rparr> else T' ! v)"
    unfolding undo_inv_def len by blast
  have "free_frames u = free_frames m" using U(2) fresh_pages_image [OF fp finite_free] sub by auto
  moreover have "\<forall>v < length T. if v \<in> {a..<a + i} then \<not> valid (U ! v) else U ! v = T ! v"
    using U(5) fresh_pages_other [OF fp] by simp
  ultimately have "rolled_back m tb T {a..<a + i} u" unfolding rolled_back_def using U(1,3,4) by blast
  with u show ?thesis by blast
qed

lemma growStack_pages_fails:
  assumes m: "mem_wf m" and tb: "tb \<noteq> 0" "pts m tb = Some T" and n: "target + n \<le> length T" and fr: "card (free_frames m) < n"
  shows "\<exists>t. growStack_pages tb own (int target) (int n) m = Ret False t \<and>
    rolled_back m tb T {target..<target + card (free_frames m)} t"
proof -
  let ?body = "\<lambda>i. bnd (allocFrame FRAME_USER own) (\<lambda>f.
       if f = -1 then thn (growStack_undo tb (int target) i) (ret (Some ()))
       else thn (upd_pte tb (int target + int i) (\<lambda>e. e\<lparr>valid := True, pfn := to_pfn f,
                                                      prot := PROT_READ OR PROT_WRITE\<rparr>)) (ret None))"
  let ?P = "\<lambda>i t. user_grown m tb T {target..<target + i} t"
  let ?Q = "\<lambda>_ t. rolled_back m tb T {target..<target + card (free_frames m)} t"
  have step: "(\<exists>t'. ?body i t = Ret None t' \<and> ?P (Suc i) t') \<or> (\<exists>r t'. ?body i t = Ret (Some r) t' \<and> ?Q r t')"
    if i: "i < n" and P: "?P i t" for i t
  proof (cases "free_frames t = {}")
    case True
    then have ci: "card (free_frames m) = i" using user_grown_card [OF P] by simp
    have fw: "frames_wf t" using P by (simp add: user_grown_def mem_wf_def)
    from growStack_undo_ok [OF P tb(1)] i n obtain u where
      "growStack_undo tb (int target) i t = Ret () u" "rolled_back m tb T {target..<target + i} u" by auto
    then show ?thesis using allocFrame_none [OF fw True, of FRAME_USER own] ci by (simp add: prog_simps)
  next
    case False
    from user_grown_step [OF P tb(1) _ _ False, of "target + i" own "thn (growStack_undo tb (int target) i) (ret (Some ()))" "ret None",
        unfolded of_nat_add]
      i n obtain t' where "?body i t = ret None t'" "user_grown m tb T (insert (target + i) {target..<target + i}) t'" by auto
    moreover have "insert (target + i) {target..<target + i} = {target..<target + Suc i}" by auto
    ultimately show ?thesis by (simp add: prog_simps)
  qed
  have "(\<exists>t. for_ret 0 n ?body m = Ret None t \<and> ?P n t) \<or> (\<exists>r t. for_ret 0 n ?body m = Ret (Some r) t \<and> ?Q r t)"
    by (rule for_ret_rule [where P = ?P]) (use user_grown_start [OF m tb(2)] step in auto)
  moreover have "\<not> ?P n t" for t using user_grown_card [of m tb T "{target..<target + n}" t] fr by auto
  ultimately show ?thesis by (auto simp: growStack_pages_def prog_simps)
qed


section \<open>Addresses of region 1\<close>

lemma region1_vpn:
  assumes "VMEM_1_BASE \<le> a" and "a \<le> VMEM_1_LIMIT"
  shows "vpn_of (DOWN_TO_PAGE a - VMEM_1_BASE) + MAX_PT_LEN = vpn_of a" "vpn_of a \<le> 2 * MAX_PT_LEN"
proof -
  have a: "1048576 \<le> unat a" "unat a \<le> 2097152" using assms by (simp_all add: word_le_nat_alt VMEM_1_BASE_def VMEM_1_LIMIT_def)
  have d: "unat (DOWN_TO_PAGE a) = unat a div 8192 * 8192" by (rule DOWN_TO_PAGE_unat)
  have ge: "128 \<le> unat a div 8192" "unat a div 8192 \<le> 256" using a by simp_all
  have "VMEM_1_BASE \<le> DOWN_TO_PAGE a" using d ge by (simp add: word_le_nat_alt VMEM_1_BASE_def)
  then have "unat (DOWN_TO_PAGE a - VMEM_1_BASE) = unat a div 8192 * 8192 - 1048576"
    using d by (simp add: unat_sub VMEM_1_BASE_def)
  also have "\<dots> = (unat a div 8192 - 128) * 8192" by (simp add: algebra_simps)
  finally have "vpn_of (DOWN_TO_PAGE a - VMEM_1_BASE) = unat a div 8192 - 128" by (simp add: vpn_of_div)
  then show "vpn_of (DOWN_TO_PAGE a - VMEM_1_BASE) + MAX_PT_LEN = vpn_of a" "vpn_of a \<le> 2 * MAX_PT_LEN"
    using ge by (simp_all add: vpn_of_div MAX_PT_LEN_def)
qed

lemma DOWN_TO_PAGE_vpn_less: "a < DOWN_TO_PAGE b \<Longrightarrow> vpn_of a < vpn_of b"
  by (simp add: word_less_nat_alt vpn_of_div DOWN_TO_PAGE_unat div_less_iff_less_mult)

text \<open>The current process, with its region 1 table.\<close>

definition user_proc :: "kstate \<Rightarrow> PCB \<Rightarrow> pte list \<Rightarrow> bool" where
  "user_proc s b T \<longleftrightarrow> current_process s \<noteq> 0 \<and> pcbs s (current_process s) = Some b \<and> mem_wf (km s) \<and>
     ptbr b \<noteq> 0 \<and> pts (km s) (ptbr b) = Some T \<and> length T = MAX_PT_LEN \<and> user_stack_base_vaddr b \<le> VMEM_1_LIMIT"

text \<open>The pages between the faulting address and the present end of the stack.\<close>

definition stack_gap :: "word32 \<Rightarrow> PCB \<Rightarrow> nat set" where
  "stack_gap a b = {vpn_of a - MAX_PT_LEN..<vpn_of (user_stack_base_vaddr b) - MAX_PT_LEN}"

lemma growStack_split:
  assumes u: "user_proc s b T" and a: "VMEM_1_BASE \<le> a" "a < DOWN_TO_PAGE (user_stack_base_vaddr b)"
  obtains target n where "stack_gap a b = {target..<target + n}" "target + n \<le> length T" "0 < n" "target + MAX_PT_LEN = vpn_of a"
    "growStack a s = bnd (on_mem (growStack_pages (ptbr b) (pid b) (int target) (int n))) (\<lambda>ok.
        if \<not> ok then ret KILL
        else thn (upd_pcb (current_process s) (\<lambda>b. b\<lparr>user_stack_base_vaddr := DOWN_TO_PAGE a\<rparr>)) (ret SUCCESS)) s"
proof -
  let ?sb = "user_stack_base_vaddr b"
  have sb: "?sb \<le> VMEM_1_LIMIT" using u by (simp add: user_proc_def)
  have lt: "vpn_of a < vpn_of ?sb" using DOWN_TO_PAGE_vpn_less [OF a(2)] .
  have "DOWN_TO_PAGE ?sb \<le> ?sb" by (simp add: word_le_nat_alt DOWN_TO_PAGE_unat)
  then have le: "a \<le> VMEM_1_LIMIT" "VMEM_1_BASE \<le> ?sb" using a sb by order+
  note va = region1_vpn [OF a(1) le(1)] and vs = region1_vpn [OF le(2) sb]
  let ?t = "vpn_of a - MAX_PT_LEN" and ?n = "vpn_of ?sb - vpn_of a"
  have ge: "MAX_PT_LEN \<le> vpn_of a" using va(1) by linarith
  have 1: "int (vpn_of (DOWN_TO_PAGE a - VMEM_1_BASE)) = int ?t" using va(1) by linarith
  have 2: "int (vpn_of (DOWN_TO_PAGE ?sb - VMEM_1_BASE)) - int ?t = int ?n" using vs(1) ge lt by linarith
  have g: "growStack a s = bnd (on_mem (growStack_pages (ptbr b) (pid b) (int ?t) (int ?n))) (\<lambda>ok.
        if \<not> ok then ret KILL
        else thn (upd_pcb (current_process s) (\<lambda>b. b\<lparr>user_stack_base_vaddr := DOWN_TO_PAGE a\<rparr>)) (ret SUCCESS)) s"
    using u unfolding growStack_def Let_def 1 2 by (simp add: user_proc_def prog_simps 2)
  show thesis
    by (rule that [OF _ _ _ _ g]) (use u ge lt vs in \<open>auto simp: stack_gap_def user_proc_def\<close>)
qed

lemma growStack_maps:
  assumes u: "user_proc s b T" and a: "VMEM_1_BASE \<le> a" "a < DOWN_TO_PAGE (user_stack_base_vaddr b)"
    and fr: "card (stack_gap a b) \<le> card (free_frames (km s))"
  shows "\<exists>m. growStack a s = Ret SUCCESS (s\<lparr>km := m, pcbs := (pcbs s)(current_process s \<mapsto>
      b\<lparr>user_stack_base_vaddr := DOWN_TO_PAGE a\<rparr>)\<rparr>) \<and> user_grown (km s) (ptbr b) T (stack_gap a b) m"
proof -
  from growStack_split [OF u a] obtain target n where
    g: "stack_gap a b = {target..<target + n}" "target + n \<le> length T"
      "growStack a s = bnd (on_mem (growStack_pages (ptbr b) (pid b) (int target) (int n))) (\<lambda>ok.
        if \<not> ok then ret KILL
        else thn (upd_pcb (current_process s) (\<lambda>b. b\<lparr>user_stack_base_vaddr := DOWN_TO_PAGE a\<rparr>)) (ret SUCCESS)) s" by metis
  from growStack_pages_ok [of "km s" "ptbr b" T target n "pid b"] u g fr obtain m where
    "growStack_pages (ptbr b) (pid b) (int target) (int n) (km s) = Ret True m" "user_grown (km s) (ptbr b) T (stack_gap a b) m"
    by (auto simp: user_proc_def)
  then show ?thesis using u g(3) by (intro exI [of _ m]) (simp add: user_proc_def prog_simps)
qed

lemma growStack_kills:
  assumes u: "user_proc s b T" and a: "VMEM_1_BASE \<le> a" "a < DOWN_TO_PAGE (user_stack_base_vaddr b)"
    and fr: "card (free_frames (km s)) < card (stack_gap a b)"
  shows "\<exists>m V. growStack a s = Ret KILL (s\<lparr>km := m\<rparr>) \<and> V \<subseteq> stack_gap a b \<and> rolled_back (km s) (ptbr b) T V m"
proof -
  from growStack_split [OF u a] obtain target n where
    g: "stack_gap a b = {target..<target + n}" "target + n \<le> length T"
      "growStack a s = bnd (on_mem (growStack_pages (ptbr b) (pid b) (int target) (int n))) (\<lambda>ok.
        if \<not> ok then ret KILL
        else thn (upd_pcb (current_process s) (\<lambda>b. b\<lparr>user_stack_base_vaddr := DOWN_TO_PAGE a\<rparr>)) (ret SUCCESS)) s" by metis
  from growStack_pages_fails [of "km s" "ptbr b" T target n "pid b"] u g fr obtain m where
    "growStack_pages (ptbr b) (pid b) (int target) (int n) (km s) = Ret False m"
    "rolled_back (km s) (ptbr b) T {target..<target + card (free_frames (km s))} m" by (auto simp: user_proc_def)
  moreover have "{target..<target + card (free_frames (km s))} \<subseteq> stack_gap a b" using g fr by auto
  ultimately show ?thesis using g(3) by (auto simp: prog_simps)
qed


section \<open>Moving the break\<close>

lemma Brk_grow_ok:
  "user_grown m tb T V t \<Longrightarrow> tb \<noteq> 0 \<Longrightarrow> vpn + k = target \<Longrightarrow> target \<le> length T \<Longrightarrow> V \<subseteq> {..<vpn} \<Longrightarrow>
   card {v. vpn \<le> v \<and> v < target \<and> \<not> valid (T ! v)} \<le> card (free_frames t) \<Longrightarrow>
   \<exists>t'. Brk_grow k tb own vpn target t = Ret True t' \<and>
     user_grown m tb T (V \<union> {v. vpn \<le> v \<and> v < target \<and> \<not> valid (T ! v)}) t'"
proof (induction k arbitrary: vpn V t)
  case 0
  then have e: "V \<union> {v. vpn \<le> v \<and> v < target \<and> \<not> valid (T ! v)} = V" by auto
  show ?case unfolding e using 0 by (simp add: prog_simps)
next
  case (Suc k)
  let ?H = "\<lambda>n. {v. n \<le> v \<and> v < target \<and> \<not> valid (T ! v)}"
  from Suc.prems(1) obtain T' where
    eq: "t = m\<lparr>frame_table := frame_table t, free_nframes := free_nframes t, pts := (pts m)(tb \<mapsto> T')\<rparr>"
    and fp: "fresh_pages (free_frames m) (free_frames t) T T' V (PROT_READ OR PROT_WRITE)" unfolding user_grown_def by blast
  have p: "pts t tb = Some T'" by (subst eq) simp
  have len: "length T' = length T" using fp by (simp add: fresh_pages_def)
  have n: "vpn < target" "vpn < length T" "vpn \<notin> V" using Suc.prems by auto
  have Tv: "T' ! vpn = T ! vpn" by (rule fresh_pages_other [OF fp n(3,2)])
  have g: "get_pte tb (int vpn) t = Ret (T ! vpn) t" using p Suc.prems(2) n len Tv by (simp add: get_pte_eval)
  show ?case
  proof (cases "valid (T ! vpn)")
    case True
    have "?H vpn = ?H (Suc vpn)" using True by (auto simp: Suc_le_eq order.order_iff_strict)
    moreover have "V \<subseteq> {..<Suc vpn}" using Suc.prems(5) by auto
    ultimately show ?thesis
      using Suc.IH [OF Suc.prems(1,2) _ Suc.prems(4), of "Suc vpn"] Suc.prems n g True by (simp add: prog_simps)
  next
    case False
    have H: "?H vpn = insert vpn (?H (Suc vpn))" using False n by (auto simp: Suc_le_eq order.order_iff_strict)
    have "finite (?H (Suc vpn))" by simp
    then have c: "Suc (card (?H (Suc vpn))) \<le> card (free_frames t)" using Suc.prems(6) H by simp
    then have ne: "free_frames t \<noteq> {}" by auto
    from user_grown_step [OF Suc.prems(1,2) n(2,3) ne, of own "ret False" "Brk_grow k tb own (Suc vpn) target"] obtain t' where
      t': "bnd (allocFrame FRAME_USER own) (\<lambda>f. if f = -1 then ret False
         else thn (upd_pte tb (int vpn) (\<lambda>e. e\<lparr>valid := True, pfn := to_pfn f, prot := PROT_READ OR PROT_WRITE\<rparr>))
           (Brk_grow k tb own (Suc vpn) target)) t = Brk_grow k tb own (Suc vpn) target t'"
        "user_grown m tb T (insert vpn V) t'" "card (free_frames t) = Suc (card (free_frames t'))" by blast
    have comm: "(\<lambda>e :: pte. e\<lparr>pfn := to_pfn f, prot := PROT_READ OR PROT_WRITE, valid := True\<rparr>) =
        (\<lambda>e. e\<lparr>valid := True, pfn := to_pfn f, prot := PROT_READ OR PROT_WRITE\<rparr>)" for f by auto
    have "Brk_grow (Suc k) tb own vpn target t = bnd (allocFrame FRAME_USER own) (\<lambda>f. if f = -1 then ret False
         else thn (upd_pte tb (int vpn) (\<lambda>e. e\<lparr>pfn := to_pfn f, prot := PROT_READ OR PROT_WRITE, valid := True\<rparr>))
           (Brk_grow k tb own (Suc vpn) target)) t"
      using n g False by (simp add: bnd_app)
    then have "Brk_grow (Suc k) tb own vpn target t = Brk_grow k tb own (Suc vpn) target t'"
      using t'(1) by (simp only: comm)
    moreover have "V \<union> ?H vpn = insert vpn V \<union> ?H (Suc vpn)" using H by auto
    moreover have "insert vpn V \<subseteq> {..<Suc vpn}" using Suc.prems(5) by auto
    ultimately show ?thesis
      using Suc.IH [OF t'(2) Suc.prems(2) _ Suc.prems(4), of "Suc vpn"] Suc.prems(3) c t'(3) by simp
  qed
qed

text \<open>The loop that should give pages back passes over every page whose entry in the kernel's table is not valid.\<close>

lemma Brk_shrink_skips:
  "\<forall>v. w < v \<and> v \<le> vpn \<longrightarrow> \<not> valid (pt_region0 m ! v) \<Longrightarrow> vpn < length (pt_region0 m) \<Longrightarrow> target \<le> w \<Longrightarrow> w \<le> vpn \<Longrightarrow>
   Brk_shrink (fuel + (vpn - w)) tb vpn target m = Brk_shrink fuel tb w target m"
proof (induction "vpn - w" arbitrary: vpn)
  case (Suc k)
  then obtain v where v: "vpn = Suc v" "w \<le> v" "v - w = k" by (cases vpn) auto
  have e: "fuel + (Suc v - w) = Suc (fuel + (v - w))" using v by simp
  have nv: "\<not> valid (pt_region0 m ! Suc v)" "get_pte0 (Suc v) m = Ret (pt_region0 m ! Suc v) m"
    using Suc.prems v by (auto simp: get_pte0_def prog_simps)
  have "Brk_shrink (Suc (fuel + (v - w))) tb (Suc v) target m = Brk_shrink (fuel + (v - w)) tb v target m"
    using nv Suc.prems v by (simp add: prog_simps)
  then have "Brk_shrink (fuel + (vpn - w)) tb vpn target m = Brk_shrink (fuel + (v - w)) tb v target m"
    by (simp only: e v(1))
  also have "\<dots> = Brk_shrink fuel tb w target m"
    using Suc.hyps(1) [of v] Suc.prems v by auto
  finally show ?case .
qed simp

lemma freeFrame_total:
  "tables_ok m \<Longrightarrow> \<exists>t. freeFrame f m = Ret () t \<and> tables_ok t \<and> pt_region0 t = pt_region0 m \<and> pts t = pts m"
  by (auto simp: freeFrame_def valid_pfn_def prog_simps array_ops tables_ok_def)

lemma Brk_shrink_swings:
  assumes "target < v" and "Suc v < length T" and "tb \<noteq> 0"
    and "length (pt_region0 m) = MAX_PT_LEN" and "length T = MAX_PT_LEN" and "pts m tb = Some T" and "tables_ok m"
    and "valid (pt_region0 m ! v)" and "\<not> valid (pt_region0 m ! Suc v)"
  shows "Brk_shrink fuel tb v target m = Fault Diverges \<and> Brk_shrink fuel tb (Suc v) target m = Fault Diverges"
  using assms
proof (induction fuel arbitrary: T m)
  case 0
  then show ?case by (simp add: fail_def)
next
  case (Suc fuel)
  let ?e = "T ! v"
  from freeFrame_total [OF Suc.prems(7), of "int (unat (pfn ?e))"] obtain t where
    t: "freeFrame (int (unat (pfn ?e))) m = Ret () t" "tables_ok t" "pt_region0 t = pt_region0 m" "pts t = pts m" by blast
  let ?u = "write_register (REG_TLB_FLUSH (push_bit PAGESHIFT (of_nat v) + VMEM_1_BASE))
     (t\<lparr>pts := (pts t)(tb \<mapsto> T[v := ?e\<lparr>valid := False\<rparr>])\<rparr>)"
  have u: "pts ?u tb = Some (T[v := ?e\<lparr>valid := False\<rparr>])" "pt_region0 ?u = pt_region0 m" "tables_ok ?u"
    using t by simp_all
  have g: "get_pte0 v m = Ret (pt_region0 m ! v) m" "get_pte0 (Suc v) m = Ret (pt_region0 m ! Suc v) m"
    "get_pte tb (int v) m = Ret ?e m" using Suc.prems by (simp_all add: get_pte0_def get_pte_def prog_simps)
  have "upd_pte tb (int v) (\<lambda>e. e\<lparr>valid := False\<rparr>) t = Ret () (t\<lparr>pts := (pts t)(tb \<mapsto> T[v := ?e\<lparr>valid := False\<rparr>])\<rparr>)"
    using upd_pte_eval [of tb t T "int v"] Suc.prems t by simp
  then have "Brk_shrink (Suc fuel) tb v target m = Brk_shrink fuel tb (Suc v) target ?u"
    using g t(1) Suc.prems by (simp add: prog_simps WriteRegister_def)
  also have "\<dots> = Fault Diverges"
    using Suc.IH [of "T[v := ?e\<lparr>valid := False\<rparr>]" ?u] Suc.prems u by simp
  finally have 1: "Brk_shrink (Suc fuel) tb v target m = Fault Diverges" .
  have "Brk_shrink (Suc fuel) tb (Suc v) target m = Brk_shrink fuel tb v target m"
    using g Suc.prems by (simp add: prog_simps)
  also have "\<dots> = Fault Diverges" using Suc.IH [of T m] Suc.prems by blast
  finally show ?case using 1 by blast
qed


section \<open>Properties of the user memory\<close>

lemma kernel_ex_user: "user_proc kernel_ex ((pcb_ex 2 301)\<lparr>pstate := PROC_RUNNING, children_processes := 4\<rparr>)
    (the (pts kmem_ex 401))"
proof -
  have "mem_wf kmem_ex" using mem_ex_wf(1) [of 64 64] frames_wf_cong [of kmem_ex "mem_ex 64 64"]
    by (simp add: kmem_ex_def mem_wf_def frames_wf_def free_frames_def)
  then show ?thesis
    by (simp add: user_proc_def pcb_ex_def pcb0_def kmem_ex_def MAX_PT_LEN_def VMEM_1_LIMIT_def)
qed

lemma kernel_ex_free: "free_frames kmem_ex = {64..<128}"
  using mem_ex_free [of 64 64] by (simp add: kmem_ex_def free_frames_def)

text \<open>
  C7. A fault on an unmapped address between the heap and the stack grows the stack: when the pool can
  supply the missing pages the handler returns with every page from the address up to the old end of
  the stack mapped read-write to frames of its own that were free, nothing else in the table changed,
  and the access can be retried, since the address translates.
\<close>

theorem stack_fault_repaired:
  assumes u: "user_proc s b T" and c: "code (ctx s) = YALNIX_MAPERR" "VMEM_1_BASE \<le> uaddr (ctx s)"
      "UP_TO_PAGE (user_heap_end_vaddr b) < uaddr (ctx s)" "uaddr (ctx s) < DOWN_TO_PAGE (user_stack_base_vaddr b)"
    and fr: "card (stack_gap (uaddr (ctx s)) b) \<le> card (free_frames (km s))"
    and mmu: "reg_ptbr1 (km s) = ptbr b" "reg_ptlr1 (km s) = MAX_PT_LEN" "tlb (km s) (vpn_of (uaddr (ctx s))) = None"
  shows "\<exists>m. MemoryTrapHandler s = Ret () (s\<lparr>km := m, pcbs := (pcbs s)(current_process s \<mapsto>
      b\<lparr>user_stack_base_vaddr := DOWN_TO_PAGE (uaddr (ctx s))\<rparr>)\<rparr>) \<and>
    user_grown (km s) (ptbr b) T (stack_gap (uaddr (ctx s)) b) m \<and>
    (\<exists>e. translate m (vpn_of (uaddr (ctx s))) = Some e \<and> prot e = PROT_READ OR PROT_WRITE)"
proof -
  let ?a = "uaddr (ctx s)"
  from growStack_maps [OF u c(2,4) fr] obtain m where
    m: "growStack ?a s = Ret SUCCESS (s\<lparr>km := m, pcbs := (pcbs s)(current_process s \<mapsto>
      b\<lparr>user_stack_base_vaddr := DOWN_TO_PAGE ?a\<rparr>)\<rparr>)" "user_grown (km s) (ptbr b) T (stack_gap ?a b) m" by blast
  from m(2) obtain T' where
    eq: "m = (km s)\<lparr>frame_table := frame_table m, free_nframes := free_nframes m, pts := (pts (km s))(ptbr b \<mapsto> T')\<rparr>"
    and fp: "fresh_pages (free_frames (km s)) (free_frames m) T T' (stack_gap ?a b) (PROT_READ OR PROT_WRITE)"
    unfolding user_grown_def by blast
  from growStack_split [OF u c(2,4)] obtain target n where
    g: "stack_gap ?a b = {target..<target + n}" "target + n \<le> length T" "0 < n" "target + MAX_PT_LEN = vpn_of ?a" by metis
  have pg: "valid (T' ! target) \<and> prot (T' ! target) = PROT_READ OR PROT_WRITE"
    using fresh_pages_page [OF fp, of target] g by simp
  have "length T' = MAX_PT_LEN" using fp u by (simp add: fresh_pages_def user_proc_def)
  moreover have "vpn_of ?a - MAX_PT_LEN = target" "\<not> vpn_of ?a < MAX_PT_LEN" "target < length T" using g by linarith+
  ultimately have "pt_entry m (vpn_of ?a) = Some (T' ! target)"
    using pg u mmu by (subst eq) (simp add: pt_entry_def user_proc_def)
  moreover have "tlb m (vpn_of ?a) = None" by (subst eq) (simp add: mmu)
  ultimately have "translate m (vpn_of ?a) = Some (T' ! target)" by (simp add: translate_def)
  moreover have "MemoryTrapHandler s = Ret () (s\<lparr>km := m, pcbs := (pcbs s)(current_process s \<mapsto>
      b\<lparr>user_stack_base_vaddr := DOWN_TO_PAGE ?a\<rparr>)\<rparr>)"
    using u c m(1) by (simp add: MemoryTrapHandler_def user_proc_def prog_simps code_defs)
  ultimately show ?thesis using m(2) pg by blast
qed

theorem stack_fault_repaired_witness:
  "\<exists>m. MemoryTrapHandler (kernel_ex\<lparr>ctx := uctx0\<lparr>code := YALNIX_MAPERR, uaddr := 0x1F8010\<rparr>\<rparr>) = Ret () m \<and>
     translate (km m) 252 \<noteq> None"
proof -
  let ?b = "(pcb_ex 2 301)\<lparr>pstate := PROC_RUNNING, children_processes := 4\<rparr>" and ?c = "uctx0\<lparr>code := YALNIX_MAPERR, uaddr := 0x1F8010\<rparr>"
  let ?s = "kernel_ex\<lparr>ctx := ?c\<rparr>"
  have u: "user_proc ?s ?b (the (pts kmem_ex 401))" using kernel_ex_user by (simp add: user_proc_def)
  have v: "vpn_of 0x1F8010 = 252" "vpn_of 0x1FC000 = 254" by (simp_all add: vpn_of_div)
  have gap: "card (stack_gap (uaddr (ctx ?s)) ?b) = 2"
    by (simp add: stack_gap_def v MAX_PT_LEN_def)
  have "\<exists>m. MemoryTrapHandler ?s = Ret () (?s\<lparr>km := m, pcbs := (pcbs ?s)(current_process ?s \<mapsto>
      ?b\<lparr>user_stack_base_vaddr := DOWN_TO_PAGE (uaddr (ctx ?s))\<rparr>)\<rparr>) \<and>
    user_grown (km ?s) (ptbr ?b) (the (pts kmem_ex 401)) (stack_gap (uaddr (ctx ?s)) ?b) m \<and>
    (\<exists>e. translate m (vpn_of (uaddr (ctx ?s))) = Some e \<and> prot e = PROT_READ OR PROT_WRITE)"
    by (rule stack_fault_repaired [OF u])
       (use gap in \<open>simp_all add: kernel_ex_free VMEM_1_BASE_def UP_TO_PAGE_def DOWN_TO_PAGE_def\<close>)
  then show ?thesis using v by auto
qed

text \<open>
  C10. When the pool runs out while the stack grows, every frame taken so far is given back: the
  pool, the counter and all other pages are as before, the pages tried are unmapped, and the process
  is killed from that state.
\<close>

theorem stack_fault_rolls_back:
  assumes u: "user_proc s b T" and c: "code (ctx s) = YALNIX_MAPERR" "VMEM_1_BASE \<le> uaddr (ctx s)"
      "UP_TO_PAGE (user_heap_end_vaddr b) < uaddr (ctx s)" "uaddr (ctx s) < DOWN_TO_PAGE (user_stack_base_vaddr b)"
    and fr: "card (free_frames (km s)) < card (stack_gap (uaddr (ctx s)) b)"
  shows "\<exists>m V. MemoryTrapHandler s = Exit False ERROR (s\<lparr>km := m\<rparr>) \<and> V \<subseteq> stack_gap (uaddr (ctx s)) b \<and>
    rolled_back (km s) (ptbr b) T V m \<and> free_nframes m = free_nframes (km s)"
proof -
  let ?a = "uaddr (ctx s)"
  from growStack_kills [OF u c(2,4) fr] obtain m V where
    m: "growStack ?a s = Ret KILL (s\<lparr>km := m\<rparr>)" "V \<subseteq> stack_gap ?a b" "rolled_back (km s) (ptbr b) T V m" by blast
  have "MemoryTrapHandler s = Exit False ERROR (s\<lparr>km := m\<rparr>)"
    using u c m(1) by (simp add: MemoryTrapHandler_def user_proc_def prog_simps)
  moreover have "free_nframes m = free_nframes (km s)"
    using m(3) u by (simp add: rolled_back_def user_proc_def mem_wf_def frames_wf_def)
  ultimately show ?thesis using m by blast
qed

theorem stack_fault_rolls_back_witness:
  "\<exists>m V s. MemoryTrapHandler s = Exit False ERROR (s\<lparr>km := m\<rparr>) \<and> free_frames m = free_frames (km s) \<and>
     V \<subseteq> {70..<126} \<and> rolled_back (km s) 401 (the (pts kmem_ex 401)) V m"
proof -
  let ?b = "(pcb_ex 2 301)\<lparr>pstate := PROC_RUNNING, children_processes := 4\<rparr>" and ?c = "uctx0\<lparr>code := YALNIX_MAPERR, uaddr := 0x18C010\<rparr>"
  let ?m = "(mem_ex 64 3)\<lparr>pts := pts kmem_ex\<rparr>"
  let ?s = "kernel_ex\<lparr>ctx := ?c, km := ?m\<rparr>"
  have "mem_wf ?m" using mem_ex_wf(1) [of 64 3] by simp
  then have u: "user_proc ?s ?b (the (pts kmem_ex 401))" using kernel_ex_user by (simp add: user_proc_def)
  have v: "vpn_of 0x18C010 = 198" "vpn_of 0x1FC000 = 254" by (simp_all add: vpn_of_div)
  have gap: "stack_gap (uaddr (ctx ?s)) ?b = {70..<126}"
    by (simp add: stack_gap_def v MAX_PT_LEN_def)
  have "\<exists>m V. MemoryTrapHandler ?s = Exit False ERROR (?s\<lparr>km := m\<rparr>) \<and> V \<subseteq> stack_gap (uaddr (ctx ?s)) ?b \<and>
    rolled_back (km ?s) (ptbr ?b) (the (pts kmem_ex 401)) V m \<and> free_nframes m = free_nframes (km ?s)"
    by (rule stack_fault_rolls_back [OF u])
       (use gap in \<open>simp_all add: VMEM_1_BASE_def UP_TO_PAGE_def DOWN_TO_PAGE_def\<close>)
  then obtain m V where "MemoryTrapHandler ?s = Exit False ERROR (?s\<lparr>km := m\<rparr>)" "V \<subseteq> {70..<126}"
    "rolled_back (km ?s) 401 (the (pts kmem_ex 401)) V m"
    unfolding gap by auto
  moreover from this have "free_frames m = free_frames (km ?s)" by (simp add: rolled_back_def)
  ultimately show ?thesis by blast
qed


text \<open>
  C27. \<^verbatim>\<open>Brk\<close> upwards: with enough frames for the pages that are not mapped yet, the call succeeds, every
  page from the old to the new break is mapped (the new ones read-write, to frames of their own taken
  from the pool), pages already mapped and all pages outside are untouched, and the break is the page
  boundary at or above the address.
\<close>

theorem Brk_grows:
  assumes u: "user_proc s b T" and a: "a \<noteq> 0" "brk_vpn (user_heap_end_vaddr b) \<le> brk_vpn a" "brk_vpn a \<le> MAX_PT_LEN"
    and fr: "card {v \<in> {brk_vpn (user_heap_end_vaddr b)..<brk_vpn a}. \<not> valid (T ! v)} \<le> card (free_frames (km s))"
  shows "\<exists>m. Brk a s = Ret SUCCESS (s\<lparr>km := m, pcbs := (pcbs s)(current_process s \<mapsto>
      b\<lparr>user_heap_end_vaddr := push_bit PAGESHIFT (of_nat (brk_vpn a)) + VMEM_1_BASE\<rparr>)\<rparr>) \<and>
    user_grown (km s) (ptbr b) T {v \<in> {brk_vpn (user_heap_end_vaddr b)..<brk_vpn a}. \<not> valid (T ! v)} m"
proof -
  let ?o = "brk_vpn (user_heap_end_vaddr b)" and ?n = "brk_vpn a"
  let ?V = "{v \<in> {?o..<?n}. \<not> valid (T ! v)}"
  have V: "{} \<union> {v. ?o \<le> v \<and> v < ?n \<and> \<not> valid (T ! v)} = ?V" by auto
  have p: "current_process s \<noteq> 0" "pcbs s (current_process s) = Some b" "mem_wf (km s)" "ptbr b \<noteq> 0"
    "pts (km s) (ptbr b) = Some T" "length T = MAX_PT_LEN" using u by (simp_all add: user_proc_def)
  have "\<exists>m. Brk_grow (?n - ?o) (ptbr b) (pid b) ?o ?n (km s) = Ret True m \<and>
      user_grown (km s) (ptbr b) T ({} \<union> {v. ?o \<le> v \<and> v < ?n \<and> \<not> valid (T ! v)}) m"
  proof (rule Brk_grow_ok [OF user_grown_start [OF p(3,5)] p(4)])
    have "{v. ?o \<le> v \<and> v < ?n \<and> \<not> valid (T ! v)} = ?V" by auto
    then show "card {v. ?o \<le> v \<and> v < ?n \<and> \<not> valid (T ! v)} \<le> card (free_frames (km s))" using fr by (simp only:)
  qed (use p a in simp_all)
  then obtain m where m: "Brk_grow (?n - ?o) (ptbr b) (pid b) ?o ?n (km s) = Ret True m" "user_grown (km s) (ptbr b) T ?V m"
    unfolding V by blast
  have "Brk_shrink (Brk_fuel ?n) (ptbr b) ?n ?n m = Ret ?n m" by (simp add: Brk_fuel_def prog_simps)
  then have "Brk a s = Ret SUCCESS (s\<lparr>km := m, pcbs := (pcbs s)(current_process s \<mapsto>
      b\<lparr>user_heap_end_vaddr := push_bit PAGESHIFT (of_nat ?n) + VMEM_1_BASE\<rparr>)\<rparr>)"
    using p a m(1) by (simp add: Brk_def Let_def prog_simps max_absorb2)
  with m(2) show ?thesis by blast
qed

lemma brk_vpn_ex: "brk_vpn 0x108000 = 4" "brk_vpn 0x10A001 = 6" "brk_vpn 0x104000 = 2" "brk_vpn 0x102000 = 1"
  by (simp_all add: brk_vpn_def vpn_of_div UP_TO_PAGE_def VMEM_1_BASE_def)

theorem Brk_grows_witness:
  "\<exists>t b. Brk 0x10A001 kernel_ex = Ret SUCCESS t \<and> pcbs t 101 = Some b \<and> user_heap_end_vaddr b = 0x10C000"
proof -
  let ?b = "(pcb_ex 2 301)\<lparr>pstate := PROC_RUNNING, children_processes := 4\<rparr>" and ?T = "the (pts kmem_ex 401)"
  have "{v \<in> {4..<6}. \<not> valid (?T ! v)} \<subseteq> {4, 5}" by auto
  then have "card {v \<in> {4..<6}. \<not> valid (?T ! v)} \<le> 2"
    by (rule order_trans [OF card_mono [rotated]]) simp_all
  then have "\<exists>m. Brk 0x10A001 kernel_ex = Ret SUCCESS (kernel_ex\<lparr>km := m, pcbs := (pcbs kernel_ex)(current_process kernel_ex \<mapsto>
      ?b\<lparr>user_heap_end_vaddr := push_bit PAGESHIFT (of_nat (brk_vpn 0x10A001)) + VMEM_1_BASE\<rparr>)\<rparr>) \<and>
    user_grown (km kernel_ex) (ptbr ?b) ?T {v \<in> {brk_vpn (user_heap_end_vaddr ?b)..<brk_vpn 0x10A001}. \<not> valid (?T ! v)} m"
    by (intro Brk_grows [OF kernel_ex_user]) (simp_all add: brk_vpn_ex kernel_ex_free MAX_PT_LEN_def)
  then show ?thesis by (auto simp: brk_vpn_ex PAGESHIFT_def VMEM_1_BASE_def)
qed

text \<open>
  \<^verbatim>\<open>Brk\<close> downwards releases nothing: its loop asks the kernel's table (\<^verbatim>\<open>pt_region0\<close>) which pages are
  mapped. Where that table has no valid entry for the page numbers in question, the call succeeds and
  lowers the break, but every page above it stays mapped and no frame returns to the pool.
\<close>

theorem Brk_shrink_releases_nothing:
  assumes u: "user_proc s b T" and a: "a \<noteq> 0" "brk_vpn a \<le> brk_vpn (user_heap_end_vaddr b)" "brk_vpn (user_heap_end_vaddr b) < MAX_PT_LEN"
    and k: "\<forall>v. brk_vpn a < v \<and> v \<le> brk_vpn (user_heap_end_vaddr b) \<longrightarrow> \<not> valid (pt_region0 (km s) ! v)"
  shows "Brk a s = Ret SUCCESS (s\<lparr>pcbs := (pcbs s)(current_process s \<mapsto>
      b\<lparr>user_heap_end_vaddr := push_bit PAGESHIFT (of_nat (brk_vpn a)) + VMEM_1_BASE\<rparr>)\<rparr>)"
proof -
  let ?o = "brk_vpn (user_heap_end_vaddr b)" and ?n = "brk_vpn a"
  have p: "current_process s \<noteq> 0" "pcbs s (current_process s) = Some b" "length (pt_region0 (km s)) = MAX_PT_LEN"
    using u by (simp_all add: user_proc_def mem_wf_def)
  let ?f = "?n + MAX_PT_LEN + 1"
  have f: "Brk_fuel ?o = Suc ?f + (?o - ?n)" using a by (simp add: Brk_fuel_def)
  have "Brk_shrink (Suc ?f + (?o - ?n)) (ptbr b) ?o ?n (km s) = Brk_shrink (Suc ?f) (ptbr b) ?n ?n (km s)"
    by (rule Brk_shrink_skips) (use k p a in auto)
  also have "\<dots> = Ret ?n (km s)" by (simp add: prog_simps)
  finally have sh: "Brk_shrink (Brk_fuel ?o) (ptbr b) ?o ?n (km s) = Ret ?n (km s)" unfolding f .
  have "Brk_grow (?n - ?o) (ptbr b) (pid b) ?o ?n (km s) = Ret True (km s)" using a by (simp add: prog_simps)
  then show ?thesis using p a sh by (simp add: Brk_def Let_def prog_simps max_absorb1)
qed

theorem Brk_shrink_releases_nothing_witness:
  "\<exists>t. Brk 0x104000 kernel_ex = Ret SUCCESS t \<and> km t = kmem_ex \<and> valid (the (pts (km t) 401) ! 3)"
proof -
  have "valid (pt_region0 (km kernel_ex) ! v) = False" if "v \<le> 4" for v
    using that by (simp add: MAX_PT_LEN_def pte0_def)
  then have e: "Brk 0x104000 kernel_ex = Ret SUCCESS (kernel_ex\<lparr>pcbs := (pcbs kernel_ex)(current_process kernel_ex \<mapsto>
      ((pcb_ex 2 301)\<lparr>pstate := PROC_RUNNING, children_processes := 4\<rparr>)
        \<lparr>user_heap_end_vaddr := push_bit PAGESHIFT (of_nat (brk_vpn 0x104000)) + VMEM_1_BASE\<rparr>)\<rparr>)"
    by (intro Brk_shrink_releases_nothing [OF kernel_ex_user]) (auto simp: brk_vpn_ex MAX_PT_LEN_def)
  have "valid (the (pts kmem_ex 401) ! 3)" by (simp add: kmem_ex_def nth_append pte_ex_def)
  then show ?thesis unfolding e by simp
qed

text \<open>
  C29. \<^verbatim>\<open>Brk\<close> downwards may also never return: after it has freed a page it counts up instead of down.
  As soon as it passes a page number that is valid in the kernel's table and lies below one that is not,
  it goes to and fro between the two for any number of iterations.
\<close>

theorem Brk_shrink_diverges:
  assumes "target < v" and "v < vpn" and "vpn < MAX_PT_LEN" and "tb \<noteq> 0" and "tables_ok m"
    and "pts m tb = Some T" "length T = MAX_PT_LEN"
    and "valid (pt_region0 m ! v)" and "\<forall>w. v < w \<and> w \<le> vpn \<longrightarrow> \<not> valid (pt_region0 m ! w)"
  shows "Brk_shrink (fuel + (vpn - v)) tb vpn target m = Fault Diverges"
proof -
  have "length (pt_region0 m) = MAX_PT_LEN" using assms(5) by (simp add: tables_ok_def)
  then have "Brk_shrink (fuel + (vpn - v)) tb vpn target m = Brk_shrink fuel tb v target m"
    and "Brk_shrink fuel tb v target m = Fault Diverges"
    using assms Brk_shrink_skips [of v vpn m target fuel tb] Brk_shrink_swings [of target v T tb m fuel]
    by (simp_all add: tables_ok_def)
  then show ?thesis by simp
qed

theorem Brk_shrink_diverges_witness:
  "Brk_shrink (1000000 + (4 - 3)) 401 4 1 (kmem_ex\<lparr>pt_region0 := (replicate MAX_PT_LEN pte0)[3 := pte_ex 3]\<rparr>) = Fault Diverges"
  by (rule Brk_shrink_diverges [where v = 3 and T = "the (pts kmem_ex 401)"])
     (auto simp: MAX_PT_LEN_def tables_ok_def kmem_ex_def mem_ex_def pte_ex_def pte0_def nth_list_update nth_append)


text \<open>
  C28. \<^verbatim>\<open>CheckBuffer\<close> accepts exactly the buffers inside region 1, as long as the end of the buffer
  does not wrap around the 32-bit address space: then every byte of an accepted buffer is a user address.
\<close>

theorem CheckBuffer_exact:
  assumes "0 \<le> len" and "uint start + len < 2 ^ 32"
  shows "(CheckBuffer start len = SUCCESS \<longleftrightarrow> VMEM_1_BASE \<le> start \<and> uint start + len \<le> uint VMEM_1_LIMIT) \<and>
    (CheckBuffer start len = SUCCESS \<longrightarrow> (\<forall>i < nat len. VMEM_1_BASE \<le> start + of_nat i \<and> start + of_nat i < VMEM_1_LIMIT))"
proof (intro conjI impI allI)
  have len: "len < 2 ^ 32" "0 \<le> uint start" using assms uint_ge_0 [of start] by linarith+
  have e: "uint (start + word_of_int len) = uint start + len"
  proof -
    have "len mod 2 ^ 32 = len" "(uint start + len) mod 2 ^ 32 = uint start + len"
      using assms len by (intro mod_pos_pos_trivial; linarith)+
    then show ?thesis by (simp add: uint_word_ariths(1) uint_word_of_int)
  qed
  show ok: "CheckBuffer start len = SUCCESS \<longleftrightarrow> VMEM_1_BASE \<le> start \<and> uint start + len \<le> uint VMEM_1_LIMIT"
    using e by (auto simp: CheckBuffer_def code_defs word_less_def word_le_def)
  fix i assume acc: "CheckBuffer start len = SUCCESS" and i: "i < nat len"
  then have "int i < 2 ^ 32" "uint start + int i < 2 ^ 32" using assms len by linarith+
  then have "uint (start + of_nat i) = uint start + int i"
    using len by (simp add: uint_word_ariths(1) unsigned_of_nat take_bit_nat_eq_self mod_pos_pos_trivial)
  then show "VMEM_1_BASE \<le> start + of_nat i" "start + of_nat i < VMEM_1_LIMIT"
    using acc ok i by (auto simp: word_less_def word_le_def)
qed

theorem CheckBuffer_exact_witness:
  "CheckBuffer 0x1FFFF0 16 = SUCCESS \<and> 0x1FFFF0 + of_nat 15 < VMEM_1_LIMIT"
proof -
  have "CheckBuffer 0x1FFFF0 16 = SUCCESS \<longleftrightarrow> VMEM_1_BASE \<le> 0x1FFFF0 \<and> uint (0x1FFFF0 :: word32) + 16 \<le> uint VMEM_1_LIMIT"
    using CheckBuffer_exact [of 16 "0x1FFFF0"] by simp
  then show ?thesis by (simp add: VMEM_1_BASE_def VMEM_1_LIMIT_def)
qed

text \<open>
  The sum wraps: there is a buffer that starts above region 1 and is longer than it, with a
  positive length that fits an \<^verbatim>\<open>int\<close>, which \<^verbatim>\<open>CheckBuffer\<close> accepts.
\<close>

theorem CheckBuffer_wraps:
  "\<exists>start len. 0 < len \<and> len < 2 ^ 31 \<and> VMEM_1_LIMIT < start \<and> uint VMEM_1_LIMIT < len \<and> CheckBuffer start len = SUCCESS"
  by (rule exI [of _ "0xC0000000"], rule exI [of _ "0x40100000"])
     (simp add: CheckBuffer_def code_defs VMEM_1_BASE_def VMEM_1_LIMIT_def)

text \<open>
  The two \<^verbatim>\<open>if\<close> lines on \<^verbatim>\<open>YALNIX_MAPERR\<close> in \<^verbatim>\<open>MemoryTrapHandler\<close> nest, so the branch for
  \<^verbatim>\<open>YALNIX_ACCERR\<close> is dead: on a protection fault the handler changes nothing and kills nobody, and the
  process will fault again on the same instruction.
\<close>

theorem access_error_ignored:
  assumes "current_process s \<noteq> 0" and "pcbs s (current_process s) = Some b" and "code (ctx s) = YALNIX_ACCERR"
  shows "MemoryTrapHandler s = Ret () s"
  using assms by (simp add: MemoryTrapHandler_def prog_simps trap_codes)

theorem access_error_ignored_witness:
  "MemoryTrapHandler (kernel_ex\<lparr>ctx := uctx0\<lparr>code := YALNIX_ACCERR, uaddr := 0x100000\<rparr>\<rparr>) =
     Ret () (kernel_ex\<lparr>ctx := uctx0\<lparr>code := YALNIX_ACCERR, uaddr := 0x100000\<rparr>\<rparr>)"
  by (rule access_error_ignored) simp_all

end
