(* ===== verification/Loading.thy ===== *)
theory Loading
  imports User_Memory User_Store
begin

text \<open>
  Loading a program: what \<^verbatim>\<open>LoadProgram\<close> and \<^verbatim>\<open>Exec\<close> make of the address space of a process. The old region 1 is given back, the
  pages of the text, the data and the stack are mapped to frames of their own, and the new memory, as the process reads
  it, holds the segments of the file and the argument list.
\<close>

section \<open>Address spaces\<close>

text \<open>
  The address space the machine translates with: table \<open>t\<close> is that of region 1, the TLB agrees with the tables, every page has a frame
  of its own, which exists and is not in the pool.
\<close>

definition space_ok :: "kmem \<Rightarrow> addr \<Rightarrow> pte list \<Rightarrow> bool" where
  "space_ok m t T \<longleftrightarrow> mem_wf m \<and> t \<noteq> 0 \<and> pts m t = Some T \<and> length T = MAX_PT_LEN \<and> reg_ptbr1 m = t \<and> reg_ptlr1 m = MAX_PT_LEN \<and>
     tlb_coherent m \<and> private_frames m \<and> (\<forall>v e. pt_entry m v = Some e \<longrightarrow> frame_of e < nframes m \<and> frame_of e \<notin> free_frames m)"

text \<open>The frames a table maps.\<close>

definition frames_in :: "pte list \<Rightarrow> nat set" where
  "frames_in T = frame_of ` {e \<in> set T. valid e}"

lemma pt_entry_region1:
  "space_ok m t T \<Longrightarrow> pt_entry m (MAX_PT_LEN + i) = (if i < MAX_PT_LEN \<and> valid (T ! i) then Some (T ! i) else None)"
  by (simp add: space_ok_def pt_entry_def)

lemma space_translate: "space_ok m t T \<Longrightarrow> translate m v = pt_entry m v"
  by (simp add: space_ok_def translate_coherent)

lemma space_region1_inj:
  assumes "space_ok m t T" "i < MAX_PT_LEN" "valid (T ! i)" "pt_entry m v = Some d" "frame_of d = frame_of (T ! i)"
  shows "v = MAX_PT_LEN + i"
  using assms pt_entry_region1 [OF assms(1), of i] space_translate [OF assms(1)]
  unfolding space_ok_def private_frames_def by (metis (full_types))

lemma space_frames:
  assumes "space_ok m t T" "i < MAX_PT_LEN" "valid (T ! i)"
  shows "frame_of (T ! i) < nframes m" "frame_of (T ! i) \<notin> free_frames m"
  using assms pt_entry_region1 [OF assms(1), of i] by (auto simp: space_ok_def)

text \<open>The frames the address space maps.\<close>

definition mapped_frames :: "kmem \<Rightarrow> nat set" where
  "mapped_frames m = frame_of ` ran (translate m)"

lemma in_frames_in: "f \<in> frames_in T \<longleftrightarrow> (\<exists>i < length T. valid (T ! i) \<and> f = frame_of (T ! i))"
  by (auto simp: frames_in_def in_set_conv_nth)

lemma space_mapped:
  assumes "space_ok m t T"
  shows "mapped_frames m = frames_in (pt_region0 m) \<union> frames_in T"
proof -
  have s: "length (pt_region0 m) = MAX_PT_LEN" "pts m (reg_ptbr1 m) = Some T" "length T = MAX_PT_LEN" "reg_ptlr1 m = MAX_PT_LEN"
    using assms by (auto simp: space_ok_def mem_wf_def)
  have "f \<in> mapped_frames m \<longleftrightarrow> (\<exists>v e. pt_entry m v = Some e \<and> frame_of e = f)" for f
    by (auto simp: mapped_frames_def space_translate [OF assms] ran_def image_def)
  also have "\<dots> f \<longleftrightarrow> f \<in> frames_in (pt_region0 m) \<union> frames_in T" for f
  proof
    assume "\<exists>v e. pt_entry m v = Some e \<and> frame_of e = f"
    then show "f \<in> frames_in (pt_region0 m) \<union> frames_in T"
      by (auto simp: pt_entry_def s Let_def in_frames_in split: if_splits)
  next
    assume "f \<in> frames_in (pt_region0 m) \<union> frames_in T"
    then consider i where "i < MAX_PT_LEN" "valid (pt_region0 m ! i)" "f = frame_of (pt_region0 m ! i)"
      | i where "i < MAX_PT_LEN" "valid (T ! i)" "f = frame_of (T ! i)" by (auto simp: in_frames_in s)
    then show "\<exists>v e. pt_entry m v = Some e \<and> frame_of e = f"
    proof cases
      case 1
      then have "pt_entry m i = Some (pt_region0 m ! i)" by (simp add: pt_entry_def s)
      then show ?thesis using 1 by blast
    next
      case 2
      then have "pt_entry m (MAX_PT_LEN + i) = Some (T ! i)" by (simp add: pt_entry_region1 [OF assms])
      then show ?thesis using 2 by blast
    qed
  qed
  finally show ?thesis by blast
qed

section \<open>Giving back the old pages\<close>

definition discarded :: "kmem \<Rightarrow> addr \<Rightarrow> pte list \<Rightarrow> nat \<Rightarrow> kmem \<Rightarrow> bool" where
  "discarded m t T j u \<longleftrightarrow> mem_wf u \<and> free_frames u = free_frames m \<union> frames_in (take j T) \<and>
     u = m\<lparr>frame_table := frame_table u, free_nframes := free_nframes u,
       pts := (pts m)(t \<mapsto> map (valid_update (\<lambda>_. False)) (take j T) @ drop j T)\<rparr>"

lemma discard_next:
  "j < length T \<Longrightarrow> (map f (take j T) @ drop j T)[j := f (T ! j)] = map f (take (Suc j) T) @ drop (Suc j) T"
  by (simp add: list_update_append take_Suc_conv_app_nth Cons_nth_drop_Suc [symmetric])

lemma discard_nth: "j < length T \<Longrightarrow> (map f (take j T) @ drop j T) ! j = T ! j"
  by (simp add: nth_append)

lemma frames_in_Suc:
  "j < length T \<Longrightarrow> frames_in (take (Suc j) T) = (if valid (T ! j) then insert (frame_of (T ! j)) (frames_in (take j T)) else frames_in (take j T))"
  by (auto simp: frames_in_def take_Suc_conv_app_nth)

lemma discard_step:
  assumes sp: "space_ok m t T" and inv: "discarded m t T j u" and j: "j < MAX_PT_LEN"
  shows "\<exists>u'. bnd (get_pte t (int j)) (\<lambda>e. if valid e
     then thn (freeFrame (int (unat (pfn e)))) (upd_pte t (int j) (\<lambda>e. e\<lparr>valid := False\<rparr>)) else ret ()) u = Ret () u' \<and>
     discarded m t T (Suc j) u'"
proof -
  let ?U = "map (valid_update (\<lambda>_. False)) (take j T) @ drop j T" and ?f = "frame_of (T ! j)"
  have t: "t \<noteq> 0" "length T = MAX_PT_LEN" using sp by (simp_all add: space_ok_def)
  have wf: "mem_wf u" and fu: "free_frames u = free_frames m \<union> frames_in (take j T)"
    and eq: "u = m\<lparr>frame_table := frame_table u, free_nframes := free_nframes u, pts := (pts m)(t \<mapsto> ?U)\<rparr>"
    using inv by (simp_all add: discarded_def)
  have p: "pts u t = Some ?U" and nf: "nframes u = nframes m" by (subst eq, simp)+
  have Uj: "?U ! j = T ! j" using j t by (intro discard_nth) simp
  have g: "get_pte t (int j) u = Ret (T ! j) u" using get_pte_eval [OF t(1) p, of "int j"] Uj j t(2) by simp
  show ?thesis
  proof (cases "valid (T ! j)")
    case False
    then have s: "valid_update (\<lambda>_. False) (T ! j) = T ! j" by simp
    have "?U = ?U[j := valid_update (\<lambda>_. False) (T ! j)]" using Uj by (subst s) (metis list_update_id)
    then have "discarded m t T (Suc j) u"
      unfolding discarded_def using wf fu eq False j t(2) discard_next [of j T "valid_update (\<lambda>_. False)"] by (simp add: frames_in_Suc)
    with g False show ?thesis by (simp add: prog_simps)
  next
    case True
    let ?u = "(give_frame ?f u)\<lparr>pts := (pts u)(t \<mapsto> ?U[j := (T ! j)\<lparr>valid := False\<rparr>])\<rparr>"
    have fb: "?f < nframes u" "?f \<notin> free_frames m" using space_frames [OF sp j True] nf by simp_all
    have "?f \<notin> frames_in (take j T)"
    proof
      assume "?f \<in> frames_in (take j T)"
      then obtain i where i: "i < j" "valid (T ! i)" "frame_of (T ! i) = ?f" using j t by (auto simp: in_frames_in)
      moreover have "pt_entry m (MAX_PT_LEN + i) = Some (T ! i)" using i j by (simp add: pt_entry_region1 [OF sp])
      ultimately show False using space_region1_inj [OF sp j True] by fastforce
    qed
    then have notin: "?f \<notin> free_frames u" using fb fu by simp
    have fw: "frames_wf u" using wf by (simp add: mem_wf_def)
    have run: "bnd (get_pte t (int j)) (\<lambda>e. if valid e
       then thn (freeFrame (int (unat (pfn e)))) (upd_pte t (int j) (\<lambda>e. e\<lparr>valid := False\<rparr>)) else ret ()) u = Ret () ?u"
      using g True freeFrame_eval [OF fw, of "int ?f"] fb p t j Uj
      by (simp add: prog_simps upd_pte_eval frame_of_def)
    have gf: "free_frames ?u = insert ?f (free_frames u)" using fw fb by (simp add: free_give frames_wf_def)
    have ul: "?U[j := (T ! j)\<lparr>valid := False\<rparr>] = map (valid_update (\<lambda>_. False)) (take (Suc j) T) @ drop (Suc j) T"
      using discard_next [of j T "valid_update (\<lambda>_. False)"] j t by simp
    have "?u = m\<lparr>frame_table := frame_table ?u, free_nframes := free_nframes ?u,
        pts := (pts m)(t \<mapsto> ?U[j := (T ! j)\<lparr>valid := False\<rparr>])\<rparr>"
      by (subst eq, subst (3) eq) (simp add: give_frame_def)
    moreover have "mem_wf ?u" using mem_wf_give [OF wf notin fb(1)] by simp
    ultimately have "discarded m t T (Suc j) ?u"
      unfolding discarded_def using gf fu True j t(2) by (simp add: frames_in_Suc ul)
    with run show ?thesis by blast
  qed
qed

lemma discard_region1_ok:
  assumes "space_ok m t T"
  shows "\<exists>u. discard_region1 t m = Ret () u \<and> discarded m t T MAX_PT_LEN u"
  unfolding discard_region1_def
proof (rule for_do_rule [where P = "discarded m t T"])
  have "pts m t = Some T" "mem_wf m" using assms by (simp_all add: space_ok_def)
  then show "discarded m t T 0 m" unfolding discarded_def by (simp add: frames_in_def fun_upd_idem)
next
  fix i u assume "i < MAX_PT_LEN" "discarded m t T i u"
  then show "\<exists>u'. bnd (get_pte t (int i)) (\<lambda>e. if valid e
     then thn (freeFrame (int (unat (pfn e)))) (upd_pte t (int i) (\<lambda>e. e\<lparr>valid := False\<rparr>)) else ret ()) u = Ret () u' \<and>
     discarded m t T (Suc i) u'" using discard_step [OF assms] by blast
qed simp

section \<open>Mapping the new pages\<close>

lemma map_page_step:
  assumes inv: "user_grown m t T V u" and t: "t \<noteq> 0" and v: "v < length T" "v \<notin> V" and fr: "free_frames u \<noteq> {}"
  shows "\<exists>u'. bnd (allocFrame FRAME_USER own) (\<lambda>f. upd_pte t (int v)
      (\<lambda>e. e\<lparr>pfn := to_pfn f, valid := True, prot := PROT_READ OR PROT_WRITE\<rparr>)) u = Ret () u' \<and>
    user_grown m t T (insert v V) u' \<and> card (free_frames u) = Suc (card (free_frames u'))"
proof -
  have fw: "frames_wf u" using inv by (simp add: user_grown_def mem_wf_def)
  have "(\<lambda>e. e\<lparr>valid := True, pfn := to_pfn f, prot := PROT_READ OR PROT_WRITE\<rparr>) =
    (\<lambda>e. e\<lparr>pfn := to_pfn f, valid := True, prot := PROT_READ OR PROT_WRITE\<rparr>)" for f by (rule ext) simp
  moreover have "thn a (ret ()) = a" for a :: "(kmem, unit) prog" by (rule ext) (simp add: prog_simps split: outcome.split)
  ultimately show ?thesis
    using user_grown_step [OF inv t v fr, of own "ret ()" "ret ()"] allocFrame_some [OF fw fr, of FRAME_USER own]
    by (simp add: bnd_app ret_app)
qed

lemma map_pages_ok:
  assumes g: "user_grown m t T V u" and t: "t \<noteq> 0" and n: "base + n \<le> length T" "V \<inter> {base..<base + n} = {}"
    and fr: "n \<le> card (free_frames u)"
  shows "\<exists>u'. map_pages t own base n u = Ret () u' \<and> user_grown m t T (V \<union> {base..<base + n}) u' \<and>
    card (free_frames u') = card (free_frames u) - n"
proof -
  let ?P = "\<lambda>i u'. user_grown m t T (V \<union> {base..<base + i}) u' \<and> card (free_frames u') + i = card (free_frames u)"
  have "\<exists>u'. map_pages t own base n u = Ret () u' \<and> ?P n u'"
    unfolding map_pages_def
  proof (rule for_do_rule [where P = ?P])
    fix i w assume i: "i < n" and P: "?P i w"
    have "free_frames w \<noteq> {}" using P i fr by auto
    moreover have "base + i \<notin> V \<union> {base..<base + i}" using n(2) i by auto
    moreover have "insert (base + i) (V \<union> {base..<base + i}) = V \<union> {base..<base + Suc i}" by auto
    ultimately show "\<exists>w'. bnd (allocFrame FRAME_USER own) (\<lambda>f. upd_pte t (int (base + i))
        (\<lambda>e. e\<lparr>pfn := to_pfn f, valid := True, prot := PROT_READ OR PROT_WRITE\<rparr>)) w = Ret () w' \<and> ?P (Suc i) w'"
      using map_page_step [OF conjunct1 [OF P] t, of "base + i" own] i n(1) P by auto
  qed (use g in simp_all)
  then show ?thesis by auto
qed


text \<open>The pages of a program: those of the text, of the data and of the stack.\<close>

definition text_pages :: "layout \<Rightarrow> load_info \<Rightarrow> nat set" where
  "text_pages lay li = {text_pg1 lay..<text_pg1 lay + t_npg li}"

definition data_pages :: "layout \<Rightarrow> nat set" where
  "data_pages lay = {data_pg1 lay..<data_pg1 lay + data_npg lay}"

definition stack_pages :: "layout \<Rightarrow> nat set" where
  "stack_pages lay = {MAX_PT_LEN - stack_npg lay..<MAX_PT_LEN}"

definition program_pages :: "layout \<Rightarrow> load_info \<Rightarrow> nat set" where
  "program_pages lay li = text_pages lay li \<union> data_pages lay \<union> stack_pages lay"

text \<open>The text ends below the data, as the linker places them; \<^verbatim>\<open>LoadProgram\<close> itself checks that the stack fits above the data.\<close>

definition pages_fit :: "layout \<Rightarrow> load_info \<Rightarrow> bool" where
  "pages_fit lay li \<longleftrightarrow> text_pg1 lay + t_npg li \<le> data_pg1 lay \<and> stack_npg lay + data_pg1 lay + data_npg lay < MAX_PT_LEN"

lemma program_pages_card:
  assumes "pages_fit lay li"
  shows "card (program_pages lay li) = t_npg li + data_npg lay + stack_npg lay" "program_pages lay li \<subseteq> {..<MAX_PT_LEN}"
proof -
  have "text_pages lay li \<inter> data_pages lay = {}" "(text_pages lay li \<union> data_pages lay) \<inter> stack_pages lay = {}"
    using assms by (auto simp: text_pages_def data_pages_def stack_pages_def pages_fit_def)
  moreover have "finite (text_pages lay li)" "finite (data_pages lay)" "finite (stack_pages lay)"
    by (simp_all add: text_pages_def data_pages_def stack_pages_def)
  moreover have "card (stack_pages lay) = stack_npg lay" using assms by (simp add: stack_pages_def pages_fit_def)
  ultimately show "card (program_pages lay li) = t_npg li + data_npg lay + stack_npg lay"
    by (simp add: program_pages_def card_Un_disjoint) (simp add: text_pages_def data_pages_def)
  show "program_pages lay li \<subseteq> {..<MAX_PT_LEN}"
    using assms by (auto simp: program_pages_def text_pages_def data_pages_def stack_pages_def pages_fit_def)
qed

lemma map_program_ok:
  assumes m: "mem_wf m" and t: "t \<noteq> 0" "pts m t = Some T" "length T = MAX_PT_LEN" and fit: "pages_fit lay li"
    and fr: "card (program_pages lay li) \<le> card (free_frames m)"
  shows "\<exists>u. thn (map_pages t own (text_pg1 lay) (t_npg li)) (thn (map_pages t own (data_pg1 lay) (data_npg lay))
      (map_pages t own (MAX_PT_LEN - stack_npg lay) (stack_npg lay))) m = Ret () u \<and>
    user_grown m t T (program_pages lay li) u"
proof -
  let ?n = "MAX_PT_LEN - stack_npg lay"
  note fr = fr [unfolded program_pages_card [OF fit]]
  have sb: "?n + stack_npg lay = MAX_PT_LEN" using fit by (simp add: pages_fit_def)
  have l: "text_pg1 lay + t_npg li \<le> length T" "data_pg1 lay + data_npg lay \<le> length T" "?n + stack_npg lay \<le> length T"
    "text_pages lay li \<inter> {data_pg1 lay..<data_pg1 lay + data_npg lay} = {}"
    "(text_pages lay li \<union> data_pages lay) \<inter> {?n..<?n + stack_npg lay} = {}"
    using fit t(3) by (auto simp: pages_fit_def text_pages_def data_pages_def)
  from map_pages_ok [OF user_grown_start [OF m t(2)] t(1) l(1), of own] fr obtain u where
    u: "map_pages t own (text_pg1 lay) (t_npg li) m = Ret () u" "user_grown m t T (text_pages lay li) u"
    "card (free_frames u) = card (free_frames m) - t_npg li" by (auto simp: text_pages_def)
  have fr2: "data_npg lay \<le> card (free_frames u)" "stack_npg lay \<le> card (free_frames m) - t_npg li - data_npg lay" using fr u(3) by linarith+
  from map_pages_ok [OF u(2) t(1) l(2) l(4) fr2(1), of own] u(3) obtain w where
    w: "map_pages t own (data_pg1 lay) (data_npg lay) u = Ret () w" "user_grown m t T (text_pages lay li \<union> data_pages lay) w"
    "card (free_frames w) = card (free_frames m) - t_npg li - data_npg lay" by (auto simp: data_pages_def)
  from map_pages_ok [OF w(2) t(1) l(3) l(5), of own] fr2(2) w(3) obtain x where
    x: "map_pages t own ?n (stack_npg lay) w = Ret () x" "user_grown m t T (program_pages lay li) x"
    by (auto simp: sb program_pages_def stack_pages_def)
  with u w show ?thesis by (simp add: prog_simps)
qed

text \<open>The table of the new region 1: exactly the pages of the program, with the frames of the old table and of the pool.\<close>

definition new_region1 :: "kmem \<Rightarrow> addr \<Rightarrow> pte list \<Rightarrow> nat set \<Rightarrow> kmem \<Rightarrow> pte list \<Rightarrow> bool" where
  "new_region1 m t T V m' T' \<longleftrightarrow> space_ok m' t T' \<and> (\<forall>v < MAX_PT_LEN. valid (T' ! v) \<longleftrightarrow> v \<in> V) \<and>
     (\<forall>v \<in> V. prot (T' ! v) = PROT_READ OR PROT_WRITE) \<and> pts m' = (pts m)(t \<mapsto> T') \<and>
     free_frames m' \<union> frames_in T' = free_frames m \<union> frames_in T \<and>
     phys m' = phys m \<and> nframes m' = nframes m \<and> pt_region0 m' = pt_region0 m"

lemma new_region1_space:
  assumes sp: "space_ok m t T" and g: "user_grown u t U V w" and U: "\<And>v. v < MAX_PT_LEN \<Longrightarrow> \<not> valid (U ! v)" "length U = MAX_PT_LEN"
    and u: "free_frames u = free_frames m \<union> frames_in T" "pts u = (pts m)(t \<mapsto> U)" "phys u = phys m" "nframes u = nframes m"
      "pt_region0 u = pt_region0 m" "tlb u = tlb m" "reg_ptbr1 u = reg_ptbr1 m" "reg_ptlr1 u = reg_ptlr1 m"
  shows "\<exists>T'. new_region1 m t T V (w\<lparr>tlb := tlb_flush TLB_FLUSH_1 (tlb w)\<rparr>) T'"
proof -
  let ?m' = "w\<lparr>tlb := tlb_flush TLB_FLUSH_1 (tlb w)\<rparr>"
  from g obtain T' where wf: "mem_wf w" and fp: "fresh_pages (free_frames u) (free_frames w) U T' V (PROT_READ OR PROT_WRITE)"
    and eq: "w = u\<lparr>frame_table := frame_table w, free_nframes := free_nframes w, pts := (pts u)(t \<mapsto> T')\<rparr>"
    unfolding user_grown_def by blast
  have w: "pts w = (pts m)(t \<mapsto> T')" "phys w = phys m" "nframes w = nframes m" "pt_region0 w = pt_region0 m"
    "tlb w = tlb m" "reg_ptbr1 w = t" "reg_ptlr1 w = MAX_PT_LEN" using sp by ((subst eq, simp add: u space_ok_def)+)
  have len: "length T' = MAX_PT_LEN" and sub: "free_frames w \<subseteq> free_frames u" and V: "V \<subseteq> {..<MAX_PT_LEN}"
    and inj: "inj_on (\<lambda>v. frame_of (T' ! v)) V" using fp U(2) by (simp_all add: fresh_pages_def)
  have val: "valid (T' ! v) \<longleftrightarrow> v \<in> V" if "v < MAX_PT_LEN" for v
    using that fresh_pages_page [OF fp, of v] fresh_pages_other [OF fp, of v] U(1) [OF that] U(2) by (cases "v \<in> V") simp_all
  have pe: "pt_entry w v = (if v < MAX_PT_LEN then pt_entry m v
      else if v - MAX_PT_LEN \<in> V then Some (T' ! (v - MAX_PT_LEN)) else None)" for v
    using V val len by (auto simp: pt_entry_def w Let_def)
  have fr: "frame_of e \<notin> free_frames w" "frame_of e < nframes m"
    "v < MAX_PT_LEN \<Longrightarrow> frame_of e \<notin> free_frames u" if "pt_entry w v = Some e" for v e
  proof -
    have low: "frame_of e \<notin> free_frames u \<and> frame_of e < nframes m" if "v < MAX_PT_LEN"
    proof -
      have e: "pt_entry m v = Some e" using that \<open>pt_entry w v = Some e\<close> by (simp add: pe)
      moreover have "frame_of e \<notin> frames_in T"
        using space_region1_inj [OF sp _ _ e] that sp by (auto simp: in_frames_in space_ok_def)
      ultimately show ?thesis using sp u(1) by (auto simp: space_ok_def)
    qed
    show "frame_of e \<notin> free_frames w" "frame_of e < nframes m" "v < MAX_PT_LEN \<Longrightarrow> frame_of e \<notin> free_frames u"
      using low that sub fresh_pages_page [OF fp, of "v - MAX_PT_LEN"] free_frames_bound [of "frame_of e" u] u(4)
      by (cases "v < MAX_PT_LEN"; auto simp: pe split: if_splits)+
  qed
  have coh: "tlb_coherent ?m'"
    using sp by (auto simp: tlb_coherent_def pe tlb_flush_def flush_defs w space_ok_def split: if_splits)
  have hi: "frame_of e \<in> free_frames u" "v - MAX_PT_LEN \<in> V" "e = T' ! (v - MAX_PT_LEN)"
    if "pt_entry w v = Some e" "\<not> v < MAX_PT_LEN" for v e
    using that fresh_pages_page [OF fp, of "v - MAX_PT_LEN"] by (auto simp: pe split: if_splits)
  have priv: "private_frames ?m'"
    unfolding private_frames_def translate_coherent [OF coh] pt_entry_frame
  proof (intro allI impI)
    fix x y d e assume h: "pt_entry w x = Some d" "pt_entry w y = Some e" "frame_of d = frame_of e"
    consider "x < MAX_PT_LEN" "y < MAX_PT_LEN" | "\<not> x < MAX_PT_LEN" "\<not> y < MAX_PT_LEN" | "(x < MAX_PT_LEN) \<noteq> (y < MAX_PT_LEN)" by blast
    then show "x = y"
    proof cases
      case 1
      then have "translate m x = Some d" "translate m y = Some e" using h space_translate [OF sp] by (simp_all add: pe)
      then show ?thesis using h(3) sp unfolding space_ok_def private_frames_def by blast
    next
      case 2
      then have "x - MAX_PT_LEN = y - MAX_PT_LEN" using inj_onD [OF inj] hi [OF h(1)] hi [OF h(2)] h(3) by auto
      then show ?thesis using 2 by simp
    next
      case 3
      then show ?thesis using fr(3) [OF h(1)] fr(3) [OF h(2)] hi(1) [OF h(1)] hi(1) [OF h(2)] h(3) by auto
    qed
  qed
  have "mem_wf ?m'" using wf by simp
  then have sp': "space_ok ?m' t T'" unfolding space_ok_def using sp w len coh priv fr(1,2) by (auto simp: space_ok_def)
  have "frames_in T' = (\<lambda>v. frame_of (T' ! v)) ` V" using val len V by (fastforce simp: in_frames_in)
  then have "frames_in T' = free_frames u - free_frames w" using fresh_pages_image [OF fp finite_free] by simp
  then have "free_frames ?m' \<union> frames_in T' = free_frames m \<union> frames_in T" using sub u(1) by auto
  then show ?thesis unfolding new_region1_def using sp' val fresh_pages_page [OF fp] w by auto
qed

lemma build_region1_ok:
  assumes sp: "space_ok m t T" and fit: "pages_fit lay li" and fr: "card (program_pages lay li) \<le> card (free_frames m \<union> frames_in T)"
  shows "\<exists>m' T'. build_region1 t own MAX_PT_LEN lay li m = Ret () m' \<and> new_region1 m t T (program_pages lay li) m' T'"
proof -
  let ?U = "map (valid_update (\<lambda>_. False)) T"
  have T: "length T = MAX_PT_LEN" and t: "t \<noteq> 0" using sp by (simp_all add: space_ok_def)
  from discard_region1_ok [OF sp] obtain u where u: "discard_region1 t m = Ret () u" "discarded m t T MAX_PT_LEN u" by blast
  have wf: "mem_wf u" and fu: "free_frames u = free_frames m \<union> frames_in T"
    and eq: "u = m\<lparr>frame_table := frame_table u, free_nframes := free_nframes u, pts := (pts m)(t \<mapsto> ?U)\<rparr>"
    using u(2) T by (simp_all add: discarded_def)
  have p: "pts u = (pts m)(t \<mapsto> ?U)" "phys u = phys m" "nframes u = nframes m"
      "pt_region0 u = pt_region0 m" "tlb u = tlb m" "reg_ptbr1 u = reg_ptbr1 m" "reg_ptlr1 u = reg_ptlr1 m" by (subst eq, simp)+
  from map_program_ok [OF wf t _ _ fit, of ?U own] fr fu p(1) T obtain w where
    w: "thn (map_pages t own (text_pg1 lay) (t_npg li)) (thn (map_pages t own (data_pg1 lay) (data_npg lay))
      (map_pages t own (MAX_PT_LEN - stack_npg lay) (stack_npg lay))) u = Ret () w"
    "user_grown u t ?U (program_pages lay li) w" by auto
  have "build_region1 t own MAX_PT_LEN lay li m = Ret () (w\<lparr>tlb := tlb_flush TLB_FLUSH_1 (tlb w)\<rparr>)"
    using u(1) w(1) by (simp add: build_region1_def thn_assoc thn_app [of _ "WriteRegister r" for r] WriteRegister_def modify_app)
       (simp add: thn_app modify_app)
  moreover from new_region1_space [OF sp w(2) _ _ fu p] T
  have "\<exists>T'. new_region1 m t T (program_pages lay li) (w\<lparr>tlb := tlb_flush TLB_FLUSH_1 (tlb w)\<rparr>) T'" by simp
  ultimately show ?thesis by blast
qed


section \<open>Filling the pages\<close>

text \<open>A copy into writable memory is the stores of its bytes, and changes nothing but the contents of the mapped frames and the TLB.\<close>

definition contents_changed :: "kmem \<Rightarrow> kmem \<Rightarrow> bool" where
  "contents_changed m m' \<longleftrightarrow> (\<exists>T P. m' = m\<lparr>tlb := T, phys := P\<rparr>) \<and> translate m' = translate m \<and>
     (\<forall>f. f \<notin> mapped_frames m \<longrightarrow> phys m' f = phys m f)"

lemma contents_refl [simp]: "contents_changed m m"
proof -
  have "m = m\<lparr>tlb := tlb m, phys := phys m\<rparr>" by simp
  then show ?thesis unfolding contents_changed_def by blast
qed

lemma contents_trans: "contents_changed m u \<Longrightarrow> contents_changed u w \<Longrightarrow> contents_changed m w"
proof -
  assume "contents_changed m u" "contents_changed u w"
  moreover from this obtain T P T' P' where "u = m\<lparr>tlb := T, phys := P\<rparr>" "w = u\<lparr>tlb := T', phys := P'\<rparr>"
    unfolding contents_changed_def by blast
  then have "w = m\<lparr>tlb := T', phys := P'\<rparr>" by simp
  moreover have "mapped_frames u = mapped_frames m" using calculation(1) by (simp add: contents_changed_def mapped_frames_def)
  ultimately show ?thesis unfolding contents_changed_def by metis
qed

lemma contents_keeps:
  assumes "contents_changed m m'"
  shows "user_writable m' = user_writable m" "private_frames m' = private_frames m" "nframes m' = nframes m"
    "free_frames m' = free_frames m" "pts m' = pts m" "pt_region0 m' = pt_region0 m" "translate m' = translate m"
    "reg_ptbr1 m' = reg_ptbr1 m" "reg_ptlr1 m' = reg_ptlr1 m" "mem_wf m' = mem_wf m" "pt_entry m' = pt_entry m"
    "mapped_frames m' = mapped_frames m"
proof -
  from assms obtain T P where m': "m' = m\<lparr>tlb := T, phys := P\<rparr>" and tr: "translate m' = translate m"
    unfolding contents_changed_def by blast
  then have nf: "nframes m' = nframes m" by simp
  show "user_writable m' = user_writable m" by (rule ext) (simp only: user_writable_def tr nf)
  show "private_frames m' = private_frames m" by (simp only: private_frames_def tr)
  show "mem_wf m' = mem_wf m" using frames_wf_cong [of m' m] by (simp add: mem_wf_def m')
  show "nframes m' = nframes m" "free_frames m' = free_frames m" "pts m' = pts m" "pt_region0 m' = pt_region0 m"
    "reg_ptbr1 m' = reg_ptbr1 m" "reg_ptlr1 m' = reg_ptlr1 m" "translate m' = translate m"
    using tr by (simp_all add: m' free_frames_def)
  show "pt_entry m' = pt_entry m" by (simp add: m')
  show "mapped_frames m' = mapped_frames m" by (simp only: mapped_frames_def tr)
qed

lemma store_byte_poke:
  assumes "private_frames m" "user_writable m a"
  shows "\<exists>m'. store_byte (of_nat a) b m = Ret () m' \<and> contents_changed m m' \<and> user_memory m' = (user_memory m)(a \<mapsto> b)"
proof -
  from user_poke_law [OF assms, of b] obtain m' where m': "user_poke a b m = Some m'" "user_memory m' = (user_memory m)(a \<mapsto> b)" by blast
  then have s: "store_byte (of_nat a) b m = Ret () m'" by (auto simp: user_poke_def split: outcome.splits)
  from assms(2) obtain e where e: "translate m (vpn_of (of_nat a)) = Some e" "prot e AND PROT_WRITE = PROT_WRITE" "frame_of e < nframes m"
    by (auto simp: user_writable_def split: option.splits)
  from store_byte_value [OF e, of b] s obtain P where
    eq: "m' = m\<lparr>tlb := (tlb m)(vpn_of (of_nat a) \<mapsto> e), phys := P\<rparr>" and P: "\<forall>f. f \<noteq> frame_of e \<longrightarrow> P f = phys m f" by auto
  have "translate m' = translate m" using translate_cached [OF e(1)] by (auto simp: eq translate_phys fun_eq_iff)
  moreover have "\<forall>f. f \<notin> mapped_frames m \<longrightarrow> phys m' f = phys m f" using P ranI [of "translate m", OF e(1)] by (auto simp: eq mapped_frames_def)
  ultimately have "contents_changed m m'" unfolding contents_changed_def using eq by blast
  with s m' show ?thesis by blast
qed

lemma copy_out_filled:
  "private_frames m \<Longrightarrow> (\<And>j. j < length xs \<Longrightarrow> user_writable m (a + j)) \<Longrightarrow>
    \<exists>m'. copy_out (of_nat a) xs m = Ret () m' \<and> contents_changed m m' \<and> user_memory m' = filled a xs (user_memory m)"
proof (induction xs arbitrary: a m)
  case Nil
  have "filled a [] (user_memory m) = user_memory m" by (auto simp: filled_def fun_eq_iff)
  then show ?case by (intro exI [of _ m]) (simp add: ret_app)
next
  case (Cons x xs)
  from store_byte_poke [OF Cons.prems(1), of a x] Cons.prems(2) [of 0] obtain u where
    u: "store_byte (of_nat a) x m = Ret () u" "contents_changed m u" "user_memory u = (user_memory m)(a \<mapsto> x)" by auto
  have "private_frames u" "user_writable u (Suc a + j)" if "j < length xs" for j
    using contents_keeps [OF u(2)] Cons.prems Cons.prems(2) [of "Suc j"] that by simp_all
  moreover have "private_frames u" using contents_keeps [OF u(2)] Cons.prems by simp
  ultimately obtain w where w: "copy_out (of_nat (Suc a)) xs u = Ret () w" "contents_changed u w"
    "user_memory w = filled (Suc a) xs (user_memory u)" using Cons.IH [of u "Suc a"] by blast
  have "copy_out (of_nat a) (x # xs) m = Ret () w" using u(1) w(1) by (simp add: thn_app add.commute)
  then show ?case using contents_trans [OF u(2) w(2)] w(3) u(3) by (simp add: filled_step del: fun_upd_apply)
qed

lemma space_ok_contents: "space_ok m t T \<Longrightarrow> contents_changed m m' \<Longrightarrow> tlb_coherent m' \<Longrightarrow> space_ok m' t T"
  by (simp add: space_ok_def contents_keeps)

lemma contents_coherent: "tlb_coherent m \<Longrightarrow> contents_changed m m' \<Longrightarrow> tlb_coherent m'"
proof -
  assume "tlb_coherent m" and c: "contents_changed m m'"
  then have "translate m' = pt_entry m'" using contents_keeps [OF c] translate_coherent by (auto simp: fun_eq_iff)
  then show ?thesis unfolding tlb_coherent_def translate_def fun_eq_iff by (metis option.case(2))
qed

lemma space_contents: "space_ok m t T \<Longrightarrow> contents_changed m m' \<Longrightarrow> space_ok m' t T"
  using space_ok_contents contents_coherent by (metis space_ok_def)


section \<open>Addresses\<close>

lemma nat_vpn: "a < 2 ^ 32 \<Longrightarrow> vpn_of (of_nat a) = a div 8192"
  by (simp only: vpn_of_div unat_of_nat_small)

lemma region1_page:
  assumes "0x100000 \<le> a" "a < 0x200000"
  obtains i where "vpn_of (of_nat a) = MAX_PT_LEN + i" "i < MAX_PT_LEN" "i = a div 8192 - 128"
proof -
  have "vpn_of (of_nat a) = a div 8192" by (rule nat_vpn) (use assms in simp)
  moreover have "128 \<le> a div 8192" "a div 8192 < 256" using assms by simp_all
  ultimately show thesis using that [of "a div 8192 - 128"] by (simp add: MAX_PT_LEN_def)
qed

lemma space_writable:
  assumes "space_ok m t T" "0x100000 \<le> a" "a < 0x200000" "valid (T ! (a div 8192 - 128))"
    "prot (T ! (a div 8192 - 128)) = PROT_READ OR PROT_WRITE"
  shows "user_writable m a"
proof -
  obtain i where i: "vpn_of (of_nat a) = MAX_PT_LEN + i" "i < MAX_PT_LEN" "i = a div 8192 - 128" by (rule region1_page [OF assms(2,3)])
  have "translate m (vpn_of (of_nat a)) = Some (T ! i)"
    using i assms(4) by (simp add: space_translate [OF assms(1)] pt_entry_region1 [OF assms(1)])
  then show ?thesis
    using assms(3,5) i space_frames [OF assms(1) i(2)] assms(4) by (simp add: user_writable_def prot_defs)
qed

section \<open>The text becomes read-only\<close>

definition protected :: "pte list \<Rightarrow> nat \<Rightarrow> nat \<Rightarrow> pte list" where
  "protected T base n = map (\<lambda>v. if v \<in> {base..<base + n} then (T ! v)\<lparr>prot := PROT_READ OR PROT_EXEC\<rparr> else T ! v) [0..<length T]"

lemma protected_nth: "v < length T \<Longrightarrow> protected T base n ! v =
    (if v \<in> {base..<base + n} then (T ! v)\<lparr>prot := PROT_READ OR PROT_EXEC\<rparr> else T ! v)"
  by (simp add: protected_def)

lemma length_protected [simp]: "length (protected T base n) = length T"
  by (simp add: protected_def)

lemma frames_in_protected: "frames_in (protected T base n) = frames_in T"
proof -
  have "valid (protected T base n ! i) = valid (T ! i) \<and> frame_of (protected T base n ! i) = frame_of (T ! i)" if "i < length T" for i
    using that by (simp add: protected_nth frame_of_def)
  then show ?thesis by (intro set_eqI) (metis in_frames_in length_protected)
qed

lemma protected_Suc: "base + i < length T \<Longrightarrow>
    (protected T base i)[base + i := (protected T base i ! (base + i))\<lparr>prot := PROT_READ OR PROT_EXEC\<rparr>] = protected T base (Suc i)"
  by (rule nth_equalityI) (auto simp: protected_nth nth_list_update)

lemma protect_loop:
  assumes "t \<noteq> 0" "pts m t = Some T" "base + n \<le> length T"
  shows "for_do 0 n (\<lambda>i. upd_pte t (int (base + i)) (\<lambda>e. e\<lparr>prot := PROT_READ OR PROT_EXEC\<rparr>)) m =
    Ret () (m\<lparr>pts := (pts m)(t \<mapsto> protected T base n)\<rparr>)"
proof -
  let ?P = "\<lambda>i u. u = m\<lparr>pts := (pts m)(t \<mapsto> protected T base i)\<rparr>"
  have "protected T base 0 = T" by (rule nth_equalityI) (auto simp: protected_nth)
  then have start: "?P 0 m" using assms(2) by (simp add: fun_upd_idem)
  have "\<exists>u. for_do 0 n (\<lambda>i. upd_pte t (int (base + i)) (\<lambda>e. e\<lparr>prot := PROT_READ OR PROT_EXEC\<rparr>)) m = Ret () u \<and> ?P n u"
  proof (rule for_do_rule [where P = ?P])
    fix i u assume i: "i < n" and P: "?P i u"
    have p: "pts u t = Some (protected T base i)" by (subst P) simp
    have b: "0 \<le> int (base + i)" "nat (int (base + i)) < length (protected T base i)" "base + i < length T" using i assms(3) by simp_all
    have nb: "nat (int (base + i)) = base + i" by (rule nat_int)
    have "upd_pte t (int (base + i)) (\<lambda>e. e\<lparr>prot := PROT_READ OR PROT_EXEC\<rparr>) u =
        Ret () (u\<lparr>pts := (pts u)(t \<mapsto> protected T base (Suc i))\<rparr>)"
      unfolding upd_pte_eval [OF assms(1) p b(1,2)] nb protected_Suc [OF b(3)] ..
    moreover have "u\<lparr>pts := (pts u)(t \<mapsto> protected T base (Suc i))\<rparr> = m\<lparr>pts := (pts m)(t \<mapsto> protected T base (Suc i))\<rparr>"
      by (simp add: P)
    ultimately show "\<exists>u'. upd_pte t (int (base + i)) (\<lambda>e. e\<lparr>prot := PROT_READ OR PROT_EXEC\<rparr>) u = Ret () u' \<and> ?P (Suc i) u'" by simp
  qed (use start in simp_all)
  then show ?thesis by blast
qed

lemma protect_text_ok:
  assumes sp: "space_ok m t T" and n: "base + n \<le> MAX_PT_LEN" and rd: "\<And>v. v \<in> {base..<base + n} \<Longrightarrow> prot (T ! v) = PROT_READ OR PROT_WRITE"
  shows "\<exists>m'. protect_text t base n m = Ret () m' \<and> space_ok m' t (protected T base n) \<and> user_memory m' = user_memory m \<and>
    free_frames m' = free_frames m \<and> nframes m' = nframes m \<and> pts m' = (pts m)(t \<mapsto> protected T base n) \<and> pt_region0 m' = pt_region0 m \<and>
    phys m' = phys m \<and> mapped_frames m' = mapped_frames m"
proof -
  let ?T = "protected T base n"
  let ?m = "m\<lparr>pts := (pts m)(t \<mapsto> ?T), tlb := tlb_flush TLB_FLUSH_1 (tlb m)\<rparr>"
  let ?g = "\<lambda>v e. if v - MAX_PT_LEN \<in> {base..<base + n} \<and> MAX_PT_LEN \<le> v then e\<lparr>prot := PROT_READ OR PROT_EXEC\<rparr> else e"
  have s: "t \<noteq> 0" "pts m t = Some T" "length T = MAX_PT_LEN" "reg_ptbr1 m = t" "reg_ptlr1 m = MAX_PT_LEN" "mem_wf m" "tlb_coherent m"
    using sp by (simp_all add: space_ok_def)
  have run: "protect_text t base n m = Ret () ?m"
    using protect_loop [OF s(1,2), of base n] n s(3)
    by (simp add: protect_text_def thn_app WriteRegister_def modify_app)
  have pe: "pt_entry (m\<lparr>pts := (pts m)(t \<mapsto> ?T)\<rparr>) v = map_option (?g v) (pt_entry m v)" for v
    by (auto simp: pt_entry_def s Let_def protected_nth)
  have coh: "tlb_coherent ?m"
    using s(7) by (auto simp: tlb_coherent_def pe tlb_flush_def flush_defs split: if_splits)
  have tr: "translate ?m v = map_option (?g v) (translate m v)" for v
    by (simp only: translate_coherent [OF coh] space_translate [OF sp] pt_entry_frame pe)
  have fg: "frame_of (e\<lparr>prot := p\<rparr>) = frame_of e" for e p by (simp add: frame_of_def)
  have "private_frames m" using sp by (simp add: space_ok_def)
  then have priv: "private_frames ?m" unfolding private_frames_def tr by (auto simp: fg)
  have "mem_wf ?m" using s(6) by simp
  then have sp': "space_ok ?m t ?T"
    unfolding space_ok_def using s coh priv sp by (auto simp: pe fg space_ok_def)
  have "prot (?g v e) AND PROT_READ = PROT_READ \<longleftrightarrow> prot e AND PROT_READ = PROT_READ" if "translate m v = Some e" for v e
  proof (cases "v - MAX_PT_LEN \<in> {base..<base + n} \<and> MAX_PT_LEN \<le> v")
    case True
    then obtain i where i: "v = MAX_PT_LEN + i" "i \<in> {base..<base + n}" by (metis le_add_diff_inverse)
    then have "e = T ! i" using that n by (auto simp: space_translate [OF sp] pt_entry_region1 [OF sp] split: if_splits)
    then show ?thesis using rd [OF i(2)] True by (simp add: prot_defs)
  qed auto
  then have "user_memory ?m a = user_memory m a" for a
    by (auto simp: user_memory_def load_byte_value tr fg split: option.splits)
  moreover have "mapped_frames ?m = mapped_frames m" by (simp add: space_mapped [OF sp] space_mapped [OF sp'] frames_in_protected)
  ultimately show ?thesis using run sp' by (intro exI [of _ ?m]) auto
qed


section \<open>Text and data\<close>

text \<open>
  The ranges of a well-formed executable, as \<^verbatim>\<open>load_info.h\<close> documents them: the text and the data start on a page of region 1, the text lies
  below the data, the initialised data ends in its pages and the uninitialised data ends in the pages of the data.
\<close>

definition info_ok :: "load_info \<Rightarrow> bool" where
  "info_ok li \<longleftrightarrow> VMEM_1_BASE \<le> t_vaddr li \<and> unat (t_vaddr li) mod PAGESIZE = 0 \<and>
     VMEM_1_BASE \<le> id_vaddr li \<and> unat (id_vaddr li) mod PAGESIZE = 0 \<and>
     unat (t_vaddr li) + t_npg li * PAGESIZE \<le> unat (id_vaddr li) \<and>
     id_vaddr li \<le> id_end li \<and> unat (id_end li) \<le> unat (id_vaddr li) + id_npg li * PAGESIZE \<and>
     id_end li \<le> ud_end li \<and> unat (ud_end li) \<le> unat (id_vaddr li) + (id_npg li + ud_npg li) * PAGESIZE"

lemma segment_base:
  assumes "VMEM_1_BASE \<le> v" "unat v mod PAGESIZE = 0"
  shows "unat v = 0x100000 + 8192 * vpn_of (v - VMEM_1_BASE)"
proof -
  have ge: "1048576 \<le> unat v" using assms(1) by (simp add: word_le_nat_alt VMEM_1_BASE_def)
  have "unat (v - VMEM_1_BASE) = unat v - 1048576" using assms(1) by (simp add: unat_sub VMEM_1_BASE_def)
  moreover obtain k where k: "unat v = 8192 * k" using assms(2) by (auto simp: PAGESIZE_def elim: dvdE simp flip: dvd_eq_mod_eq_0)
  ultimately have "vpn_of (v - VMEM_1_BASE) = (8192 * k - 8192 * 128) div 8192" by (simp add: vpn_of_div)
  also have "\<dots> = k - 128" by (simp flip: diff_mult_distrib2)
  finally show ?thesis using k ge by simp
qed

lemma layout_fits:
  assumes "info_ok li" and "stack_npg lay + data_pg1 lay + data_npg lay < MAX_PT_LEN"
    and "text_pg1 lay = vpn_of (t_vaddr li - VMEM_1_BASE)" "data_pg1 lay = vpn_of (id_vaddr li - VMEM_1_BASE)"
  shows "pages_fit lay li" "unat (t_vaddr li) = 0x100000 + 8192 * text_pg1 lay" "unat (id_vaddr li) = 0x100000 + 8192 * data_pg1 lay"
proof -
  show t: "unat (t_vaddr li) = 0x100000 + 8192 * text_pg1 lay" and d: "unat (id_vaddr li) = 0x100000 + 8192 * data_pg1 lay"
    using assms segment_base by (simp_all add: info_ok_def)
  have "unat (t_vaddr li) + t_npg li * 8192 \<le> unat (id_vaddr li)" using assms(1) by (simp add: info_ok_def PAGESIZE_def)
  then show "pages_fit lay li" using assms(2) t d by (simp add: pages_fit_def)
qed

text \<open>A range that lies in a run of pages of the table.\<close>

lemma range_writable:
  assumes sp: "space_ok m t T" and pg: "\<And>v. v \<in> {b..<b + n} \<Longrightarrow> valid (T ! v) \<and> prot (T ! v) = PROT_READ OR PROT_WRITE"
    and n: "b + n \<le> MAX_PT_LEN" and a: "0x100000 + 8192 * b \<le> a" "a < 0x100000 + 8192 * (b + n)"
  shows "user_writable m a"
proof -
  have "128 + b \<le> a div 8192" "a div 8192 < 128 + (b + n)" using a by (simp_all add: less_eq_div_iff_mult_less_eq div_less_iff_less_mult)
  then have "a div 8192 - 128 \<in> {b..<b + n}" by auto
  from pg [OF this] show ?thesis using a n by (intro space_writable [OF sp]) (simp_all add: MAX_PT_LEN_def)
qed

text \<open>What loading leaves of the memory it was given, and the bytes of the segments.\<close>

definition loaded :: "kmem \<Rightarrow> addr \<Rightarrow> kmem \<Rightarrow> pte list \<Rightarrow> (cmem \<Rightarrow> cmem) \<Rightarrow> bool" where
  "loaded m t m' T' g \<longleftrightarrow> space_ok m' t T' \<and> user_memory m' = g (user_memory m) \<and> free_frames m' = free_frames m \<and> nframes m' = nframes m \<and>
     pts m' = (pts m)(t \<mapsto> T') \<and> pt_region0 m' = pt_region0 m \<and> mapped_frames m' = mapped_frames m \<and>
     (\<forall>f. f \<notin> mapped_frames m \<longrightarrow> phys m' f = phys m f)"

definition segments :: "load_info \<Rightarrow> (nat \<Rightarrow> nat \<Rightarrow> byte list) \<Rightarrow> cmem \<Rightarrow> cmem" where
  "segments li rd M = filled (unat (id_end li)) (replicate (unat (ud_end li) - unat (id_end li)) 0)
     (filled (unat (id_vaddr li)) (take (id_npg li * PAGESIZE) (rd (id_faddr li) (id_npg li * PAGESIZE)))
     (filled (unat (t_vaddr li)) (take (t_npg li * PAGESIZE) (rd (t_faddr li) (t_npg li * PAGESIZE))) M))"

text \<open>\<^verbatim>\<open>read\<close> delivers both segments in full.\<close>

definition complete_file :: "load_info \<Rightarrow> (nat \<Rightarrow> nat \<Rightarrow> byte list) \<Rightarrow> bool" where
  "complete_file li rd \<longleftrightarrow> t_npg li * PAGESIZE \<le> length (rd (t_faddr li) (t_npg li * PAGESIZE)) \<and>
     id_npg li * PAGESIZE \<le> length (rd (id_faddr li) (id_npg li * PAGESIZE))"

lemma copy_out_space:
  assumes sp: "space_ok m t T" and pg: "\<And>v. v \<in> {b..<b + n} \<Longrightarrow> valid (T ! v) \<and> prot (T ! v) = PROT_READ OR PROT_WRITE"
    and n: "b + n \<le> MAX_PT_LEN" and a: "0x100000 + 8192 * b \<le> unat a" "unat a + length xs \<le> 0x100000 + 8192 * (b + n)"
  shows "\<exists>m'. copy_out a xs m = Ret () m' \<and> contents_changed m m' \<and> space_ok m' t T \<and> user_memory m' = filled (unat a) xs (user_memory m)"
proof -
  have "private_frames m" using sp by (simp add: space_ok_def)
  from copy_out_filled [OF this, of xs "unat a"] range_writable [OF sp pg n] a obtain m' where
    "copy_out a xs m = Ret () m'" "contents_changed m m'" "user_memory m' = filled (unat a) xs (user_memory m)" by fastforce
  with space_contents [OF sp] show ?thesis by blast
qed

lemma load_segments_ok:
  assumes sp: "space_ok m t T" and li: "info_ok li" and fit: "pages_fit lay li" and dn: "data_npg lay = id_npg li + ud_npg li"
    and b: "unat (t_vaddr li) = 0x100000 + 8192 * text_pg1 lay" "unat (id_vaddr li) = 0x100000 + 8192 * data_pg1 lay"
    and pg: "\<And>v. v \<in> program_pages lay li \<Longrightarrow> valid (T ! v) \<and> prot (T ! v) = PROT_READ OR PROT_WRITE"
    and rd: "complete_file li rd"
  shows "\<exists>m'. load_segments t lay li rd m = Ret True m' \<and>
    loaded m t m' (protected T (text_pg1 lay) (t_npg li)) (segments li rd)"
proof -
  let ?xt = "take (t_npg li * PAGESIZE) (rd (t_faddr li) (t_npg li * PAGESIZE))"
    and ?xd = "take (id_npg li * PAGESIZE) (rd (id_faddr li) (id_npg li * PAGESIZE))"
    and ?z = "replicate (unat (ud_end li) - unat (id_end li)) (0 :: byte)" and ?T = "protected T (text_pg1 lay) (t_npg li)"
  have xl: "length ?xt = t_npg li * PAGESIZE" "length ?xd = id_npg li * PAGESIZE" using rd by (simp_all add: complete_file_def)
  have tp: "text_pg1 lay + t_npg li \<le> MAX_PT_LEN" and dp: "data_pg1 lay + data_npg lay \<le> MAX_PT_LEN" using fit by (simp_all add: pages_fit_def)
  have T: "length T = MAX_PT_LEN" using sp by (simp add: space_ok_def)
  have pt: "v \<in> {text_pg1 lay..<text_pg1 lay + t_npg li} \<Longrightarrow> valid (T ! v) \<and> prot (T ! v) = PROT_READ OR PROT_WRITE"
    and pd: "v \<in> {data_pg1 lay..<data_pg1 lay + data_npg lay} \<Longrightarrow> valid (T ! v) \<and> prot (T ! v) = PROT_READ OR PROT_WRITE" for v
    using pg by (auto simp: program_pages_def text_pages_def data_pages_def)
  have pd': "v \<in> {data_pg1 lay..<data_pg1 lay + data_npg lay} \<Longrightarrow> valid (?T ! v) \<and> prot (?T ! v) = PROT_READ OR PROT_WRITE" for v
    using pd [of v] fit T by (auto simp: protected_nth pages_fit_def)
  from copy_out_space [OF sp pt tp, of "t_vaddr li" ?xt] b(1) xl(1) obtain m1 where
    m1: "copy_out (t_vaddr li) ?xt m = Ret () m1" "contents_changed m m1" "space_ok m1 t T"
      "user_memory m1 = filled (unat (t_vaddr li)) ?xt (user_memory m)" by (auto simp: PAGESIZE_def)
  from copy_out_space [OF m1(3) pd dp, of "id_vaddr li" ?xd] b(2) xl(2) dn obtain m2 where
    m2: "copy_out (id_vaddr li) ?xd m1 = Ret () m2" "contents_changed m1 m2" "space_ok m2 t T"
      "user_memory m2 = filled (unat (id_vaddr li)) ?xd (user_memory m1)" by (auto simp: PAGESIZE_def)
  from protect_text_ok [OF m2(3) tp] pt obtain m3 where
    m3: "protect_text t (text_pg1 lay) (t_npg li) m2 = Ret () m3" "space_ok m3 t ?T" "user_memory m3 = user_memory m2"
      "free_frames m3 = free_frames m2" "nframes m3 = nframes m2" "pts m3 = (pts m2)(t \<mapsto> ?T)" "pt_region0 m3 = pt_region0 m2"
      "phys m3 = phys m2" "mapped_frames m3 = mapped_frames m2" by blast
  have e: "unat (id_vaddr li) \<le> unat (id_end li)" "unat (id_end li) \<le> unat (ud_end li)"
    "unat (ud_end li) \<le> unat (id_vaddr li) + (id_npg li + ud_npg li) * PAGESIZE"
    "unat (ud_end li - id_end li) = unat (ud_end li) - unat (id_end li)"
    using li by (simp_all add: info_ok_def word_le_nat_alt unat_sub)
  from copy_out_space [OF m3(2) pd' dp, of "id_end li" ?z] e b(2) dn obtain m4 where
    m4: "copy_out (id_end li) ?z m3 = Ret () m4" "contents_changed m3 m4" "space_ok m4 t ?T"
      "user_memory m4 = filled (unat (id_end li)) ?z (user_memory m3)" by (auto simp: PAGESIZE_def)
  have "load_segments t lay li rd m = Ret True m4"
    using m1(1) m2(1) m3(1) m4(1) xl e(4) unfolding load_segments_def read_segment_def Let_def
    by (simp add: bnd_app thn_app ret_app del: length_take)
  moreover have "phys m4 f = phys m f" if "f \<notin> mapped_frames m" for f
    using that m1(2) m2(2) m3(8,9) m4(2) contents_keeps(12) [OF m1(2)] contents_keeps(12) [OF m2(2)] by (simp add: contents_changed_def)
  ultimately show ?thesis
    using m1 m2 m3 m4 contents_keeps [OF m1(2)] contents_keeps [OF m2(2)] contents_keeps [OF m4(2)]
    unfolding loaded_def segments_def by (intro exI [of _ m4]) simp
qed

end
