(* ===== verification/Program_Arguments.thy ===== *)
theory Program_Arguments
  imports Loading
begin

text \<open>
  The arguments of a new program (\<^verbatim>\<open>kernel_load_program.c\<close>): the vector of strings the caller gives, how the loader reads it with the kernel's copies,
  and what it builds at the top of the new stack: the strings, the argument vector, its null word and the empty environment. The bounds on the
  caller's strings are those the address space sets.
\<close>

section \<open>The argument list\<close>

text \<open>
  A vector of strings in memory: pointers to strings, ended by a null pointer. It is what \<^verbatim>\<open>Exec\<close> is given and what the new program
  finds above its stack pointer.
\<close>

fun argv_at :: "cmem \<Rightarrow> nat \<Rightarrow> byte list list \<Rightarrow> bool" where
  "argv_at M a [] \<longleftrightarrow> bytes_at M a (word_bytes 0)"
| "argv_at M a (x # xs) \<longleftrightarrow> (\<exists>q. q \<noteq> 0 \<and> bytes_at M a (word_bytes q) \<and> cstring M (unat q) x \<and> argv_at M (a + 4) xs)"

lemma length_word_bytes [simp]: "length (word_bytes w) = 4"
  by (simp add: word_bytes_def)

lemma word_of_bytes: "word_rcat (rev (word_bytes w)) = w"
proof -
  have x: "0 \<le> uint w" "uint w < 2 ^ 32" using uint_lt2p [of w] by simp_all
  have w: "uint w mod 4294967296 = uint w" using x by simp
  have s: "uint (ucast (drop_bit k w) :: byte) = uint w div 2 ^ k mod 256" for k
    by (simp only: unsigned_ucast_eq unsigned_drop_bit_eq) (simp add: take_bit_eq_mod drop_bit_eq_div w)
  have s0: "uint (ucast w :: byte) = uint w mod 256" using s [of 0] by simp
  define a where "a = uint w"
  have "a div 2 ^ 24 < 256" using x by (simp add: a_def)
  then have d: "a div 2 ^ 24 mod 256 = a div 2 ^ 24" using x by (simp add: a_def pos_imp_zdiv_nonneg_iff)
  have q: "a div 2 ^ 16 = a div 2 ^ 8 div 256" "a div 2 ^ 24 = a div 2 ^ 16 div 256" by (simp_all add: zdiv_zmult2_eq [symmetric])
  have "horner_sum uint 256 (word_bytes w) = a mod 256 + 256 * (a div 2 ^ 8 mod 256 + 256 * (a div 2 ^ 16 mod 256 + 256 * (a div 2 ^ 24)))"
    by (simp only: word_bytes_def horner_sum_simps s0 s a_def [symmetric] d mult_zero_right add_0_right)
  also have "\<dots> = a mod 256 + 256 * (a div 2 ^ 8 mod 256 + 256 * (a div 2 ^ 16))" by (simp only: q(2) mod_mult_div_eq)
  also have "\<dots> = a mod 256 + 256 * (a div 2 ^ 8)" by (simp only: q(1) mod_mult_div_eq)
  also have "\<dots> = a" by simp
  finally have "horner_sum uint 256 (word_bytes w) = uint w" by (simp only: a_def)
  then show ?thesis by (simp add: word_rcat_def)
qed

text \<open>What the loop of \<^verbatim>\<open>LoadProgram\<close> writes: pointers from \<open>cpp\<close> on, strings from \<open>cp\<close> on.\<close>

fun args_from :: "cmem \<Rightarrow> nat \<Rightarrow> nat \<Rightarrow> byte list list \<Rightarrow> bool" where
  "args_from M cpp cp [] \<longleftrightarrow> True"
| "args_from M cpp cp (x # xs) \<longleftrightarrow> bytes_at M cpp (word_bytes (of_nat cp)) \<and> bytes_at M cp (x @ [0]) \<and>
     args_from M (cpp + 4) (cp + length x + 1) xs"

lemma arg_size_simps [simp]: "arg_size [] = 0" "arg_size (x # xs) = length x + 1 + arg_size xs"
  by (simp_all add: arg_size_def)

lemma args_from_cong:
  "(\<And>c. cpp \<le> c \<Longrightarrow> c < cpp + 4 * length xs \<Longrightarrow> M' c = M c) \<Longrightarrow> (\<And>c. cp \<le> c \<Longrightarrow> c < cp + arg_size xs \<Longrightarrow> M' c = M c) \<Longrightarrow>
    args_from M' cpp cp xs = args_from M cpp cp xs"
proof (induction xs arbitrary: cpp cp)
  case (Cons x xs)
  have "bytes_at M' cpp (word_bytes (of_nat cp)) = bytes_at M cpp (word_bytes (of_nat cp))"
    "bytes_at M' cp (x @ [0]) = bytes_at M cp (x @ [0])" using Cons.prems by (intro bytes_at_cong; simp)+
  moreover have "args_from M' (cpp + 4) (cp + length x + 1) xs = args_from M (cpp + 4) (cp + length x + 1) xs"
    using Cons.prems by (intro Cons.IH) simp_all
  ultimately show ?case by (simp only: args_from.simps)
qed simp

lemma args_from_argv:
  "args_from M cpp cp xs \<Longrightarrow> bytes_at M (cpp + 4 * length xs) (word_bytes 0) \<Longrightarrow> \<forall>x \<in> set xs. 0 \<notin> set x \<Longrightarrow> 0 < cp \<Longrightarrow>
    cp + arg_size xs < 2 ^ 32 \<Longrightarrow> argv_at M cpp xs"
proof (induction xs arbitrary: cpp cp)
  case (Cons x xs)
  have u: "unat (of_nat cp :: word32) = cp" using Cons.prems(5) by (intro unat_of_nat_small) simp
  then have "(of_nat cp :: word32) \<noteq> 0" using Cons.prems(4) by auto
  moreover have "argv_at M (cpp + 4) xs"
    by (rule Cons.IH [of _ "cp + length x + 1"]) (use Cons.prems in \<open>simp_all add: add.assoc\<close>)
  moreover have "cstring M (unat (of_nat cp :: word32)) x" using Cons.prems(1,3) u by (simp add: cstring_def)
  ultimately show ?case using Cons.prems(1) by auto
qed simp

text \<open>The loop, in memory that is writable throughout.\<close>

definition writable_range :: "kmem \<Rightarrow> nat \<Rightarrow> nat \<Rightarrow> bool" where
  "writable_range m a b \<longleftrightarrow> b \<le> 2 ^ 32 \<and> (\<forall>c. a \<le> c \<longrightarrow> c < b \<longrightarrow> user_writable m c)"

lemma copy_out_range:
  assumes "private_frames m" "writable_range m a b" "a \<le> c" "c + length xs \<le> b"
  shows "\<exists>m'. copy_out (of_nat c) xs m = Ret () m' \<and> contents_changed m m' \<and> user_memory m' = filled c xs (user_memory m)"
  using assms by (intro copy_out_filled) (auto simp: writable_range_def)

lemma writable_range_contents: "contents_changed m m' \<Longrightarrow> writable_range m' a b = writable_range m a b"
  by (simp add: writable_range_def contents_keeps)

lemma put_args_ok:
  "private_frames m \<Longrightarrow> writable_range m a b \<Longrightarrow> a \<le> cpp \<Longrightarrow> cpp + 4 * length xs \<le> cp \<Longrightarrow> cp + arg_size xs \<le> b \<Longrightarrow>
   \<exists>m'. put_args (of_nat cpp) (of_nat cp) xs m = Ret (of_nat (cpp + 4 * length xs)) m' \<and> contents_changed m m' \<and>
     args_from (user_memory m') cpp cp xs \<and>
     (\<forall>c. \<not> (cpp \<le> c \<and> c < cpp + 4 * length xs) \<longrightarrow> \<not> (cp \<le> c \<and> c < cp + arg_size xs) \<longrightarrow> user_memory m' c = user_memory m c)"
proof (induction xs arbitrary: m cpp cp)
  case Nil
  then show ?case by (simp add: ret_app)
next
  case (Cons x xs)
  from copy_out_range [OF Cons.prems(1-3), of "word_bytes (of_nat cp)"] Cons.prems(4,5) obtain m1 where
    m1: "copy_out (of_nat cpp) (word_bytes (of_nat cp)) m = Ret () m1" "contents_changed m m1"
      "user_memory m1 = filled cpp (word_bytes (of_nat cp)) (user_memory m)" by auto
  have 1: "private_frames m1" "writable_range m1 a b" using Cons.prems(1,2) m1(2) by (simp_all add: contents_keeps writable_range_contents)
  from copy_out_range [OF 1, of cp "x @ [0]"] Cons.prems(3-5) obtain m2 where
    m2: "copy_out (of_nat cp) (x @ [0]) m1 = Ret () m2" "contents_changed m1 m2"
      "user_memory m2 = filled cp (x @ [0]) (user_memory m1)" by auto
  have 2: "private_frames m2" "writable_range m2 a b" using 1 m2(2) by (simp_all add: contents_keeps writable_range_contents)
  have "\<exists>m'. put_args (of_nat (cpp + 4)) (of_nat (cp + length x + 1)) xs m2 = Ret (of_nat (cpp + 4 + 4 * length xs)) m' \<and> contents_changed m2 m' \<and>
     args_from (user_memory m') (cpp + 4) (cp + length x + 1) xs \<and>
     (\<forall>c. \<not> (cpp + 4 \<le> c \<and> c < cpp + 4 + 4 * length xs) \<longrightarrow> \<not> (cp + length x + 1 \<le> c \<and> c < cp + length x + 1 + arg_size xs) \<longrightarrow>
        user_memory m' c = user_memory m2 c)"
    using Cons.prems(3-5) by (intro Cons.IH [OF 2]) simp_all
  then obtain m3 where
    m3: "put_args (of_nat (cpp + 4)) (of_nat (cp + length x + 1)) xs m2 = Ret (of_nat (cpp + 4 + 4 * length xs)) m3"
      "contents_changed m2 m3" "args_from (user_memory m3) (cpp + 4) (cp + length x + 1) xs"
      "\<forall>c. \<not> (cpp + 4 \<le> c \<and> c < cpp + 4 + 4 * length xs) \<longrightarrow> \<not> (cp + length x + 1 \<le> c \<and> c < cp + length x + 1 + arg_size xs) \<longrightarrow>
        user_memory m3 c = user_memory m2 c" by blast
  have "bytes_at (user_memory m3) cpp (word_bytes (of_nat cp)) = bytes_at (user_memory m1) cpp (word_bytes (of_nat cp))"
    using m3(4) Cons.prems(4) by (intro bytes_at_cong) (simp add: m2(3) filled_def)
  moreover have "bytes_at (user_memory m3) cp (x @ [0]) = bytes_at (user_memory m2) cp (x @ [0])"
    using m3(4) Cons.prems(4) by (intro bytes_at_cong) simp
  moreover have "bytes_at (user_memory m1) cpp (word_bytes (of_nat cp))" "bytes_at (user_memory m2) cp (x @ [0])"
    unfolding m1(3) m2(3) by (rule bytes_at_filled)+
  ultimately have "args_from (user_memory m3) cpp cp (x # xs)" using m3(3) by (simp del: bytes_at_append)
  moreover have "user_memory m3 c = user_memory m c"
    if "\<not> (cpp \<le> c \<and> c < cpp + 4 * length (x # xs))" "\<not> (cp \<le> c \<and> c < cp + arg_size (x # xs))" for c
    using that m3(4) [rule_format, of c] by (auto simp: m2(3) m1(3) filled_def)
  moreover have "put_args (of_nat cpp) (of_nat cp) (x # xs) m = Ret (of_nat (cpp + 4 * length (x # xs))) m3"
    using m1(1) m2(1) m3(1) by (simp add: thn_app algebra_simps)
  ultimately show ?case using contents_trans [OF contents_trans [OF m1(2) m2(2)] m3(2)] by blast
qed

lemma build_args_ok:
  assumes m: "private_frames m" "writable_range m a 0x200000" and a: "a \<le> cpp" "cpp + 4 * (length xs + 3) \<le> cp" "cp + arg_size xs \<le> 0x200000"
    and lay: "arg_cpp lay = of_nat cpp" "arg_cp lay = of_nat cp"
  shows "\<exists>m'. build_args lay xs m = Ret () m' \<and> contents_changed m m' \<and> bytes_at (user_memory m') cpp (word_bytes (of_nat (length xs))) \<and>
    args_from (user_memory m') (cpp + 4) cp xs \<and> bytes_at (user_memory m') (cpp + 4 * (length xs + 1)) (word_bytes 0) \<and>
    bytes_at (user_memory m') (cpp + 4 * (length xs + 2)) (word_bytes 0) \<and>
    (\<forall>c. c < cpp \<longrightarrow> user_memory m' c = user_memory m c)"
proof -
  let ?n = "length xs" and ?z = "replicate (0x200000 - cpp) (0 :: byte)" and ?e = "cpp + 4 + 4 * length xs"
  have keep: "private_frames m'" "writable_range m' a 0x200000" if "contents_changed m m'" for m'
    using m that by (simp_all add: contents_keeps writable_range_contents)
  from copy_out_range [OF m a(1), of ?z] a obtain m1 where
    m1: "copy_out (of_nat cpp) ?z m = Ret () m1" "contents_changed m m1" "user_memory m1 = filled cpp ?z (user_memory m)" by auto
  from copy_out_range [OF keep [OF m1(2)] a(1), of "word_bytes (of_nat ?n)"] a obtain m2 where
    m2: "copy_out (of_nat cpp) (word_bytes (of_nat ?n)) m1 = Ret () m2" "contents_changed m1 m2"
      "user_memory m2 = filled cpp (word_bytes (of_nat ?n)) (user_memory m1)" by auto
  note c2 = contents_trans [OF m1(2) m2(2)]
  from put_args_ok [OF keep [OF c2], of "cpp + 4" xs cp] a obtain m3 where
    m3: "put_args (of_nat (cpp + 4)) (of_nat cp) xs m2 = Ret (of_nat ?e) m3" "contents_changed m2 m3"
      "args_from (user_memory m3) (cpp + 4) cp xs"
      "\<And>c. \<not> (cpp + 4 \<le> c \<and> c < ?e) \<Longrightarrow> \<not> (cp \<le> c \<and> c < cp + arg_size xs) \<Longrightarrow> user_memory m3 c = user_memory m2 c" by auto
  note c3 = contents_trans [OF c2 m3(2)]
  from copy_out_range [OF keep [OF c3], of ?e "word_bytes 0"] a obtain m4 where
    m4: "copy_out (of_nat ?e) (word_bytes 0) m3 = Ret () m4" "contents_changed m3 m4" "user_memory m4 = filled ?e (word_bytes 0) (user_memory m3)" by auto
  note c4 = contents_trans [OF c3 m4(2)]
  from copy_out_range [OF keep [OF c4], of "?e + 4" "word_bytes 0"] a obtain m5 where
    m5: "copy_out (of_nat (?e + 4)) (word_bytes 0) m4 = Ret () m5" "contents_changed m4 m5"
      "user_memory m5 = filled (?e + 4) (word_bytes 0) (user_memory m4)" by auto
  have "unat (VMEM_1_LIMIT - of_nat cpp) = 0x200000 - cpp"
  proof -
    have u: "unat (of_nat cpp :: word32) = cpp" by (rule unat_of_nat_small) (use a in simp)
    then have "of_nat cpp \<le> VMEM_1_LIMIT" using a by (simp add: word_le_nat_alt VMEM_1_LIMIT_def)
    then show ?thesis using u by (simp add: unat_sub VMEM_1_LIMIT_def)
  qed
  then have run: "build_args lay xs m = Ret () m5"
    using m1(1) m2(1) m3(1) m4(1) m5(1) by (simp add: build_args_def lay thn_app bnd_app add.commute add.left_commute)
  have low: "user_memory m5 c = user_memory m3 c" if "c < ?e \<or> ?e + 8 \<le> c" for c using that by (auto simp: m4(3) m5(3) filled_def)
  have "user_memory m5 c = user_memory m c" if "c < cpp" for c
    using that low [of c] m3(4) [of c] a by (simp add: m2(3) m1(3) filled_def)
  moreover have "bytes_at (user_memory m5) cpp (word_bytes (of_nat ?n)) = bytes_at (user_memory m2) cpp (word_bytes (of_nat ?n))"
    using low m3(4) a by (intro bytes_at_cong) simp
  moreover have "args_from (user_memory m5) (cpp + 4) cp xs" using args_from_cong [of "cpp + 4" xs "user_memory m5" "user_memory m3" cp] low a m3(3) by simp
  moreover have "bytes_at (user_memory m5) ?e (word_bytes 0) = bytes_at (user_memory m4) ?e (word_bytes 0)"
    by (intro bytes_at_cong) (simp add: m5(3) filled_def)
  ultimately show ?thesis
    using run contents_trans [OF c4 m5(2)] bytes_at_filled [of cpp "word_bytes (of_nat ?n)" "user_memory m1"]
      bytes_at_filled [of ?e "word_bytes 0" "user_memory m3"] bytes_at_filled [of "?e + 4" "word_bytes 0" "user_memory m4"]
    by (intro exI [of _ m5]) (auto simp: m2(3) m4(3) m5(3) algebra_simps)
qed


section \<open>Reading the arguments of Exec\<close>

lemma load_byte_reads:
  assumes "user_memory m a = Some b"
  shows "\<exists>m'. load_byte (of_nat a) m = Ret b m' \<and> contents_changed m m' \<and> user_memory m' = user_memory m"
proof -
  from assms obtain m' where l: "load_byte (of_nat a) m = Ret b m'" by (auto simp: user_memory_def split: if_splits outcome.splits)
  then obtain e where e: "translate m (vpn_of (of_nat a)) = Some e" "m' = m\<lparr>tlb := (tlb m)(vpn_of (of_nat a) \<mapsto> e)\<rparr>"
    by (auto simp: load_byte_value split: option.splits if_splits)
  have "m' = m\<lparr>tlb := (tlb m)(vpn_of (of_nat a) \<mapsto> e), phys := phys m\<rparr>" "phys m' = phys m" by (simp_all add: e(2))
  moreover have "translate m' = translate m" using translate_cached [OF e(1)] by (auto simp: e(2) fun_eq_iff)
  ultimately have "contents_changed m m'" unfolding contents_changed_def by metis
  with l user_memory_after_load [OF l] show ?thesis by blast
qed

lemma copy_in_reads:
  "bytes_at (user_memory m) a xs \<Longrightarrow>
    \<exists>m'. copy_in (of_nat a) (length xs) m = Ret xs m' \<and> contents_changed m m' \<and> user_memory m' = user_memory m"
proof (induction xs arbitrary: a m)
  case Nil
  then show ?case by (simp add: ret_app)
next
  case (Cons x xs)
  from load_byte_reads [of m a x] Cons.prems obtain u where
    u: "load_byte (of_nat a) m = Ret x u" "contents_changed m u" "user_memory u = user_memory m" by auto
  from Cons.IH [of u "Suc a"] Cons.prems u(3) obtain w where
    w: "copy_in (of_nat (Suc a)) (length xs) u = Ret xs w" "contents_changed u w" "user_memory w = user_memory u" by auto
  then show ?case using u contents_trans [OF u(2) w(2)] by (simp add: bnd_app ret_app add.commute)
qed

lemma load_string_reads:
  "bytes_at (user_memory m) a (xs @ [0]) \<Longrightarrow> 0 \<notin> set xs \<Longrightarrow> length xs < n \<Longrightarrow>
    \<exists>m'. load_string n (of_nat a) m = Ret xs m' \<and> contents_changed m m' \<and> user_memory m' = user_memory m"
proof (induction xs arbitrary: a m n)
  case Nil
  from load_byte_reads [of m a 0] Nil obtain u where
    "load_byte (of_nat a) m = Ret 0 u" "contents_changed m u" "user_memory u = user_memory m" by auto
  with Nil show ?case by (cases n) (simp_all add: bnd_app ret_app)
next
  case (Cons x xs)
  from load_byte_reads [of m a x] Cons.prems obtain u where
    u: "load_byte (of_nat a) m = Ret x u" "contents_changed m u" "user_memory u = user_memory m" by auto
  obtain k where k: "n = Suc k" "length xs < k" using Cons.prems(3) by (cases n) auto
  from Cons.IH [of u "Suc a" k] Cons.prems u(3) k(2) obtain w where
    w: "load_string k (of_nat (Suc a)) u = Ret xs w" "contents_changed u w" "user_memory w = user_memory u" by auto
  then show ?case using u k(1) Cons.prems(2) contents_trans [OF u(2) w(2)] by (simp add: bnd_app ret_app add.commute)
qed

lemma load_argv_reads:
  "argv_at (user_memory m) a xs \<Longrightarrow> length xs < n \<Longrightarrow> \<forall>x \<in> set xs. length x < k \<Longrightarrow>
    \<exists>m'. load_argv n k (of_nat a) m = Ret xs m' \<and> contents_changed m m' \<and> user_memory m' = user_memory m"
proof (induction xs arbitrary: a m n)
  case Nil
  from copy_in_reads [of m a "word_bytes 0"] Nil obtain u where
    u: "copy_in (of_nat a) 4 m = Ret (word_bytes 0) u" "contents_changed m u" "user_memory u = user_memory m" by auto
  moreover obtain i where "n = Suc i" using Nil(2) by (cases n) auto
  ultimately show ?case by (simp add: load_word_def bnd_app ret_app word_of_bytes)
next
  case (Cons x xs)
  from Cons.prems(1) obtain q where q: "q \<noteq> 0" "bytes_at (user_memory m) a (word_bytes q)" "cstring (user_memory m) (unat q) x"
    "argv_at (user_memory m) (a + 4) xs" by auto
  from copy_in_reads [OF q(2)] obtain u where
    u: "copy_in (of_nat a) 4 m = Ret (word_bytes q) u" "contents_changed m u" "user_memory u = user_memory m" by auto
  obtain i where i: "n = Suc i" "length xs < i" using Cons.prems(2) by (cases n) auto
  from load_string_reads [of u "unat q" x k] q(3) u(3) Cons.prems(3) obtain w where
    w: "load_string k q u = Ret x w" "contents_changed u w" "user_memory w = user_memory u" by (auto simp: cstring_def)
  from Cons.IH [of w "a + 4" i] q(4) i(2) Cons.prems(3) u(3) w(3) obtain y where
    y: "load_argv i k (of_nat (a + 4)) w = Ret xs y" "contents_changed w y" "user_memory y = user_memory w" by auto
  have "load_argv n k (of_nat a) m = Ret (x # xs) y"
    using u(1) w(1) y(1) q(1) i(1) by (simp add: load_word_def bnd_app ret_app word_of_bytes)
  then show ?case using contents_trans [OF contents_trans [OF u(2) w(2)] y(2)] u(3) w(3) y(3) by auto
qed

text \<open>The address space has \<open>VMEM_BYTES\<close> bytes, so the fuel of these loops is enough for every string and vector in memory.\<close>

lemma space_bound: "space_ok m t T \<Longrightarrow> user_memory m a \<noteq> None \<Longrightarrow> a < VMEM_BYTES"
proof -
  assume sp: "space_ok m t T" and "user_memory m a \<noteq> None"
  then have a: "a < 2 ^ 32" "translate m (vpn_of (of_nat a)) \<noteq> None"
    by (auto simp: user_memory_def load_byte_value split: if_splits option.splits)
  then have "pt_entry m (a div 8192) \<noteq> None" using nat_vpn [OF a(1)] space_translate [OF sp] by simp
  then have "a div 8192 < 256" using sp by (auto simp: pt_entry_def space_ok_def Let_def MAX_PT_LEN_def split: if_splits)
  then show ?thesis by (simp add: VMEM_BYTES_def)
qed

lemma cstring_bound: "space_ok m t T \<Longrightarrow> cstring (user_memory m) q x \<Longrightarrow> length x < VMEM_BYTES"
  using space_bound [of m t T "q + length x"] by (auto simp: cstring_def)

lemma argv_bound:
  "space_ok m t T \<Longrightarrow> argv_at (user_memory m) a xs \<Longrightarrow> a + length xs < VMEM_BYTES \<and> (\<forall>x \<in> set xs. length x < VMEM_BYTES \<and> 0 \<notin> set x)"
proof (induction xs arbitrary: a)
  case Nil
  then show ?case using space_bound [of m t T a] by (simp add: word_bytes_def)
next
  case (Cons x xs)
  then obtain q :: word32 where "cstring (user_memory m) (unat q) x" "argv_at (user_memory m) (a + 4) xs" by auto
  then show ?case using cstring_bound [OF Cons.prems(1)] Cons.IH [OF Cons.prems(1), of "a + 4"] by (simp add: cstring_def)
qed

section \<open>The layout of the stack\<close>

lemma and_not_7: "unat ((n :: word32) AND NOT 7) = unat n div 8 * 8"
proof -
  have m: "(7 :: word32) = mask 3" by (simp add: mask_eq_exp_minus_1)
  have "unat n < 2 ^ 32" using unsigned_less [where 'b = 32, of n] by simp
  then have lt: "unat n div 8 * 8 < 2 ^ 32" by (metis div_times_less_eq_dividend order_le_less_trans)
  have "n AND NOT (mask 3) = push_bit 3 (drop_bit 3 n)" by (simp add: bit_eq_iff bit_simps) (auto simp: bit_simps)
  then have "unat (n AND NOT (mask 3)) = take_bit 32 (push_bit 3 (drop_bit 3 (unat n)))"
    by (simp only: unsigned_push_bit_eq unat_drop_bit_eq) simp
  also have "\<dots> = unat n div 8 * 8" using lt by (simp add: take_bit_eq_mod push_bit_eq_mult drop_bit_eq_div)
  finally show ?thesis by (simp only: m)
qed

definition args_bytes :: "byte list list \<Rightarrow> nat" where
  "args_bytes args = arg_size args + 4 * (length args + 3 + POST_ARGV_NULL_SPACE)"

lemma limit_minus: "n < 2 ^ 31 \<Longrightarrow> unat (VMEM_1_LIMIT - of_nat n) = (if n \<le> 0x200000 then 0x200000 - n else 2 ^ 32 + 0x200000 - n)"
proof -
  assume n: "n < 2 ^ 31"
  then have u: "unat (of_nat n :: word32) = n" by (intro unat_of_nat_small) simp
  show ?thesis
  proof (cases "n \<le> 0x200000")
    case True
    then have "of_nat n \<le> VMEM_1_LIMIT" using u by (simp add: word_le_nat_alt VMEM_1_LIMIT_def)
    then show ?thesis using u True by (simp add: unat_sub VMEM_1_LIMIT_def)
  next
    case False
    then show ?thesis using u n unfolding unat_sub_if' VMEM_1_LIMIT_def by simp
  qed
qed

lemma stack_layout:
  assumes "args_bytes args < 2 ^ 31" and "stack_npg (program_layout li args) < MAX_PT_LEN"
  shows "arg_cp (program_layout li args) = of_nat (0x200000 - arg_size args)"
    "arg_cpp (program_layout li args) = of_nat ((0x200000 - args_bytes args) div 8 * 8)" "args_bytes args \<le> 0x100000"
    "0x100000 + 8192 * (MAX_PT_LEN - stack_npg (program_layout li args)) \<le> (0x200000 - args_bytes args) div 8 * 8"
proof -
  let ?lay = "program_layout li args" and ?S = "args_bytes args"
  have sz: "arg_size args < 2 ^ 31" "arg_size args \<le> ?S" using assms(1) by (simp_all add: args_bytes_def)
  have "arg_cpp ?lay = (VMEM_1_LIMIT - of_nat ?S) AND NOT 7"
    by (simp add: program_layout_def args_bytes_def Let_def algebra_simps)
  then have c: "unat (arg_cpp ?lay) = unat (VMEM_1_LIMIT - of_nat ?S) div 8 * 8" by (simp only: and_not_7)
  have n: "stack_npg ?lay = unat (VMEM_1_LIMIT - DOWN_TO_PAGE (arg_cpp ?lay)) div 8192"
    by (simp add: program_layout_def Let_def vpn_of_div)
  define x where "x = unat (arg_cpp ?lay)"
  have d: "unat (DOWN_TO_PAGE (arg_cpp ?lay)) = x div 8192 * 8192" by (simp only: DOWN_TO_PAGE_unat x_def)
  have S: "?S \<le> 0x200000"
  proof (rule ccontr)
    assume "\<not> ?S \<le> 0x200000"
    then have x: "x = (2 ^ 32 + 0x200000 - ?S) div 8 * 8" using c limit_minus [OF assms(1)] by (simp add: x_def)
    let ?y = "2 ^ 32 + 0x200000 - ?S"
    have "2 ^ 31 \<le> ?y" "?y < 2 ^ 32" using assms(1) \<open>\<not> ?S \<le> 0x200000\<close> by simp_all
    then have "2 ^ 28 \<le> ?y div 8" "?y div 8 < 2 ^ 29" by (simp_all only: less_eq_div_iff_mult_less_eq div_less_iff_less_mult) simp_all
    then have lo: "2 ^ 31 \<le> x" "x < 2 ^ 32" unfolding x by simp_all
    have "unat (VMEM_1_LIMIT - DOWN_TO_PAGE (arg_cpp ?lay)) = 2 ^ 32 + 0x200000 - x div 8192 * 8192"
      using lo d unfolding unat_sub_if' VMEM_1_LIMIT_def by simp
    then have "256 \<le> stack_npg ?lay" using n lo by simp
    then show False using assms(2) by (simp add: MAX_PT_LEN_def)
  qed
  then have x: "x = (0x200000 - ?S) div 8 * 8" using c limit_minus [OF assms(1)] by (simp add: x_def)
  have "unat (VMEM_1_LIMIT - DOWN_TO_PAGE (arg_cpp ?lay)) = 0x200000 - x div 8192 * 8192"
    using d x unfolding unat_sub_if' VMEM_1_LIMIT_def by simp
  also have "\<dots> = (256 - x div 8192) * 8192" by (simp add: diff_mult_distrib)
  finally have n': "stack_npg ?lay = 256 - x div 8192" using n by simp
  then have ge: "128 < x div 8192" using assms(2) by (simp add: MAX_PT_LEN_def)
  then show "?S \<le> 0x100000" using x by simp
  have "MAX_PT_LEN - stack_npg ?lay \<le> x div 8192 - 128" using n' by (simp add: MAX_PT_LEN_def)
  then have "0x100000 + 8192 * (MAX_PT_LEN - stack_npg ?lay) \<le> 8192 * 128 + 8192 * (x div 8192 - 128)" by simp
  also have "\<dots> = 8192 * (x div 8192)" using ge by (simp only: add_mult_distrib2 [symmetric]) simp
  also have "\<dots> \<le> x" by simp
  finally show "0x100000 + 8192 * (MAX_PT_LEN - stack_npg ?lay) \<le> (0x200000 - ?S) div 8 * 8" by (simp only: x)
  show "arg_cpp ?lay = of_nat ((0x200000 - ?S) div 8 * 8)" unfolding x [symmetric] x_def by simp
  have "unat (VMEM_1_LIMIT - of_nat (arg_size args)) = 0x200000 - arg_size args" using limit_minus [OF sz(1)] sz(2) S by simp
  then have "VMEM_1_LIMIT - of_nat (arg_size args) = of_nat (0x200000 - arg_size args)" by (metis of_nat_unat ucast_id)
  then show "arg_cp ?lay = of_nat (0x200000 - arg_size args)" by (simp add: program_layout_def Let_def)
qed

end
