(* ===== verification/Program_Start.thy ===== *)
theory Program_Start
  imports Program_Arguments User_Calls
begin

text \<open>
  \<^verbatim>\<open>LoadProgram\<close> and \<^verbatim>\<open>Exec\<close> from the stub to the first instruction of the new program: the state the loader leaves for an
  executable that fits, the refusals that leave the caller as it was, and what \<^verbatim>\<open>Exec\<close> makes of the answer \<^verbatim>\<open>KILL\<close>.
\<close>

section \<open>LoadProgram\<close>

text \<open>
  The memory of region 1, and the new address space of a program: its pages and their protection, the segments of the file, the cleared uninitialised data, and on top of the
  stack the number of arguments, the argument vector and an empty environment.
\<close>

definition user_part :: "cmem \<Rightarrow> cmem" where
  "user_part M = M |` {unat VMEM_1_BASE..<unat VMEM_1_LIMIT}"

definition runs_program :: "load_info \<Rightarrow> (nat \<Rightarrow> nat \<Rightarrow> byte list) \<Rightarrow> byte list list \<Rightarrow> pte list \<Rightarrow> cmem \<Rightarrow> bool" where
  "runs_program li rd args T M \<longleftrightarrow> (let lay = program_layout li args; stack = unat (arg_cpp lay) in
     (\<forall>v < MAX_PT_LEN. valid (T ! v) \<longleftrightarrow> v \<in> program_pages lay li) \<and>
     (\<forall>v \<in> program_pages lay li. prot (T ! v) = (if v \<in> text_pages lay li then PROT_READ OR PROT_EXEC else PROT_READ OR PROT_WRITE)) \<and>
     bytes_at M (unat (t_vaddr li)) (take (t_npg li * PAGESIZE) (rd (t_faddr li) (t_npg li * PAGESIZE))) \<and>
     bytes_at M (unat (id_vaddr li)) (take (unat (id_end li) - unat (id_vaddr li)) (rd (id_faddr li) (id_npg li * PAGESIZE))) \<and>
     bytes_at M (unat (id_end li)) (replicate (unat (ud_end li) - unat (id_end li)) 0) \<and>
     bytes_at M stack (word_bytes (of_nat (length args))) \<and> argv_at M (stack + 4) args \<and>
     bytes_at M (stack + 4 * (length args + 2)) (word_bytes 0))"

text \<open>What loading leaves alone: the kernel's part of the address space and the frames of everybody else; no frame is lost.\<close>

definition rest_kept :: "kmem \<Rightarrow> pte list \<Rightarrow> kmem \<Rightarrow> pte list \<Rightarrow> bool" where
  "rest_kept m T m' T' \<longleftrightarrow> free_frames m' \<union> frames_in T' = free_frames m \<union> frames_in T \<and>
     (\<forall>f. f \<notin> free_frames m \<union> mapped_frames m \<longrightarrow> phys m' f = phys m f) \<and>
     (\<forall>a < unat VMEM_1_BASE. user_memory m' a = user_memory m a) \<and> pt_region0 m' = pt_region0 m \<and> nframes m' = nframes m"

text \<open>The process afterwards.\<close>

definition loaded_pcb :: "load_info \<Rightarrow> layout \<Rightarrow> PCB \<Rightarrow> PCB" where
  "loaded_pcb li lay b = b\<lparr>user_context := (user_context b)\<lparr>sp := arg_cpp lay, pc := entry li\<rparr>,
     user_heap_start_vaddr := push_bit PAGESHIFT (of_nat (data_pg1 lay)) + VMEM_1_BASE,
     user_heap_end_vaddr := push_bit PAGESHIFT (of_nat (data_pg1 lay)) + VMEM_1_BASE,
     user_stack_base_vaddr := push_bit PAGESHIFT (of_nat (MAX_PT_LEN - stack_npg lay)) + VMEM_1_BASE\<rparr>"

lemma new_region1_low:
  assumes sp: "space_ok m t T" and n: "new_region1 m t T V m' T'" and a: "a < 0x100000"
  shows "user_memory m' a = user_memory m a"
proof -
  have sp': "space_ok m' t T'" and p: "phys m' = phys m" "nframes m' = nframes m" "pt_region0 m' = pt_region0 m"
    using n by (simp_all add: new_region1_def)
  have "vpn_of (of_nat a) = a div 8192" by (rule nat_vpn) (use a in simp)
  then have "vpn_of (of_nat a) < MAX_PT_LEN" using a by (simp add: MAX_PT_LEN_def)
  then have "translate m' (vpn_of (of_nat a)) = translate m (vpn_of (of_nat a))"
    using p(3) by (simp add: space_translate [OF sp] space_translate [OF sp'] pt_entry_def)
  then show ?thesis by (simp add: user_memory_def load_byte_value p split: option.splits)
qed

lemma segments_low: "info_ok li \<Longrightarrow> a < 0x100000 \<Longrightarrow> segments li rd M a = M a"
  by (simp add: segments_def filled_def info_ok_def word_le_nat_alt VMEM_1_BASE_def)

lemma segments_bytes:
  assumes li: "info_ok li" and rd: "complete_file li rd"
  shows "bytes_at (segments li rd M) (unat (t_vaddr li)) (take (t_npg li * PAGESIZE) (rd (t_faddr li) (t_npg li * PAGESIZE)))"
    "bytes_at (segments li rd M) (unat (id_vaddr li)) (take (unat (id_end li) - unat (id_vaddr li)) (rd (id_faddr li) (id_npg li * PAGESIZE)))"
    "bytes_at (segments li rd M) (unat (id_end li)) (replicate (unat (ud_end li) - unat (id_end li)) 0)"
proof -
  have l: "unat (t_vaddr li) + t_npg li * PAGESIZE \<le> unat (id_vaddr li)" "unat (id_vaddr li) \<le> unat (id_end li)"
    "unat (id_end li) \<le> unat (id_vaddr li) + id_npg li * PAGESIZE" using li by (simp_all add: info_ok_def word_le_nat_alt)
  have c: "t_npg li * PAGESIZE \<le> length (rd (t_faddr li) (t_npg li * PAGESIZE))"
     "id_npg li * PAGESIZE \<le> length (rd (id_faddr li) (id_npg li * PAGESIZE))" using rd by (simp_all add: complete_file_def)
  show "bytes_at (segments li rd M) (unat (t_vaddr li)) (take (t_npg li * PAGESIZE) (rd (t_faddr li) (t_npg li * PAGESIZE)))"
    "bytes_at (segments li rd M) (unat (id_vaddr li)) (take (unat (id_end li) - unat (id_vaddr li)) (rd (id_faddr li) (id_npg li * PAGESIZE)))"
    "bytes_at (segments li rd M) (unat (id_end li)) (replicate (unat (ud_end li) - unat (id_end li)) 0)"
    using l c by (auto simp: bytes_at_nth segments_def filled_def)
qed

lemma user_part_bytes:
  assumes "bytes_at M a xs" "unat VMEM_1_BASE \<le> a" "a + length xs \<le> unat VMEM_1_LIMIT"
  shows "bytes_at (user_part M) a xs"
  using assms by (auto simp: bytes_at_nth user_part_def)

lemma user_part_cong: "(\<And>a. unat VMEM_1_BASE \<le> a \<Longrightarrow> a < unat VMEM_1_LIMIT \<Longrightarrow> M a = M' a) \<Longrightarrow> user_part M = user_part M'"
  by (auto simp: user_part_def restrict_map_def fun_eq_iff)

lemma LoadProgram_memory:
  assumes sp: "space_ok m t T" and li: "info_ok li" "complete_file li rd" and ab: "args_bytes args < 2 ^ 31" "\<forall>x \<in> set args. 0 \<notin> set x"
    and lay: "lay = program_layout li args" "stack_npg lay + data_pg1 lay + data_npg lay < MAX_PT_LEN"
    and fr: "card (program_pages lay li) \<le> card (free_frames m \<union> frames_in T)"
  shows "\<exists>m1 m2 m3 T'. build_region1 t own MAX_PT_LEN lay li m = Ret () m1 \<and> load_segments t lay li rd m1 = Ret True m2 \<and>
    build_args lay args m2 = Ret () m3 \<and> space_ok m3 t T' \<and> pts m3 = (pts m)(t \<mapsto> T') \<and>
    runs_program li rd args T' (user_part (user_memory m3)) \<and> rest_kept m T m3 T'"
proof -
  have pgs: "text_pg1 lay = vpn_of (t_vaddr li - VMEM_1_BASE)" "data_pg1 lay = vpn_of (id_vaddr li - VMEM_1_BASE)"
    "data_npg lay = id_npg li + ud_npg li" by (simp_all add: lay(1) program_layout_def Let_def)
  note fit = layout_fits [OF li(1) lay(2) pgs(1,2)]
  have sn: "stack_npg (program_layout li args) < MAX_PT_LEN" using lay by simp
  define cpp where "cpp = (0x200000 - args_bytes args) div 8 * 8"
  note st = stack_layout [OF ab(1) sn, folded lay(1) cpp_def]
  from build_region1_ok [OF sp fit(1) fr, of own] obtain m1 T1 where
    m1: "build_region1 t own MAX_PT_LEN lay li m = Ret () m1" "new_region1 m t T (program_pages lay li) m1 T1" by blast
  then have sp1: "space_ok m1 t T1" and pv: "\<And>v. v < MAX_PT_LEN \<Longrightarrow> valid (T1 ! v) \<longleftrightarrow> v \<in> program_pages lay li"
    and pp: "\<And>v. v \<in> program_pages lay li \<Longrightarrow> prot (T1 ! v) = PROT_READ OR PROT_WRITE" and p1: "pts m1 = (pts m)(t \<mapsto> T1)"
    and f1: "free_frames m1 \<union> frames_in T1 = free_frames m \<union> frames_in T" and k1: "phys m1 = phys m" "pt_region0 m1 = pt_region0 m"
    by (simp_all add: new_region1_def)
  have sub: "v \<in> program_pages lay li \<Longrightarrow> v < MAX_PT_LEN" for v using program_pages_card(2) [OF fit(1)] by auto
  let ?T = "protected T1 (text_pg1 lay) (t_npg li)"
  from load_segments_ok [OF sp1 li(1) fit(1) pgs(3) fit(2,3) _ li(2)] pv pp sub obtain m2 where
    m2: "load_segments t lay li rd m1 = Ret True m2" "loaded m1 t m2 ?T (segments li rd)" by blast
  then have sp2: "space_ok m2 t ?T" and u2: "user_memory m2 = segments li rd (user_memory m1)" by (simp_all add: loaded_def)
  have len: "length T1 = MAX_PT_LEN" using sp1 by (simp add: space_ok_def)
  have nth: "?T ! v = (if v \<in> text_pages lay li then (T1 ! v)\<lparr>prot := PROT_READ OR PROT_EXEC\<rparr> else T1 ! v)" if "v < MAX_PT_LEN" for v
    using that len by (simp add: protected_nth text_pages_def)
  have stk: "v \<in> program_pages lay li" "v \<notin> text_pages lay li" "v < MAX_PT_LEN" if "v \<in> {MAX_PT_LEN - stack_npg lay..<MAX_PT_LEN}" for v
    using that fit(1) by (auto simp: program_pages_def stack_pages_def text_pages_def pages_fit_def)
  have w2: "user_writable m2 c" if "cpp \<le> c" "c < 0x200000" for c
  proof (rule range_writable [OF sp2, where b = "MAX_PT_LEN - stack_npg lay" and n = "stack_npg lay"])
    show "0x100000 + 8192 * (MAX_PT_LEN - stack_npg lay) \<le> c" using st(4) that(1) by simp
    show "c < 0x100000 + 8192 * (MAX_PT_LEN - stack_npg lay + stack_npg lay)" using that(2) sn lay(1) by (simp add: MAX_PT_LEN_def)
    show "valid (?T ! v) \<and> prot (?T ! v) = PROT_READ OR PROT_WRITE" if "v \<in> {MAX_PT_LEN - stack_npg lay..<MAX_PT_LEN - stack_npg lay + stack_npg lay}" for v
      using stk [of v] that pv pp nth sn lay(1) by simp
  qed (use sn lay(1) in simp)
  have "private_frames m2" "writable_range m2 cpp 0x200000" using sp2 w2 by (simp_all add: space_ok_def writable_range_def)
  moreover have "cpp + 4 * (length args + 3) \<le> 0x200000 - arg_size args" "0x200000 - arg_size args + arg_size args \<le> 0x200000"
  proof -
    have "cpp \<le> 0x200000 - args_bytes args" by (simp add: cpp_def)
    then have "cpp + args_bytes args \<le> 0x200000" using st(3) by simp
    moreover have "args_bytes args = arg_size args + 4 * (length args + 35)" by (simp add: args_bytes_def POST_ARGV_NULL_SPACE_def)
    ultimately have "cpp + 4 * (length args + 3) + arg_size args \<le> 0x200000" by simp
    then show "cpp + 4 * (length args + 3) \<le> 0x200000 - arg_size args" "0x200000 - arg_size args + arg_size args \<le> 0x200000" by simp_all
  qed
  ultimately obtain m3 where m3: "build_args lay args m2 = Ret () m3" "contents_changed m2 m3"
      "bytes_at (user_memory m3) cpp (word_bytes (of_nat (length args)))" "args_from (user_memory m3) (cpp + 4) (0x200000 - arg_size args) args"
      "bytes_at (user_memory m3) (cpp + 4 * (length args + 1)) (word_bytes 0)"
      "bytes_at (user_memory m3) (cpp + 4 * (length args + 2)) (word_bytes 0)"
      "\<And>c. c < cpp \<Longrightarrow> user_memory m3 c = user_memory m2 c"
    using build_args_ok [of m2 cpp cpp args "0x200000 - arg_size args" lay] st(1,2) by blast
  have "data_pg1 lay + data_npg lay \<le> MAX_PT_LEN - stack_npg lay" using lay(2) by simp
  then have low: "0x100000 + 8192 * (data_pg1 lay + data_npg lay) \<le> cpp" using st(4) by (meson add_left_mono mult_le_mono2 order_trans)
  have ranges: "unat (t_vaddr li) + t_npg li * PAGESIZE \<le> cpp" "unat (id_end li) \<le> cpp" "unat (ud_end li) \<le> cpp" "unat (id_vaddr li) \<le> unat (id_end li)"
    "0x100000 \<le> unat (t_vaddr li)" "0x100000 \<le> unat (id_vaddr li)"
    using low li(1) fit(3) pgs(3) by (simp_all add: info_ok_def PAGESIZE_def word_le_nat_alt VMEM_1_BASE_def)
  have top: "0x100000 \<le> cpp" "cpp + args_bytes args \<le> 0x200000" "args_bytes args = arg_size args + 4 * (length args + 35)"
    using low st(3) by (simp_all add: cpp_def args_bytes_def POST_ARGV_NULL_SPACE_def)
  have region: "unat VMEM_1_BASE = 0x100000" "unat VMEM_1_LIMIT = 0x200000" by (simp_all add: VMEM_1_BASE_def VMEM_1_LIMIT_def)
  let ?M = "user_part (user_memory m3)"
  have keep: "bytes_at ?M a xs" if "bytes_at (segments li rd (user_memory m1)) a xs" "0x100000 \<le> a" "a + length xs \<le> cpp" for a xs
  proof (rule user_part_bytes)
    show "bytes_at (user_memory m3) a xs" using that bytes_at_cong [of xs "user_memory m3" a "user_memory m2"] m3(7) u2 by simp
  qed (use that top in \<open>simp_all add: region\<close>)
  have up: "bytes_at ?M a xs" if "bytes_at (user_memory m3) a xs" "cpp \<le> a" "a + length xs \<le> cpp + args_bytes args" for a xs
    using user_part_bytes [OF that(1)] that(2,3) top(1,2) by (simp add: region)
  have ucpp: "unat (arg_cpp lay) = cpp" unfolding st(2) by (rule unat_of_nat_small) (simp add: cpp_def)
  have "args_from ?M (cpp + 4) (0x200000 - arg_size args) args"
  proof -
    have "?M c = user_memory m3 c" if "0x100000 \<le> c" "c < 0x200000" for c using that by (simp add: user_part_def region)
    then show ?thesis using args_from_cong [of "cpp + 4" args ?M "user_memory m3" "0x200000 - arg_size args"] m3(4) top by simp
  qed
  then have argv: "argv_at ?M (cpp + 4) args"
    by (rule args_from_argv) (use m3(5) up [of "cpp + 4 * (length args + 1)" "word_bytes 0"] top ab(2) in \<open>simp_all add: algebra_simps\<close>)
  have "runs_program li rd args ?T ?M"
    unfolding runs_program_def Let_def lay(1) [symmetric] ucpp
    using argv up [OF m3(3)] up [OF m3(6)] keep [OF segments_bytes(1) [OF li]] keep [OF segments_bytes(2) [OF li]] keep [OF segments_bytes(3) [OF li]]
      ranges top pv pp nth sub by auto
  moreover have "rest_kept m T m3 ?T"
  proof -
    have mp: "mapped_frames m1 \<subseteq> free_frames m \<union> mapped_frames m"
      using f1 k1 by (auto simp: space_mapped [OF sp1] space_mapped [OF sp])
    have "free_frames m3 = free_frames m1" using m2(2) contents_keeps [OF m3(2)] by (simp add: loaded_def)
    moreover have "phys m3 f = phys m f" if "f \<notin> free_frames m \<union> mapped_frames m" for f
      using that mp m2(2) m3(2) k1 unfolding loaded_def contents_changed_def by (metis subsetD)
    moreover have "user_memory m3 a = user_memory m a" if "a < unat VMEM_1_BASE" for a
      using that m3(7) [of a] low u2 segments_low [OF li(1), of a] new_region1_low [OF sp m1(2)] by (simp add: VMEM_1_BASE_def)
    moreover have "pt_region0 m3 = pt_region0 m" "nframes m3 = nframes m"
      using m1(2) m2(2) contents_keeps [OF m3(2)] by (simp_all add: loaded_def new_region1_def)
    ultimately show ?thesis using f1 by (simp add: rest_kept_def frames_in_protected)
  qed
  moreover have "space_ok m3 t ?T" by (rule space_contents [OF sp2 m3(2)])
  moreover have "pts m3 = (pts m)(t \<mapsto> ?T)" using m2(2) p1 contents_keeps [OF m3(2)] by (simp add: loaded_def)
  ultimately show ?thesis using m1(1) m2(1) m3(1) by blast
qed


lemma LoadProgram_loads:
  assumes p: "p \<noteq> 0" "pcbs s p = Some b" "ptlr b = MAX_PT_LEN" and ga: "get_args (km s) = Ret args m" and sp: "space_ok m (ptbr b) T"
    and li: "info_ok li" "complete_file li rd" "VMEM_1_BASE \<le> entry li" and ab: "args_bytes args < 2 ^ 31" "\<forall>x \<in> set args. 0 \<notin> set x"
    and lay: "lay = program_layout li args" "stack_npg lay + data_pg1 lay + data_npg lay < MAX_PT_LEN"
    and fr: "card (program_pages lay li) \<le> card (free_frames m \<union> frames_in T)" and ok: "malloc_ok s (calls s)" "next_addr s \<noteq> 0"
  shows "\<exists>m' T'. LoadProgram (Some (Some li, rd)) get_args p s = Ret SUCCESS (s\<lparr>next_addr := Suc (next_addr s), calls := Suc (calls s),
      pcbs := (pcbs s)(p \<mapsto> loaded_pcb li lay b), km := m'\<rparr>) \<and>
    space_ok m' (ptbr b) T' \<and> pts m' = (pts m)(ptbr b \<mapsto> T') \<and> runs_program li rd args T' (user_part (user_memory m')) \<and> rest_kept m T m' T'"
proof -
  from LoadProgram_memory [OF sp li(1,2) ab lay fr, of "pid b"] obtain m1 m2 m3 T' where
    m: "build_region1 (ptbr b) (pid b) MAX_PT_LEN lay li m = Ret () m1" "load_segments (ptbr b) lay li rd m1 = Ret True m2"
      "build_args lay args m2 = Ret () m3" "space_ok m3 (ptbr b) T'" "pts m3 = (pts m)(ptbr b \<mapsto> T')"
      "runs_program li rd args T' (user_part (user_memory m3))" "rest_kept m T m3 T'" by blast
  let ?b = "b\<lparr>user_context := (user_context b)\<lparr>sp := arg_cpp lay\<rparr>\<rparr>"
  have e: "\<not> entry li < VMEM_1_BASE" using li(3) by simp
  have n: "\<not> MAX_PT_LEN \<le> stack_npg lay + data_pg1 lay + data_npg lay" using lay(2) by simp
  have "LoadProgram (Some (Some li, rd)) get_args p s = Ret SUCCESS (s\<lparr>next_addr := Suc (next_addr s), calls := Suc (calls s),
      pcbs := (pcbs s)(p \<mapsto> loaded_pcb li lay b), km := m3\<rparr>)"
    using e n ga p ok m(1-3) by (simp add: LoadProgram_def Let_def lay(1) [symmetric] prog_simps malloc_def loaded_pcb_def)
  with m show ?thesis by blast
qed

section \<open>Exec\<close>

lemma exec_inputs:
  assumes "space_ok (km s) t T" "cstring (user_memory (km s)) (unat filename) name" "argv_at (user_memory (km s)) (unat argvec) args"
  shows "\<exists>m m'. load_string VMEM_BYTES filename (km s) = Ret name m \<and> load_argv VMEM_BYTES VMEM_BYTES argvec m = Ret args m' \<and>
    contents_changed (km s) m' \<and> user_memory m' = user_memory (km s) \<and> (\<forall>x \<in> set args. 0 \<notin> set x) \<and>
    contents_changed (km s) m \<and> user_memory m = user_memory (km s)"
proof -
  from load_string_reads [of "km s" "unat filename" name VMEM_BYTES] cstring_bound [OF assms(1,2)] assms(2) obtain m where
    m: "load_string VMEM_BYTES filename (km s) = Ret name m" "contents_changed (km s) m" "user_memory m = user_memory (km s)"
    by (auto simp: cstring_def)
  note ab = argv_bound [OF assms(1,3)]
  from load_argv_reads [of m "unat argvec" args VMEM_BYTES VMEM_BYTES] ab assms(3) m(3) obtain m' where
    m': "load_argv VMEM_BYTES VMEM_BYTES argvec m = Ret args m'" "contents_changed m m'" "user_memory m' = user_memory m" by auto
  show ?thesis using m m' ab contents_trans [OF m(2) m'(2)] by auto
qed

lemma rest_kept_contents:
  assumes "contents_changed m m1" "user_memory m1 = user_memory m" "rest_kept m1 T m' T'"
  shows "rest_kept m T m' T'"
  using assms contents_keeps [OF assms(1)] by (auto simp: rest_kept_def contents_changed_def)


text \<open>The call, as the process of a program makes it: what it passes lies in its own memory.\<close>

definition calls_exec :: "kstate \<Rightarrow> PCB \<Rightarrow> pte list \<Rightarrow> word32 \<Rightarrow> word32 \<Rightarrow> byte list \<Rightarrow> byte list list \<Rightarrow> bool" where
  "calls_exec s b T filename argvec name args \<longleftrightarrow> current_process s \<noteq> 0 \<and> pcbs s (current_process s) = Some b \<and> ptlr b = MAX_PT_LEN \<and>
     space_ok (km s) (ptbr b) T \<and> kernel_vector s \<and> next_addr s \<noteq> 0 \<and> cstring (user_memory (km s)) (unat filename) name \<and>
     argv_at (user_memory (km s)) (unat argvec) args \<and> args_bytes args < 2 ^ 31"

lemma exec_call:
  assumes "passes_registers enter" "kernel_vector s" and "current_process s \<noteq> 0" "pcbs s (current_process s) = Some b"
    and "Exec fs filename argvec (s\<lparr>ctx := enter (Exec_stub filename argvec) (ctx s),
        pcbs := (pcbs s)(current_process s \<mapsto> b\<lparr>user_context := enter (Exec_stub filename argvec) (ctx s)\<rparr>)\<rparr>) = Ret r t"
    and "current_process t \<noteq> 0" "pcbs t (current_process t) = Some b'"
  shows "user_call fs enter (Exec_stub filename argvec) s = Ret () (t\<lparr>ctx := set_reg0 (word_of_int r) (user_context b')\<rparr>)"
  using assms(3-7)
  by (simp add: user_call_handler assms(2) KernelTrapHandler_def prog_simps passes_registersD [OF assms(1), unfolded One_nat_def] stub_defs trap_codes
      save_ctx_def return_with_def load_ctx_def ctx_reg0_def)

lemma Exec_result:
  assumes "load_string VMEM_BYTES filename (km s) = Ret name m"
    and "LoadProgram (fs name) (load_argv VMEM_BYTES VMEM_BYTES argvec) (current_process s) (s\<lparr>km := m\<rparr>) = Ret r t"
  shows "Exec fs filename argvec s = Ret (if r = ERROR then ERROR else SUCCESS) t"
  using assms by (simp add: Exec_def prog_simps)


text \<open>
  C4. A program is started as its file and the caller say: when a process calls \<^verbatim>\<open>Exec\<close> for an executable that fits, the stub, the trap
  handler and the loader together give back the frames of the old program, map exactly the pages of the text (read and execute), the data
  and the stack (read and write) to frames that nobody else has, and return to user mode at the entry point of the file. The process
  then reads, through the TLB and its page table, the text and the initialised data of the file, zeros in the uninitialised data, and at
  its stack pointer the number of arguments, the argument vector that \<^verbatim>\<open>Exec\<close> was given and an empty environment. No frame is
  lost, and neither the kernel's part of the address space nor a frame of another process changes.
\<close>

theorem Exec_starts_program:
  assumes "passes_registers enter" and call: "calls_exec s b T filename argvec name args"
    and fi: "fs name = Some (Some li, rd)" "info_ok li" "complete_file li rd" "VMEM_1_BASE \<le> entry li"
    and lay: "lay = program_layout li args" "stack_npg lay + data_pg1 lay + data_npg lay < MAX_PT_LEN"
    and res: "t_npg li + data_npg lay + stack_npg lay \<le> card (free_frames (km s) \<union> frames_in T)" "malloc_ok s (calls s)"
  shows "\<exists>s' T'. user_call fs enter (Exec_stub filename argvec) s = Ret () s' \<and> pc (ctx s') = entry li \<and> sp (ctx s') = arg_cpp lay \<and>
    current_process s' = current_process s \<and> (\<forall>q. q \<noteq> current_process s \<longrightarrow> pcbs s' q = pcbs s q) \<and> qh s' = qh s \<and>
    space_ok (km s') (ptbr b) T' \<and> pts (km s') = (pts (km s))(ptbr b \<mapsto> T') \<and>
    runs_program li rd args T' (user_part (user_memory (km s'))) \<and> rest_kept (km s) T (km s') T'"
proof -
  let ?p = "current_process s" and ?c = "enter (Exec_stub filename argvec) (ctx s)"
  let ?b = "b\<lparr>user_context := ?c\<rparr>"
  let ?s = "s\<lparr>ctx := ?c, pcbs := (pcbs s)(?p \<mapsto> ?b)\<rparr>"
  have c: "?p \<noteq> 0" "pcbs s ?p = Some b" "ptlr b = MAX_PT_LEN" "space_ok (km s) (ptbr b) T" "kernel_vector s" "next_addr s \<noteq> 0"
    "cstring (user_memory (km s)) (unat filename) name" "argv_at (user_memory (km s)) (unat argvec) args" "args_bytes args < 2 ^ 31"
    using call by (simp_all add: calls_exec_def)
  from exec_inputs [OF c(4,7,8)] obtain m m' where
    m: "load_string VMEM_BYTES filename (km s) = Ret name m" "load_argv VMEM_BYTES VMEM_BYTES argvec m = Ret args m'"
      "contents_changed (km s) m'" "user_memory m' = user_memory (km s)" "\<forall>x \<in> set args. 0 \<notin> set x" by blast
  have sp: "space_ok m' (ptbr b) T" by (rule space_contents [OF c(4) m(3)])
  have fit: "pages_fit lay li"
    by (rule layout_fits [OF fi(2) lay(2)]) (simp_all add: lay(1) program_layout_def Let_def)
  have fr: "card (program_pages lay li) \<le> card (free_frames m' \<union> frames_in T)"
    unfolding program_pages_card [OF fit] contents_keeps [OF m(3)] by (rule res(1))
  have "\<exists>m'' T'. LoadProgram (Some (Some li, rd)) (load_argv VMEM_BYTES VMEM_BYTES argvec) ?p (?s\<lparr>km := m\<rparr>) =
      Ret SUCCESS (?s\<lparr>km := m, next_addr := Suc (next_addr s), calls := Suc (calls s), pcbs := (pcbs ?s)(?p \<mapsto> loaded_pcb li lay ?b), km := m''\<rparr>) \<and>
    space_ok m'' (ptbr b) T' \<and> pts m'' = (pts m')(ptbr b \<mapsto> T') \<and> runs_program li rd args T' (user_part (user_memory m'')) \<and> rest_kept m' T m'' T'"
    using LoadProgram_loads [of ?p "?s\<lparr>km := m\<rparr>" ?b "load_argv VMEM_BYTES VMEM_BYTES argvec" args m' T li rd lay] c m(2,5) sp fi(2-4) lay fr res(2)
    by simp
  then obtain m'' T' where
    l: "LoadProgram (fs name) (load_argv VMEM_BYTES VMEM_BYTES argvec) ?p (?s\<lparr>km := m\<rparr>) =
      Ret SUCCESS (?s\<lparr>km := m, next_addr := Suc (next_addr s), calls := Suc (calls s), pcbs := (pcbs ?s)(?p \<mapsto> loaded_pcb li lay ?b), km := m''\<rparr>)"
    and r: "space_ok m'' (ptbr b) T'" "pts m'' = (pts m')(ptbr b \<mapsto> T')" "runs_program li rd args T' (user_part (user_memory m''))" "rest_kept m' T m'' T'"
    by (auto simp: fi(1))
  let ?t = "?s\<lparr>km := m, next_addr := Suc (next_addr s), calls := Suc (calls s), pcbs := (pcbs ?s)(?p \<mapsto> loaded_pcb li lay ?b), km := m''\<rparr>"
  have e: "Exec fs filename argvec ?s = Ret SUCCESS ?t"
    using m(1) l by (simp add: code_defs Exec_def prog_simps)
  have "user_call fs enter (Exec_stub filename argvec) s = Ret () (?t\<lparr>ctx := set_reg0 (word_of_int SUCCESS) (user_context (loaded_pcb li lay ?b))\<rparr>)"
    by (rule exec_call [OF assms(1) c(5,1,2) e]) (use c(1) in simp_all)
  moreover have "rest_kept (km s) T m'' T'" by (rule rest_kept_contents [OF m(3,4) r(4)])
  ultimately show ?thesis using r(1-3) contents_keeps [OF m(3)]
    by (intro exI [of _ "?t\<lparr>ctx := set_reg0 (word_of_int SUCCESS) (user_context (loaded_pcb li lay ?b))\<rparr>"] exI [of _ T'])
       (simp add: loaded_pcb_def set_reg0_def)
qed


section \<open>Programs that cannot be loaded\<close>

text \<open>The reasons for which \<^verbatim>\<open>LoadProgram\<close> refuses a file before it touches the process.\<close>

definition refused :: "exec_file option \<Rightarrow> byte list list \<Rightarrow> bool" where
  "refused ex args \<longleftrightarrow> (case ex of None \<Rightarrow> True | Some (None, rd) \<Rightarrow> True | Some (Some li, rd) \<Rightarrow> entry li < VMEM_1_BASE \<or>
     (let lay = program_layout li args in MAX_PT_LEN \<le> stack_npg lay + data_pg1 lay + data_npg lay))"

lemma LoadProgram_refuses:
  assumes "refused ex args" and "get_args (km s) = Ret args m"
  shows "\<exists>m'. LoadProgram ex get_args p s = Ret ERROR (s\<lparr>km := m'\<rparr>) \<and> m' \<in> {km s, m}"
proof -
  consider "ex = None" | rd where "ex = Some (None, rd)" | li rd where "ex = Some (Some li, rd)" by (metis not_Some_eq prod.exhaust)
  then show ?thesis
  proof cases
    case 3
    then show ?thesis using assms
      by (cases "entry li < VMEM_1_BASE", intro exI [of _ "km s"])
         (auto simp: LoadProgram_def refused_def Let_def prog_simps code_defs)
  qed (intro exI [of _ "km s"], simp add: LoadProgram_def prog_simps code_defs)+
qed

text \<open>
  C25. A program that cannot be loaded is refused without harm: when the file cannot be opened, is not an executable, is not linked for
  the user region or does not fit between the data and the stack, the caller of \<^verbatim>\<open>Exec\<close> gets \<^verbatim>\<open>ERROR\<close> and goes on
  where it was, with the same program counter and stack pointer, the same memory, page tables and frames.
\<close>

theorem Exec_refused:
  assumes "passes_registers enter" and call: "calls_exec s b T filename argvec name args" and ref: "refused (fs name) args"
  shows "\<exists>s'. user_call fs enter (Exec_stub filename argvec) s = Ret () s' \<and> call_result s' = ERROR \<and>
    ctx s' = set_reg0 (- 1) (enter (Exec_stub filename argvec) (ctx s)) \<and>
    user_memory (km s') = user_memory (km s) \<and> pts (km s') = pts (km s) \<and> free_frames (km s') = free_frames (km s) \<and>
    space_ok (km s') (ptbr b) T \<and> (\<forall>q. q \<noteq> current_process s \<longrightarrow> pcbs s' q = pcbs s q) \<and> qh s' = qh s"
proof -
  let ?p = "current_process s" and ?c = "enter (Exec_stub filename argvec) (ctx s)"
  let ?b = "b\<lparr>user_context := ?c\<rparr>"
  let ?s = "s\<lparr>ctx := ?c, pcbs := (pcbs s)(?p \<mapsto> ?b)\<rparr>"
  have c: "?p \<noteq> 0" "pcbs s ?p = Some b" "space_ok (km s) (ptbr b) T" "kernel_vector s"
    "cstring (user_memory (km s)) (unat filename) name" "argv_at (user_memory (km s)) (unat argvec) args"
    using call by (simp_all add: calls_exec_def)
  from exec_inputs [OF c(3,5,6)] obtain m m' where
    m: "load_string VMEM_BYTES filename (km s) = Ret name m" "load_argv VMEM_BYTES VMEM_BYTES argvec m = Ret args m'"
      "contents_changed (km s) m'" "user_memory m' = user_memory (km s)" "contents_changed (km s) m" "user_memory m = user_memory (km s)" by blast
  from LoadProgram_refuses [OF ref, of "load_argv VMEM_BYTES VMEM_BYTES argvec" "?s\<lparr>km := m\<rparr>" m' ?p] m(2) obtain m'' where
    l: "LoadProgram (fs name) (load_argv VMEM_BYTES VMEM_BYTES argvec) ?p (?s\<lparr>km := m\<rparr>) = Ret ERROR (?s\<lparr>km := m''\<rparr>)"
    and mm: "contents_changed (km s) m''" "user_memory m'' = user_memory (km s)" using m(3-6) by auto
  have "Exec fs filename argvec ?s = Ret ERROR (?s\<lparr>km := m''\<rparr>)" using Exec_result [where s = ?s and name = name and m = m] m(1) l by simp
  from exec_call [OF assms(1) c(4,1,2) this] c(1)
  have u: "user_call fs enter (Exec_stub filename argvec) s = Ret () (?s\<lparr>km := m'', ctx := set_reg0 (word_of_int ERROR) ?c\<rparr>)" by simp
  have "length (regs ?c) = 8" by (rule passes_registersD [OF assms(1)])
  then have "sint (reg (set_reg0 (word_of_int ERROR) ?c) 0) = ERROR" by (simp add: reg_def set_reg0_def code_defs)
  then show ?thesis using u mm(2) contents_keeps [OF mm(1)] space_contents [OF c(3) mm(1)]
    by (intro exI [of _ "?s\<lparr>km := m'', ctx := set_reg0 (word_of_int ERROR) ?c\<rparr>"]) (simp add: call_result_def code_defs)
qed




section \<open>An example\<close>

text \<open>
  The process of the example with the string \<open>A\<close> at the start of its memory and a vector with that one string at \<open>0x100008\<close>; a program with
  a page of text, a page of data and a page of uninitialised data.
\<close>

definition exec_mem_ex :: kmem where
  "exec_mem_ex = kmem_ex\<lparr>phys := (\<lambda>_ _. 0)(16 := (\<lambda>_. 0)(0 := 65, 10 := 16))\<rparr>"

definition exec_ex :: kstate where
  "exec_ex = with_vector (kernel_ex\<lparr>km := exec_mem_ex\<rparr>)"

definition li_ex :: load_info where
  "li_ex = \<lparr>entry = 0x100020, t_faddr = 0, t_vaddr = 0x100000, t_npg = 1, t_end = 0x101000, id_faddr = 0x2000, id_vaddr = 0x102000,
     id_npg = 1, id_end = 0x102010, ud_vaddr = 0x104000, ud_npg = 1, ud_end = 0x104800\<rparr>"

definition fs_ex :: "(nat \<Rightarrow> nat \<Rightarrow> byte list) \<Rightarrow> file_system" where
  "fs_ex rd name = (if name = [65] then Some (Some li_ex, rd) else None)"

lemma exec_mem_fields [simp]: "pts exec_mem_ex 401 = Some table_ex" "reg_ptbr1 exec_mem_ex = 401" "reg_ptlr1 exec_mem_ex = MAX_PT_LEN"
  "tlb exec_mem_ex = (\<lambda>_. None)" "nframes exec_mem_ex = 128" "free_frames exec_mem_ex = {64..<128}"
proof -
  have "free_frames exec_mem_ex = free_frames (mem_ex 64 64)" by (rule free_frames_cong) (simp_all add: exec_mem_ex_def kmem_ex_def)
  then show "free_frames exec_mem_ex = {64..<128}" by simp
qed (simp_all add: exec_mem_ex_def table_ex_def kmem_ex_def MAX_PT_LEN_def mem_ex_def)

lemma exec_mem_translate: "translate exec_mem_ex = translate kmem_ex"
  by (auto simp: exec_mem_ex_def translate_def fun_eq_iff)

lemma exec_mem_space: "space_ok exec_mem_ex 401 table_ex"
proof -
  have "mem_wf (mem_ex 64 64)" by simp
  then have "mem_wf exec_mem_ex"
    unfolding mem_wf_def using frames_wf_cong [of exec_mem_ex "mem_ex 64 64"] by (simp add: exec_mem_ex_def kmem_ex_def)
  moreover have coh: "tlb_coherent exec_mem_ex" by (simp add: tlb_coherent_def)
  moreover have "private_frames exec_mem_ex" using private_kmem_ex by (simp add: private_frames_def exec_mem_translate)
  moreover have "frame_of e < 64" if "pt_entry exec_mem_ex v = Some e" for v e
  proof -
    have tr: "translate kmem_ex v = Some e" using that translate_coherent [OF coh] by (simp add: exec_mem_translate)
    note v = translate_kmem_ex [OF tr]
    have "v < 256" using that by (auto simp: pt_entry_def MAX_PT_LEN_def Let_def split: if_splits)
    then show ?thesis using v by (simp split: if_splits)
  qed
  ultimately show ?thesis by (fastforce simp: space_ok_def)
qed

lemma exec_mem_byte: "k < 8192 \<Longrightarrow> user_memory exec_mem_ex (0x100000 + k) = Some (if k = 0 then 65 else if k = 10 then 16 else 0)"
proof -
  assume k: "k < 8192"
  have u: "unat (of_nat (0x100000 + k) :: word32) = 0x100000 + k" by (rule unat_of_nat_small) (use k in simp)
  have v: "vpn_of (of_nat (0x100000 + k)) = MAX_PT_LEN + 0" "page_off (of_nat (0x100000 + k)) = k"
    unfolding vpn_of_div page_off_def u using k mod_mult_self1 [of k 128 8192] by (simp_all add: MAX_PT_LEN_def PAGESIZE_def add.commute)
  have t0: "table_ex ! 0 = pte_ex 16" by (simp add: table_ex_def nth_append)
  have "translate exec_mem_ex (vpn_of (of_nat (0x100000 + k))) = Some (pte_ex 16)"
    unfolding v space_translate [OF exec_mem_space] pt_entry_region1 [OF exec_mem_space] t0 by (simp add: MAX_PT_LEN_def pte_ex_def)
  then show ?thesis using k v(2) by (simp add: user_memory_def load_byte_value pte_ex_def prot_defs frame_of_def) (simp add: exec_mem_ex_def)
qed

lemma exec_ex_calls: "calls_exec exec_ex ((pcb_ex 2 301)\<lparr>pstate := PROC_RUNNING, children_processes := 4\<rparr>) table_ex 0x100000 0x100008 [65] [[65]]"
proof -
  note b = exec_mem_byte
  have "cstring (user_memory exec_mem_ex) 0x100000 [65]" using b [of 0] b [of 1] by (simp add: cstring_def)
  moreover have "bytes_at (user_memory exec_mem_ex) 0x100008 (word_bytes 0x100000)" "bytes_at (user_memory exec_mem_ex) 0x10000C (word_bytes 0)"
    using b [of 8] b [of 9] b [of 10] b [of 11] b [of 12] b [of 13] b [of 14] b [of 15] by (simp_all add: word_bytes_def)
  ultimately have "argv_at (user_memory exec_mem_ex) 0x100008 [[65]]" by (auto intro!: exI [of _ "0x100000 :: word32"])
  moreover have "kernel_vector exec_ex" by (simp add: exec_ex_def kernel_vector_with)
  ultimately show ?thesis using exec_mem_space \<open>cstring _ _ _\<close>
    by (simp add: calls_exec_def exec_ex_def with_vector_def args_bytes_def POST_ARGV_NULL_SPACE_def)
qed

lemma layout_ex: "info_ok li_ex" "VMEM_1_BASE \<le> entry li_ex" "text_pg1 (program_layout li_ex [[65]]) = 0" "data_pg1 (program_layout li_ex [[65]]) = 1"
  "data_npg (program_layout li_ex [[65]]) = 2" "stack_npg (program_layout li_ex [[65]]) = 1" "arg_cpp (program_layout li_ex [[65]]) = 0x1FFF68"
  by (simp_all add: info_ok_def li_ex_def VMEM_1_BASE_def PAGESIZE_def program_layout_def Let_def vpn_of_div arg_size_def VMEM_1_LIMIT_def
      POST_ARGV_NULL_SPACE_def DOWN_TO_PAGE_def)

lemma exec_ex_frames: "4 \<le> card (free_frames (km exec_ex) \<union> frames_in table_ex)"
proof -
  have "card {64..<128 :: nat} \<le> card (free_frames (km exec_ex) \<union> frames_in table_ex)"
    by (rule card_mono) (auto simp: frames_in_def exec_ex_def with_vector_def)
  then show ?thesis by simp
qed

theorem Exec_starts_program_witness:
  "\<exists>s' T'. user_call (fs_ex (\<lambda>off n. replicate n 7)) enter_ex (Exec_stub 0x100000 0x100008) exec_ex = Ret () s' \<and>
     pc (ctx s') = 0x100020 \<and> sp (ctx s') = 0x1FFF68 \<and> runs_program li_ex (\<lambda>off n. replicate n 7) [[65]] T' (user_part (user_memory (km s')))"
proof -
  let ?rd = "\<lambda>(off :: nat) n. replicate n (7 :: byte)"
  note exec_ex_frames
  moreover have "complete_file li_ex ?rd" by (simp add: complete_file_def)
  moreover have "malloc_ok exec_ex (calls exec_ex)" by (simp add: exec_ex_def with_vector_def)
  moreover have "fs_ex ?rd [65] = Some (Some li_ex, ?rd)" by (simp add: fs_ex_def)
  moreover have "t_npg li_ex = 1" "entry li_ex = 0x100020" by (simp_all add: li_ex_def)
  ultimately show ?thesis
    using Exec_starts_program [OF passes_enter_ex exec_ex_calls, of "fs_ex ?rd" li_ex ?rd "program_layout li_ex [[65]]"] layout_ex
    by (auto simp: MAX_PT_LEN_def)
qed

theorem Exec_refused_witness:
  "\<exists>s'. user_call (\<lambda>_. None) enter_ex (Exec_stub 0x100000 0x100008) exec_ex = Ret () s' \<and> call_result s' = ERROR \<and>
     user_memory (km s') 0x100000 = Some 65"
proof -
  have "refused ((\<lambda>_. None) [65]) [[65]]" by (simp add: refused_def)
  moreover have "user_memory (km exec_ex) 0x100000 = Some 65" using exec_mem_byte [of 0] by (simp add: exec_ex_def with_vector_def)
  ultimately show ?thesis using Exec_refused [OF passes_enter_ex exec_ex_calls, of "\<lambda>_. None"] by auto
qed


end
