(* ===== verification/Forking.thy ===== *)
theory Forking
  imports Children User_Calls
begin

text \<open>
  Creating a process: what \<^verbatim>\<open>Fork\<close> makes of the process table, the queues and the memory, seen by the parent when the call returns and
  by the child when it runs for the first time.
\<close>

section \<open>A fresh process\<close>

text \<open>The process \<^verbatim>\<open>allocNewPCB\<close> fills in: its table is \<open>n + 1\<close>, the queue of its children \<open>n + 2\<close>.\<close>

definition blank_pcb :: "addr \<Rightarrow> PCB" where
  "blank_pcb n = pcb0\<lparr>ppid := INVALID_PID, ptbr := Suc n, ptlr := MAX_PT_LEN, user_heap_start_vaddr := USER_MEM_START,
     user_heap_end_vaddr := USER_MEM_START, user_stack_base_vaddr := USER_STACK_BASE, children_processes := Suc (Suc n),
     waiting_for_child_pid := INVALID_PID\<rparr>"

definition mallocs_ok :: "kstate \<Rightarrow> bool" where
  "mallocs_ok s \<longleftrightarrow> (\<forall>n \<ge> calls s. malloc_ok s n \<and> kcs_ok s n)"

text \<open>Everything that making a process leaves alone.\<close>

definition same_rest :: "kstate \<Rightarrow> kstate \<Rightarrow> bool" where
  "same_rest s t \<longleftrightarrow> idle_proc t = idle_proc s \<and> current_process t = current_process s \<and> ready_queue t = ready_queue s \<and>
     blocked_queue t = blocked_queue s \<and> zombie_queue t = zombie_queue s \<and> terminals t = terminals s \<and> ctx t = ctx s \<and>
     TRAP_VECTOR t = TRAP_VECTOR s \<and> transmitted t = transmitted s \<and> malloc_ok t = malloc_ok s \<and> kcs_ok t = kcs_ok s \<and> new_pid t = new_pid s"

lemma same_rest_trans: "same_rest s t \<Longrightarrow> same_rest t u \<Longrightarrow> same_rest s u"
  by (simp add: same_rest_def)

lemma same_rest_refl [simp]: "same_rest s s"
  by (simp add: same_rest_def)

lemma allocNewPCB_ok:
  assumes q: "queues_ok s" and ok: "mallocs_ok s" and n: "n = next_addr s"
  shows "\<exists>t. allocNewPCB s = Ret n t \<and> same_rest s t \<and> queues_ok t \<and> kview t = (kview s)(Suc (Suc n) \<mapsto> []) \<and>
    pcbs t = (pcbs s)(n \<mapsto> blank_pcb n) \<and> km t = (km s)\<lparr>pts := (pts (km s))(Suc n \<mapsto> replicate MAX_PT_LEN pte0)\<rparr> \<and>
    proc_table t = proc_table s \<and> next_addr t = n + 3 \<and> calls t = calls s + 3"
proof -
  have w: "qwf (qh s)" "n \<noteq> 0" "limit (qh s) \<le> Suc (Suc n)" using q n by (simp_all add: queues_ok_def)
  obtain h where h: "queueCreate (Suc (Suc n)) (qh s) = Ret (Suc (Suc n)) h" "qwf h" "qview h = (kview s)(Suc (Suc n) \<mapsto> [])"
    "limit h = Suc (Suc (Suc n))" by (rule create_view [OF w(1) _ w(3)]) simp
  have m: "malloc_ok s (calls s)" "malloc_ok s (Suc (calls s))" "malloc_ok s (Suc (Suc (calls s)))" using ok by (simp_all add: mallocs_ok_def)
  show ?thesis using w(2) m h n
    by (simp add: allocNewPCB_def malloc_def kqueueCreate_def prog_simps queues_ok_def same_rest_def blank_pcb_def pcb0_def)
qed

definition new_child :: "kstate \<Rightarrow> PCB" where
  "new_child s = (blank_pcb (next_addr s))\<lparr>pstate := PROC_RUNNING, pid := new_pid s (calls s + 3)\<rparr>"

lemma fill_slot_ok:
  assumes q: "queues_ok s" and ok: "mallocs_ok s" and n: "n = next_addr s"
  shows "\<exists>t. fill_slot i s = Ret n t \<and> same_rest s t \<and> queues_ok t \<and> kview t = (kview s)(Suc (Suc n) \<mapsto> []) \<and>
    pcbs t = (pcbs s)(n \<mapsto> new_child s) \<and> km t = (km s)\<lparr>pts := (pts (km s))(Suc n \<mapsto> replicate MAX_PT_LEN pte0)\<rparr> \<and>
    proc_table t = map_option (\<lambda>tbl. tbl[i := n]) (proc_table s) \<and> next_addr t = n + 3 \<and> calls t = calls s + 4"
proof -
  from allocNewPCB_ok [OF assms] obtain t where t: "allocNewPCB s = Ret n t" "same_rest s t" "queues_ok t" "kview t = (kview s)(Suc (Suc n) \<mapsto> [])"
    "pcbs t = (pcbs s)(n \<mapsto> blank_pcb n)" "km t = (km s)\<lparr>pts := (pts (km s))(Suc n \<mapsto> replicate MAX_PT_LEN pte0)\<rparr>"
    "proc_table t = proc_table s" "next_addr t = n + 3" "calls t = calls s + 3" by blast
  have "n \<noteq> 0" using q n by (simp add: queues_ok_def)
  then show ?thesis using t n
    by (simp add: fill_slot_def prog_simps helper_new_pid_def same_rest_def queues_ok_def new_child_def)
qed

text \<open>The first free slot is taken.\<close>

lemma getFreePCB_ok:
  assumes q: "queues_ok s" and ok: "mallocs_ok s" and n: "n = next_addr s"
    and tbl: "proc_table s = Some tbl" "length tbl = MAX_PROCS" "i < MAX_PROCS" "tbl ! i = 0" "\<And>j. j < i \<Longrightarrow> tbl ! j \<noteq> 0"
  shows "\<exists>t. getFreePCB s = Ret n t \<and> same_rest s t \<and> queues_ok t \<and> kview t = (kview s)(Suc (Suc n) \<mapsto> []) \<and>
    pcbs t = (pcbs s)(n \<mapsto> new_child s) \<and> km t = (km s)\<lparr>pts := (pts (km s))(Suc n \<mapsto> replicate MAX_PT_LEN pte0)\<rparr> \<and>
    proc_table t = Some (tbl[i := n]) \<and> next_addr t = n + 3 \<and> calls t = calls s + 4"
proof -
  let ?body = "\<lambda>i. bnd (proc_slot i) (\<lambda>e. if e = 0 then bnd (fill_slot i) (\<lambda>pcb. ret (Some pcb)) else ret None)"
  have "?body j s = Ret None s" if "j < i" for j
    using that tbl(1-4) tbl(5) [OF that] by (simp add: proc_slot_def prog_simps)
  then have skip: "for_ret 0 MAX_PROCS ?body s = for_ret i MAX_PROCS ?body s" using tbl(3) by (intro for_ret_skip) auto
  from fill_slot_ok [OF q ok n, of i] tbl obtain t where t: "fill_slot i s = Ret n t" "same_rest s t" "queues_ok t"
    "kview t = (kview s)(Suc (Suc n) \<mapsto> [])" "pcbs t = (pcbs s)(n \<mapsto> new_child s)"
    "km t = (km s)\<lparr>pts := (pts (km s))(Suc n \<mapsto> replicate MAX_PT_LEN pte0)\<rparr>"
    "proc_table t = Some (tbl[i := n])" "next_addr t = n + 3" "calls t = calls s + 4" by auto
  have "?body i s = Ret (Some n) t" using t(1) tbl by (simp add: proc_slot_def prog_simps)
  then have "for_ret 0 MAX_PROCS ?body s = Ret (Some n) t" unfolding skip using tbl(3) by (simp add: for_ret_step bnd_app ret_app)
  then show ?thesis using t(2-) tbl(1) by (simp add: getFreePCB_def prog_simps)
qed


section \<open>The kernel stack of the child\<close>

text \<open>Two frames of the pool, each with the contents of the parent's.\<close>

definition stack_copied :: "kmem \<Rightarrow> kmem \<Rightarrow> pte list \<Rightarrow> pte list \<Rightarrow> bool" where
  "stack_copied m m' S K \<longleftrightarrow> length K = KSTACK_PAGES \<and> frame_of (K ! 0) \<noteq> frame_of (K ! 1) \<and>
     free_frames m' = free_frames m - {frame_of (K ! 0), frame_of (K ! 1)} \<and>
     (\<forall>i < KSTACK_PAGES. valid (K ! i) \<and> frame_of (K ! i) \<in> free_frames m \<and>
        (\<forall>j < PAGESIZE. phys m' (frame_of (K ! i)) j = phys m (frame_of (S ! i)) j)) \<and>
     (\<forall>f. f \<notin> free_frames m \<or> f \<in> free_frames m' \<longrightarrow> phys m' f = phys m f)"

definition kernel_pte :: "nat \<Rightarrow> pte" where
  "kernel_pte f = \<lparr>valid = True, prot = PROT_WRITE OR PROT_READ, pfn = to_pfn (int f)\<rparr>"

lemma kernel_pte_frame: "mem_wf m \<Longrightarrow> f < nframes m \<Longrightarrow> frame_of (kernel_pte f) = f"
  using to_pfn_frame [of "int f"] by (simp add: kernel_pte_def frame_of_def mem_wf_def frames_wf_def)

lemma for_kernel_stack: "body 0 s = Ret () t \<Longrightarrow> body 1 t = Ret () u \<Longrightarrow> for_do 0 KSTACK_PAGES body s = Ret () u"
  by (simp add: KSTACK_PAGES_def for_do_step for_do_done thn_app numeral_2_eq_2)

lemma kernel_stack_made:
  assumes m: "mem_wf m" and k: "k \<noteq> 0" and fr: "KSTACK_PAGES \<le> card (free_frames m)"
  shows "\<exists>u a b. InitializeKernelStackProcess k m = Ret k u \<and> mem_wf u \<and> pts u = (pts m)(k \<mapsto> [kernel_pte a, kernel_pte b]) \<and>
    phys u = phys m \<and> nframes u = nframes m \<and> a \<in> free_frames m \<and> b \<in> free_frames m \<and> a \<noteq> b \<and> free_frames u = free_frames m - {a, b} \<and>
    pt_region0 u = pt_region0 m"
proof -
  let ?m = "m\<lparr>pts := (pts m)(k \<mapsto> [pte0, pte0])\<rparr>"
  let ?a = "least_free ?m"
  let ?m1 = "(take_frame FRAME_KERNEL ?a ?m)\<lparr>pts := (pts m)(k \<mapsto> [kernel_pte ?a, pte0])\<rparr>"
  let ?b = "least_free ?m1"
  let ?m2 = "(take_frame FRAME_KERNEL ?b ?m1)\<lparr>pts := (pts m)(k \<mapsto> [kernel_pte ?a, kernel_pte ?b])\<rparr>"
  have wf: "mem_wf ?m" using m by simp
  have "free_frames m \<noteq> {}" using fr by (auto simp: KSTACK_PAGES_def)
  then have f0: "free_frames ?m \<noteq> {}" by simp
  have a: "?a \<in> free_frames m" using least_free_in [OF f0] by simp
  have wf1: "mem_wf ?m1" using mem_wf_take [OF wf, of ?a FRAME_KERNEL] a by simp
  have fm1: "free_frames ?m1 = free_frames m - {?a}" using wf by (simp add: free_take_wf)
  have "1 \<le> card (free_frames m - {?a})" using fr a by (simp add: KSTACK_PAGES_def)
  then have "free_frames m - {?a} \<noteq> {}" by (metis card.empty not_one_le_zero)
  then have f1: "free_frames ?m1 \<noteq> {}" by (simp only: fm1) simp
  have b: "?b \<in> free_frames m" "?a \<noteq> ?b" using least_free_in [OF f1] unfolding fm1 by auto
  have wf2: "mem_wf ?m2" using mem_wf_take [OF wf1, of ?b FRAME_KERNEL] least_free_in [OF f1] by simp
  have fm2: "free_frames ?m2 = free_frames m - {?a, ?b}"
    using free_take_wf [OF wf1, of FRAME_KERNEL ?b] fm1 by auto
  have fw: "frames_wf ?m" "frames_wf ?m1" using wf wf1 by (simp_all only: mem_wf_def)
  have s1: "bnd (allocFrame FRAME_KERNEL (-1)) (\<lambda>f. if f = -1 then halt
      else upd_pte k (int 0) (\<lambda>e. e\<lparr>valid := True, pfn := to_pfn f, prot := PROT_WRITE OR PROT_READ\<rparr>)) ?m = Ret () ?m1"
    using allocFrame_some [OF fw(1) f0, of FRAME_KERNEL "-1"] k by (simp add: prog_simps upd_pte_eval kernel_pte_def pte0_def)
  have s2: "bnd (allocFrame FRAME_KERNEL (-1)) (\<lambda>f. if f = -1 then halt
      else upd_pte k (int 1) (\<lambda>e. e\<lparr>valid := True, pfn := to_pfn f, prot := PROT_WRITE OR PROT_READ\<rparr>)) ?m1 = Ret () ?m2"
    using allocFrame_some [OF fw(2) f1, of FRAME_KERNEL "-1"] k by (simp add: prog_simps upd_pte_eval kernel_pte_def pte0_def)
  have "replicate KSTACK_PAGES pte0 = [pte0, pte0]" by (simp add: KSTACK_PAGES_def numeral_2_eq_2)
  then have "InitializeKernelStackProcess k m = Ret k ?m2"
    using k for_kernel_stack [OF s1 s2] by (simp add: InitializeKernelStackProcess_def thn_app modify_app ret_app)
  then show ?thesis using wf2 fm2 a b by (intro exI [of _ ?m2] exI [of _ ?a] exI [of _ ?b]) simp
qed


lemma stack_step:
  assumes m: "mem_wf m" and k: "k \<noteq> 0" "pts m k = Some K" "i < length K" and s: "t \<noteq> 0" "pts m t = Some S" "i < length S"
    and f: "frame_of (S ! i) < nframes m" "frame_of (K ! i) < nframes m"
  shows "bnd (get_pte t (int i)) (\<lambda>e. bnd (get_pte k (int i)) (\<lambda>d. CloneFrame (int (unat (pfn e))) (int (unat (pfn d))))) m =
    Ret () (cloned (frame_of (S ! i)) (frame_of (K ! i)) m)"
  using k s CloneFrame_eval [OF m f] by (simp add: bnd_app get_pte_eval frame_of_def)

lemma kernel_stack_cloned:
  assumes p: "current_process s = p" "p \<noteq> 0" "pcbs s p = Some b" and S: "kstack b \<noteq> 0" "pts (km s) (kstack b) = Some S" "length S = KSTACK_PAGES"
    and K: "k \<noteq> 0" "pts (km s) k = Some K" "length K = KSTACK_PAGES" and m: "mem_wf (km s)"
    and f: "\<And>i. i < KSTACK_PAGES \<Longrightarrow> frame_of (S ! i) < nframes (km s) \<and> frame_of (K ! i) < nframes (km s)"
  shows "for_do 0 KSTACK_PAGES (\<lambda>i. bnd (gets current_process) (\<lambda>p. bnd (get_pcb p) (\<lambda>c.
            on_mem (bnd (get_pte (kstack c) (int i)) (\<lambda>e_parent. bnd (get_pte k (int i)) (\<lambda>e_child.
                    CloneFrame (int (unat (pfn e_parent))) (int (unat (pfn e_child)))))))) ) s =
    Ret () (s\<lparr>km := cloned (frame_of (S ! 1)) (frame_of (K ! 1)) (cloned (frame_of (S ! 0)) (frame_of (K ! 0)) (km s))\<rparr>)"
proof (rule for_kernel_stack)
  let ?m1 = "cloned (frame_of (S ! 0)) (frame_of (K ! 0)) (km s)"
  let ?body = "\<lambda>i. bnd (gets current_process) (\<lambda>p. bnd (get_pcb p) (\<lambda>c.
            on_mem (bnd (get_pte (kstack c) (int i)) (\<lambda>e_parent. bnd (get_pte k (int i)) (\<lambda>e_child.
                    CloneFrame (int (unat (pfn e_parent))) (int (unat (pfn e_child))))))))"
  have fr: "frame_of (S ! 0) < nframes (km s)" "frame_of (K ! 0) < nframes (km s)" "frame_of (S ! 1) < nframes (km s)" "frame_of (K ! 1) < nframes (km s)"
    using f [of 0] f [of 1] by (simp_all add: KSTACK_PAGES_def)
  have l: "0 < length S" "1 < length S" "0 < length K" "1 < length K" using S(3) K(3) by (simp_all add: KSTACK_PAGES_def)
  show "?body 0 s = Ret () (s\<lparr>km := ?m1\<rparr>)"
    using p stack_step [OF m K(1,2) l(3) S(1,2) l(1)] fr by (simp add: bnd_app gets_app get_pcb_eval on_mem_app)
  show "?body 1 (s\<lparr>km := ?m1\<rparr>) = Ret () (s\<lparr>km := cloned (frame_of (S ! 1)) (frame_of (K ! 1)) ?m1\<rparr>)"
    using p stack_step [of ?m1 k K 1 "kstack b" S] m K S l fr by (simp add: bnd_app gets_app get_pcb_eval on_mem_app)
qed

lemma KCCopy_ok:
  assumes c: "c \<noteq> 0" "pcbs s c = Some cb" "kstack cb = 0" and p: "current_process s = p" "p \<noteq> 0" "p \<noteq> c" "pcbs s p = Some b"
    and S: "kstack b \<noteq> 0" "pts (km s) (kstack b) = Some S" "length S = KSTACK_PAGES"
      "\<And>i. i < KSTACK_PAGES \<Longrightarrow> frame_of (S ! i) < nframes (km s) \<and> frame_of (S ! i) \<notin> free_frames (km s)"
    and m: "mem_wf (km s)" "KSTACK_PAGES \<le> card (free_frames (km s))" and ok: "malloc_ok s (calls s)"
    and k: "next_addr s = k" "k \<noteq> 0" "k \<noteq> kstack b"
  shows "\<exists>m' K. KCCopy kc c s = Ret () (s\<lparr>next_addr := Suc k, calls := Suc (calls s),
      pcbs := (pcbs s)(c \<mapsto> cb\<lparr>kernel_context := kc, kstack := k\<rparr>), km := m'\<rparr>) \<and>
    mem_wf m' \<and> pts m' = (pts (km s))(k \<mapsto> K) \<and> nframes m' = nframes (km s) \<and> stack_copied (km s) m' S K"
proof -
  from kernel_stack_made [OF m(1) k(2) m(2)] obtain u a0 a1 where
    u: "InitializeKernelStackProcess k (km s) = Ret k u" "mem_wf u" "pts u = (pts (km s))(k \<mapsto> [kernel_pte a0, kernel_pte a1])"
      "phys u = phys (km s)" "nframes u = nframes (km s)"
    and a: "a0 \<in> free_frames (km s)" "a1 \<in> free_frames (km s)" "a0 \<noteq> a1" and fu: "free_frames u = free_frames (km s) - {a0, a1}" by blast
  let ?K = "[kernel_pte a0, kernel_pte a1]"
  have fK: "frame_of (kernel_pte a0) = a0" "frame_of (kernel_pte a1) = a1"
    using kernel_pte_frame [OF m(1)] free_frames_bound a by blast+
  let ?u2 = "cloned (frame_of (S ! 1)) a1 (cloned (frame_of (S ! 0)) a0 u)"
  let ?u3 = "?u2\<lparr>tlb := tlb_flush TLB_FLUSH_KSTACK (tlb ?u2)\<rparr>"
  have S0: "frame_of (S ! 0) < nframes (km s)" "frame_of (S ! 0) \<notin> free_frames (km s)" "frame_of (S ! 1) < nframes (km s)"
    "frame_of (S ! 1) \<notin> free_frames (km s)" using S(4) [of 0] S(4) [of 1] by (simp_all add: KSTACK_PAGES_def)
  have an: "a0 < nframes u" "a1 < nframes u" using free_frames_bound a u(5) by metis+
  have pt: "pts u (kstack b) = Some S" "pts u k = Some ?K" using u(3) S(2) k(3) by simp_all
  let ?s1 = "s\<lparr>next_addr := Suc k, calls := Suc (calls s), km := u, pcbs := (pcbs s)(c \<mapsto> cb\<lparr>kernel_context := kc, kstack := k\<rparr>)\<rparr>"
  let ?body = "\<lambda>i. bnd (gets current_process) (\<lambda>p. bnd (get_pcb p) (\<lambda>c.
            on_mem (bnd (get_pte (kstack c) (int i)) (\<lambda>e_parent. bnd (get_pte k (int i)) (\<lambda>e_child.
                    CloneFrame (int (unat (pfn e_parent))) (int (unat (pfn e_child))))))))"
  have fr: "frame_of (S ! i) < nframes u \<and> frame_of (?K ! i) < nframes u" if "i < KSTACK_PAGES" for i
    using S(4) [OF that] that u(5) an fK by (auto simp: KSTACK_PAGES_def less_2_cases_iff)
  have loop: "for_do 0 KSTACK_PAGES ?body ?s1 = Ret () (?s1\<lparr>km := ?u2\<rparr>)"
    using kernel_stack_cloned [of ?s1 p b S k ?K] p S(1,3) k(2) pt u(2) fr fK by (simp add: KSTACK_PAGES_def)
  have "KCCopy kc c s = Ret () (?s1\<lparr>km := ?u3\<rparr>)"
    using c p k ok u(1) loop unfolding KCCopy_def
    by (simp add: bnd_app thn_app gets_app ret_app get_pcb_eval upd_pcb_eval kInitializeKernelStackProcess_def malloc_def on_mem_app
        WriteRegister_def modify_app)
  moreover have "mem_wf ?u3" using u(2) by simp
  moreover have "stack_copied (km s) ?u3 S ?K"
  proof -
    have fu3: "free_frames ?u3 = free_frames (km s) - {a0, a1}" using fu by simp
    have "phys ?u3 f = phys (km s) f" if "f \<notin> free_frames (km s) \<or> f \<in> free_frames ?u3" for f
    proof -
      have "f \<noteq> a0" "f \<noteq> a1" using that a unfolding fu3 by auto
      then show ?thesis using u(4) by (simp add: copied_other)
    qed
    moreover have "phys ?u3 a0 j = phys (km s) (frame_of (S ! 0)) j" if "j < PAGESIZE" for j
      using that a S0 u(4) by (simp add: copied_other) (simp add: copied_def)
    moreover have "phys ?u3 a1 j = phys (km s) (frame_of (S ! 1)) j" if "j < PAGESIZE" for j
    proof -
      have "frame_of (S ! 1) \<noteq> a0" using a(1) S0(4) by auto
      then have "copied PAGESIZE (frame_of (S ! 0)) a0 (phys u) (frame_of (S ! 1)) = phys u (frame_of (S ! 1))" by (rule copied_other)
      then show ?thesis using that u(4) by (simp add: copied_def)
    qed
    moreover have "valid (kernel_pte f)" for f by (simp add: kernel_pte_def)
    ultimately show ?thesis using a fK fu3 unfolding stack_copied_def
      by (simp add: KSTACK_PAGES_def less_2_cases_iff all_conj_distrib del: cloned_frame free_frames_cloned mem_tlb kmem.select_convs)
  qed
  ultimately show ?thesis using u(3,5) by (intro exI [of _ ?u3] exI [of _ ?K]) simp
qed


section \<open>Fork\<close>

text \<open>
  A process that can fork: it is live with its tables, its kernel stack and the queue of its children; addresses from \<open>next_addr\<close> on have not
  been given out; there is a slot in the process table and there are frames for its pages and a kernel stack.
\<close>

definition forkable :: "kstate \<Rightarrow> PCB \<Rightarrow> pte list \<Rightarrow> pte list \<Rightarrow> addr list \<Rightarrow> nat \<Rightarrow> bool" where
  "forkable s b S KS tbl i \<longleftrightarrow> current_process s \<noteq> 0 \<and> pcbs s (current_process s) = Some b \<and> queues_ok s \<and> mem_wf (km s) \<and> mallocs_ok s \<and>
     ptbr b \<noteq> 0 \<and> pts (km s) (ptbr b) = Some S \<and> table_ok (km s) S \<and>
     kstack b \<noteq> 0 \<and> pts (km s) (kstack b) = Some KS \<and> length KS = KSTACK_PAGES \<and>
     (\<forall>i < KSTACK_PAGES. frame_of (KS ! i) < nframes (km s) \<and> frame_of (KS ! i) \<notin> free_frames (km s)) \<and>
     (\<forall>a \<ge> next_addr s. pcbs s a = None \<and> pts (km s) a = None) \<and>
     proc_table s = Some tbl \<and> length tbl = MAX_PROCS \<and> i < MAX_PROCS \<and> tbl ! i = 0 \<and> (\<forall>j < i. tbl ! j \<noteq> 0) \<and>
     card {j. j < MAX_PT_LEN \<and> valid (S ! j)} + KSTACK_PAGES \<le> card (free_frames (km s)) \<and>
     pid b \<noteq> new_pid s (calls s + 3)"

text \<open>The memory of the child: a copy of every page and of the kernel stack in frames of its own; nothing in use has changed.\<close>

definition memory_copied :: "kmem \<Rightarrow> kmem \<Rightarrow> pte list \<Rightarrow> pte list \<Rightarrow> pte list \<Rightarrow> pte list \<Rightarrow> bool" where
  "memory_copied m m' S D KS K \<longleftrightarrow> length D = MAX_PT_LEN \<and> length K = KSTACK_PAGES \<and>
     (\<forall>j < MAX_PT_LEN. if valid (S ! j)
        then valid (D ! j) \<and> prot (D ! j) = prot (S ! j) \<and> frame_of (D ! j) \<in> free_frames m - free_frames m' \<and>
          (\<forall>k < PAGESIZE. phys m' (frame_of (D ! j)) k = phys m (frame_of (S ! j)) k)
        else \<not> valid (D ! j)) \<and>
     (\<forall>i < KSTACK_PAGES. valid (K ! i) \<and> frame_of (K ! i) \<in> free_frames m - free_frames m' \<and>
        (\<forall>k < PAGESIZE. phys m' (frame_of (K ! i)) k = phys m (frame_of (KS ! i)) k)) \<and>
     inj_on (\<lambda>j. frame_of (D ! j)) {j. j < MAX_PT_LEN \<and> valid (S ! j)} \<and> frame_of (K ! 0) \<noteq> frame_of (K ! 1) \<and>
     (\<forall>j < MAX_PT_LEN. valid (S ! j) \<longrightarrow> frame_of (D ! j) \<notin> {frame_of (K ! 0), frame_of (K ! 1)}) \<and>
     (\<forall>f. f \<notin> free_frames m \<longrightarrow> phys m' f = phys m f)"

lemma memory_copied_both:
  assumes c: "copy_inv m pd S D0 MAX_PT_LEN m1" "pts m1 pd = Some D" and l: "length D0 = MAX_PT_LEN" "\<And>j. j < MAX_PT_LEN \<Longrightarrow> \<not> valid (D0 ! j)"
    and k: "stack_copied m1 m2 KS K" and KS: "\<And>i. i < KSTACK_PAGES \<Longrightarrow> frame_of (KS ! i) \<notin> free_frames m"
  shows "memory_copied m m2 S D KS K"
proof -
  from c have sub: "free_frames m1 \<subseteq> free_frames m" and ph: "\<And>f. f \<notin> free_frames m \<Longrightarrow> phys m1 f = phys m f"
    and pc: "pages_copied m m1 S D0 MAX_PT_LEN D" by (auto simp: copy_inv_def)
  let ?a = "frame_of (K ! 0)" and ?b = "frame_of (K ! 1)"
  have f2: "free_frames m2 = free_frames m1 - {?a, ?b}" and Kab: "?a \<in> free_frames m1" "?b \<in> free_frames m1" "?a \<noteq> ?b" "length K = KSTACK_PAGES"
    and Kv: "\<And>i. i < KSTACK_PAGES \<Longrightarrow> valid (K ! i) \<and> frame_of (K ! i) \<in> free_frames m1 \<and>
        (\<forall>j < PAGESIZE. phys m2 (frame_of (K ! i)) j = phys m1 (frame_of (KS ! i)) j)"
    and ph2: "\<And>f. f \<notin> free_frames m1 \<Longrightarrow> phys m2 f = phys m1 f"
    using k by (auto simp: stack_copied_def KSTACK_PAGES_def)
  have cp: "page_copied m m1 (S ! j) (D ! j)" if "j < MAX_PT_LEN" "valid (S ! j)" for j
    using pc that l(1) by (auto simp: pages_copied_def)
  have Dj: "frame_of (D ! j) \<in> free_frames m" "frame_of (D ! j) \<notin> free_frames m1" "valid (D ! j)" "prot (D ! j) = prot (S ! j)"
    "\<And>k. k < PAGESIZE \<Longrightarrow> phys m1 (frame_of (D ! j)) k = phys m (frame_of (S ! j)) k" if "j < MAX_PT_LEN" "valid (S ! j)" for j
    using cp [OF that] by (auto simp: page_copied_def)
  have "inj_on (\<lambda>j. frame_of (D ! j)) {j. j < MAX_PT_LEN \<and> valid (S ! j)}"
    using pc unfolding pages_copied_def inj_on_def by blast
  moreover have "\<not> valid (D ! j)" if "j < MAX_PT_LEN" "\<not> valid (S ! j)" for j
    using pc that l by (simp add: pages_copied_def)
  moreover have "length D = MAX_PT_LEN" using pc l(1) by (simp add: pages_copied_def)
  moreover have "frame_of (K ! i) \<in> free_frames m - free_frames m2" if "i < KSTACK_PAGES" for i
    using that Kab sub f2 by (auto simp: KSTACK_PAGES_def less_2_cases_iff)
  moreover have "phys m2 (frame_of (K ! i)) j = phys m (frame_of (KS ! i)) j" if "i < KSTACK_PAGES" "j < PAGESIZE" for i j
    using Kv [OF that(1)] that(2) ph [OF KS [OF that(1)]] by simp
  moreover have "phys m2 f = phys m f" if "f \<notin> free_frames m" for f using ph [OF that] ph2 [of f] that sub by auto
  moreover have "frame_of (D ! j) \<notin> {?a, ?b}" if "j < MAX_PT_LEN" "valid (S ! j)" for j
    using Dj(2) [OF that] Kab(1,2) by auto
  ultimately show ?thesis unfolding memory_copied_def using Dj Kab Kv f2 ph2 by auto
qed


lemma Fork_copies:
  assumes f: "forkable s b S KS tbl i" and n: "n = next_addr s"
  shows "\<exists>t D K. bnd getFreePCB (\<lambda>child. if child = 0 then ret ERROR
     else bnd (gets current_process) (\<lambda>par. bnd (get_pcb par) (\<lambda>pb.
       thn (upd_pcb child (\<lambda>c. c\<lparr>ppid := pid pb\<rparr>)) (thn (upd_pcb child (\<lambda>c. c\<lparr>user_context := user_context pb\<rparr>))
      (bnd (CopyPT par child) (\<lambda>result. if result = ERROR then ret ERROR
       else bnd (KernelContextSwitch_KCCopy (KC_Fork par child) child) (\<lambda>rc. if rc = -1 then ret ERROR else k par child))))))) s =
      k (current_process s) n t \<and>
    same_rest s t \<and> queues_ok t \<and> kview t = (kview s)(n + 2 \<mapsto> []) \<and> mallocs_ok t \<and> proc_table t = Some (tbl[i := n]) \<and>
    pcbs t = (pcbs s)(n \<mapsto> (new_child s)\<lparr>ppid := pid b, user_context := user_context b,
      kernel_context := KC_Fork (current_process s) n, kstack := n + 3\<rparr>) \<and>
    mem_wf (km t) \<and> pts (km t) = (pts (km s))(n + 1 \<mapsto> D, n + 3 \<mapsto> K) \<and> memory_copied (km s) (km t) S D KS K"
proof -
  let ?p = "current_process s" and ?D0 = "replicate MAX_PT_LEN pte0"
  have s: "?p \<noteq> 0" "pcbs s ?p = Some b" "queues_ok s" "mem_wf (km s)" "mallocs_ok s" "ptbr b \<noteq> 0" "pts (km s) (ptbr b) = Some S"
     "table_ok (km s) S" "kstack b \<noteq> 0" "pts (km s) (kstack b) = Some KS" "length KS = KSTACK_PAGES"
     "proc_table s = Some tbl" "length tbl = MAX_PROCS" "i < MAX_PROCS" "tbl ! i = 0" "\<And>j. j < i \<Longrightarrow> tbl ! j \<noteq> 0"
    and KS: "\<And>i. i < KSTACK_PAGES \<Longrightarrow> frame_of (KS ! i) < nframes (km s) \<and> frame_of (KS ! i) \<notin> free_frames (km s)"
    and fresh: "\<And>a. n \<le> a \<Longrightarrow> pcbs s a = None" "\<And>a. n \<le> a \<Longrightarrow> pts (km s) a = None"
    and card: "card (valid_below S MAX_PT_LEN) + KSTACK_PAGES \<le> card (free_frames (km s))"
    using f n by (auto simp: forkable_def valid_below_def)
  have lt: "?p < n" "ptbr b < n" "kstack b < n"
    using fresh(1) [of ?p] fresh(2) [of "ptbr b"] fresh(2) [of "kstack b"] s(2,7,10) by (auto simp: not_le [symmetric])
  have n0: "n \<noteq> 0" using lt by simp
  from getFreePCB_ok [OF s(3,5) n s(12-16)] obtain t1 where
    t1: "getFreePCB s = Ret n t1" "same_rest s t1" "queues_ok t1" "kview t1 = (kview s)(Suc (Suc n) \<mapsto> [])"
      "pcbs t1 = (pcbs s)(n \<mapsto> new_child s)" "km t1 = (km s)\<lparr>pts := (pts (km s))(Suc n \<mapsto> ?D0)\<rparr>"
      "proc_table t1 = Some (tbl[i := n])" "next_addr t1 = n + 3" "calls t1 = calls s + 4" by blast
  have cp: "current_process t1 = ?p" using t1(2) by (simp add: same_rest_def)
  let ?cb = "(new_child s)\<lparr>ppid := pid b, user_context := user_context b\<rparr>"
  let ?t2 = "t1\<lparr>pcbs := (pcbs s)(n \<mapsto> ?cb)\<rparr>"
  have cb: "ptbr (new_child s) = Suc n" "kstack (new_child s) = 0" by (simp_all add: new_child_def blank_pcb_def pcb0_def n)
  let ?m = "km t1"
  have m: "mem_wf ?m" "pts ?m (ptbr b) = Some S" "table_ok ?m S" "pts ?m (Suc n) = Some ?D0" "free_frames ?m = free_frames (km s)" "phys ?m = phys (km s)"
    using s(4,7,8) lt by (simp_all add: t1(6) table_ok_def)
  from CopyPT_loop [OF m(1) s(6) m(2,3) _ m(4), of "pid (new_child s)"] card m(5) lt obtain m1 where
    m1: "CopyPT_tables (ptbr b) (Suc n) (pid (new_child s)) ?m = Ret SUCCESS m1" "copy_inv ?m (Suc n) S ?D0 MAX_PT_LEN m1" by auto
  then obtain D where D: "pts m1 = (pts ?m)(Suc n \<mapsto> D)" by (auto simp: copy_inv_def)
  have c1: "mem_wf m1" "nframes m1 = nframes (km s)" "free_frames m1 \<subseteq> free_frames (km s)" "KSTACK_PAGES \<le> card (free_frames m1)"
    using m1(2) m(5) card by (simp_all add: copy_inv_def t1(6))
  let ?t3 = "?t2\<lparr>km := m1, calls := Suc (calls t1)\<rparr>"
  have k1: "frame_of (KS ! i) < nframes m1 \<and> frame_of (KS ! i) \<notin> free_frames m1" if "i < KSTACK_PAGES" for i
    using KS [OF that] c1 by auto
  have mk: "malloc_ok t1 (Suc (calls t1))" "kcs_ok t1 (calls t1)" using s(5) t1(2,9) by (simp_all add: mallocs_ok_def same_rest_def)
  have "\<exists>m' K. KCCopy (KC_Fork ?p n) n ?t3 = Ret () (?t3\<lparr>next_addr := Suc (n + 3), calls := Suc (calls ?t3),
      pcbs := (pcbs ?t3)(n \<mapsto> ?cb\<lparr>kernel_context := KC_Fork ?p n, kstack := n + 3\<rparr>), km := m'\<rparr>) \<and>
    mem_wf m' \<and> pts m' = (pts (km ?t3))(n + 3 \<mapsto> K) \<and> nframes m' = nframes (km ?t3) \<and> stack_copied (km ?t3) m' KS K"
    by (rule KCCopy_ok [where b = b and p = ?p]) (use n0 cb cp s(1,2,9-11) lt D t1(6,8) k1 c1 mk in auto)
  then obtain m' K where
    kc: "KCCopy (KC_Fork ?p n) n ?t3 = Ret () (?t3\<lparr>next_addr := Suc (n + 3), calls := Suc (calls ?t3),
      pcbs := (pcbs ?t3)(n \<mapsto> ?cb\<lparr>kernel_context := KC_Fork ?p n, kstack := n + 3\<rparr>), km := m'\<rparr>)"
    and m': "mem_wf m'" "pts m' = (pts m1)(n + 3 \<mapsto> K)" "stack_copied m1 m' KS K" by auto
  let ?t = "?t3\<lparr>next_addr := Suc (n + 3), calls := Suc (calls ?t3),
      pcbs := (pcbs ?t3)(n \<mapsto> ?cb\<lparr>kernel_context := KC_Fork ?p n, kstack := n + 3\<rparr>), km := m'\<rparr>"
  have "memory_copied ?m m' S D KS K"
    by (rule memory_copied_both [OF m1(2) _ _ _ m'(3)]) (use D KS m(5) in \<open>auto simp: pte0_def\<close>)
  then have mc: "memory_copied (km s) m' S D KS K" unfolding memory_copied_def m(5,6) .
  have run: "bnd getFreePCB (\<lambda>child. if child = 0 then ret ERROR
     else bnd (gets current_process) (\<lambda>par. bnd (get_pcb par) (\<lambda>pb.
       thn (upd_pcb child (\<lambda>c. c\<lparr>ppid := pid pb\<rparr>)) (thn (upd_pcb child (\<lambda>c. c\<lparr>user_context := user_context pb\<rparr>))
      (bnd (CopyPT par child) (\<lambda>result. if result = ERROR then ret ERROR
       else bnd (KernelContextSwitch_KCCopy (KC_Fork par child) child) (\<lambda>rc. if rc = -1 then ret ERROR else k par child))))))) s =
      k ?p n ?t"
    using t1(1,5) n0 s(1,2) lt cp cb m1(1) kc mk
    by (simp add: bnd_app thn_app gets_app ret_app get_pcb_eval upd_pcb_eval CopyPT_def on_mem_app KernelContextSwitch_KCCopy_def count_call_def code_defs)
  have "same_rest s ?t" using t1(2) by (simp add: same_rest_def)
  moreover have "queues_ok ?t" using t1(3,8) by (simp add: queues_ok_def)
  moreover have "mallocs_ok ?t" using s(5) t1(2,9) by (simp add: mallocs_ok_def same_rest_def)
  moreover have "pts m' = (pts (km s))(n + 1 \<mapsto> D, n + 3 \<mapsto> K)" using m'(2) D t1(6) by simp
  ultimately show ?thesis using run t1(4,7) m'(1) mc by (intro exI [of _ ?t] exI [of _ D] exI [of _ K]) simp
qed


section \<open>The two returns\<close>

lemma Fork_resume_parent:
  assumes q: "queues_ok t" "mallocs_ok t" "kview t (ready_queue t) = Some rs" "kview t (children_processes b) = Some cs"
      "children_processes b \<noteq> ready_queue t"
    and p: "current_process t = p" "p \<noteq> 0" "pcbs t p = Some b" and n: "n \<noteq> 0" "n \<noteq> p" "pcbs t n = Some cb"
  shows "\<exists>u. Fork_resume p n t = Ret SUCCESS u \<and> same_rest t u \<and> km u = km t \<and> proc_table u = proc_table t \<and>
    kview u = (kview t)(ready_queue t \<mapsto> rs @ [n], children_processes b \<mapsto> cs @ [n]) \<and>
    pcbs u = (pcbs t)(n \<mapsto> cb\<lparr>pstate := PROC_READY\<rparr>, p \<mapsto> b\<lparr>user_context := set_reg0 (word_of_int (pid cb)) (user_context b)\<rparr>)"
proof -
  let ?t1 = "t\<lparr>pcbs := (pcbs t)(n \<mapsto> cb\<lparr>pstate := PROC_READY\<rparr>)\<rparr>"
  have ok: "malloc_ok t (calls t)" "malloc_ok t (Suc (calls t))" using q(2) by (simp_all add: mallocs_ok_def)
  have q1: "queues_ok ?t1" "kview ?t1 (ready_queue ?t1) = Some rs" "malloc_ok ?t1 (calls ?t1)" using q ok by simp_all
  from kqueueEnqueue_view [OF q1(1,2) n(1) q1(3)] obtain t2 where
    t2: "kqueueEnqueue (ready_queue t) n ?t1 = Ret () t2" "queues_ok t2" "kview t2 = (kview t)(ready_queue t \<mapsto> rs @ [n])" "queues_only ?t1 t2" by auto
  note f2 = queues_onlyD [OF t2(4)]
  have "ready_queue t \<noteq> 0" using view_facts [of "qh t" "ready_queue t"] q(1,3) by (auto simp: queues_ok_def)
  then have "calls t2 = Suc (calls t)"
    using t2(1) q1(3) n(1) by (auto simp: kqueueEnqueue_def on_queues_app malloc_def bnd_app split: if_splits outcome.splits)
  then have q2: "kview t2 (children_processes b) = Some cs" "malloc_ok t2 (calls t2)" using q(4,5) t2(3) f2(12) ok by simp_all
  from kqueueEnqueue_view [OF t2(2) q2(1) n(1) q2(2)] obtain t3 where
    t3: "kqueueEnqueue (children_processes b) n t2 = Ret () t3" "kview t3 = (kview t2)(children_processes b \<mapsto> cs @ [n])" "queues_only t2 t3" by auto
  note f3 = queues_onlyD [OF t3(3)]
  have P: "pcbs t3 = (pcbs t)(n \<mapsto> cb\<lparr>pstate := PROC_READY\<rparr>)" using f2 f3 by simp
  have "Fork_resume p n t = Ret SUCCESS (t3\<lparr>pcbs := (pcbs t3)(p \<mapsto> b\<lparr>user_context := set_reg0 (word_of_int (pid cb)) (user_context b)\<rparr>)\<rparr>)"
    using p n t2(1) t3(1) P by (simp add: Fork_resume_def prog_simps)
  then show ?thesis using f2 f3 t2(3) t3(2) P by (simp add: same_rest_def)
qed

lemma Fork_resume_child:
  assumes "current_process u = n" "n \<noteq> 0" "pcbs u n = Some cb" "p \<noteq> 0" "p \<noteq> n" "pcbs u p = Some pb" "pid cb \<noteq> pid pb"
    and "kernel_context cb = KC_Fork p n"
  shows "resume u = Ret () (u\<lparr>pcbs := (pcbs u)(n \<mapsto> cb\<lparr>user_context := set_reg0 0 (user_context cb), parent := p\<rparr>),
    ctx := set_reg0 0 (user_context cb)\<rparr>)"
  using assms by (simp add: resume_def Fork_resume_def prog_simps halt_on_error_def load_ctx_def code_defs)

lemma forkable_saved:
  assumes "forkable s b S KS tbl i"
  shows "forkable (s\<lparr>ctx := c, pcbs := (pcbs s)(current_process s \<mapsto> b\<lparr>user_context := c\<rparr>)\<rparr>) (b\<lparr>user_context := c\<rparr>) S KS tbl i"
proof -
  have "current_process s < next_addr s" using assms by (metis forkable_def not_le option.distinct(1))
  then show ?thesis using assms by (simp add: forkable_def mallocs_ok_def)
qed

lemma Fork_makes_child:
  assumes f: "forkable s b S KS tbl i" and n: "n = next_addr s" and p: "p = current_process s"
    and q: "kview s (ready_queue s) = Some rs" "kview s (children_processes b) = Some cs" "children_processes b \<noteq> ready_queue s"
  shows "\<exists>u D K. Fork s = Ret SUCCESS u \<and> same_rest s u \<and> mem_wf (km u) \<and> proc_table u = Some (tbl[i := n]) \<and>
    kview u = (kview s)(n + 2 \<mapsto> [], ready_queue s \<mapsto> rs @ [n], children_processes b \<mapsto> cs @ [n]) \<and>
    pcbs u = (pcbs s)(n \<mapsto> (new_child s)\<lparr>ppid := pid b, user_context := user_context b, kernel_context := KC_Fork p n, kstack := n + 3,
        pstate := PROC_READY\<rparr>, p \<mapsto> b\<lparr>user_context := set_reg0 (word_of_int (pid (new_child s))) (user_context b)\<rparr>) \<and>
    pts (km u) = (pts (km s))(n + 1 \<mapsto> D, n + 3 \<mapsto> K) \<and> memory_copied (km s) (km u) S D KS K"
proof -
  from Fork_copies [OF f n, of Fork_resume] obtain t D K where
    t: "Fork s = Fork_resume p n t" "same_rest s t" "queues_ok t" "kview t = (kview s)(n + 2 \<mapsto> [])" "mallocs_ok t" "proc_table t = Some (tbl[i := n])"
    "pcbs t = (pcbs s)(n \<mapsto> (new_child s)\<lparr>ppid := pid b, user_context := user_context b, kernel_context := KC_Fork p n, kstack := n + 3\<rparr>)"
    "mem_wf (km t)" "pts (km t) = (pts (km s))(n + 1 \<mapsto> D, n + 3 \<mapsto> K)" "memory_copied (km s) (km t) S D KS K"
    unfolding Fork_def p by blast
  have s: "queues_ok s" "p \<noteq> 0" "pcbs s p = Some b" "pcbs s n = None" using f n p by (auto simp: forkable_def)
  then have pn: "n \<noteq> p" by auto
  have qn: "qwf (qh s)" "limit (qh s) \<le> n" "n \<noteq> 0" using s(1) n by (simp_all add: queues_ok_def)
  have lt: "ready_queue s < n + 2" "children_processes b < n + 2" using view_facts [OF qn(1) q(1)] view_facts [OF qn(1) q(2)] qn(2) by simp_all
  have r: "ready_queue t = ready_queue s" "current_process t = p" using t(2) p by (simp_all add: same_rest_def)
  have "kview t (ready_queue t) = Some rs" "kview t (children_processes b) = Some cs" "children_processes b \<noteq> ready_queue t" "pcbs t p = Some b"
    using t(4,7) q lt r pn s(3) by simp_all
  from Fork_resume_parent [OF t(3,5) this(1-3) r(2) s(2) this(4) qn(3) pn, of "(new_child s)\<lparr>ppid := pid b, user_context := user_context b, kernel_context := KC_Fork p n, kstack := n + 3\<rparr>"]
  obtain u where u: "Fork_resume p n t = Ret SUCCESS u" "same_rest t u" "km u = km t" "proc_table u = proc_table t"
    "kview u = (kview t)(ready_queue t \<mapsto> rs @ [n], children_processes b \<mapsto> cs @ [n])"
    "pcbs u = (pcbs t)(n \<mapsto> (new_child s)\<lparr>ppid := pid b, user_context := user_context b, kernel_context := KC_Fork p n, kstack := n + 3,
        pstate := PROC_READY\<rparr>, p \<mapsto> b\<lparr>user_context := set_reg0 (word_of_int (pid (new_child s))) (user_context b)\<rparr>)"
    using t(7) by auto
  have "same_rest s u" by (rule same_rest_trans [OF t(2) u(2)])
  then show ?thesis using t u r(1) by (intro exI [of _ u] exI [of _ D] exI [of _ K]) simp
qed

text \<open>
  C5. A call of \<^verbatim>\<open>Fork\<close> makes a second process out of the caller: the child gets a slot of the process table, the pid the machine gives
  it, and stands at the end of the ready queue and of the queue of the parent's children; every page of the parent and its kernel stack are
  copied, with their protection, to frames of its own, and nothing that was in use changes. The parent returns to user mode with the pid of the
  child as the result; when the child is given the processor, it returns from the same call, with the context of the parent
  and the result 0.
\<close>

theorem Fork_creates_child:
  assumes "passes_registers enter" "kernel_vector s" and f: "forkable s b S KS tbl i" and np: "n = next_addr s" "p = current_process s"
    and q: "kview s (ready_queue s) = Some rs" "kview s (children_processes b) = Some cs" "children_processes b \<noteq> ready_queue s"
  shows "\<exists>t cb D K. user_call fs enter Fork_stub s = Ret () t \<and> current_process t = p \<and>
    ctx t = set_reg0 (word_of_int (pid cb)) (enter Fork_stub (ctx s)) \<and>
    proc_table t = Some (tbl[i := n]) \<and> pcbs t n = Some cb \<and> pid cb = new_pid s (calls s + 3) \<and> pstate cb = PROC_READY \<and> ppid cb = pid b \<and>
    kview t = (kview s)(children_processes cb \<mapsto> [], ready_queue s \<mapsto> rs @ [n], children_processes b \<mapsto> cs @ [n]) \<and>
    (\<forall>x. x \<noteq> p \<and> x \<noteq> n \<longrightarrow> pcbs t x = pcbs s x) \<and> mem_wf (km t) \<and>
    pts (km t) = (pts (km s))(ptbr cb \<mapsto> D, kstack cb \<mapsto> K) \<and> memory_copied (km s) (km t) S D KS K \<and>
    (\<forall>u pb. current_process u = n \<and> pcbs u n = Some (cb\<lparr>pstate := PROC_RUNNING\<rparr>) \<and> pcbs u p = Some pb \<and> pid pb = pid b \<longrightarrow>
      (\<exists>v. resume u = Ret () v \<and> ctx v = set_reg0 0 (enter Fork_stub (ctx s)) \<and> km v = km u \<and> current_process v = n))"
proof -
  let ?c = "enter Fork_stub (ctx s)"
  let ?b = "b\<lparr>user_context := ?c\<rparr>"
  let ?s = "s\<lparr>ctx := ?c, pcbs := (pcbs s)(current_process s \<mapsto> ?b)\<rparr>"
  let ?cb = "(new_child s)\<lparr>ppid := pid b, user_context := ?c, kernel_context := KC_Fork p n, kstack := n + 3, pstate := PROC_READY\<rparr>"
  have s: "p \<noteq> 0" "pcbs s p = Some b" "pcbs s n = None" "n \<noteq> 0" "pid b \<noteq> new_pid s (calls s + 3)"
    using f np by (auto simp: forkable_def queues_ok_def)
  then have pn: "p \<noteq> n" by auto
  have nc: "new_child ?s = new_child s" by (simp add: new_child_def)
  have pc: "pid (new_child s) = new_pid s (calls s + 3)" "ptbr (new_child s) = n + 1" "children_processes (new_child s) = n + 2"
    by (simp_all add: new_child_def blank_pcb_def np(1))
  from Fork_makes_child [OF forkable_saved [OF f, of ?c], of n p rs cs] np q obtain u D K where
    u: "Fork ?s = Ret SUCCESS u" "same_rest ?s u" "mem_wf (km u)" "proc_table u = Some (tbl[i := n])"
      "kview u = (kview s)(n + 2 \<mapsto> [], ready_queue s \<mapsto> rs @ [n], children_processes b \<mapsto> cs @ [n])"
      "pcbs u = (pcbs s)(p \<mapsto> ?b, n \<mapsto> ?cb, p \<mapsto> ?b\<lparr>user_context := set_reg0 (word_of_int (pid (new_child s))) ?c\<rparr>)"
      "pts (km u) = (pts (km s))(n + 1 \<mapsto> D, n + 3 \<mapsto> K)" "memory_copied (km s) (km u) S D KS K"
    by (auto simp: nc)
  have cp: "current_process u = p" using u(2) np by (simp add: same_rest_def)
  define t where "t = u\<lparr>ctx := set_reg0 (word_of_int (pid (new_child s))) ?c\<rparr>"
  define cb where "cb = ?cb"
  have run: "user_call fs enter Fork_stub s = Ret () t"
    using u(1,6) cp s(1,2) np(2)
    by (simp add: t_def user_call_handler assms(2) KernelTrapHandler_def prog_simps passes_registersD [OF assms(1), unfolded One_nat_def] stub_defs
        trap_codes save_ctx_def load_ctx_def halt_on_error_def code_defs)
  have child: "\<exists>v. resume w = Ret () v \<and> ctx v = set_reg0 0 ?c \<and> km v = km w \<and> current_process v = n"
    if w: "current_process w = n" "pcbs w n = Some (cb\<lparr>pstate := PROC_RUNNING\<rparr>)" "pcbs w p = Some pb" "pid pb = pid b" for w pb
    using Fork_resume_child [OF w(1) s(4) w(2) s(1) pn w(3)] w(1,4) s(5) pc(1) by (simp add: cb_def)
  have "kview t = (kview s)(children_processes cb \<mapsto> [], ready_queue s \<mapsto> rs @ [n], children_processes b \<mapsto> cs @ [n])"
    "pts (km t) = (pts (km s))(ptbr cb \<mapsto> D, kstack cb \<mapsto> K)" using u(5,7) pc by (simp_all add: t_def cb_def)
  moreover have "pcbs t n = Some cb" "\<forall>x. x \<noteq> p \<and> x \<noteq> n \<longrightarrow> pcbs t x = pcbs s x" using u(6) pn by (simp_all add: t_def cb_def)
  moreover have "pid cb = new_pid s (calls s + 3)" "pstate cb = PROC_READY" "ppid cb = pid b" using pc by (simp_all add: cb_def)
  moreover have "ctx t = set_reg0 (word_of_int (pid cb)) ?c" "current_process t = p" "proc_table t = Some (tbl[i := n])" "mem_wf (km t)"
    "memory_copied (km s) (km t) S D KS K" using cp u(3,4,8) by (simp_all add: t_def cb_def)
  ultimately show ?thesis using run child by blast
qed

text \<open>The process of the example kernel, with an empty process table.\<close>

definition fork_ex :: kstate where
  "fork_ex = with_vector (kernel_ex\<lparr>proc_table := Some (replicate MAX_PROCS 0), new_pid := \<lambda>_. 9\<rparr>)"

lemma fork_ex_forkable: "forkable fork_ex ((pcb_ex 2 301)\<lparr>pstate := PROC_RUNNING, children_processes := 4\<rparr>) table_ex
    [pte_ex 2, pte_ex 3] (replicate MAX_PROCS 0) 0"
proof -
  have "{j. j < MAX_PT_LEN \<and> valid (table_ex ! j)} \<subseteq> {0, 1, 2, 3, 126, 127}"
  proof
    fix j assume "j \<in> {j. j < MAX_PT_LEN \<and> valid (table_ex ! j)}"
    then have j: "j < 128" "valid (table_ex ! j)" by (simp_all add: MAX_PT_LEN_def)
    show "j \<in> {0, 1, 2, 3, 126, 127}"
    proof (cases "4 \<le> j \<and> j < 126")
      case True
      then have "j - 4 < 122" by arith
      with True have "table_ex ! j = pte0" by (simp add: table_ex_def nth_append)
      then show ?thesis using j(2) by (simp add: pte0_def)
    qed (use j in auto)
  qed
  then have "card {j. j < MAX_PT_LEN \<and> valid (table_ex ! j)} \<le> card {0, 1, 2, 3, 126, 127 :: nat}" by (intro card_mono) simp_all
  then have c: "card {j. j < MAX_PT_LEN \<and> valid (table_ex ! j)} + KSTACK_PAGES \<le> card {64..<128 :: nat}" by (simp add: KSTACK_PAGES_def)
  have fr: "frame_of e < 64" if "e \<in> set table_ex" "valid e" for e
    using that frame_pte_ex by (auto simp: table_ex_def pte0_def)
  have "table_ok kmem_ex table_ex"
    unfolding table_ok_def kmem_ex_free(1) using fr by fastforce
  moreover have "pts kmem_ex 401 = Some table_ex" "pts kmem_ex 301 = Some [pte_ex 2, pte_ex 3]" by (simp_all add: kmem_ex_def table_ex_def)
  moreover have "\<forall>a \<ge> 1000. pcbs_ex a = None \<and> pts kmem_ex a = None" by (auto simp: pcbs_ex_def kmem_ex_def mem_ex_def)
  moreover have "queues_ok fork_ex" by (simp add: queues_ok_def fork_ex_def with_vector_def)
  moreover have "\<forall>i < KSTACK_PAGES. frame_of ([pte_ex 2, pte_ex 3] ! i) < 128 \<and> \<not> 64 \<le> frame_of ([pte_ex 2, pte_ex 3] ! i)"
    using frame_pte_ex by (auto simp: KSTACK_PAGES_def less_2_cases_iff)
  moreover have "mallocs_ok fork_ex" "km fork_ex = kmem_ex" "pcbs fork_ex = pcbs_ex" "next_addr fork_ex = 1000" "current_process fork_ex = 101"
    "proc_table fork_ex = Some (replicate MAX_PROCS 0)" "new_pid fork_ex = (\<lambda>_. 9)"
    by (simp_all add: fork_ex_def with_vector_def mallocs_ok_def)
  ultimately show ?thesis using c unfolding forkable_def
    by (simp add: kmem_ex_free KSTACK_PAGES_def [symmetric] MAX_PROCS_def) (simp add: KSTACK_PAGES_def)
qed

theorem Fork_creates_child_witness:
  "\<exists>t cb. user_call (\<lambda>_. None) enter_ex Fork_stub fork_ex = Ret () t \<and> call_result t = 9 \<and> pcbs t 1000 = Some cb \<and> pid cb = 9 \<and>
     qview (qh t) 1 = Some [102, 1000] \<and> qview (qh t) 4 = Some [104, 1000]"
proof -
  have f: "kernel_vector fork_ex" by (simp add: fork_ex_def kernel_vector_with)
  have "kview fork_ex (ready_queue fork_ex) = Some [102]" "kview fork_ex 4 = Some [104]" "ready_queue fork_ex = 1"
    by (simp_all add: fork_ex_def with_vector_def qview_sys_def)
  moreover have "next_addr fork_ex = 1000" "current_process fork_ex = 101" "new_pid fork_ex k = 9" for k by (simp_all add: fork_ex_def with_vector_def)
  moreover have "sint (reg (set_reg0 9 (enter_ex Fork_stub c)) 0) = 9" for c
    by (simp add: reg_def set_reg0_def enter_ex_def signed_eq_0_iff)
  ultimately show ?thesis
    using Fork_creates_child [OF passes_enter_ex f fork_ex_forkable refl refl, of "[102]" "[104]" "\<lambda>_. None"] by (auto simp: call_result_def)
qed

end
