(* ===== verification/Boot_Tables.thy ===== *)
theory Boot_Tables
  imports Program_Start Forking
begin

text \<open>
  The tables of the boot (\<^verbatim>\<open>init.c\<close>, \<^verbatim>\<open>mem.c\<close>, \<^verbatim>\<open>proc.c\<close>): the page table of the kernel image, the frame table, the terminals and the process queues.
\<close>

section \<open>Memory\<close>

definition page_range :: "nat \<Rightarrow> nat \<Rightarrow> prot \<Rightarrow> pte list \<Rightarrow> pte list" where
  "page_range a b p R = map (\<lambda>v. if a \<le> v \<and> v < b then \<lparr>valid = True, prot = p, pfn = to_pfn (int v)\<rparr> else R ! v) [0..<length R]"

lemma page_range_length [simp]: "length (page_range a b p R) = length R"
  by (simp add: page_range_def)

lemma page_range_nth: "v < length R \<Longrightarrow>
  page_range a b p R ! v = (if a \<le> v \<and> v < b then \<lparr>valid = True, prot = p, pfn = to_pfn (int v)\<rparr> else R ! v)"
  by (simp add: page_range_def)

lemma page_range_Suc:
  "a \<le> b \<Longrightarrow> b < length R \<Longrightarrow>
   (page_range a b p R)[b := \<lparr>valid = True, prot = p, pfn = to_pfn (int b)\<rparr>] = page_range a (Suc b) p R"
  by (rule nth_equalityI) (auto simp: page_range_nth nth_list_update)

lemma map_page_range:
  assumes "a \<le> b" "b \<le> length (pt_region0 m)"
  shows "for_do a b (\<lambda>vpn. upd_pte0 vpn (\<lambda>e. e\<lparr>valid := True, prot := p, pfn := to_pfn (int vpn)\<rparr>)) m =
    Ret () (m\<lparr>pt_region0 := page_range a b p (pt_region0 m)\<rparr>)"
proof -
  let ?P = "\<lambda>i t. t = m\<lparr>pt_region0 := page_range a i p (pt_region0 m)\<rparr>"
  have "\<exists>t. for_do a b (\<lambda>vpn. upd_pte0 vpn (\<lambda>e. e\<lparr>valid := True, prot := p, pfn := to_pfn (int vpn)\<rparr>)) m = Ret () t \<and> ?P b t"
  proof (rule for_do_rule [where P = ?P])
    have "page_range a a p (pt_region0 m) = pt_region0 m" by (rule nth_equalityI) (auto simp: page_range_nth)
    then show "?P a m" by simp
  next
    fix i t assume "a \<le> i" "i < b" "?P i t"
    then show "\<exists>t'. upd_pte0 i (\<lambda>e. e\<lparr>valid := True, prot := p, pfn := to_pfn (int i)\<rparr>) t = Ret () t' \<and> ?P (Suc i) t'"
      using assms page_range_Suc [of a i "pt_region0 m" p] by (simp add: upd_pte0_eval)
  qed (rule assms)
  then show ?thesis by blast
qed

text \<open>The table of the kernel: the text, the data and the stack of its image, each page in the frame of the same number.\<close>

definition boot_table :: "boot_info \<Rightarrow> pte list" where
  "boot_table bi = page_range KSTACK_START_PAGE (KSTACK_START_PAGE + KSTACK_PAGES) (PROT_READ OR PROT_WRITE)
     (page_range (first_kernel_data_page bi) (orig_kernel_brk_page bi) (PROT_READ OR PROT_WRITE)
     (page_range (first_kernel_text_page bi) (first_kernel_data_page bi) (PROT_READ OR PROT_EXEC) (replicate MAX_PT_LEN pte0)))"

definition image_fits :: "boot_info \<Rightarrow> bool" where
  "image_fits bi \<longleftrightarrow> first_kernel_text_page bi \<le> first_kernel_data_page bi \<and> first_kernel_data_page bi \<le> orig_kernel_brk_page bi \<and>
     orig_kernel_brk_page bi < 124"

lemma boot_table_length [simp]: "length (boot_table bi) = MAX_PT_LEN"
  by (simp add: boot_table_def)

lemma InitializeVM_ok: "image_fits bi \<Longrightarrow> InitializeVM bi m = Ret () (m\<lparr>pt_region0 := boot_table bi\<rparr>)"
  by (simp add: InitializeVM_def thn_app modify_app map_page_range [simplified] boot_table_def image_fits_def MAX_PT_LEN_def KSTACK_START_PAGE_def KSTACK_PAGES_def)

lemma frame_to_pfn: "f < 2 ^ 19 \<Longrightarrow> frame_of \<lparr>valid = v, prot = p, pfn = to_pfn (int f)\<rparr> = f"
  using to_pfn_frame [of "int f"] by (simp add: frame_of_def)

lemma boot_table_entry:
  assumes "image_fits bi" "v < MAX_PT_LEN" "valid (boot_table bi ! v)"
  shows "frame_of (boot_table bi ! v) = v" "v < orig_kernel_brk_page bi \<or> v = 126 \<or> v = 127"
proof -
  have v: "v < 128" using assms(2) by (simp add: MAX_PT_LEN_def)
  note t = assms(3) [unfolded boot_table_def]
  show "frame_of (boot_table bi ! v) = v"
    using t v frame_to_pfn [of v] by (simp add: boot_table_def page_range_nth MAX_PT_LEN_def split: if_splits) (simp_all add: pte0_def)
  show "v < orig_kernel_brk_page bi \<or> v = 126 \<or> v = 127"
    using t v assms(1) by (auto simp: image_fits_def page_range_nth MAX_PT_LEN_def pte0_def KSTACK_START_PAGE_def KSTACK_PAGES_def split: if_splits)
qed

text \<open>The frames below the kernel break belong to the kernel, the others are free.\<close>

definition frame_init :: "nat \<Rightarrow> nat \<Rightarrow> nat \<Rightarrow> kmem \<Rightarrow> kmem \<Rightarrow> bool" where
  "frame_init N kb i m t \<longleftrightarrow> (\<exists>ft. t = m\<lparr>nframes := N, free_nframes := int (i - kb), frame_table := ft\<rparr> \<and> length ft = N \<and>
     (\<forall>j < i. usage (ft ! j) = FRAME_FREE \<longleftrightarrow> kb \<le> j))"

lemma frame_init_step:
  assumes "frame_init N kb i m t" "i < N" "kernel_brk_page m = kb"
  shows "\<exists>t'. bnd (gets kernel_brk_page) (\<lambda>kernel_brk_pfn.
            thn (upd_fd (int i) (\<lambda>fd. fd\<lparr>fd_pfn := i\<rparr>))
           (if text_section_base_page \<le> i \<and> i < kernel_brk_pfn
            then upd_fd (int i) (\<lambda>fd. fd\<lparr>usage := FRAME_KERNEL, owner_pid := IDLE_PID\<rparr>)
            else thn (upd_fd (int i) (\<lambda>fd. fd\<lparr>usage := FRAME_FREE, owner_pid := -1\<rparr>))
                     (modify (\<lambda>m. m\<lparr>free_nframes := free_nframes m + 1\<rparr>)))) t = Ret () t' \<and> frame_init N kb (Suc i) m t'"
proof -
  from assms(1) obtain ft where t: "t = m\<lparr>nframes := N, free_nframes := int (i - kb), frame_table := ft\<rparr>" and l: "length ft = N"
    and u: "\<And>j. j < i \<Longrightarrow> usage (ft ! j) = FRAME_FREE \<longleftrightarrow> kb \<le> j" by (auto simp: frame_init_def)
  define fd where "fd = (if i < kb then (ft ! i)\<lparr>fd_pfn := i, usage := FRAME_KERNEL, owner_pid := IDLE_PID\<rparr>
    else (ft ! i)\<lparr>fd_pfn := i, usage := FRAME_FREE, owner_pid := -1\<rparr>)"
  let ?t = "m\<lparr>nframes := N, free_nframes := int (Suc i - kb), frame_table := ft[i := fd]\<rparr>"
  have "usage ((ft[i := fd]) ! j) = FRAME_FREE \<longleftrightarrow> kb \<le> j" if "j < Suc i" for j
    using that u [of j] l assms(2) by (cases "j = i") (auto simp: fd_def nth_list_update)
  then have "frame_init N kb (Suc i) m ?t" using l unfolding frame_init_def by (intro exI [of _ "ft[i := fd]"]) simp
  moreover have "int (Suc i - kb) = int (i - kb) + 1" if "\<not> i < kb" using that by simp
  ultimately show ?thesis using assms(2,3) t l
    by (intro exI [of _ ?t]) (auto simp: array_ops prog_simps text_section_base_page_def fd_def intro!: kmem_eqI)
qed

lemma InitializeFreeFrameList_ok:
  assumes N: "N = pmem_size div PAGESIZE" "N \<le> 2 ^ 19" and a: "a \<noteq> 0" and kb: "kb = kernel_brk_page m" "kb \<le> N"
  shows "\<exists>fn ft. InitializeFreeFrameList pmem_size a m = Ret () (m\<lparr>nframes := N, free_nframes := fn, frame_table := ft\<rparr>) \<and>
    frames_wf (m\<lparr>nframes := N, free_nframes := fn, frame_table := ft\<rparr>) \<and>
    free_frames (m\<lparr>nframes := N, free_nframes := fn, frame_table := ft\<rparr>) = {kb..<N}"
proof -
  let ?m = "m\<lparr>nframes := N, free_nframes := 0, frame_table := replicate N \<lparr>fd_pfn = 0, usage = FRAME_FREE, owner_pid = 0, last_used_tick = 0\<rparr>\<rparr>"
  let ?body = "\<lambda>i. bnd (gets kernel_brk_page) (\<lambda>kernel_brk_pfn.
            thn (upd_fd (int i) (\<lambda>fd. fd\<lparr>fd_pfn := i\<rparr>))
           (if text_section_base_page \<le> i \<and> i < kernel_brk_pfn
            then upd_fd (int i) (\<lambda>fd. fd\<lparr>usage := FRAME_KERNEL, owner_pid := IDLE_PID\<rparr>)
            else thn (upd_fd (int i) (\<lambda>fd. fd\<lparr>usage := FRAME_FREE, owner_pid := -1\<rparr>))
                     (modify (\<lambda>m. m\<lparr>free_nframes := free_nframes m + 1\<rparr>))))"
  have "\<exists>t. for_do 0 N ?body ?m = Ret () t \<and> frame_init N kb N m t"
  proof (rule for_do_rule [where P = "\<lambda>i t. frame_init N kb i m t"])
    show "frame_init N kb 0 m ?m" unfolding frame_init_def
      by (intro exI [of _ "replicate N \<lparr>fd_pfn = 0, usage = FRAME_FREE, owner_pid = 0, last_used_tick = 0\<rparr>"]) simp
  qed (use frame_init_step kb in auto)
  then obtain ft where ft: "for_do 0 N ?body ?m = Ret () (m\<lparr>nframes := N, free_nframes := int (N - kb), frame_table := ft\<rparr>)" "length ft = N"
    "\<And>j. j < N \<Longrightarrow> usage (ft ! j) = FRAME_FREE \<longleftrightarrow> kb \<le> j" by (auto simp: frame_init_def)
  have "free_frames (m\<lparr>nframes := N, free_nframes := int (N - kb), frame_table := ft\<rparr>) = {kb..<N}"
    using ft(3) by (auto simp: free_frames_def)
  moreover from this have "frames_wf (m\<lparr>nframes := N, free_nframes := int (N - kb), frame_table := ft\<rparr>)"
    using ft(2) N(2) by (simp add: frames_wf_def)
  moreover have "InitializeFreeFrameList pmem_size a m = Ret () (m\<lparr>nframes := N, free_nframes := int (N - kb), frame_table := ft\<rparr>)"
    using ft(1) a by (simp add: InitializeFreeFrameList_def prog_simps N(1) [symmetric])
  ultimately show ?thesis by blast
qed

section \<open>Queues and terminals\<close>

text \<open>No allocation and no context switch fails.\<close>

definition never_fails :: "kstate \<Rightarrow> bool" where
  "never_fails s \<longleftrightarrow> (\<forall>n. malloc_ok s n \<and> kcs_ok s n)"

text \<open>After \<open>n\<close> allocations that made empty queues or buffers, and nothing else; the queues of \<open>s\<close> stay.\<close>

definition allocated :: "nat \<Rightarrow> kstate \<Rightarrow> kstate \<Rightarrow> bool" where
  "allocated n s t \<longleftrightarrow> queues_ok t \<and> next_addr t = next_addr s + n \<and> calls t = calls s + n \<and> km t = km s \<and> pcbs t = pcbs s \<and>
     proc_table t = proc_table s \<and> TRAP_VECTOR t = TRAP_VECTOR s \<and> ctx t = ctx s \<and> never_fails t \<and> new_pid t = new_pid s \<and>
     length (terminals t) = length (terminals s) \<and> (\<forall>q. q < next_addr s \<longrightarrow> kview t q = kview s q) \<and>
     (\<forall>q. next_addr s \<le> q \<longrightarrow> kview t q = None \<or> kview t q = Some [])"

lemma kqueueCreate_ok:
  assumes "queues_ok s" "never_fails s" "n = next_addr s"
  obtains h where "kqueueCreate s = Ret n (s\<lparr>next_addr := Suc n, calls := Suc (calls s), qh := h\<rparr>)" "qwf h"
    "qview h = (kview s)(n \<mapsto> [])" "limit h = Suc n" "n \<noteq> 0"
proof -
  have q: "qwf (qh s)" "limit (qh s) \<le> n" "n \<noteq> 0" using assms by (simp_all add: queues_ok_def)
  from create_view [OF q(1,3,2)] obtain h where "queueCreate n (qh s) = Ret n h" "qwf h" "qview h = (kview s)(n \<mapsto> [])" "limit h = Suc n" by blast
  with assms q that show thesis by (simp add: kqueueCreate_def malloc_def prog_simps never_fails_def)
qed

lemma InitializeTerminal_ok:
  assumes s: "queues_ok s" "never_fails s" "\<forall>q \<ge> next_addr s. kview s q = None" and i: "i < length (terminals s)"
  shows "\<exists>t. InitializeTerminal i s = Ret () t \<and> allocated 3 s t \<and> (\<forall>q \<ge> next_addr t. kview t q = None)"
proof -
  let ?n = "next_addr s"
  let ?s1 = "s\<lparr>terminals := (terminals s)[i := (terminals s ! i)\<lparr>tty_id := int i\<rparr>]\<rparr>"
  have s1: "queues_ok ?s1" "never_fails ?s1" using s by (simp_all add: queues_ok_def never_fails_def)
  obtain h1 where h1: "kqueueCreate ?s1 = Ret ?n (?s1\<lparr>next_addr := Suc ?n, calls := Suc (calls s), qh := h1\<rparr>)" "qwf h1"
    "qview h1 = (kview s)(?n \<mapsto> [])" "limit h1 = Suc ?n" "?n \<noteq> 0" by (rule kqueueCreate_ok [OF s1 refl]) simp
  let ?t1 = "(terminals s)[i := (terminals s ! i)\<lparr>tty_id := int i, blocked_readers := ?n\<rparr>]"
  let ?s2 = "s\<lparr>next_addr := Suc ?n, calls := Suc (calls s), qh := h1, terminals := ?t1\<rparr>"
  have s2: "queues_ok ?s2" "never_fails ?s2" using s h1 by (simp_all add: queues_ok_def never_fails_def)
  obtain h2 where h2: "kqueueCreate ?s2 = Ret (Suc ?n) (?s2\<lparr>next_addr := Suc (Suc ?n), calls := Suc (Suc (calls s)), qh := h2\<rparr>)" "qwf h2"
    "qview h2 = (qview h1)(Suc ?n \<mapsto> [])" "limit h2 = Suc (Suc ?n)" by (rule kqueueCreate_ok [OF s2]) simp_all
  let ?tt = "(terminals s ! i)\<lparr>tty_id := int i, blocked_readers := ?n, blocked_writers := Suc ?n, read_buffer := replicate TERMINAL_MAX_LINE 0,
              read_buffer_len := 0, write_buffer := None, write_buffer_position := 0,
              write_buffer_len := 0, current_writer := 0, in_use := False\<rparr>"
  let ?t = "s\<lparr>qh := h2, next_addr := Suc (Suc (Suc ?n)), calls := Suc (Suc (Suc (calls s))), terminals := (terminals s)[i := ?tt]\<rparr>"
  have m: "malloc_ok s k" for k using s(2) by (simp add: never_fails_def)
  have "InitializeTerminal i s = Ret () ?t"
    using i h1(1,5) h2(1) m by (auto simp: InitializeTerminal_def prog_simps upd_tty_def get_tty_def malloc_def)
  moreover have "allocated 3 s ?t"
    using h1(3,4) h2(2-4) s by (auto simp: allocated_def queues_ok_def never_fails_def)
  moreover have "\<forall>q \<ge> next_addr ?t. kview ?t q = None" using h1(3) h2(3) s(3) by simp
  ultimately show ?thesis by blast
qed

lemma allocated_trans: "allocated n s t \<Longrightarrow> allocated k t u \<Longrightarrow> allocated (n + k) s u"
  unfolding allocated_def by (auto simp: not_le) (metis le_less_linear)

lemma InitializeTerminals_ok:
  assumes s: "queues_ok s" "never_fails s" "\<forall>q \<ge> next_addr s. kview s q = None" and l: "length (terminals s) = NUM_TERMINALS"
  shows "\<exists>t. InitializeTerminals s = Ret () t \<and> allocated 12 s t \<and> (\<forall>q \<ge> next_addr t. kview t q = None)"
proof -
  let ?P = "\<lambda>i t. allocated (3 * i) s t \<and> (\<forall>q \<ge> next_addr t. kview t q = None)"
  have "\<exists>t. for_do 0 NUM_TERMINALS InitializeTerminal s = Ret () t \<and> ?P NUM_TERMINALS t"
  proof (rule for_do_rule [where P = ?P])
    show "?P 0 s" using s by (simp add: allocated_def)
  next
    fix i t assume i: "i < NUM_TERMINALS" and P: "?P i t"
    then have "queues_ok t" "never_fails t" "i < length (terminals t)" using l by (simp_all add: allocated_def)
    from InitializeTerminal_ok [OF this(1,2) _ this(3)] P obtain u where
      "InitializeTerminal i t = Ret () u" "allocated 3 t u" "\<forall>q \<ge> next_addr u. kview u q = None" by blast
    then show "\<exists>t'. InitializeTerminal i t = Ret () t' \<and> ?P (Suc i) t'"
      using P allocated_trans [of "3 * i" s t 3 u] by (intro exI [of _ u]) (simp add: add.commute)
  qed simp
  then show ?thesis by (auto simp: InitializeTerminals_def NUM_TERMINALS_def)
qed

lemma InitializeProcQueues_ok:
  assumes s: "queues_ok s" "never_fails s" and n: "n = next_addr s"
  shows "\<exists>t. InitializeProcQueues s = Ret () t \<and> queues_ok t \<and> next_addr t = n + 4 \<and> calls t = calls s + 4 \<and> km t = km s \<and> pcbs t = pcbs s \<and>
     proc_table t = proc_table s \<and> TRAP_VECTOR t = TRAP_VECTOR s \<and> ctx t = ctx s \<and> never_fails t \<and> new_pid t = new_pid s \<and>
     ready_queue t = n \<and> blocked_queue t = n + 1 \<and> kview t = (kview s)(n \<mapsto> [], n + 1 \<mapsto> [], n + 2 \<mapsto> [], n + 3 \<mapsto> [])"
proof -
  obtain h1 where h1: "kqueueCreate s = Ret n (s\<lparr>next_addr := Suc n, calls := Suc (calls s), qh := h1\<rparr>)" "qwf h1"
    "qview h1 = (kview s)(n \<mapsto> [])" "limit h1 = Suc n" "n \<noteq> 0" by (rule kqueueCreate_ok [OF s n]) simp
  let ?s1 = "s\<lparr>next_addr := Suc n, calls := Suc (calls s), qh := h1, ready_queue := n\<rparr>"
  have s1: "queues_ok ?s1" "never_fails ?s1" using s h1 by (simp_all add: queues_ok_def never_fails_def)
  obtain h2 where h2: "kqueueCreate ?s1 = Ret (Suc n) (?s1\<lparr>next_addr := Suc (Suc n), calls := Suc (Suc (calls s)), qh := h2\<rparr>)" "qwf h2"
    "qview h2 = (qview h1)(Suc n \<mapsto> [])" "limit h2 = Suc (Suc n)" by (rule kqueueCreate_ok [OF s1]) simp_all
  let ?s2 = "?s1\<lparr>next_addr := Suc (Suc n), calls := Suc (Suc (calls s)), qh := h2, blocked_queue := Suc n\<rparr>"
  have s2: "queues_ok ?s2" "never_fails ?s2" using s h2 by (simp_all add: queues_ok_def never_fails_def)
  obtain h3 where h3: "kqueueCreate ?s2 = Ret (Suc (Suc n)) (?s2\<lparr>next_addr := Suc (Suc (Suc n)), calls := Suc (Suc (Suc (calls s))), qh := h3\<rparr>)" "qwf h3"
    "qview h3 = (qview h2)(Suc (Suc n) \<mapsto> [])" "limit h3 = Suc (Suc (Suc n))" by (rule kqueueCreate_ok [OF s2]) simp_all
  let ?s3 = "?s2\<lparr>next_addr := Suc (Suc (Suc n)), calls := Suc (Suc (Suc (calls s))), qh := h3, zombie_queue := Suc (Suc n)\<rparr>"
  have s3: "queues_ok ?s3" "never_fails ?s3" using s h3 by (simp_all add: queues_ok_def never_fails_def)
  obtain h4 where h4: "kqueueCreate ?s3 = Ret (Suc (Suc (Suc n))) (?s3\<lparr>next_addr := Suc (Suc (Suc (Suc n))), calls := Suc (Suc (Suc (Suc (calls s)))), qh := h4\<rparr>)"
    "qwf h4" "qview h4 = (qview h3)(Suc (Suc (Suc n)) \<mapsto> [])" "limit h4 = Suc (Suc (Suc (Suc n)))" by (rule kqueueCreate_ok [OF s3]) simp_all
  let ?t = "?s3\<lparr>next_addr := Suc (Suc (Suc (Suc n))), calls := Suc (Suc (Suc (Suc (calls s)))), qh := h4, waiting_parents := Suc (Suc (Suc n))\<rparr>"
  have "InitializeProcQueues s = Ret () ?t"
    using h1(1,5) h2(1) h3(1) h4(1) by (simp add: InitializeProcQueues_def create_or_halt_def prog_simps)
  moreover have "kview ?t = (kview s)(n \<mapsto> [], n + 1 \<mapsto> [], n + 2 \<mapsto> [], n + 3 \<mapsto> [])"
    using h1(3) h2(3) h3(3) h4(3) by (simp add: eval_nat_numeral)
  ultimately show ?thesis using h4 s by (intro exI [of _ ?t]) (simp add: queues_ok_def never_fails_def)
qed

end
