(* ===== verification/Boot_Idle.thy ===== *)
theory Boot_Idle
  imports Boot_Tables
begin

text \<open>
  The first half of \<^verbatim>\<open>KernelStart\<close>: the idle process with the kernel stack of the boot, and the state of the kernel when it exists.
\<close>

section \<open>The idle process\<close>

lemma InitializeKernelStackIdle_ok:
  assumes m: "mem_wf m" and k: "k \<noteq> 0" and fr: "126 \<in> free_frames m" "127 \<in> free_frames m"
  shows "\<exists>u. InitializeKernelStackIdle k m = Ret k u \<and> mem_wf u \<and> pts u = (pts m)(k \<mapsto> [kernel_pte 126, kernel_pte 127]) \<and>
    phys u = phys m \<and> nframes u = nframes m \<and> free_frames u = free_frames m - {126, 127} \<and> pt_region0 u = pt_region0 m"
proof -
  let ?m = "m\<lparr>pts := (pts m)(k \<mapsto> [pte0, pte0])\<rparr>"
  let ?m1 = "(take_frame FRAME_KERNEL 126 ?m)\<lparr>pts := (pts m)(k \<mapsto> [kernel_pte 126, pte0])\<rparr>"
  let ?m2 = "(take_frame FRAME_KERNEL 127 ?m1)\<lparr>pts := (pts m)(k \<mapsto> [kernel_pte 126, kernel_pte 127])\<rparr>"
  have wf: "mem_wf ?m" using m by simp
  have wf1: "mem_wf ?m1" using mem_wf_take [OF wf, of 126 FRAME_KERNEL] fr by simp
  have fm1: "free_frames ?m1 = free_frames m - {126}" using wf by (simp add: free_take_wf)
  have in1: "127 \<in> free_frames ?m1" unfolding fm1 using fr by simp
  have wf2: "mem_wf ?m2" using mem_wf_take [OF wf1 in1, of FRAME_KERNEL] by simp
  have fm2: "free_frames ?m2 = free_frames m - {126, 127}"
    using free_take_wf [OF wf1, of FRAME_KERNEL 127] fm1 by auto
  have fw: "frames_wf ?m" "frames_wf ?m1" using wf wf1 by (simp_all only: mem_wf_def)
  let ?body = "\<lambda>i. thn (allocSpecificFrame (int (KSTACK_START_PAGE + i)) FRAME_KERNEL (-1))
      (upd_pte k (int i) (\<lambda>e. e\<lparr>valid := True, pfn := to_pfn (int (KSTACK_START_PAGE + i)), prot := PROT_WRITE OR PROT_READ\<rparr>))"
  have s1: "?body 0 ?m = Ret () ?m1"
    using allocSpecificFrame_eval [OF fw(1), of 126 FRAME_KERNEL "-1"] k fr
    by (simp add: prog_simps upd_pte_eval kernel_pte_def pte0_def KSTACK_START_PAGE_def)
  have s2: "?body 1 ?m1 = Ret () ?m2"
    using allocSpecificFrame_eval [OF fw(2), of 127 FRAME_KERNEL "-1"] k in1
    by (simp add: prog_simps upd_pte_eval kernel_pte_def pte0_def KSTACK_START_PAGE_def)
  have "replicate KSTACK_PAGES pte0 = [pte0, pte0]" by (simp add: KSTACK_PAGES_def numeral_2_eq_2)
  moreover have "thn (for_do 0 KSTACK_PAGES ?body) (ret k) ?m = Ret k ?m2"
    by (simp only: thn_app [of "for_do 0 KSTACK_PAGES ?body" "ret k" ?m] for_kernel_stack [OF s1 s2] outcome.case ret_app)
  ultimately have "InitializeKernelStackIdle k m = Ret k ?m2"
    using k unfolding InitializeKernelStackIdle_def by (simp only: thn_app [of "modify _"] modify_app outcome.case if_False)
  then show ?thesis using wf2 fm2 by (intro exI [of _ ?m2]) simp
qed

text \<open>The idle process: a page of stack at the top of region 1, the kernel stack of the boot.\<close>

definition idle_pcb :: "word32 \<Rightarrow> kstate \<Rightarrow> PCB" where
  "idle_pcb a s = (new_child s)\<lparr>kstack := next_addr s + 3, user_context := uctx0\<lparr>sp := VMEM_1_LIMIT - 4, pc := a\<rparr>, pstate := PROC_RUNNING\<rparr>"

definition idle_memory :: "nat \<Rightarrow> kmem \<Rightarrow> kmem \<Rightarrow> bool" where
  "idle_memory n m u \<longleftrightarrow> mem_wf u \<and> phys u = phys m \<and> nframes u = nframes m \<and> pt_region0 u = pt_region0 m \<and>
     (\<exists>f D. f \<in> free_frames m \<and> free_frames u = free_frames m - {f, 126, 127} \<and>
        pts u = (pts m)(n + 1 \<mapsto> D, n + 3 \<mapsto> [kernel_pte 126, kernel_pte 127]) \<and> length D = MAX_PT_LEN)"

lemma CreateIdlePCB_ok:
  assumes s: "queues_ok s" "never_fails s" and n: "n = next_addr s" and tbl: "proc_table s = Some (replicate MAX_PROCS 0)"
    and m: "mem_wf (km s)" "{124, 126, 127} \<subseteq> free_frames (km s)"
  shows "\<exists>t. CreateIdlePCB a s = Ret n t \<and> queues_ok t \<and> never_fails t \<and> next_addr t = n + 4 \<and> calls t = calls s + 5 \<and>
    pcbs t = (pcbs s)(n \<mapsto> idle_pcb a s) \<and> proc_table t = Some ((replicate MAX_PROCS 0)[0 := n]) \<and> idle_memory n (km s) (km t) \<and>
    kview t = (kview s)(n + 2 \<mapsto> []) \<and> ready_queue t = ready_queue s \<and> blocked_queue t = blocked_queue s \<and> TRAP_VECTOR t = TRAP_VECTOR s \<and>
    new_pid t = new_pid s"
proof -
  have ok: "mallocs_ok s" using s(2) by (simp add: mallocs_ok_def never_fails_def)
  have n0: "n \<noteq> 0" using s n by (simp add: queues_ok_def)
  let ?tb = "replicate MAX_PROCS 0 :: addr list" and ?D = "replicate MAX_PT_LEN pte0"
  have tb: "length ?tb = MAX_PROCS" "0 < MAX_PROCS" "?tb ! 0 = 0" by (simp_all add: MAX_PROCS_def)
  from getFreePCB_ok [OF s(1) ok n tbl tb] obtain t1 where
    t1: "getFreePCB s = Ret n t1" "same_rest s t1" "queues_ok t1" "kview t1 = (kview s)(Suc (Suc n) \<mapsto> [])"
      "pcbs t1 = (pcbs s)(n \<mapsto> new_child s)" "km t1 = (km s)\<lparr>pts := (pts (km s))(Suc n \<mapsto> ?D)\<rparr>"
      "proc_table t1 = Some (?tb[0 := n])" "next_addr t1 = n + 3" "calls t1 = calls s + 4" by auto
  have nf: "malloc_ok t1 k" "kcs_ok t1 k" for k using t1(2) s(2) by (simp_all add: same_rest_def never_fails_def)
  let ?m1 = "km t1" and ?f = "least_free (km t1)"
  have fm: "free_frames ?m1 = free_frames (km s)" "mem_wf ?m1" using m(1) by (simp_all add: t1(6))
  have ne: "free_frames ?m1 \<noteq> {}" using m(2) fm by auto
  have "\<not> 124 < ?f" using least_free_le [of 124 ?m1] m(2) fm by auto
  then have f: "?f \<in> free_frames (km s)" "?f \<le> 124" using least_free_in [OF ne] fm by auto
  have fw: "frames_wf ?m1" using fm by (simp add: mem_wf_def)
  let ?e = "\<lparr>valid = True, prot = PROT_READ OR PROT_WRITE, pfn = to_pfn (int ?f)\<rparr>"
  let ?m2 = "(take_frame FRAME_USER ?f ?m1)\<lparr>pts := (pts (km s))(Suc n \<mapsto> ?D[127 := ?e])\<rparr>"
  have wf2: "mem_wf ?m2" and fm2: "free_frames ?m2 = free_frames (km s) - {?f}"
    using mem_wf_take [OF fm(2), of ?f FRAME_USER] free_take_wf [OF fm(2), of FRAME_USER ?f] f fm by simp_all
  have in2: "126 \<in> free_frames ?m2" "127 \<in> free_frames ?m2" unfolding fm2 using m(2) f(2) by auto
  from InitializeKernelStackIdle_ok [OF wf2 _ in2, of "n + 3"] obtain u where
    u: "InitializeKernelStackIdle (n + 3) ?m2 = Ret (n + 3) u" "mem_wf u" "pts u = (pts ?m2)(n + 3 \<mapsto> [kernel_pte 126, kernel_pte 127])"
      "phys u = phys ?m2" "nframes u = nframes ?m2" "free_frames u = free_frames ?m2 - {126, 127}" "pt_region0 u = pt_region0 ?m2" by auto
  let ?t = "t1\<lparr>idle_proc := n, next_addr := Suc (n + 3), calls := Suc (calls t1), km := u, pcbs := (pcbs s)(n \<mapsto> idle_pcb a s)\<rparr>"
  have v: "vpn_of (VMEM_1_LIMIT - 0x2000 - VMEM_1_BASE) = 127" by (simp add: vpn_of_div VMEM_1_LIMIT_def VMEM_1_BASE_def)
  have pb: "ptbr (new_child s) = Suc n" "pstate (new_child s) = PROC_RUNNING" by (simp_all add: new_child_def blank_pcb_def n)
  have map: "MapPage (Suc n) 127 (int ?f) (PROT_READ OR PROT_WRITE) (take_frame FRAME_USER ?f ?m1) = Ret () ?m2"
  proof -
    have "pts (take_frame FRAME_USER ?f ?m1) (Suc n) = Some ?D" by (simp add: t1(6))
    moreover have "pts (take_frame FRAME_USER ?f ?m1) = (pts (km s))(Suc n \<mapsto> ?D)" by (simp add: t1(6))
    moreover have "127 < MAX_PT_LEN" by (simp add: MAX_PT_LEN_def)
    ultimately show ?thesis by (simp add: MapPage_def upd_pte_eval del: fun_upd_apply)
  qed
  have "CreateIdlePCB a s = Ret n ?t"
    using n0 t1(1) allocFrame_some [OF fw ne, of FRAME_USER 0] nf t1(5,8) u(1) map v pb
    by (simp add: CreateIdlePCB_def prog_simps kInitializeKernelStackIdle_def malloc_def idle_pcb_def n)
  moreover have "idle_memory n (km s) (km ?t)"
    unfolding idle_memory_def using u f fm2
    by (intro conjI exI [of _ ?f] exI [of _ "?D[127 := ?e]"]) (simp_all add: t1(6), auto)
  ultimately show ?thesis using t1 nf u n0 s by (intro exI [of _ ?t]) (auto simp: queues_ok_def never_fails_def same_rest_def)
qed

section \<open>Up to the idle process\<close>

lemma mem_registers [simp]: "mem_wf (m\<lparr>reg_ptbr1 := a\<rparr>) = mem_wf m" "mem_wf (m\<lparr>reg_ptlr1 := n\<rparr>) = mem_wf m"
  "free_frames (m\<lparr>reg_ptbr1 := a\<rparr>) = free_frames m" "free_frames (m\<lparr>reg_ptlr1 := n\<rparr>) = free_frames m"
  by (simp_all add: mem_wf_def frames_wf_def free_frames_def)

text \<open>
  The addresses the kernel's \<^verbatim>\<open>malloc\<close> has given: 1 the frame table, 2 the process table, 3 to 14 the terminals, 15 to 18 the queues
  of processes, 19 to 22 the idle process with its table, the queue of its children and its kernel stack.
\<close>

definition idle_boot :: "boot_info \<Rightarrow> (nat \<Rightarrow> int) \<Rightarrow> PCB" where
  "idle_boot bi npid = (blank_pcb 19)\<lparr>pid := npid 21, kstack := 22, user_context := uctx0\<lparr>sp := VMEM_1_LIMIT - 4, pc := do_idle bi\<rparr>,
     pstate := PROC_RUNNING\<rparr>"

definition vector_set :: "kstate \<Rightarrow> bool" where
  "vector_set s \<longleftrightarrow> TRAP_VECTOR s = (replicate TRAP_VECTOR_SIZE H_NotImplemented)
     [TRAP_KERNEL := H_Kernel, TRAP_CLOCK := H_Clock, TRAP_MEMORY := H_Memory,
      TRAP_TTY_RECEIVE := H_TtyReceive, TRAP_TTY_TRANSMIT := H_TtyTransmit,
      TRAP_MATH := H_Math, TRAP_ILLEGAL := H_Illegal]"

definition idle_made :: "boot_info \<Rightarrow> nat \<Rightarrow> (nat \<Rightarrow> int) \<Rightarrow> kstate \<Rightarrow> bool" where
  "idle_made bi N npid t \<longleftrightarrow> queues_ok t \<and> never_fails t \<and> next_addr t = 23 \<and> calls t = 23 \<and> new_pid t = npid \<and> vector_set t \<and>
     ctx t = user_context (idle_boot bi npid) \<and> idle_proc t = 19 \<and> current_process t = 19 \<and> pcbs t = [19 \<mapsto> idle_boot bi npid] \<and>
     proc_table t = Some ((replicate MAX_PROCS 0)[0 := 19]) \<and> ready_queue t = 15 \<and> blocked_queue t = 16 \<and>
     kview t 15 = Some [] \<and> kview t 16 = Some [] \<and> mem_wf (km t) \<and> nframes (km t) = N \<and> pt_region0 (km t) = boot_table bi \<and>
     (\<exists>f D. f \<in> {orig_kernel_brk_page bi..<N} \<and> free_frames (km t) = {orig_kernel_brk_page bi..<N} - {f, 126, 127} \<and>
        pts (km t) = [20 \<mapsto> D, 22 \<mapsto> [kernel_pte 126, kernel_pte 127]] \<and> length D = MAX_PT_LEN)"

lemma KernelStart_boot_ok:
  assumes bi: "image_fits bi" and N: "N = pmem_size div PAGESIZE" "128 \<le> N" "N \<le> 2 ^ 19"
  shows "\<exists>t. KernelStart_boot bi pmem_size (start_state ph uc (\<lambda>_. True) (\<lambda>_. True) npid) = Ret () t \<and> idle_made bi N npid t \<and> phys (km t) = ph"
proof -
  let ?kb = "orig_kernel_brk_page bi" and ?s = "start_state ph uc (\<lambda>_. True) (\<lambda>_. True) npid"
  let ?m0 = "(start_mem ph)\<lparr>kernel_brk_page := ?kb\<rparr>"
  from InitializeFreeFrameList_ok [OF N(1,3), of 1 ?kb ?m0] bi N obtain fn ft where
    f: "InitializeFreeFrameList pmem_size 1 ?m0 = Ret () (?m0\<lparr>nframes := N, free_nframes := fn, frame_table := ft\<rparr>)"
      "frames_wf (?m0\<lparr>nframes := N, free_nframes := fn, frame_table := ft\<rparr>)"
      "free_frames (?m0\<lparr>nframes := N, free_nframes := fn, frame_table := ft\<rparr>) = {?kb..<N}" by (auto simp: image_fits_def)
  let ?m1 = "?m0\<lparr>nframes := N, free_nframes := fn, frame_table := ft, pt_region0 := boot_table bi\<rparr>"
  have m1: "mem_wf ?m1" "free_frames ?m1 = {?kb..<N}" using f(2,3) by (simp_all add: mem_wf_def frames_wf_def free_frames_def)
  define s1 where "s1 = ?s\<lparr>next_addr := Suc (Suc (Suc 0)), calls := Suc (Suc 0), km := ?m1, TRAP_VECTOR := (replicate TRAP_VECTOR_SIZE H_NotImplemented)
     [TRAP_KERNEL := H_Kernel, TRAP_CLOCK := H_Clock, TRAP_MEMORY := H_Memory,
      TRAP_TTY_RECEIVE := H_TtyReceive, TRAP_TTY_TRANSMIT := H_TtyTransmit,
      TRAP_MATH := H_Math, TRAP_ILLEGAL := H_Illegal], proc_table := Some (replicate MAX_PROCS 0)\<rparr>"
  have q0: "qwf qheap0" "qview qheap0 = Map.empty" "limit qheap0 \<le> 3" by simp_all
  have s1: "queues_ok s1" "never_fails s1" "kview s1 = Map.empty" "length (terminals s1) = NUM_TERMINALS" "next_addr s1 = 3" "calls s1 = 2"
    "km s1 = ?m1" "pcbs s1 = Map.empty" "proc_table s1 = Some (replicate MAX_PROCS 0)" "vector_set s1" "new_pid s1 = npid"
    using q0 by (simp_all add: s1_def start_state_def queues_ok_def never_fails_def vector_set_def)
  obtain s2 where s2: "InitializeTerminals s1 = Ret () s2" "allocated 12 s1 s2"
    using InitializeTerminals_ok [OF s1(1,2) _ s1(4)] s1(3) by auto
  have a2: "queues_ok s2" "never_fails s2" "next_addr s2 = 15" "calls s2 = 14" "km s2 = ?m1" "pcbs s2 = Map.empty"
    "proc_table s2 = Some (replicate MAX_PROCS 0)" "vector_set s2" "new_pid s2 = npid"
    using s2(2) s1 by (simp_all add: allocated_def vector_set_def)
  from InitializeProcQueues_ok [OF a2(1,2) refl] obtain s3 where
    s3: "InitializeProcQueues s2 = Ret () s3" "queues_ok s3" "never_fails s3" "next_addr s3 = 19" "calls s3 = 18" "km s3 = ?m1" "pcbs s3 = Map.empty"
    "proc_table s3 = Some (replicate MAX_PROCS 0)" "vector_set s3" "new_pid s3 = npid" "ready_queue s3 = 15" "blocked_queue s3 = 16"
    "kview s3 15 = Some []" "kview s3 16 = Some []" using a2 by (auto simp: vector_set_def)
  let ?m4 = "?m1\<lparr>reg_ptlr0 := MAX_PT_LEN, reg_vm_enable := True\<rparr>"
  define s4 where "s4 = s3\<lparr>km := ?m4\<rparr>"
  have m4: "mem_wf ?m4" "free_frames ?m4 = {?kb..<N}" using m1 by (simp_all add: mem_wf_def frames_wf_def free_frames_def)
  have s4: "queues_ok s4" "never_fails s4" "next_addr s4 = 19" "calls s4 = 18" "km s4 = ?m4" "pcbs s4 = Map.empty"
    "proc_table s4 = Some (replicate MAX_PROCS 0)" "vector_set s4" "new_pid s4 = npid" "ready_queue s4 = 15" "blocked_queue s4 = 16"
    "kview s4 15 = Some []" "kview s4 16 = Some []" using s3 by (simp_all add: s4_def queues_ok_def never_fails_def vector_set_def)
  have "{124, 126, 127} \<subseteq> free_frames (km s4)" unfolding s4(5) m4(2) using bi N(2) by (simp add: image_fits_def)
  with CreateIdlePCB_ok [OF s4(1,2) refl s4(7), of "do_idle bi"] obtain s5 where
    s5: "CreateIdlePCB (do_idle bi) s4 = Ret 19 s5" "queues_ok s5" "never_fails s5" "next_addr s5 = 23" "calls s5 = 23"
    "pcbs s5 = [19 \<mapsto> idle_pcb (do_idle bi) s4]" "proc_table s5 = Some ((replicate MAX_PROCS 0)[0 := 19])" "idle_memory 19 ?m4 (km s5)"
    "kview s5 = (kview s4)(21 \<mapsto> [])" "ready_queue s5 = 15" "blocked_queue s5 = 16" "vector_set s5" "new_pid s5 = npid"
    using m4 s4 by (auto simp: vector_set_def)
  have ip: "idle_pcb (do_idle bi) s4 = idle_boot bi npid" using s4 by (simp add: idle_pcb_def idle_boot_def new_child_def)
  have pb: "ptbr (idle_boot bi npid) = 20" by (simp add: idle_boot_def blank_pcb_def)
  let ?t = "s5\<lparr>idle_proc := 19, current_process := 19, km := (km s5)\<lparr>reg_ptbr1 := 20, reg_ptlr1 := MAX_PT_LEN\<rparr>,
     ctx := user_context (idle_boot bi npid)\<rparr>"
  have "KernelStart_boot bi pmem_size ?s = Ret () ?t"
    using f(1) s2(1) s3(1) s3(6) pb s5(1) s5(6) [unfolded ip] bi
    by (simp add: KernelStart_boot_def prog_simps malloc_def start_state_def start_mem_def InitializeVM_ok InitializeInterruptVectorTable_def
       InitializeProcTable_def s1_def s4_def WriteRegister_def load_ctx_def)
  moreover have "phys (km ?t) = ph" using s5(8) by (simp add: idle_memory_def start_mem_def)
  moreover have "idle_made bi N npid ?t"
  proof -
    have "pts (start_mem ph) = Map.empty" by (simp add: start_mem_def)
    then show ?thesis using s5 m4(2) s4(12,13)
      by (auto simp: idle_made_def idle_memory_def ip vector_set_def queues_ok_def never_fails_def)
  qed
  ultimately show ?thesis by blast
qed

end
