(* ===== verification/Boot_Init.thy ===== *)
theory Boot_Init
  imports Boot_Idle
begin

text \<open>
  The memory of the first user process: its kernel stack, copied from that of the boot, and its address space once it is switched to.
\<close>

section \<open>The kernel stack of the first process\<close>

text \<open>The memory after \<^verbatim>\<open>KCCopy\<close> when the process has a kernel stack already.\<close>

definition stack_copy :: "pte list \<Rightarrow> pte list \<Rightarrow> kmem \<Rightarrow> kmem" where
  "stack_copy S K m = (let m' = cloned (frame_of (S ! 1)) (frame_of (K ! 1)) (cloned (frame_of (S ! 0)) (frame_of (K ! 0)) m)
     in m'\<lparr>tlb := tlb_flush TLB_FLUSH_KSTACK (tlb m')\<rparr>)"

lemma KCCopy_existing:
  assumes c: "c \<noteq> 0" "pcbs s c = Some cb" "kstack cb = k" and p: "current_process s = p" "p \<noteq> 0" "p \<noteq> c" "pcbs s p = Some b"
    and S: "kstack b \<noteq> 0" "pts (km s) (kstack b) = Some S" "length S = KSTACK_PAGES"
    and K: "k \<noteq> 0" "pts (km s) k = Some K" "length K = KSTACK_PAGES" and m: "mem_wf (km s)"
    and f: "\<And>i. i < KSTACK_PAGES \<Longrightarrow> frame_of (S ! i) < nframes (km s) \<and> frame_of (K ! i) < nframes (km s)"
  shows "KCCopy kc c s = Ret () (s\<lparr>pcbs := (pcbs s)(c \<mapsto> cb\<lparr>kernel_context := kc\<rparr>), km := stack_copy S K (km s)\<rparr>)"
  using c p K(1) kernel_stack_cloned [of "s\<lparr>pcbs := (pcbs s)(c \<mapsto> cb\<lparr>kernel_context := kc\<rparr>)\<rparr>" p b S k K] S K m f unfolding KCCopy_def
  by (simp add: bnd_app thn_app gets_app ret_app get_pcb_eval upd_pcb_eval on_mem_app WriteRegister_def modify_app stack_copy_def Let_def)

lemma stack_copy_keeps [simp]:
  "nframes (stack_copy S K m) = nframes m" "pts (stack_copy S K m) = pts m" "mem_wf (stack_copy S K m) = mem_wf m"
  "free_frames (stack_copy S K m) = free_frames m"
  by (simp_all add: stack_copy_def Let_def)

lemma stack_copy_phys: "f \<noteq> frame_of (K ! 0) \<Longrightarrow> f \<noteq> frame_of (K ! 1) \<Longrightarrow> phys (stack_copy S K m) f = phys m f"
  by (simp add: stack_copy_def Let_def copied_other)

lemma stack_copy_table: "length (pt_region0 m) = MAX_PT_LEN \<Longrightarrow> v < MAX_PT_LEN \<Longrightarrow> valid (pt_region0 (stack_copy S K m) ! v) \<Longrightarrow>
  pt_region0 (stack_copy S K m) ! v = pt_region0 m ! v"
  by (simp add: stack_copy_def Let_def cloned_def scratch_ptes_def nth_list_update MAX_PT_LEN_def split: if_splits)

section \<open>The address space of the first process\<close>

lemma program_memory_kept:
  assumes sp: "space_ok m t T" and m': "pts m' t = Some T" "reg_ptbr1 m' = t" "reg_ptlr1 m' = MAX_PT_LEN" "tlb m' = (\<lambda>_. None)" "nframes m' = nframes m"
    and ph: "\<And>f. f \<in> frames_in T \<Longrightarrow> phys m' f = phys m f"
  shows "user_part (user_memory m') = user_part (user_memory m)"
proof (rule user_part_cong)
  fix a assume a: "unat VMEM_1_BASE \<le> a" "a < unat VMEM_1_LIMIT"
  then have a': "0x100000 \<le> a" "a < 0x200000" by (simp_all add: VMEM_1_BASE_def VMEM_1_LIMIT_def)
  then have v: "vpn_of (of_nat a) = a div 8192" by (intro nat_vpn) simp
  define i where "i = a div 8192 - 128"
  have i: "a div 8192 = MAX_PT_LEN + i" "i < MAX_PT_LEN" using a' by (simp_all add: i_def MAX_PT_LEN_def)
  have len: "length T = MAX_PT_LEN" using sp by (simp add: space_ok_def)
  have "translate m' (MAX_PT_LEN + i) = pt_entry m' (MAX_PT_LEN + i)" by (rule translate_coherent) (simp add: tlb_coherent_def m'(4))
  also have "\<dots> = translate m (MAX_PT_LEN + i)"
    using i(2) len by (simp add: pt_entry_def m'(1-3) space_translate [OF sp] pt_entry_region1 [OF sp, unfolded pt_entry_def, simplified])
  finally have tr: "translate m' (MAX_PT_LEN + i) = translate m (MAX_PT_LEN + i)" .
  have "frame_of e \<in> frames_in T" if "translate m (MAX_PT_LEN + i) = Some e" for e
    using that i(2) len by (auto simp: space_translate [OF sp] pt_entry_region1 [OF sp] in_frames_in split: if_splits)
  then show "user_memory m' a = user_memory m a"
    unfolding user_memory_def load_byte_value v i(1) tr using ph m'(5) by (auto split: option.splits)
qed

text \<open>The memory when the first process has been switched to.\<close>

lemma first_space:
  assumes sp: "space_ok m t T" and bi: "image_fits bi" and pt0: "pt_region0 m = boot_table bi"
    and K: "K = [kernel_pte a, kernel_pte b]" "a < nframes m" "b < nframes m" "a \<noteq> b" "a \<notin> free_frames m \<union> frames_in T" "b \<notin> free_frames m \<union> frames_in T"
      "orig_kernel_brk_page bi \<le> a" "orig_kernel_brk_page bi \<le> b"
    and m': "m' = switch_mem K nb (stack_copy S K (m\<lparr>reg_ptbr1 := x, reg_ptlr1 := y, tlb := \<lambda>_. None\<rparr>))" "ptbr nb = t" "ptlr nb = MAX_PT_LEN"
  shows "space_ok m' t T" "user_part (user_memory m') = user_part (user_memory m)" "free_frames m' = free_frames m"
proof -
  let ?m = "m\<lparr>reg_ptbr1 := x, reg_ptlr1 := y, tlb := \<lambda>_. None\<rparr>"
  have w: "mem_wf m" "t \<noteq> 0" "pts m t = Some T" "length T = MAX_PT_LEN" using sp by (simp_all add: space_ok_def)
  have fK: "frame_of (kernel_pte a) = a" "frame_of (kernel_pte b) = b" using kernel_pte_frame [OF w(1)] K(2,3) by simp_all
  have fm: "free_frames m' = free_frames (stack_copy S K ?m)" by (rule free_frames_cong) (simp_all add: m'(1) switch_mem_def)
  then show ff: "free_frames m' = free_frames m" by simp
  have wc: "mem_wf (stack_copy S K ?m)" using w(1) by simp
  then have wf: "mem_wf m'" using frames_wf_cong [of m' "stack_copy S K ?m"]
    by (simp add: mem_wf_def m'(1) switch_mem_def)
  have regs: "pts m' = pts m" "reg_ptbr1 m' = t" "reg_ptlr1 m' = MAX_PT_LEN" "tlb m' = (\<lambda>_. None)" "nframes m' = nframes m"
    by (simp_all add: m' switch_mem_def)
  have coh: "tlb_coherent m'" by (simp add: tlb_coherent_def regs)
  have ph: "phys m' f = phys m f" if "f \<noteq> a" "f \<noteq> b" for f
    using stack_copy_phys [of f K S ?m] that fK by (simp add: m'(1) switch_mem_def K(1))
  have "phys m' f = phys m f" if "f \<in> frames_in T" for f by (rule ph) (use that K(5,6) in auto)
  then show "user_part (user_memory m') = user_part (user_memory m)"
    by (intro program_memory_kept [OF sp]) (simp_all add: regs w(3))
  have R: "pt_region0 m' = (pt_region0 (stack_copy S K ?m))[126 := kernel_pte a, 127 := kernel_pte b]" by (simp add: m'(1) switch_mem_def K(1))
  have lb: "length (pt_region0 ?m) = MAX_PT_LEN" by (simp add: pt0)
  have ls: "length (pt_region0 (stack_copy S K ?m)) = 128" using wc by (simp add: mem_wf_def MAX_PT_LEN_def)
  have low: "frame_of e = v \<and> v < orig_kernel_brk_page bi \<and> pt_entry m v = Some e \<or> v = 126 \<and> frame_of e = a \<or> v = 127 \<and> frame_of e = b"
    if e: "pt_entry m' v = Some e" "v < MAX_PT_LEN" for v e
  proof -
    have v: "e = pt_region0 m' ! v" "valid e" using e by (auto simp: pt_entry_def split: if_splits)
    consider "v = 126" | "v = 127" | "v < 126" using e(2) by (fastforce simp: MAX_PT_LEN_def)
    then show ?thesis
    proof cases
      case 3
      then have "e = pt_region0 (stack_copy S K ?m) ! v" using v(1) by (simp add: R)
      then have "e = boot_table bi ! v" using stack_copy_table [OF lb e(2), of S K] v(2) by (simp add: pt0)
      then show ?thesis using boot_table_entry [OF bi e(2)] v(2) 3 e(2) by (auto simp: pt_entry_def pt0)
    qed (use v ls fK in \<open>auto simp: R\<close>)
  qed
  have high: "pt_entry m' v = pt_entry m v" if "\<not> v < MAX_PT_LEN" for v
    using that sp by (simp add: pt_entry_def regs space_ok_def)
  have hf: "frame_of e \<in> frames_in T" if "pt_entry m v = Some e" "\<not> v < MAX_PT_LEN" for v e
    using that pt_entry_region1 [OF sp, of "v - MAX_PT_LEN"] w(4) by (auto simp: in_frames_in split: if_splits)
  have "private_frames m'"
    unfolding private_frames_def translate_coherent [OF coh]
  proof (intro allI impI)
    fix v u d e assume d: "pt_entry m' v = Some d" "pt_entry m' u = Some e" "frame_of d = frame_of e"
    have inj: "pt_entry m v = Some d \<Longrightarrow> pt_entry m u = Some e \<Longrightarrow> v = u"
      using sp d(3) unfolding space_ok_def private_frames_def space_translate [OF sp] by blast
    show "v = u"
      using low [OF d(1)] low [OF d(2)] high [of v] high [of u] hf [of v d] hf [of u e] d inj K(4-8) by (cases "v < MAX_PT_LEN"; cases "u < MAX_PT_LEN") auto
  qed
  moreover have "frame_of e < nframes m' \<and> frame_of e \<notin> free_frames m'" if "pt_entry m' v = Some e" for v e
  proof (cases "v < MAX_PT_LEN")
    case True
    then show ?thesis using low [OF that] sp K unfolding ff regs space_ok_def by blast
  next
    case False
    then show ?thesis using high that sp unfolding ff regs space_ok_def by auto
  qed
  ultimately show "space_ok m' t T" using wf w regs coh by (simp add: space_ok_def)
qed

section \<open>The image of the kernel\<close>

text \<open>The pages of the image are mapped and readable, so loading a program, which keeps what they show, keeps their bytes.\<close>

lemma boot_table_image:
  assumes bi: "image_fits bi" and v: "first_kernel_text_page bi \<le> v" "v < orig_kernel_brk_page bi"
  shows "valid (boot_table bi ! v)" "prot (boot_table bi ! v) AND PROT_READ = PROT_READ" "frame_of (boot_table bi ! v) = v"
proof -
  have b: "v < 124" using v bi by (simp add: image_fits_def)
  then show va: "valid (boot_table bi ! v)" using v by (simp add: boot_table_def page_range_nth MAX_PT_LEN_def KSTACK_START_PAGE_def)
  show "prot (boot_table bi ! v) AND PROT_READ = PROT_READ"
    using v b by (auto simp: boot_table_def page_range_nth MAX_PT_LEN_def KSTACK_START_PAGE_def prot_defs)
  show "frame_of (boot_table bi ! v) = v" using boot_table_entry(1) [OF bi _ va] b by (simp add: MAX_PT_LEN_def)
qed

lemma image_byte:
  assumes sp: "space_ok m t T" and bi: "image_fits bi" "pt_region0 m = boot_table bi" "orig_kernel_brk_page bi \<le> nframes m"
    and v: "first_kernel_text_page bi \<le> v" "v < orig_kernel_brk_page bi" and i: "i < PAGESIZE"
  shows "v * PAGESIZE + i < unat VMEM_1_BASE" "user_memory m (v * PAGESIZE + i) = Some (phys m v i)"
proof -
  have b: "v < 124" using v bi by (simp add: image_fits_def)
  then show lt: "v * PAGESIZE + i < unat VMEM_1_BASE" using i by (simp add: PAGESIZE_def VMEM_1_BASE_def)
  have u: "unat (of_nat (v * PAGESIZE + i) :: word32) = v * PAGESIZE + i" using lt by (intro unat_of_nat_small) (simp add: VMEM_1_BASE_def)
  have vp: "vpn_of (of_nat (v * PAGESIZE + i)) = v" "page_off (of_nat (v * PAGESIZE + i)) = i"
    using i by (simp_all only: vpn_of_div page_off_def u) (simp_all add: PAGESIZE_def)
  have "translate m v = Some (boot_table bi ! v)"
    using b boot_table_image(1) [OF bi(1) v] by (simp add: space_translate [OF sp] pt_entry_def bi(2) MAX_PT_LEN_def)
  then show "user_memory m (v * PAGESIZE + i) = Some (phys m v i)"
    using lt boot_table_image(2,3) [OF bi(1) v] bi(3) v(2)
    by (simp add: user_memory_def load_byte_value vp VMEM_1_BASE_def del: of_nat_add of_nat_mult)
qed

lemma image_loaded:
  assumes sp: "space_ok m t T" "space_ok m' t T'" and kept: "rest_kept m T0 m' T'"
    and bi: "image_fits bi" "pt_region0 m = boot_table bi" "orig_kernel_brk_page bi \<le> nframes m"
    and v: "first_kernel_text_page bi \<le> v" "v < orig_kernel_brk_page bi" and i: "i < PAGESIZE"
  shows "phys m' v i = phys m v i"
proof -
  have k: "pt_region0 m' = boot_table bi" "nframes m' = nframes m" "\<forall>a < unat VMEM_1_BASE. user_memory m' a = user_memory m a"
    using kept bi(2) by (simp_all add: rest_kept_def)
  then have "orig_kernel_brk_page bi \<le> nframes m'" using bi(3) by simp
  from image_byte [OF sp(2) bi(1) k(1) this v i] image_byte [OF sp(1) bi v i] k(3) show ?thesis by simp
qed

text \<open>The image after \<^verbatim>\<open>KCCopy\<close> has copied the kernel stack to the frames \<open>a\<close> and \<open>b\<close>.\<close>

lemma image_stack_copied:
  assumes bi: "image_fits bi" "pt_region0 m = boot_table bi" and m: "mem_wf m" "a < nframes m" "b < nframes m"
    and ab: "orig_kernel_brk_page bi \<le> a" "orig_kernel_brk_page bi \<le> b" and x: "pt_region0 m' = pt_region0 m" "phys m' = phys m"
    and v: "first_kernel_text_page bi \<le> v" "v < orig_kernel_brk_page bi"
  shows "pt_region0 (stack_copy S [kernel_pte a, kernel_pte b] m') ! v = boot_table bi ! v" "phys (stack_copy S [kernel_pte a, kernel_pte b] m') v = phys m v"
proof -
  have f: "frame_of (kernel_pte a) = a" "frame_of (kernel_pte b) = b" using kernel_pte_frame [OF m(1)] m(2,3) by simp_all
  show "phys (stack_copy S [kernel_pte a, kernel_pte b] m') v = phys m v"
    using stack_copy_phys [of v "[kernel_pte a, kernel_pte b]" S m'] f ab v x by simp
  show "pt_region0 (stack_copy S [kernel_pte a, kernel_pte b] m') ! v = boot_table bi ! v"
    using v bi by (simp add: stack_copy_def Let_def cloned_def scratch_ptes_def nth_list_update x image_fits_def)
qed

end
