(* ===== verification/Booting.thy ===== *)
theory Booting
  imports Boot_Init
begin

text \<open>
  \<^verbatim>\<open>KernelStart\<close> as a whole, from the bare machine to the first instruction of the program it was told to run.
\<close>

section \<open>The whole of KernelStart\<close>

text \<open>
  What the boot needs: an image that leaves room for the scratch pages and the kernel stack, memory for the idle process (a page), the kernel stacks
  and the program, an executable that fits, and a machine that gives the first process the pid 0 and the second another.
\<close>

definition boots :: "boot_info \<Rightarrow> nat \<Rightarrow> file_system \<Rightarrow> byte list list \<Rightarrow> load_info \<Rightarrow> (nat \<Rightarrow> nat \<Rightarrow> byte list) \<Rightarrow> (nat \<Rightarrow> int) \<Rightarrow> bool" where
  "boots bi pmem_size fs args li rd npid \<longleftrightarrow> image_fits bi \<and> 128 \<le> pmem_size div PAGESIZE \<and> pmem_size div PAGESIZE \<le> 2 ^ 19 \<and>
     fs (case args of [] \<Rightarrow> default_init | a # _ \<Rightarrow> a) = Some (Some li, rd) \<and> info_ok li \<and> complete_file li rd \<and> VMEM_1_BASE \<le> entry li \<and>
     args_bytes args < 2 ^ 31 \<and> (\<forall>x \<in> set args. 0 \<notin> set x) \<and>
     (let lay = program_layout li args in stack_npg lay + data_pg1 lay + data_npg lay < MAX_PT_LEN \<and>
        orig_kernel_brk_page bi + 5 + t_npg li + data_npg lay + stack_npg lay \<le> pmem_size div PAGESIZE) \<and>
     npid 21 = IDLE_PID \<and> npid 26 \<noteq> IDLE_PID"

text \<open>The table of the first process before its program is loaded maps nothing.\<close>

lemma blank_space:
  assumes m: "mem_wf m" "pts m t = Some (replicate MAX_PT_LEN pte0)" "t \<noteq> 0" "reg_ptbr1 m = t" "reg_ptlr1 m = MAX_PT_LEN" "tlb m = (\<lambda>_. None)"
    and bi: "image_fits bi" "pt_region0 m = boot_table bi" "128 \<le> nframes m"
    and fr: "free_frames m \<inter> ({..<orig_kernel_brk_page bi} \<union> {126, 127}) = {}"
  shows "space_ok m t (replicate MAX_PT_LEN pte0)"
proof -
  have coh: "tlb_coherent m" by (simp add: tlb_coherent_def m(6))
  have e: "frame_of e = v \<and> (v < orig_kernel_brk_page bi \<or> v = 126 \<or> v = 127) \<and> v < 128" if "pt_entry m v = Some e" for v e
  proof -
    have "v < MAX_PT_LEN" using that m(2,4) by (auto simp: pt_entry_def Let_def pte0_def split: if_splits)
    moreover from this have "e = boot_table bi ! v" "valid e" using that by (auto simp: pt_entry_def bi(2) split: if_splits)
    ultimately show ?thesis using boot_table_entry [OF bi(1), of v] by (auto simp: MAX_PT_LEN_def)
  qed
  have "private_frames m" unfolding private_frames_def translate_coherent [OF coh] using e by metis
  moreover have "frame_of d < nframes m \<and> frame_of d \<notin> free_frames m" if "pt_entry m v = Some d" for v d
    using e [OF that] bi(3) fr by auto
  ultimately show ?thesis using m coh by (simp add: space_ok_def)
qed

text \<open>The kernel stack of the first process is made and its table becomes that of region 1.\<close>

lemma init_memory:
  assumes m0: "mem_wf m0" "free_frames m0 = {kb..<N} - {f, 126, 127}" "nframes m0 = N" "pt_region0 m0 = boot_table bi"
      "pts m0 24 = Some (replicate MAX_PT_LEN pte0)"
    and bi: "image_fits bi" "kb = orig_kernel_brk_page bi" "128 \<le> N" "kb + 5 \<le> N"
  shows "\<exists>u a b. InitializeKernelStackProcess 26 m0 = Ret 26 u \<and> phys u = phys m0 \<and> pts u = (pts m0)(26 \<mapsto> [kernel_pte a, kernel_pte b]) \<and>
    nframes u = N \<and> pt_region0 u = boot_table bi \<and> a \<in> {kb..<N} \<and> b \<in> {kb..<N} \<and> a \<noteq> b \<and> a \<notin> free_frames u \<and> b \<notin> free_frames u \<and>
    N - kb - 5 \<le> card (free_frames u) \<and>
    space_ok (u\<lparr>reg_ptbr1 := 24, reg_ptlr1 := MAX_PT_LEN, tlb := \<lambda>_. None\<rparr>) 24 (replicate MAX_PT_LEN pte0)"
proof -
  have c0: "N - kb - 3 \<le> card ({kb..<N} - {f, 126, 127})"
    using diff_card_le_card_Diff [of "{f, 126, 127}" "{kb..<N}"] card_insert_le_m1 [of 3 "{126, 127 :: nat}" f] by simp
  have "KSTACK_PAGES \<le> card (free_frames m0)" unfolding m0(2) using c0 bi(4) by (simp add: KSTACK_PAGES_def)
  moreover have "(26 :: addr) \<noteq> 0" by simp
  ultimately obtain u a b where
    u: "InitializeKernelStackProcess 26 m0 = Ret 26 u" "mem_wf u" "pts u = (pts m0)(26 \<mapsto> [kernel_pte a, kernel_pte b])" and ph: "phys u = phys m0" and u':
      "nframes u = N" "pt_region0 u = boot_table bi" "free_frames u = {kb..<N} - {f, 126, 127} - {a, b}"
    and ab: "a \<in> {kb..<N}" "b \<in> {kb..<N}" "a \<noteq> b"
    using kernel_stack_made [OF m0(1), of 26] unfolding m0(2-4) by blast
  note u = u u'
  let ?m = "u\<lparr>reg_ptbr1 := 24, reg_ptlr1 := MAX_PT_LEN, tlb := \<lambda>_. None\<rparr>"
  have fm: "free_frames ?m = {kb..<N} - {f, 126, 127} - {a, b}" using u(6) by simp
  have "space_ok ?m 24 (replicate MAX_PT_LEN pte0)"
  proof (rule blank_space [OF _ _ _ _ _ _ bi(1)])
    show "free_frames ?m \<inter> ({..<orig_kernel_brk_page bi} \<union> {126, 127}) = {}" unfolding fm bi(2) [symmetric] by auto
  qed (use u(2-5) m0(5) bi(3) in simp_all)
  moreover have "N - kb - 5 \<le> card (free_frames u)"
    unfolding u(6) using c0 ab(3) diff_card_le_card_Diff [of "{a, b}" "{kb..<N} - {f, 126, 127}"] by simp
  moreover have "a \<notin> free_frames u" "b \<notin> free_frames u" unfolding u(6) by simp_all
  ultimately show ?thesis using u(1,3-5) ph ab by blast
qed

definition init_boot :: "(nat \<Rightarrow> int) \<Rightarrow> UserContext \<Rightarrow> PCB" where
  "init_boot npid c = (blank_pcb 23)\<lparr>pid := npid 26, pstate := PROC_RUNNING, kstack := 26, user_context := c\<rparr>"

definition init_made :: "boot_info \<Rightarrow> (nat \<Rightarrow> int) \<Rightarrow> load_info \<Rightarrow> (nat \<Rightarrow> nat \<Rightarrow> byte list) \<Rightarrow> byte list list \<Rightarrow> kstate \<Rightarrow> bool" where
  "init_made bi npid li rd args s \<longleftrightarrow> queues_ok s \<and> never_fails s \<and> vector_set s \<and> idle_proc s = 19 \<and> init_proc s = 23 \<and>
     current_process s = 19 \<and> ready_queue s = 15 \<and> blocked_queue s = 16 \<and> kview s 15 = Some [23] \<and> kview s 16 = Some [] \<and>
     ctx s = user_context (idle_boot bi npid) \<and>
     pcbs s = [19 \<mapsto> idle_boot bi npid,
       23 \<mapsto> (loaded_pcb li (program_layout li args) (init_boot npid (ctx s)))\<lparr>kernel_context := KC_KernelStart\<rparr>] \<and>
     (\<exists>m T a b. km s = stack_copy [kernel_pte 126, kernel_pte 127] [kernel_pte a, kernel_pte b]
          (m\<lparr>reg_ptbr1 := 20, reg_ptlr1 := MAX_PT_LEN, tlb := \<lambda>_. None\<rparr>) \<and>
        space_ok m 24 T \<and> runs_program li rd args T (user_part (user_memory m)) \<and> pt_region0 m = boot_table bi \<and>
        pts m 22 = Some [kernel_pte 126, kernel_pte 127] \<and> pts m 26 = Some [kernel_pte a, kernel_pte b] \<and>
        a < nframes m \<and> b < nframes m \<and> a \<noteq> b \<and> a \<notin> free_frames m \<union> frames_in T \<and> b \<notin> free_frames m \<union> frames_in T \<and>
        orig_kernel_brk_page bi \<le> a \<and> orig_kernel_brk_page bi \<le> b)"

lemma KernelStart_ok:
  assumes boots: "boots bi pmem_size fs args li rd npid"
  shows "\<exists>s. KernelStart bi fs args pmem_size (start_state ph uc (\<lambda>_. True) (\<lambda>_. True) npid) = Ret () s \<and> init_made bi npid li rd args s \<and>
    (\<forall>v. first_kernel_text_page bi \<le> v \<and> v < orig_kernel_brk_page bi \<longrightarrow> pt_region0 (km s) ! v = boot_table bi ! v \<and> (\<forall>i < PAGESIZE. phys (km s) v i = ph v i))"
proof -
  let ?s0 = "start_state ph uc (\<lambda>_. True) (\<lambda>_. True) npid" and ?kb = "orig_kernel_brk_page bi" and ?blank = "replicate MAX_PT_LEN pte0"
  define N where "N = pmem_size div PAGESIZE"
  define lay where "lay = program_layout li args"
  have bi: "image_fits bi" "128 \<le> N" "N \<le> 2 ^ 19" and fi: "fs (case args of [] \<Rightarrow> default_init | a # _ \<Rightarrow> a) = Some (Some li, rd)" "info_ok li"
      "complete_file li rd" "VMEM_1_BASE \<le> entry li" "args_bytes args < 2 ^ 31" "\<forall>x \<in> set args. 0 \<notin> set x"
    and lay: "stack_npg lay + data_pg1 lay + data_npg lay < MAX_PT_LEN" "?kb + 5 + t_npg li + data_npg lay + stack_npg lay \<le> N"
    using boots by (simp_all add: boots_def N_def lay_def Let_def)
  from KernelStart_boot_ok [OF bi(1) N_def bi(2,3), of ph uc npid] obtain t0 f D where
    t0: "KernelStart_boot bi pmem_size ?s0 = Ret () t0" "queues_ok t0" "never_fails t0" "next_addr t0 = 23" "calls t0 = 23" "new_pid t0 = npid"
      "vector_set t0" "idle_proc t0 = 19" "current_process t0 = 19" "pcbs t0 = [19 \<mapsto> idle_boot bi npid]"
      "proc_table t0 = Some ((replicate MAX_PROCS 0)[0 := 19])" "ready_queue t0 = 15" "blocked_queue t0 = 16" "kview t0 15 = Some []" "kview t0 16 = Some []"
      "mem_wf (km t0)" "nframes (km t0) = N" "pt_region0 (km t0) = boot_table bi"
      "free_frames (km t0) = {?kb..<N} - {f, 126, 127}" "ctx t0 = user_context (idle_boot bi npid)" "pts (km t0) = [20 \<mapsto> D, 22 \<mapsto> [kernel_pte 126, kernel_pte 127]]"
    and ph0: "phys (km t0) = ph"
    by (auto simp: idle_made_def)
  have nf: "mallocs_ok t0" using t0(3) by (simp add: mallocs_ok_def never_fails_def)
  let ?tb = "(replicate MAX_PROCS 0)[0 := 19] :: addr list"
  have tb: "length ?tb = MAX_PROCS" "1 < MAX_PROCS" "?tb ! 1 = 0" "\<And>j. j < 1 \<Longrightarrow> ?tb ! j \<noteq> 0" by (simp_all add: MAX_PROCS_def)
  from getFreePCB_ok [OF t0(2) nf refl t0(11) tb] obtain t1 where
    t1: "getFreePCB t0 = Ret 23 t1" "same_rest t0 t1" "queues_ok t1" "kview t1 = (kview t0)(25 \<mapsto> [])"
      "pcbs t1 = (pcbs t0)(23 \<mapsto> new_child t0)" "km t1 = (km t0)\<lparr>pts := (pts (km t0))(24 \<mapsto> ?blank)\<rparr>"
      "next_addr t1 = 26" "calls t1 = 27" by (auto simp: t0(4,5))
  have nc: "new_child t0 = (blank_pcb 23)\<lparr>pstate := PROC_RUNNING, pid := npid 26\<rparr>" by (simp add: new_child_def t0(4-6))
  have sr: "idle_proc t1 = 19" "current_process t1 = 19" "ready_queue t1 = 15" "blocked_queue t1 = 16" "vector_set t1" "\<And>k. malloc_ok t1 k" "\<And>k. kcs_ok t1 k"
    using t1(2) t0 by (simp_all add: same_rest_def vector_set_def never_fails_def)
  have w1: "mem_wf (km t1)" "free_frames (km t1) = {?kb..<N} - {f, 126, 127}" "nframes (km t1) = N" "pt_region0 (km t1) = boot_table bi"
    "pts (km t1) 24 = Some ?blank" using t0(16-19) by (simp_all add: t1(6))
  have "?kb + 5 \<le> N" using lay(2) by simp
  from init_memory [OF w1 bi(1) refl bi(2) this] obtain u a b where
    ph1: "phys u = phys (km t1)" and
    u: "InitializeKernelStackProcess 26 (km t1) = Ret 26 u" "pts u = (pts (km t1))(26 \<mapsto> [kernel_pte a, kernel_pte b])"
      "nframes u = N" "pt_region0 u = boot_table bi" "a \<notin> free_frames u" "b \<notin> free_frames u" "N - ?kb - 5 \<le> card (free_frames u)"
    and ab: "a \<in> {?kb..<N}" "b \<in> {?kb..<N}" "a \<noteq> b"
    and sp: "space_ok (u\<lparr>reg_ptbr1 := 24, reg_ptlr1 := MAX_PT_LEN, tlb := \<lambda>_. None\<rparr>) 24 ?blank" by blast
  let ?ib = "init_boot npid (ctx t1)"
  let ?m = "u\<lparr>reg_ptbr1 := 24, reg_ptlr1 := MAX_PT_LEN, tlb := \<lambda>_. None\<rparr>"
  define S where "S = t1\<lparr>init_proc := 23, next_addr := 27, calls := 28, pcbs := [19 \<mapsto> idle_boot bi npid, 23 \<mapsto> ?ib], km := ?m\<rparr>"
  have pm: "pts ?m = [20 \<mapsto> D, 22 \<mapsto> [kernel_pte 126, kernel_pte 127], 24 \<mapsto> ?blank, 26 \<mapsto> [kernel_pte a, kernel_pte b]]"
    using u(2) t0(21) by (simp add: t1(6))
  have fit: "pages_fit lay li"
    by (rule layout_fits [OF fi(2) lay(1)]) (simp_all add: lay_def program_layout_def Let_def)
  have "N - ?kb - 5 \<le> card (free_frames ?m)" using u(7) by simp
  moreover have "card (free_frames ?m) \<le> card (free_frames ?m \<union> frames_in ?blank)" by (rule card_mono) (simp_all add: frames_in_def)
  ultimately have fr: "card (program_pages lay li) \<le> card (free_frames ?m \<union> frames_in ?blank)"
    unfolding program_pages_card [OF fit] using lay(2) by simp
  have ibp: "ptbr ?ib = 24" "ptlr ?ib = MAX_PT_LEN" by (simp_all add: init_boot_def blank_pcb_def)
  have "\<exists>m' T'. LoadProgram (Some (Some li, rd)) (ret args) 23 S = Ret SUCCESS (S\<lparr>next_addr := Suc (next_addr S), calls := Suc (calls S),
      pcbs := (pcbs S)(23 \<mapsto> loaded_pcb li lay ?ib), km := m'\<rparr>) \<and>
    space_ok m' (ptbr ?ib) T' \<and> pts m' = (pts ?m)(ptbr ?ib \<mapsto> T') \<and> runs_program li rd args T' (user_part (user_memory m')) \<and> rest_kept ?m ?blank m' T'"
    by (rule LoadProgram_loads [OF _ _ _ _ _ fi(2-6) lay_def lay(1) fr]) (use sp sr ibp in \<open>simp_all add: S_def ret_app\<close>)
  then obtain m T where l: "LoadProgram (Some (Some li, rd)) (ret args) 23 S = Ret SUCCESS (S\<lparr>next_addr := 28, calls := 29,
      pcbs := [19 \<mapsto> idle_boot bi npid, 23 \<mapsto> loaded_pcb li lay ?ib], km := m\<rparr>)"
    and m: "space_ok m 24 T" "pts m = (pts ?m)(24 \<mapsto> T)" "runs_program li rd args T (user_part (user_memory m))" "rest_kept ?m ?blank m T"
    by (auto simp: ibp S_def)
  let ?m2 = "m\<lparr>reg_ptbr1 := 20, reg_ptlr1 := MAX_PT_LEN, tlb := \<lambda>_. None\<rparr>"
  define S2 where "S2 = t1\<lparr>init_proc := 23, next_addr := 28, calls := 29, pcbs := [19 \<mapsto> idle_boot bi npid, 23 \<mapsto> loaded_pcb li lay ?ib], km := ?m2\<rparr>"
  have q2: "queues_ok S2" "kview S2 15 = Some []" using t1(3,4,7) t0(14) by (simp_all add: S2_def queues_ok_def)
  have q2': "qwf (qh S2)" "limit (qh S2) \<le> 28" using q2(1) by (simp_all add: queues_ok_def S2_def)
  from enqueue_view [OF q2'(1) q2(2) _ q2'(2), of 23] obtain h where
    h: "queueEnqueue 28 15 23 (qh S2) = Ret () h" "qwf h" "qview h = (kview S2)(15 \<mapsto> [23])" "limit h = 29" by auto
  let ?ab = "[kernel_pte a, kernel_pte b]" and ?S = "[kernel_pte 126, kernel_pte 127]"
  let ?lb = "loaded_pcb li lay ?ib"
  define S3 where "S3 = S2\<lparr>next_addr := 29, calls := 30, qh := h\<rparr>"
  have enq: "kqueueEnqueue 15 23 S2 = Ret () S3"
    using h(1) sr(6) by (simp add: kqueueEnqueue_def malloc_def prog_simps S2_def S3_def)
  have m3: "mem_wf ?m2" "nframes m = N" "pt_region0 m = boot_table bi" "pts m 22 = Some ?S" "pts m 26 = Some ?ab"
    using m u(3,4) by (simp_all add: space_ok_def rest_kept_def pm)
  have fr3: "frame_of (kernel_pte 126) = 126" "frame_of (kernel_pte 127) = 127" "frame_of (kernel_pte a) = a" "frame_of (kernel_pte b) = b"
    using kernel_pte_frame [OF m3(1)] m3(2) bi(2) ab by simp_all
  have kcc: "KCCopy KC_KernelStart 23 (S3\<lparr>calls := 31\<rparr>) = Ret () (S3\<lparr>calls := 31, pcbs := (pcbs S3)(23 \<mapsto> ?lb\<lparr>kernel_context := KC_KernelStart\<rparr>),
      km := stack_copy ?S ?ab ?m2\<rparr>)"
  proof -
    have "km (S3\<lparr>calls := 31\<rparr>) = ?m2" "current_process S3 = 19" "pcbs S3 19 = Some (idle_boot bi npid)" "pcbs S3 23 = Some ?lb"
      using sr(2) by (simp_all add: S3_def S2_def)
    moreover have "kstack ?lb = 26" "kstack (idle_boot bi npid) = 22" by (simp_all add: loaded_pcb_def init_boot_def idle_boot_def)
    moreover have "frame_of (?S ! i) < N \<and> frame_of (?ab ! i) < N" if "i < KSTACK_PAGES" for i
      using that fr3 bi(2) ab by (auto simp: KSTACK_PAGES_def less_2_cases_iff)
    ultimately show ?thesis
      using KCCopy_existing [of 23 "S3\<lparr>calls := 31\<rparr>" ?lb 26 19 "idle_boot bi npid" ?S ?ab KC_KernelStart] m3 by (simp add: KSTACK_PAGES_def)
  qed
  have ip0: "init_boot npid c = (new_child t0)\<lparr>kstack := 26, user_context := c\<rparr>" for c by (simp add: init_boot_def nc)
  have ip1: "ptbr (idle_boot bi npid) = 20" by (simp add: idle_boot_def blank_pcb_def)
  have ip2: "ptbr (new_child t0) = 24" by (simp add: nc blank_pcb_def)
  let ?t = "S3\<lparr>calls := 31, pcbs := (pcbs S3)(23 \<mapsto> ?lb\<lparr>kernel_context := KC_KernelStart\<rparr>),
      km := stack_copy ?S ?ab ?m2, ctx := user_context (idle_boot bi npid)\<rparr>"
  have "KernelStart bi fs args pmem_size ?s0 = Ret () ?t"
    using t0(1) t1(1,5,7,8) sr(1-4) u(1) l enq kcc fi(1) ip0 ip1 ip2 sr(6,7)
    by (simp add: KernelStart_def prog_simps kInitializeKernelStackProcess_def malloc_def WriteRegister_def KernelContextSwitch_KCCopy_def
       count_call_def load_ctx_def S_def S2_def S3_def code_defs nc t0(10))
  moreover have "init_made bi npid li rd args ?t"
  proof -
    have bf: "frames_in ?blank = {}" by (auto simp: frames_in_def pte0_def)
    have "free_frames m \<union> frames_in T = free_frames ?m" using m(4) bf by (simp add: rest_kept_def)
    then have "a \<notin> free_frames m \<union> frames_in T" "b \<notin> free_frames m \<union> frames_in T" using u(5,6) by simp_all
    moreover have "ctx t1 = user_context (idle_boot bi npid)" using t1(2) t0(20) by (simp add: same_rest_def)
    moreover have "a < nframes m" "b < nframes m" "?kb \<le> a" "?kb \<le> b" using ab m3(2) by simp_all
    moreover have "kview S2 16 = Some []" using t1(4) t0(15) by (simp add: S2_def)
    ultimately show ?thesis
      unfolding init_made_def
      using sr h ab(3) m3 m(1,3) by (intro conjI exI [of _ m] exI [of _ T] exI [of _ a] exI [of _ b])
        (simp_all add: S3_def S2_def lay_def [symmetric] queues_ok_def never_fails_def vector_set_def)
  qed
  moreover have "pt_region0 (km ?t) ! v = boot_table bi ! v \<and> (\<forall>i < PAGESIZE. phys (km ?t) v i = ph v i)"
    if v: "first_kernel_text_page bi \<le> v" "v < ?kb" for v
  proof -
    have "phys m v i = ph v i" if "i < PAGESIZE" for i
      using image_loaded [OF sp m(1,4) bi(1) _ _ v that] u(3,4) lay(2) ph0 ph1 by (simp add: t1(6))
    moreover have "mem_wf m" using m(1) by (simp add: space_ok_def)
    ultimately show ?thesis
      using image_stack_copied [OF bi(1) m3(3) _ _ _ _ _ _ _ v, of a b ?m2 ?S] ab m3(2) by simp
  qed
  ultimately show ?thesis by blast
qed

section \<open>The first clock interrupt\<close>

lemma iterate_empty:
  assumes "qwf (qh s)" "kview s q = Some []"
  shows "queueIterate qh q f s = Ret () s"
proof -
  from assms(1) obtain R where R: "qrepR (qh s) (kview s) R" using qrep_iff [of "qh s" "kview s"] by (auto simp: qrep_def)
  obtain qu where "qok (nodes (qh s)) (limit (qh s)) qu (R q) []" using qrepR_lookup [OF R assms(2)] by blast
  then have "R q = []" by (simp add: qok_def)
  then show ?thesis using queueIterate_rule [where g = qh and s = s and A = "kview s" and R = R and q = q and xs = "[]" and Inv = "\<lambda>as t. t = s \<and> as = []" and f = f] R assms(2)
    by auto
qed

lemma first_tick:
  assumes i: "init_made bi npid li rd args s" and bi: "image_fits bi" and np: "npid 21 = IDLE_PID" and k: "kinv {} s"
  shows "\<exists>t v b T. ClockTrapHandler (s\<lparr>ctx := c\<rparr>) = Switched t \<and> resume t = Ret () v \<and> current_process v = 23 \<and>
    pcbs v 23 = Some b \<and> ptbr b = 24 \<and>
    pc (ctx v) = entry li \<and> sp (ctx v) = arg_cpp (program_layout li args) \<and>
    space_ok (km v) 24 T \<and> runs_program li rd args T (user_part (user_memory (km v)))"
proof -
  let ?s = "s\<lparr>ctx := c, pcbs := (pcbs s)(19 \<mapsto> (idle_boot bi npid)\<lparr>user_context := c\<rparr>)\<rparr>"
  let ?lb = "(loaded_pcb li (program_layout li args) (init_boot npid (ctx s)))\<lparr>kernel_context := KC_KernelStart\<rparr>"
  from i have q: "queues_ok s" "kview s 15 = Some [23]" "kview s 16 = Some []" "ready_queue s = 15" "blocked_queue s = 16" "current_process s = 19"
      "pcbs s = [19 \<mapsto> idle_boot bi npid, 23 \<mapsto> ?lb]" "never_fails s"
    by (simp_all add: init_made_def)
  from i obtain m T a b where m: "km s = stack_copy [kernel_pte 126, kernel_pte 127] [kernel_pte a, kernel_pte b]
          (m\<lparr>reg_ptbr1 := 20, reg_ptlr1 := MAX_PT_LEN, tlb := \<lambda>_. None\<rparr>)" "space_ok m 24 T"
      "runs_program li rd args T (user_part (user_memory m))" "pt_region0 m = boot_table bi" "pts m 26 = Some [kernel_pte a, kernel_pte b]"
    and ab: "a < nframes m" "b < nframes m" "a \<noteq> b" "a \<notin> free_frames m \<union> frames_in T" "b \<notin> free_frames m \<union> frames_in T"
      "orig_kernel_brk_page bi \<le> a" "orig_kernel_brk_page bi \<le> b" unfolding init_made_def by blast
  let ?K = "[kernel_pte a, kernel_pte b]"
  have w: "qwf (qh s)" using q(1) by (simp add: queues_ok_def)
  have it: "queueIterate qh 16 trapHandlerHelper ?s = Ret () ?s" using iterate_empty [of ?s 16] w q(3) by simp
  from dequeue_view [OF w q(2)] obtain h where h: "queueDequeue 15 (qh s) = Ret 23 h" "qwf h" "qview h = (kview s)(15 \<mapsto> [])" by blast
  let ?s1 = "?s\<lparr>qh := h\<rparr>"
  have sw: "switchable 23 ?lb ?K ?s1"
    using q(7) m(5) by (simp add: switchable_def m(1) loaded_pcb_def init_boot_def KSTACK_PAGES_def)
  have tb: "tables_ok (km s)" using k by (simp add: kinv_def)
  let ?m = "switch_mem ?K ?lb (km s)"
  let ?t = "?s1\<lparr>km := ?m, current_process := 23, calls := Suc (calls s),
     pcbs := (pcbs ?s1)(19 \<mapsto> (idle_boot bi npid)\<lparr>user_context := c, kernel_context := KC_Clock\<rparr>, 23 \<mapsto> ?lb\<lparr>pstate := PROC_RUNNING\<rparr>)\<rparr>"
  have ks: "KernelContextSwitch_KCSwitch KC_Clock 19 23 ?s1 = Switched ?t"
    using KernelContextSwitch_eval [OF _ sw, of 19 "(idle_boot bi npid)\<lparr>user_context := c\<rparr>" KC_Clock] q(8) tb by (simp add: never_fails_def)
  have id: "pid (idle_boot bi npid) = 0" using np by (simp add: idle_boot_def IDLE_PID_def)
  have "ClockTrapHandler (s\<lparr>ctx := c\<rparr>) = Switched ?t"
    using it h(1) ks id by (simp add: ClockTrapHandler_def prog_simps save_ctx_def q kqueueDequeue_def)
  moreover have "resume ?t = Ret () (?t\<lparr>ctx := user_context ?lb\<rparr>)"
    by (simp add: resume_def prog_simps load_ctx_def)
  moreover have lb: "ptbr ?lb = 24" "ptlr ?lb = MAX_PT_LEN" by (simp_all add: loaded_pcb_def init_boot_def blank_pcb_def)
  moreover have "space_ok ?m 24 T" "user_part (user_memory ?m) = user_part (user_memory m)"
    by (rule first_space(1,2) [OF m(2) bi m(4) refl ab, where m' = ?m and x = 20 and y = MAX_PT_LEN and nb = ?lb];
        (simp only: m(1) lb)?)+
  ultimately show ?thesis using m(3)
    by (intro exI [of _ ?t] exI [of _ "?t\<lparr>ctx := user_context ?lb\<rparr>"] exI [of _ "?lb\<lparr>pstate := PROC_RUNNING\<rparr>"] exI [of _ T]) (simp add: loaded_pcb_def)
qed

section \<open>From the bare machine to the first instruction\<close>

lemma init_made_sched:
  assumes i: "init_made bi npid li rd args s" and k: "kinv {} s" and np: "npid 21 = IDLE_PID" "npid 26 \<noteq> IDLE_PID"
  shows "sched_ok s" "sched_of s = \<lparr>idle = 19, running = 19, ready = [23], blocked = [], ticks = (\<lambda>_. 0)\<rparr>"
proof -
  let ?lb = "(loaded_pcb li (program_layout li args) (init_boot npid (ctx s)))\<lparr>kernel_context := KC_KernelStart\<rparr>"
  from i have q: "kview s 15 = Some [23]" "kview s 16 = Some []" "ready_queue s = 15" "blocked_queue s = 16" "current_process s = 19" "idle_proc s = 19"
      "pcbs s = [19 \<mapsto> idle_boot bi npid, 23 \<mapsto> ?lb]" "never_fails s"
    and pt: "pts (km s) 22 = Some ([kernel_pte 126, kernel_pte 127])" "\<exists>a b. pts (km s) 26 = Some [kernel_pte a, kernel_pte b]"
    by (auto simp: init_made_def)
  have f: "delay_ticks (idle_boot bi npid) = 0" "kstack (idle_boot bi npid) = 22" "pid (idle_boot bi npid) = npid 21"
    "delay_ticks ?lb = 0" "kstack ?lb = 26" "pid ?lb = npid 26"
    by (simp_all add: idle_boot_def loaded_pcb_def init_boot_def blank_pcb_def pcb0_def)
  show S: "sched_of s = \<lparr>idle = 19, running = 19, ready = [23], blocked = [], ticks = (\<lambda>_. 0)\<rparr>"
    by (rule sched_eqI) (auto simp: sched_of_def q f split: option.splits)
  show "sched_ok s"
    unfolding sched_ok_def S using k q f pt np
    by (auto simp: procs_in_def proc_ok_def run_ok_def KSTACK_PAGES_def never_fails_def IDLE_PID_def)
qed

text \<open>
  C3. The boot ends with the program it was given: on a machine with enough memory, \<^verbatim>\<open>KernelStart\<close> turns the bare machine into a
  kernel in which the idle process runs, at \<^verbatim>\<open>DoIdle\<close> and with translation on, and the process for \<^verbatim>\<open>init\<close> is the only one that is ready; the state satisfies what the scheduler and
  the context switch rely on, and the trap vector is installed. At the first clock interrupt, whatever the idle process did to its registers, the handler
  gives the processor to that process, which leaves \<^verbatim>\<open>KernelStart\<close> a second time, at the entry point of the program,
  with the stack pointer at its arguments, in an address space of its own that holds the segments of the file.
\<close>

theorem boot_runs_init:
  assumes "boots bi pmem_size fs args li rd npid"
  shows "\<exists>s. KernelStart bi fs args pmem_size (start_state ph uc (\<lambda>_. True) (\<lambda>_. True) npid) = Ret () s \<and>
    kinv {..<NUM_TERMINALS} s \<and> sched_ok s \<and> current_process s = idle_proc s \<and> pc (ctx s) = do_idle bi \<and> kernel_vector s \<and>
    ready (sched_of s) = [init_proc s] \<and> blocked (sched_of s) = [] \<and>
    (\<forall>c fs' line. \<exists>t v b T. trap fs' TRAP_CLOCK line (s\<lparr>ctx := c\<rparr>) = Switched t \<and> resume t = Ret () v \<and> current_process v = init_proc s \<and>
       pc (ctx v) = entry li \<and> sp (ctx v) = arg_cpp (program_layout li args) \<and> pcbs v (init_proc s) = Some b \<and>
       space_ok (km v) (ptbr b) T \<and> runs_program li rd args T (user_part (user_memory (km v))))"
proof -
  have bi: "image_fits bi" "npid 21 = IDLE_PID" "npid 26 \<noteq> IDLE_PID" using assms by (simp_all add: boots_def)
  from KernelStart_ok [OF assms, of ph uc] obtain s where
    s: "KernelStart bi fs args pmem_size (start_state ph uc (\<lambda>_. True) (\<lambda>_. True) npid) = Ret () s" "init_made bi npid li rd args s" by blast
  have k: "kinv {..<NUM_TERMINALS} s" by (rule yieldsD [OF yields_KernelStart start_state_kinv s(1)])
  note k0 = kinv_weaken [OF k]
  have v: "TRAP_CLOCK < length (TRAP_VECTOR s)" "TRAP_VECTOR s ! TRAP_CLOCK = H_Clock" "kernel_vector s"
    using s(2) by (simp_all add: init_made_def vector_set_def kernel_vector_def vector_defs TRAP_VECTOR_SIZE_def)
  have "idle_proc s = 19" "init_proc s = 23" "current_process s = 19" "pc (ctx s) = do_idle bi"
    using s(2) by (simp_all add: init_made_def idle_boot_def)
  then show ?thesis
    using s(1) k v init_made_sched [OF s(2) k0 bi(2,3)] first_tick [OF s(2) bi(1,2) k0]
    by (intro exI [of _ s]) (simp add: trap_def, metis)
qed

definition boot_ex :: boot_info where
  "boot_ex = \<lparr>first_kernel_text_page = 1, first_kernel_data_page = 3, orig_kernel_brk_page = 5, do_idle = 0x2000\<rparr>"

lemma boots_ex: "boots boot_ex 0x400000 (fs_ex (\<lambda>off n. replicate n 7)) [[65]] li_ex (\<lambda>off n. replicate n 7) (\<lambda>n. if n = 21 then 0 else 1)"
proof -
  have "image_fits boot_ex" by (simp add: image_fits_def boot_ex_def)
  moreover have "complete_file li_ex (\<lambda>off n. replicate n 7)" by (simp add: complete_file_def)
  moreover have "t_npg li_ex = 1" by (simp add: li_ex_def)
  moreover have "args_bytes [[65]] < 2 ^ 31" by (simp add: args_bytes_def POST_ARGV_NULL_SPACE_def)
  ultimately show ?thesis using layout_ex
    by (simp add: boots_def Let_def fs_ex_def PAGESIZE_def MAX_PT_LEN_def IDLE_PID_def boot_ex_def)
qed

theorem boot_runs_init_witness:
  "\<exists>s t v T. KernelStart boot_ex (fs_ex (\<lambda>off n. replicate n 7)) [[65]] 0x400000 (start_state (\<lambda>_ _. 0) uctx0 (\<lambda>_. True) (\<lambda>_. True)
      (\<lambda>n. if n = 21 then 0 else 1)) = Ret () s \<and> pc (ctx s) = 0x2000 \<and> trap (\<lambda>_. None) TRAP_CLOCK [] s = Switched t \<and>
    resume t = Ret () v \<and> pc (ctx v) = 0x100020 \<and> sp (ctx v) = 0x1FFF68 \<and>
    runs_program li_ex (\<lambda>off n. replicate n 7) [[65]] T (user_part (user_memory (km v)))"
proof -
  have "entry li_ex = 0x100020" "do_idle boot_ex = 0x2000" by (simp_all add: li_ex_def boot_ex_def)
  moreover have "s\<lparr>ctx := ctx s\<rparr> = s" for s :: kstate by simp
  ultimately show ?thesis
    using boot_runs_init [OF boots_ex, of "\<lambda>_ _. 0" uctx0] layout_ex(7) by metis
qed

end
