(* ===== verification/Clock_Runs.thy ===== *)
theory Clock_Runs
  imports Scheduling
begin

text \<open>
  Runs of the machine in which the only interrupts are those of the clock: user code works, the clock interrupts it, the handler
  gives the processor to another process, and the kernel continues that one where it gave the processor up.
\<close>

section \<open>What the handlers of the clock leave alone\<close>

text \<open>The contents of memory, the mapping of the kernel's pages, the trap vector, and the saved kernel contexts but those of \<open>P\<close>.\<close>

definition kernel_kept :: "kmem \<Rightarrow> kmem \<Rightarrow> bool" where
  "kernel_kept m m' \<longleftrightarrow> phys m' = phys m \<and> (\<forall>v < KSTACK_START_PAGE. pt_region0 m' ! v = pt_region0 m ! v)"

definition kframe :: "addr set \<Rightarrow> kstate \<Rightarrow> kstate \<Rightarrow> bool" where
  "kframe P s t \<longleftrightarrow> kernel_kept (km s) (km t) \<and> TRAP_VECTOR t = TRAP_VECTOR s \<and>
     (\<forall>q. q \<notin> P \<longrightarrow> map_option kernel_context (pcbs t q) = map_option kernel_context (pcbs s q))"

named_theorems kframe_intros \<open>preservation of the frame\<close>

lemma kframe_refl [simp]: "kframe P s s"
  by (simp add: kframe_def kernel_kept_def)

lemma kept_unchanged: "kernel_kept (km s) (km t) \<Longrightarrow> \<not> kernel_changed s t"
  by (auto simp: kernel_kept_def kernel_changed_def own_pages_def)

lemma kframe_upd_pcb [kframe_intros]:
  assumes "p \<in> P \<or> (\<forall>b. kernel_context (f b) = kernel_context b)"
  shows "keeps (kframe P s) (upd_pcb p f)"
  using assms by (auto simp: keeps_def kframe_def upd_pcb_def get_pcb_def prog_simps split: option.split)

lemma kframe_on_queues [kframe_intros]: "keeps (kframe P s) (on_queues m)"
  unfolding on_queues_def
proof (rule keeps_zoom)
  fix t assume "kframe P s t"
  then show "holds_after (\<lambda>c. kframe P s (t\<lparr>qh := c\<rparr>)) (m (qh t))" by (cases "m (qh t)") (simp_all add: kframe_def)
qed

lemma kframe_malloc [kframe_intros]: "keeps (kframe P s) malloc"
  by (simp add: keeps_def malloc_def kframe_def)

lemma kframe_count_call [kframe_intros]: "keeps (kframe P s) count_call"
  by (simp add: keeps_def count_call_def kframe_def)

lemma kframe_on_mem:
  assumes "keeps (kernel_kept (km s)) m"
  shows "keeps (kframe P s) (on_mem m)"
  unfolding on_mem_def
proof (rule keeps_zoom)
  fix t assume t: "kframe P s t"
  then have "holds_after (kernel_kept (km s)) (m (km t))" by (intro keepsD [OF assms]) (simp add: kframe_def)
  with t show "holds_after (\<lambda>c. kframe P s (t\<lparr>km := c\<rparr>)) (m (km t))" by (cases "m (km t)") (simp_all add: kframe_def)
qed

lemma kept_WriteRegister: "keeps (kernel_kept m) (WriteRegister r)"
  by (cases r) (simp_all add: keeps_def WriteRegister_def modify_app kernel_kept_def)

lemma kept_map_kernel_stack: "keeps (kernel_kept m) (map_kernel_stack t)"
proof -
  have "keeps (kernel_kept m) (upd_pte0 (126 + i) f)" for i f
    by (auto simp: keeps_def upd_pte0_def get_pte0_def prog_simps kernel_kept_def KSTACK_START_PAGE_def)
  moreover have "keeps (kernel_kept m) (get_pte a i)" for a i
    by (auto simp: keeps_def get_pte_def prog_simps split: option.split)
  ultimately show ?thesis unfolding map_kernel_stack_def kernel_stack_vpn by (intro keeps_intros)
qed

lemma kframe_modify [kframe_intros]:
  "keeps (kframe P s) (modify (\<lambda>t. t\<lparr>current_process := p\<rparr>))" "keeps (kframe P s) (modify (\<lambda>t. t\<lparr>ctx := c\<rparr>))"
  by (simp_all add: keeps_def modify_app kframe_def)

lemma kframe_load_ctx [kframe_intros]: "keeps (kframe P s) load_ctx"
  unfolding load_ctx_def by (intro keeps_intros kframe_intros)

lemma kframe_save_ctx [kframe_intros]: "keeps (kframe P s) save_ctx"
  unfolding save_ctx_def by (intro keeps_intros kframe_intros) simp

lemma kframe_enqueue [kframe_intros]: "keeps (kframe P s) (kqueueEnqueue q p)" "keeps (kframe P s) (kqueueDequeue q)"
    "keeps (kframe P s) (kqueueRemove q p)"
  unfolding kqueueEnqueue_def kqueueDequeue_def kqueueRemove_def by (intro keeps_intros kframe_intros)+

lemma kframe_KCSwitch: "p \<in> P \<Longrightarrow> keeps (kframe P s) (KCSwitch kc p n)"
  unfolding KCSwitch_def by (intro keeps_intros kframe_intros kframe_on_mem kept_WriteRegister kept_map_kernel_stack) simp_all

lemma kframe_KernelContextSwitch [kframe_intros]: "p \<in> P \<Longrightarrow> keeps (kframe P s) (KernelContextSwitch_KCSwitch kc p n)"
proof -
  assume p: "p \<in> P"
  have "keeps (kframe P s) (\<lambda>t. case KCSwitch kc p n t of
      Ret _ u \<Rightarrow> Switched u | Switched u \<Rightarrow> Switched u | Halted u \<Rightarrow> Halted u | Fault e \<Rightarrow> Fault e)"
  proof (rule keepsI)
    fix t assume "kframe P s t"
    then have "holds_after (kframe P s) (KCSwitch kc p n t)" by (rule keepsD [OF kframe_KCSwitch [OF p]])
    then show "holds_after (kframe P s) (case KCSwitch kc p n t of
        Ret _ u \<Rightarrow> Switched u | Switched u \<Rightarrow> Switched u | Halted u \<Rightarrow> Halted u | Fault e \<Rightarrow> Fault e)"
      by (cases "KCSwitch kc p n t") simp_all
  qed
  then show ?thesis unfolding KernelContextSwitch_KCSwitch_def by (intro keeps_intros kframe_intros)
qed

lemma kframe_trapHandlerHelper [kframe_intros]: "keeps (kframe P s) (trapHandlerHelper p)"
  unfolding trapHandlerHelper_def by (intro keeps_intros kframe_intros) simp_all

text \<open>The process that is interrupted or goes to sleep is the only one whose kernel context is saved.\<close>

lemma ClockTrapHandler_frame: "holds_after (kframe {current_process s} s) (ClockTrapHandler s)"
proof -
  let ?p = "current_process s"
  have "keeps (kframe {?p} s) (thn save_ctx (bnd (gets blocked_queue) (\<lambda>bq.
     thn (queueIterate qh bq trapHandlerHelper)
    (bnd (gets ready_queue) (\<lambda>rq. bnd (kqueueDequeue rq) (\<lambda>next_proc.
     thn (if next_proc \<noteq> 0
          then bnd (get_pcb ?p) (\<lambda>b.
            thn (if pstate b = PROC_RUNNING \<and> pid b \<noteq> 0
                 then thn (upd_pcb ?p (\<lambda>b. b\<lparr>pstate := PROC_READY\<rparr>)) (kqueueEnqueue rq ?p)
                 else ret ())
           (thn (KernelContextSwitch_KCSwitch KC_Clock ?p next_proc) (ret ())))
          else ret ())
         load_ctx))))))"
    by (intro keeps_intros kframe_intros) simp_all
  from keepsD [OF this kframe_refl] show ?thesis unfolding ClockTrapHandler_def bnd_app gets_app by simp
qed

lemma Delay_frame: "holds_after (kframe {current_process s} s) (Delay n s)"
proof -
  let ?p = "current_process s"
  have "keeps (kframe {?p} s) (thn (upd_pcb ?p (\<lambda>b. b\<lparr>delay_ticks := n\<rparr>))
       (thn (upd_pcb ?p (\<lambda>b. b\<lparr>pstate := PROC_BLOCKED\<rparr>))
       (bnd (gets blocked_queue) (\<lambda>bq.
        thn (kqueueEnqueue bq ?p)
       (bnd (gets ready_queue) (\<lambda>rq. bnd (kqueueDequeue rq) (\<lambda>nx.
        bnd (if nx = 0 then gets idle_proc else ret nx) (\<lambda>next_proc.
        thn (KernelContextSwitch_KCSwitch KC_Delay ?p next_proc)
            (ret SUCCESS)))))))))"
    by (intro keeps_intros kframe_intros) simp_all
  from keepsD [OF this kframe_refl] show ?thesis unfolding Delay_def by (simp add: bnd_app gets_app ret_app)
qed

text \<open>What holds whenever a piece of code gives the processor away.\<close>

definition switches :: "('s \<Rightarrow> bool) \<Rightarrow> ('s, 'a) prog \<Rightarrow> bool" where
  "switches Q m \<longleftrightarrow> (\<forall>s t. m s = Switched t \<longrightarrow> Q t)"

lemma switchesD: "switches Q m \<Longrightarrow> m s = Switched t \<Longrightarrow> Q t"
  by (simp add: switches_def)

named_theorems switches_intros \<open>rules for code that may give the processor away\<close>

lemma switches_basic [switches_intros]: "switches Q (ret a)" "switches Q (gets g)" "switches Q (modify f)" "switches Q halt"
    "switches Q (fail e)" "switches Q (deref st p)"
  by (auto simp: switches_def prog_simps split: option.splits if_splits)

lemma switches_bnd [switches_intros]: "switches Q m \<Longrightarrow> (\<And>a. switches Q (f a)) \<Longrightarrow> switches Q (bnd m f)"
  unfolding switches_def bnd_app by (auto split: outcome.splits)

lemma switches_thn [switches_intros]: "switches Q m \<Longrightarrow> switches Q k \<Longrightarrow> switches Q (thn m k)"
  unfolding thn_def by (intro switches_intros)

lemma switches_if [switches_intros]: "switches Q m \<Longrightarrow> switches Q k \<Longrightarrow> switches Q (if c then m else k)"
  by simp

lemma switches_zoom: "switches (\<lambda>_. False) m \<Longrightarrow> switches Q (zoom g u m)"
  by (auto simp: switches_def zoom_app split: outcome.splits)

lemma switches_calls [switches_intros]: "switches Q malloc" "switches Q count_call" "switches Q (get_pcb p)" "switches Q (upd_pcb p f)"
    "switches Q load_ctx" "switches Q save_ctx"
proof -
  show "switches Q malloc" "switches Q count_call" by (simp_all add: switches_def malloc_def count_call_def)
  show g: "switches Q (get_pcb q)" for q :: addr unfolding get_pcb_def by (intro switches_intros)
  show u: "switches Q (upd_pcb q h)" for q h unfolding upd_pcb_def by (intro switches_intros g)
  show "switches Q load_ctx" "switches Q save_ctx" unfolding load_ctx_def save_ctx_def by (intro switches_intros g u)+
qed

lemma switches_queue_ops: "switches Q (queueEnqueue m q p)" "switches Q (queueDequeue q)" "switches Q (queueRemove q p)"
proof -
  note d = get_queue_def set_queue_def get_node_def set_node_def newNode_def free_node_def
  have "switches Q (queueRemove_loop n q p a)" for n a
    by (induction n arbitrary: a) (auto simp: unlink_def d intro!: switches_intros)
  then show "switches Q (queueRemove q p)" unfolding queueRemove_def d by (intro switches_intros)
  show "switches Q (queueEnqueue m q p)" "switches Q (queueDequeue q)"
    unfolding queueEnqueue_def queueDequeue_def d by (intro switches_intros)+
qed

lemma switches_queues [switches_intros]: "switches Q (kqueueEnqueue q p)" "switches Q (kqueueDequeue q)" "switches Q (kqueueRemove q p)"
  unfolding kqueueEnqueue_def kqueueDequeue_def kqueueRemove_def on_queues_def
  by (intro switches_intros switches_zoom switches_queue_ops)+

lemma switches_queueIterate: "(\<And>p. switches Q (f p)) \<Longrightarrow> switches Q (queueIterate g q f)"
proof -
  assume f: "\<And>p. switches Q (f p)"
  have "switches Q (queueIterate_loop n g f a)" for n a
    by (induction n arbitrary: a) (auto intro!: switches_intros f)
  then show ?thesis unfolding queueIterate_def by (intro switches_intros)
qed

definition saved :: "KernelContext \<Rightarrow> addr \<Rightarrow> kstate \<Rightarrow> bool" where
  "saved kc p s \<longleftrightarrow> (\<exists>b. pcbs s p = Some b \<and> kernel_context b = kc)"

lemma KCSwitch_saved:
  assumes "p \<noteq> 0"
  shows "holds_after (saved kc p) (KCSwitch kc p n s)"
proof -
  have mem: "keeps (saved kc p) (on_mem m)" for m :: "(kmem, 'a) prog"
    unfolding on_mem_def
  proof (rule keeps_zoom)
    fix t assume "saved kc p t"
    then show "holds_after (\<lambda>c. saved kc p (t\<lparr>km := c\<rparr>)) (m (km t))" by (cases "m (km t)") (simp_all add: saved_def)
  qed
  have upd: "keeps (saved kc p) (upd_pcb q (\<lambda>b. b\<lparr>pstate := x\<rparr>))" for q x
    by (auto simp: keeps_def saved_def upd_pcb_def get_pcb_def prog_simps split: option.split)
  have cur: "keeps (saved kc p) (modify (\<lambda>s. s\<lparr>current_process := n\<rparr>))" by (simp add: keeps_def modify_app saved_def)
  have "leads (\<lambda>_. True) (upd_pcb p (\<lambda>b. b\<lparr>kernel_context := kc\<rparr>)) (saved kc p)"
    by (auto simp: leads_def saved_def upd_pcb_def get_pcb_def prog_simps split: option.split)
  then have "leads (\<lambda>_. True) (if p \<noteq> 0 then upd_pcb p (\<lambda>b. b\<lparr>kernel_context := kc\<rparr>) else ret ()) (saved kc p)" using assms by simp
  moreover have "keeps (saved kc p) (bnd (get_pcb n) (\<lambda>b.
     thn (on_mem (map_kernel_stack (kstack b)))
    (thn (modify (\<lambda>s. s\<lparr>current_process := n\<rparr>))
    (thn (upd_pcb n (\<lambda>b. b\<lparr>pstate := PROC_RUNNING\<rparr>))
    (thn (on_mem (WriteRegister (REG_PTBR1 (ptbr b))))
    (thn (on_mem (WriteRegister (REG_PTLR1 (ptlr b))))
         (on_mem (WriteRegister (REG_TLB_FLUSH TLB_FLUSH_ALL)))))))))"
    by (intro keeps_intros mem upd cur)
  ultimately have "leads (\<lambda>_. True) (KCSwitch kc p n) (saved kc p)"
    unfolding KCSwitch_def by (intro leads_thn) (auto simp: keeps_leads)
  then show ?thesis by (simp add: leads_def)
qed

lemma switches_KernelContextSwitch [switches_intros]:
  assumes "p \<noteq> 0"
  shows "switches (saved kc p) (KernelContextSwitch_KCSwitch kc p n)"
proof -
  have "switches (saved kc p) (\<lambda>t. case KCSwitch kc p n t of
      Ret _ u \<Rightarrow> Switched u | Switched u \<Rightarrow> Switched u | Halted u \<Rightarrow> Halted u | Fault e \<Rightarrow> Fault e)"
    unfolding switches_def
  proof (intro allI impI)
    fix s t
    assume "(case KCSwitch kc p n s of
      Ret _ u \<Rightarrow> Switched u | Switched u \<Rightarrow> Switched u | Halted u \<Rightarrow> Halted u | Fault e \<Rightarrow> Fault e) = Switched t"
    with KCSwitch_saved [OF assms, of kc n s] show "saved kc p t" by (cases "KCSwitch kc p n s") auto
  qed
  then show ?thesis unfolding KernelContextSwitch_KCSwitch_def by (intro switches_intros)
qed

lemma ClockTrapHandler_saved: "current_process s \<noteq> 0 \<Longrightarrow> ClockTrapHandler s = Switched t \<Longrightarrow> saved KC_Clock (current_process s) t"
proof -
  let ?p = "current_process s"
  assume p: "?p \<noteq> 0" and t: "ClockTrapHandler s = Switched t"
  have "switches (saved KC_Clock ?p) (thn save_ctx (bnd (gets blocked_queue) (\<lambda>bq.
     thn (queueIterate qh bq trapHandlerHelper)
    (bnd (gets ready_queue) (\<lambda>rq. bnd (kqueueDequeue rq) (\<lambda>next_proc.
     thn (if next_proc \<noteq> 0
          then bnd (get_pcb ?p) (\<lambda>b.
            thn (if pstate b = PROC_RUNNING \<and> pid b \<noteq> 0
                 then thn (upd_pcb ?p (\<lambda>b. b\<lparr>pstate := PROC_READY\<rparr>)) (kqueueEnqueue rq ?p)
                 else ret ())
           (thn (KernelContextSwitch_KCSwitch KC_Clock ?p next_proc) (ret ())))
          else ret ())
         load_ctx))))))"
    unfolding trapHandlerHelper_def by (intro switches_intros switches_queueIterate p)
  from switchesD [OF this] t show ?thesis unfolding ClockTrapHandler_def bnd_app gets_app by simp
qed

lemma Delay_saved: "current_process s \<noteq> 0 \<Longrightarrow> Delay n s = Switched t \<Longrightarrow> saved KC_Delay (current_process s) t"
proof -
  let ?p = "current_process s"
  assume p: "?p \<noteq> 0" and t: "Delay n s = Switched t"
  have "switches (saved KC_Delay ?p) (thn (upd_pcb ?p (\<lambda>b. b\<lparr>delay_ticks := n\<rparr>))
       (thn (upd_pcb ?p (\<lambda>b. b\<lparr>pstate := PROC_BLOCKED\<rparr>))
       (bnd (gets blocked_queue) (\<lambda>bq.
        thn (kqueueEnqueue bq ?p)
       (bnd (gets ready_queue) (\<lambda>rq. bnd (kqueueDequeue rq) (\<lambda>nx.
        bnd (if nx = 0 then gets idle_proc else ret nx) (\<lambda>next_proc.
        thn (KernelContextSwitch_KCSwitch KC_Delay ?p next_proc)
            (ret SUCCESS)))))))))"
    by (intro switches_intros p)
  from switchesD [OF this] t show ?thesis unfolding Delay_def by (auto simp: bnd_app gets_app ret_app split: if_splits)
qed

text \<open>The allocator of the kernel may move the break.\<close>

lemma SetKernelBrk_pts: "keeps (\<lambda>m. pts m = X) (SetKernelBrk a)"
proof -
  have fd: "keeps (\<lambda>m. pts m = X) (upd_fd i f)" for i f
    by (auto simp: keeps_def upd_fd_def get_fd_def prog_simps)
  have e: "keeps (\<lambda>m. pts m = X) (upd_pte0 v f)" "keeps (\<lambda>m. pts m = X) (get_pte0 v)" for v f
    by (auto simp: keeps_def upd_pte0_def get_pte0_def prog_simps)
  have alloc: "keeps (\<lambda>m. pts m = X) (allocFrame u ow)" for u ow
    unfolding allocFrame_def take_free_def get_fd_def
    by (intro keeps_intros fd) (simp_all add: keeps_def)
  have free: "keeps (\<lambda>m. pts m = X) (freeFrame i)" for i
    unfolding freeFrame_def valid_pfn_def by (intro keeps_intros fd) simp_all
  have reg: "keeps (\<lambda>m. pts m = X) (WriteRegister r)" for r by (cases r) (simp_all add: keeps_def WriteRegister_def modify_app)
  have "keeps (\<lambda>m. pts m = X) (SetKernelBrk_grow k cur target)" for k cur target
    by (induction k arbitrary: cur) (auto simp: MapRegion0_def intro!: keeps_intros e alloc)
  moreover have "keeps (\<lambda>m. pts m = X) (SetKernelBrk_shrink v target)" for v target
    by (induction v) (auto simp: UnmapRegion0_def intro!: keeps_intros e free reg)
  ultimately show ?thesis unfolding SetKernelBrk_def Let_def by (intro keeps_intros) simp_all
qed

section \<open>Runs of the clock\<close>

text \<open>
  The processes that return to user mode as soon as the kernel continues them: those the clock interrupted, those that slept, those whose
  output is done, and one that has not run yet. (A process that waits for a terminal or in \<^verbatim>\<open>Wait\<close> has more to do there, and may go to sleep again.)
\<close>

fun quick :: "KernelContext \<Rightarrow> bool" where
  "quick KC_KernelStart = True"
| "quick KC_Clock = True"
| "quick KC_Delay = True"
| "quick (KC_TtyWriteDone n) = True"
| "quick _ = False"

definition returns_at_once :: "kstate \<Rightarrow> addr \<Rightarrow> bool" where
  "returns_at_once s p \<longleftrightarrow> (\<exists>b. pcbs s p = Some b \<and> quick (kernel_context b))"

text \<open>The processes that the clock alone can give the processor to.\<close>

definition will_run :: "sched \<Rightarrow> addr set" where
  "will_run S = insert (idle S) (set (ready S) \<union> {p \<in> set (blocked S). 0 < ticks S p})"

text \<open>A kernel in order with the clock handler installed, in which these processes return at once.\<close>

definition clock_ready :: "kstate \<Rightarrow> bool" where
  "clock_ready s \<longleftrightarrow> sched_ok s \<and> TRAP_VECTOR s ! TRAP_CLOCK = H_Clock \<and>
     (\<forall>p \<in> will_run (sched_of s) - {current_process s}. returns_at_once s p)"

text \<open>The machine in the middle of such a run, with the scheduler in the state \<open>S\<close>.\<close>

fun clock_inv :: "sched \<Rightarrow> machine \<Rightarrow> bool" where
  "clock_inv S (User s) = (clock_ready s \<and> sched_of s = S)"
| "clock_inv S (Resuming s) = (clock_ready s \<and> sched_of s = S \<and> returns_at_once s (current_process s))"
| "clock_inv S _ = False"

text \<open>The events of these runs: no interrupt but that of the clock. How many of them are clock interrupts.\<close>

definition clock_events :: "event set" where
  "clock_events = {User_Access, Own_Data, Kernel_Heap, Continue, Interrupt TRAP_CLOCK}"

definition ticks_in :: "event list \<Rightarrow> nat" where
  "ticks_in es = count_list es (Interrupt TRAP_CLOCK)"

lemma ticks_in_simps [simp]: "ticks_in [] = 0" "ticks_in (es @ [e]) = ticks_in es + (if e = Interrupt TRAP_CLOCK then 1 else 0)"
  by (simp_all add: ticks_in_def)

subsection \<open>Every step keeps the invariant\<close>

lemma sched_of_upd [simp]: "sched_of (s\<lparr>km := m\<rparr>) = sched_of s" "sched_of (s\<lparr>ctx := c\<rparr>) = sched_of s"
  by (simp_all add: sched_of_def)

lemma sched_ok_upd: "sched_ok s \<Longrightarrow> tables_ok m \<Longrightarrow> pts m = pts (km s) \<Longrightarrow> sched_ok (s\<lparr>km := m\<rparr>)" "sched_ok (s\<lparr>ctx := c\<rparr>) = sched_ok s"
proof -
  have p: "proc_ok (s\<lparr>ctx := c\<rparr>) = proc_ok s" by (intro ext proc_ok_cong) simp_all
  then show "sched_ok (s\<lparr>ctx := c\<rparr>) = sched_ok s" by (simp add: sched_ok_def run_ok_def)
  assume ok: "sched_ok s" and m: "tables_ok m" "pts m = pts (km s)"
  have "proc_ok (s\<lparr>km := m\<rparr>) = proc_ok s" by (intro ext proc_ok_cong) (simp_all add: m)
  with ok m show "sched_ok (s\<lparr>km := m\<rparr>)" by (simp add: sched_ok_def run_ok_def kinv_def)
qed

lemma clock_ready_upd:
  "clock_ready s \<Longrightarrow> tables_ok m \<Longrightarrow> pts m = pts (km s) \<Longrightarrow> clock_ready (s\<lparr>km := m\<rparr>)" "clock_ready (s\<lparr>ctx := c\<rparr>) = clock_ready s"
  "returns_at_once (s\<lparr>km := m\<rparr>) p = returns_at_once s p" "returns_at_once (s\<lparr>ctx := c\<rparr>) p = returns_at_once s p"
  by (simp_all add: clock_ready_def will_run_def returns_at_once_def sched_ok_upd)

lemma clock_ready_tables: "clock_ready s \<Longrightarrow> tables_ok (km s)"
  by (simp add: clock_ready_def sched_ok_def kinv_def)

lemma clock_ready_memory:
  assumes "keeps tables_ok f" "keeps (\<lambda>m. pts m = pts (km s)) f" "clock_ready s" "f (km s) = Ret x m"
  shows "clock_ready (s\<lparr>km := m\<rparr>)"
  using clock_ready_upd(1) [OF assms(3)] keeps_Ret [OF assms(1) _ assms(4)] keeps_Ret [OF assms(2) refl assms(4)] clock_ready_tables [OF assms(3)] by blast

lemma user_access_pts: "keeps (\<lambda>m. pts m = X) (store_byte a b)" "keeps (\<lambda>m. pts m = X) (load_byte a)"
proof -
  have "keeps (\<lambda>m. pts m = X) (access p a)" for p
    by (auto simp: keeps_def access_def split: option.split)
  then show "keeps (\<lambda>m. pts m = X) (store_byte a b)" "keeps (\<lambda>m. pts m = X) (load_byte a)"
    unfolding store_byte_def load_byte_def by (intro keeps_intros, simp_all)+
qed

lemma resume_at_once:
  assumes "clock_ready s" "returns_at_once s (current_process s)"
  shows "\<exists>c. resume s = Ret () (s\<lparr>ctx := c\<rparr>)"
proof -
  from assms(2) obtain b where b: "pcbs s (current_process s) = Some b" "quick (kernel_context b)" by (auto simp: returns_at_once_def)
  from assms(1) have "sched_ok s" by (simp add: clock_ready_def)
  then have p: "current_process s \<noteq> 0" by (rule sched_okD)
  have g: "get_pcb (current_process s) s = Ret b s" using p b(1) by (simp add: get_pcb_def deref_app)
  have l: "load_ctx s = Ret () (s\<lparr>ctx := user_context b\<rparr>)" by (simp add: load_ctx_def bnd_app gets_app modify_app g)
  then have r: "return_with v s = Ret () (s\<lparr>ctx := set_reg0 (word_of_int v) (user_context b)\<rparr>)" for v
    by (simp add: return_with_def thn_app ctx_reg0_def modify_app)
  from b(2) show ?thesis
    by (cases "kernel_context b") (auto simp only: quick.simps resume_def bnd_app gets_app outcome.case g l r KernelContext.case)
qed

lemma sched_tick_will_run: "insert (running (sched_tick S)) (will_run (sched_tick S)) \<subseteq> insert (running S) (will_run S)"
proof -
  let ?C = "sched_count S"
  have d: "set (ready (dispatch T)) \<union> {running (dispatch T)} \<subseteq> insert (idle T) (set (ready T))" for T
    by (auto simp: dispatch_def split: list.splits)
  have c: "set (ready ?C) \<subseteq> set (ready S) \<union> {p \<in> set (blocked S). 0 < ticks S p}" "running ?C = running S"
    by (auto simp: sched_count_def)
  have "set (ready (sched_tick S)) \<union> {running (sched_tick S)} \<subseteq> insert (idle S) (insert (running S) (set (ready ?C)))"
  proof (cases "ready ?C = []")
    case True
    then show ?thesis by (simp add: sched_tick_def c(2))
  next
    case False
    then show ?thesis using d [of "?C\<lparr>ready := ready ?C @ (if running S = idle S then [] else [running S])\<rparr>"]
      by (auto simp: sched_tick_def Let_def split: if_splits)
  qed
  with c(1) show ?thesis by (auto simp: will_run_def sched_tick_fields split: if_splits)
qed

lemma saved_quick: "saved kc p s \<Longrightarrow> quick kc \<Longrightarrow> returns_at_once s p"
  by (auto simp: saved_def returns_at_once_def)

lemma frame_returns: "kframe {p} s t \<Longrightarrow> q \<noteq> p \<Longrightarrow> returns_at_once t q = returns_at_once s q"
  by (cases "pcbs t q"; cases "pcbs s q") (auto simp: kframe_def returns_at_once_def)

text \<open>One clock interrupt: the abstract tick, no memory error, and the processes still return at once.\<close>

lemma clock_interrupt:
  assumes s: "clock_ready s"
  shows "clock_inv (sched_tick (sched_of s)) (checked s (after (trap fs TRAP_CLOCK line (s\<lparr>ctx := c\<rparr>))))"
proof -
  let ?s = "s\<lparr>ctx := c\<rparr>" and ?p = "current_process s"
  have ok: "sched_ok ?s" using s by (simp add: clock_ready_def sched_ok_upd)
  have p0: "?p \<noteq> 0" by (rule sched_okD [OF ok]) simp
  have len: "length (TRAP_VECTOR s) = TRAP_VECTOR_SIZE" using s by (simp add: clock_ready_def sched_ok_def kinv_def)
  have trap: "trap fs TRAP_CLOCK line ?s = ClockTrapHandler ?s"
    using s len by (simp add: trap_def clock_ready_def vector_defs)
  from clock_step [OF ok] obtain t where
    t: "ClockTrapHandler ?s = Ret () t \<and> current_process t = ?p \<or> ClockTrapHandler ?s = Switched t"
      "sched_of t = sched_tick (sched_of s)" "sched_ok t" by auto
  from ClockTrapHandler_frame [of ?s] t(1) have fr: "kframe {?p} ?s t" by auto
  then have un: "\<not> kernel_changed s t" using kept_unchanged [of s t] by (simp add: kframe_def)
  have ret: "returns_at_once t q" if "q \<in> insert (current_process t) (will_run (sched_of t))" "q \<noteq> ?p" for q
  proof -
    have "q \<in> insert (running (sched_tick (sched_of s))) (will_run (sched_tick (sched_of s)))"
      using that(1) by (simp only: t(2) sched_of_sel(2) [of t, symmetric])
    then have "q \<in> insert (running (sched_of s)) (will_run (sched_of s))" by (rule subsetD [OF sched_tick_will_run])
    then have "q \<in> will_run (sched_of s)" using that(2) by (simp only: sched_of_sel(2) insert_iff simp_thms)
    with s that(2) have "returns_at_once ?s q" by (simp add: clock_ready_def clock_ready_upd)
    with frame_returns [OF fr that(2)] show ?thesis by simp
  qed
  have v: "TRAP_VECTOR t ! TRAP_CLOCK = H_Clock" using fr s by (simp add: kframe_def clock_ready_def)
  show ?thesis
  proof (cases "ClockTrapHandler ?s = Switched t")
    case True
    have "returns_at_once t ?p" using saved_quick [OF ClockTrapHandler_saved [OF _ True]] p0 by simp
    with ret have all: "returns_at_once t q" if "q \<in> insert (current_process t) (will_run (sched_of t))" for q using that by metis
    then have "clock_inv (sched_of t) (Resuming t)" using t(3) v by (simp add: clock_ready_def)
    then show ?thesis using True un t(2) by (simp add: trap)
  next
    case False
    with t(1) have "ClockTrapHandler ?s = Ret () t" "current_process t = ?p" by auto
    moreover from this(2) have "clock_inv (sched_of t) (User t)" using t(3) v ret by (simp add: clock_ready_def)
    ultimately show ?thesis using un t(2) by (simp add: trap)
  qed
qed

lemma clock_inv_step:
  assumes "step fs e m m'" "clock_inv S m" "e \<in> clock_events"
  shows "m' = Overwritten \<or> clock_inv (if e = Interrupt TRAP_CLOCK then sched_tick S else S) m'"
  using assms
proof (induction rule: step.induct)
  case (user_store a b s m)
  with clock_ready_memory [OF keeps_store_byte user_access_pts(1) _ user_store.hyps(2)] show ?case by auto
next
  case (user_load a s b m)
  with clock_ready_memory [OF keeps_load_byte user_access_pts(2) _ user_load.hyps(2)] show ?case by auto
next
  case (kernel_heap a s r m)
  with clock_ready_memory [OF keeps_SetKernelBrk SetKernelBrk_pts _ kernel_heap.hyps(1)] show ?case by auto
next
  case (own_data_user s ph)
  have "clock_ready (s\<lparr>km := (km s)\<lparr>phys := ph\<rparr>\<rparr>)"
    using own_data_user.prems clock_ready_tables [of s] by (intro clock_ready_upd(1)) (simp_all add: tables_ok_def)
  then show ?case using own_data_user.prems by simp
next
  case (own_data_kernel s ph)
  have "clock_ready (s\<lparr>km := (km s)\<lparr>phys := ph\<rparr>\<rparr>)"
    using own_data_kernel.prems clock_ready_tables [of s] by (intro clock_ready_upd(1)) (simp_all add: tables_ok_def)
  then show ?case using own_data_kernel.prems by (simp add: clock_ready_upd)
next
  case (user_trap n c s line)
  then have "n = TRAP_CLOCK" by (simp add: clock_events_def)
  with clock_interrupt [of s fs line c] user_trap.prems show ?case by simp
next
  case (continue s)
  then obtain c where c: "resume s = Ret () (s\<lparr>ctx := c\<rparr>)" using resume_at_once by auto
  have "\<not> kernel_changed s (s\<lparr>ctx := c\<rparr>)" by (simp add: kernel_changed_def)
  with c continue.prems show ?case by (simp add: clock_ready_upd)
qed

lemma no_step_Overwritten: "\<not> step fs e Overwritten m"
  by (auto elim: step_OverwrittenE)

lemma clock_run:
  assumes "run fs m0 es m" "clock_inv S m0" "set es \<subseteq> clock_events"
  shows "m = Overwritten \<or> clock_inv ((sched_tick ^^ ticks_in es) S) m"
  using assms
proof (induction rule: run.induct)
  case (run_step es m e m')
  then have "m \<noteq> Overwritten" using no_step_Overwritten by blast
  with run_step have m: "clock_inv ((sched_tick ^^ ticks_in es) S) m" by simp
  from clock_inv_step [OF run_step.hyps(2) m] run_step.prems(2) show ?case by auto
qed simp

text \<open>The clock can always tick again.\<close>

lemma clock_run_returns:
  assumes "run fs m0 ds m" "clock_inv S m"
  shows "\<exists>es t. run fs m0 (ds @ es) (User t) \<and> set es \<subseteq> clock_events \<and> ticks_in es = 0 \<and> clock_ready t"
proof (cases m)
  case (User s)
  with assms show ?thesis by (intro exI [of _ "[]"] exI [of _ s]) simp
next
  case (Resuming s)
  with assms(2) obtain c where c: "resume s = Ret () (s\<lparr>ctx := c\<rparr>)" using resume_at_once by auto
  have "\<not> kernel_changed s (s\<lparr>ctx := c\<rparr>)" by (simp add: kernel_changed_def)
  then have "step fs Continue m (User (s\<lparr>ctx := c\<rparr>))" using step.continue [of fs s] c Resuming by simp
  with assms(1) have "run fs m0 (ds @ [Continue]) (User (s\<lparr>ctx := c\<rparr>))" by (rule run.run_step)
  moreover have "clock_ready (s\<lparr>ctx := c\<rparr>)" using assms(2) Resuming by (simp add: clock_ready_upd)
  moreover have "ticks_in [Continue] = 0" "set [Continue] \<subseteq> clock_events" by (simp_all add: ticks_in_def clock_events_def)
  ultimately show ?thesis by blast
qed (use assms in simp_all)

lemma clock_run_extends:
  assumes "clock_inv S m0"
  shows "\<exists>es t. run fs m0 es (User t) \<and> set es \<subseteq> clock_events \<and> ticks_in es = k"
proof -
  have "\<exists>es t. run fs m0 es (User t) \<and> set es \<subseteq> clock_events \<and> ticks_in es = k \<and> clock_ready t"
  proof (induction k)
    case 0
    from clock_run_returns [OF run.run_start assms] show ?case by simp
  next
    case (Suc k)
    then obtain es t where t: "run fs m0 es (User t)" "set es \<subseteq> clock_events" "ticks_in es = k" "clock_ready t" by auto
    define m where "m = checked t (after (trap fs TRAP_CLOCK [] (t\<lparr>ctx := uctx0\<rparr>)))"
    have m: "clock_inv (sched_tick (sched_of t)) m" unfolding m_def by (rule clock_interrupt [OF t(4)])
    have "step fs (Interrupt TRAP_CLOCK) (User t) m"
      using step.user_trap [of TRAP_CLOCK uctx0 fs t "[]"] by (simp add: m_def vector_defs uctx0_def)
    with t(1) have "run fs m0 (es @ [Interrupt TRAP_CLOCK]) m" by (rule run.run_step)
    from clock_run_returns [OF this m] obtain ds u where
      u: "run fs m0 ((es @ [Interrupt TRAP_CLOCK]) @ ds) (User u)" "set ds \<subseteq> clock_events" "ticks_in ds = 0" "clock_ready u" by blast
    have "ticks_in ((es @ [Interrupt TRAP_CLOCK]) @ ds) = Suc k" using t(3) u(3) by (simp add: ticks_in_def)
    moreover have "set ((es @ [Interrupt TRAP_CLOCK]) @ ds) \<subseteq> clock_events" using t(2) u(2) by (simp add: clock_events_def)
    ultimately show ?case using u(1,4) by blast
  qed
  then show ?thesis by blast
qed

subsection \<open>From a call of Delay\<close>

lemma clock_ready_save:
  assumes s: "clock_ready s" and b: "pcbs s (current_process s) = Some b"
  shows "clock_ready (s\<lparr>ctx := c, pcbs := (pcbs s)(current_process s \<mapsto> b\<lparr>user_context := c\<rparr>)\<rparr>)" (is "clock_ready ?t")
    "sched_of (s\<lparr>ctx := c, pcbs := (pcbs s)(current_process s \<mapsto> b\<lparr>user_context := c\<rparr>)\<rparr>) = sched_of s"
proof -
  show S: "sched_of ?t = sched_of s" using b by (auto simp: sched_of_def fun_eq_iff)
  have "sched_ok ?t" using sched_ok_save [OF _ b] s by (simp add: clock_ready_def)
  moreover have "returns_at_once ?t p = returns_at_once s p" for p using b by (simp add: returns_at_once_def)
  ultimately show "clock_ready ?t" using s S by (simp add: clock_ready_def)
qed

lemma sched_delay_will_run: "insert (running (sched_delay n S)) (will_run (sched_delay n S)) \<subseteq> insert (running S) (will_run S)"
  by (auto simp: will_run_def sched_delay_def dispatch_def split: list.splits if_splits)

lemma delay_clock_inv:
  assumes s: "clock_ready s" and p: "current_process s = p" "p \<noteq> idle_proc s" and n: "n \<noteq> 0" "-1 \<le> n"
  shows "\<exists>t. Delay n s = Switched t \<and> kernel_kept (km s) (km t) \<and> clock_inv (sched_delay n (sched_of s)) (Resuming t)"
proof -
  have ok: "sched_ok s" using s by (simp add: clock_ready_def)
  from delay_step [OF ok, of n] p n obtain t where
    t: "Delay n s = Switched t" "sched_of t = sched_delay n (sched_of s)" "sched_ok t" by auto
  have p0: "current_process s \<noteq> 0" by (rule sched_okD [OF ok]) simp
  have fr: "kframe {p} s t" using Delay_frame [of s n] t(1) p(1) by simp
  have sp: "returns_at_once t p" using saved_quick [OF Delay_saved [OF p0 t(1)]] p(1) by simp
  have "returns_at_once t q" if q: "q \<in> insert (current_process t) (will_run (sched_of t))" for q
  proof (cases "q = p")
    case False
    have "q \<in> insert (running (sched_delay n (sched_of s))) (will_run (sched_delay n (sched_of s)))"
      using q by (simp only: t(2) sched_of_sel(2) [of t, symmetric])
    then have "q \<in> insert (running (sched_of s)) (will_run (sched_of s))" by (rule subsetD [OF sched_delay_will_run])
    then have "q \<in> will_run (sched_of s)" using False p(1) by (simp only: sched_of_sel(2) insert_iff simp_thms)
    with s False p(1) have "returns_at_once s q" by (simp add: clock_ready_def)
    with frame_returns [OF fr False] show ?thesis by simp
  qed (use sp in simp)
  moreover have "TRAP_VECTOR t ! TRAP_CLOCK = H_Clock" using fr s by (simp add: kframe_def clock_ready_def)
  ultimately have "clock_inv (sched_of t) (Resuming t)" using t(3) by (simp add: clock_ready_def)
  then show ?thesis using t(1,2) fr by (auto simp: kframe_def)
qed

lemma delay_call:
  assumes s: "clock_ready s" "TRAP_VECTOR s ! TRAP_KERNEL = H_Kernel" and p: "current_process s = p" "p \<noteq> idle_proc s"
    and c: "code c = YALNIX_DELAY" "sint (reg c 0) = n" "n \<noteq> 0" "-1 \<le> n"
  shows "\<exists>t. trap fs TRAP_KERNEL line (s\<lparr>ctx := c\<rparr>) = Switched t \<and> \<not> kernel_changed s t \<and> clock_inv (sched_delay n (sched_of s)) (Resuming t)"
proof -
  have ok: "sched_ok s" using s by (simp add: clock_ready_def)
  obtain b where b: "pcbs s (current_process s) = Some b" "current_process s \<noteq> 0" by (rule sched_okD [OF ok]) (rule that; assumption)
  let ?s = "s\<lparr>ctx := c, pcbs := (pcbs s)(current_process s \<mapsto> b\<lparr>user_context := c\<rparr>)\<rparr>"
  from delay_clock_inv [OF clock_ready_save(1) [OF s(1) b(1), of c], of p n] p c(3,4) obtain t where
    t: "Delay n ?s = Switched t" "kernel_kept (km ?s) (km t)" "clock_inv (sched_delay n (sched_of ?s)) (Resuming t)" by auto
  have len: "length (TRAP_VECTOR s) = TRAP_VECTOR_SIZE" using ok by (simp add: sched_ok_def kinv_def)
  have save: "save_ctx (s\<lparr>ctx := c\<rparr>) = Ret () ?s" using b by (simp add: save_ctx_def bnd_app gets_app upd_pcb_def get_pcb_def deref_app modify_app)
  have "trap fs TRAP_KERNEL line (s\<lparr>ctx := c\<rparr>) = KernelTrapHandler fs (s\<lparr>ctx := c\<rparr>)"
    using s(2) len by (auto simp: trap_def vector_defs)
  also have "\<dots> = Switched t"
    using c(1,2) t(1) by (simp add: KernelTrapHandler_def bnd_app gets_app thn_app save)
  finally have "trap fs TRAP_KERNEL line (s\<lparr>ctx := c\<rparr>) = Switched t" .
  moreover have "\<not> kernel_changed s t" by (rule kept_unchanged) (use t(2) in simp)
  ultimately show ?thesis using t(3) clock_ready_save(2) [OF s(1) b(1)] by auto
qed

section \<open>Properties\<close>

lemma clock_inv_cases:
  assumes "clock_inv S m"
  obtains t where "m = User t \<or> m = Resuming t" "clock_ready t" "sched_of t = S"
  using assms by (cases m) auto

lemma procs_in_ticks: "idle S \<notin> set (procs_in S) \<Longrightarrow> set (procs_in ((sched_tick ^^ k) S)) = set (procs_in S)"
proof (induction k arbitrary: S)
  case (Suc k)
  then have "idle S \<notin> set (ready S @ blocked S)" by (simp add: procs_in_def split: if_splits)
  then have eq: "set (procs_in (sched_tick S)) = set (procs_in S)" by (metis mset_sched_tick set_mset_mset)
  with Suc.IH [of "sched_tick S"] Suc.prems show ?case by (simp add: funpow_swap1)
qed simp

text \<open>A kernel for the witnesses: that of \<^verbatim>\<open>Kernel_Example\<close> with the trap vector installed and every process but the running one interrupted by the clock.\<close>

definition clock_ex :: kstate where
  "clock_ex = kernel_ex\<lparr>pcbs := (\<lambda>p. map_option (\<lambda>b. b\<lparr>kernel_context := KC_Clock\<rparr>) (pcbs_ex p)),
     TRAP_VECTOR := (replicate TRAP_VECTOR_SIZE H_NotImplemented)[TRAP_KERNEL := H_Kernel, TRAP_CLOCK := H_Clock]\<rparr>"

lemma clock_ex_sched: "sched_of clock_ex = \<lparr>idle = 100, running = 101, ready = [102], blocked = [103],
    ticks = (\<lambda>p. case pcbs_ex p of None \<Rightarrow> 0 | Some b \<Rightarrow> delay_ticks b)\<rparr>"
  by (rule sched_eqI) (auto simp: clock_ex_def sched_of_def qview_sys_def fun_eq_iff split: option.split)

lemma clock_ex_ready: "clock_ready clock_ex"
proof -
  have k: "kinv {} clock_ex" using kernel_ex_kinv by (auto simp: kinv_def clock_ex_def vector_defs)
  have "list_all (proc_ok clock_ex) [100, 101, 102, 103]"
    by (simp add: clock_ex_def proc_ok_def pcb_ex_def pcb0_def kmem_ex_def KSTACK_PAGES_def)
  with k have "sched_ok clock_ex"
    by (simp add: sched_ok_def procs_in_def clock_ex_sched) (simp add: clock_ex_def run_ok_def qview_sys_def)
  moreover have "returns_at_once clock_ex p" if "p \<in> {100, 102, 103}" for p
    using that by (auto simp: returns_at_once_def clock_ex_def)
  moreover have "will_run (sched_of clock_ex) \<subseteq> {100, 102, 103}" by (auto simp: will_run_def clock_ex_sched)
  moreover have "TRAP_VECTOR clock_ex ! TRAP_CLOCK = H_Clock" by (simp add: clock_ex_def vector_defs)
  ultimately show ?thesis by (auto simp: clock_ready_def)
qed

text \<open>
  C8. Nobody starves on the clock: take a kernel in order in which the ready processes, the idle process and those asleep for a number of ticks
  return to user mode at once when they are continued (the clock interrupted them, or they slept), and a run in which user code works and
  the only interrupts are those of the clock. Then, whatever the clock handler and the kernel's allocator do in between, the kernel does not crash or halt, and as long as its
  memory is not overwritten a ready process \<open>p\<close> with the processes \<open>ps\<close> before it keeps its place in the ready queue, moving up by one at each interrupt, and
  after one interrupt more than there are processes before it, it has the processor, until the next one.
  Such runs exist with any number of interrupts. (Another trap can change the order: a process that blocks gives up its turn, one that waits for a terminal may block again when it is continued.)
\<close>

theorem ready_runs_in_turn:
  assumes "clock_ready s" and "ready (sched_of s) = ps @ p # qs"
  shows "(\<forall>es m. run fs (User s) es m \<and> set es \<subseteq> clock_events \<and> m \<noteq> Overwritten \<longrightarrow>
      (\<exists>t. (m = User t \<or> m = Resuming t) \<and>
        (ticks_in es \<le> length ps \<longrightarrow> (\<exists>us. ready (sched_of t) = drop (ticks_in es) ps @ p # qs @ us)) \<and>
        (ticks_in es = Suc (length ps) \<longrightarrow> current_process t = p \<and> (\<exists>b. pcbs t p = Some b \<and> pstate b = PROC_RUNNING)))) \<and>
    (\<exists>es t. run fs (User s) es (User t) \<and> set es \<subseteq> clock_events \<and> ticks_in es = Suc (length ps))"
proof (intro conjI allI impI)
  let ?S = "sched_of s"
  have start: "clock_inv ?S (User s)" using assms(1) by simp
  show "\<exists>es t. run fs (User s) es (User t) \<and> set es \<subseteq> clock_events \<and> ticks_in es = Suc (length ps)"
    by (rule clock_run_extends [OF start])
  fix es m assume r: "run fs (User s) es m \<and> set es \<subseteq> clock_events \<and> m \<noteq> Overwritten"
  with clock_run [OF _ start, of fs es m] have "clock_inv ((sched_tick ^^ ticks_in es) ?S) m" by blast
  then obtain t where t: "m = User t \<or> m = Resuming t" "clock_ready t" "sched_of t = (sched_tick ^^ ticks_in es) ?S" by (rule clock_inv_cases)
  have ok: "sched_ok t" using t(2) by (simp add: clock_ready_def)
  have "\<exists>us. ready (sched_of t) = drop (ticks_in es) ps @ p # qs @ us" if "ticks_in es \<le> length ps"
    using ready_advances [OF assms(2) that] t(3) by simp
  moreover have "current_process t = p \<and> (\<exists>b. pcbs t p = Some b \<and> pstate b = PROC_RUNNING)" if k: "ticks_in es = Suc (length ps)"
  proof -
    from ready_advances [OF assms(2) order_refl] obtain us where "ready ((sched_tick ^^ length ps) ?S) = p # qs @ us" by auto
    with sched_tick_ready have "running ((sched_tick ^^ Suc (length ps)) ?S) = p" by fastforce
    then have p: "current_process t = p" using t(3) k by (metis sched_of_sel(2))
    have "idle ((sched_tick ^^ k) ?S) = idle ?S" for k by (induction k) simp_all
    then have "idle_proc t = idle ?S" using t(3) by (metis sched_of_sel(1))
    moreover have "p \<noteq> idle ?S" using sched_ok_idle [of s] assms by (auto simp: clock_ready_def)
    ultimately show ?thesis using ok p by (auto simp: sched_ok_def run_ok_def)
  qed
  ultimately show "\<exists>t. (m = User t \<or> m = Resuming t) \<and>
        (ticks_in es \<le> length ps \<longrightarrow> (\<exists>us. ready (sched_of t) = drop (ticks_in es) ps @ p # qs @ us)) \<and>
        (ticks_in es = Suc (length ps) \<longrightarrow> current_process t = p \<and> (\<exists>b. pcbs t p = Some b \<and> pstate b = PROC_RUNNING))" using t(1) by blast
qed

theorem ready_runs_in_turn_witness:
  "\<exists>es t. run (\<lambda>_. None) (User clock_ex) es (User t) \<and> set es \<subseteq> clock_events \<and> ticks_in es = 1 \<and> current_process t = 102"
proof -
  have "ready (sched_of clock_ex) = [] @ 102 # []" by (simp add: clock_ex_sched)
  note turn = ready_runs_in_turn [OF clock_ex_ready this, of "\<lambda>_. None"]
  from turn obtain es t where r: "run (\<lambda>_. None) (User clock_ex) es (User t)" "set es \<subseteq> clock_events" "ticks_in es = 1" by auto
  with turn have "current_process t = 102" by fastforce
  with r show ?thesis by blast
qed

text \<open>
  C9. A sleeper wakes on the tick it asked for: the kernel call \<^verbatim>\<open>Delay(n)\<close> with \<open>n > 0\<close> gives up the processor, and in a run in which from then on the only interrupts are those
  of the clock (the other processes as for C8), the caller is on the blocked queue after \<open>k\<close> interrupts if and only if \<open>k < n\<close>; from then on
  it is ready or running. Such runs exist for every \<open>k\<close>. (Other interrupts can wake it earlier: the exit of a child puts a parent on the ready queue
  even while it sleeps.)
\<close>

theorem Delay_wakes_exactly:
  assumes "clock_ready s" and "TRAP_VECTOR s ! TRAP_KERNEL = H_Kernel" and "current_process s = p" and "p \<noteq> idle_proc s"
    and "code c = YALNIX_DELAY" and "sint (reg c 0) = n" and "0 < n"
  shows "\<exists>t. trap fs TRAP_KERNEL line (s\<lparr>ctx := c\<rparr>) = Switched t \<and> \<not> kernel_changed s t \<and>
    (\<forall>es m. run fs (Resuming t) es m \<and> set es \<subseteq> clock_events \<and> m \<noteq> Overwritten \<longrightarrow>
      (\<exists>u. (m = User u \<or> m = Resuming u) \<and> (p \<in> set (blocked (sched_of u)) \<longleftrightarrow> int (ticks_in es) < n) \<and>
        p \<in> set (procs_in (sched_of u)))) \<and>
    (\<forall>k. \<exists>es u. run fs (Resuming t) es (User u) \<and> set es \<subseteq> clock_events \<and> ticks_in es = k)"
proof -
  let ?S = "sched_delay n (sched_of s)"
  have "n \<noteq> 0" "-1 \<le> n" using assms(7) by simp_all
  from delay_call [OF assms(1-6) this, of fs line] obtain t where
    t: "trap fs TRAP_KERNEL line (s\<lparr>ctx := c\<rparr>) = Switched t" "\<not> kernel_changed s t" "clock_inv ?S (Resuming t)" by blast
  have S: "p \<in> set (blocked ?S)" "ticks ?S p = n" using assms(3) by (simp_all add: sched_delay_fields sched_of_sel)
  then have now: "p \<in> set (procs_in ?S)" by (simp add: procs_in_def)
  have idle: "idle ?S \<notin> set (procs_in ?S)" using t(3) sched_ok_idle [of t] by (auto simp: clock_ready_def procs_in_def)
  have "\<exists>u. (m = User u \<or> m = Resuming u) \<and> (p \<in> set (blocked (sched_of u)) \<longleftrightarrow> int (ticks_in es) < n) \<and> p \<in> set (procs_in (sched_of u))"
    if r: "run fs (Resuming t) es m" "set es \<subseteq> clock_events" "m \<noteq> Overwritten" for es m
  proof -
    from clock_run [OF r(1) t(3) r(2)] r(3) have "clock_inv ((sched_tick ^^ ticks_in es) ?S) m" by blast
    then obtain u where u: "m = User u \<or> m = Resuming u" "clock_ready u" "sched_of u = (sched_tick ^^ ticks_in es) ?S" by (rule clock_inv_cases)
    have "p \<in> set (blocked (sched_of u)) \<longleftrightarrow> int (ticks_in es) < n"
      using wakes_after [OF S(1), of "ticks_in es"] S(2) assms(7) u(3) by simp
    moreover have "p \<in> set (procs_in (sched_of u))"
      using now procs_in_ticks [of ?S "ticks_in es"] idle u(3) by simp
    ultimately show ?thesis using u(1) by blast
  qed
  moreover have "\<exists>es u. run fs (Resuming t) es (User u) \<and> set es \<subseteq> clock_events \<and> ticks_in es = k" for k
    by (rule clock_run_extends [OF t(3)])
  ultimately show ?thesis using t(1,2) by blast
qed

theorem Delay_wakes_exactly_witness:
  "\<exists>t es u es' u'. trap (\<lambda>_. None) TRAP_KERNEL [] (clock_ex\<lparr>ctx := uctx0\<lparr>code := YALNIX_DELAY, regs := [3, 0, 0, 0, 0, 0, 0, 0]\<rparr>\<rparr>) = Switched t \<and>
     run (\<lambda>_. None) (Resuming t) es (User u) \<and> ticks_in es = 2 \<and> 101 \<in> set (blocked (sched_of u)) \<and>
     run (\<lambda>_. None) (Resuming t) es' (User u') \<and> ticks_in es' = 3 \<and> 101 \<notin> set (blocked (sched_of u')) \<and> 101 \<in> set (procs_in (sched_of u'))"
proof -
  let ?c = "uctx0\<lparr>code := YALNIX_DELAY, regs := [3, 0, 0, 0, 0, 0, 0, 0]\<rparr>"
  have "TRAP_VECTOR clock_ex ! TRAP_KERNEL = H_Kernel" "current_process clock_ex = 101" "(101 :: addr) \<noteq> idle_proc clock_ex"
    "code ?c = YALNIX_DELAY" "sint (reg ?c 0) = 3" by (simp_all add: clock_ex_def vector_defs reg_def)
  from Delay_wakes_exactly [OF clock_ex_ready this, of "\<lambda>_. None" "[]"] obtain t where
    t: "trap (\<lambda>_. None) TRAP_KERNEL [] (clock_ex\<lparr>ctx := ?c\<rparr>) = Switched t"
    and all: "\<And>es m. run (\<lambda>_. None) (Resuming t) es m \<Longrightarrow> set es \<subseteq> clock_events \<Longrightarrow> m \<noteq> Overwritten \<Longrightarrow>
      \<exists>u. (m = User u \<or> m = Resuming u) \<and> (101 \<in> set (blocked (sched_of u)) \<longleftrightarrow> int (ticks_in es) < 3) \<and> 101 \<in> set (procs_in (sched_of u))"
    and ex: "\<And>k. \<exists>es u. run (\<lambda>_. None) (Resuming t) es (User u) \<and> set es \<subseteq> clock_events \<and> ticks_in es = k" by auto
  from ex [of 2] ex [of 3] obtain es u es' u' where
    "run (\<lambda>_. None) (Resuming t) es (User u)" "set es \<subseteq> clock_events" "ticks_in es = 2"
    "run (\<lambda>_. None) (Resuming t) es' (User u')" "set es' \<subseteq> clock_events" "ticks_in es' = 3" by blast
  with all [of es "User u"] all [of es' "User u'"] t show ?thesis by auto
qed

text \<open>
  The guard of \<^verbatim>\<open>Delay\<close> is \<^verbatim>\<open>clock_ticks < -1\<close>: the one negative argument it lets through, -1,
  puts the caller on the blocked queue with a count that no clock interrupt ever brings to zero. The arguments below end the process' call with \<^verbatim>\<open>ERROR\<close>.
\<close>

theorem Delay_minus_one_never_wakes:
  assumes "clock_ready s" and "TRAP_VECTOR s ! TRAP_KERNEL = H_Kernel" and "current_process s = p" and "p \<noteq> idle_proc s"
    and "code c = YALNIX_DELAY" and "sint (reg c 0) = -1"
  shows "\<exists>t. trap fs TRAP_KERNEL line (s\<lparr>ctx := c\<rparr>) = Switched t \<and>
    (\<forall>es m. run fs (Resuming t) es m \<and> set es \<subseteq> clock_events \<and> m \<noteq> Overwritten \<longrightarrow>
      (\<exists>u. (m = User u \<or> m = Resuming u) \<and> p \<in> set (blocked (sched_of u)))) \<and>
    (\<forall>n < -1. Delay n s = Ret ERROR s)"
proof -
  let ?S = "sched_delay (-1) (sched_of s)"
  from delay_call [OF assms] obtain t where
    t: "trap fs TRAP_KERNEL line (s\<lparr>ctx := c\<rparr>) = Switched t" "clock_inv ?S (Resuming t)" by auto
  have S: "p \<in> set (blocked ?S)" "ticks ?S p \<le> 0" using assms(3) by (simp_all add: sched_delay_fields sched_of_sel)
  have "\<exists>u. (m = User u \<or> m = Resuming u) \<and> p \<in> set (blocked (sched_of u))"
    if r: "run fs (Resuming t) es m" "set es \<subseteq> clock_events" "m \<noteq> Overwritten" for es m
  proof -
    from clock_run [OF r(1) t(2) r(2)] r(3) have "clock_inv ((sched_tick ^^ ticks_in es) ?S) m" by blast
    then obtain u where "m = User u \<or> m = Resuming u" "sched_of u = (sched_tick ^^ ticks_in es) ?S" by (rule clock_inv_cases)
    with stays_blocked [OF S] show ?thesis by auto
  qed
  moreover have "Delay n s = Ret ERROR s" if "n < -1" for n using that by (simp add: Delay_def prog_simps)
  ultimately show ?thesis using t(1) by blast
qed

end
