(* ===== verification/Kernel_Safety.thy ===== *)
theory Kernel_Safety
  imports Booting Clock_Runs
begin

text \<open>
  The invariant of the whole system, from the bare machine on, and a run of the machine through its boot and its first clock interrupt.
\<close>

section \<open>The boot is not a memory error\<close>

lemma boot_unchanged:
  assumes "boots bi pmem_size fs args li rd npid"
  shows "\<exists>s. booted bi ph (KernelStart bi fs args pmem_size (start_state ph uc (\<lambda>_. True) (\<lambda>_. True) npid)) = User s \<and>
    init_made bi npid li rd args s \<and> kinv {} s"
proof -
  have bi: "image_fits bi" using assms by (simp add: boots_def)
  from KernelStart_ok [OF assms, of ph uc] obtain s where
    s: "KernelStart bi fs args pmem_size (start_state ph uc (\<lambda>_. True) (\<lambda>_. True) npid) = Ret () s" "init_made bi npid li rd args s"
    and im: "\<And>v i. first_kernel_text_page bi \<le> v \<Longrightarrow> v < orig_kernel_brk_page bi \<Longrightarrow> pt_region0 (km s) ! v = boot_table bi ! v"
      "\<And>v i. first_kernel_text_page bi \<le> v \<Longrightarrow> v < orig_kernel_brk_page bi \<Longrightarrow> i < PAGESIZE \<Longrightarrow> phys (km s) v i = ph v i" by blast
  have "\<not> boot_changed bi ph (km s)"
    using im boot_table_image(1,3) [OF bi] by (simp add: boot_changed_def)
  moreover have "kinv {} s" using yieldsD [OF yields_KernelStart start_state_kinv s(1)] by (rule kinv_weaken)
  ultimately show ?thesis using s by auto
qed

lemma boot_clock_ready:
  assumes i: "init_made bi npid li rd args s" and k: "kinv {} s" and np: "npid 21 = IDLE_PID" "npid 26 \<noteq> IDLE_PID"
  shows "clock_ready s"
proof -
  note S = init_made_sched [OF i k np]
  have "returns_at_once s 23" using i by (simp add: init_made_def returns_at_once_def)
  moreover have "TRAP_VECTOR s ! TRAP_CLOCK = H_Clock" using i by (simp add: init_made_def vector_set_def vector_defs)
  moreover have "current_process s = 19" using i by (simp add: init_made_def)
  moreover have "will_run (sched_of s) = {19, 23}" by (auto simp: S(2) will_run_def)
  ultimately show ?thesis using S(1) by (simp add: clock_ready_def)
qed

text \<open>The clock interrupts the idle process and the kernel continues the first process, at the entry of its program.\<close>

lemma boot_runs:
  assumes boots: "boots bi pmem_size fs args li rd npid"
  shows "\<exists>v. run fs (booted bi ph (KernelStart bi fs args pmem_size (start_state ph uc (\<lambda>_. True) (\<lambda>_. True) npid)))
      [Interrupt TRAP_CLOCK, Continue] (User v) \<and> current_process v = 23 \<and> pc (ctx v) = entry li"
proof -
  have bi: "image_fits bi" "npid 21 = IDLE_PID" "npid 26 \<noteq> IDLE_PID" using boots by (simp_all add: boots_def)
  from boot_unchanged [OF boots, of ph uc] obtain s where
    s: "booted bi ph (KernelStart bi fs args pmem_size (start_state ph uc (\<lambda>_. True) (\<lambda>_. True) npid)) = User s"
    and i: "init_made bi npid li rd args s" and k: "kinv {} s" by blast
  have cr: "clock_ready s" by (rule boot_clock_ready [OF i k bi(2,3)])
  from first_tick [OF i bi(1,2) k, of "ctx s"] obtain t v where
    t: "ClockTrapHandler (s\<lparr>ctx := ctx s\<rparr>) = Switched t" "resume t = Ret () v" and v: "current_process v = 23" "pc (ctx v) = entry li" by blast
  have vec: "length (TRAP_VECTOR s) = TRAP_VECTOR_SIZE" "TRAP_VECTOR s ! TRAP_CLOCK = H_Clock" using k cr by (simp_all add: kinv_def clock_ready_def)
  then have tr: "trap fs TRAP_CLOCK [] (s\<lparr>ctx := ctx s\<rparr>) = Switched t" using t(1) by (simp add: trap_def vector_defs)
  from clock_interrupt [OF cr, of fs "[]" "ctx s"] tr have R: "checked s (Resuming t) = Resuming t" "clock_ready t" "returns_at_once t (current_process t)"
    by (simp_all split: if_splits)
  from resume_at_once [OF R(2,3)] t(2) obtain c where c: "v = t\<lparr>ctx := c\<rparr>" by auto
  have "length (regs (ctx s)) = 8" using i by (simp add: init_made_def idle_boot_def uctx0_def)
  then have "step fs (Interrupt TRAP_CLOCK) (User s) (Resuming t)"
    using step.user_trap [of TRAP_CLOCK "ctx s" fs s "[]"] tr R(1) by (simp add: vector_defs)
  moreover have "step fs Continue (Resuming t) (User v)"
    using step.continue [of fs t] t(2) c by (simp add: kernel_changed_def)
  ultimately have "run fs (User s) ([] @ [Interrupt TRAP_CLOCK] @ [Continue]) (User v)"
    using run.run_step [OF run.run_step [OF run.run_start]] by fastforce
  with s v show ?thesis by auto
qed

section \<open>The property of the running system\<close>

text \<open>
  C1. Up to the first memory error the kernel keeps its data in order. Take any boot of any image, whether allocations and context switches fail or not, and any run after it: user programs
  work, trap and call the kernel as they like, terminals deliver what they like, the kernel's allocator moves the break, the bytes of the kernel's own memory change as it works.
  As long as the kernel has not followed a null or dangling pointer, left an array or looped (\<open>Crashed\<close>) and the memory it keeps its own data in has not been changed
  by a store through a user's pointer or by remapping (\<open>Overwritten\<close>), the queues are well-formed doubly linked lists below the allocation pointer,
  the page table of the kernel, the frame table, the process table and the trap vector have their sizes, the input buffer of every
  terminal is of full size with its fill count in range, what is left to transmit lies inside the write
  buffer, and no process waits for a terminal with arguments \<^verbatim>\<open>TtyWrite\<close> would have refused. After \<^verbatim>\<open>Halt\<close>, which may come in the middle of the
  boot, all of this holds but what is said of the terminals.
  (A process can bring such an error about: \<^verbatim>\<open>Wait\<close> stores the status wherever it is told, \<^verbatim>\<open>Brk\<close> runs past its page table. The property says nothing of what follows.
  The model's \<^verbatim>\<open>malloc\<close> never gives an address twice, so that a use of freed memory shows as \<open>Crashed\<close> and not as a wrong object.)
\<close>

theorem kernel_invariant:
  assumes "reachable fs (booted bi ph (KernelStart bi fs args n (start_state ph uc mok kok npid))) m"
  shows "(m = User s \<or> m = Resuming s \<longrightarrow> kinv {..<NUM_TERMINALS} s) \<and> (m = Stopped s \<longrightarrow> kinv {} s)"
proof -
  from assms obtain es where "run fs (booted bi ph (KernelStart bi fs args n (start_state ph uc mok kok npid))) es m" by (auto simp: reachable_def)
  then have "good m" by (rule run_good) (rule good_booted)
  then show ?thesis by (auto simp: good_def)
qed

theorem kernel_invariant_witness:
  "\<exists>v. run (fs_ex (\<lambda>off n. replicate n 7)) (booted boot_ex (\<lambda>_ _. 0) (KernelStart boot_ex (fs_ex (\<lambda>off n. replicate n 7)) [[65]] 0x400000
       (start_state (\<lambda>_ _. 0) uctx0 (\<lambda>_. True) (\<lambda>_. True) (\<lambda>n. if n = 21 then 0 else 1)))) [Interrupt TRAP_CLOCK, Continue] (User v) \<and>
     current_process v = 23 \<and> pc (ctx v) = 0x100020 \<and> kinv {..<NUM_TERMINALS} v"
proof -
  have "entry li_ex = 0x100020" by (simp add: li_ex_def)
  with boot_runs [OF boots_ex, of "\<lambda>_ _. 0" uctx0] obtain v where
    v: "run (fs_ex (\<lambda>off n. replicate n 7)) (booted boot_ex (\<lambda>_ _. 0) (KernelStart boot_ex (fs_ex (\<lambda>off n. replicate n 7)) [[65]] 0x400000
       (start_state (\<lambda>_ _. 0) uctx0 (\<lambda>_. True) (\<lambda>_. True) (\<lambda>n. if n = 21 then 0 else 1)))) [Interrupt TRAP_CLOCK, Continue] (User v)"
      "current_process v = 23" "pc (ctx v) = 0x100020" by auto
  from v(1) have "reachable (fs_ex (\<lambda>off n. replicate n 7)) (booted boot_ex (\<lambda>_ _. 0) (KernelStart boot_ex (fs_ex (\<lambda>off n. replicate n 7)) [[65]] 0x400000
       (start_state (\<lambda>_ _. 0) uctx0 (\<lambda>_. True) (\<lambda>_. True) (\<lambda>n. if n = 21 then 0 else 1)))) (User v)" unfolding reachable_def by blast
  from kernel_invariant [OF this, of v] v show ?thesis by blast
qed

end
