(* ===== verification/Spec2Isabelle.thy ===== *)
theory Spec2Isabelle
  imports Heap_Properties Terminal_Input User_Output Scan_Properties Kernel_Safety
begin

text \<open>
  Verification of the Yalnix kernel and of the library its user programs are linked with.

  \<^bold>\<open>The program.\<close> \<^verbatim>\<open>src/src/\<close> is a small Unix-like kernel for the simulated Yalnix machine (32 bits, two regions of 128
  pages of 8 KB, a software-flushed TLB). The machine boots into \<^verbatim>\<open>KernelStart\<close>, which builds the page table of region 0,
  the frame table, the process table, the queues and the terminals, creates the idle and the init process and
  returns to user mode. From then on the kernel runs only in its trap handlers: the clock, system calls, memory
  faults, other exceptions, and the two terminal interrupts. A process that cannot go on is put into a queue and the
  handler switches to another process with \<^verbatim>\<open>KernelContextSwitch\<close>; it continues inside the handler when it is
  chosen again. User programs are linked with \<^verbatim>\<open>.yalnix/etc/new_heap.c\<close> and \<^verbatim>\<open>.yalnix/etc/yuserlib\<close>: a heap that grows by the
  system call \<^verbatim>\<open>Brk\<close>, string functions, formatted input and output, the start-up code, and the stubs that enter the kernel
  by a software trap.

  \<^bold>\<open>Theories and sources.\<close>
  \<^item> \<^verbatim>\<open>Prelude\<close>: programs over a state with the outcomes returned, switched, halted and fault; the combinators that
    stand for sequencing, loops and pointer access; invariants of programs (\<open>keeps\<close>, \<open>leads\<close>, \<open>yields\<close>) and their rules.
  \<^item> \<^verbatim>\<open>Hardware\<close> (\<^verbatim>\<open>.yalnix/include/hardware.h\<close>, \<^verbatim>\<open>yalnix.h\<close>): geometry, page table entries, user context, registers,
    translation through TLB and page tables, loads and stores of bytes.
  \<^item> \<^verbatim>\<open>Queue\<close> (\<^verbatim>\<open>queue.c\<close>): doubly linked queues on a heap of nodes, every operation of the file.
  \<^item> \<^verbatim>\<open>Mem\<close> (\<^verbatim>\<open>mem.c\<close>, \<^verbatim>\<open>SetKernelBrk\<close> and the kernel stacks of \<^verbatim>\<open>kernel.c\<close>): frame table, page tables, copying.
  \<^item> \<^verbatim>\<open>Kernel_State\<close> (\<^verbatim>\<open>include/proc.h\<close>, \<^verbatim>\<open>include/syscalls/tty.h\<close>, the global variables): the record of the whole kernel and its
    invariant \<open>kinv\<close>.
  \<^item> \<^verbatim>\<open>Proc\<close> (\<^verbatim>\<open>proc.c\<close>), \<^verbatim>\<open>Kernel\<close> (context switch of \<^verbatim>\<open>kernel.c\<close>), \<^verbatim>\<open>Process\<close> (\<^verbatim>\<open>syscalls/process.c\<close>), \<^verbatim>\<open>Tty\<close> (\<^verbatim>\<open>syscalls/tty.c\<close>),
    \<^verbatim>\<open>Loader\<close> (\<^verbatim>\<open>LoadProgram\<close>, \<^verbatim>\<open>Exec\<close>), \<^verbatim>\<open>Traps\<close> (\<^verbatim>\<open>traps/trap.c\<close>), \<^verbatim>\<open>Init\<close> (\<^verbatim>\<open>init.c\<close>, \<^verbatim>\<open>KernelStart\<close>): the operations, named as
    in the code. What a call does after a context switch is a definition of its own (suffix \<open>_resume\<close>, and \<open>resume\<close> in
    \<^verbatim>\<open>Traps\<close>).
  \<^item> \<^verbatim>\<open>System\<close>: the running machine as a step relation on top of the handlers, with its events, its runs, and the two ends a memory error
    puts to a run. \<^verbatim>\<open>Kernel_Safety\<close>: the invariant of every run up to there, from the bare machine on.
  \<^item> \<^verbatim>\<open>Scheduling\<close>, \<^verbatim>\<open>User_Memory\<close>, \<^verbatim>\<open>Terminals\<close>, \<^verbatim>\<open>Terminal_Input\<close>, \<^verbatim>\<open>Children\<close>: the behaviour of the handlers and calls, with
    the queues seen as lists. \<^verbatim>\<open>Clock_Runs\<close>: runs of the machine with no interrupts but those of the clock. \<^verbatim>\<open>Kernel_Example\<close> is a kernel with five processes on which the hypotheses are checked.
  \<^item> \<^verbatim>\<open>Loading\<close>, \<^verbatim>\<open>Program_Arguments\<close>, \<^verbatim>\<open>Program_Start\<close>: the address space \<^verbatim>\<open>LoadProgram\<close> builds, the argument vector, and \<^verbatim>\<open>Exec\<close> from the
    stub to the first instruction. \<^verbatim>\<open>Forking\<close>: \<^verbatim>\<open>Fork\<close> from the stub to the first return of the child.
  \<^item> \<^verbatim>\<open>Boot_Tables\<close>, \<^verbatim>\<open>Boot_Idle\<close>, \<^verbatim>\<open>Boot_Init\<close>, \<^verbatim>\<open>Booting\<close>: \<^verbatim>\<open>KernelStart\<close> from the bare machine to the first instruction of \<^verbatim>\<open>init\<close>.
  \<^item> \<^verbatim>\<open>User_Heap\<close> (\<^verbatim>\<open>new_heap.c\<close>, \<^verbatim>\<open>brk\<close>, \<^verbatim>\<open>sbrk\<close>, \<^verbatim>\<open>init_heap\<close>, \<^verbatim>\<open>grow_heap\<close> of \<^verbatim>\<open>libc.c\<close>), \<^verbatim>\<open>Heap_Alloc\<close>, \<^verbatim>\<open>Heap_Properties\<close>: the
    allocator of user programs.
  \<^item> \<^verbatim>\<open>User_Strings\<close> (\<^verbatim>\<open>yuserlib/common\<close>: character classes, blocks of memory, strings, \<^verbatim>\<open>strntoumax\<close>, random numbers),
    \<^verbatim>\<open>String_Properties\<close>; \<^verbatim>\<open>User_Printf\<close> (\<^verbatim>\<open>vsnprintf.c\<close>, \<^verbatim>\<open>sprintf.c\<close>, \<^verbatim>\<open>vsprintf.c\<close>, \<^verbatim>\<open>TtyPrintf\<close>), \<^verbatim>\<open>Printf_Numbers\<close>, \<^verbatim>\<open>Printf_Properties\<close>;
    \<^verbatim>\<open>User_Scanf\<close> (\<^verbatim>\<open>vsscanf.c\<close>, \<^verbatim>\<open>sscanf.c\<close>), \<^verbatim>\<open>Scan_Properties\<close>: the C library, over a memory of bytes.
  \<^item> \<^verbatim>\<open>User_Calls\<close> (\<^verbatim>\<open>yuser/calls.c\<close>, the rest of \<^verbatim>\<open>libc.c\<close>, \<^verbatim>\<open>start.c\<close>): the stubs and what they meet in the kernel. \<^verbatim>\<open>User_Store\<close>:
    the memory of the library is implemented by the loads and stores of a process through TLB and page tables. \<^verbatim>\<open>User_Output\<close>:
    formatted output reaches the terminal.

  \<^bold>\<open>State.\<close> \<open>kstate\<close> holds the memory (\<open>km\<close>), the queues (\<open>qh\<close>), the process control blocks by address (\<open>pcbs\<close>), the globals
  of the kernel, the terminals, the user context of the running handler, and a log of what was transmitted. A pointer is
  an address, 0 the null pointer; following a null or freed pointer, leaving an array and a kernel page fault are
  outcomes of their own. Machine words are kept at 32 bits in the memory component and the terminals, page frame numbers
  at the 24 bits of the bit field; the user heap writes its wrap-around out (\<open>u32\<close>). The C library works on a map from
  addresses to bytes and returns \<open>None\<close> when it touches an unmapped address or does not return; numbers it parses and prints
  have the 64 bits of \<^verbatim>\<open>uintmax_t\<close>, and variable arguments are the 4-byte slots on the stack.

  \<^bold>\<open>Memory errors.\<close> The model keeps the data of the kernel in fields of the state, not in the bytes of \<open>km\<close>. The kernel itself can destroy that data:
  \<^verbatim>\<open>Wait\<close> stores through any pointer a process passes, \<^verbatim>\<open>Brk\<close> runs past its page table, the kernel heap can run into the scratch pages. A run of the machine therefore ends in \<open>Crashed\<close> when the
  kernel follows a null or dangling pointer, leaves an array or loops, and in \<open>Overwritten\<close> when a step has changed a byte of the frames in which the kernel keeps its image, its
  heap and the kernel stacks, or the mapping of the pages below the kernel break; what the C code does from there on is not modelled, and
  no property speaks of it. The bytes of these frames may otherwise change to anything at any time between two steps, as the kernel works on its data.
  The kernel's \<^verbatim>\<open>malloc\<close> gives every object a new address and takes no frame itself (the break moves in steps of its own), so that a use of freed memory is a fault of the model.

  \<^bold>\<open>Interfaces.\<close> The locale \<open>queue_store\<close> (laws of the queues as lists, interpreted by the linked queues), \<open>frame_allocator\<close>
  (what taking and returning frames means for the set of free frames, interpreted by \<^verbatim>\<open>allocFrame\<close> and \<^verbatim>\<open>freeFrame\<close>), \<open>allocator\<close>
  (live objects stay apart, interpreted by \<^verbatim>\<open>malloc\<close> and \<^verbatim>\<open>free\<close>) and \<open>byte_memory\<close> (a store changes one byte, interpreted by the
  library's map of bytes and by the translated memory of a process).

  \<^bold>\<open>What is shown.\<close>
  \<^item> An invariant of the whole system: in every state that can be reached by the boot and after it, up to the first memory error, the queues are well-formed lists, the
    tables have their sizes and the terminal buffers are in bounds.
  \<^item> Refinement: \<^verbatim>\<open>queue.c\<close> implements lists; the clock handler and \<^verbatim>\<open>Delay\<close> implement a round-robin scheduler with sleeping processes. In a run of the machine
    with no interrupts but those of the clock, in which the processes that get the processor return to user mode at once, a ready process runs after as many
    ticks as there are processes before it and a sleeper wakes on the tick it asked for.
  \<^item> Memory: \<^verbatim>\<open>CopyPT\<close> isolates the child, \<^verbatim>\<open>CloneFrame\<close> copies, growing and shrinking the kernel heap is a round trip,
    a stack fault is repaired or rolled back, \<^verbatim>\<open>Brk\<close> grows the heap; the cases in which the code goes wrong (stale TLB entries,
    the scratch pages, the shrinking loop of \<^verbatim>\<open>Brk\<close>, the wrap-around in \<^verbatim>\<open>CheckBuffer\<close>, lost frames) are theorems too.
  \<^item> Terminals: a write is sent completely and in order and its writer is woken; input reaches the readers in order.
  \<^item> Boot: with enough memory the bare machine becomes a kernel that runs the idle process, and its first clock interrupt starts the
    program it was given; the state it leaves satisfies the hypotheses of the properties of the scheduler.
  \<^item> Programs: \<^verbatim>\<open>Exec\<close> replaces the address space of the caller by that of the file, with its arguments on the stack; a file that cannot be
    loaded changes nothing; a file that ends too early leaves a half-loaded program running.
  \<^item> Processes: \<^verbatim>\<open>Fork\<close> makes a child with a private copy of the memory that returns 0 from the same call; a parent learns pid and status of its child by \<^verbatim>\<open>Wait\<close>; what \<^verbatim>\<open>Exit\<close> and the deletion of a process leave behind.
  \<^item> User heap: live objects never overlap, \<^verbatim>\<open>free\<close> undoes \<^verbatim>\<open>malloc\<close>, \<^verbatim>\<open>realloc\<close> keeps the contents, \<^verbatim>\<open>calloc\<close> clears, the
    self-check accepts every well-formed heap.
  \<^item> C library: \<^verbatim>\<open>memmove\<close> copies overlapping blocks, \<^verbatim>\<open>memmem\<close> finds the first occurrence, \<^verbatim>\<open>strtok\<close> splits, \<^verbatim>\<open>strntoumax\<close> reads
    numbers; \<^verbatim>\<open>vsnprintf\<close> is equal to a formatter without a buffer, cut to the size of the buffer, for every format without \<^verbatim>\<open>%n\<close>;
    \<^verbatim>\<open>vsscanf\<close> reads back what \<^verbatim>\<open>vsnprintf\<close> prints; \<^verbatim>\<open>%[\<close> and \<^verbatim>\<open>TtyPrintf\<close> are shown to misbehave as they do.
  \<^item> Library and kernel together: stores through the page tables of a process implement the library's memory, the text of \<^verbatim>\<open>TtyPrintf\<close> is sent by the terminal, the result of \<^verbatim>\<open>main\<close> reaches the memory of the parent that sleeps in \<^verbatim>\<open>Wait\<close> (when nobody else is ready),
    and a call without a case in \<^verbatim>\<open>KernelTrapHandler\<close> returns its own first argument.

  \<^bold>\<open>Bounds.\<close> A walk over a queue has as much fuel as there are addresses handed out (\<open>limit\<close>), enough for every acyclic queue; on
  well-formed queues the walks are shown to end. The shrinking loop of \<^verbatim>\<open>Brk\<close> has fuel for one pass over the tables, and it is
  shown to run out for every amount of fuel where the loop really diverges. Walks of the user heap are bounded by the number
  of blocks. Loops of the C library over strings have no fuel: they are partial functions, and the theorems show that they return.

  \<^bold>\<open>Parameters.\<close> Which calls of the kernel's \<^verbatim>\<open>malloc\<close> and of \<^verbatim>\<open>KernelContextSwitch\<close> succeed, the pids of \<^verbatim>\<open>helper_new_pid\<close>, the files
  and \<^verbatim>\<open>LoadInfo\<close>, the layout of the kernel image, the bytes a terminal delivers, the answers of \<^verbatim>\<open>SysBrk\<close>, whether the machine
  stops a program at the trap of \<^verbatim>\<open>helper_maybort\<close> (the kernel does not), and how
  \<^verbatim>\<open>int $04\<close> turns registers into the user context (\<open>passes_registers\<close> says what is relied on).

  \<^bold>\<open>Not modelled.\<close> Pipes, locks and condition variables (only pseudo-code in comments); \<^verbatim>\<open>sample/\<close> (templates and an older copy of
  the heap); the user programs, which only issue calls; tracing; the disk, which the kernel never uses; \<^verbatim>\<open>atoi\<close> and
  \<^verbatim>\<open>atol\<close>, whose bodies are in a header that is not in the repository; the tracing wrappers and the linker stubs of \<^verbatim>\<open>libc.c\<close>.
\<close>

end
